(* ===== verification/Prelude.thy ===== *)
theory Prelude
  imports Main "HOL-Library.AList" "HOL-Library.List_Lexorder" "HOL-Library.Char_ord"
begin

text \<open>
  Shared vocabulary of the development. Python dictionaries keep insertion order, so they are
  association lists here, written with \<open>AList.update\<close> (replace in place, append when new) and
  \<open>AList.delete\<close>; \<open>map_of\<close> is their lookup. Exceptions are values of \<open>py_error\<close>, and an
  operation that may raise returns \<open>py_error + 'a\<close>. Python strings are \<open>string\<close>s, compared
  lexicographically (\<open>HOL-Library.List_Lexorder\<close> over \<open>HOL-Library.Char_ord\<close>).
  The theory ends with the one interface that several components implement: a state-based
  replicated type whose \<open>join\<close> is a semilattice on the well-formed states.
\<close>

section \<open>Types and collections of facts\<close>

type_synonym ('k, 'v) dict = "('k \<times> 'v) list"

datatype py_error = ValueError | KeyError | IndexError | RuntimeError | TypeError | StructError | ConfigError | ZeroDivisionError | AttributeError | BatchCapacityError | AssertionError

named_theorems dict_simps "lookups in updated association lists"
named_theorems frame_simps "fields that an operation does not touch"

section \<open>Dictionaries\<close>

abbreviation dict_keys :: "('k, 'v) dict \<Rightarrow> 'k list" where
  "dict_keys d \<equiv> map fst d"

definition dict_wf :: "('k, 'v) dict \<Rightarrow> bool" where
  "dict_wf d \<longleftrightarrow> distinct (dict_keys d)"

lemma map_of_update [simp, dict_simps]: "map_of (AList.update k v d) = (map_of d)(k \<mapsto> v)"
  by (rule update_conv')

lemma map_of_delete [simp, dict_simps]: "map_of (AList.delete k d) = (map_of d)(k := None)"
  by (rule delete_conv')

lemma dict_wf_Nil [simp, intro]: "dict_wf []"
  by (simp add: dict_wf_def)

lemma dict_wf_update [simp, intro]: "dict_wf d \<Longrightarrow> dict_wf (AList.update k v d)"
  by (simp add: dict_wf_def distinct_update)

lemma dict_wf_delete [simp, intro]: "dict_wf d \<Longrightarrow> dict_wf (AList.delete k d)"
  by (simp add: dict_wf_def distinct_delete)

lemma dict_wf_Cons: "dict_wf ((k, v) # d) \<longleftrightarrow> map_of d k = None \<and> dict_wf d"
  by (auto simp: dict_wf_def map_of_eq_None_iff)

lemma dict_wf_filter [intro]: "dict_wf d \<Longrightarrow> dict_wf (filter P d)"
  by (simp add: dict_wf_def distinct_map_filter)

lemma map_of_filter_dict:
  "dict_wf d \<Longrightarrow> map_of (filter (\<lambda>(k, v). P k v) d) k =
     (case map_of d k of None \<Rightarrow> None | Some v \<Rightarrow> if P k v then Some v else None)"
proof (induction d)
  case Nil
  then show ?case by simp
next
  case (Cons kv d)
  obtain k' v' where kv: "kv = (k', v')" by (cases kv)
  with Cons.prems have "map_of d k' = None" "dict_wf d" by (auto simp: dict_wf_Cons)
  with Cons.IH kv show ?case by auto
qed

lemma update_new: "k \<notin> fst ` set d \<Longrightarrow> AList.update k v d = d @ [(k, v)]"
  by (induction d) auto

lemma set_delete: "set (AList.delete k d) = {p \<in> set d. fst p \<noteq> k}"
  by (auto simp: AList.delete_eq)

lemma dict_wf_delete_append: "dict_wf d \<Longrightarrow> dict_wf (AList.delete k d @ [(k, v)])"
  by (auto simp: dict_wf_def distinct_delete set_delete)

lemma dict_length: "dict_wf d \<Longrightarrow> length d = card (fst ` set d)"
  using distinct_card [of "dict_keys d"] by (simp add: dict_wf_def)

lemma dict_mem_iff: "dict_wf d \<Longrightarrow> (k, v) \<in> set d \<longleftrightarrow> map_of d k = Some v"
  by (auto simp: dict_wf_def)

section \<open>Strings\<close>

definition ascii :: "string \<Rightarrow> bool" where
  "ascii s \<longleftrightarrow> list_all (\<lambda>c. of_char c < (128 :: nat)) s"

text \<open>Decimal notation, as an f-string writes a non-negative integer.\<close>

fun dec :: "nat \<Rightarrow> string" where
  "dec n = (if n < 10 then [char_of (48 + n)] else dec (n div 10) @ [char_of (48 + n mod 10)])"

declare dec.simps [simp del]

text \<open>Signed integers.\<close>

definition dec_int :: "int \<Rightarrow> string" where
  "dec_int i = (if i < 0 then CHR ''-'' # dec (nat (- i)) else dec (nat i))"

definition undec :: "string \<Rightarrow> nat" where
  "undec s = foldl (\<lambda>a c. 10 * a + (of_char c - 48)) 0 s"

lemma undec_dec: "undec (dec n) = n"
proof (induction n rule: dec.induct)
  case (1 n)
  show ?case
  proof (cases "n < 10")
    case True
    then show ?thesis by (subst dec.simps) (simp add: undec_def)
  next
    case False
    have "undec (dec n) = 10 * undec (dec (n div 10)) + n mod 10"
      using False by (subst dec.simps) (simp add: undec_def)
    then show ?thesis using 1 False by simp
  qed
qed

lemma dec_digits: "c \<in> set (dec n) \<Longrightarrow> 48 \<le> (of_char c :: nat) \<and> (of_char c :: nat) < 58"
proof (induction n rule: dec.induct)
  case (1 n)
  then show ?case by (subst (asm) dec.simps) (auto split: if_splits)
qed

lemma dec_int_inj: "dec_int i = dec_int j \<Longrightarrow> i = j"
proof -
  assume eq: "dec_int i = dec_int j"
  have minus: "CHR ''-'' # s \<noteq> dec n" for s n
  proof
    assume "CHR ''-'' # s = dec n"
    then have "CHR ''-'' \<in> set (dec n)" by (metis list.set_intros(1))
    then show False using dec_digits [of "CHR ''-''" n] by simp
  qed
  have inj: "dec m = dec n \<Longrightarrow> m = n" for m n by (metis undec_dec)
  show "i = j"
  proof (cases "i < 0"; cases "j < 0")
    assume "i < 0" "j < 0"
    then show ?thesis using eq inj [of "nat (- i)" "nat (- j)"] by (simp add: dec_int_def)
  next
    assume "\<not> i < 0" "\<not> j < 0"
    then show ?thesis using eq inj [of "nat i" "nat j"] by (simp add: dec_int_def)
  qed (use eq minus in \<open>auto simp: dec_int_def dest: sym\<close>)
qed

lemma dec_int_chars: "c \<in> set (dec_int i) \<Longrightarrow> c \<noteq> CHR ''|''"
  using dec_digits [of c] by (auto simp: dec_int_def split: if_splits)

lemma dec_int_no_colon [simp]: "CHR '':'' \<notin> set (dec_int i)"
  using dec_digits [of "CHR '':''"] by (auto simp: dec_int_def)

text \<open>Text before a separator is determined by the whole.\<close>

lemma field_split:
  "c \<notin> set a \<Longrightarrow> c \<notin> set b \<Longrightarrow> a @ c # r = b @ c # s \<Longrightarrow> a = b \<and> r = s"
proof (induction a arbitrary: b)
  case Nil
  then show ?case by (cases b) auto
next
  case (Cons x a)
  then show ?case by (cases b) auto
qed

section \<open>Semilattices of replica states\<close>

text \<open>
  The contract of a state-based replicated type: on the states that satisfy \<open>ok\<close>, merging is
  idempotent, commutative and associative. Every client-side fact about message order,
  duplication and loss is proved once here.
\<close>

locale convergent =
  fixes join :: "'s \<Rightarrow> 's \<Rightarrow> 's"
    and ok :: "'s \<Rightarrow> bool"
  assumes join_ok: "ok a \<Longrightarrow> ok b \<Longrightarrow> ok (join a b)"
    and join_idem: "ok a \<Longrightarrow> join a a = a"
    and join_comm: "ok a \<Longrightarrow> ok b \<Longrightarrow> join a b = join b a"
    and join_assoc: "ok a \<Longrightarrow> ok b \<Longrightarrow> ok c \<Longrightarrow> join (join a b) c = join a (join b c)"
begin

definition below :: "'s \<Rightarrow> 's \<Rightarrow> bool" where
  "below a b \<longleftrightarrow> join a b = b"

lemma below_refl: "ok a \<Longrightarrow> below a a"
  by (simp add: below_def join_idem)

lemma below_antisym: "ok a \<Longrightarrow> ok b \<Longrightarrow> below a b \<Longrightarrow> below b a \<Longrightarrow> a = b"
  by (metis below_def join_comm)

lemma below_trans: "ok a \<Longrightarrow> ok b \<Longrightarrow> ok c \<Longrightarrow> below a b \<Longrightarrow> below b c \<Longrightarrow> below a c"
  by (metis below_def join_assoc)

lemma join_upper1: "ok a \<Longrightarrow> ok b \<Longrightarrow> below a (join a b)"
  by (simp add: below_def join_assoc [symmetric] join_idem)

lemma join_upper2: "ok a \<Longrightarrow> ok b \<Longrightarrow> below b (join a b)"
  by (metis join_comm join_upper1)

lemma join_least: "ok a \<Longrightarrow> ok b \<Longrightarrow> ok c \<Longrightarrow> below a c \<Longrightarrow> below b c \<Longrightarrow> below (join a b) c"
  by (simp add: below_def join_assoc)

lemma foldl_ok: "ok a \<Longrightarrow> list_all ok xs \<Longrightarrow> ok (foldl join a xs)"
  by (induction xs arbitrary: a) (auto intro: join_ok)

lemma foldl_base: "ok a \<Longrightarrow> list_all ok xs \<Longrightarrow> below a (foldl join a xs)"
proof (induction xs arbitrary: a)
  case Nil
  then show ?case by (simp add: below_refl)
next
  case (Cons x xs)
  then have "below (join a x) (foldl join (join a x) xs)"
    by (auto intro: join_ok)
  with Cons.prems show ?case
    by (auto intro: below_trans [of a "join a x"] join_ok join_upper1 foldl_ok)
qed

lemma foldl_upper: "ok a \<Longrightarrow> list_all ok xs \<Longrightarrow> x \<in> set xs \<Longrightarrow> below x (foldl join a xs)"
proof (induction xs arbitrary: a)
  case Nil
  then show ?case by simp
next
  case (Cons y ys)
  show ?case
  proof (cases "x = y")
    case True
    with Cons.prems have "below (join a x) (foldl join (join a x) ys)"
      by (auto intro: foldl_base join_ok)
    with True Cons.prems show ?thesis
      by (auto intro: below_trans [of y "join a y"] join_ok join_upper2 foldl_ok)
  next
    case False
    with Cons show ?thesis by (auto intro: join_ok)
  qed
qed

lemma foldl_least:
  "ok a \<Longrightarrow> ok c \<Longrightarrow> list_all ok xs \<Longrightarrow> below a c \<Longrightarrow> (\<And>x. x \<in> set xs \<Longrightarrow> below x c) \<Longrightarrow>
     below (foldl join a xs) c"
  by (induction xs arbitrary: a) (auto intro: join_ok join_least)

text \<open>Strong convergence: the result depends on the set of states merged, on nothing else.\<close>

lemma foldl_same_set:
  assumes "ok a" "ok b" "list_all ok xs" "list_all ok ys" and "set (a # xs) = set (b # ys)"
  shows "foldl join a xs = foldl join b ys"
proof (rule below_antisym)
  have mem: "\<And>z. z \<in> set (a # xs) \<Longrightarrow> below z (foldl join b ys)"
    using assms by (auto intro: foldl_base foldl_upper)
  show "below (foldl join a xs) (foldl join b ys)"
    using assms mem by (intro foldl_least) (auto intro: foldl_ok)
  have mem': "\<And>z. z \<in> set (b # ys) \<Longrightarrow> below z (foldl join a xs)"
    using assms by (auto intro: foldl_base foldl_upper)
  show "below (foldl join b ys) (foldl join a xs)"
    using assms mem' by (intro foldl_least) (auto intro: foldl_ok)
qed (use assms in \<open>auto intro: foldl_ok\<close>)

end

section \<open>Quorums\<close>

text \<open>Two sets of \<open>2 f + 1\<close> among \<open>3 f + 1\<close> members share one that is not among the faulty \<open>f\<close>.\<close>

lemma quorums_share_honest:
  assumes "finite M" and "A \<subseteq> M" and "B \<subseteq> M" and "int (card M) \<le> 3 * f + 1" and "2 * f + 1 \<le> int (card A)" and "2 * f + 1 \<le> int (card B)"
    and "int (card (M - H)) \<le> f"
  shows "A \<inter> B \<inter> H \<noteq> {}"
proof
  assume e: "A \<inter> B \<inter> H = {}"
  have fin: "finite A" "finite B" using assms(1-3) finite_subset by auto
  have "card A + card B = card (A \<union> B) + card (A \<inter> B)" by (rule card_Un_Int [OF fin])
  moreover have "card (A \<union> B) \<le> card M" "card (A \<inter> B) \<le> card (M - H)" using assms(1-3) e by (auto intro!: card_mono)
  ultimately show False using assms(4-7) by linarith
qed

text \<open>
  The contract of a quorum system with faulty members: any two quorums share an honest one. Whatever is decided by the votes of
  a quorum is then unique, as long as honest members vote once.
\<close>

locale voting_quorums =
  fixes quorum :: "'n set \<Rightarrow> bool"
    and honest :: "'n set"
  assumes quorums_meet: "quorum A \<Longrightarrow> quorum B \<Longrightarrow> A \<inter> B \<inter> honest \<noteq> {}"
begin

lemma one_decision:
  assumes "quorum A" and "quorum B" and "\<And>h d d'. h \<in> honest \<Longrightarrow> vote h d \<Longrightarrow> vote h d' \<Longrightarrow> d = d'"
    and "\<And>h. h \<in> A \<Longrightarrow> h \<in> honest \<Longrightarrow> vote h a" and "\<And>h. h \<in> B \<Longrightarrow> h \<in> honest \<Longrightarrow> vote h b"
  shows "a = b"
  using quorums_meet [OF assms(1,2)] assms(3-5) by blast

lemma quorum_not_faulty: "quorum A \<Longrightarrow> \<exists>h \<in> A. h \<in> honest"
  using quorums_meet [of A A] by blast

end

end
