(* ===== verification/Crdt.thy ===== *)
theory Crdt
  imports Prelude "HOL-Library.Product_Lexorder"
begin

text \<open>
  The replicated data types of \<^verbatim>\<open>src/distllm/cache/crdt.py\<close>: hybrid logical clocks, causal
  contexts, observed-remove sets, last-writer-wins registers and the cache map built from them.

  Reading the wall clock (\<^verbatim>\<open>time.time_ns\<close>) is an input of every operation that does it, one
  argument per reading, so a theorem holds however the clocks of the nodes drift or jump.
  Python sets have no specified iteration order: they are HOL sets, and an operation that loops
  over a set takes the order of that loop as a list argument.
  Operations return the pair of their Python result and the new state.
\<close>

section \<open>Timestamps\<close>

datatype timestamp = Timestamp (physical_ns: int) (counter: int) (node_id: string)

definition ts_lt :: "timestamp \<Rightarrow> timestamp \<Rightarrow> bool" where
  "ts_lt a b \<longleftrightarrow> (physical_ns a, counter a, node_id a) < (physical_ns b, counter b, node_id b)"

definition ts_le :: "timestamp \<Rightarrow> timestamp \<Rightarrow> bool" where
  "ts_le a b \<longleftrightarrow> ts_lt a b \<or> a = b"

instantiation timestamp :: linorder
begin

definition less_timestamp :: "timestamp \<Rightarrow> timestamp \<Rightarrow> bool" where
  "less_timestamp = ts_lt"

definition less_eq_timestamp :: "timestamp \<Rightarrow> timestamp \<Rightarrow> bool" where
  "less_eq_timestamp = ts_le"

instance
proof
  fix a b c :: timestamp
  show "(a < b) = (a \<le> b \<and> \<not> b \<le> a)"
    by (auto simp: less_timestamp_def less_eq_timestamp_def ts_le_def ts_lt_def)
  show "a \<le> a"
    by (simp add: less_eq_timestamp_def ts_le_def)
  show "a \<le> b \<Longrightarrow> b \<le> c \<Longrightarrow> a \<le> c"
    by (auto simp: less_eq_timestamp_def ts_le_def ts_lt_def)
  show "a \<le> b \<Longrightarrow> b \<le> a \<Longrightarrow> a = b"
    by (auto simp: less_eq_timestamp_def ts_le_def ts_lt_def)
  show "a \<le> b \<or> b \<le> a"
    by (cases a; cases b) (auto simp: less_eq_timestamp_def ts_le_def ts_lt_def)
qed

end

lemma ts_less_iff:
  "a < b \<longleftrightarrow> physical_ns a < physical_ns b
     \<or> physical_ns a = physical_ns b \<and> (counter a < counter b
         \<or> counter a = counter b \<and> node_id a < node_id b)"
  by (auto simp: less_timestamp_def ts_lt_def)

definition ts_to_wire :: "timestamp \<Rightarrow> int \<times> int \<times> string" where
  "ts_to_wire t = (physical_ns t, counter t, node_id t)"

definition ts_from_wire :: "int \<times> int \<times> string \<Rightarrow> timestamp" where
  "ts_from_wire w = (case w of (p, c, n) \<Rightarrow> Timestamp p c n)"

lemma ts_wire_roundtrip [simp]: "ts_from_wire (ts_to_wire t) = t"
  by (simp add: ts_from_wire_def ts_to_wire_def)

section \<open>Hybrid logical clocks\<close>

record hlc =
  hlc_node_id :: string
  hlc_last_physical_ns :: int
  hlc_counter :: int

definition hlc_init :: "string \<Rightarrow> int \<Rightarrow> hlc" where
  "hlc_init node now = \<lparr>hlc_node_id = node, hlc_last_physical_ns = now, hlc_counter = 0\<rparr>"

definition hlc_last_timestamp :: "hlc \<Rightarrow> timestamp" where
  "hlc_last_timestamp c = Timestamp (hlc_last_physical_ns c) (hlc_counter c) (hlc_node_id c)"

definition hlc_tick :: "int \<Rightarrow> hlc \<Rightarrow> timestamp \<times> hlc" where
  "hlc_tick now c =
     (let pt = max now (hlc_last_physical_ns c);
          n = (if pt = hlc_last_physical_ns c then hlc_counter c + 1 else 0);
          c' = c\<lparr>hlc_counter := n, hlc_last_physical_ns := pt\<rparr>
      in (Timestamp pt n (hlc_node_id c), c'))"

definition hlc_update :: "int \<Rightarrow> int \<Rightarrow> int \<Rightarrow> string \<Rightarrow> hlc \<Rightarrow> timestamp \<times> hlc" where
  "hlc_update now perceived_pt received_c remote_node_id c =
     (let pt = max (max now perceived_pt) (hlc_last_physical_ns c);
          n = (if pt = perceived_pt \<and> pt = hlc_last_physical_ns c
               then max received_c (hlc_counter c) + 1
               else if pt = perceived_pt then received_c + 1
               else if pt = hlc_last_physical_ns c then hlc_counter c + 1
               else 0);
          c' = c\<lparr>hlc_last_physical_ns := pt, hlc_counter := n\<rparr>
      in (Timestamp pt n (hlc_node_id c), c'))"

definition hlc_observe :: "int \<Rightarrow> timestamp \<Rightarrow> hlc \<Rightarrow> timestamp \<times> hlc" where
  "hlc_observe now t c = hlc_update now (physical_ns t) (counter t) (node_id t) c"

text \<open>Every stamp is the clock's new last timestamp, strictly above all it has seen.\<close>

lemma hlc_tick_node [simp, frame_simps]: "hlc_node_id (snd (hlc_tick now c)) = hlc_node_id c"
  by (simp add: hlc_tick_def Let_def)

lemma hlc_observe_node [simp, frame_simps]: "hlc_node_id (snd (hlc_observe now t c)) = hlc_node_id c"
  by (simp add: hlc_observe_def hlc_update_def Let_def)

lemma node_id_last [simp]: "node_id (hlc_last_timestamp c) = hlc_node_id c"
  by (simp add: hlc_last_timestamp_def)

lemma hlc_tick_last: "fst (hlc_tick now c) = hlc_last_timestamp (snd (hlc_tick now c))"
  by (simp add: hlc_tick_def hlc_last_timestamp_def Let_def)

lemma hlc_observe_last: "fst (hlc_observe now t c) = hlc_last_timestamp (snd (hlc_observe now t c))"
  by (simp add: hlc_observe_def hlc_update_def hlc_last_timestamp_def Let_def)

lemma hlc_tick_greater: "hlc_last_timestamp c < hlc_last_timestamp (snd (hlc_tick now c))"
  by (auto simp: hlc_tick_def hlc_last_timestamp_def ts_less_iff Let_def)

lemma hlc_observe_greater: "hlc_last_timestamp c < hlc_last_timestamp (snd (hlc_observe now t c))"
  by (auto simp: hlc_observe_def hlc_update_def hlc_last_timestamp_def ts_less_iff Let_def max_def)

lemma hlc_observe_above: "t < hlc_last_timestamp (snd (hlc_observe now t c))"
  by (cases t)
    (auto simp: hlc_observe_def hlc_update_def hlc_last_timestamp_def ts_less_iff Let_def max_def)

text \<open>A clock in use: a sequence of local events and received stamps, with the stamps issued.\<close>

datatype clock_event = Tick int | Receive int timestamp

fun hlc_event :: "clock_event \<Rightarrow> hlc \<Rightarrow> timestamp \<times> hlc" where
  "hlc_event (Tick now) c = hlc_tick now c"
| "hlc_event (Receive now t) c = hlc_observe now t c"

fun hlc_run :: "clock_event list \<Rightarrow> hlc \<Rightarrow> timestamp list \<times> hlc" where
  "hlc_run [] c = ([], c)"
| "hlc_run (e # es) c =
     (let (t, c1) = hlc_event e c; (ts, c2) = hlc_run es c1 in (t # ts, c2))"

lemma hlc_event_last: "fst (hlc_event e c) = hlc_last_timestamp (snd (hlc_event e c))"
  by (cases e) (simp_all add: hlc_tick_last hlc_observe_last)

lemma hlc_event_greater: "hlc_last_timestamp c < hlc_last_timestamp (snd (hlc_event e c))"
  by (cases e) (simp_all add: hlc_tick_greater hlc_observe_greater)

lemma hlc_run_above: "t \<in> set (fst (hlc_run es c)) \<Longrightarrow> hlc_last_timestamp c < t"
proof (induction es arbitrary: c)
  case Nil
  then show ?case by simp
next
  case (Cons e es)
  let ?c = "snd (hlc_event e c)"
  have "t = hlc_last_timestamp ?c \<or> t \<in> set (fst (hlc_run es ?c))"
    using Cons.prems hlc_event_last [of e c] by (auto simp: case_prod_beta Let_def)
  then show ?case
    using hlc_event_greater [of c e] Cons.IH [of ?c] by (auto intro: less_trans)
qed

lemma hlc_run_increasing: "sorted_wrt (<) (fst (hlc_run es c))"
proof (induction es arbitrary: c)
  case Nil
  then show ?case by simp
next
  case (Cons e es)
  then show ?case
    using hlc_run_above [where c = "snd (hlc_event e c)" and es = es] hlc_event_last [of e c]
    by (auto simp: case_prod_beta Let_def)
qed

section \<open>Causal contexts\<close>

type_synonym causal_context = "(string, int) dict"

definition dict_get :: "('k, 'v) dict \<Rightarrow> 'k \<Rightarrow> 'v \<Rightarrow> 'v" where
  "dict_get d k v0 = (case map_of d k of None \<Rightarrow> v0 | Some v \<Rightarrow> v)"

definition ctx_observe :: "timestamp \<Rightarrow> causal_context \<Rightarrow> causal_context" where
  "ctx_observe t m =
     (if counter t > dict_get m (node_id t) (- 1) then AList.update (node_id t) (counter t) m else m)"

definition ctx_merge :: "causal_context \<Rightarrow> causal_context \<Rightarrow> causal_context" where
  "ctx_merge other m =
     foldl (\<lambda>m (node, c). if c > dict_get m node (- 1) then AList.update node c m else m) m other"

section \<open>Observed-remove sets\<close>

record 'e orset =
  os_node_id :: string
  os_clock :: hlc
  os_adds :: "('e \<times> timestamp) set"
  os_removes :: "('e \<times> timestamp) set"
  os_ctx :: causal_context

definition orset_init :: "string \<Rightarrow> int \<Rightarrow> 'e orset" where
  "orset_init node now =
     \<lparr>os_node_id = node, os_clock = hlc_init node now, os_adds = {}, os_removes = {}, os_ctx = []\<rparr>"

definition orset_add :: "int \<Rightarrow> 'e \<Rightarrow> 'e orset \<Rightarrow> timestamp \<times> 'e orset" where
  "orset_add now e s =
     (let (tag, clk) = hlc_tick now (os_clock s)
      in (tag, s\<lparr>os_clock := clk, os_adds := insert (e, tag) (os_adds s),
                 os_ctx := ctx_observe tag (os_ctx s)\<rparr>))"

definition observed :: "'e \<Rightarrow> 'e orset \<Rightarrow> ('e \<times> timestamp) set" where
  "observed e s = {p \<in> os_adds s. fst p = e}"

text \<open>\<open>ord\<close> is the order in which the loop visits \<open>observed e s\<close>.\<close>

definition orset_remove ::
    "int \<Rightarrow> ('e \<times> timestamp) list \<Rightarrow> 'e \<Rightarrow> 'e orset \<Rightarrow> timestamp \<times> 'e orset" where
  "orset_remove now ord e s =
     (let (tag, clk) = hlc_tick now (os_clock s);
          ctx = fold (\<lambda>(_, t). ctx_observe t) ord (os_ctx s)
      in (tag, s\<lparr>os_clock := clk, os_removes := os_removes s \<union> observed e s,
                 os_ctx := ctx_observe tag ctx\<rparr>))"

text \<open>\<open>its\<close> is the order of the loop over the other replica's tags, with the wall clock read in
  each iteration.\<close>

definition orset_merge ::
    "(('e \<times> timestamp) \<times> int) list \<Rightarrow> 'e orset \<Rightarrow> 'e orset \<Rightarrow> 'e orset" where
  "orset_merge its other s =
     s\<lparr>os_adds := os_adds s \<union> os_adds other, os_removes := os_removes s \<union> os_removes other,
       os_ctx := ctx_merge (os_ctx other) (os_ctx s),
       os_clock := fold (\<lambda>((_, t), now) c. snd (hlc_observe now t c)) its (os_clock s)\<rparr>"

definition orset_merged ::
    "int \<Rightarrow> (('e \<times> timestamp) \<times> int) list \<Rightarrow> 'e orset \<Rightarrow> 'e orset \<Rightarrow> 'e orset" where
  "orset_merged now its s other =
     orset_merge its other
       ((orset_init (os_node_id s) now)
          \<lparr>os_adds := os_adds s, os_removes := os_removes s, os_ctx := os_ctx s\<rparr>)"

definition orset_elements :: "'e orset \<Rightarrow> 'e set" where
  "orset_elements s = fst ` {p \<in> os_adds s. snd p \<notin> snd ` os_removes s}"

definition orset_contains :: "'e \<Rightarrow> 'e orset \<Rightarrow> bool" where
  "orset_contains e s \<longleftrightarrow> e \<in> orset_elements s"

text \<open>The dictionary \<^verbatim>\<open>latest_add\<close> of \<^verbatim>\<open>prune\<close>, filled by a loop over the add-set in order \<open>ord\<close>.\<close>

definition latest_add :: "('e \<times> timestamp) list \<Rightarrow> ('e \<times> string, int) dict" where
  "latest_add ord =
     foldl (\<lambda>d (e, tag).
       if counter tag > dict_get d (e, node_id tag) (- 1)
       then AList.update (e, node_id tag) (counter tag) d else d) [] ord"

definition orset_prune :: "('e \<times> timestamp) list \<Rightarrow> 'e orset \<Rightarrow> nat \<times> 'e orset" where
  "orset_prune ord s =
     (let d = latest_add ord;
          kept = {p \<in> os_removes s. dict_get d (fst p, node_id (snd p)) (- 1) \<le> counter (snd p)}
      in (card (os_removes s) - card kept, s\<lparr>os_removes := kept\<rparr>))"

section \<open>Last-writer-wins registers\<close>

record 'v lww =
  lww_value :: "'v option"
  lww_timestamp :: timestamp

definition lww_merge :: "'v lww \<Rightarrow> 'v lww \<Rightarrow> 'v lww" where
  "lww_merge self other =
     (if lww_timestamp other > lww_timestamp self then other
      else if lww_timestamp other = lww_timestamp self
              \<and> node_id (lww_timestamp other) > node_id (lww_timestamp self) then other
      else self)"

definition lww_from_put :: "int \<Rightarrow> 'v option \<Rightarrow> hlc \<Rightarrow> 'v lww \<times> hlc" where
  "lww_from_put now v clk = (let (t, clk') = hlc_tick now clk
     in (\<lparr>lww_value = v, lww_timestamp = t\<rparr>, clk'))"

definition lww_as_removed :: "int \<Rightarrow> hlc \<Rightarrow> 'v lww \<times> hlc" where
  "lww_as_removed now clk = lww_from_put now None clk"

section \<open>The cache map\<close>

record ('k, 'v) cmap =
  cm_node_id :: string
  cm_membership :: "'k orset"
  cm_values :: "('k, 'v lww) dict"

definition cmap_init :: "string \<Rightarrow> int \<Rightarrow> ('k, 'v) cmap" where
  "cmap_init node now = \<lparr>cm_node_id = node, cm_membership = orset_init node now, cm_values = []\<rparr>"

text \<open>\<open>cur\<close> merged with a register that arrives, as \<^verbatim>\<open>reg if cur is None else cur.merge(reg)\<close>.\<close>

definition reg_into :: "'v lww option \<Rightarrow> 'v lww \<Rightarrow> 'v lww" where
  "reg_into cur reg = (case cur of None \<Rightarrow> reg | Some c \<Rightarrow> lww_merge c reg)"

definition cmap_put :: "int \<Rightarrow> 'k \<Rightarrow> 'v \<Rightarrow> ('k, 'v) cmap \<Rightarrow> timestamp \<times> ('k, 'v) cmap" where
  "cmap_put now k v m =
     (let (tag, mem) = orset_add now k (cm_membership m);
          new_reg = \<lparr>lww_value = Some v, lww_timestamp = hlc_last_timestamp (os_clock mem)\<rparr>
      in (tag, m\<lparr>cm_membership := mem,
                 cm_values := AList.update k (reg_into (map_of (cm_values m) k) new_reg) (cm_values m)\<rparr>))"

definition cmap_remove ::
    "int \<Rightarrow> int \<Rightarrow> ('k \<times> timestamp) list \<Rightarrow> 'k \<Rightarrow> ('k, 'v) cmap \<Rightarrow> timestamp \<times> ('k, 'v) cmap" where
  "cmap_remove now now' ord k m =
     (let (tag, mem) = orset_remove now ord k (cm_membership m)
      in case map_of (cm_values m) k of
           None \<Rightarrow> (tag, m\<lparr>cm_membership := mem\<rparr>)
         | Some existing \<Rightarrow>
             (let (tomb, clk) = lww_as_removed now' (os_clock mem)
              in (tag, m\<lparr>cm_membership := mem\<lparr>os_clock := clk\<rparr>,
                         cm_values := AList.update k (lww_merge existing tomb) (cm_values m)\<rparr>)))"

definition values_merge :: "('k, 'v lww) dict \<Rightarrow> ('k, 'v lww) dict \<Rightarrow> ('k, 'v lww) dict" where
  "values_merge other vs = foldl (\<lambda>vs (k, reg). AList.update k (reg_into (map_of vs k) reg) vs) vs other"

definition cmap_merge ::
    "(('k \<times> timestamp) \<times> int) list \<Rightarrow> ('k, 'v) cmap \<Rightarrow> ('k, 'v) cmap \<Rightarrow> ('k, 'v) cmap" where
  "cmap_merge its other m =
     m\<lparr>cm_membership := orset_merge its (cm_membership other) (cm_membership m),
       cm_values := values_merge (cm_values other) (cm_values m)\<rparr>"

text \<open>\<^verbatim>\<open>{**self._values, **other._values}\<close>, then one pass over its items.\<close>

definition values_merged :: "('k, 'v lww) dict \<Rightarrow> ('k, 'v lww) dict \<Rightarrow> ('k, 'v lww) dict" where
  "values_merged vs other =
     map (\<lambda>(k, reg). (k, case (map_of vs k, map_of other k) of
                           (Some a, Some b) \<Rightarrow> lww_merge a b | _ \<Rightarrow> reg))
       (foldl (\<lambda>d (k, reg). AList.update k reg d) vs other)"

definition cmap_merged ::
    "int \<Rightarrow> (('k \<times> timestamp) \<times> int) list \<Rightarrow> ('k, 'v) cmap \<Rightarrow> ('k, 'v) cmap \<Rightarrow> ('k, 'v) cmap" where
  "cmap_merged now its m other =
     \<lparr>cm_node_id = cm_node_id m,
      cm_membership = orset_merged now its (cm_membership m) (cm_membership other),
      cm_values = values_merged (cm_values m) (cm_values other)\<rparr>"

definition cmap_get :: "('k, 'v) cmap \<Rightarrow> 'k \<Rightarrow> 'v option" where
  "cmap_get m k =
     (if k \<notin> orset_elements (cm_membership m) then None
      else case map_of (cm_values m) k of None \<Rightarrow> None | Some reg \<Rightarrow> lww_value reg)"

definition cmap_contains :: "('k, 'v) cmap \<Rightarrow> 'k \<Rightarrow> bool" where
  "cmap_contains m k \<longleftrightarrow> cmap_get m k \<noteq> None"

definition cmap_keys :: "('k, 'v) cmap \<Rightarrow> 'k set" where
  "cmap_keys m = {k \<in> orset_elements (cm_membership m). cmap_get m k \<noteq> None}"

text \<open>\<open>ks\<close> is the iteration order of the key set.\<close>

definition cmap_values :: "'k list \<Rightarrow> ('k, 'v) cmap \<Rightarrow> 'v option list" where
  "cmap_values ks m = map (cmap_get m) ks"

definition cmap_items :: "'k list \<Rightarrow> ('k, 'v) cmap \<Rightarrow> ('k, 'v option) dict" where
  "cmap_items ks m = map (\<lambda>k. (k, cmap_get m k)) ks"

definition cmap_timestamp_of :: "('k, 'v) cmap \<Rightarrow> 'k \<Rightarrow> timestamp option" where
  "cmap_timestamp_of m k =
     (case map_of (cm_values m) k of None \<Rightarrow> None
      | Some reg \<Rightarrow> if lww_value reg = None then None else Some (lww_timestamp reg))"

definition cmap_ingest ::
    "int \<Rightarrow> int \<Rightarrow> 'k \<Rightarrow> 'v \<Rightarrow> timestamp \<Rightarrow> ('k, 'v) cmap \<Rightarrow> ('k, 'v) cmap" where
  "cmap_ingest now now' k v ts m =
     (let mem = (if k \<notin> orset_elements (cm_membership m)
                 then snd (orset_add now k (cm_membership m)) else cm_membership m);
          mem' = mem\<lparr>os_clock := snd (hlc_observe now' ts (os_clock mem))\<rparr>;
          incoming = \<lparr>lww_value = Some v, lww_timestamp = ts\<rparr>
      in m\<lparr>cm_membership := mem',
           cm_values := AList.update k (reg_into (map_of (cm_values m) k) incoming) (cm_values m)\<rparr>)"


section \<open>Observed-remove sets: local behaviour\<close>

definition orset_tags :: "'e orset \<Rightarrow> timestamp set" where
  "orset_tags s = snd ` (os_adds s \<union> os_removes s)"

text \<open>What one replica keeps true: only observed adds are tombstoned, and the clock is at or past
  every tag the replica has seen.\<close>

definition orset_inv :: "'e orset \<Rightarrow> bool" where
  "orset_inv s \<longleftrightarrow> os_removes s \<subseteq> os_adds s \<and> (\<forall>t \<in> orset_tags s. t \<le> hlc_last_timestamp (os_clock s))"

definition covers :: "(('e \<times> timestamp) \<times> int) list \<Rightarrow> 'e orset \<Rightarrow> bool" where
  "covers its other \<longleftrightarrow> set (map fst its) = os_adds other \<union> os_removes other"

lemma mem_elements_iff:
  "e \<in> orset_elements s \<longleftrightarrow> (\<exists>t. (e, t) \<in> os_adds s \<and> t \<notin> snd ` os_removes s)"
  by (force simp: orset_elements_def)

lemma orset_add_simps [simp]:
  "fst (orset_add now e s) = fst (hlc_tick now (os_clock s))"
  "os_adds (snd (orset_add now e s)) = insert (e, fst (hlc_tick now (os_clock s))) (os_adds s)"
  "os_removes (snd (orset_add now e s)) = os_removes s"
  "os_clock (snd (orset_add now e s)) = snd (hlc_tick now (os_clock s))"
  "os_node_id (snd (orset_add now e s)) = os_node_id s"
  by (simp_all add: orset_add_def case_prod_beta Let_def)

lemma orset_remove_simps [simp]:
  "fst (orset_remove now ord e s) = fst (hlc_tick now (os_clock s))"
  "os_adds (snd (orset_remove now ord e s)) = os_adds s"
  "os_removes (snd (orset_remove now ord e s)) = os_removes s \<union> observed e s"
  "os_clock (snd (orset_remove now ord e s)) = snd (hlc_tick now (os_clock s))"
  "os_node_id (snd (orset_remove now ord e s)) = os_node_id s"
  by (simp_all add: orset_remove_def case_prod_beta Let_def)

lemma orset_merge_simps [simp]:
  "os_adds (orset_merge its other s) = os_adds s \<union> os_adds other"
  "os_removes (orset_merge its other s) = os_removes s \<union> os_removes other"
  "os_clock (orset_merge its other s) = fold (\<lambda>((_, t), now) c. snd (hlc_observe now t c)) its (os_clock s)"
  "os_node_id (orset_merge its other s) = os_node_id s"
  by (simp_all add: orset_merge_def)

lemma fold_observe_node [simp]:
  "hlc_node_id (fold (\<lambda>((_, t), now) c. snd (hlc_observe now t c)) its c) = hlc_node_id c"
  by (induction its arbitrary: c) (auto simp: case_prod_beta)

lemma fold_observe_mono:
  "hlc_last_timestamp c \<le> hlc_last_timestamp (fold (\<lambda>((_, t), now) c. snd (hlc_observe now t c)) its c)"
proof (induction its arbitrary: c)
  case Nil
  then show ?case by simp
next
  case (Cons it its)
  obtain e t now where it: "it = ((e, t), now)" by (cases it) auto
  have "hlc_last_timestamp c < hlc_last_timestamp (snd (hlc_observe now t c))"
    by (rule hlc_observe_greater)
  also have "\<dots> \<le> hlc_last_timestamp (fold (\<lambda>((_, t), now) c. snd (hlc_observe now t c)) (it # its) c)"
    using Cons.IH by (simp add: it)
  finally show ?case by simp
qed

lemma fold_observe_above:
  "p \<in> set (map fst its) \<Longrightarrow>
     snd p < hlc_last_timestamp (fold (\<lambda>((_, t), now) c. snd (hlc_observe now t c)) its c)"
proof (induction its arbitrary: c)
  case Nil
  then show ?case by simp
next
  case (Cons it its)
  obtain e t now where it: "it = ((e, t), now)" by (cases it) auto
  show ?case
  proof (cases "p = fst it")
    case True
    then have "snd p < hlc_last_timestamp (snd (hlc_observe now t c))"
      by (simp add: it hlc_observe_above)
    also have "\<dots> \<le> hlc_last_timestamp (fold (\<lambda>((_, t), now) c. snd (hlc_observe now t c)) (it # its) c)"
      using fold_observe_mono by (simp add: it)
    finally show ?thesis .
  next
    case False
    with Cons show ?thesis by simp
  qed
qed

lemma orset_inv_init: "orset_inv (orset_init node now)"
  by (simp add: orset_inv_def orset_init_def orset_tags_def)

lemma orset_inv_add: "orset_inv s \<Longrightarrow> orset_inv (snd (orset_add now e s))"
  using hlc_tick_greater [of "os_clock s" now] hlc_tick_last [of now "os_clock s"]
  by (force simp: orset_inv_def orset_tags_def)

lemma orset_inv_remove: "orset_inv s \<Longrightarrow> orset_inv (snd (orset_remove now ord e s))"
  using hlc_tick_greater [of "os_clock s" now]
  by (force simp: orset_inv_def orset_tags_def observed_def)

lemma orset_inv_merge:
  assumes "orset_inv s" "orset_inv other" "covers its other"
  shows "orset_inv (orset_merge its other s)"
proof -
  let ?c = "fold (\<lambda>((_, t), now) c. snd (hlc_observe now t c)) its (os_clock s)"
  have "t \<le> hlc_last_timestamp ?c" if "t \<in> orset_tags s" for t
    using assms(1) that fold_observe_mono [of "os_clock s" its] by (auto simp: orset_inv_def intro: order_trans)
  moreover have "t \<le> hlc_last_timestamp ?c" if "t \<in> orset_tags other" for t
    using assms(3) that fold_observe_above [of _ its "os_clock s"]
    by (fastforce simp: covers_def orset_tags_def)
  ultimately show ?thesis
    using assms(1,2) by (auto simp: orset_inv_def orset_tags_def)
qed

lemma remove_hides: "e \<notin> orset_elements (snd (orset_remove now ord e s))"
  by (force simp: mem_elements_iff observed_def)

lemma add_shows:
  assumes "orset_inv s"
  shows "orset_elements (snd (orset_add now e s)) = insert e (orset_elements s)"
proof -
  let ?t = "fst (hlc_tick now (os_clock s))"
  have "hlc_last_timestamp (os_clock s) < ?t"
    using hlc_tick_greater hlc_tick_last by metis
  moreover have "\<forall>t \<in> snd ` os_removes s. t \<le> hlc_last_timestamp (os_clock s)"
    using assms by (auto simp: orset_inv_def orset_tags_def)
  ultimately have "?t \<notin> snd ` os_removes s"
    by (meson leD)
  then show ?thesis by (auto simp: mem_elements_iff)
qed

section \<open>Registers and views as semilattices\<close>

text \<open>A register is consistent with the global history \<open>val\<close> of writes if it holds what was
  written at its timestamp; two registers of one history with equal stamps are equal.\<close>

definition reg_ok :: "(timestamp \<Rightarrow> 'v option) \<Rightarrow> 'v lww \<Rightarrow> bool" where
  "reg_ok val r \<longleftrightarrow> lww_value r = val (lww_timestamp r)"

lemma lww_merge_cases: "lww_merge a b = (if lww_timestamp a < lww_timestamp b then b else a)"
  by (auto simp: lww_merge_def)

lemma lww_timestamp_merge [simp]: "lww_timestamp (lww_merge a b) = max (lww_timestamp a) (lww_timestamp b)"
  by (auto simp: lww_merge_cases)

lemma reg_ok_eq: "reg_ok val a \<Longrightarrow> reg_ok val b \<Longrightarrow> lww_timestamp a = lww_timestamp b \<Longrightarrow> a = b"
  by (simp add: reg_ok_def)

interpretation reg: convergent lww_merge "reg_ok val" for val
  by unfold_locales (auto simp: lww_merge_cases intro: reg_ok_eq)

definition opt_join :: "'v lww option \<Rightarrow> 'v lww option \<Rightarrow> 'v lww option" where
  "opt_join a b = (case (a, b) of (None, r) \<Rightarrow> r | (r, None) \<Rightarrow> r | (Some x, Some y) \<Rightarrow> Some (lww_merge x y))"

definition opt_ok :: "(timestamp \<Rightarrow> 'v option) \<Rightarrow> 'v lww option \<Rightarrow> bool" where
  "opt_ok val r \<longleftrightarrow> (\<forall>x. r = Some x \<longrightarrow> reg_ok val x)"

lemma opt_join_simps [simp]:
  "opt_join None r = r" "opt_join r None = r" "opt_join (Some x) (Some y) = Some (lww_merge x y)"
  by (auto simp: opt_join_def split: option.split)

interpretation opt: convergent opt_join "opt_ok val" for val
proof
  show "opt_ok val a \<Longrightarrow> opt_ok val b \<Longrightarrow> opt_ok val (opt_join a b)" for a b
    by (cases a; cases b) (auto simp: opt_ok_def intro: reg.join_ok)
  show "opt_ok val a \<Longrightarrow> opt_join a a = a" for a
    by (cases a) (auto simp: opt_ok_def intro: reg.join_idem)
  show "opt_ok val a \<Longrightarrow> opt_ok val b \<Longrightarrow> opt_join a b = opt_join b a" for a b
    by (cases a; cases b) (auto simp: opt_ok_def intro: reg.join_comm)
  show "opt_ok val a \<Longrightarrow> opt_ok val b \<Longrightarrow> opt_ok val c \<Longrightarrow>
      opt_join (opt_join a b) c = opt_join a (opt_join b c)" for a b c
    by (cases a; cases b; cases c) (auto simp: opt_ok_def intro: reg.join_assoc)
qed

text \<open>The abstract state of a cache map: its add-set, its tombstones and its registers by key.\<close>

record ('k, 'v) cview =
  vw_adds :: "('k \<times> timestamp) set"
  vw_removes :: "('k \<times> timestamp) set"
  vw_regs :: "'k \<rightharpoonup> 'v lww"

definition cview :: "('k, 'v) cmap \<Rightarrow> ('k, 'v) cview" where
  "cview m = \<lparr>vw_adds = os_adds (cm_membership m), vw_removes = os_removes (cm_membership m),
              vw_regs = map_of (cm_values m)\<rparr>"

definition view_join :: "('k, 'v) cview \<Rightarrow> ('k, 'v) cview \<Rightarrow> ('k, 'v) cview" where
  "view_join a b = \<lparr>vw_adds = vw_adds a \<union> vw_adds b, vw_removes = vw_removes a \<union> vw_removes b,
                    vw_regs = (\<lambda>k. opt_join (vw_regs a k) (vw_regs b k))\<rparr>"

definition view_ok :: "(timestamp \<Rightarrow> 'v option) \<Rightarrow> ('k, 'v) cview \<Rightarrow> bool" where
  "view_ok val a \<longleftrightarrow> (\<forall>k. opt_ok val (vw_regs a k))"

definition view_get :: "('k, 'v) cview \<Rightarrow> 'k \<Rightarrow> 'v option" where
  "view_get a k =
     (if \<exists>t. (k, t) \<in> vw_adds a \<and> t \<notin> snd ` vw_removes a
      then Option.bind (vw_regs a k) lww_value else None)"

interpretation view: convergent view_join "view_ok val" for val
proof
  show "view_ok val a \<Longrightarrow> view_ok val b \<Longrightarrow> view_ok val (view_join a b)" for a b
    by (simp add: view_ok_def view_join_def opt.join_ok)
  show "view_ok val a \<Longrightarrow> view_join a a = a" for a
    using opt.join_idem [of val] by (cases a) (auto simp: view_ok_def view_join_def fun_eq_iff)
  show "view_ok val a \<Longrightarrow> view_ok val b \<Longrightarrow> view_join a b = view_join b a" for a b
    using opt.join_comm [of val] by (auto simp: view_ok_def view_join_def fun_eq_iff)
  show "view_ok val a \<Longrightarrow> view_ok val b \<Longrightarrow> view_ok val c \<Longrightarrow>
      view_join (view_join a b) c = view_join a (view_join b c)" for a b c
    using opt.join_assoc [of val] by (auto simp: view_ok_def view_join_def fun_eq_iff)
qed

section \<open>The cache map refines its view\<close>

definition cmap_wf :: "('k, 'v) cmap \<Rightarrow> bool" where
  "cmap_wf m \<longleftrightarrow> dict_wf (cm_values m)"

lemma reg_into_join: "Some (reg_into cur reg) = opt_join cur (Some reg)"
  by (cases cur) (simp_all add: reg_into_def)

lemma map_of_values_merge:
  "dict_wf other \<Longrightarrow> map_of (values_merge other vs) k = opt_join (map_of vs k) (map_of other k)"
proof (induction other arbitrary: vs)
  case Nil
  then show ?case by (simp add: values_merge_def)
next
  case (Cons kr other)
  obtain k' r where kr: "kr = (k', r)" by (cases kr)
  have "map_of (values_merge (kr # other) vs) k =
      opt_join (map_of (AList.update k' (reg_into (map_of vs k') r) vs) k) (map_of other k)"
    using Cons by (simp add: values_merge_def kr dict_wf_Cons)
  then show ?case
    using Cons.prems reg_into_join [of "map_of vs k'" r] by (auto simp: kr dict_wf_Cons)
qed

lemma dict_wf_values_merge: "dict_wf vs \<Longrightarrow> dict_wf (values_merge other vs)"
  unfolding values_merge_def by (induction other arbitrary: vs) auto

lemma cmap_get_view: "cmap_get m k = view_get (cview m) k"
  by (auto simp: cmap_get_def view_get_def cview_def mem_elements_iff split: option.split)

lemma cview_merge: "cmap_wf other \<Longrightarrow> cview (cmap_merge its other m) = view_join (cview m) (cview other)"
  by (auto simp: cview_def cmap_merge_def view_join_def cmap_wf_def map_of_values_merge fun_eq_iff)

lemma map_of_foldl_update:
  "dict_wf other \<Longrightarrow>
     map_of (foldl (\<lambda>d (k, reg). AList.update k reg d) vs other) = map_of vs ++ map_of other"
proof (induction other arbitrary: vs)
  case Nil
  then show ?case by simp
next
  case (Cons kr other)
  then show ?case by (cases kr) (auto simp: dict_wf_Cons map_add_def fun_eq_iff split: option.split)
qed

lemma map_of_map_val: "map_of (map (\<lambda>(k, r). (k, f k r)) d) k = map_option (f k) (map_of d k)"
  by (induction d) auto

lemma map_of_values_merged:
  assumes "dict_wf vs" "dict_wf other"
  shows "map_of (values_merged vs other) k = opt_join (map_of vs k) (map_of other k)"
  unfolding values_merged_def map_of_map_val map_of_foldl_update [OF assms(2)]
  by (cases "map_of vs k"; cases "map_of other k") (auto simp: map_add_def)

lemma cview_merged:
  "cmap_wf m \<Longrightarrow> cmap_wf other \<Longrightarrow> cview (cmap_merged now its m other) = view_join (cview m) (cview other)"
  by (auto simp: cview_def cmap_merged_def orset_merged_def view_join_def cmap_wf_def
      map_of_values_merged fun_eq_iff)

text \<open>A replica that merges a sequence of peer states.\<close>

definition cmap_merge_all ::
    "('k, 'v) cmap \<Rightarrow> ((('k \<times> timestamp) \<times> int) list \<times> ('k, 'v) cmap) list \<Rightarrow> ('k, 'v) cmap" where
  "cmap_merge_all m ms = foldl (\<lambda>m (its, other). cmap_merge its other m) m ms"

lemma cview_merge_all:
  "list_all (\<lambda>(its, other). cmap_wf other) ms \<Longrightarrow>
     cview (cmap_merge_all m ms) = foldl view_join (cview m) (map (cview \<circ> snd) ms)"
  unfolding cmap_merge_all_def
  by (induction ms arbitrary: m) (auto simp: cview_merge)

lemmas view_simps = cview_def view_join_def view_get_def

section \<open>One replica as a map\<close>

text \<open>
  The contract a single-writer client relies on: on well-formed states, \<open>put\<close> and \<open>rem\<close> update
  \<open>get\<close> like a map. The third argument of \<open>rem\<close> is the iteration order of the loop over a set.
\<close>

locale cache_map =
  fixes get :: "'m \<Rightarrow> 'k \<Rightarrow> 'v option"
    and put :: "int \<Rightarrow> 'k \<Rightarrow> 'v \<Rightarrow> 'm \<Rightarrow> 'm"
    and rem :: "int \<Rightarrow> int \<Rightarrow> 'o \<Rightarrow> 'k \<Rightarrow> 'm \<Rightarrow> 'm"
    and inv :: "'m \<Rightarrow> bool"
  assumes get_put: "inv m \<Longrightarrow> get (put now k v m) = (get m)(k \<mapsto> v)"
    and get_rem: "inv m \<Longrightarrow> get (rem now now' ord k m) = (get m)(k := None)"
    and inv_put: "inv m \<Longrightarrow> inv (put now k v m)"
    and inv_rem: "inv m \<Longrightarrow> inv (rem now now' ord k m)"
begin

lemma get_rem_fold:
  "inv m \<Longrightarrow> inv (fold (\<lambda>(k, now, now', ord) m. rem now now' ord k m) ks m)
     \<and> get (fold (\<lambda>(k, now, now', ord) m. rem now now' ord k m) ks m)
         = (get m) |` (- fst ` set ks)"
proof (induction ks arbitrary: m)
  case Nil
  then show ?case by (simp add: restrict_map_def)
next
  case (Cons q ks)
  obtain k now now' ord where q: "q = (k, now, now', ord)" by (cases q)
  have "inv (rem now now' ord k m)" using Cons.prems by (rule inv_rem)
  from Cons.IH [OF this] show ?case
    using Cons.prems by (simp add: q get_rem) (auto simp: restrict_map_def fun_eq_iff)
qed

end

definition cmap_stamps :: "('k, 'v) cmap \<Rightarrow> timestamp set" where
  "cmap_stamps m = orset_tags (cm_membership m) \<union> lww_timestamp ` ran (map_of (cm_values m))"

text \<open>The local invariant: tags are unique, only seen adds are tombstoned, and the clock has passed
  every stamp the replica stores, those of the registers included.\<close>

definition cmap_inv :: "('k, 'v) cmap \<Rightarrow> bool" where
  "cmap_inv m \<longleftrightarrow> cmap_wf m \<and> os_removes (cm_membership m) \<subseteq> os_adds (cm_membership m)
     \<and> inj_on snd (os_adds (cm_membership m))
     \<and> (\<forall>t \<in> cmap_stamps m. t \<le> hlc_last_timestamp (os_clock (cm_membership m)))"

lemma cmap_inv_orset: "cmap_inv m \<Longrightarrow> orset_inv (cm_membership m)"
  by (auto simp: cmap_inv_def orset_inv_def cmap_stamps_def)

lemma cmap_inv_reg:
  "cmap_inv m \<Longrightarrow> map_of (cm_values m) k = Some r \<Longrightarrow>
     lww_timestamp r \<le> hlc_last_timestamp (os_clock (cm_membership m))"
  by (auto simp: cmap_inv_def cmap_stamps_def ran_def)

lemma cmap_inv_tag:
  "cmap_inv m \<Longrightarrow> p \<in> os_adds (cm_membership m) \<Longrightarrow>
     snd p \<le> hlc_last_timestamp (os_clock (cm_membership m))"
  by (auto simp: cmap_inv_def cmap_stamps_def orset_tags_def)

lemma cmap_inv_init: "cmap_inv (cmap_init node now)"
  by (simp add: cmap_inv_def cmap_init_def cmap_wf_def orset_init_def cmap_stamps_def orset_tags_def)

text \<open>A state is well formed again when it gained at most a fresh tag and a register, and its clock
  passed both.\<close>

lemma cmap_invI:
  assumes "cmap_inv m" and c: "c = os_clock (cm_membership m)" and c': "c' = os_clock s"
    and mono: "hlc_last_timestamp c \<le> hlc_last_timestamp c'"
    and adds: "os_adds s \<subseteq> os_adds (cm_membership m) \<union> N"
    and N: "\<And>p. p \<in> N \<Longrightarrow> hlc_last_timestamp c < snd p \<and> snd p \<le> hlc_last_timestamp c'" "inj_on snd N"
    and rems: "os_removes s \<subseteq> os_adds s"
    and wf: "dict_wf vs"
    and regs: "\<And>k r. map_of vs k = Some r \<Longrightarrow> lww_timestamp r \<le> hlc_last_timestamp c'"
  shows "cmap_inv (m\<lparr>cm_membership := s, cm_values := vs\<rparr>)"
proof -
  have old: "snd p \<le> hlc_last_timestamp c" if "p \<in> os_adds (cm_membership m)" for p
    using assms(1) that by (simp add: cmap_inv_tag c)
  have "inj_on snd (os_adds (cm_membership m) \<union> N)"
  proof -
    have "snd ` os_adds (cm_membership m) \<inter> snd ` N = {}"
      using old N(1) by (force dest: leD)
    then show ?thesis
      using assms(1) N(2) by (auto simp: cmap_inv_def inj_on_Un)
  qed
  then have inj: "inj_on snd (os_adds s)" using adds by (rule inj_on_subset)
  have le: "snd p \<le> hlc_last_timestamp c'" if "p \<in> os_adds s" for p
    using that adds old mono N(1) by (meson UnE order_trans subsetD)
  then have "t \<le> hlc_last_timestamp c'" if "t \<in> orset_tags s" for t
    using that rems by (auto simp: orset_tags_def)
  then show ?thesis
    using inj rems wf regs c' by (auto simp: cmap_inv_def cmap_wf_def cmap_stamps_def ran_def)
qed

lemma cmap_put_state:
  "snd (cmap_put now k v m) =
     m\<lparr>cm_membership := snd (orset_add now k (cm_membership m)),
       cm_values := AList.update k (reg_into (map_of (cm_values m) k)
         \<lparr>lww_value = Some v, lww_timestamp = hlc_last_timestamp (snd (hlc_tick now (os_clock (cm_membership m))))\<rparr>)
         (cm_values m)\<rparr>"
  by (simp add: cmap_put_def case_prod_beta Let_def)

lemma cmap_remove_state:
  "snd (cmap_remove now now' ord k m) =
     (let s = snd (orset_remove now ord k (cm_membership m)); c' = hlc_tick now' (os_clock s)
      in case map_of (cm_values m) k of None \<Rightarrow> m\<lparr>cm_membership := s\<rparr>
         | Some existing \<Rightarrow> m\<lparr>cm_membership := s\<lparr>os_clock := snd c'\<rparr>,
             cm_values := AList.update k
               (lww_merge existing \<lparr>lww_value = None, lww_timestamp = fst c'\<rparr>) (cm_values m)\<rparr>)"
  by (simp add: cmap_remove_def lww_as_removed_def lww_from_put_def case_prod_beta Let_def split: option.split)

lemma lww_timestamp_reg_into:
  "lww_timestamp (reg_into cur r) = (case cur of None \<Rightarrow> lww_timestamp r | Some c \<Rightarrow> max (lww_timestamp c) (lww_timestamp r))"
  by (simp add: reg_into_def split: option.split)

lemma cmap_inv_put:
  assumes "cmap_inv m"
  shows "cmap_inv (snd (cmap_put now k v m))"
proof -
  let ?c = "os_clock (cm_membership m)"
  have less: "hlc_last_timestamp ?c < hlc_last_timestamp (snd (hlc_tick now ?c))"
    by (rule hlc_tick_greater)
  have reg: "lww_timestamp r \<le> hlc_last_timestamp (snd (hlc_tick now ?c))" if "map_of (cm_values m) k' = Some r" for k' r
    using cmap_inv_reg [OF assms that] less by simp
  show ?thesis
    unfolding cmap_put_state
    by (rule cmap_invI [OF assms refl refl, where N = "{(k, fst (hlc_tick now ?c))}"])
      (use assms less reg in \<open>auto simp: hlc_tick_last cmap_inv_def cmap_wf_def lww_timestamp_reg_into
         split: option.splits if_splits\<close>)
qed

lemma observed_subset: "observed e s \<subseteq> os_adds s"
  by (auto simp: observed_def)

lemma cmap_inv_remove:
  assumes "cmap_inv m"
  shows "cmap_inv (snd (cmap_remove now now' ord k m))"
proof -
  let ?c = "os_clock (cm_membership m)"
  let ?s = "snd (orset_remove now ord k (cm_membership m))"
  let ?t = "hlc_tick now' (os_clock ?s)"
  have l1: "hlc_last_timestamp ?c < hlc_last_timestamp (os_clock ?s)"
    by (simp add: hlc_tick_greater)
  have l2: "hlc_last_timestamp (os_clock ?s) < hlc_last_timestamp (snd ?t)"
    by (rule hlc_tick_greater)
  have reg: "lww_timestamp r \<le> hlc_last_timestamp ?c" if "map_of (cm_values m) k' = Some r" for k' r
    by (rule cmap_inv_reg [OF assms that])
  have rems: "os_removes ?s \<subseteq> os_adds ?s"
    using assms observed_subset [of k "cm_membership m"] by (auto simp: cmap_inv_def)
  show ?thesis
  proof (cases "map_of (cm_values m) k")
    case None
    have "cmap_inv (m\<lparr>cm_membership := ?s, cm_values := cm_values m\<rparr>)"
      by (rule cmap_invI [OF assms refl refl, where N = "{}"])
        (use assms l1 rems in \<open>auto simp: cmap_inv_def cmap_wf_def dest!: reg\<close>)
    with None show ?thesis by (simp add: cmap_remove_state Let_def)
  next
    case (Some existing)
    have top: "lww_timestamp r \<le> hlc_last_timestamp (snd ?t)" if "map_of (cm_values m) k' = Some r" for k' r
      using reg [OF that] l1 l2 by simp
    have "cmap_inv (m\<lparr>cm_membership := ?s\<lparr>os_clock := snd ?t\<rparr>,
        cm_values := AList.update k (lww_merge existing \<lparr>lww_value = None, lww_timestamp = fst ?t\<rparr>) (cm_values m)\<rparr>)"
      by (rule cmap_invI [OF assms refl refl, where N = "{}"])
        (use assms l1 l2 rems top Some in \<open>auto simp: cmap_inv_def cmap_wf_def hlc_tick_last split: if_splits\<close>)
    with Some show ?thesis by (simp add: cmap_remove_state Let_def)
  qed
qed

lemma cmap_get_put:
  assumes "cmap_inv m"
  shows "cmap_get (snd (cmap_put now k v m)) = (cmap_get m)(k \<mapsto> v)"
proof
  fix k'
  let ?c = "os_clock (cm_membership m)"
  have els: "orset_elements (cm_membership (snd (cmap_put now k v m))) = insert k (orset_elements (cm_membership m))"
    using cmap_inv_orset [OF assms] by (simp add: cmap_put_state add_shows)
  have win: "lww_timestamp r < hlc_last_timestamp (snd (hlc_tick now ?c))" if "map_of (cm_values m) k = Some r" for r
    using cmap_inv_reg [OF assms that] hlc_tick_greater [of ?c now] by simp
  have vals: "map_of (cm_values (snd (cmap_put now k v m))) = (map_of (cm_values m))
      (k \<mapsto> \<lparr>lww_value = Some v, lww_timestamp = hlc_last_timestamp (snd (hlc_tick now ?c))\<rparr>)"
    using win by (simp add: cmap_put_state reg_into_def lww_merge_cases split: option.split)
  show "cmap_get (snd (cmap_put now k v m)) k' = ((cmap_get m)(k \<mapsto> v)) k'"
    unfolding cmap_get_def els vals by (simp split: option.split)
qed

lemma elements_remove:
  assumes "inj_on snd (os_adds s)" "os_removes s \<subseteq> os_adds s"
  shows "orset_elements (snd (orset_remove now ord e s)) = orset_elements s - {e}"
proof -
  have "x \<in> orset_elements (snd (orset_remove now ord e s))" if "x \<in> orset_elements s" "x \<noteq> e" for x
  proof -
    from that(1) obtain t where t: "(x, t) \<in> os_adds s" "t \<notin> snd ` os_removes s"
      by (auto simp: mem_elements_iff)
    moreover have "t \<notin> snd ` observed e s"
    proof
      assume "t \<in> snd ` observed e s"
      then have "(e, t) \<in> os_adds s" by (auto simp: observed_def)
      with t(1) have "(x, t) = (e, t)" by (intro inj_onD [OF assms(1)]) auto
      with that(2) show False by simp
    qed
    ultimately show ?thesis by (force simp: mem_elements_iff)
  qed
  moreover have "orset_elements (snd (orset_remove now ord e s)) \<subseteq> orset_elements s"
    by (auto simp: mem_elements_iff image_Un)
  ultimately show ?thesis using remove_hides [of e now ord s] by blast
qed

lemma cmap_get_remove:
  assumes "cmap_inv m"
  shows "cmap_get (snd (cmap_remove now now' ord k m)) = (cmap_get m)(k := None)"
proof
  fix k'
  let ?m = "snd (cmap_remove now now' ord k m)"
  have mem: "orset_elements (cm_membership ?m) = orset_elements (cm_membership m) - {k}"
    using elements_remove [of "cm_membership m" now ord k] assms
    by (auto simp: cmap_remove_state cmap_inv_def orset_elements_def Let_def split: option.splits)
  have vals: "k' \<noteq> k \<Longrightarrow> map_of (cm_values ?m) k' = map_of (cm_values m) k'"
    by (simp add: cmap_remove_state Let_def split: option.split)
  show "cmap_get ?m k' = ((cmap_get m)(k := None)) k'"
    using vals by (auto simp: cmap_get_def mem)
qed

interpretation cm: cache_map cmap_get "\<lambda>now k v m. snd (cmap_put now k v m)"
    "\<lambda>now now' ord k m. snd (cmap_remove now now' ord k m)" cmap_inv
  by unfold_locales (rule cmap_get_put cmap_get_remove cmap_inv_put cmap_inv_remove; assumption)+

end
