(* ===== verification/CrdtSystem.thy ===== *)
theory CrdtSystem
  imports Crdt
begin

text \<open>
  Several replicas of the cache map of \<^verbatim>\<open>src/distllm/cache/crdt.py\<close> running together. A step is one
  call on one replica (put, remove, merge of a peer's state, ingestion of a register that some
  replica published earlier) with arbitrary wall clocks and arbitrary iteration orders of the
  Python sets. The invariant says that time stamps identify writes across the whole system;
  convergence, the meaning of membership and add-wins follow from it.
\<close>

section \<open>Steps\<close>

record ('k, 'v) system =
  sy_replica :: "string \<Rightarrow> ('k, 'v) cmap"
  sy_net :: "('k \<times> 'v \<times> timestamp) set"

definition sys_init :: "(string \<Rightarrow> int) \<Rightarrow> ('k, 'v) system" where
  "sys_init boot = \<lparr>sy_replica = (\<lambda>n. cmap_init n (boot n)), sy_net = {}\<rparr>"

definition set_replica :: "string \<Rightarrow> ('k, 'v) cmap \<Rightarrow> ('k, 'v) system \<Rightarrow> ('k, 'v) system" where
  "set_replica n m S = S\<lparr>sy_replica := (sy_replica S)(n := m)\<rparr>"

inductive sys_step :: "('k, 'v) system \<Rightarrow> ('k, 'v) system \<Rightarrow> bool" where
  put: "sys_step S (set_replica n (snd (cmap_put now k v (sy_replica S n))) S)"
| remove: "set ord = observed k (cm_membership (sy_replica S n)) \<Longrightarrow>
     sys_step S (set_replica n (snd (cmap_remove now now' ord k (sy_replica S n))) S)"
| merge: "covers its (cm_membership (sy_replica S p)) \<Longrightarrow>
     sys_step S (set_replica n (cmap_merge its (sy_replica S p) (sy_replica S n)) S)"
| publish: "map_of (cm_values (sy_replica S n)) k = Some r \<Longrightarrow> lww_value r = Some v \<Longrightarrow>
     sys_step S (S\<lparr>sy_net := insert (k, v, lww_timestamp r) (sy_net S)\<rparr>)"
| ingest: "(k, v, ts) \<in> sy_net S \<Longrightarrow>
     sys_step S (set_replica n (cmap_ingest now now' k v ts (sy_replica S n)) S)"

inductive sys_reachable :: "('k, 'v) system \<Rightarrow> bool" where
  start: "sys_reachable (sys_init boot)"
| step: "sys_reachable S \<Longrightarrow> sys_step S T \<Longrightarrow> sys_reachable T"

section \<open>The invariant\<close>

abbreviation clock_at :: "('k, 'v) system \<Rightarrow> string \<Rightarrow> hlc" where
  "clock_at S n \<equiv> os_clock (cm_membership (sy_replica S n))"

definition regs_of :: "('k, 'v) cmap \<Rightarrow> 'v lww set" where
  "regs_of m = ran (map_of (cm_values m))"

definition net_regs :: "('k, 'v) system \<Rightarrow> 'v lww set" where
  "net_regs S = (\<lambda>(k, v, t). \<lparr>lww_value = Some v, lww_timestamp = t\<rparr>) ` sy_net S"

definition all_regs :: "('k, 'v) system \<Rightarrow> 'v lww set" where
  "all_regs S = (\<Union>n. regs_of (sy_replica S n)) \<union> net_regs S"

definition all_adds :: "('k, 'v) system \<Rightarrow> ('k \<times> timestamp) set" where
  "all_adds S = (\<Union>n. os_adds (cm_membership (sy_replica S n)))"

definition bounded :: "('k, 'v) system \<Rightarrow> timestamp \<Rightarrow> bool" where
  "bounded S t \<longleftrightarrow> t \<le> hlc_last_timestamp (clock_at S (node_id t))"

definition sys_inv :: "('k, 'v) system \<Rightarrow> bool" where
  "sys_inv S \<longleftrightarrow>
     (\<forall>n. hlc_node_id (clock_at S n) = n \<and> cmap_wf (sy_replica S n)
          \<and> orset_inv (cm_membership (sy_replica S n)))
     \<and> (\<forall>p \<in> all_adds S. bounded S (snd p))
     \<and> (\<forall>r \<in> all_regs S. bounded S (lww_timestamp r))
     \<and> inj_on lww_timestamp (all_regs S)
     \<and> inj_on snd (all_adds S)"

lemma sys_invD:
  assumes "sys_inv S"
  shows "hlc_node_id (clock_at S n) = n" "cmap_wf (sy_replica S n)"
    "orset_inv (cm_membership (sy_replica S n))"
    "p \<in> all_adds S \<Longrightarrow> bounded S (snd p)" "r \<in> all_regs S \<Longrightarrow> bounded S (lww_timestamp r)"
    "inj_on lww_timestamp (all_regs S)" "inj_on snd (all_adds S)"
  using assms by (simp_all add: sys_inv_def)

text \<open>A stamp is new at \<open>n\<close> when it lies between the old and the new reading of its clock.\<close>

definition new_stamp :: "hlc \<Rightarrow> hlc \<Rightarrow> timestamp \<Rightarrow> bool" where
  "new_stamp c c' t \<longleftrightarrow> hlc_last_timestamp c < t \<and> t \<le> hlc_last_timestamp c' \<and> node_id t = hlc_node_id c"

lemma inj_on_fresh:
  assumes "inj_on f A" and "\<And>x. x \<in> N \<Longrightarrow> f x \<notin> f ` A" and "inj_on f N" and "B \<subseteq> A \<union> N"
  shows "inj_on f B"
proof (rule inj_on_subset [OF _ assms(4)])
  show "inj_on f (A \<union> N)"
    using assms(1-3) by (auto simp: inj_on_Un) (metis image_eqI)
qed

lemma regs_in_all: "regs_of (sy_replica S n) \<subseteq> all_regs S"
  by (auto simp: all_regs_def)

lemma adds_in_all: "os_adds (cm_membership (sy_replica S n)) \<subseteq> all_adds S"
  by (auto simp: all_adds_def)

text \<open>The one preservation argument: a replica's state changes so that every tag and every register
  it holds was in the system already or carries a stamp its clock issued in this step.\<close>

lemma sys_inv_set_replica:
  assumes inv: "sys_inv S"
    and c: "c = clock_at S n" and c': "c' = os_clock (cm_membership m)"
    and node: "hlc_node_id c' = hlc_node_id c" and mono: "hlc_last_timestamp c \<le> hlc_last_timestamp c'"
    and wf: "cmap_wf m" and oinv: "orset_inv (cm_membership m)"
    and adds: "os_adds (cm_membership m) \<subseteq> all_adds S \<union> NA"
    and regs: "regs_of m \<subseteq> all_regs S \<union> NR"
    and NA: "\<And>p. p \<in> NA \<Longrightarrow> new_stamp c c' (snd p)" "inj_on snd NA"
    and NR: "\<And>r. r \<in> NR \<Longrightarrow> new_stamp c c' (lww_timestamp r)" "inj_on lww_timestamp NR"
  shows "sys_inv (set_replica n m S)"
proof -
  let ?T = "set_replica n m S"
  have n: "hlc_node_id c = n" using inv c by (simp add: sys_invD)
  have clk: "clock_at ?T i = (if i = n then c' else clock_at S i)" for i
    by (simp add: set_replica_def c')
  have A: "all_adds ?T \<subseteq> all_adds S \<union> NA"
  proof
    fix p assume "p \<in> all_adds ?T"
    then obtain i where "p \<in> os_adds (cm_membership (sy_replica ?T i))" by (auto simp: all_adds_def)
    then show "p \<in> all_adds S \<union> NA"
      using adds adds_in_all [of S i] by (cases "i = n") (auto simp: set_replica_def)
  qed
  have R: "all_regs ?T \<subseteq> all_regs S \<union> NR"
  proof
    fix r assume "r \<in> all_regs ?T"
    moreover have "net_regs ?T = net_regs S" by (simp add: net_regs_def set_replica_def)
    ultimately consider i where "r \<in> regs_of (sy_replica ?T i)" | "r \<in> net_regs S"
      by (auto simp: all_regs_def)
    then show "r \<in> all_regs S \<union> NR"
    proof cases
      case 1
      then show ?thesis
        using regs regs_in_all [of S i] by (cases "i = n") (auto simp: set_replica_def)
    next
      case 2
      then show ?thesis by (simp add: all_regs_def)
    qed
  qed
  have old: "bounded ?T t" if "bounded S t" for t
    using that mono c by (auto simp: bounded_def clk)
  have new: "bounded ?T t" if "new_stamp c c' t" for t
    using that n by (simp add: bounded_def new_stamp_def clk)
  have fresh: "\<not> bounded S t" if "new_stamp c c' t" for t
    using that c n by (auto simp: new_stamp_def bounded_def)
  have "inj_on snd (all_adds ?T)"
    by (rule inj_on_fresh [OF sys_invD(7) [OF inv] _ NA(2) A])
      (use fresh NA(1) sys_invD(4) [OF inv] in force)
  moreover have "inj_on lww_timestamp (all_regs ?T)"
    by (rule inj_on_fresh [OF sys_invD(6) [OF inv] _ NR(2) R])
      (use fresh NR(1) sys_invD(5) [OF inv] in force)
  moreover have "bounded ?T (snd p)" if "p \<in> all_adds ?T" for p
    using that A sys_invD(4) [OF inv] NA(1) old new by blast
  moreover have "bounded ?T (lww_timestamp r)" if "r \<in> all_regs ?T" for r
    using that R sys_invD(5) [OF inv] NR(1) old new by blast
  moreover have "hlc_node_id (clock_at ?T i) = i \<and> cmap_wf (sy_replica ?T i)
      \<and> orset_inv (cm_membership (sy_replica ?T i))" for i
    using sys_invD(1-3) [OF inv] node n wf oinv by (simp add: clk) (simp add: set_replica_def)
  ultimately show ?thesis by (simp add: sys_inv_def)
qed

section \<open>Every step keeps it\<close>

lemma regs_of_update:
  "regs_of (m\<lparr>cm_membership := s, cm_values := AList.update k r (cm_values m)\<rparr>) \<subseteq> insert r (regs_of m)"
  by (auto simp: regs_of_def ran_def)

lemma reg_into_range: "reg_into (map_of (cm_values m) k) r \<in> insert r (regs_of m)"
  by (auto simp: reg_into_def lww_merge_cases regs_of_def ran_def split: option.split)

lemma new_stamp_tick: "new_stamp c (snd (hlc_tick now c)) (fst (hlc_tick now c))"
  using hlc_tick_greater [of c now] by (simp add: new_stamp_def hlc_tick_last)

lemma orset_inv_clock:
  "orset_inv s \<Longrightarrow> hlc_last_timestamp (os_clock s) \<le> hlc_last_timestamp c \<Longrightarrow> orset_inv (s\<lparr>os_clock := c\<rparr>)"
  by (auto simp: orset_inv_def orset_tags_def intro: order_trans)

lemma sys_inv_put:
  assumes "sys_inv S"
  shows "sys_inv (set_replica n (snd (cmap_put now k v (sy_replica S n))) S)"
proof -
  let ?m = "sy_replica S n"
  let ?s = "cm_membership ?m"
  let ?c = "os_clock ?s"
  let ?c' = "snd (hlc_tick now ?c)"
  let ?r = "\<lparr>lww_value = Some v, lww_timestamp = hlc_last_timestamp ?c'\<rparr>"
  have m: "snd (cmap_put now k v ?m) = ?m\<lparr>cm_membership := snd (orset_add now k ?s),
      cm_values := AList.update k (reg_into (map_of (cm_values ?m) k) ?r) (cm_values ?m)\<rparr>"
    by (simp add: cmap_put_def case_prod_beta Let_def)
  have stamp: "new_stamp ?c ?c' (hlc_last_timestamp ?c')"
    using new_stamp_tick [of ?c now] by (simp add: hlc_tick_last)
  show ?thesis
  proof (rule sys_inv_set_replica [OF assms refl refl, where NA = "{(k, fst (hlc_tick now ?c))}" and NR = "{?r}"])
    show "regs_of (snd (cmap_put now k v ?m)) \<subseteq> all_regs S \<union> {?r}"
      unfolding m using regs_of_update reg_into_range regs_in_all [of S n] by fast
    show "hlc_last_timestamp ?c \<le> hlc_last_timestamp (os_clock (cm_membership (snd (cmap_put now k v ?m))))"
      using hlc_tick_greater [of ?c now] by (simp add: m less_imp_le)
  qed (use assms adds_in_all [of S n] new_stamp_tick [of ?c now] stamp in
      \<open>auto simp: m sys_invD cmap_wf_def dict_wf_update orset_inv_add dest: sys_invD(2) [of S n]\<close>)
qed

lemma sys_inv_remove:
  assumes "sys_inv S"
  shows "sys_inv (set_replica n (snd (cmap_remove now now' ord k (sy_replica S n))) S)"
proof -
  let ?m = "sy_replica S n"
  let ?s = "snd (orset_remove now ord k (cm_membership ?m))"
  let ?c = "os_clock (cm_membership ?m)"
  let ?t = "hlc_tick now' (os_clock ?s)"
  let ?r = "\<lparr>lww_value = None, lww_timestamp = fst ?t\<rparr>"
  have le1: "hlc_last_timestamp ?c < hlc_last_timestamp (os_clock ?s)"
    by (simp add: hlc_tick_greater)
  have le2: "hlc_last_timestamp (os_clock ?s) < hlc_last_timestamp (snd ?t)"
    by (rule hlc_tick_greater)
  have inv: "orset_inv ?s" using assms by (simp add: orset_inv_remove sys_invD)
  show ?thesis
  proof (cases "map_of (cm_values ?m) k")
    case None
    then have m: "snd (cmap_remove now now' ord k ?m) = ?m\<lparr>cm_membership := ?s\<rparr>"
      by (simp add: cmap_remove_state Let_def)
    show ?thesis
      by (rule sys_inv_set_replica [OF assms refl refl, where NA = "{}" and NR = "{}"])
        (use assms adds_in_all [of S n] regs_in_all [of S n] le1 inv in
          \<open>auto simp: m regs_of_def cmap_wf_def dest: sys_invD(2) [of S n]\<close>)
  next
    case (Some existing)
    then have m: "snd (cmap_remove now now' ord k ?m) = ?m\<lparr>cm_membership := ?s\<lparr>os_clock := snd ?t\<rparr>,
        cm_values := AList.update k (lww_merge existing ?r) (cm_values ?m)\<rparr>"
      by (simp add: cmap_remove_state Let_def)
    have "lww_merge existing ?r \<in> insert ?r (regs_of ?m)"
      using Some by (auto simp: lww_merge_cases regs_of_def ran_def)
    then have regs: "regs_of (snd (cmap_remove now now' ord k ?m)) \<subseteq> all_regs S \<union> {?r}"
      unfolding m using regs_of_update regs_in_all [of S n] by fast
    have stamp: "new_stamp ?c (snd ?t) (fst ?t)"
      using le1 le2 by (simp add: new_stamp_def hlc_tick_last)
    show ?thesis
      by (rule sys_inv_set_replica [OF assms refl refl _ _ _ _ _ regs, where NA = "{}"])
        (use assms adds_in_all [of S n] le1 le2 stamp orset_inv_clock [OF inv, of "snd ?t"] in
          \<open>auto simp: m cmap_wf_def dest: sys_invD(2) [of S n]\<close>)
  qed
qed

lemma regs_of_merge: "cmap_wf other \<Longrightarrow> regs_of (cmap_merge its other m) \<subseteq> regs_of m \<union> regs_of other"
  by (force simp: regs_of_def cmap_merge_def cmap_wf_def map_of_values_merge ran_def opt_join_def
      lww_merge_cases split: option.splits if_splits)

lemma sys_inv_merge:
  assumes "sys_inv S" and "covers its (cm_membership (sy_replica S p))"
  shows "sys_inv (set_replica n (cmap_merge its (sy_replica S p) (sy_replica S n)) S)"
proof (rule sys_inv_set_replica [OF assms(1) refl refl, where NA = "{}" and NR = "{}"])
  let ?m = "cmap_merge its (sy_replica S p) (sy_replica S n)"
  show "hlc_last_timestamp (clock_at S n) \<le> hlc_last_timestamp (os_clock (cm_membership ?m))"
    by (simp add: cmap_merge_def fold_observe_mono)
  show "cmap_wf ?m"
    using assms(1) sys_invD(2) [of S n] by (simp add: cmap_merge_def cmap_wf_def dict_wf_values_merge)
  show "orset_inv (cm_membership ?m)"
    using assms by (simp add: cmap_merge_def orset_inv_merge sys_invD)
  show "os_adds (cm_membership ?m) \<subseteq> all_adds S \<union> {}"
    using adds_in_all [of S n] adds_in_all [of S p] by (simp add: cmap_merge_def)
  show "regs_of ?m \<subseteq> all_regs S \<union> {}"
    using assms(1) regs_of_merge [of "sy_replica S p" its "sy_replica S n"]
      regs_in_all [of S n] regs_in_all [of S p] by (auto simp: sys_invD)
qed (simp_all add: cmap_merge_def)

lemma sys_inv_publish:
  assumes "sys_inv S" "map_of (cm_values (sy_replica S n)) k = Some r" "lww_value r = Some v"
  shows "sys_inv (S\<lparr>sy_net := insert (k, v, lww_timestamp r) (sy_net S)\<rparr>)"
proof -
  have "r \<in> all_regs S"
    using assms(2) by (auto simp: all_regs_def regs_of_def ran_def)
  moreover have "\<lparr>lww_value = Some v, lww_timestamp = lww_timestamp r\<rparr> = r"
    using assms(3) by simp
  ultimately have "all_regs (S\<lparr>sy_net := insert (k, v, lww_timestamp r) (sy_net S)\<rparr>) = all_regs S"
    by (auto simp: all_regs_def net_regs_def)
  then show ?thesis using assms(1) by (simp add: sys_inv_def all_adds_def bounded_def)
qed

lemma sys_inv_ingest:
  assumes "sys_inv S" and net: "(k, v, ts) \<in> sy_net S"
  shows "sys_inv (set_replica n (cmap_ingest now now' k v ts (sy_replica S n)) S)"
proof -
  let ?m = "sy_replica S n"
  let ?s = "cm_membership ?m"
  let ?c = "os_clock ?s"
  let ?in = "\<lparr>lww_value = Some v, lww_timestamp = ts\<rparr>"
  define s1 where "s1 = (if k \<notin> orset_elements ?s then snd (orset_add now k ?s) else ?s)"
  define c' where "c' = snd (hlc_observe now' ts (os_clock s1))"
  define NA where "NA = (if k \<notin> orset_elements ?s then {(k, fst (hlc_tick now ?c))} else {})"
  have m: "cmap_ingest now now' k v ts ?m = ?m\<lparr>cm_membership := s1\<lparr>os_clock := c'\<rparr>,
      cm_values := AList.update k (reg_into (map_of (cm_values ?m) k) ?in) (cm_values ?m)\<rparr>"
    by (simp add: cmap_ingest_def s1_def c'_def Let_def)
  have s1: "orset_inv s1" "os_adds s1 \<subseteq> all_adds S \<union> NA" "hlc_node_id (os_clock s1) = hlc_node_id ?c"
      "hlc_last_timestamp ?c \<le> hlc_last_timestamp (os_clock s1)"
    using assms(1) adds_in_all [of S n] hlc_tick_greater [of ?c now]
    by (auto simp: s1_def NA_def orset_inv_add sys_invD less_imp_le)
  have le: "hlc_last_timestamp (os_clock s1) < hlc_last_timestamp c'"
    by (simp add: c'_def hlc_observe_greater)
  have "?in \<in> all_regs S" using net by (force simp: all_regs_def net_regs_def)
  then have "reg_into (map_of (cm_values ?m) k) ?in \<in> all_regs S"
    using reg_into_range [of ?m k ?in] regs_in_all [of S n] by auto
  then have regs: "regs_of (cmap_ingest now now' k v ts ?m) \<subseteq> all_regs S \<union> {}"
    unfolding m using regs_in_all [of S n] by (intro order_trans [OF regs_of_update]) auto
  have NA: "new_stamp ?c c' (snd p)" if "p \<in> NA" for p
    using that le new_stamp_tick [of ?c now]
    by (auto simp: NA_def s1_def new_stamp_def split: if_splits intro: order_trans less_imp_le)
  show ?thesis
  proof (rule sys_inv_set_replica [OF assms(1) refl refl _ _ _ _ _ regs, where NA = NA])
    show "inj_on snd NA" by (simp add: NA_def)
    show "cmap_wf (cmap_ingest now now' k v ts ?m)"
      using sys_invD(2) [OF assms(1), of n] by (simp add: m cmap_wf_def)
    show "orset_inv (cm_membership (cmap_ingest now now' k v ts ?m))"
      using le by (simp add: m orset_inv_clock [OF s1(1)])
  qed (use s1 le NA in \<open>simp_all add: m, simp add: c'_def\<close>)
qed

lemma sys_inv_step: "sys_step S T \<Longrightarrow> sys_inv S \<Longrightarrow> sys_inv T"
  by (induction rule: sys_step.induct)
    (auto intro: sys_inv_put sys_inv_remove sys_inv_merge sys_inv_publish sys_inv_ingest)

lemma sys_inv_init: "sys_inv (sys_init boot)"
  by (simp add: sys_inv_def sys_init_def cmap_init_def cmap_wf_def orset_inv_init all_adds_def
      all_regs_def net_regs_def regs_of_def) (simp add: orset_init_def hlc_init_def)

lemma reachable_inv: "sys_reachable S \<Longrightarrow> sys_inv S"
  by (induction rule: sys_reachable.induct) (auto intro: sys_inv_init sys_inv_step)

section \<open>Consequences\<close>

lemma reachable_history:
  assumes "sys_reachable S"
  obtains val where "\<And>n. view_ok val (cview (sy_replica S n))"
proof -
  have inj: "inj_on lww_timestamp (all_regs S)"
    using assms by (simp add: reachable_inv sys_invD)
  define val where "val = (\<lambda>t. lww_value (inv_into (all_regs S) lww_timestamp t))"
  have "reg_ok val r" if "r \<in> all_regs S" for r
    using that inj by (simp add: val_def reg_ok_def inv_into_f_f)
  then have "view_ok val (cview (sy_replica S n))" for n
    using regs_in_all [of S n] by (auto simp: view_ok_def opt_ok_def cview_def regs_of_def ran_def)
  then show ?thesis by (rule that)
qed

text \<open>Replica \<open>n\<close> merges the states of the replicas \<open>ns\<close>, in that order.\<close>

definition merge_peers ::
    "('k, 'v) system \<Rightarrow> (string \<Rightarrow> (('k \<times> timestamp) \<times> int) list) \<Rightarrow> string \<Rightarrow> string list \<Rightarrow> ('k, 'v) cmap" where
  "merge_peers S its n ns = cmap_merge_all (sy_replica S n) (map (\<lambda>i. (its i, sy_replica S i)) ns)"

lemma cview_merge_peers:
  "sys_reachable S \<Longrightarrow> cview (merge_peers S its n ns)
     = foldl view_join (cview (sy_replica S n)) (map (\<lambda>i. cview (sy_replica S i)) ns)"
  unfolding merge_peers_def
  by (subst cview_merge_all) (simp_all add: list_all_iff reachable_inv sys_invD comp_def)

text \<open>C1: strong eventual consistency. In every reachable state of the system, however the wall
  clocks behaved, two replicas that merge the same set of replica states (their own included), in
  any order and with any repetition, answer every \<^verbatim>\<open>get\<close> alike.\<close>

theorem replicas_converge:
  assumes "sys_reachable S" and "set (n # ns) = set (n' # ns')"
  shows "cmap_get (merge_peers S its n ns) = cmap_get (merge_peers S its' n' ns')"
proof -
  obtain val where val: "\<And>i. view_ok val (cview (sy_replica S i))"
    using assms(1) by (rule reachable_history) blast
  let ?v = "\<lambda>i. cview (sy_replica S i)"
  have "set (?v n # map ?v ns) = ?v ` set (n # ns)" by simp
  also have "\<dots> = set (?v n' # map ?v ns')" unfolding assms(2) by simp
  finally have "foldl view_join (?v n) (map ?v ns) = foldl view_join (?v n') (map ?v ns')"
    using val by (intro view.foldl_same_set [of val]) (simp_all add: list_all_iff)
  then show ?thesis
    using assms(1) by (simp add: fun_eq_iff cmap_get_view cview_merge_peers)
qed

definition demo_system :: "(string, nat) system" where
  "demo_system = set_replica ''A'' (snd (cmap_put 5 ''k'' 7 (cmap_init ''A'' 0))) (sys_init (\<lambda>_. 0))"

lemma demo_reachable: "sys_reachable demo_system"
proof -
  have "sys_step (sys_init (\<lambda>_. 0)) demo_system"
    using sys_step.put [of "sys_init (\<lambda>_. 0)" "''A''" 5 "''k''" 7]
    by (simp add: demo_system_def sys_init_def)
  then show ?thesis by (rule sys_reachable.step [OF sys_reachable.start])
qed

theorem replicas_converge_witness:
  "cmap_get (merge_peers demo_system (\<lambda>_. []) ''A'' [''B'']) ''k''
     = cmap_get (merge_peers demo_system (\<lambda>_. []) ''B'' [''A'', ''B'', ''A'']) ''k''"
proof -
  have "set [''A'', ''B''] = set [''B'', ''A'', ''B'', ''A'']" by auto
  from replicas_converge [OF demo_reachable this, of "\<lambda>_. []" "\<lambda>_. []"] show ?thesis by simp
qed

text \<open>Membership means what the documentation of \<^verbatim>\<open>ORSet\<close> says. The code tests a tag against the
  tags of all tombstones; in every reachable state this is the same as asking for an add of that
  very element that has no tombstone.\<close>

theorem membership_meaning:
  assumes "sys_reachable S"
  shows "k \<in> orset_elements (cm_membership (sy_replica S n)) \<longleftrightarrow>
     (\<exists>t. (k, t) \<in> os_adds (cm_membership (sy_replica S n))
          \<and> (k, t) \<notin> os_removes (cm_membership (sy_replica S n)))"
proof -
  let ?s = "cm_membership (sy_replica S n)"
  have inv: "inj_on snd (all_adds S)" "os_removes ?s \<subseteq> os_adds ?s"
    using assms sys_invD(3) [OF reachable_inv, of S n] sys_invD(7) [OF reachable_inv, of S]
    by (auto simp: orset_inv_def)
  have "(k, t) \<in> os_removes ?s" if "(k, t) \<in> os_adds ?s" "t \<in> snd ` os_removes ?s" for t
  proof -
    from that(2) obtain k' where k': "(k', t) \<in> os_removes ?s" by auto
    then have "(k', t) = (k, t)"
      using inv(2) that(1) adds_in_all [of S n] by (intro inj_onD [OF inv(1)]) auto
    with k' show ?thesis by simp
  qed
  then show ?thesis unfolding mem_elements_iff by (metis image_eqI snd_conv)
qed

theorem membership_meaning_witness:
  "''k'' \<in> orset_elements (cm_membership (sy_replica demo_system ''A''))"
  unfolding membership_meaning [OF demo_reachable]
  by (simp add: demo_system_def set_replica_def cmap_put_state cmap_init_def orset_init_def)

text \<open>C2: add wins. A put at \<open>n\<close> and a remove of the same key at another replica \<open>p\<close>, both made in the
  same reachable state, leave the key a member after the two states are merged.\<close>

theorem add_wins:
  assumes "sys_reachable S" and "n \<noteq> p"
    and "m = snd (cmap_put now k v (sy_replica S n))"
    and "m' = snd (cmap_remove now' now'' ord k (sy_replica S p))"
  shows "k \<in> orset_elements (cm_membership (cmap_merge its m' m))"
proof -
  let ?c = "clock_at S n"
  let ?t = "fst (hlc_tick now ?c)"
  have inv: "sys_inv S" using assms(1) by (rule reachable_inv)
  have "\<not> bounded S ?t"
    using new_stamp_tick [of ?c now] sys_invD(1) [OF inv] by (auto simp: bounded_def new_stamp_def)
  then have fresh: "?t \<notin> snd ` all_adds S" using sys_invD(4) [OF inv] by auto
  have rems: "os_removes (cm_membership (sy_replica S i)) \<subseteq> all_adds S" for i
    using sys_invD(3) [OF inv, of i] adds_in_all [of S i] by (auto simp: orset_inv_def)
  have "os_removes (cm_membership m') \<subseteq> all_adds S"
    using rems [of p] observed_subset [of k "cm_membership (sy_replica S p)"] adds_in_all [of S p]
    by (auto simp: assms(4) cmap_remove_state Let_def split: option.split)
  with rems [of n] have "?t \<notin> snd ` os_removes (cm_membership (cmap_merge its m' m))"
    using fresh by (auto simp: cmap_merge_def assms(3) cmap_put_state)
  moreover have "(k, ?t) \<in> os_adds (cm_membership (cmap_merge its m' m))"
    by (simp add: cmap_merge_def assms(3) cmap_put_state)
  ultimately show ?thesis by (auto simp: mem_elements_iff)
qed

theorem add_wins_witness:
  "''k'' \<in> orset_elements (cm_membership
     (cmap_merge [] (snd (cmap_remove 9 9 [] ''k'' (sy_replica demo_system ''A'')))
                    (snd (cmap_put 2 ''k'' 8 (sy_replica demo_system ''B'')))))"
  by (rule add_wins [OF demo_reachable _ refl refl, of "''B''" "''A''"]) simp

text \<open>A hybrid logical clock only moves forward. Over any run of local events and received
  stamps, whatever the wall clock shows, the issued stamps are strictly increasing and all lie
  above the clock's reading at the start.\<close>

theorem clock_stamps_increase:
  "sorted_wrt (<) (hlc_last_timestamp c # fst (hlc_run es c))"
  using hlc_run_increasing [of es c] hlc_run_above [of _ es c] by simp

text \<open>Folding in a remote stamp gives a stamp above both the remote one and everything the local
  clock had issued, even when the remote wall clock is ahead of the local one.\<close>

theorem observe_dominates:
  "t < fst (hlc_observe now t c) \<and> hlc_last_timestamp c < fst (hlc_observe now t c)"
  by (simp add: hlc_observe_last hlc_observe_above hlc_observe_greater)

text \<open>On one replica the cache map is a map. In every well-formed state a put is read back, a
  removed key reads as absent, no other key changes, and both operations keep the state well
  formed.\<close>

theorem cmap_behaves_as_map:
  assumes "cmap_inv m"
  shows "cmap_get (snd (cmap_put now k v m)) = (cmap_get m)(k \<mapsto> v)
     \<and> cmap_get (snd (cmap_remove now now' ord k m)) = (cmap_get m)(k := None)
     \<and> cmap_inv (snd (cmap_put now k v m)) \<and> cmap_inv (snd (cmap_remove now now' ord k m))"
  using assms by (simp add: cm.get_put cm.get_rem cm.inv_put cm.inv_rem)

theorem cmap_behaves_as_map_witness:
  "cmap_get (snd (cmap_put 3 ''k'' (7::nat) (cmap_init ''A'' 0))) ''k'' = Some 7"
  using cmap_behaves_as_map [OF cmap_inv_init, of 3 "''k''" "7::nat" "''A''" 0] by simp

text \<open>Merging in place and building a merged copy are the same operation on the replicated state:
  both give the join of the two views, so reads after either agree.\<close>

theorem merged_equals_merge:
  assumes "cmap_wf m" and "cmap_wf other"
  shows "cview (cmap_merged now its m other) = cview (cmap_merge its' other m)"
  using assms by (simp add: cview_merged cview_merge)

theorem merged_equals_merge_witness:
  "cview (cmap_merged 1 [] (cmap_init ''A'' 0) (snd (cmap_put 3 ''k'' (7::nat) (cmap_init ''B'' 0))))
     = cview (cmap_merge [] (snd (cmap_put 3 ''k'' 7 (cmap_init ''B'' 0))) (cmap_init ''A'' 0))"
  by (rule merged_equals_merge) (simp_all add: cmap_wf_def cmap_init_def cmap_put_state dict_wf_def)

section \<open>Where the code departs from its documentation\<close>

definition twice_added :: "nat orset" where
  "twice_added = snd (orset_add 5 1 (snd (orset_add 5 1 (orset_init ''A'' 5))))"

definition then_removed :: "nat orset" where
  "then_removed = snd (orset_remove 5 [(1, Timestamp 5 1 ''A''), (1, Timestamp 5 2 ''A'')] 1 twice_added)"

text \<open>\<^verbatim>\<open>prune\<close> changes the membership. Its documentation says that dropping a redundant tombstone
  never changes \<^verbatim>\<open>elements\<close>; after two adds and one remove of an element by the same node it drops
  the tombstone of the first add and the removed element is back.\<close>

theorem prune_resurrects:
  "orset_elements then_removed = {}
     \<and> orset_elements (snd (orset_prune [(1, Timestamp 5 1 ''A''), (1, Timestamp 5 2 ''A'')] then_removed)) = {1}"
  by code_simp

text \<open>Pruning never hides an element: whatever it drops, the membership can only grow.\<close>

theorem prune_keeps_elements: "orset_elements s \<subseteq> orset_elements (snd (orset_prune ord s))"
proof
  fix e assume "e \<in> orset_elements s"
  then obtain t where "(e, t) \<in> os_adds s" "t \<notin> snd ` os_removes s" by (auto simp: mem_elements_iff)
  moreover have "os_removes (snd (orset_prune ord s)) \<subseteq> os_removes s"
    and "os_adds (snd (orset_prune ord s)) = os_adds s"
    by (auto simp: orset_prune_def Let_def)
  ultimately show "e \<in> orset_elements (snd (orset_prune ord s))"
    unfolding mem_elements_iff by (metis image_mono subsetD)
qed

definition lost_put_state :: "(string, nat) cmap" where
  "lost_put_state =
     (let a1 = snd (cmap_put 100 ''k'' 1 (cmap_init ''A'' 100));
          b1 = cmap_merge (map (\<lambda>p. (p, 0)) [(''k'', Timestamp 100 1 ''A'')]) a1 (cmap_init ''B'' 0);
          a2 = snd (cmap_remove 200 200 [(''k'', Timestamp 100 1 ''A'')] ''k'' a1)
      in cmap_merge (map (\<lambda>p. (p, 0)) [(''k'', Timestamp 100 1 ''A'')]) a2 b1)"

text \<open>A put can be lost. \<^verbatim>\<open>merge\<close> advances the local clock past the tags of the peer but not past the
  stamps of its value registers, so after merging a removal made on a node whose wall clock is
  ahead, a local put is stamped before the tombstone: the key is a member, yet reads as absent.\<close>

theorem put_lost_after_merge:
  "let m = snd (cmap_put 0 ''k'' 2 lost_put_state)
   in ''k'' \<in> orset_elements (cm_membership m) \<and> cmap_get m ''k'' = None"
  by code_simp

end
