(* ===== verification/RadixTree.thy ===== *)
theory RadixTree
  imports Prelude
begin

text \<open>
  The prefix trie of \<^verbatim>\<open>src/distllm/core/radix_tree_cache.py\<close>: \<open>rnode\<close> is \<^verbatim>\<open>RadixNode\<close> without the
  parent pointer, and a node reference of the source is the path that leads to it from the root.
  Readings of the clock (\<^verbatim>\<open>time.time\<close>) are inputs of any linearly ordered type \<open>'t\<close>: \<open>clk d\<close> is the
  reading taken at depth \<open>d\<close> of a walk, \<open>now\<close> the one taken at its end. The entry argument of
  \<^verbatim>\<open>insert\<close> has type \<open>'v option\<close>, since the source does not forbid storing \<^verbatim>\<open>None\<close>.
\<close>

section \<open>Nodes\<close>

datatype ('t, 'v) rnode =
  RNode (rn_token: int) (rn_kv: "'v option") (rn_last_access: 't) (rn_size: int)
    (rn_children: "(int \<times> ('t, 'v) rnode) list")

definition rnode_new :: "int \<Rightarrow> 't \<Rightarrow> ('t, 'v) rnode" where
  "rnode_new tok now = RNode tok None now 0 []"

definition rn_dead :: "('t, 'v) rnode \<Rightarrow> bool" where
  "rn_dead n \<longleftrightarrow> rn_kv n = None \<and> rn_children n = []"

text \<open>\<^verbatim>\<open>insert\<close> walks down, creating nodes, and counts the new entry on the way back to the root.\<close>

fun rn_insert :: "(nat \<Rightarrow> 't) \<Rightarrow> 't \<Rightarrow> int list \<Rightarrow> 'v option \<Rightarrow> ('t, 'v) rnode \<Rightarrow> bool \<times> ('t, 'v) rnode" where
  "rn_insert clk now [] kv (RNode tok kv0 la sz cs) =
     (let was_new = (kv0 = None)
      in (was_new, RNode tok kv now (if was_new then sz + 1 else sz) cs))"
| "rn_insert clk now (x # xs) kv (RNode tok kv0 la sz cs) =
     (let child = (case map_of cs x of None \<Rightarrow> rnode_new x (clk 0) | Some c \<Rightarrow> c);
          (was_new, child') = rn_insert (\<lambda>d. clk (Suc d)) now xs kv child
      in (was_new, RNode tok kv0 la (if was_new then sz + 1 else sz) (AList.update x child' cs)))"

text \<open>The loop of \<^verbatim>\<open>lookup\<close> from depth \<open>i\<close> with the best match so far; entries on the way are touched.\<close>

fun rn_lookup_loop ::
    "nat \<Rightarrow> nat \<times> 'v option \<Rightarrow> (nat \<Rightarrow> 't) \<Rightarrow> int list \<Rightarrow> ('t, 'v) rnode \<Rightarrow> (nat \<times> 'v option) \<times> ('t, 'v) rnode" where
  "rn_lookup_loop i best clk [] n = (best, n)"
| "rn_lookup_loop i best clk (x # xs) (RNode tok kv la sz cs) =
     (case map_of cs x of
        None \<Rightarrow> (best, RNode tok kv la sz cs)
      | Some (RNode tok' kv' la' sz' cs') \<Rightarrow>
          (let hit = (kv' \<noteq> None);
               (best', c) = rn_lookup_loop (Suc i) (if hit then (Suc i, kv') else best) (\<lambda>d. clk (Suc d)) xs
                 (RNode tok' kv' (if hit then clk 0 else la') sz' cs')
           in (best', RNode tok kv la sz (AList.update x c cs))))"

definition rn_lookup :: "(nat \<Rightarrow> 't) \<Rightarrow> int list \<Rightarrow> ('t, 'v) rnode \<Rightarrow> (nat \<times> 'v option) \<times> ('t, 'v) rnode" where
  "rn_lookup clk toks n = rn_lookup_loop 0 (0, None) clk toks n"

fun rn_find_shared_prefix :: "int list \<Rightarrow> ('t, 'v) rnode \<Rightarrow> nat" where
  "rn_find_shared_prefix [] n = 0"
| "rn_find_shared_prefix (x # xs) n =
     (case map_of (rn_children n) x of None \<Rightarrow> 0 | Some c \<Rightarrow> Suc (rn_find_shared_prefix xs c))"

definition rn_count_entries :: "('t, 'v) rnode \<Rightarrow> int" where
  "rn_count_entries n = rn_size n"

text \<open>\<^verbatim>\<open>_take_path\<close> with \<^verbatim>\<open>_remove_entry\<close>: clear the entry, decrement the counts up to the root, detach the
  dead chain that is left.\<close>

fun rn_take_path :: "int list \<Rightarrow> ('t, 'v) rnode \<Rightarrow> 'v option \<times> ('t, 'v) rnode" where
  "rn_take_path [] (RNode tok kv la sz cs) =
     (case kv of None \<Rightarrow> (None, RNode tok kv la sz cs)
      | Some v \<Rightarrow> (Some v, RNode tok None la (max 0 (sz - 1)) cs))"
| "rn_take_path (x # xs) (RNode tok kv la sz cs) =
     (case map_of cs x of None \<Rightarrow> (None, RNode tok kv la sz cs)
      | Some c \<Rightarrow>
          (case rn_take_path xs c of
             (None, _) \<Rightarrow> (None, RNode tok kv la sz cs)
           | (Some v, c') \<Rightarrow>
               (Some v, RNode tok kv la (max 0 (sz - 1))
                  (if rn_dead c' then AList.delete x cs else AList.update x c' cs))))"

definition rn_evict_path :: "int list \<Rightarrow> ('t, 'v) rnode \<Rightarrow> bool \<times> ('t, 'v) rnode" where
  "rn_evict_path toks n = (let (v, n') = rn_take_path toks n in (v \<noteq> None, n'))"

definition rn_clear :: "('t, 'v) rnode \<Rightarrow> ('t, 'v) rnode" where
  "rn_clear n = RNode (rn_token n) None (rn_last_access n) 0 []"

text \<open>The traversals keep an explicit stack; its top is the head of the list. \<^verbatim>\<open>stack.extend\<close> pushes the
  children in dictionary order, so they are popped in reverse.\<close>

definition rn_push :: "int list \<Rightarrow> ('t, 'v) rnode \<Rightarrow> (int list \<times> ('t, 'v) rnode) list" where
  "rn_push path n = rev (map (\<lambda>(x, c). (path @ [x], c)) (rn_children n))"

fun rn_nodes :: "('t, 'v) rnode \<Rightarrow> nat" where
  "rn_nodes (RNode tok kv la sz cs) = Suc (sum_list (map (\<lambda>p. rn_nodes (snd p)) cs))"

lemma rn_nodes_push: "sum_list (map (rn_nodes \<circ> snd) (rn_push path n)) < rn_nodes n"
  by (cases n) (simp add: rn_push_def rev_map [symmetric] comp_def case_prod_beta sum_list_rev)

function rn_collect_loop ::
    "(int list \<times> ('t, 'v) rnode) list \<Rightarrow> ('t \<times> int list) list \<Rightarrow> nat \<Rightarrow> ('t \<times> int list) list \<times> nat" where
  "rn_collect_loop [] found live = (found, live)"
| "rn_collect_loop ((path, n) # stack) found live =
     (let live' = (if rn_kv n \<noteq> None then Suc live else live);
          found' = (if rn_kv n \<noteq> None \<and> rn_children n = [] then found @ [(rn_last_access n, path)] else found)
      in rn_collect_loop (rn_push path n @ stack) found' live')"
  by pat_completeness auto
termination
proof (relation "measure (\<lambda>(stack, found, live). sum_list (map (rn_nodes \<circ> snd) stack))", goal_cases)
  case (2 path n stack found live)
  then show ?case using rn_nodes_push [of path n] by simp
qed simp

definition rn_collect_evictable :: "('t::linorder, 'v) rnode \<Rightarrow> ('t \<times> int list) list \<times> nat" where
  "rn_collect_evictable n = (let (found, live) = rn_collect_loop [([], n)] [] 0 in (sort_key fst found, live))"

text \<open>The entry stored at a path: the view of the trie as a partial map.\<close>

fun rn_find :: "int list \<Rightarrow> ('t, 'v) rnode \<Rightarrow> 'v option" where
  "rn_find [] n = rn_kv n"
| "rn_find (x # xs) n = (case map_of (rn_children n) x of None \<Rightarrow> None | Some c \<Rightarrow> rn_find xs c)"

fun rn_evict_loop ::
    "int \<Rightarrow> ('t \<times> int list) list \<Rightarrow> int \<Rightarrow> int \<Rightarrow> ('t, 'v) rnode \<Rightarrow> (int \<times> int) \<times> ('t, 'v) rnode" where
  "rn_evict_loop limit [] remaining evicted n = ((evicted, remaining), n)"
| "rn_evict_loop limit ((_, path) # victims) remaining evicted n =
     (if remaining \<le> limit then ((evicted, remaining), n)
      else if rn_find path n = None then rn_evict_loop limit victims remaining evicted n
      else rn_evict_loop limit victims (remaining - 1) (evicted + 1) (snd (rn_take_path path n)))"

definition rn_evict_lru :: "int \<Rightarrow> ('t::linorder, 'v) rnode \<Rightarrow> (int \<times> int) \<times> ('t, 'v) rnode" where
  "rn_evict_lru max_entries n =
     (let limit = max 0 max_entries; (victims, live) = rn_collect_evictable n
      in rn_evict_loop limit victims (int live) 0 n)"

function rn_find_lru_loop ::
    "(int list \<times> ('t::linorder, 'v) rnode) list \<Rightarrow> ('t \<times> int list) option \<Rightarrow> ('t \<times> int list) option" where
  "rn_find_lru_loop [] best = best"
| "rn_find_lru_loop ((path, n) # stack) best =
     rn_find_lru_loop (rn_push path n @ stack)
       (if rn_kv n \<noteq> None \<and> rn_children n = []
           \<and> (case best of None \<Rightarrow> True | Some (t, _) \<Rightarrow> rn_last_access n < t)
        then Some (rn_last_access n, path) else best)"
  by pat_completeness auto
termination
proof (relation "measure (\<lambda>(stack, best). sum_list (map (rn_nodes \<circ> snd) stack))", goal_cases)
  case (2 path n stack best)
  then show ?case using rn_nodes_push [of path n] by simp
qed simp

definition rn_find_lru_leaf :: "('t::linorder, 'v) rnode \<Rightarrow> ('t \<times> int list) option" where
  "rn_find_lru_leaf n = rn_find_lru_loop [([], n)] None"

section \<open>The cache\<close>

text \<open>Cached values, as far as the size estimate looks at them.\<close>

datatype pyval =
    Tensor (element_size: nat) (numel: nat)
  | PyDict "pyval list"
  | PyList "pyval list"
  | PyTuple "pyval list"
  | PyOther

fun tensor_bytes :: "pyval \<Rightarrow> int" where
  "tensor_bytes (Tensor es n) = int (es * n)"
| "tensor_bytes _ = 0"

fun dict_value_bytes :: "pyval \<Rightarrow> int" where
  "dict_value_bytes (Tensor es n) = int (es * n)"
| "dict_value_bytes (PyTuple ts) = sum_list (map tensor_bytes ts)"
| "dict_value_bytes _ = 0"

fun estimate_entry_memory :: "pyval \<Rightarrow> int" where
  "estimate_entry_memory (PyDict vs) = sum_list (map dict_value_bytes vs)"
| "estimate_entry_memory (PyList ts) = sum_list (map tensor_bytes ts)"
| "estimate_entry_memory (PyTuple ts) = sum_list (map tensor_bytes ts)"
| "estimate_entry_memory _ = 0"

record 't rcache =
  rc_root :: "('t, pyval) rnode"
  rc_min_prefix_len :: int
  rc_max_entries :: int
  rc_memory_budget :: int
  rc_total_memory_bytes :: int
  rc_hits :: int
  rc_misses :: int

definition rcache_init :: "'t \<Rightarrow> int \<Rightarrow> int \<Rightarrow> int \<Rightarrow> 't rcache" where
  "rcache_init now max_entries min_prefix_len budget =
     \<lparr>rc_root = rnode_new (- 1) now, rc_min_prefix_len = min_prefix_len, rc_max_entries = max_entries,
      rc_memory_budget = budget, rc_total_memory_bytes = 0, rc_hits = 0, rc_misses = 0\<rparr>"

definition rcache_lookup :: "(nat \<Rightarrow> 't) \<Rightarrow> int list \<Rightarrow> 't rcache \<Rightarrow> (nat \<times> pyval option) \<times> 't rcache" where
  "rcache_lookup clk toks c =
     (if int (length toks) < rc_min_prefix_len c then ((0, None), c\<lparr>rc_misses := rc_misses c + 1\<rparr>)
      else let ((len, kv), root) = rn_lookup clk toks (rc_root c); c' = c\<lparr>rc_root := root\<rparr>
           in if len > 0 \<and> kv \<noteq> None then ((len, kv), c'\<lparr>rc_hits := rc_hits c + 1\<rparr>)
              else ((0, None), c'\<lparr>rc_misses := rc_misses c + 1\<rparr>))"

definition within_limits :: "'t rcache \<Rightarrow> bool" where
  "within_limits c \<longleftrightarrow>
     (rc_max_entries c \<le> 0 \<or> rn_size (rc_root c) \<le> rc_max_entries c)
     \<and> rc_total_memory_bytes c \<le> rc_memory_budget c"

fun evict_fit_loop :: "('t \<times> int list) list \<Rightarrow> 't rcache \<Rightarrow> 't rcache" where
  "evict_fit_loop [] c = c"
| "evict_fit_loop ((_, path) # victims) c =
     (if within_limits c then c
      else case rn_find path (rc_root c) of
             None \<Rightarrow> evict_fit_loop victims c
           | Some v \<Rightarrow>
               evict_fit_loop victims
                 (c\<lparr>rc_root := snd (rn_take_path path (rc_root c)),
                    rc_total_memory_bytes := max 0 (rc_total_memory_bytes c - estimate_entry_memory v)\<rparr>))"

definition evict_until_fit :: "'t::linorder rcache \<Rightarrow> 't rcache" where
  "evict_until_fit c =
     (if within_limits c then c else evict_fit_loop (fst (rn_collect_evictable (rc_root c))) c)"

text \<open>\<^verbatim>\<open>_estimate_entry_memory\<close> of an argument that may be \<^verbatim>\<open>None\<close>, which is neither dict, list nor tuple.\<close>

definition opt_bytes :: "pyval option \<Rightarrow> int" where
  "opt_bytes kv = (case kv of None \<Rightarrow> 0 | Some v \<Rightarrow> estimate_entry_memory v)"

definition rcache_store :: "(nat \<Rightarrow> 't) \<Rightarrow> 't::linorder \<Rightarrow> int list \<Rightarrow> pyval option \<Rightarrow> 't rcache \<Rightarrow> 't rcache" where
  "rcache_store clk now toks kv c =
     (if int (length toks) < rc_min_prefix_len c then c
      else let entry_bytes = opt_bytes kv;
               replaced_bytes = opt_bytes (rn_find toks (rc_root c));
               total = rc_total_memory_bytes c + (entry_bytes - replaced_bytes);
               total' = (if total < 0 then 0 else total)
           in evict_until_fit (c\<lparr>rc_total_memory_bytes := total',
                                 rc_root := snd (rn_insert clk now toks kv (rc_root c))\<rparr>))"

definition rcache_find_shared_prefix :: "int list \<Rightarrow> 't rcache \<Rightarrow> nat" where
  "rcache_find_shared_prefix toks c = rn_find_shared_prefix toks (rc_root c)"

definition rcache_evict :: "int list \<Rightarrow> 't rcache \<Rightarrow> bool \<times> 't rcache" where
  "rcache_evict toks c =
     (case rn_take_path toks (rc_root c) of
        (Some v, root) \<Rightarrow>
          (True, c\<lparr>rc_root := root,
                   rc_total_memory_bytes := max 0 (rc_total_memory_bytes c - estimate_entry_memory v)\<rparr>)
      | (None, root) \<Rightarrow> (False, c\<lparr>rc_root := root\<rparr>))"

definition rcache_clear :: "'t rcache \<Rightarrow> 't rcache" where
  "rcache_clear c = c\<lparr>rc_root := rn_clear (rc_root c), rc_hits := 0, rc_misses := 0, rc_total_memory_bytes := 0\<rparr>"

definition adjust_memory_budget :: "int \<Rightarrow> 't::linorder rcache \<Rightarrow> 't rcache" where
  "adjust_memory_budget budget c = evict_until_fit (c\<lparr>rc_memory_budget := budget\<rparr>)"

section \<open>Weights and well-formedness\<close>

definition opt_weight :: "('v \<Rightarrow> int) \<Rightarrow> 'v option \<Rightarrow> int" where
  "opt_weight w kv = (case kv of None \<Rightarrow> 0 | Some v \<Rightarrow> w v)"

lemma opt_weight_simps [simp]: "opt_weight w None = 0" "opt_weight w (Some v) = w v"
  by (simp_all add: opt_weight_def)

text \<open>The sum of a weight over all entries: the number of entries for \<open>\<lambda>_. 1\<close>, the memory in use for
  \<open>estimate_entry_memory\<close>.\<close>

fun rn_sum :: "('v \<Rightarrow> int) \<Rightarrow> ('t, 'v) rnode \<Rightarrow> int" where
  "rn_sum w (RNode tok kv la sz cs) = opt_weight w kv + sum_list (map (\<lambda>p. rn_sum w (snd p)) cs)"

abbreviation rn_count :: "('t, 'v) rnode \<Rightarrow> int" where
  "rn_count \<equiv> rn_sum (\<lambda>_. 1)"

text \<open>The invariants stated in the class documentation: \<^verbatim>\<open>size\<close> counts the entries of the subtree, and no
  dead node hangs below another.\<close>

fun rn_ok :: "('t, 'v) rnode \<Rightarrow> bool" where
  "rn_ok (RNode tok kv la sz cs) \<longleftrightarrow>
     dict_wf cs \<and> sz = opt_weight (\<lambda>_. 1) kv + sum_list (map (\<lambda>p. rn_count (snd p)) cs)
     \<and> list_all (\<lambda>p. rn_ok (snd p) \<and> \<not> rn_dead (snd p) \<and> rn_token (snd p) = fst p) cs"

lemma rn_ok_size: "rn_ok n \<Longrightarrow> rn_size n = rn_count n"
  by (cases n) simp

lemma rn_ok_child:
  "rn_ok (RNode tok kv la sz cs) \<Longrightarrow> map_of cs x = Some c \<Longrightarrow> rn_ok c \<and> \<not> rn_dead c \<and> rn_token c = x"
  by (fastforce simp: list_all_iff dest: map_of_SomeD)

lemma rn_ok_new [simp]: "rn_ok (rnode_new x t)" "rn_sum w (rnode_new x t) = 0" "rn_find p (rnode_new x t) = None"
  by (cases p; simp add: rnode_new_def)+

lemma rn_sum_nonneg: "(\<And>v. 0 \<le> w v) \<Longrightarrow> 0 \<le> rn_sum w n"
proof (induction n)
  case (RNode tok kv la sz cs)
  have "0 \<le> rn_sum w (snd p)" if "p \<in> set cs" for p
    using RNode.IH [OF that, of "snd p"] RNode.prems by (cases p) auto
  then have "0 \<le> sum_list (map (\<lambda>p. rn_sum w (snd p)) cs)"
    by (intro sum_list_nonneg) auto
  then show ?case using RNode.prems by (cases kv) auto
qed

lemma sum_list_update:
  fixes f :: "'c \<Rightarrow> int"
  assumes "dict_wf cs"
  shows "sum_list (map (\<lambda>p. f (snd p)) (AList.update x c cs))
     = sum_list (map (\<lambda>p. f (snd p)) cs) + f c - opt_weight f (map_of cs x)"
  using assms
proof (induction cs)
  case Nil
  then show ?case by simp
next
  case (Cons p cs)
  obtain k v where p: "p = (k, v)" by (cases p)
  with Cons have "map_of cs k = None" "dict_wf cs" by (auto simp: dict_wf_Cons)
  with Cons.IH show ?case by (auto simp: p)
qed

lemma sum_list_delete:
  fixes f :: "'c \<Rightarrow> int"
  assumes "dict_wf cs"
  shows "sum_list (map (\<lambda>p. f (snd p)) (AList.delete x cs))
     = sum_list (map (\<lambda>p. f (snd p)) cs) - opt_weight f (map_of cs x)"
  using assms
proof (induction cs)
  case Nil
  then show ?case by simp
next
  case (Cons p cs)
  obtain k v where p: "p = (k, v)" by (cases p)
  with Cons have "map_of cs k = None" "dict_wf cs" by (auto simp: dict_wf_Cons)
  moreover from this have "AList.delete k cs = cs"
    by (intro delete_id) (simp add: map_of_eq_None_iff)
  ultimately show ?case using Cons.IH by (auto simp: p)
qed

lemma list_all_update: "list_all P cs \<Longrightarrow> P (x, c) \<Longrightarrow> list_all P (AList.update x c cs)"
  by (induction cs) auto

lemma list_all_delete: "list_all P cs \<Longrightarrow> list_all P (AList.delete x cs)"
  by (auto simp: AList.delete_eq list_all_iff)

section \<open>Insertion and removal as map updates\<close>

lemma rn_insert_Cons:
  "rn_insert clk now (x # xs) kv (RNode tok kv0 la sz cs) =
     (let r = rn_insert (\<lambda>d. clk (Suc d)) now xs kv (case map_of cs x of None \<Rightarrow> rnode_new x (clk 0) | Some c \<Rightarrow> c)
      in (fst r, RNode tok kv0 la (if fst r then sz + 1 else sz) (AList.update x (snd r) cs)))"
  by (simp add: case_prod_beta Let_def)

declare rn_insert.simps(2) [simp del]

lemma rn_insert_new: "fst (rn_insert clk now q kv n) \<longleftrightarrow> rn_find q n = None"
  by (induction q arbitrary: clk n; case_tac n) (auto simp: rn_insert_Cons Let_def split: option.splits)

lemma rn_find_insert: "rn_find p (snd (rn_insert clk now q kv n)) = (if p = q then kv else rn_find p n)"
proof (induction q arbitrary: clk n p)
  case Nil
  then show ?case by (cases n; cases p) (auto simp: Let_def)
next
  case (Cons x xs)
  then show ?case by (cases n; cases p) (auto simp: rn_insert_Cons Let_def split: option.splits)
qed

lemma rn_sum_insert:
  "rn_ok n \<Longrightarrow> rn_sum w (snd (rn_insert clk now q kv n))
     = rn_sum w n + opt_weight w kv - opt_weight w (rn_find q n)"
proof (induction q arbitrary: clk n)
  case Nil
  then show ?case by (cases n) (simp add: Let_def)
next
  case (Cons x xs)
  obtain tok kv0 la sz cs where n: "n = RNode tok kv0 la sz cs" by (cases n)
  let ?c = "case map_of cs x of None \<Rightarrow> rnode_new x (clk 0) | Some c \<Rightarrow> c"
  have ok: "rn_ok ?c" using Cons.prems rn_ok_child unfolding n by (fastforce split: option.split)
  have "dict_wf cs" using Cons.prems by (simp add: n)
  then show ?case
    using Cons.IH [OF ok, of "\<lambda>d. clk (Suc d)"]
    by (auto simp: n rn_insert_Cons Let_def sum_list_update split: option.splits)
qed

lemma rn_dead_insert: "\<not> rn_dead (snd (rn_insert clk now q (Some v) n))"
proof (cases q)
  case Nil
  then show ?thesis by (cases n) (simp add: rn_dead_def Let_def)
next
  case (Cons x xs)
  moreover have "AList.update x c cs \<noteq> []" for c :: "('a, 'b) rnode" and cs
    by (cases cs) auto
  ultimately show ?thesis by (cases n) (simp add: rn_dead_def rn_insert_Cons Let_def)
qed

lemma rn_token_insert [simp]: "rn_token (snd (rn_insert clk now q kv n)) = rn_token n"
  by (cases q; cases n) (simp_all add: rn_insert_Cons Let_def)

lemma rn_ok_insert: "rn_ok n \<Longrightarrow> rn_ok (snd (rn_insert clk now q (Some v) n))"
proof (induction q arbitrary: clk n)
  case Nil
  then show ?case by (cases n) (auto simp: Let_def)
next
  case (Cons x xs)
  obtain tok kv0 la sz cs where n: "n = RNode tok kv0 la sz cs" by (cases n)
  let ?c = "case map_of cs x of None \<Rightarrow> rnode_new x (clk 0) | Some c \<Rightarrow> c"
  let ?c' = "snd (rn_insert (\<lambda>d. clk (Suc d)) now xs (Some v) ?c)"
  have c: "rn_ok ?c" "rn_token ?c = x"
    using Cons.prems rn_ok_child unfolding n by (fastforce simp: rnode_new_def split: option.split)+
  have sum: "rn_count ?c' = rn_count ?c + 1 - opt_weight (\<lambda>_. 1) (rn_find xs ?c)"
    using rn_sum_insert [OF c(1)] by simp
  have wf: "dict_wf cs" and sz: "sz = opt_weight (\<lambda>_. 1) kv0 + sum_list (map (\<lambda>p. rn_count (snd p)) cs)"
    and all: "list_all (\<lambda>p. rn_ok (snd p) \<and> \<not> rn_dead (snd p) \<and> rn_token (snd p) = fst p) cs"
    using Cons.prems by (simp_all add: n)
  have "list_all (\<lambda>p. rn_ok (snd p) \<and> \<not> rn_dead (snd p) \<and> rn_token (snd p) = fst p) (AList.update x ?c' cs)"
    using Cons.IH [OF c(1)] c(2) by (intro list_all_update [OF all]) (simp add: rn_dead_insert)
  then show ?case
    using wf sz sum
    by (auto simp: n rn_insert_Cons Let_def rn_insert_new sum_list_update split: option.splits)
qed

lemma rn_take_fst: "fst (rn_take_path q n) = rn_find q n"
  by (induction q n rule: rn_take_path.induct) (auto split: option.splits prod.splits)

lemma rn_take_Cons:
  "rn_take_path (x # xs) (RNode tok kv la sz cs) =
     (case map_of cs x of None \<Rightarrow> (None, RNode tok kv la sz cs)
      | Some c \<Rightarrow> if rn_find xs c = None then (None, RNode tok kv la sz cs)
          else let c' = snd (rn_take_path xs c)
               in (rn_find xs c, RNode tok kv la (max 0 (sz - 1))
                    (if rn_dead c' then AList.delete x cs else AList.update x c' cs)))"
  by (auto simp: Let_def rn_take_fst [symmetric] split: option.split prod.split)

declare rn_take_path.simps(2) [simp del]

lemma rn_find_dead: "rn_dead c \<Longrightarrow> rn_find p c = None"
  by (cases p) (simp_all add: rn_dead_def)

lemma rn_find_take: "rn_find p (snd (rn_take_path q n)) = (if p = q then None else rn_find p n)"
proof (induction q arbitrary: n p)
  case Nil
  then show ?case by (cases n; cases p) (auto split: option.splits)
next
  case (Cons x xs)
  obtain tok kv la sz cs where n: "n = RNode tok kv la sz cs" by (cases n)
  show ?case
  proof (cases "\<exists>c. map_of cs x = Some c \<and> rn_find xs c \<noteq> None")
    case False
    then show ?thesis by (cases p) (auto simp: n rn_take_Cons split: option.splits)
  next
    case True
    then obtain c where c: "map_of cs x = Some c" "rn_find xs c \<noteq> None" by blast
    let ?c' = "snd (rn_take_path xs c)"
    have IH: "rn_find ys ?c' = (if ys = xs then None else rn_find ys c)" for ys by (rule Cons.IH)
    have gone: "rn_find ys c = None" if "rn_dead ?c'" "ys \<noteq> xs" for ys
      using IH [of ys] rn_find_dead [OF that(1), of ys] that(2) by simp
    show ?thesis
      using c IH gone by (cases p) (auto simp: n rn_take_Cons Let_def)
  qed
qed

lemma rn_sum_dead: "rn_dead n \<Longrightarrow> rn_sum w n = 0"
  by (cases n) (simp add: rn_dead_def)

lemma rn_sum_take: "rn_ok n \<Longrightarrow> rn_sum w (snd (rn_take_path q n)) = rn_sum w n - opt_weight w (rn_find q n)"
proof (induction q arbitrary: n)
  case Nil
  then show ?case by (cases n) (auto split: option.splits)
next
  case (Cons x xs)
  obtain tok kv la sz cs where n: "n = RNode tok kv la sz cs" by (cases n)
  show ?case
  proof (cases "\<exists>c. map_of cs x = Some c \<and> rn_find xs c \<noteq> None")
    case False
    then show ?thesis by (auto simp: n rn_take_Cons split: option.splits)
  next
    case True
    then obtain c where c: "map_of cs x = Some c" "rn_find xs c \<noteq> None" by blast
    have wf: "dict_wf cs" "rn_ok c"
      using Cons.prems rn_ok_child [OF Cons.prems [unfolded n] c(1)] by (simp_all add: n)
    then show ?thesis
      using c Cons.IH [of c] rn_sum_dead [of "snd (rn_take_path xs c)" w]
      by (auto simp: n rn_take_Cons Let_def sum_list_update sum_list_delete)
  qed
qed

lemma rn_token_take [simp]: "rn_token (snd (rn_take_path q n)) = rn_token n"
  by (cases q; cases n) (auto simp: rn_take_Cons Let_def split: option.split)

lemma rn_ok_take: "rn_ok n \<Longrightarrow> rn_ok (snd (rn_take_path q n))"
proof (induction q arbitrary: n)
  case Nil
  obtain tok kv la sz cs where n: "n = RNode tok kv la sz cs" by (cases n)
  have "0 \<le> sum_list (map (\<lambda>p. rn_count (snd p)) cs)"
    by (intro sum_list_nonneg) (auto simp: rn_sum_nonneg)
  with Nil show ?case by (auto simp: n split: option.splits)
next
  case (Cons x xs)
  obtain tok kv la sz cs where n: "n = RNode tok kv la sz cs" by (cases n)
  show ?case
  proof (cases "\<exists>c. map_of cs x = Some c \<and> rn_find xs c \<noteq> None")
    case False
    then show ?thesis using Cons.prems by (auto simp: n rn_take_Cons split: option.splits)
  next
    case True
    then obtain c where c: "map_of cs x = Some c" "rn_find xs c \<noteq> None" by blast
    let ?c' = "snd (rn_take_path xs c)"
    have ok: "rn_ok c" "rn_token c = x"
      using rn_ok_child [OF Cons.prems [unfolded n] c(1)] by simp_all
    have sum: "rn_count ?c' = rn_count c - 1" using rn_sum_take [OF ok(1)] c(2) by (auto simp: opt_weight_def)
    have pos: "0 \<le> rn_count (snd (rn_take_path (x # xs) n))" by (simp add: rn_sum_nonneg)
    have "rn_count (snd (rn_take_path (x # xs) n)) = rn_count n - 1"
      using rn_sum_take [OF Cons.prems, of "\<lambda>_. 1" "x # xs"] c by (auto simp: n opt_weight_def)
    with pos have max: "max 0 (sz - 1) = sz - 1" using Cons.prems rn_ok_size [OF Cons.prems] by (simp add: n)
    show ?thesis
      using Cons.prems Cons.IH [OF ok(1)] ok(2) c sum max rn_sum_dead [of ?c' "\<lambda>_. 1"]
      by (auto simp: n rn_take_Cons Let_def sum_list_update sum_list_delete
          intro!: list_all_update list_all_delete)
  qed
qed

text \<open>The contract between the trie and the cache above it: entries by path, removal, and totals of
  entry weights.\<close>

locale entry_store =
  fixes find :: "'p \<Rightarrow> 'm \<Rightarrow> 'v option"
    and del :: "'p \<Rightarrow> 'm \<Rightarrow> 'm"
    and total :: "('v \<Rightarrow> int) \<Rightarrow> 'm \<Rightarrow> int"
    and ok :: "'m \<Rightarrow> bool"
  assumes find_del: "ok m \<Longrightarrow> find p (del q m) = (if p = q then None else find p m)"
    and ok_del: "ok m \<Longrightarrow> ok (del q m)"
    and total_del: "ok m \<Longrightarrow> total w (del q m) = total w m - opt_weight w (find q m)"
begin

lemma ok_del_all: "ok m \<Longrightarrow> ok (fold del qs m)"
  by (induction qs arbitrary: m) (auto intro: ok_del)

lemma find_del_all: "ok m \<Longrightarrow> find p (fold del qs m) = (if p \<in> set qs then None else find p m)"
  by (induction qs arbitrary: m) (auto simp: ok_del find_del)

lemma total_del_all:
  "ok m \<Longrightarrow> distinct qs \<Longrightarrow> total w (fold del qs m) = total w m - sum_list (map (\<lambda>q. opt_weight w (find q m)) qs)"
proof (induction qs arbitrary: m)
  case Nil
  then show ?case by simp
next
  case (Cons q qs)
  then have "map (\<lambda>p. opt_weight w (find p (del q m))) qs = map (\<lambda>p. opt_weight w (find p m)) qs"
    by (auto simp: find_del)
  then have "sum_list (map (\<lambda>p. opt_weight w (find p (del q m))) qs)
      = sum_list (map (\<lambda>p. opt_weight w (find p m)) qs)" by (rule arg_cong)
  with Cons show ?case by (simp add: ok_del total_del)
qed

lemma count_del_all:
  assumes "ok m" "distinct qs" "\<And>q. q \<in> set qs \<Longrightarrow> find q m \<noteq> None"
  shows "total (\<lambda>_. 1) (fold del qs m) = total (\<lambda>_. 1) m - int (length qs)"
proof -
  have "map (\<lambda>q. opt_weight (\<lambda>_. 1) (find q m)) qs = map (\<lambda>_. 1) qs"
    using assms(3) by (force simp: opt_weight_def)
  then have "sum_list (map (\<lambda>q. opt_weight (\<lambda>_. 1) (find q m)) qs) = sum_list (map (\<lambda>_. 1) qs)"
    by (rule arg_cong)
  then show ?thesis using total_del_all [OF assms(1,2), of "\<lambda>_. 1"] by (simp add: sum_list_triv)
qed

end

interpretation trie: entry_store rn_find "\<lambda>q n. snd (rn_take_path q n)" rn_sum rn_ok
  by unfold_locales (simp_all add: rn_find_take rn_ok_take rn_sum_take)

section \<open>Traversals\<close>

text \<open>The nodes below a path, and what the stack loop collects, in its order.\<close>

fun rn_at :: "int list \<Rightarrow> ('t, 'v) rnode \<Rightarrow> ('t, 'v) rnode option" where
  "rn_at [] n = Some n"
| "rn_at (x # xs) n = (case map_of (rn_children n) x of None \<Rightarrow> None | Some c \<Rightarrow> rn_at xs c)"

definition leaf_entry :: "('t, 'v) rnode \<Rightarrow> bool" where
  "leaf_entry n \<longleftrightarrow> rn_kv n \<noteq> None \<and> rn_children n = []"

fun rn_leaves :: "int list \<Rightarrow> ('t, 'v) rnode \<Rightarrow> ('t \<times> int list) list" where
  "rn_leaves path (RNode tok kv la sz cs) =
     (if kv \<noteq> None \<and> cs = [] then [(la, path)] else [])
     @ concat (map (\<lambda>p. rn_leaves (path @ [fst p]) (snd p)) (rev cs))"

fun rn_live :: "('t, 'v) rnode \<Rightarrow> nat" where
  "rn_live (RNode tok kv la sz cs) =
     (if kv \<noteq> None then 1 else 0) + sum_list (map (\<lambda>p. rn_live (snd p)) (rev cs))"

lemma rn_leaves_unfold:
  "rn_leaves path n = (if leaf_entry n then [(rn_last_access n, path)] else [])
     @ concat (map (\<lambda>(p, c). rn_leaves p c) (rn_push path n))"
  by (cases n) (simp add: leaf_entry_def rn_push_def rev_map comp_def case_prod_beta)

lemma rn_live_unfold:
  "rn_live n = (if rn_kv n \<noteq> None then 1 else 0) + sum_list (map (\<lambda>(p, c). rn_live c) (rn_push path n))"
  by (cases n) (simp add: rn_push_def rev_map comp_def case_prod_beta)

lemma rn_collect_loop_eq:
  "rn_collect_loop stack found live =
     (found @ concat (map (\<lambda>(p, c). rn_leaves p c) stack), live + sum_list (map (\<lambda>(p, c). rn_live c) stack))"
proof (induction stack found live rule: rn_collect_loop.induct)
  case (1 found live)
  then show ?case by simp
next
  case (2 path n stack found live)
  then show ?case
    by (simp add: Let_def leaf_entry_def rn_leaves_unfold [of path n] rn_live_unfold [of n path])
qed

lemma rn_collect_evictable_eq:
  "rn_collect_evictable n = (sort_key fst (rn_leaves [] n), rn_live n)"
  by (simp add: rn_collect_evictable_def rn_collect_loop_eq)

lemma int_sum_list: "int (sum_list (map f xs)) = sum_list (map (\<lambda>x. int (f x)) xs)"
  by (induction xs) auto

lemma rn_live_count: "int (rn_live n) = rn_count n"
proof (induction n)
  case (RNode tok kv la sz cs)
  have "int (rn_live (snd p)) = rn_count (snd p)" if "p \<in> set cs" for p
    using RNode.IH [OF that, of "snd p"] by (cases p) auto
  then have "map (\<lambda>p. int (rn_live (snd p))) cs = map (\<lambda>p. rn_count (snd p)) cs" by simp
  then have "sum_list (map (\<lambda>p. int (rn_live (snd p))) cs) = sum_list (map (\<lambda>p. rn_count (snd p)) cs)"
    by (rule arg_cong)
  then show ?case by (cases kv) (simp_all add: sum_list_rev rev_map [symmetric] int_sum_list)
qed

lemma rn_leaves_sound:
  "rn_ok n \<Longrightarrow> (la, p) \<in> set (rn_leaves path n) \<Longrightarrow>
     \<exists>q c. p = path @ q \<and> rn_at q n = Some c \<and> leaf_entry c \<and> rn_last_access c = la"
proof (induction path n rule: rn_leaves.induct)
  case (1 path tok kv la' sz cs)
  from "1.prems"(2) consider "kv \<noteq> None" "cs = []" "la = la'" "p = path"
    | x c where "(x, c) \<in> set cs" "(la, p) \<in> set (rn_leaves (path @ [x]) c)"
    by (auto split: if_splits)
  then show ?case
  proof cases
    case 1
    then show ?thesis by (intro exI [of _ "[]"]) (auto simp: leaf_entry_def)
  next
    case (2 x c)
    then have xc: "(x, c) \<in> set (rev cs)" and ok: "rn_ok (snd (x, c))" and m: "map_of cs x = Some c"
      using "1.prems"(1) by (auto simp: list_all_iff dict_mem_iff dest: bspec [of _ _ "(x, c)"])
    obtain q d where "p = (path @ [x]) @ q" "rn_at q c = Some d" "leaf_entry d" "rn_last_access d = la"
      using "1.IH" [OF xc ok] 2(2) by auto
    then show ?thesis using m by (intro exI [of _ "x # q"] exI [of _ d]) simp
  qed
qed

lemma rn_leaves_complete:
  "rn_at q n = Some c \<Longrightarrow> leaf_entry c \<Longrightarrow> (rn_last_access c, path @ q) \<in> set (rn_leaves path n)"
proof (induction q arbitrary: n path)
  case Nil
  then show ?case by (cases n) (auto simp: leaf_entry_def)
next
  case (Cons x q)
  obtain tok kv la sz cs where n: "n = RNode tok kv la sz cs" by (cases n)
  from Cons.prems(1) obtain d where d: "map_of cs x = Some d" "rn_at q d = Some c"
    by (auto simp: n split: option.splits)
  have "(x, d) \<in> set cs" using d(1) by (rule map_of_SomeD)
  moreover have "(rn_last_access c, (path @ [x]) @ q) \<in> set (rn_leaves (path @ [x]) d)"
    using Cons.IH d(2) Cons.prems(2) by blast
  ultimately show ?case by (force simp: n)
qed

lemma rn_find_at: "rn_find q n = (case rn_at q n of None \<Rightarrow> None | Some c \<Rightarrow> rn_kv c)"
  by (induction q arbitrary: n) (auto split: option.splits)

lemma rn_leaves_present: "rn_ok n \<Longrightarrow> (la, p) \<in> set (rn_leaves [] n) \<Longrightarrow> rn_find p n \<noteq> None"
  by (auto dest!: rn_leaves_sound simp: rn_find_at leaf_entry_def)

lemma rn_leaves_prefix: "(la, p) \<in> set (rn_leaves path n) \<Longrightarrow> \<exists>q. p = path @ q"
proof (induction path n rule: rn_leaves.induct)
  case (1 path tok kv la' sz cs)
  then show ?case by (fastforce split: if_splits)
qed

lemma rn_leaves_distinct: "rn_ok n \<Longrightarrow> distinct (map snd (rn_leaves path n))"
proof (induction path n rule: rn_leaves.induct)
  case (1 path tok kv la sz cs)
  have each: "distinct (map snd (rn_leaves (path @ [fst p]) (snd p)))" if "p \<in> set cs" for p
    using "1.prems" that by (intro "1.IH") (auto simp: list_all_iff)
  have sub: "set ds \<subseteq> set cs \<Longrightarrow> distinct (map fst ds) \<Longrightarrow>
      distinct (concat (map (\<lambda>p. map snd (rn_leaves (path @ [fst p]) (snd p))) ds))" for ds
  proof (induction ds)
    case Nil
    then show ?case by simp
  next
    case (Cons d ds)
    have "set (map snd (rn_leaves (path @ [fst d]) (snd d)))
        \<inter> set (concat (map (\<lambda>p. map snd (rn_leaves (path @ [fst p]) (snd p))) ds)) = {}"
      using Cons.prems(2) by (fastforce dest: rn_leaves_prefix simp: image_iff)
    then show ?case using Cons each by auto
  qed
  have "distinct (map fst (rev cs))" using "1.prems" by (simp add: dict_wf_def rev_map [symmetric])
  from sub [OF _ this] have "distinct (map snd (concat (map (\<lambda>p. rn_leaves (path @ [fst p]) (snd p)) (rev cs))))"
    by (simp add: map_concat comp_def)
  then show ?case by auto
qed

text \<open>A well-formed trie that holds an entry has a leaf entry to evict.\<close>

lemma rn_leaves_nonempty: "rn_ok n \<Longrightarrow> \<not> rn_dead n \<Longrightarrow> rn_leaves path n \<noteq> []"
proof (induction path n rule: rn_leaves.induct)
  case (1 path tok kv la sz cs)
  show ?case
  proof (cases cs)
    case Nil
    then show ?thesis using "1.prems"(2) by (simp add: rn_dead_def)
  next
    case (Cons p cs')
    then have "p \<in> set (rev cs)" "rn_ok (snd p)" "\<not> rn_dead (snd p)" using "1.prems"(1) by auto
    then have "rn_leaves (path @ [fst p]) (snd p) \<noteq> []" by (rule "1.IH")
    then show ?thesis by (simp add: Cons)
  qed
qed

lemma rn_live_dead: "rn_ok n \<Longrightarrow> 0 < rn_size n \<Longrightarrow> \<not> rn_dead n"
  using rn_sum_dead rn_ok_size by fastforce

section \<open>Lookup\<close>

definition longest_match :: "nat \<Rightarrow> nat \<times> 'v option \<Rightarrow> int list \<Rightarrow> ('t, 'v) rnode \<Rightarrow> nat \<times> 'v option \<Rightarrow> bool" where
  "longest_match i best toks n res \<longleftrightarrow>
     (res = best \<and> (\<forall>k. 0 < k \<and> k \<le> length toks \<longrightarrow> rn_find (take k toks) n = None))
     \<or> (\<exists>k. 0 < k \<and> k \<le> length toks \<and> res = (i + k, rn_find (take k toks) n)
            \<and> rn_find (take k toks) n \<noteq> None
            \<and> (\<forall>j. k < j \<and> j \<le> length toks \<longrightarrow> rn_find (take j toks) n = None))"

definition rn_touch :: "'t \<Rightarrow> ('t, 'v) rnode \<Rightarrow> ('t, 'v) rnode" where
  "rn_touch t n = (if rn_kv n \<noteq> None then RNode (rn_token n) (rn_kv n) t (rn_size n) (rn_children n) else n)"

lemma rn_touch_simps [simp]:
  "rn_kv (rn_touch t n) = rn_kv n" "rn_children (rn_touch t n) = rn_children n"
  "rn_size (rn_touch t n) = rn_size n" "rn_token (rn_touch t n) = rn_token n"
  "rn_find p (rn_touch t n) = rn_find p n" "rn_dead (rn_touch t n) = rn_dead n"
  by (simp_all add: rn_touch_def rn_dead_def) (cases p; simp)

lemma rn_lookup_Cons:
  "rn_lookup_loop i best clk (x # xs) (RNode tok kv la sz cs) =
     (case map_of cs x of None \<Rightarrow> (best, RNode tok kv la sz cs)
      | Some c \<Rightarrow>
          let r = rn_lookup_loop (Suc i) (if rn_kv c \<noteq> None then (Suc i, rn_kv c) else best) (\<lambda>d. clk (Suc d)) xs
                (rn_touch (clk 0) c)
          in (fst r, RNode tok kv la sz (AList.update x (snd r) cs)))"
  by (auto simp: rn_touch_def Let_def case_prod_beta split: option.split rnode.split)

declare rn_lookup_loop.simps(2) [simp del]

lemma rn_lookup_loop_longest: "longest_match i best toks n (fst (rn_lookup_loop i best clk toks n))"
proof (induction toks arbitrary: i best clk n)
  case Nil
  then show ?case by (simp add: longest_match_def)
next
  case (Cons x xs)
  obtain tok kv la sz cs where n: "n = RNode tok kv la sz cs" by (cases n)
  show ?case
  proof (cases "map_of cs x")
    case None
    then have "rn_find (take k (x # xs)) n = None" if "0 < k" for k
      using that by (cases k) (simp_all add: n)
    with None show ?thesis by (auto simp: longest_match_def n rn_lookup_Cons)
  next
    case (Some c)
    let ?best = "if rn_kv c \<noteq> None then (Suc i, rn_kv c) else best"
    let ?res = "fst (rn_lookup_loop (Suc i) ?best (\<lambda>d. clk (Suc d)) xs (rn_touch (clk 0) c))"
    have res: "fst (rn_lookup_loop i best clk (x # xs) n) = ?res"
      using Some by (simp add: n rn_lookup_Cons Let_def)
    have step: "rn_find (take (Suc k) (x # xs)) n = rn_find (take k xs) c" for k
      using Some by (simp add: n)
    have IH: "longest_match (Suc i) ?best xs c ?res"
      using Cons.IH [of "Suc i" ?best "rn_touch (clk 0) c"] by (simp add: longest_match_def)
    then consider "?res = ?best" "\<And>k. 0 < k \<Longrightarrow> k \<le> length xs \<Longrightarrow> rn_find (take k xs) c = None"
      | k where "0 < k" "k \<le> length xs" "?res = (Suc i + k, rn_find (take k xs) c)"
          "rn_find (take k xs) c \<noteq> None" "\<And>j. k < j \<Longrightarrow> j \<le> length xs \<Longrightarrow> rn_find (take j xs) c = None"
      unfolding longest_match_def by blast
    then show ?thesis
    proof cases
      case 1
      show ?thesis
      proof (cases "rn_kv c")
        case None
        have "rn_find (take (Suc m) (x # xs)) n = None" if "m \<le> length xs" for m
          unfolding step using 1(2) [of m] None that by (cases m) auto
        then have "rn_find (take k (x # xs)) n = None" if "0 < k" "k \<le> Suc (length xs)" for k
          using that by (metis Suc_le_mono gr0_implies_Suc)
        then show ?thesis using 1(1) None by (auto simp: longest_match_def res)
      next
        case (Some v)
        have "rn_find (take j (x # xs)) n = None" if "1 < j" "j \<le> Suc (length xs)" for j
          using 1(2) [of "j - 1"] step [of "j - 1"] that by simp
        then show ?thesis
          using 1(1) Some step [of 0] unfolding longest_match_def res
          by (intro disjI2 exI [of _ 1]) auto
      qed
    next
      case (2 k)
      have "rn_find (take j (x # xs)) n = None" if "Suc k < j" "j \<le> Suc (length xs)" for j
        using 2(5) [of "j - 1"] step [of "j - 1"] that by simp
      then show ?thesis
        using 2(1-4) step [of k] unfolding longest_match_def res
        by (intro disjI2 exI [of _ "Suc k"]) auto
    qed
  qed
qed

lemma map_of_update_same: "map_of cs x = Some c \<Longrightarrow> dict_keys (AList.update x d cs) = dict_keys cs"
  by (induction cs) auto

lemma rn_lookup_loop_keeps:
  "rn_find p (snd (rn_lookup_loop i best clk toks n)) = rn_find p n
   \<and> rn_sum w (snd (rn_lookup_loop i best clk toks n)) = rn_sum w n" if "rn_ok n"
  using that
proof (induction toks arbitrary: i best clk n p)
  case Nil
  then show ?case by simp
next
  case (Cons x xs)
  obtain tok kv la sz cs where n: "n = RNode tok kv la sz cs" by (cases n)
  show ?case
  proof (cases "map_of cs x")
    case None
    then show ?thesis by (simp add: n rn_lookup_Cons)
  next
    case (Some c)
    have ok: "rn_ok (rn_touch (clk 0) c)" and s: "rn_sum w (rn_touch (clk 0) c) = rn_sum w c"
      using rn_ok_child [OF Cons.prems [unfolded n] Some] by (cases c; auto simp: rn_touch_def)+
    show ?thesis
      using Cons.IH [OF ok] Some Cons.prems s
      by (cases p) (auto simp: n rn_lookup_Cons Let_def sum_list_update)
  qed
qed

lemma rn_lookup_loop_ok:
  "rn_ok n \<Longrightarrow> rn_ok (snd (rn_lookup_loop i best clk toks n))
     \<and> rn_token (snd (rn_lookup_loop i best clk toks n)) = rn_token n
     \<and> rn_dead (snd (rn_lookup_loop i best clk toks n)) = rn_dead n"
proof (induction toks arbitrary: i best clk n)
  case Nil
  then show ?case by simp
next
  case (Cons x xs)
  obtain tok kv la sz cs where n: "n = RNode tok kv la sz cs" by (cases n)
  show ?case
  proof (cases "map_of cs x")
    case None
    then show ?thesis using Cons.prems by (simp add: n rn_lookup_Cons)
  next
    case (Some c)
    let ?b = "if rn_kv c \<noteq> None then (Suc i, rn_kv c) else best"
    define d where "d = snd (rn_lookup_loop (Suc i) ?b (\<lambda>d. clk (Suc d)) xs (rn_touch (clk 0) c))"
    have ok: "rn_ok (rn_touch (clk 0) c)" and s: "rn_count (rn_touch (clk 0) c) = rn_count c"
      using rn_ok_child [OF Cons.prems [unfolded n] Some] by (cases c; auto simp: rn_touch_def)+
    have c: "\<not> rn_dead c" "rn_token c = x" using rn_ok_child [OF Cons.prems [unfolded n] Some] by auto
    have d: "rn_ok d" "rn_token d = x" "\<not> rn_dead d" "rn_count d = rn_count c"
      using Cons.IH [OF ok, of "Suc i" ?b "\<lambda>d. clk (Suc d)"] rn_lookup_loop_keeps [OF ok] s c
      by (simp_all add: d_def)
    have r: "snd (rn_lookup_loop i best clk (x # xs) n) = RNode tok kv la sz (AList.update x d cs)"
      using Some by (simp add: n rn_lookup_Cons Let_def d_def)
    have "AList.update x d cs \<noteq> []" "cs \<noteq> []" using Some by (cases cs; auto)+
    then show ?thesis
      using Some Cons.prems d unfolding r
      by (simp add: n sum_list_update rn_dead_def list_all_update)
  qed
qed

section \<open>Eviction\<close>

text \<open>How many victims the loop takes, and that it takes the first ones.\<close>

lemma rn_evict_loop_eq:
  assumes "rn_ok n" "distinct (map snd vs)" "\<And>q. q \<in> snd ` set vs \<Longrightarrow> rn_find q n \<noteq> None"
  shows "rn_evict_loop limit vs remaining evicted n =
     (let j = min (length vs) (nat (remaining - limit))
      in ((evicted + int j, remaining - int j), fold (\<lambda>q n. snd (rn_take_path q n)) (map snd (take j vs)) n))"
  using assms
proof (induction vs arbitrary: remaining evicted n)
  case Nil
  then show ?case by simp
next
  case (Cons v vs)
  obtain t q where v: "v = (t, q)" by (cases v)
  show ?case
  proof (cases "remaining \<le> limit")
    case True
    then show ?thesis by (simp add: v)
  next
    case False
    let ?n = "snd (rn_take_path q n)"
    have found: "rn_find q n \<noteq> None" using Cons.prems(3) [of q] by (simp add: v)
    have present: "rn_find p ?n \<noteq> None" if "p \<in> snd ` set vs" for p
      using Cons.prems(2,3) that by (auto simp: v trie.find_del [OF Cons.prems(1)])
    have j: "min (length (v # vs)) (nat (remaining - limit)) = Suc (min (length vs) (nat (remaining - 1 - limit)))"
      using False by auto
    have "rn_evict_loop limit vs (remaining - 1) (evicted + 1) ?n =
        (let j = min (length vs) (nat (remaining - 1 - limit))
         in ((evicted + 1 + int j, remaining - 1 - int j),
             fold (\<lambda>q n. snd (rn_take_path q n)) (map snd (take j vs)) ?n))"
      using Cons.prems(2) present by (intro Cons.IH trie.ok_del [OF Cons.prems(1)]) (auto simp: v)
    moreover from found obtain y where "rn_find q n = Some y" by blast
    ultimately show ?thesis using False unfolding j by (simp add: v Let_def)
  qed
qed

definition evicted_paths :: "int \<Rightarrow> ('t::linorder, 'v) rnode \<Rightarrow> int list list" where
  "evicted_paths max_entries n =
     map snd (take (nat (int (rn_live n) - max 0 max_entries)) (sort_key fst (rn_leaves [] n)))"

lemma take_min_sort: "take (min (length xs) k) (sort_key f xs) = take k (sort_key f xs)"
  by (simp add: min_def)

lemma rn_victims:
  assumes "rn_ok n"
  shows "distinct (map snd (sort_key fst (rn_leaves [] n)))"
    and "\<And>q. q \<in> snd ` set (sort_key fst (rn_leaves [] n)) \<Longrightarrow> rn_find q n \<noteq> None"
proof -
  show "distinct (map snd (sort_key fst (rn_leaves [] n)))"
    using rn_leaves_distinct [OF assms, of "[]"] by (simp add: distinct_map)
  show "\<And>q. q \<in> snd ` set (sort_key fst (rn_leaves [] n)) \<Longrightarrow> rn_find q n \<noteq> None"
    using rn_leaves_present [OF assms] by fastforce
qed

lemma rn_evict_lru_eq:
  assumes "rn_ok n"
  shows "rn_evict_lru k n =
    ((int (length (evicted_paths k n)), rn_count n - int (length (evicted_paths k n))),
     fold (\<lambda>q n. snd (rn_take_path q n)) (evicted_paths k n) n)"
  unfolding rn_evict_lru_def rn_collect_evictable_eq evicted_paths_def Let_def prod.case
  by (subst rn_evict_loop_eq [OF assms rn_victims [OF assms]])
    (simp_all add: Let_def rn_live_count take_min_sort)

text \<open>The cache's own eviction loop removes a prefix of the victims and stops at the first state within
  the limits.\<close>

definition rc_inv :: "'t rcache \<Rightarrow> bool" where
  "rc_inv c \<longleftrightarrow> rn_ok (rc_root c)
     \<and> rc_total_memory_bytes c = rn_sum estimate_entry_memory (rc_root c)"

lemma tensor_bytes_nonneg: "0 \<le> tensor_bytes v"
  by (cases v) simp_all

lemma dict_value_bytes_nonneg: "0 \<le> dict_value_bytes v"
  by (cases v) (auto intro!: sum_list_nonneg simp: tensor_bytes_nonneg)

lemma estimate_nonneg: "0 \<le> estimate_entry_memory v"
  by (cases v) (auto intro!: sum_list_nonneg simp: tensor_bytes_nonneg dict_value_bytes_nonneg)

lemma opt_bytes_weight: "opt_bytes kv = opt_weight estimate_entry_memory kv"
  by (cases kv) (simp_all add: opt_bytes_def)

lemma rc_inv_take:
  assumes "rc_inv c" "rn_find q (rc_root c) = Some v"
  shows "rc_inv (c\<lparr>rc_root := snd (rn_take_path q (rc_root c)),
                   rc_total_memory_bytes := max 0 (rc_total_memory_bytes c - estimate_entry_memory v)\<rparr>)"
proof -
  have "0 \<le> rn_sum estimate_entry_memory (snd (rn_take_path q (rc_root c)))"
    by (simp add: rn_sum_nonneg estimate_nonneg)
  then show ?thesis
    using assms by (simp add: rc_inv_def rn_ok_take rn_sum_take)
qed

lemma evict_fit_loop_spec:
  assumes "rc_inv c" "distinct (map snd vs)" "\<And>q. q \<in> snd ` set vs \<Longrightarrow> rn_find q (rc_root c) \<noteq> None"
  shows "\<exists>j \<le> length vs. let c' = evict_fit_loop vs c in
     rc_inv c' \<and> rc_max_entries c' = rc_max_entries c \<and> rc_memory_budget c' = rc_memory_budget c
     \<and> rc_root c' = fold (\<lambda>q n. snd (rn_take_path q n)) (map snd (take j vs)) (rc_root c)
     \<and> (within_limits c' \<or> j = length vs)"
  using assms
proof (induction vs arbitrary: c)
  case Nil
  then show ?case by simp
next
  case (Cons v vs)
  obtain t q where v: "v = (t, q)" by (cases v)
  show ?case
  proof (cases "within_limits c")
    case True
    then show ?thesis using Cons.prems(1) by (intro exI [of _ 0]) (simp add: v)
  next
    case False
    obtain w where w: "rn_find q (rc_root c) = Some w"
      using Cons.prems(3) [of q] by (auto simp: v)
    let ?c = "c\<lparr>rc_root := snd (rn_take_path q (rc_root c)),
      rc_total_memory_bytes := max 0 (rc_total_memory_bytes c - estimate_entry_memory w)\<rparr>"
    have inv: "rc_inv ?c" using Cons.prems(1) w by (rule rc_inv_take)
    have present: "rn_find p (rc_root ?c) \<noteq> None" if "p \<in> snd ` set vs" for p
      using Cons.prems that by (auto simp: v rc_inv_def trie.find_del)
    obtain j where "j \<le> length vs" "let c' = evict_fit_loop vs ?c in
       rc_inv c' \<and> rc_max_entries c' = rc_max_entries ?c \<and> rc_memory_budget c' = rc_memory_budget ?c
       \<and> rc_root c' = fold (\<lambda>q n. snd (rn_take_path q n)) (map snd (take j vs)) (rc_root ?c)
       \<and> (within_limits c' \<or> j = length vs)"
      using Cons.IH [OF inv _ present] Cons.prems(2) by (auto simp: v)
    then show ?thesis using False w by (intro exI [of _ "Suc j"]) (simp add: v Let_def)
  qed
qed

lemma evict_until_fit_spec:
  assumes "rc_inv c"
  obtains vs where "rc_inv (evict_until_fit c)"
    and "rc_max_entries (evict_until_fit c) = rc_max_entries c"
    and "rc_memory_budget (evict_until_fit c) = rc_memory_budget c"
    and "rc_root (evict_until_fit c) = fold (\<lambda>q n. snd (rn_take_path q n)) vs (rc_root c)"
    and "distinct vs" and "\<And>q. q \<in> set vs \<Longrightarrow> rn_find q (rc_root c) \<noteq> None"
    and "within_limits (evict_until_fit c) \<or> set vs = snd ` set (rn_leaves [] (rc_root c))"
proof (cases "within_limits c")
  case True
  then show ?thesis using assms by (intro that [of "[]"]) (simp_all add: evict_until_fit_def)
next
  case False
  let ?vs = "sort_key fst (rn_leaves [] (rc_root c))"
  have ok: "rn_ok (rc_root c)" using assms by (simp add: rc_inv_def)
  obtain j where j: "j \<le> length ?vs" "let c' = evict_fit_loop ?vs c in
     rc_inv c' \<and> rc_max_entries c' = rc_max_entries c \<and> rc_memory_budget c' = rc_memory_budget c
     \<and> rc_root c' = fold (\<lambda>q n. snd (rn_take_path q n)) (map snd (take j ?vs)) (rc_root c)
     \<and> (within_limits c' \<or> j = length ?vs)"
    using evict_fit_loop_spec [OF assms rn_victims [OF ok]] by blast
  have e: "evict_until_fit c = evict_fit_loop ?vs c"
    using False by (simp add: evict_until_fit_def rn_collect_evictable_eq)
  show ?thesis
  proof (rule that [of "map snd (take j ?vs)"])
    show "distinct (map snd (take j ?vs))" using rn_victims(1) [OF ok] by (simp add: take_map [symmetric])
    show "rn_find q (rc_root c) \<noteq> None" if "q \<in> set (map snd (take j ?vs))" for q
      using that rn_victims(2) [OF ok] set_take_subset [of j ?vs] by (auto simp del: not_None_eq)
    show "within_limits (evict_until_fit c) \<or> set (map snd (take j ?vs)) = snd ` set (rn_leaves [] (rc_root c))"
      using j unfolding e by (auto simp: Let_def)
  qed (use j in \<open>simp_all add: e Let_def\<close>)
qed

lemma rc_inv_store:
  assumes "rc_inv c"
  shows "rc_inv (c\<lparr>rc_total_memory_bytes := max 0 (rc_total_memory_bytes c
            + (estimate_entry_memory v - opt_bytes (rn_find toks (rc_root c)))),
          rc_root := snd (rn_insert clk now toks (Some v) (rc_root c))\<rparr>)"
proof -
  have "0 \<le> rn_sum estimate_entry_memory (snd (rn_insert clk now toks (Some v) (rc_root c)))"
    by (simp add: rn_sum_nonneg estimate_nonneg)
  then show ?thesis
    using assms by (simp add: rc_inv_def rn_ok_insert rn_sum_insert opt_bytes_weight)
qed

definition store_raw :: "(nat \<Rightarrow> 't) \<Rightarrow> 't::linorder \<Rightarrow> int list \<Rightarrow> pyval \<Rightarrow> 't rcache \<Rightarrow> 't rcache" where
  "store_raw clk now toks v c =
     c\<lparr>rc_total_memory_bytes := max 0 (rc_total_memory_bytes c
         + (estimate_entry_memory v - opt_bytes (rn_find toks (rc_root c)))),
       rc_root := snd (rn_insert clk now toks (Some v) (rc_root c))\<rparr>"

lemma rcache_store_eq:
  "rcache_store clk now toks (Some v) c =
     (if int (length toks) < rc_min_prefix_len c then c else evict_until_fit (store_raw clk now toks v c))"
  by (simp add: rcache_store_def store_raw_def Let_def opt_bytes_def max_def not_less)

lemma rc_inv_init: "rc_inv (rcache_init now m l b)"
  by (simp add: rc_inv_def rcache_init_def)

lemma rc_inv_lookup: "rc_inv c \<Longrightarrow> rc_inv (snd (rcache_lookup clk toks c))"
  by (auto simp: rc_inv_def rcache_lookup_def rn_lookup_def Let_def case_prod_beta rn_lookup_loop_ok
      rn_lookup_loop_keeps)

lemma rc_inv_evict: "rc_inv c \<Longrightarrow> rc_inv (snd (rcache_evict toks c))"
  using rc_inv_take [of c toks] rn_take_fst [of toks "rc_root c"] rn_ok_take [of "rc_root c" toks]
    rn_sum_take [of "rc_root c" estimate_entry_memory toks]
  by (cases "rn_take_path toks (rc_root c)"; cases "fst (rn_take_path toks (rc_root c))")
    (auto simp: rcache_evict_def rc_inv_def)

lemma rc_inv_clear: "rc_inv (rcache_clear c)"
  by (simp add: rc_inv_def rcache_clear_def rn_clear_def)

lemma rc_inv_fit: "rc_inv c \<Longrightarrow> rc_inv (evict_until_fit c)"
  by (rule evict_until_fit_spec)

section \<open>Properties\<close>

text \<open>C15: lookup returns the longest stored prefix. The result is the length and the entry of the longest
  non-empty prefix of the tokens that has an entry, and zero and \<^verbatim>\<open>None\<close> when no prefix has one; the
  entries of the trie are unchanged by the walk.\<close>

theorem lookup_longest_prefix:
  assumes "rn_ok n"
  shows "longest_match 0 (0, None) toks n (fst (rn_lookup clk toks n))
     \<and> (\<forall>p. rn_find p (snd (rn_lookup clk toks n)) = rn_find p n)"
  using assms by (simp add: rn_lookup_def rn_lookup_loop_longest rn_lookup_loop_keeps)

theorem lookup_longest_prefix_witness:
  "fst (rn_lookup (\<lambda>_. 9) [1, 2, 3] (snd (rn_insert (\<lambda>_. 0) (0::int) [1, 2] (Some ''kv'') (rnode_new (- 1) 0))))
     = (2, Some ''kv'')"
proof -
  let ?n = "snd (rn_insert (\<lambda>_. 0) (0::int) [1, 2] (Some ''kv'') (rnode_new (- 1) 0))"
  have "rn_ok ?n" by (intro rn_ok_insert) simp
  from lookup_longest_prefix [OF this, of "[1, 2, 3]" "\<lambda>_. 9"]
  have l: "longest_match 0 (0, None) [1, 2, 3] ?n (fst (rn_lookup (\<lambda>_. 9) [1, 2, 3] ?n))" by simp
  have f: "rn_find (take k [1, 2, 3]) ?n = (if k = 2 then Some ''kv'' else None)" if "k \<le> 3" for k
  proof -
    from that have "k = 0 \<or> k = 1 \<or> k = 2 \<or> k = 3" by arith
    then show ?thesis by (auto simp: rn_find_insert)
  qed
  from l show ?thesis
    unfolding longest_match_def
  proof
    assume "fst (rn_lookup (\<lambda>_. 9) [1, 2, 3] ?n) = (0, None)
      \<and> (\<forall>k. 0 < k \<and> k \<le> length [1, 2, 3 :: int] \<longrightarrow> rn_find (take k [1, 2, 3]) ?n = None)"
    then have "rn_find (take 2 [1, 2, 3]) ?n = None" by (simp del: take_Cons_numeral)
    then show ?thesis using f [of 2] by simp
  next
    assume "\<exists>k. 0 < k \<and> k \<le> length [1, 2, 3 :: int]
      \<and> fst (rn_lookup (\<lambda>_. 9) [1, 2, 3] ?n) = (0 + k, rn_find (take k [1, 2, 3]) ?n)
      \<and> rn_find (take k [1, 2, 3]) ?n \<noteq> None
      \<and> (\<forall>j. k < j \<and> j \<le> length [1, 2, 3 :: int] \<longrightarrow> rn_find (take j [1, 2, 3]) ?n = None)"
    then obtain k where "k \<le> 3" "fst (rn_lookup (\<lambda>_. 9) [1, 2, 3] ?n) = (k, rn_find (take k [1, 2, 3]) ?n)"
      "rn_find (take k [1, 2, 3]) ?n \<noteq> None" by auto
    then show ?thesis using f [of k] by (auto split: if_splits)
  qed
qed

text \<open>C16: the trie refines a partial map from token paths to entries: insertion stores exactly at its
  path, removal deletes exactly at its path and returns the entry, and both keep the documented
  invariants (the counts are exact and no dead node is left behind).\<close>

theorem trie_refines_map:
  assumes "rn_ok n"
  shows "(\<lambda>p. rn_find p (snd (rn_insert clk now q (Some v) n))) = (\<lambda>p. rn_find p n)(q \<mapsto> v)
     \<and> (\<lambda>p. rn_find p (snd (rn_take_path q n))) = (\<lambda>p. rn_find p n)(q := None)
     \<and> fst (rn_take_path q n) = rn_find q n
     \<and> rn_ok (snd (rn_insert clk now q (Some v) n)) \<and> rn_ok (snd (rn_take_path q n))"
  using assms by (auto simp: fun_eq_iff rn_find_insert trie.find_del rn_take_fst rn_ok_insert trie.ok_del)

theorem trie_refines_map_witness:
  "rn_find [1, 2] (snd (rn_insert (\<lambda>_. 0) (0::int) [1, 2] (Some (5::nat)) (rnode_new (- 1) 0))) = Some 5"
proof -
  have "rn_ok (rnode_new (- 1) (0::int) :: (int, nat) rnode)" by simp
  from trie_refines_map [OF this, of "\<lambda>_. 0" 0 "[1, 2]" 5] show ?thesis by (metis fun_upd_same)
qed

lemma evict_lru_run:
  assumes "rn_ok n" and "rn_evict_lru k n = ((evicted, remaining), n')"
  shows "rn_ok n'" and "remaining = rn_size n'" and "evicted = rn_size n - rn_size n'"
    and "evicted = int (length (evicted_paths k n))"
    and "\<And>r. rn_find r n' = (if r \<in> set (evicted_paths k n) then None else rn_find r n)"
proof -
  have eqs: "evicted = int (length (evicted_paths k n))"
      "remaining = rn_count n - int (length (evicted_paths k n))"
      "n' = fold (\<lambda>q n. snd (rn_take_path q n)) (evicted_paths k n) n"
    using assms(2) by (simp_all add: rn_evict_lru_eq [OF assms(1)])
  show ok: "rn_ok n'" unfolding eqs(3) by (rule trie.ok_del_all [OF assms(1)])
  show "\<And>r. rn_find r n' = (if r \<in> set (evicted_paths k n) then None else rn_find r n)"
    unfolding eqs(3) by (rule trie.find_del_all [OF assms(1)])
  have sub: "set (evicted_paths k n) \<subseteq> snd ` set (sort_key fst (rn_leaves [] n))"
    using set_take_subset by (fastforce simp: evicted_paths_def)
  have dist: "distinct (evicted_paths k n)"
    using rn_victims(1) [OF assms(1)] by (simp add: evicted_paths_def take_map [symmetric])
  have "rn_count n' = rn_count n - int (length (evicted_paths k n))"
    unfolding eqs(3) using sub rn_victims(2) [OF assms(1)] by (intro trie.count_del_all [OF assms(1) dist]) blast
  then show "remaining = rn_size n'" "evicted = rn_size n - rn_size n'"
    using eqs(1,2) rn_ok_size [OF assms(1)] rn_ok_size [OF ok] by simp_all
  show "evicted = int (length (evicted_paths k n))" by (rule eqs(1))
qed

lemma evict_lru_order:
  assumes "rn_ok n" and "(la, p) \<in> set (rn_leaves [] n)" "p \<in> set (evicted_paths k n)"
    and "(lb, q) \<in> set (rn_leaves [] n)" "q \<notin> set (evicted_paths k n)"
  shows "la \<le> lb"
proof -
  let ?vs = "sort_key fst (rn_leaves [] n)"
  let ?j = "nat (int (rn_live n) - max 0 k)"
  obtain la' where la': "(la', p) \<in> set (take ?j ?vs)" using assms(3) by (auto simp: evicted_paths_def)
  have "(la', p) = (la, p)"
    using la' assms(2) rn_leaves_distinct [OF assms(1), of "[]"] set_take_subset [of ?j ?vs]
    by (auto simp: distinct_map dest!: inj_onD [of snd _ "(la', p)" "(la, p)"])
  moreover have "(lb, q) \<in> set (drop ?j ?vs)"
  proof -
    have "(lb, q) \<notin> set (take ?j ?vs)" using assms(5) by (force simp: evicted_paths_def)
    moreover have "(lb, q) \<in> set (take ?j ?vs @ drop ?j ?vs)" using assms(4) by simp
    ultimately show ?thesis unfolding set_append by blast
  qed
  moreover have "sorted (map fst (take ?j ?vs @ drop ?j ?vs))" by simp
  ultimately show ?thesis using la' unfolding map_append sorted_append by fastforce
qed

text \<open>Batch eviction is least-recently-used. \<^verbatim>\<open>evict_lru\<close> removes only entries of leaves, as many as
  exceed the limit while leaf entries last, and none of them was used later than a leaf entry that
  survives; every other entry stays; the returned pair is the number evicted and the number left.\<close>

theorem evict_lru_oldest_first:
  assumes "rn_ok n" and "rn_evict_lru k n = ((evicted, remaining), n')"
  shows "rn_ok n' \<and> remaining = rn_size n' \<and> evicted = rn_size n - rn_size n'
     \<and> evicted = min (int (length (rn_leaves [] n))) (max 0 (rn_size n - max 0 k))
     \<and> (\<forall>p. p \<notin> snd ` set (rn_leaves [] n) \<longrightarrow> rn_find p n' = rn_find p n)
     \<and> (\<forall>(la, p) \<in> set (rn_leaves [] n). \<forall>(lb, q) \<in> set (rn_leaves [] n).
          rn_find p n' = None \<and> rn_find q n' \<noteq> None \<longrightarrow> la \<le> lb)"
proof -
  note run = evict_lru_run [OF assms]
  have "int (length (evicted_paths k n)) = min (int (length (rn_leaves [] n))) (max 0 (rn_size n - max 0 k))"
    using rn_ok_size [OF assms(1)] by (simp add: evicted_paths_def rn_live_count)
  moreover have "rn_find p n' = rn_find p n" if "p \<notin> snd ` set (rn_leaves [] n)" for p
  proof -
    have "p \<notin> set (evicted_paths k n)"
      using that by (auto simp: evicted_paths_def dest!: in_set_takeD)
    then show ?thesis by (simp add: run(5))
  qed
  moreover have "la \<le> lb" if "(la, p) \<in> set (rn_leaves [] n)" "(lb, q) \<in> set (rn_leaves [] n)"
      "rn_find p n' = None" "rn_find q n' \<noteq> None" for la p lb q
    using that evict_lru_order [OF assms(1) that(1) _ that(2), of k] rn_leaves_present [OF assms(1) that(1)]
    unfolding run(5) by (auto split: if_splits)
  ultimately show ?thesis using run by (auto simp del: not_None_eq)
qed

definition two_leaves :: "(int, nat) rnode" where
  "two_leaves = snd (rn_insert (\<lambda>_. 0) 5 [1] (Some 10) (snd (rn_insert (\<lambda>_. 0) 3 [2] (Some 20) (rnode_new (- 1) 0))))"

theorem evict_lru_oldest_first_witness:
  "rn_evict_lru 1 two_leaves = ((1, 1), snd (rn_take_path [2] two_leaves))
     \<and> set (rn_leaves [] two_leaves) = {(5, [1]), (3, [2])} \<and> rn_ok (snd (rn_take_path [2] two_leaves))"
proof -
  have ok: "rn_ok two_leaves" unfolding two_leaves_def by (intro rn_ok_insert) simp
  have run: "rn_evict_lru 1 two_leaves = ((1, 1), snd (rn_take_path [2] two_leaves))" by code_simp
  have leaves: "set (rn_leaves [] two_leaves) = {(5, [1]), (3, [2])}" by code_simp
  show ?thesis using run leaves evict_lru_oldest_first [OF ok run] by blast
qed

text \<open>The cache keeps its books. Store, lookup, evict, clear and a change of the budget keep the entry
  count of every node exact, leave no dead node, and keep the memory counter equal to the sum of
  the estimates of the stored entries.\<close>

theorem cache_accounting:
  assumes "rc_inv c"
  shows "rc_inv (rcache_store clk now toks (Some v) c) \<and> rc_inv (snd (rcache_lookup clk toks c))
     \<and> rc_inv (snd (rcache_evict toks c)) \<and> rc_inv (rcache_clear c) \<and> rc_inv (adjust_memory_budget b c)"
proof -
  have "rc_inv (c\<lparr>rc_memory_budget := b\<rparr>)" using assms by (simp add: rc_inv_def)
  then have "rc_inv (adjust_memory_budget b c)" by (simp add: adjust_memory_budget_def rc_inv_fit)
  moreover have "rc_inv (rcache_store clk now toks (Some v) c)"
    using assms rc_inv_store [OF assms, where v = v and toks = toks and clk = clk and now = now]
    by (simp add: rcache_store_eq store_raw_def rc_inv_fit)
  ultimately show ?thesis using assms by (simp add: rc_inv_lookup rc_inv_evict rc_inv_clear)
qed

theorem cache_accounting_witness:
  "rc_inv (rcache_store (\<lambda>_. 0) 1 [1, 2] (Some (PyList [Tensor 2 8])) (rcache_init (0::int) 4 1 100))"
  using cache_accounting [OF rc_inv_init] by blast

text \<open>The entry limit holds. If the cache is within its positive entry limit before a store, it is
  within it afterwards, whatever is stored and whatever memory pressure does.\<close>

theorem store_respects_entry_limit:
  assumes "rc_inv c" and "0 < rc_max_entries c" and "rn_size (rc_root c) \<le> rc_max_entries c"
  shows "rn_size (rc_root (rcache_store clk now toks (Some v) c)) \<le> rc_max_entries c"
proof (cases "int (length toks) < rc_min_prefix_len c")
  case True
  then show ?thesis using assms(3) by (simp add: rcache_store_eq)
next
  case False
  let ?c = "store_raw clk now toks v c"
  have inv: "rc_inv ?c" unfolding store_raw_def by (rule rc_inv_store [OF assms(1)])
  have ok: "rn_ok (rc_root ?c)" using inv by (simp add: rc_inv_def)
  have "rn_count (rc_root ?c) \<le> rn_count (rc_root c) + 1"
    using assms(1) by (cases "rn_find toks (rc_root c)") (simp_all add: rc_inv_def store_raw_def rn_sum_insert)
  then have size: "rn_size (rc_root ?c) \<le> rc_max_entries c + 1"
    using assms(3) rn_ok_size [OF ok] rn_ok_size [of "rc_root c"] assms(1) by (simp add: rc_inv_def)
  obtain vs where vs: "rc_inv (evict_until_fit ?c)" "rc_max_entries (evict_until_fit ?c) = rc_max_entries ?c"
      "rc_root (evict_until_fit ?c) = fold (\<lambda>q n. snd (rn_take_path q n)) vs (rc_root ?c)"
      "distinct vs" "\<And>q. q \<in> set vs \<Longrightarrow> rn_find q (rc_root ?c) \<noteq> None"
      "within_limits (evict_until_fit ?c) \<or> set vs = snd ` set (rn_leaves [] (rc_root ?c))"
    using evict_until_fit_spec [OF inv] by metis
  have max: "rc_max_entries ?c = rc_max_entries c" by (simp add: store_raw_def)
  have "rn_size (rc_root (evict_until_fit ?c)) \<le> rc_max_entries c"
  proof (cases "within_limits (evict_until_fit ?c)")
    case True
    then show ?thesis using vs(2) assms(2) max by (simp add: within_limits_def)
  next
    case False
    have cnt: "rn_size (rc_root (evict_until_fit ?c)) = rn_size (rc_root ?c) - int (length vs)"
      using trie.count_del_all [OF ok vs(4,5)] vs(1,3) rn_ok_size [OF ok] rn_ok_size
      by (metis rc_inv_def)
    show ?thesis
    proof (cases "rn_size (rc_root ?c) \<le> 0")
      case True
      then show ?thesis using cnt assms(2) by simp
    next
      case pos: False
      then have "rn_leaves [] (rc_root ?c) \<noteq> []"
        using ok rn_live_dead [OF ok] by (intro rn_leaves_nonempty) auto
      then have "vs \<noteq> []" using False vs(6) by auto
      then have "1 \<le> length vs" by (cases vs) auto
      then show ?thesis using cnt size by simp
    qed
  qed
  then show ?thesis using False by (simp add: rcache_store_eq)
qed

theorem store_respects_entry_limit_witness:
  "rn_size (rc_root (rcache_store (\<lambda>_. 0) 1 [1, 2] (Some PyOther) (rcache_init (0::int) 1 1 100))) \<le> 1"
  using store_respects_entry_limit [OF rc_inv_init, of 0 1 1 100 "\<lambda>_. 0" 1 "[1, 2]" PyOther]
  by (simp add: rcache_init_def rnode_new_def)

definition prefix_chain :: "int rcache" where
  "prefix_chain =
     rcache_store (\<lambda>_. 0) 2 [1, 2] (Some (PyList [Tensor 1 4]))
       (rcache_store (\<lambda>_. 0) 1 [1] (Some (PyList [Tensor 1 6])) (rcache_init 0 0 1 10))"

text \<open>The memory budget can stay exceeded. Eviction collects the leaves once, so an entry that becomes a
  leaf during eviction is not considered: replacing the entry of a shared prefix by a larger one
  leaves the cache above its budget, although \<^verbatim>\<open>_evict_until_fit\<close> promises to evict until it fits.\<close>

theorem budget_exceeded_after_store:
  "let c = rcache_store (\<lambda>_. 0) 3 [1] (Some (PyList [Tensor 1 20])) prefix_chain
   in within_limits prefix_chain \<and> rn_size (rc_root c) = 1
      \<and> rc_total_memory_bytes c = 20 \<and> rc_memory_budget c = 10"
  by code_simp

end
