(* ===== verification/DigestWire.thy ===== *)
theory DigestWire
  imports Prelude "HOL-Library.Word"
begin

text \<open>
  \<^verbatim>\<open>CacheDigest\<close> of \<^verbatim>\<open>src/distllm/cache/cross_cluster_prefix_index.py\<close> and its binary wire format.
  The record is polymorphic in the type of its strings and of its floating-point fields. On the wire
  a string is a list of Unicode code points, written in UTF-8, and a float is its 64-bit pattern,
  which is what \<^verbatim>\<open>struct.pack\<close> copies; the format string \<^verbatim>\<open>!B III 2d Q I\<close> is big-endian without padding.
  \<^verbatim>\<open>UnicodeEncodeError\<close> and \<^verbatim>\<open>UnicodeDecodeError\<close> are subclasses of \<^verbatim>\<open>ValueError\<close> and appear as such.
\<close>

record ('s, 'f) cache_digest =
  cluster_id :: 's
  prefix_hash :: 's
  model_id :: 's
  ttl :: 'f
  last_access :: 'f
  reuse_count :: int
  kv_block_ref :: 's

type_synonym byte = "8 word"
type_synonym pystr = "nat list"

section \<open>UTF-8\<close>

definition surrogate :: "nat \<Rightarrow> bool" where
  "surrogate c \<longleftrightarrow> 0xD800 \<le> c \<and> c < 0xE000"

definition encode_point :: "nat \<Rightarrow> nat list option" where
  "encode_point c =
     (if c < 0x80 then Some [c]
      else if c < 0x800 then Some [0xC0 + c div 64, 0x80 + c mod 64]
      else if surrogate c then None
      else if c < 0x10000 then Some [0xE0 + c div 4096, 0x80 + c div 64 mod 64, 0x80 + c mod 64]
      else if c < 0x110000
        then Some [0xF0 + c div 262144, 0x80 + c div 4096 mod 64, 0x80 + c div 64 mod 64, 0x80 + c mod 64]
      else None)"

fun encode_points :: "pystr \<Rightarrow> nat list option" where
  "encode_points [] = Some []"
| "encode_points (c # cs) =
     (case (encode_point c, encode_points cs) of (Some bs, Some bss) \<Rightarrow> Some (bs @ bss) | _ \<Rightarrow> None)"

definition utf8_encode :: "pystr \<Rightarrow> py_error + byte list" where
  "utf8_encode s = (case encode_points s of None \<Rightarrow> Inl ValueError | Some bs \<Rightarrow> Inr (map of_nat bs))"

definition continuation :: "nat \<Rightarrow> bool" where
  "continuation b \<longleftrightarrow> 0x80 \<le> b \<and> b < 0xC0"

text \<open>One code point off the front: strict decoding refuses overlong forms, surrogates, values above
  the last code point, stray continuation bytes and truncated sequences.\<close>

fun decode_point :: "nat list \<Rightarrow> (nat \<times> nat list) option" where
  "decode_point [] = None"
| "decode_point (b # bs) =
     (if b < 0x80 then Some (b, bs)
      else if b < 0xC0 then None
      else if b < 0xE0 then
        (case bs of b1 # r \<Rightarrow>
           let c = (b - 0xC0) * 64 + (b1 - 0x80)
           in if continuation b1 \<and> 0x80 \<le> c then Some (c, r) else None
         | _ \<Rightarrow> None)
      else if b < 0xF0 then
        (case bs of b1 # b2 # r \<Rightarrow>
           let c = (b - 0xE0) * 4096 + (b1 - 0x80) * 64 + (b2 - 0x80)
           in if continuation b1 \<and> continuation b2 \<and> 0x800 \<le> c \<and> \<not> surrogate c then Some (c, r) else None
         | _ \<Rightarrow> None)
      else if b < 0xF8 then
        (case bs of b1 # b2 # b3 # r \<Rightarrow>
           let c = (b - 0xF0) * 262144 + (b1 - 0x80) * 4096 + (b2 - 0x80) * 64 + (b3 - 0x80)
           in if continuation b1 \<and> continuation b2 \<and> continuation b3 \<and> 0x10000 \<le> c \<and> c < 0x110000
              then Some (c, r) else None
         | _ \<Rightarrow> None)
      else None)"

lemma decode_point_shorter: "decode_point bs = Some (c, r) \<Longrightarrow> length r < length bs"
  by (cases bs rule: decode_point.cases) (auto simp: Let_def split: if_splits list.splits)

function decode_points :: "nat list \<Rightarrow> pystr option" where
  "decode_points bs =
     (if bs = [] then Some []
      else case decode_point bs of None \<Rightarrow> None
           | Some (c, r) \<Rightarrow> (case decode_points r of None \<Rightarrow> None | Some cs \<Rightarrow> Some (c # cs)))"
  by pat_completeness auto
termination
  by (relation "measure length") (auto dest: decode_point_shorter)

declare decode_points.simps [simp del]

definition utf8_decode :: "byte list \<Rightarrow> py_error + pystr" where
  "utf8_decode bs = (case decode_points (map unat bs) of None \<Rightarrow> Inl ValueError | Some s \<Rightarrow> Inr s)"

section \<open>Packed integers\<close>

fun be_encode :: "nat \<Rightarrow> nat \<Rightarrow> byte list" where
  "be_encode 0 v = []"
| "be_encode (Suc k) v = be_encode k (v div 256) @ [of_nat v]"

definition be_decode :: "byte list \<Rightarrow> nat" where
  "be_decode bs = foldl (\<lambda>a b. a * 256 + unat b) 0 bs"

text \<open>\<^verbatim>\<open>struct.pack\<close> raises when an integer does not fit its field.\<close>

definition pack_uint :: "nat \<Rightarrow> int \<Rightarrow> py_error + byte list" where
  "pack_uint k v = (if 0 \<le> v \<and> v < 256 ^ k then Inr (be_encode k (nat v)) else Inl StructError)"

section \<open>The digest codec\<close>

type_synonym wire_digest = "(pystr, 64 word) cache_digest"

definition wire_format_version :: int where
  "wire_format_version = 1"

definition header_size :: nat where
  "header_size = 1 + 3 * 4 + 2 * 8 + 8 + 4"

fun concat_results :: "(py_error + 'a list) list \<Rightarrow> py_error + 'a list" where
  "concat_results [] = Inr []"
| "concat_results (Inl e # rs) = Inl e"
| "concat_results (Inr xs # rs) = (case concat_results rs of Inl e \<Rightarrow> Inl e | Inr ys \<Rightarrow> Inr (xs @ ys))"

definition pack_header :: "wire_digest \<Rightarrow> nat \<Rightarrow> nat \<Rightarrow> nat \<Rightarrow> nat \<Rightarrow> py_error + byte list" where
  "pack_header d cl hl ml rl =
     concat_results
       [pack_uint 1 wire_format_version, pack_uint 4 (int cl), pack_uint 4 (int hl), pack_uint 4 (int ml),
        Inr (be_encode 8 (unat (ttl d))), Inr (be_encode 8 (unat (last_access d))),
        pack_uint 8 (reuse_count d), pack_uint 4 (int rl)]"

definition to_bytes :: "wire_digest \<Rightarrow> py_error + byte list" where
  "to_bytes d =
     (case utf8_encode (cluster_id d) of Inl e \<Rightarrow> Inl e | Inr cb \<Rightarrow>
      case utf8_encode (prefix_hash d) of Inl e \<Rightarrow> Inl e | Inr hb \<Rightarrow>
      case utf8_encode (model_id d) of Inl e \<Rightarrow> Inl e | Inr mb \<Rightarrow>
      case utf8_encode (kv_block_ref d) of Inl e \<Rightarrow> Inl e | Inr rb \<Rightarrow>
      case pack_header d (length cb) (length hb) (length mb) (length rb) of Inl e \<Rightarrow> Inl e
      | Inr header \<Rightarrow> Inr (header @ cb @ hb @ mb @ rb))"

text \<open>\<^verbatim>\<open>data[i : i + n]\<close> never raises: a slice stops at the end of the data.\<close>

definition slice :: "nat \<Rightarrow> nat \<Rightarrow> 'a list \<Rightarrow> 'a list" where
  "slice i n xs = take n (drop i xs)"

definition from_bytes :: "byte list \<Rightarrow> py_error + wire_digest" where
  "from_bytes data =
     (if length data < header_size then Inl ValueError
      else let version = be_decode (slice 0 1 data);
               clen = be_decode (slice 1 4 data);
               hlen = be_decode (slice 5 4 data);
               mlen = be_decode (slice 9 4 data);
               t = be_decode (slice 13 8 data);
               la = be_decode (slice 21 8 data);
               reuse = be_decode (slice 29 8 data);
               rlen = be_decode (slice 37 4 data)
           in if int version \<noteq> wire_format_version then Inl ValueError
              else case utf8_decode (slice header_size clen data) of Inl e \<Rightarrow> Inl e | Inr c \<Rightarrow>
                   case utf8_decode (slice (header_size + clen) hlen data) of Inl e \<Rightarrow> Inl e | Inr h \<Rightarrow>
                   case utf8_decode (slice (header_size + clen + hlen) mlen data) of Inl e \<Rightarrow> Inl e | Inr m \<Rightarrow>
                   case utf8_decode (slice (header_size + clen + hlen + mlen) rlen data) of Inl e \<Rightarrow> Inl e | Inr r \<Rightarrow>
                   Inr \<lparr>cluster_id = c, prefix_hash = h, model_id = m, ttl = of_nat t, last_access = of_nat la,
                        reuse_count = int reuse, kv_block_ref = r\<rparr>)"

section \<open>Correctness of the parts\<close>

lemma decode_encode_point:
  assumes "encode_point c = Some bs"
  shows "decode_point (bs @ r) = Some (c, r)" and "bs \<noteq> []" and "list_all (\<lambda>b. b < 256) bs"
proof -
  have e2: "c = c div 64 * 64 + c mod 64" by simp
  have e3: "c = c div 4096 * 4096 + c div 64 mod 64 * 64 + c mod 64"
  proof -
    have "c div 64 = c div 4096 * 64 + c div 64 mod 64" using div_mult_mod_eq [of "c div 64" 64] by (simp add: div_mult2_eq [symmetric])
    then show ?thesis using e2 by linarith
  qed
  have e4: "c = c div 262144 * 262144 + c div 4096 mod 64 * 4096 + c div 64 mod 64 * 64 + c mod 64"
  proof -
    have "c div 4096 = c div 262144 * 64 + c div 4096 mod 64"
      using div_mult_mod_eq [of "c div 4096" 64] by (simp add: div_mult2_eq [symmetric])
    then show ?thesis using e3 by linarith
  qed
  have m: "c mod 64 < 64" "c div 64 mod 64 < 64" "c div 4096 mod 64 < 64" by simp_all
  consider "c < 0x80" | "0x80 \<le> c" "c < 0x800" | "0x800 \<le> c" "c < 0x10000" "\<not> surrogate c"
    | "0x10000 \<le> c" "c < 0x110000"
    using assms by (fastforce simp: encode_point_def split: if_splits)
  then have "decode_point (bs @ r) = Some (c, r) \<and> bs \<noteq> [] \<and> list_all (\<lambda>b. b < 256) bs"
  proof cases
    case 1
    then show ?thesis using assms by (auto simp: encode_point_def)
  next
    case 2
    then have "c div 64 < 32" by linarith
    then show ?thesis using assms 2 m e2 by (auto simp: encode_point_def continuation_def Let_def)
  next
    case 3
    then have "c div 4096 < 16" by linarith
    then show ?thesis using assms 3 m e3 by (auto simp: encode_point_def continuation_def Let_def)
  next
    case 4
    then have "c div 262144 < 5" "\<not> surrogate c" by (auto simp: surrogate_def)
    then show ?thesis using assms 4 m e4 by (auto simp: encode_point_def continuation_def Let_def)
  qed
  then show "decode_point (bs @ r) = Some (c, r)" "bs \<noteq> []" "list_all (\<lambda>b. b < 256) bs" by auto
qed

lemma decode_encode_points:
  "encode_points s = Some bs \<Longrightarrow> decode_points bs = Some s \<and> list_all (\<lambda>b. b < 256) bs"
proof (induction s arbitrary: bs)
  case Nil
  then show ?case by (simp add: decode_points.simps)
next
  case (Cons c cs)
  from Cons.prems obtain b1 b2 where b: "encode_point c = Some b1" "encode_points cs = Some b2" "bs = b1 @ b2"
    by (auto split: option.splits)
  show ?case
    using decode_encode_point [OF b(1)] Cons.IH [OF b(2)]
    by (subst decode_points.simps) (auto simp: b(3))
qed

lemma unat_of_nat_bytes: "list_all (\<lambda>b. b < 256) bs \<Longrightarrow> map (unat \<circ> (of_nat :: nat \<Rightarrow> byte)) bs = bs"
  by (induction bs) (auto simp: unat_of_nat take_bit_eq_mod)

lemma utf8_roundtrip: "utf8_encode s = Inr bs \<Longrightarrow> utf8_decode bs = Inr s"
  using decode_encode_points [of s]
  by (auto simp: utf8_encode_def utf8_decode_def unat_of_nat_bytes split: option.splits)

lemma length_be_encode [simp]: "length (be_encode k v) = k"
  by (induction k arbitrary: v) auto

lemma be_roundtrip: "be_decode (be_encode k v) = v mod 256 ^ k"
proof (induction k arbitrary: v)
  case 0
  then show ?case by (simp add: be_decode_def)
next
  case (Suc k)
  have "be_decode (be_encode (Suc k) v) = (v div 256 mod 256 ^ k) * 256 + v mod 256"
    using Suc [of "v div 256"] by (simp add: be_decode_def unat_of_nat)
  also have "\<dots> = v mod 256 ^ Suc k"
    using mod_mult2_eq [of v 256 "256 ^ k"] by simp
  finally show ?case .
qed

lemma pack_uint_cases: "pack_uint k v = Inr bs \<Longrightarrow> bs = be_encode k (nat v) \<and> 0 \<le> v \<and> v < 256 ^ k"
  by (auto simp: pack_uint_def split: if_splits)

lemma pack_header_cases:
  assumes "pack_header d cl hl ml rl = Inr h"
  shows "h = be_encode 1 1 @ be_encode 4 cl @ be_encode 4 hl @ be_encode 4 ml @ be_encode 8 (unat (ttl d))
             @ be_encode 8 (unat (last_access d)) @ be_encode 8 (nat (reuse_count d)) @ be_encode 4 rl"
    and "cl < 256 ^ 4" "hl < 256 ^ 4" "ml < 256 ^ 4" "rl < 256 ^ 4"
    and "0 \<le> reuse_count d" "reuse_count d < 256 ^ 8"
  using assms
  by (auto simp: pack_header_def pack_uint_def wire_format_version_def split: sum.splits if_splits)

lemma slice_append [simp]:
  "slice (length xs) (length ys) (xs @ ys @ zs) = ys"
  by (simp add: slice_def)

lemma slice_skip: "length xs = n \<Longrightarrow> slice (n + i) k (xs @ ys) = slice i k ys"
  by (simp add: slice_def)

lemma slice_here: "length ys = k \<Longrightarrow> slice 0 k (ys @ zs) = ys"
  by (simp add: slice_def)

text \<open>The header as a list of fields: the fixed offsets of \<open>from_bytes\<close> find them.\<close>

lemma header_fields:
  assumes "length v = 1" "length a = 4" "length b = 4" "length c = 4" "length t = 8" "length l = 8"
    "length u = 8" "length r = 4" "data = v @ a @ b @ c @ t @ l @ u @ r @ body"
  shows "slice 0 1 data = v" "slice 1 4 data = a" "slice 5 4 data = b" "slice 9 4 data = c"
    "slice 13 8 data = t" "slice 21 8 data = l" "slice 29 8 data = u" "slice 37 4 data = r"
    "slice (header_size + i) k data = slice i k body" "header_size \<le> length data"
  using assms by (simp_all add: slice_def header_size_def)

lemma be_decode_fits: "v < 256 ^ k \<Longrightarrow> be_decode (be_encode k v) = v"
  by (simp add: be_roundtrip)

text \<open>What \<open>from_bytes\<close> reads behind a header: three complete strings, and as much of the last one as
  is there.\<close>

lemma from_bytes_packed:
  assumes head: "pack_header d (length cb) (length hb) (length mb) rl = Inr h"
    and dec: "utf8_decode cb = Inr (cluster_id d)" "utf8_decode hb = Inr (prefix_hash d)"
      "utf8_decode mb = Inr (model_id d)" "utf8_decode (take rl tail) = Inr r"
  shows "from_bytes (h @ cb @ hb @ mb @ tail) = Inr (d\<lparr>kv_block_ref := r\<rparr>)"
proof -
  note f = pack_header_cases [OF head]
  have data: "h @ cb @ hb @ mb @ tail = be_encode 1 1 @ be_encode 4 (length cb) @ be_encode 4 (length hb)
      @ be_encode 4 (length mb) @ be_encode 8 (unat (ttl d)) @ be_encode 8 (unat (last_access d))
      @ be_encode 8 (nat (reuse_count d)) @ be_encode 4 rl @ cb @ hb @ mb @ tail"
    by (simp only: f(1) append_assoc)
  note fields = header_fields [OF _ _ _ _ _ _ _ _ data, OF length_be_encode length_be_encode length_be_encode
      length_be_encode length_be_encode length_be_encode length_be_encode length_be_encode]
  have body: "slice 0 (length cb) (cb @ hb @ mb @ tail) = cb"
    "slice (length cb) (length hb) (cb @ hb @ mb @ tail) = hb"
    "slice (length cb + length hb) (length mb) (cb @ hb @ mb @ tail) = mb"
    "slice (length cb + length hb + length mb) rl (cb @ hb @ mb @ tail) = take rl tail"
    by (simp_all add: slice_def)
  have ints: "be_decode (be_encode 1 1) = 1" "be_decode (be_encode 4 (length cb)) = length cb"
    "be_decode (be_encode 4 (length hb)) = length hb" "be_decode (be_encode 4 (length mb)) = length mb"
    "be_decode (be_encode 4 rl) = rl"
    "be_decode (be_encode 8 (nat (reuse_count d))) = nat (reuse_count d)"
    using f by (auto intro!: be_decode_fits simp del: be_encode.simps)
  have floats: "be_decode (be_encode 8 (unat (w :: 64 word))) = unat w" for w
    using unsigned_less [of w, where ?'a = nat] by (intro be_decode_fits) simp
  have offs: "slice (header_size + length cb + length hb) k (h @ cb @ hb @ mb @ tail) = slice (length cb + length hb) k (cb @ hb @ mb @ tail)"
    "slice (header_size + length cb + length hb + length mb) k (h @ cb @ hb @ mb @ tail)
       = slice (length cb + length hb + length mb) k (cb @ hb @ mb @ tail)" for k
    unfolding add.assoc by (simp_all add: fields(9))
  show ?thesis
    unfolding from_bytes_def Let_def fields(1-8) ints floats offs fields(9) fields(9) [of 0, simplified] body dec sum.case
    using f(6) fields(10) by (simp add: wire_format_version_def)
qed

lemma to_bytes_cases:
  assumes "to_bytes d = Inr bs"
  obtains cb hb mb rb h where "utf8_encode (cluster_id d) = Inr cb" "utf8_encode (prefix_hash d) = Inr hb"
      "utf8_encode (model_id d) = Inr mb" "utf8_encode (kv_block_ref d) = Inr rb"
      "pack_header d (length cb) (length hb) (length mb) (length rb) = Inr h" "bs = h @ cb @ hb @ mb @ rb"
  using assms by (auto simp: to_bytes_def split: sum.splits)

lemma encode_points_append:
  "encode_points (s @ t) =
     (case (encode_points s, encode_points t) of (Some a, Some b) \<Rightarrow> Some (a @ b) | _ \<Rightarrow> None)"
  by (induction s) (auto split: option.splits)

lemma utf8_encode_append:
  "utf8_encode (s @ t) = Inr bs \<Longrightarrow> \<exists>a b. utf8_encode s = Inr a \<and> utf8_encode t = Inr b \<and> bs = a @ b"
  by (auto simp: utf8_encode_def encode_points_append split: option.splits)

section \<open>Properties\<close>

text \<open>C17: the wire format round-trips. Whatever \<^verbatim>\<open>to_bytes\<close> produces, \<^verbatim>\<open>from_bytes\<close> reads back to the same
  digest, for all strings of Unicode code points and all bit patterns of the two floats; bytes
  that follow the digest do not matter.\<close>

theorem digest_roundtrip:
  assumes "to_bytes d = Inr bs"
  shows "from_bytes (bs @ rest) = Inr d"
  using assms
proof (cases rule: to_bytes_cases)
  case (1 cb hb mb rb h)
  then show ?thesis using from_bytes_packed [of d cb hb mb "length rb" h "rb @ rest"] by (simp add: utf8_roundtrip)
qed

definition sample_digest :: wire_digest where
  "sample_digest = \<lparr>cluster_id = [0x65, 0x75], prefix_hash = [0xE9], model_id = [0x1F600], ttl = 0x4072C00000000000,
     last_access = 0, reuse_count = 7, kv_block_ref = [0x73, 0x33, 0x3A]\<rparr>"

definition sample_bytes :: "byte list" where
  "sample_bytes = projr (to_bytes sample_digest)"

lemma sample_encodes: "to_bytes sample_digest = Inr sample_bytes"
  by (simp add: sample_bytes_def sample_digest_def to_bytes_def utf8_encode_def encode_point_def surrogate_def
      pack_header_def pack_uint_def wire_format_version_def)

theorem digest_roundtrip_witness: "from_bytes (sample_bytes @ [0, 1]) = Inr sample_digest"
  by (rule digest_roundtrip [OF sample_encodes])

text \<open>C0: refused input. Too few bytes for the header, or another version byte, raise \<^verbatim>\<open>ValueError\<close>.\<close>

theorem digest_refuses:
  "(length data < 41 \<longrightarrow> from_bytes data = Inl ValueError)
   \<and> (data \<noteq> [] \<and> hd data \<noteq> 1 \<longrightarrow> from_bytes data = Inl ValueError)"
proof -
  have "int (be_decode (slice 0 1 data)) \<noteq> 1" if "data \<noteq> []" "hd data \<noteq> 1"
    using that word_uint_eq_iff [of "hd data" 1] by (cases data) (auto simp: slice_def be_decode_def)
  then show ?thesis by (auto simp: from_bytes_def header_size_def Let_def wire_format_version_def)
qed

theorem digest_refuses_witness: "from_bytes (2 # replicate 60 0) = Inl ValueError"
  using digest_refuses [of "2 # replicate 60 0"] by simp

text \<open>A truncated payload is accepted. \<^verbatim>\<open>from_bytes\<close> checks the length of the header only, and slices stop
  at the end of the data: a digest that lost the end of its last string is read as a valid digest
  with a shorter block reference, where the documentation promises \<^verbatim>\<open>ValueError\<close> for malformed data.\<close>

theorem digest_truncation_accepted:
  assumes "to_bytes d = Inr bs" "kv_block_ref d = s @ t" "utf8_encode t = Inr tb"
  shows "from_bytes (take (length bs - length tb) bs) = Inr (d\<lparr>kv_block_ref := s\<rparr>)"
  using assms(1)
proof (cases rule: to_bytes_cases)
  case (1 cb hb mb rb h)
  then obtain sb where sb: "utf8_encode s = Inr sb" "rb = sb @ tb"
    using utf8_encode_append [of s t rb] assms(2,3) by auto
  have "take (length bs - length tb) bs = h @ cb @ hb @ mb @ sb"
    using 1(6) sb(2) by simp
  then show ?thesis
    using from_bytes_packed [OF 1(5), of sb s] 1 sb by (simp add: utf8_roundtrip)
qed

theorem digest_truncation_accepted_witness:
  "from_bytes (take (length sample_bytes - 2) sample_bytes) = Inr (sample_digest\<lparr>kv_block_ref := [0x73]\<rparr>)"
  using digest_truncation_accepted [OF sample_encodes, of "[0x73]" "[0x33, 0x3A]" "[0x33, 0x3A]"]
  by (simp add: sample_digest_def utf8_encode_def encode_point_def numeral_2_eq_2)

end
