(* ===== verification/PrefixIndex.thy ===== *)
theory PrefixIndex
  imports Crdt DigestWire
begin

text \<open>
  \<^verbatim>\<open>CacheGossipProtocol\<close> and \<^verbatim>\<open>CrossClusterPrefixIndex\<close> of
  \<^verbatim>\<open>src/distllm/cache/cross_cluster_prefix_index.py\<close>, on top of the cache map of \<open>Crdt\<close>. Each reading of
  the seconds clock (\<^verbatim>\<open>time.time\<close>) is an input of type \<open>'f\<close>, any linearly ordered ring, in place of
  floats; each reading of the nanosecond clock by the replicated types is an integer input. Where the
  code iterates over a set of keys, the order is a list argument. A gossip message is a record whose
  optional fields are the keys that may be missing from the Python dictionary; the stamp of an entry,
  when there is one, is a well-formed triple.
\<close>

section \<open>Messages\<close>

type_synonym 'f digest = "(string, 'f) cache_digest"
type_synonym key = "string \<times> string"

definition is_expired :: "'f \<Rightarrow> 'f::linordered_idom digest \<Rightarrow> bool" where
  "is_expired now d \<longleftrightarrow> now - last_access d > ttl d"

record 'f raw_entry =
  re_c :: "string option"
  re_h :: "string option"
  re_m :: "string option"
  re_t :: "'f option"
  re_a :: "'f option"
  re_r :: "int option"
  re_b :: "string option"
  re_ts :: "(int \<times> int \<times> string) option"

record 'f gossip_msg =
  gm_type :: "string option"
  gm_entries :: "'f raw_entry list"
  gm_compact :: "bool option"

definition serialize_entry :: "bool \<Rightarrow> (key, int \<times> int \<times> string) dict \<Rightarrow> 'f digest \<Rightarrow> 'f raw_entry" where
  "serialize_entry compact hlc e =
     \<lparr>re_c = Some (cluster_id e), re_h = Some (prefix_hash e), re_m = Some (model_id e), re_t = Some (ttl e),
      re_a = Some (last_access e), re_r = Some (reuse_count e),
      re_b = (if compact then None else Some (kv_block_ref e)),
      re_ts = map_of hlc (prefix_hash e, model_id e)\<rparr>"

definition build_digest_message :: "'f digest list \<Rightarrow> bool \<Rightarrow> (key, int \<times> int \<times> string) dict \<Rightarrow> 'f gossip_msg" where
  "build_digest_message entries compact hlc =
     \<lparr>gm_type = Some ''cache_digest'', gm_entries = map (serialize_entry compact hlc) entries, gm_compact = Some compact\<rparr>"

definition deserialize_entry :: "'f raw_entry \<Rightarrow> bool \<Rightarrow> py_error + 'f digest" where
  "deserialize_entry raw compact =
     (case (re_c raw, re_h raw, re_m raw, re_t raw, re_a raw, re_r raw) of
        (Some c, Some h, Some m, Some t, Some a, Some r) \<Rightarrow>
          Inr \<lparr>cluster_id = c, prefix_hash = h, model_id = m, ttl = t, last_access = a, reuse_count = r,
               kv_block_ref = (if compact then '''' else case re_b raw of None \<Rightarrow> '''' | Some b \<Rightarrow> b)\<rparr>
      | _ \<Rightarrow> Inl KeyError)"

text \<open>One iteration of the loop of \<^verbatim>\<open>merge_digest\<close>; \<open>now\<close> and \<open>now'\<close> are the clock readings it may take.\<close>

definition merge_entry :: "bool \<Rightarrow> 'f raw_entry \<times> int \<times> int \<Rightarrow> (key, 'f digest) cmap \<Rightarrow> (key, 'f digest) cmap" where
  "merge_entry compact = (\<lambda>(raw, now, now') m.
     case deserialize_entry raw compact of Inl _ \<Rightarrow> m
     | Inr remote \<Rightarrow>
         let key = (prefix_hash remote, model_id remote)
         in case re_ts raw of
              Some w \<Rightarrow> cmap_ingest now now' key remote (ts_from_wire w) m
            | None \<Rightarrow> snd (cmap_put now key remote m))"

definition merge_digest ::
    "(nat \<Rightarrow> int \<times> int) \<Rightarrow> key list \<Rightarrow> 'f gossip_msg \<Rightarrow> (key, 'f digest) cmap
       \<Rightarrow> 'f digest option list \<times> (key, 'f digest) cmap" where
  "merge_digest clk ks msg m =
     (let compact = (case gm_compact msg of None \<Rightarrow> True | Some b \<Rightarrow> b);
          m' = fold (merge_entry compact) (map (\<lambda>i. (gm_entries msg ! i, clk i)) [0..<length (gm_entries msg)]) m
      in (map (cmap_get m') ks, m'))"

definition resolve_conflict :: "'f::linordered_idom digest \<Rightarrow> 'f digest \<Rightarrow> 'f digest" where
  "resolve_conflict a b =
     (if reuse_count a > reuse_count b then a
      else if reuse_count b > reuse_count a then b
      else if last_access a \<ge> last_access b then a
      else b)"

section \<open>The index\<close>

record 'f pindex =
  pi_cluster_id :: string
  pi_gossip_interval :: 'f
  pi_index :: "(key, 'f digest) cmap"
  pi_peers :: "(string, 'f) dict"
  pi_announce_count :: int
  pi_lookup_count :: int
  pi_gossip_messages_received :: int
  pi_entries_merged :: int

definition pindex_init :: "string \<Rightarrow> 'f \<Rightarrow> int \<Rightarrow> 'f pindex" where
  "pindex_init cluster interval now_ns =
     \<lparr>pi_cluster_id = cluster, pi_gossip_interval = interval, pi_index = cmap_init cluster now_ns, pi_peers = [],
      pi_announce_count = 0, pi_lookup_count = 0, pi_gossip_messages_received = 0, pi_entries_merged = 0\<rparr>"

text \<open>The nanosecond readings one lookup may take: by \<^verbatim>\<open>remove\<close> (two), by \<^verbatim>\<open>clock.update\<close> and by \<^verbatim>\<open>put\<close>;
  \<open>ord\<close> is the order of the loop inside \<^verbatim>\<open>remove\<close>.\<close>

record lookup_clocks =
  lc_rm :: int
  lc_rm' :: int
  lc_upd :: int
  lc_put :: int

definition with_clock :: "hlc \<Rightarrow> ('k, 'v) cmap \<Rightarrow> ('k, 'v) cmap" where
  "with_clock c m = m\<lparr>cm_membership := (cm_membership m)\<lparr>os_clock := c\<rparr>\<rparr>"

definition pindex_lookup ::
    "lookup_clocks \<Rightarrow> (key \<times> timestamp) list \<Rightarrow> 'f::linordered_idom \<Rightarrow> 'f \<Rightarrow> string \<Rightarrow> string \<Rightarrow> 'f pindex
       \<Rightarrow> 'f digest option \<times> 'f pindex" where
  "pindex_lookup lc ord now1 now2 h mdl p =
     (let p = p\<lparr>pi_lookup_count := pi_lookup_count p + 1\<rparr>; key = (h, mdl); m = pi_index p
      in case cmap_get m key of
           None \<Rightarrow> (None, p)
         | Some entry \<Rightarrow>
             if is_expired now1 entry
             then (None, p\<lparr>pi_index := snd (cmap_remove (lc_rm lc) (lc_rm' lc) ord key m)\<rparr>)
             else
               let updated = entry\<lparr>last_access := now2, reuse_count := reuse_count entry + 1\<rparr>
               in case cmap_timestamp_of m key of
                    None \<Rightarrow> (Some updated, p\<lparr>pi_index := snd (cmap_put (lc_put lc) key updated m)\<rparr>)
                  | Some ts \<Rightarrow>
                      let (t, c) = hlc_update (lc_upd lc) (physical_ns ts) (counter ts) (node_id ts) (os_clock (cm_membership m));
                          m' = with_clock c m
                      in (Some updated,
                          p\<lparr>pi_index := (if t > ts then snd (cmap_put (lc_put lc) key updated m') else m')\<rparr>))"

definition pindex_announce ::
    "int \<Rightarrow> 'f \<Rightarrow> string \<Rightarrow> string \<Rightarrow> string \<Rightarrow> 'f \<Rightarrow> 'f pindex \<Rightarrow> 'f digest \<times> 'f pindex" where
  "pindex_announce now_ns now h mdl ref life p =
     (let key = (h, mdl);
          count = (case cmap_get (pi_index p) key of None \<Rightarrow> 1 | Some existing \<Rightarrow> reuse_count existing + 1);
          digest = \<lparr>cluster_id = pi_cluster_id p, prefix_hash = h, model_id = mdl, ttl = life, last_access = now,
                    reuse_count = count, kv_block_ref = ref\<rparr>
      in (digest, p\<lparr>pi_index := snd (cmap_put now_ns key digest (pi_index p)),
                    pi_announce_count := pi_announce_count p + 1\<rparr>))"

definition get_peers :: "'f pindex \<Rightarrow> string list" where
  "get_peers p = dict_keys (pi_peers p)"

definition digest_size :: "'f pindex \<Rightarrow> nat" where
  "digest_size p = card (cmap_keys (pi_index p))"

definition process_gossip_message ::
    "(nat \<Rightarrow> int \<times> int) \<Rightarrow> key list \<Rightarrow> 'f gossip_msg \<Rightarrow> 'f pindex \<Rightarrow> nat \<times> 'f pindex" where
  "process_gossip_message clk ks msg p =
     (let p = p\<lparr>pi_gossip_messages_received := pi_gossip_messages_received p + 1\<rparr>
      in if gm_type msg \<noteq> Some ''cache_digest'' then (0, p)
         else let (changed, m) = merge_digest clk ks msg (pi_index p)
              in (length changed,
                  p\<lparr>pi_index := m, pi_entries_merged := pi_entries_merged p + int (length changed)\<rparr>))"

definition add_peer :: "string \<Rightarrow> 'f::linordered_idom pindex \<Rightarrow> 'f pindex" where
  "add_peer c p = (if c \<in> set (dict_keys (pi_peers p)) then p else p\<lparr>pi_peers := AList.update c 0 (pi_peers p)\<rparr>)"

definition remove_peer :: "string \<Rightarrow> 'f pindex \<Rightarrow> 'f pindex" where
  "remove_peer c p = p\<lparr>pi_peers := AList.delete c (pi_peers p)\<rparr>"

text \<open>\<open>ks\<close> and \<open>ks'\<close> are the orders of the two iterations over the key set.\<close>

definition hlc_table :: "key list \<Rightarrow> (key, 'f digest) cmap \<Rightarrow> (key, int \<times> int \<times> string) dict" where
  "hlc_table ks m =
     map (\<lambda>k. (k, ts_to_wire (the (cmap_timestamp_of m k)))) (filter (\<lambda>k. cmap_timestamp_of m k \<noteq> None) ks)"

definition build_gossip_message :: "key list \<Rightarrow> key list \<Rightarrow> bool \<Rightarrow> 'f pindex \<Rightarrow> 'f gossip_msg" where
  "build_gossip_message ks ks' compact p =
     build_digest_message (map the (cmap_values ks (pi_index p))) compact (hlc_table ks' (pi_index p))"

text \<open>\<open>rd\<close> gives for each key the clock readings and the loop order of its removal.\<close>

definition evict_expired ::
    "(key \<Rightarrow> int \<times> int \<times> (key \<times> timestamp) list) \<Rightarrow> key list \<Rightarrow> 'f::linordered_idom \<Rightarrow> 'f pindex \<Rightarrow> nat \<times> 'f pindex" where
  "evict_expired rd ks now p =
     (let evicted = filter (\<lambda>k. case cmap_get (pi_index p) k of None \<Rightarrow> False | Some e \<Rightarrow> now - last_access e > ttl e) ks
      in (length evicted,
          p\<lparr>pi_index := fold (\<lambda>(k, now, now', ord) m. snd (cmap_remove now now' ord k m))
                          (map (\<lambda>k. (k, rd k)) evicted) (pi_index p)\<rparr>))"

section \<open>Ingesting a stamped entry\<close>

lemma cmap_ingest_state:
  "cmap_ingest now now' k v ts m =
     (let s = (if k \<notin> orset_elements (cm_membership m) then snd (orset_add now k (cm_membership m)) else cm_membership m)
      in m\<lparr>cm_membership := s\<lparr>os_clock := snd (hlc_observe now' ts (os_clock s))\<rparr>,
           cm_values := AList.update k (reg_into (map_of (cm_values m) k) \<lparr>lww_value = Some v, lww_timestamp = ts\<rparr>)
             (cm_values m)\<rparr>)"
  by (simp add: cmap_ingest_def Let_def)

lemma cmap_inv_ingest:
  assumes "cmap_inv m"
  shows "cmap_inv (cmap_ingest now now' k v ts m)"
proof -
  let ?c = "os_clock (cm_membership m)"
  define s where "s = (if k \<notin> orset_elements (cm_membership m) then snd (orset_add now k (cm_membership m)) else cm_membership m)"
  define N where "N = (if k \<notin> orset_elements (cm_membership m) then {(k, fst (hlc_tick now ?c))} else {})"
  define c' where "c' = snd (hlc_observe now' ts (os_clock s))"
  have s: "hlc_last_timestamp ?c \<le> hlc_last_timestamp (os_clock s)" "os_adds s = os_adds (cm_membership m) \<union> N"
      "os_removes s \<subseteq> os_adds s"
    using hlc_tick_greater [of ?c now] assms by (auto simp: s_def N_def cmap_inv_def intro: less_imp_le)
  have c': "hlc_last_timestamp (os_clock s) < hlc_last_timestamp c'" "ts < hlc_last_timestamp c'"
    by (simp_all add: c'_def hlc_observe_greater hlc_observe_above)
  have N: "hlc_last_timestamp ?c < snd p \<and> snd p \<le> hlc_last_timestamp c'" if "p \<in> N" for p
    using that c'(1) hlc_tick_greater [of ?c now] by (auto simp: N_def s_def hlc_tick_last split: if_splits)
  have reg: "lww_timestamp r \<le> hlc_last_timestamp c'" if "map_of (cm_values m) k' = Some r" for k' r
    using cmap_inv_reg [OF assms that] s(1) c'(1) by simp
  have "cmap_inv (m\<lparr>cm_membership := s\<lparr>os_clock := c'\<rparr>,
      cm_values := AList.update k (reg_into (map_of (cm_values m) k) \<lparr>lww_value = Some v, lww_timestamp = ts\<rparr>) (cm_values m)\<rparr>)"
    by (rule cmap_invI [OF assms refl refl, where N = N])
      (use s c' N reg assms in \<open>auto simp: cmap_inv_def cmap_wf_def lww_timestamp_reg_into N_def split: option.splits if_splits\<close>)
  then show ?thesis by (simp add: cmap_ingest_state s_def c'_def Let_def)
qed

lemma cmap_get_ingest:
  assumes "cmap_inv m"
  shows "cmap_get (cmap_ingest now now' k v ts m) k' =
     (if k' = k then (case map_of (cm_values m) k of None \<Rightarrow> Some v
                      | Some r \<Rightarrow> if ts > lww_timestamp r then Some v else lww_value r)
      else cmap_get m k')"
proof -
  let ?m = "cmap_ingest now now' k v ts m"
  have els: "orset_elements (cm_membership ?m) = insert k (orset_elements (cm_membership m))"
    using add_shows [OF cmap_inv_orset [OF assms], of now k]
    by (auto simp: cmap_ingest_state Let_def orset_elements_def)
  have vals: "map_of (cm_values ?m) = (map_of (cm_values m))
      (k \<mapsto> reg_into (map_of (cm_values m) k) \<lparr>lww_value = Some v, lww_timestamp = ts\<rparr>)"
    by (simp add: cmap_ingest_state Let_def)
  show ?thesis
    unfolding cmap_get_def els vals
    by (auto simp: reg_into_def lww_merge_def split: option.split)
qed

lemma cmap_ingest_values:
  "k' \<noteq> k \<Longrightarrow> map_of (cm_values (cmap_ingest now now' k v ts m)) k' = map_of (cm_values m) k'"
  by (simp add: cmap_ingest_state Let_def)

text \<open>A batch of stamped entries for distinct keys.\<close>

type_synonym 'f stamped = "key \<times> 'f digest \<times> timestamp \<times> int \<times> int"

definition ingest_all :: "'f stamped list \<Rightarrow> (key, 'f digest) cmap \<Rightarrow> (key, 'f digest) cmap" where
  "ingest_all es = fold (\<lambda>(k, d, ts, now, now') m. cmap_ingest now now' k d ts m) es"

lemma ingest_all_get:
  "cmap_inv m \<Longrightarrow> distinct (map fst es) \<Longrightarrow>
     cmap_inv (ingest_all es m) \<and>
     (\<forall>k. cmap_get (ingest_all es m) k =
       (case map_of es k of None \<Rightarrow> cmap_get m k
        | Some (d, ts, _) \<Rightarrow>
            (case map_of (cm_values m) k of None \<Rightarrow> Some d
             | Some r \<Rightarrow> if ts > lww_timestamp r then Some d else lww_value r)))"
proof (induction es arbitrary: m)
  case Nil
  then show ?case by (simp add: ingest_all_def)
next
  case (Cons e es)
  obtain k d ts now now' where e: "e = (k, d, ts, now, now')" by (cases e)
  let ?m = "cmap_ingest now now' k d ts m"
  have step: "ingest_all (e # es) m = ingest_all es ?m" by (simp add: ingest_all_def e)
  have none: "map_of es k = None" using Cons.prems(2) by (auto simp: e map_of_eq_None_iff)
  have IH: "cmap_inv (ingest_all es ?m) \<and> (\<forall>k. cmap_get (ingest_all es ?m) k =
       (case map_of es k of None \<Rightarrow> cmap_get ?m k
        | Some (d, ts, _) \<Rightarrow> (case map_of (cm_values ?m) k of None \<Rightarrow> Some d
             | Some r \<Rightarrow> if ts > lww_timestamp r then Some d else lww_value r)))"
    using Cons.prems by (intro Cons.IH cmap_inv_ingest) simp_all
  show ?case
    unfolding step
  proof (intro conjI allI)
    show "cmap_inv (ingest_all es ?m)" using IH by simp
    fix k'
    show "cmap_get (ingest_all es ?m) k' = (case map_of (e # es) k' of None \<Rightarrow> cmap_get m k'
        | Some (d, ts, _) \<Rightarrow> (case map_of (cm_values m) k' of None \<Rightarrow> Some d
             | Some r \<Rightarrow> if ts > lww_timestamp r then Some d else lww_value r))"
      using IH [THEN conjunct2, THEN spec, of k'] none
      by (cases "k' = k"; cases "map_of es k'")
        (simp_all add: e case_prod_beta cmap_get_ingest [OF Cons.prems(1)] cmap_ingest_values split: option.split)
  qed
qed

section \<open>Invariant of the index\<close>

text \<open>Every visible digest is stored under its own key, on a well-formed replica.\<close>

definition pi_inv :: "'f pindex \<Rightarrow> bool" where
  "pi_inv p \<longleftrightarrow> cmap_inv (pi_index p)
     \<and> (\<forall>k d. cmap_get (pi_index p) k = Some d \<longrightarrow> (prefix_hash d, model_id d) = k)"

lemma pi_inv_init: "pi_inv (pindex_init c i now)"
  by (simp add: pi_inv_def pindex_init_def cmap_inv_init) (simp add: cmap_init_def orset_init_def cmap_get_def)

lemma cmap_inv_with_clock:
  "cmap_inv m \<Longrightarrow> hlc_last_timestamp (os_clock (cm_membership m)) \<le> hlc_last_timestamp c \<Longrightarrow> cmap_inv (with_clock c m)"
  by (simp add: cmap_inv_def with_clock_def cmap_wf_def cmap_stamps_def orset_tags_def) (blast intro: order_trans)

lemma cmap_get_with_clock [simp]: "cmap_get (with_clock c m) = cmap_get m"
  by (simp add: fun_eq_iff cmap_get_def with_clock_def orset_elements_def)

text \<open>The guard of \<^verbatim>\<open>lookup\<close> always holds: a clock that has observed a stamp is past it.\<close>

lemma pindex_lookup_eq:
  assumes "cmap_inv (pi_index p)"
  obtains m' where "cmap_inv m'" "cmap_get m' = cmap_get (pi_index p)"
    "pindex_lookup lc ord now1 now2 h mdl p =
       (let q = p\<lparr>pi_lookup_count := pi_lookup_count p + 1\<rparr>
        in case cmap_get (pi_index p) (h, mdl) of None \<Rightarrow> (None, q)
           | Some e \<Rightarrow>
               if is_expired now1 e
               then (None, q\<lparr>pi_index := snd (cmap_remove (lc_rm lc) (lc_rm' lc) ord (h, mdl) (pi_index p))\<rparr>)
               else let e' = e\<lparr>last_access := now2, reuse_count := reuse_count e + 1\<rparr>
                    in (Some e', q\<lparr>pi_index := snd (cmap_put (lc_put lc) (h, mdl) e' m')\<rparr>))"
proof (cases "cmap_timestamp_of (pi_index p) (h, mdl)")
  case None
  then show ?thesis using assms
    by (intro that [of "pi_index p"]) (auto simp: pindex_lookup_def Let_def split: option.split)
next
  case (Some ts)
  let ?c = "os_clock (cm_membership (pi_index p))"
  let ?u = "hlc_observe (lc_upd lc) ts ?c"
  have "fst ?u > ts" by (simp add: hlc_observe_last hlc_observe_above)
  moreover have "cmap_inv (with_clock (snd ?u) (pi_index p))"
    using assms hlc_observe_greater [of ?c] by (intro cmap_inv_with_clock) (auto intro: less_imp_le)
  ultimately show ?thesis using Some
    by (intro that [of "with_clock (snd ?u) (pi_index p)"])
      (auto simp: pindex_lookup_def Let_def case_prod_beta hlc_observe_def split: option.split)
qed

section \<open>Messages carry the stamped entries\<close>

lemma map_of_hlc_table:
  "map_of (hlc_table ks m) k = (if k \<in> set ks then map_option ts_to_wire (cmap_timestamp_of m k) else None)"
  by (induction ks) (auto simp: hlc_table_def)

lemma cmap_get_stamp: "cmap_get m k = Some d \<Longrightarrow> \<exists>ts. cmap_timestamp_of m k = Some ts"
  by (auto simp: cmap_get_def cmap_timestamp_of_def split: if_splits option.splits)

text \<open>The entries of a message, as the receiver applies them.\<close>

definition sent_digest :: "bool \<Rightarrow> 'f digest \<Rightarrow> 'f digest" where
  "sent_digest compact d = (if compact then d\<lparr>kv_block_ref := ''''\<rparr> else d)"

definition stamped_entries :: "(nat \<Rightarrow> int \<times> int) \<Rightarrow> bool \<Rightarrow> key list \<Rightarrow> 'f pindex \<Rightarrow> 'f stamped list" where
  "stamped_entries clk compact ks p =
     map (\<lambda>i. (ks ! i, sent_digest compact (the (cmap_get (pi_index p) (ks ! i))),
           the (cmap_timestamp_of (pi_index p) (ks ! i)), clk i)) [0..<length ks]"

lemma merge_entry_serialized:
  assumes "pi_inv p" "k \<in> cmap_keys (pi_index p)" "set ks' = cmap_keys (pi_index p)"
  shows "merge_entry compact (serialize_entry compact (hlc_table ks' (pi_index p)) (the (cmap_get (pi_index p) k)), now, now') =
     cmap_ingest now now' k (sent_digest compact (the (cmap_get (pi_index p) k)))
       (the (cmap_timestamp_of (pi_index p) k))"
proof -
  obtain d where d: "cmap_get (pi_index p) k = Some d" using assms(2) by (auto simp: cmap_keys_def)
  obtain ts where ts: "cmap_timestamp_of (pi_index p) k = Some ts" using cmap_get_stamp [OF d] by blast
  have key: "(prefix_hash d, model_id d) = k" using assms(1) d unfolding pi_inv_def by blast
  have "map_of (hlc_table ks' (pi_index p)) k = Some (ts_to_wire ts)"
    using assms(2,3) ts by (simp add: map_of_hlc_table)
  then show ?thesis
    using key by (cases d) (auto simp: fun_eq_iff merge_entry_def serialize_entry_def deserialize_entry_def sent_digest_def
        d ts Let_def)
qed

lemma process_built:
  assumes "pi_inv p" "set ks = cmap_keys (pi_index p)" "set ks' = cmap_keys (pi_index p)"
  shows "pi_index (snd (process_gossip_message clk kr (build_gossip_message ks ks' compact p) q))
     = ingest_all (stamped_entries clk compact ks p) (pi_index q)"
proof -
  let ?hlc = "hlc_table ks' (pi_index p)"
  have "fold (merge_entry compact)
        (map (\<lambda>i. (map (\<lambda>k. serialize_entry compact ?hlc (the (cmap_get (pi_index p) k))) ks ! i, clk i)) [0..<length ks]) m
      = ingest_all (stamped_entries clk compact ks p) m" for m
    unfolding ingest_all_def stamped_entries_def fold_map
  proof (rule fold_cong)
    fix i assume "i \<in> set [0..<length ks]"
    then have "ks ! i \<in> cmap_keys (pi_index p)" using assms(2) nth_mem by auto
    note merge_entry_serialized [OF assms(1) this assms(3)]
    moreover have "i < length ks" using \<open>i \<in> set [0..<length ks]\<close> by simp
    ultimately show "(merge_entry compact
          \<circ> (\<lambda>i. (map (\<lambda>k. serialize_entry compact ?hlc (the (cmap_get (pi_index p) k))) ks ! i, clk i))) i =
      ((\<lambda>(k, d, ts, now, now'). cmap_ingest now now' k d ts)
        \<circ> (\<lambda>i. (ks ! i, sent_digest compact (the (cmap_get (pi_index p) (ks ! i))),
              the (cmap_timestamp_of (pi_index p) (ks ! i)), clk i))) i"
      by (cases "clk i") simp
  qed simp_all
  then show ?thesis
    by (simp add: process_gossip_message_def merge_digest_def build_gossip_message_def build_digest_message_def
        cmap_values_def Let_def case_prod_beta comp_def)
qed


lemma stamped_keys: "map fst (stamped_entries clk compact ks p) = ks"
  by (simp add: stamped_entries_def comp_def map_nth)

lemma stamped_none: "k \<notin> set ks \<Longrightarrow> map_of (stamped_entries clk compact ks p) k = None"
  by (subst map_of_eq_None_iff) (metis stamped_keys list.set_map)

lemma stamped_some:
  assumes "distinct ks" "k \<in> set ks"
  shows "\<exists>c. map_of (stamped_entries clk compact ks p) k =
     Some (sent_digest compact (the (cmap_get (pi_index p) k)), the (cmap_timestamp_of (pi_index p) k), c)"
proof -
  obtain i where i: "i < length ks" "ks ! i = k" using assms(2) by (auto simp: in_set_conv_nth)
  have "(k, sent_digest compact (the (cmap_get (pi_index p) k)), the (cmap_timestamp_of (pi_index p) k), clk i)
      \<in> set (stamped_entries clk compact ks p)"
    using i by (auto simp: stamped_entries_def)
  then show ?thesis using assms(1) by (auto simp: stamped_keys intro!: map_of_is_SomeI)
qed

lemma evict_expired_index:
  assumes "cmap_inv (pi_index p)" "set ks = cmap_keys (pi_index p)"
  shows "cmap_inv (pi_index (snd (evict_expired rd ks now p)))"
    and "cmap_get (pi_index (snd (evict_expired rd ks now p))) k =
      (case cmap_get (pi_index p) k of None \<Rightarrow> None | Some e \<Rightarrow> if is_expired now e then None else Some e)"
proof -
  let ?ev = "filter (\<lambda>k. case cmap_get (pi_index p) k of None \<Rightarrow> False | Some e \<Rightarrow> now - last_access e > ttl e) ks"
  have m: "pi_index (snd (evict_expired rd ks now p)) =
      fold (\<lambda>(k, now, now', ord) m. snd (cmap_remove now now' ord k m)) (map (\<lambda>k. (k, rd k)) ?ev) (pi_index p)"
    by (simp add: evict_expired_def Let_def)
  note rem = cm.get_rem_fold [OF assms(1), of "map (\<lambda>k. (k, rd k)) ?ev"]
  show "cmap_inv (pi_index (snd (evict_expired rd ks now p)))" unfolding m using rem by (rule conjunct1)
  have "k \<in> set ?ev \<longleftrightarrow> (\<exists>e. cmap_get (pi_index p) k = Some e \<and> is_expired now e)"
    using assms(2) by (auto simp: is_expired_def cmap_keys_def cmap_get_def split: option.splits if_splits)
  then show "cmap_get (pi_index (snd (evict_expired rd ks now p))) k =
      (case cmap_get (pi_index p) k of None \<Rightarrow> None | Some e \<Rightarrow> if is_expired now e then None else Some e)"
    unfolding m using rem by (auto simp: restrict_map_def image_image split: option.split)
qed

section \<open>Properties\<close>

text \<open>A gossip message brings the receiver exactly up to the sender's entries. For every key the
  receiver keeps its own register when that is at least as new and takes the sender's digest
  otherwise; keys the sender does not show are left alone. So nothing depends on the wall clock of
  the receiver, and a removal at the sender (an evicted or expired entry) never reaches the receiver,
  although \<^verbatim>\<open>evict_expired\<close> says that it propagates.\<close>

theorem gossip_sync:
  assumes "pi_inv sender" "pi_inv receiver"
    and "distinct ks" "set ks = cmap_keys (pi_index sender)" "set ks' = cmap_keys (pi_index sender)"
  shows "cmap_get (pi_index (snd (process_gossip_message clk kr (build_gossip_message ks ks' False sender) receiver))) k =
    (case cmap_get (pi_index sender) k of
       None \<Rightarrow> cmap_get (pi_index receiver) k
     | Some d \<Rightarrow>
         (case map_of (cm_values (pi_index receiver)) k of
            None \<Rightarrow> Some d
          | Some own \<Rightarrow> if the (cmap_timestamp_of (pi_index sender) k) > lww_timestamp own then Some d else lww_value own))"
  (is "_ = ?rhs")
proof -
  note get = ingest_all_get [of "pi_index receiver" "stamped_entries clk False ks sender", THEN conjunct2, THEN spec, of k]
  have in_ks: "k \<in> set ks \<longleftrightarrow> cmap_get (pi_index sender) k \<noteq> None"
    using assms(4) by (auto simp: cmap_keys_def cmap_get_def split: if_splits)
  have recv: "cmap_inv (pi_index receiver)" using assms(2) by (simp add: pi_inv_def)
  show ?thesis
    unfolding process_built [OF assms(1,4,5)]
  proof (cases "cmap_get (pi_index sender) k")
    case None
    then show "cmap_get (ingest_all (stamped_entries clk False ks sender) (pi_index receiver)) k = ?rhs"
      using get [OF recv] in_ks stamped_none [of k ks clk False sender] assms(3) by (simp add: stamped_keys)
  next
    case (Some d)
    then obtain c where "map_of (stamped_entries clk False ks sender) k = Some (d, the (cmap_timestamp_of (pi_index sender) k), c)"
      using stamped_some [OF assms(3), of k clk False sender] in_ks by (auto simp: sent_digest_def)
    then show "cmap_get (ingest_all (stamped_entries clk False ks sender) (pi_index receiver)) k = ?rhs"
      using get [OF recv] Some assms(3) by (simp add: stamped_keys del: map_of_eq_Some_iff)
  qed
qed

text \<open>Lookup on a well-formed index. A live entry is returned with its use counted and the refreshed
  entry is what the index then holds (the guard on the clock never suppresses the write); an
  expired entry is removed and not returned; a missing one changes nothing. All other keys keep
  their entries, and the index stays well formed.\<close>

theorem lookup_refreshes:
  fixes p :: "'f::linordered_idom pindex"
  assumes "pi_inv p" and "pindex_lookup lc ord now1 now2 h mdl p = (res, p')"
  shows "pi_inv p' \<and>
    (case cmap_get (pi_index p) (h, mdl) of
       None \<Rightarrow> res = None \<and> cmap_get (pi_index p') = cmap_get (pi_index p)
     | Some e \<Rightarrow>
         if is_expired now1 e
         then res = None \<and> cmap_get (pi_index p') = (cmap_get (pi_index p))((h, mdl) := None)
         else let e' = e\<lparr>last_access := now2, reuse_count := reuse_count e + 1\<rparr>
              in res = Some e' \<and> cmap_get (pi_index p') = (cmap_get (pi_index p))((h, mdl) \<mapsto> e'))"
proof -
  have inv: "cmap_inv (pi_index p)" using assms(1) by (simp add: pi_inv_def)
  obtain m' where m': "cmap_inv m'" "cmap_get m' = cmap_get (pi_index p)"
    and run: "pindex_lookup lc ord now1 now2 h mdl p =
       (let q = p\<lparr>pi_lookup_count := pi_lookup_count p + 1\<rparr>
        in case cmap_get (pi_index p) (h, mdl) of None \<Rightarrow> (None, q)
           | Some e \<Rightarrow>
               if is_expired now1 e
               then (None, q\<lparr>pi_index := snd (cmap_remove (lc_rm lc) (lc_rm' lc) ord (h, mdl) (pi_index p))\<rparr>)
               else let e' = e\<lparr>last_access := now2, reuse_count := reuse_count e + 1\<rparr>
                    in (Some e', q\<lparr>pi_index := snd (cmap_put (lc_put lc) (h, mdl) e' m')\<rparr>))"
    by (rule pindex_lookup_eq [OF inv])
  note laws = cm.get_put [OF m'(1)] cm.get_rem [OF inv] cm.inv_put [OF m'(1)] cm.inv_rem [OF inv]
  note keyed = assms(1) [unfolded pi_inv_def, THEN conjunct2, rule_format]
  show ?thesis
  proof (cases "cmap_get (pi_index p) (h, mdl)")
    case None
    then show ?thesis using assms run by (auto simp: pi_inv_def)
  next
    case (Some e)
    let ?e = "e\<lparr>last_access := now2, reuse_count := reuse_count e + 1\<rparr>"
    show ?thesis
    proof (cases "is_expired now1 e")
      case True
      then have p': "res = None" "pi_index p' = snd (cmap_remove (lc_rm lc) (lc_rm' lc) ord (h, mdl) (pi_index p))"
        using run assms(2) Some by auto
      then have "pi_inv p'" unfolding pi_inv_def p' laws by (auto simp: laws dest: keyed split: if_splits)
      then show ?thesis using True Some p' laws(2) by simp
    next
      case False
      then have p': "res = Some ?e" "pi_index p' = snd (cmap_put (lc_put lc) (h, mdl) ?e m')"
        using run assms(2) Some by (auto simp: Let_def)
      then have "pi_inv p'"
        unfolding pi_inv_def p' laws m'(2) using keyed [OF Some] by (auto simp: laws dest: keyed split: if_splits)
      then show ?thesis using False Some p' laws(1) m'(2) by (simp add: Let_def)
    qed
  qed
qed

text \<open>Proactive eviction removes exactly the expired entries.\<close>

theorem evict_expired_exact:
  assumes "pi_inv p" "distinct ks" "set ks = cmap_keys (pi_index p)" and "evict_expired rd ks now p = (n, p')"
  shows "pi_inv p' \<and> n = card {k. \<exists>e. cmap_get (pi_index p) k = Some e \<and> is_expired now e}
     \<and> (\<forall>k. cmap_get (pi_index p') k =
          (case cmap_get (pi_index p) k of None \<Rightarrow> None | Some e \<Rightarrow> if is_expired now e then None else Some e))"
proof -
  let ?P = "\<lambda>k. case cmap_get (pi_index p) k of None \<Rightarrow> False | Some e \<Rightarrow> now - last_access e > ttl e"
  have inv: "cmap_inv (pi_index p)" using assms(1) by (simp add: pi_inv_def)
  have "n = card (set (filter ?P ks))"
    using assms(2,4) by (simp add: evict_expired_def Let_def distinct_card del: set_filter)
  also have "set (filter ?P ks) = {k. \<exists>e. cmap_get (pi_index p) k = Some e \<and> is_expired now e}"
    using assms(3) by (auto simp: is_expired_def cmap_keys_def cmap_get_def split: option.splits if_splits)
  finally have n: "n = card {k. \<exists>e. cmap_get (pi_index p) k = Some e \<and> is_expired now e}" .
  note ev = evict_expired_index [OF inv assms(3), of rd now, unfolded assms(4) snd_conv]
  have "pi_inv p'" using ev assms(1) by (auto simp: pi_inv_def split: option.splits if_splits)
  with n ev(2) show ?thesis by blast
qed

text \<open>A run of two clusters: one announces an entry, sends a compact digest, the other looks the entry
  up once and answers with a full digest.\<close>

definition lcs :: lookup_clocks where
  "lcs = \<lparr>lc_rm = 5, lc_rm' = 5, lc_upd = 5, lc_put = 5\<rparr>"

definition east0 :: "int pindex" where
  "east0 = snd (pindex_announce 1 0 ''h'' ''m'' ''s3'' 300 (pindex_init ''east'' 30 0))"

definition west0 :: "int pindex" where
  "west0 = snd (process_gossip_message (\<lambda>_. (2, 2)) [(''h'', ''m'')]
     (build_gossip_message [(''h'', ''m'')] [(''h'', ''m'')] True east0) (pindex_init ''west'' 30 0))"

definition west1 :: "int pindex" where
  "west1 = snd (pindex_lookup lcs [] 10 10 ''h'' ''m'' west0)"

definition east1 :: "int pindex" where
  "east1 = snd (process_gossip_message (\<lambda>_. (6, 6)) [(''h'', ''m'')]
     (build_gossip_message [(''h'', ''m'')] [(''h'', ''m'')] False west1) east0)"

lemma east0_get: "cmap_get (pi_index east0) =
   [(''h'', ''m'') \<mapsto> \<lparr>cluster_id = ''east'', prefix_hash = ''h'', model_id = ''m'', ttl = 300, last_access = 0,
      reuse_count = 1, kv_block_ref = ''s3''\<rparr>]" and east0_inv: "pi_inv east0"
proof -
  let ?p = "pindex_init ''east'' 30 0 :: int pindex"
  have init: "cmap_inv (pi_index ?p)" "cmap_get (pi_index ?p) = Map.empty"
    by (simp_all add: pindex_init_def cmap_inv_init) (simp add: fun_eq_iff cmap_init_def orset_init_def cmap_get_def)
  then show get: "cmap_get (pi_index east0) =
   [(''h'', ''m'') \<mapsto> \<lparr>cluster_id = ''east'', prefix_hash = ''h'', model_id = ''m'', ttl = 300, last_access = 0,
      reuse_count = 1, kv_block_ref = ''s3''\<rparr>]"
    by (simp add: east0_def pindex_announce_def Let_def cmap_get_put) (simp add: pindex_init_def)
  have "cmap_inv (pi_index east0)"
    using init by (simp add: east0_def pindex_announce_def Let_def cmap_inv_put)
  then show "pi_inv east0" by (simp add: pi_inv_def get)
qed

theorem lookup_refreshes_witness:
  "fst (pindex_lookup lcs [] 10 20 ''h'' ''m'' east0) =
     Some \<lparr>cluster_id = ''east'', prefix_hash = ''h'', model_id = ''m'', ttl = 300, last_access = 20,
        reuse_count = 2, kv_block_ref = ''s3''\<rparr>"
  using lookup_refreshes [OF east0_inv surjective_pairing, of lcs "[]" 10 20 "''h''" "''m''"]
  by (simp add: east0_get is_expired_def Let_def)

theorem evict_expired_exact_witness:
  "fst (evict_expired (\<lambda>_. (5, 5, [])) [(''h'', ''m'')] 400 east0) = 1"
proof -
  have "set [(''h'', ''m'')] = cmap_keys (pi_index east0)"
    by (auto simp: cmap_keys_def east0_get split: if_splits) (metis cmap_get_def east0_get fun_upd_same option.distinct(1))
  from evict_expired_exact [OF east0_inv _ this surjective_pairing, of "\<lambda>_. (5, 5, [])" 400]
  show ?thesis by (simp add: east0_get is_expired_def)
qed

theorem gossip_sync_witness:
  "cmap_get (pi_index (snd (process_gossip_message (\<lambda>_. (2, 2)) [] (build_gossip_message [(''h'', ''m'')] [(''h'', ''m'')]
      False east0) (pindex_init ''west'' 30 0)))) (''h'', ''m'') = cmap_get (pi_index east0) (''h'', ''m'')"
proof -
  have "set [(''h'', ''m'')] = cmap_keys (pi_index east0)"
    by (auto simp: cmap_keys_def east0_get split: if_splits) (metis cmap_get_def east0_get fun_upd_same option.distinct(1))
  from gossip_sync [OF east0_inv pi_inv_init _ this this] show ?thesis
    by (simp add: east0_get) (simp add: pindex_init_def cmap_init_def)
qed

text \<open>A compact digest erases the owner's block reference. The receiver of a compact message stores the
  entry with an empty reference; its next lookup writes that entry back under a newer stamp, and
  when it gossips in turn the announcing cluster replaces its own entry, reference included.\<close>

theorem compact_gossip_erases_ref:
  "map_option kv_block_ref (cmap_get (pi_index east0) (''h'', ''m'')) = Some ''s3''
   \<and> map_option kv_block_ref (cmap_get (pi_index east1) (''h'', ''m'')) = Some ''''"
  by code_simp

end
