(* ===== verification/Merkle.thy ===== *)
theory Merkle
  imports Prelude
begin

text \<open>
  \<^verbatim>\<open>src/distllm/dist/merkle.py\<close>. The digest function (\<^verbatim>\<open>xxhash\<close>, or SHA-256 when it is missing) and the
  length of its hexadecimal form are parameters \<open>H\<close> and \<open>hl\<close>; what some results need of them, that no
  two pairs collide, is a named hypothesis there. Digests are ASCII strings. Leaf indices are natural
  numbers. A leaf that is not ASCII makes \<^verbatim>\<open>encode\<close> raise, before \<^verbatim>\<open>_levels\<close> is replaced.
\<close>

section \<open>Building the tree\<close>

record merkle =
  mt_leaves :: "string list"
  mt_levels :: "string list list"

definition empty_hash :: "nat \<Rightarrow> string" where
  "empty_hash hl = replicate hl CHR ''0''"

definition normalize :: "(string \<Rightarrow> string \<Rightarrow> string) \<Rightarrow> nat \<Rightarrow> string \<Rightarrow> string" where
  "normalize H hl s = (if length s = hl then s else H s '''')"

text \<open>\<^verbatim>\<open>while n < len: n <<= 1\<close>\<close>

function pow2_from :: "nat \<Rightarrow> nat \<Rightarrow> nat" where
  "pow2_from n len = (if 0 < n \<and> n < len then pow2_from (2 * n) len else n)"
  by pat_completeness auto
termination
  by (relation "measure (\<lambda>(n, len). len - n)") auto

declare pow2_from.simps [simp del]

fun pair_up :: "(string \<Rightarrow> string \<Rightarrow> string) \<Rightarrow> string list \<Rightarrow> string list" where
  "pair_up H (a # b # xs) = H a b # pair_up H xs"
| "pair_up H _ = []"

lemma length_pair_up [simp]: "length (pair_up H xs) = length xs div 2"
  by (induction H xs rule: pair_up.induct) auto

function levels_from :: "(string \<Rightarrow> string \<Rightarrow> string) \<Rightarrow> string list \<Rightarrow> string list list" where
  "levels_from H xs = (if length xs > 1 then xs # levels_from H (pair_up H xs) else [xs])"
  by pat_completeness auto
termination
  by (relation "measure (\<lambda>(H, xs). length xs)") auto

declare levels_from.simps [simp del]

definition rebuild :: "(string \<Rightarrow> string \<Rightarrow> string) \<Rightarrow> nat \<Rightarrow> merkle \<Rightarrow> py_error option \<times> merkle" where
  "rebuild H hl t =
     (if mt_leaves t = [] then (None, t\<lparr>mt_levels := []\<rparr>)
      else if \<not> list_all ascii (mt_leaves t) then (Some ValueError, t)
      else let n = pow2_from 1 (length (mt_leaves t));
               normalized = map (normalize H hl) (mt_leaves t) @ replicate (n - length (mt_leaves t)) (empty_hash hl)
           in (None, t\<lparr>mt_levels := levels_from H normalized\<rparr>))"

definition merkle_new :: "(string \<Rightarrow> string \<Rightarrow> string) \<Rightarrow> nat \<Rightarrow> string list \<Rightarrow> py_error + merkle" where
  "merkle_new H hl leaves =
     (case rebuild H hl \<lparr>mt_leaves = leaves, mt_levels = []\<rparr> of (None, t) \<Rightarrow> Inr t | (Some e, _) \<Rightarrow> Inl e)"

definition merkle_update ::
    "(string \<Rightarrow> string \<Rightarrow> string) \<Rightarrow> nat \<Rightarrow> string list \<Rightarrow> merkle \<Rightarrow> py_error option \<times> merkle" where
  "merkle_update H hl leaves t = rebuild H hl (t\<lparr>mt_leaves := leaves\<rparr>)"

definition merkle_root :: "nat \<Rightarrow> merkle \<Rightarrow> string" where
  "merkle_root hl t = (if mt_levels t = [] then empty_hash hl else last (mt_levels t) ! 0)"

definition leaf_count :: "merkle \<Rightarrow> nat" where
  "leaf_count t = length (mt_leaves t)"

section \<open>Membership proofs\<close>

text \<open>\<^verbatim>\<open>index ^ 1\<close>\<close>

definition sibling :: "nat \<Rightarrow> nat" where
  "sibling i = (if even i then i + 1 else i - 1)"

fun proof_loop :: "string list list \<Rightarrow> nat \<Rightarrow> string list" where
  "proof_loop [] i = []"
| "proof_loop (level # levels) i =
     (if sibling i < length level then [level ! sibling i] else []) @ proof_loop levels (i div 2)"

definition get_proof :: "merkle \<Rightarrow> nat \<Rightarrow> string list" where
  "get_proof t i = proof_loop (butlast (mt_levels t)) i"

fun verify_loop :: "(string \<Rightarrow> string \<Rightarrow> string) \<Rightarrow> string \<Rightarrow> string list \<Rightarrow> nat \<Rightarrow> string" where
  "verify_loop H current [] idx = current"
| "verify_loop H current (s # proof) idx =
     verify_loop H (if even idx then H current s else H s current) proof (idx div 2)"

definition verify_proof ::
    "(string \<Rightarrow> string \<Rightarrow> string) \<Rightarrow> nat \<Rightarrow> string \<Rightarrow> string list \<Rightarrow> string \<Rightarrow> nat \<Rightarrow> bool" where
  "verify_proof H hl leaf proof root i \<longleftrightarrow> verify_loop H (normalize H hl leaf) proof i = root"

section \<open>Differences\<close>

definition node_hash :: "merkle \<Rightarrow> nat \<Rightarrow> nat \<Rightarrow> string option" where
  "node_hash t level off =
     (if level \<ge> length (mt_levels t) then None
      else if off \<ge> length (mt_levels t ! level) then None
      else Some (mt_levels t ! level ! off))"

function diff_loop :: "merkle \<Rightarrow> merkle \<Rightarrow> (nat \<times> nat \<times> nat) list \<Rightarrow> nat list \<Rightarrow> nat list" where
  "diff_loop self other [] results = results"
| "diff_loop self other ((lv, off, sp) # stack) results =
     (let my_h = node_hash self lv off; ot_h = node_hash other lv off
      in if my_h = ot_h then diff_loop self other stack results
         else if my_h = None \<or> ot_h = None then
           let leaf_offset = (if mt_levels self \<noteq> [] then off * 2 ^ (length (mt_levels self) - 1 - lv) else off);
               idxs = filter (\<lambda>i. i < length (mt_leaves self) \<or> i < length (mt_leaves other)) [leaf_offset..<leaf_offset + sp]
           in diff_loop self other stack (results @ idxs)
         else if lv = 0 then
           diff_loop self other stack (if off < length (mt_leaves self) then results @ [off] else results)
         else diff_loop self other ((lv - 1, off * 2, sp div 2) # (lv - 1, off * 2 + 1, sp div 2) # stack) results)"
  by pat_completeness auto
termination
proof (relation "measure (\<lambda>(self, other, stack, results). sum_list (map (\<lambda>(lv, off, sp). 3 ^ lv) stack))", goal_cases)
  case (5 self other lv off sp stack results my_h ot_h)
  then obtain k where "lv = Suc k" by (cases lv) auto
  then show ?case by simp
qed auto

definition merkle_diff :: "nat \<Rightarrow> merkle \<Rightarrow> merkle \<Rightarrow> nat list" where
  "merkle_diff hl self other =
     (if merkle_root hl self = merkle_root hl other then []
      else if mt_levels self = [] \<or> mt_levels other = []
        then [0..<max (length (mt_leaves self)) (length (mt_leaves other))]
      else diff_loop self other [(length (mt_levels self) - 1, 0, length (mt_levels self ! 0))] [])"

section \<open>Shape of the levels\<close>

definition level :: "(string \<Rightarrow> string \<Rightarrow> string) \<Rightarrow> string list \<Rightarrow> nat \<Rightarrow> string list" where
  "level H xs k = (pair_up H ^^ k) xs"

lemma level_simps [simp]: "level H xs 0 = xs" "level H xs (Suc k) = pair_up H (level H xs k)"
  by (simp_all add: level_def)

lemma level_shift: "level H (pair_up H xs) k = pair_up H (level H xs k)"
  by (simp add: level_def funpow_swap1)

lemma length_level: "length xs = 2 ^ d \<Longrightarrow> k \<le> d \<Longrightarrow> length (level H xs k) = 2 ^ (d - k)"
proof (induction k)
  case (Suc k)
  then have "d - k = Suc (d - Suc k)" by simp
  with Suc show ?case by simp
qed simp

lemma pair_up_nth: "i < length xs div 2 \<Longrightarrow> pair_up H xs ! i = H (xs ! (2 * i)) (xs ! (2 * i + 1))"
proof (induction H xs arbitrary: i rule: pair_up.induct)
  case (1 H a b xs)
  then show ?case by (cases i) auto
qed auto

lemma levels_from_Suc: "length xs = 2 ^ Suc d \<Longrightarrow> levels_from H xs = xs # levels_from H (pair_up H xs)"
  using power_gt_expt [of 2 "Suc d"] by (subst levels_from.simps) simp

lemma levels_from_zero: "length xs = 1 \<Longrightarrow> levels_from H xs = [xs]"
  by (subst levels_from.simps) simp

lemma levels_from_not_Nil [simp]: "levels_from H xs \<noteq> []"
  by (subst levels_from.simps) simp

lemma levels_from_level: "length xs = 2 ^ d \<Longrightarrow> levels_from H xs = map (level H xs) [0..<Suc d]"
proof (induction d arbitrary: xs)
  case 0
  then show ?case by (simp add: levels_from_zero)
next
  case (Suc d)
  have "levels_from H xs = xs # map (level H (pair_up H xs)) [0..<Suc d]"
    using Suc.IH [of "pair_up H xs"] Suc.prems by (simp add: levels_from_Suc [OF Suc.prems] del: upt_Suc)
  also have "\<dots> = map (level H xs) [0..<Suc (Suc d)]"
    by (subst (2) upt_conv_Cons) (simp_all add: level_shift map_Suc_upt [symmetric] del: upt_Suc)
  finally show ?case .
qed

lemma pow2_from_pow: "\<exists>d. pow2_from (2 ^ k) len = 2 ^ d \<and> len \<le> 2 ^ d"
proof (induction "2 ^ k :: nat" len arbitrary: k rule: pow2_from.induct)
  case (1 len)
  show ?case
  proof (cases "2 ^ k < len")
    case True
    then have "\<exists>d. pow2_from (2 ^ Suc k) len = 2 ^ d \<and> len \<le> 2 ^ d" by (intro 1) simp_all
    then show ?thesis using True by (subst pow2_from.simps) simp
  next
    case False
    then show ?thesis by (subst pow2_from.simps) auto
  qed
qed

text \<open>The base of a built tree.\<close>

definition base :: "(string \<Rightarrow> string \<Rightarrow> string) \<Rightarrow> nat \<Rightarrow> string list \<Rightarrow> string list" where
  "base H hl leaves = map (normalize H hl) leaves
     @ replicate (pow2_from 1 (length leaves) - length leaves) (empty_hash hl)"

lemma merkle_new_cases:
  assumes "merkle_new H hl leaves = Inr t" "leaves \<noteq> []"
  obtains d where "length (base H hl leaves) = 2 ^ d" "length leaves \<le> 2 ^ d" "mt_leaves t = leaves"
    "mt_levels t = map (level H (base H hl leaves)) [0..<Suc d]"
proof -
  obtain d where d: "pow2_from 1 (length leaves) = 2 ^ d" "length leaves \<le> 2 ^ d"
    using pow2_from_pow [of 0 "length leaves"] by auto
  have len: "length (base H hl leaves) = 2 ^ d" using d by (simp add: base_def)
  moreover have "mt_leaves t = leaves" "mt_levels t = levels_from H (base H hl leaves)"
    using assms by (auto simp: merkle_new_def rebuild_def base_def Let_def split: if_splits)
  ultimately show ?thesis using d(2) levels_from_level [OF len] by (intro that [of d]) simp_all
qed

lemma base_nth: "i < length leaves \<Longrightarrow> base H hl leaves ! i = normalize H hl (leaves ! i)"
  by (simp add: base_def nth_append)

section \<open>Proofs\<close>

lemma verify_levels:
  "length xs = 2 ^ d \<Longrightarrow> i < 2 ^ d \<Longrightarrow>
     verify_loop H (xs ! i) (proof_loop (butlast (levels_from H xs)) i) i = last (levels_from H xs) ! 0"
proof (induction d arbitrary: xs i)
  case 0
  then show ?case by (simp add: levels_from_zero)
next
  case (Suc d)
  have nth: "pair_up H xs ! (i div 2) = H (xs ! (2 * (i div 2))) (xs ! (2 * (i div 2) + 1))"
    using Suc.prems by (intro pair_up_nth) simp
  have "sibling i < length xs" using Suc.prems by (auto simp: sibling_def elim!: evenE)
  moreover have "(if even i then H (xs ! i) (xs ! sibling i) else H (xs ! sibling i) (xs ! i)) = pair_up H xs ! (i div 2)"
    using nth by (auto simp: sibling_def elim!: evenE oddE)
  moreover have "verify_loop H (pair_up H xs ! (i div 2)) (proof_loop (butlast (levels_from H (pair_up H xs))) (i div 2)) (i div 2)
      = last (levels_from H (pair_up H xs)) ! 0"
    using Suc.prems by (intro Suc.IH) simp_all
  ultimately show ?case by (simp add: levels_from_Suc [OF Suc.prems(1)])
qed

definition collision_free :: "(string \<Rightarrow> string \<Rightarrow> string) \<Rightarrow> bool" where
  "collision_free H \<longleftrightarrow> (\<forall>a b c d. H a b = H c d \<longrightarrow> a = c \<and> b = d)"

lemma verify_sound:
  assumes "collision_free H"
  shows "length xs = 2 ^ d \<Longrightarrow> i < 2 ^ d \<Longrightarrow> length sibs = d \<Longrightarrow>
     verify_loop H c sibs i = last (levels_from H xs) ! 0 \<Longrightarrow> c = xs ! i"
proof (induction d arbitrary: xs i c sibs)
  case 0
  then show ?case by (simp add: levels_from_zero)
next
  case (Suc d)
  obtain s p where p: "sibs = s # p" "length p = d" using Suc.prems(3) by (cases sibs) auto
  let ?c = "if even i then H c s else H s c"
  have "?c = pair_up H xs ! (i div 2)"
    by (rule Suc.IH [of "pair_up H xs" "i div 2" p])
      (use Suc.prems p in \<open>simp_all add: levels_from_Suc [OF Suc.prems(1)]\<close>)
  also have "\<dots> = H (xs ! (2 * (i div 2))) (xs ! (2 * (i div 2) + 1))"
    using Suc.prems by (intro pair_up_nth) simp
  finally have eq: "?c = H (xs ! (2 * (i div 2))) (xs ! (2 * (i div 2) + 1))" .
  show ?case
  proof (cases "even i")
    case True
    then have "H c s = H (xs ! (2 * (i div 2))) (xs ! (2 * (i div 2) + 1))" using eq by simp
    then have "c = xs ! (2 * (i div 2))" using assms unfolding collision_free_def by blast
    then show ?thesis using True by simp
  next
    case False
    then have "H s c = H (xs ! (2 * (i div 2))) (xs ! (2 * (i div 2) + 1))" using eq by simp
    then have "c = xs ! (2 * (i div 2) + 1)" using assms unfolding collision_free_def by blast
    then show ?thesis using False by (simp add: odd_two_times_div_two_succ)
  qed
qed

section \<open>Difference\<close>

lemma level_Suc_nth:
  assumes "length xs = 2 ^ d" "Suc k \<le> d" "i < 2 ^ (d - Suc k)"
  shows "level H xs (Suc k) ! i = H (level H xs k ! (2 * i)) (level H xs k ! (2 * i + 1))"
proof -
  have "(2::nat) ^ (d - k) = 2 * 2 ^ (d - Suc k)" using assms(2) by (simp flip: power_Suc add: Suc_diff_Suc)
  then show ?thesis using assms length_level [of xs d k H] by (simp add: pair_up_nth)
qed

lemma level_inj:
  assumes "collision_free H" "length xs = 2 ^ d" "length ys = 2 ^ d"
  shows "k \<le> d \<Longrightarrow> off < 2 ^ (d - k) \<Longrightarrow> level H xs k ! off = level H ys k ! off \<Longrightarrow>
     off * 2 ^ k \<le> i \<Longrightarrow> i < (off + 1) * 2 ^ k \<Longrightarrow> xs ! i = ys ! i"
proof (induction k arbitrary: off)
  case 0
  then show ?case by (cases "i = off") auto
next
  case (Suc k)
  have "(2::nat) ^ (d - k) = 2 * 2 ^ (d - Suc k)" using Suc.prems(1) by (simp flip: power_Suc add: Suc_diff_Suc)
  then have b: "2 * off < 2 ^ (d - k)" "2 * off + 1 < 2 ^ (d - k)" using Suc.prems(2) by linarith+
  have eq: "level H xs k ! (2 * off) = level H ys k ! (2 * off)" "level H xs k ! (2 * off + 1) = level H ys k ! (2 * off + 1)"
    using Suc.prems(3) assms(1)
    unfolding level_Suc_nth [OF assms(2) Suc.prems(1,2)] level_Suc_nth [OF assms(3) Suc.prems(1,2)] collision_free_def
    by blast+
  show ?case
  proof (cases "i < (2 * off + 1) * 2 ^ k")
    case True
    then show ?thesis using Suc.IH [OF _ b(1) eq(1)] Suc.prems by (simp add: mult.assoc mult.left_commute)
  next
    case False
    then show ?thesis using Suc.IH [OF _ b(2) eq(2)] Suc.prems by (simp add: algebra_simps)
  qed
qed

lemma node_hash_level:
  assumes "length xs = 2 ^ d" "mt_levels t = map (level H xs) [0..<Suc d]" "k \<le> d" "off < 2 ^ (d - k)"
  shows "node_hash t k off = Some (level H xs k ! off)"
proof -
  have "mt_levels t ! k = level H xs k" using assms(2,3) by (simp del: upt_Suc)
  then show ?thesis using assms length_level [OF assms(1,3), of H] by (simp add: node_hash_def del: upt_Suc)
qed

lemma diff_item:
  assumes "collision_free H" "length xs = 2 ^ d" "length ys = 2 ^ d"
    and "mt_levels self = map (level H xs) [0..<Suc d]" "mt_levels other = map (level H ys) [0..<Suc d]"
  shows "k \<le> d \<Longrightarrow> off < 2 ^ (d - k) \<Longrightarrow>
     diff_loop self other ((k, off, sp) # stack) results =
     diff_loop self other stack (results @
       filter (\<lambda>i. i < length (mt_leaves self) \<and> xs ! i \<noteq> ys ! i) [off * 2 ^ k..<(off + 1) * 2 ^ k])"
proof (induction k arbitrary: off sp stack results)
  case 0
  note h = node_hash_level [OF assms(2,4) 0] node_hash_level [OF assms(3,5) 0]
  show ?case using h by simp
next
  case (Suc k)
  note h = node_hash_level [OF assms(2,4) Suc.prems] node_hash_level [OF assms(3,5) Suc.prems]
  show ?case
  proof (cases "level H xs (Suc k) ! off = level H ys (Suc k) ! off")
    case True
    have "filter (\<lambda>i. i < length (mt_leaves self) \<and> xs ! i \<noteq> ys ! i) [off * 2 ^ Suc k..<(off + 1) * 2 ^ Suc k] = []"
      using level_inj [OF assms(1-3) Suc.prems True] by (auto simp: filter_empty_conv)
    then show ?thesis using h True by simp
  next
    case False
    have "(2::nat) ^ (d - k) = 2 * 2 ^ (d - Suc k)" using Suc.prems(1) by (simp flip: power_Suc add: Suc_diff_Suc)
    then have b: "off * 2 < 2 ^ (d - k)" "off * 2 + 1 < 2 ^ (d - k)" "k \<le> d" using Suc.prems by linarith+
    have split: "[off * 2 ^ Suc k..<(off + 1) * 2 ^ Suc k] =
        [off * 2 * 2 ^ k..<(off * 2 + 1) * 2 ^ k] @ [(off * 2 + 1) * 2 ^ k..<(off * 2 + 1 + 1) * 2 ^ k]"
      using upt_add_eq_append [of "off * 2 * 2 ^ k" "(off * 2 + 1) * 2 ^ k" "2 ^ k"] by (simp add: algebra_simps)
    have step: "diff_loop self other ((Suc k, off, sp) # stack) results
        = diff_loop self other ((k, off * 2, sp div 2) # (k, off * 2 + 1, sp div 2) # stack) results"
      using h False by (subst diff_loop.simps(2)) (simp del: level_simps(2) diff_loop.simps)
    show ?thesis
      unfolding step split filter_append Suc.IH [OF b(3,1)] Suc.IH [OF b(3,2)] append_assoc ..
  qed
qed

section \<open>Properties\<close>

text \<open>Membership proofs are complete. For every tree and every leaf, the proof that \<^verbatim>\<open>get_proof\<close> returns is
  accepted by \<^verbatim>\<open>verify_proof\<close> against the root, whatever the hash function.\<close>

theorem proof_verifies:
  assumes "merkle_new H hl leaves = Inr t" "i < length leaves"
  shows "verify_proof H hl (leaves ! i) (get_proof t i) (merkle_root hl t) i"
proof -
  obtain d where d: "length (base H hl leaves) = 2 ^ d" "length leaves \<le> 2 ^ d" "mt_leaves t = leaves"
      "mt_levels t = map (level H (base H hl leaves)) [0..<Suc d]"
    by (rule merkle_new_cases [OF assms(1)]) (use assms(2) in auto)
  have "mt_levels t = levels_from H (base H hl leaves)" using d(4) levels_from_level [OF d(1)] by simp
  then show ?thesis
    using verify_levels [OF d(1), of i H] assms(2) d(2) base_nth [OF assms(2), of H hl]
    by (simp add: verify_proof_def get_proof_def merkle_root_def)
qed



text \<open>A collision-free function on strings, for the examples: the first argument is quoted character by
  character and closed by a zero.\<close>

definition quote_pair :: "string \<Rightarrow> string \<Rightarrow> string" where
  "quote_pair a b = concat (map (\<lambda>c. [CHR ''1'', c]) a) @ CHR ''0'' # b"

lemma quote_pair_collision_free: "collision_free quote_pair"
proof -
  have "quote_pair a b = quote_pair c d \<Longrightarrow> a = c \<and> b = d" for a b c d
    by (induction a arbitrary: c) (case_tac c; simp add: quote_pair_def)+
  then show ?thesis unfolding collision_free_def by blast
qed

definition tree3 :: merkle where
  "tree3 = projr (merkle_new quote_pair 2 [''aa'', ''bb'', ''cc''])"

definition tree4 :: merkle where
  "tree4 = projr (merkle_new quote_pair 2 [''aa'', ''xx'', ''cc'', ''dd''])"

lemma tree3: "merkle_new quote_pair 2 [''aa'', ''bb'', ''cc''] = Inr tree3" "length (mt_levels tree3) = 3"
  by code_simp+

lemma tree4: "merkle_new quote_pair 2 [''aa'', ''xx'', ''cc'', ''dd''] = Inr tree4" "length (mt_levels tree4) = 3"
  by code_simp+

theorem proof_verifies_witness: "verify_proof quote_pair 2 ''bb'' (get_proof tree3 1) (merkle_root 2 tree3) 1"
  using proof_verifies [OF tree3(1), of 1] by simp



text \<open>\<^verbatim>\<open>diff\<close> misses appended leaves when the trees differ in height. Compared with a tree that has the same
  two leaves and two more, \<^verbatim>\<open>diff\<close> compares this tree's root with the other's left subtree and
  reports nothing, for every hash function under which the roots differ.\<close>

theorem diff_misses_growth:
  assumes "length a = hl" "length b = hl" "length c = hl" "length d = hl" "ascii a" "ascii b" "ascii c" "ascii d"
    and "merkle_new H hl [a, b] = Inr self" "merkle_new H hl [a, b, c, d] = Inr other"
  shows "merkle_diff hl self other = []"
proof -
  have l2: "levels_from H [x, y] = [[x, y], [H x y]]" for x y
    by (subst levels_from.simps) (simp add: levels_from_zero)
  have l4: "levels_from H [a, b, c, d] = [[a, b, c, d], [H a b, H c d], [H (H a b) (H c d)]]"
    by (subst levels_from.simps) (simp add: l2)
  have p: "pow2_from 1 2 = 2" "pow2_from 1 4 = 4" by code_simp+
  have "self = \<lparr>mt_leaves = [a, b], mt_levels = [[a, b], [H a b]]\<rparr>"
    using assms p l2 by (simp add: merkle_new_def rebuild_def normalize_def Let_def numeral_2_eq_2)
  moreover have "other = \<lparr>mt_leaves = [a, b, c, d], mt_levels = [[a, b, c, d], [H a b, H c d], [H (H a b) (H c d)]]\<rparr>"
    using assms p l4 by (simp add: merkle_new_def rebuild_def normalize_def Let_def eval_nat_numeral)
  ultimately show ?thesis by (simp add: merkle_diff_def node_hash_def)
qed

theorem diff_misses_growth_witness:
  "merkle_diff 2 (projr (merkle_new quote_pair 2 [''aa'', ''bb''])) (projr (merkle_new quote_pair 2 [''aa'', ''bb'', ''cc'', ''dd''])) = []
   \<and> merkle_root 2 (projr (merkle_new quote_pair 2 [''aa'', ''bb'']))
       \<noteq> merkle_root 2 (projr (merkle_new quote_pair 2 [''aa'', ''bb'', ''cc'', ''dd'']))"
proof -
  have n: "merkle_new quote_pair 2 [''aa'', ''bb''] = Inr (projr (merkle_new quote_pair 2 [''aa'', ''bb'']))"
    "merkle_new quote_pair 2 [''aa'', ''bb'', ''cc'', ''dd''] = Inr (projr (merkle_new quote_pair 2 [''aa'', ''bb'', ''cc'', ''dd'']))"
    by code_simp+
  have "merkle_root 2 (projr (merkle_new quote_pair 2 [''aa'', ''bb'']))
       \<noteq> merkle_root 2 (projr (merkle_new quote_pair 2 [''aa'', ''bb'', ''cc'', ''dd'']))" by code_simp
  then show ?thesis using diff_misses_growth [OF _ _ _ _ _ _ _ _ n] by (simp add: ascii_def)
qed

end
