(* ===== verification/HashRing.thy ===== *)
theory HashRing
  imports Prelude Complex_Main
begin

text \<open>
  \<^verbatim>\<open>ConsistentHashRouter\<close> of \<^verbatim>\<open>src/distllm/dist/routing/consistent_hash.py\<close>. The hash of a key (the first four
  bytes of its MD5 digest) is a parameter \<open>hash\<close>; nothing below depends on how it spreads keys. Weights
  are rationals in place of floats. The ring is the sorted list of pairs that the class keeps.
\<close>

section \<open>The router\<close>

record router =
  ro_vnode_count :: int
  ro_ring :: "(nat \<times> string) list"
  ro_nodes :: "(string, rat) dict"

definition router_init :: "int \<Rightarrow> router" where
  "router_init vnodes = \<lparr>ro_vnode_count = vnodes, ro_ring = [], ro_nodes = []\<rparr>"

definition vnode_entries :: "(string \<Rightarrow> nat) \<Rightarrow> string \<Rightarrow> nat \<Rightarrow> (nat \<times> string) list" where
  "vnode_entries hash node n = map (\<lambda>i. (hash (node @ '':'' @ dec i), node)) [0..<n]"

definition add_node :: "(string \<Rightarrow> nat) \<Rightarrow> string \<Rightarrow> rat \<Rightarrow> router \<Rightarrow> py_error + router" where
  "add_node hash node weight r =
     (if node \<in> set (dict_keys (ro_nodes r)) then Inl ValueError
      else if weight \<le> 0 then Inl ValueError
      else let vnodes = nat (max 1 \<lfloor>of_int (ro_vnode_count r) * weight\<rfloor>)
           in Inr (r\<lparr>ro_nodes := AList.update node weight (ro_nodes r),
                     ro_ring := sort_key fst (ro_ring r @ vnode_entries hash node vnodes)\<rparr>))"

definition remove_node :: "string \<Rightarrow> router \<Rightarrow> py_error + router" where
  "remove_node node r =
     (if node \<notin> set (dict_keys (ro_nodes r)) then Inl ValueError
      else Inr (r\<lparr>ro_nodes := AList.delete node (ro_nodes r),
                  ro_ring := filter (\<lambda>(h, n). n \<noteq> node) (ro_ring r)\<rparr>))"

function find_ge_loop :: "(nat \<times> string) list \<Rightarrow> nat \<Rightarrow> nat \<Rightarrow> nat \<Rightarrow> nat" where
  "find_ge_loop ring h lo hi =
     (if lo < hi
      then let mid = (lo + hi) div 2
           in if fst (ring ! mid) < h then find_ge_loop ring h (mid + 1) hi else find_ge_loop ring h lo mid
      else lo)"
  by pat_completeness auto
termination
  by (relation "measure (\<lambda>(ring, h, lo, hi). hi - lo)") auto

declare find_ge_loop.simps [simp del]

definition find_ge :: "(nat \<times> string) list \<Rightarrow> nat \<Rightarrow> nat" where
  "find_ge ring h = find_ge_loop ring h 0 (length ring) mod length ring"

definition get_node :: "(string \<Rightarrow> nat) \<Rightarrow> string \<Rightarrow> router \<Rightarrow> py_error + string" where
  "get_node hash key r =
     (if ro_ring r = [] then Inl RuntimeError
      else Inr (snd (ro_ring r ! find_ge (ro_ring r) (hash key))))"

text \<open>The loop of \<^verbatim>\<open>get_nodes\<close> over the ring positions still to visit; \<^verbatim>\<open>seen\<close> has the elements of \<^verbatim>\<open>result\<close>.\<close>

fun get_nodes_loop :: "(nat \<times> string) list \<Rightarrow> nat \<Rightarrow> int \<Rightarrow> nat list \<Rightarrow> string list \<Rightarrow> string list" where
  "get_nodes_loop ring start cnt [] result = result"
| "get_nodes_loop ring start cnt (i # is) result =
     (let node = snd (ring ! ((start + i) mod length ring))
      in if node \<notin> set result
         then if int (length (result @ [node])) \<ge> cnt then result @ [node]
              else get_nodes_loop ring start cnt is (result @ [node])
         else get_nodes_loop ring start cnt is result)"

definition get_nodes :: "(string \<Rightarrow> nat) \<Rightarrow> string \<Rightarrow> int \<Rightarrow> router \<Rightarrow> py_error + string list" where
  "get_nodes hash key cnt r =
     (if ro_ring r = [] then Inl RuntimeError
      else Inr (get_nodes_loop (ro_ring r) (find_ge (ro_ring r) (hash key)) cnt [0..<length (ro_ring r)] []))"

section \<open>Binary search\<close>

abbreviation ring_sorted :: "(nat \<times> string) list \<Rightarrow> bool" where
  "ring_sorted ring \<equiv> sorted (map fst ring)"

lemma find_ge_loop_spec:
  assumes "ring_sorted ring"
  shows "lo \<le> hi \<Longrightarrow> hi \<le> length ring \<Longrightarrow> (\<And>i. i < lo \<Longrightarrow> fst (ring ! i) < h)
     \<Longrightarrow> (\<And>i. hi \<le> i \<Longrightarrow> i < length ring \<Longrightarrow> h \<le> fst (ring ! i))
     \<Longrightarrow> find_ge_loop ring h lo hi \<le> length ring \<and> (\<forall>i < find_ge_loop ring h lo hi. fst (ring ! i) < h)
         \<and> (\<forall>i. find_ge_loop ring h lo hi \<le> i \<and> i < length ring \<longrightarrow> h \<le> fst (ring ! i))"
proof (induction "hi - lo" arbitrary: lo hi rule: less_induct)
  case less
  show ?case
  proof (cases "lo < hi")
    case False
    then show ?thesis using less.prems by (subst (1 2 3) find_ge_loop.simps) auto
  next
    case True
    define mid where "mid = (lo + hi) div 2"
    have mid: "lo \<le> mid" "mid < hi" using True by (auto simp: mid_def)
    have mono: "fst (ring ! i) \<le> fst (ring ! j)" if "i \<le> j" "j < length ring" for i j
      using assms that by (auto simp: sorted_iff_nth_mono)
    show ?thesis
    proof (cases "fst (ring ! mid) < h")
      case below: True
      have eq: "find_ge_loop ring h lo hi = find_ge_loop ring h (mid + 1) hi"
        using True below by (subst find_ge_loop.simps) (simp add: mid_def)
      have "fst (ring ! i) < h" if "i < mid + 1" for i
        using mono [of i mid] that mid less.prems(2) below by simp
      then show ?thesis unfolding eq using mid less.prems by (intro less.hyps) auto
    next
      case above: False
      have eq: "find_ge_loop ring h lo hi = find_ge_loop ring h lo mid"
        using True above by (subst find_ge_loop.simps) (simp add: mid_def)
      have "h \<le> fst (ring ! i)" if "mid \<le> i" "i < length ring" for i
        using mono [OF that] above by simp
      then show ?thesis unfolding eq using mid less.prems by (intro less.hyps) auto
    qed
  qed
qed

text \<open>The ring in the order in which a walk clockwise from \<open>h\<close> meets its entries.\<close>

definition clockwise :: "nat \<Rightarrow> (nat \<times> string) list \<Rightarrow> (nat \<times> string) list" where
  "clockwise h ring = filter (\<lambda>e. h \<le> fst e) ring @ filter (\<lambda>e. fst e < h) ring"

lemma filter_split:
  assumes "k \<le> length xs" "\<And>i. i < k \<Longrightarrow> P (xs ! i)" "\<And>i. k \<le> i \<Longrightarrow> i < length xs \<Longrightarrow> \<not> P (xs ! i)"
  shows "filter P xs = take k xs" and "filter (\<lambda>x. \<not> P x) xs = drop k xs"
proof -
  have t: "P x" if "x \<in> set (take k xs)" for x
    using that assms(1,2) by (auto simp: in_set_conv_nth)
  have d: "\<not> P x" if "x \<in> set (drop k xs)" for x
    using that assms(1,3) by (auto simp: in_set_conv_nth)
  have "filter P (take k xs @ drop k xs) = take k xs" "filter (\<lambda>x. \<not> P x) (take k xs @ drop k xs) = drop k xs"
    using t d by (simp_all only: filter_append) (simp_all add: filter_id_conv filter_empty_conv)
  then show "filter P xs = take k xs" "filter (\<lambda>x. \<not> P x) xs = drop k xs" by simp_all
qed

lemma rotate_find_ge:
  assumes "ring_sorted ring" "ring \<noteq> []"
  shows "rotate (find_ge ring h) ring = clockwise h ring" and "find_ge ring h < length ring"
proof -
  let ?k = "find_ge_loop ring h 0 (length ring)"
  have k: "?k \<le> length ring" "\<And>i. i < ?k \<Longrightarrow> fst (ring ! i) < h"
      "\<And>i. ?k \<le> i \<Longrightarrow> i < length ring \<Longrightarrow> \<not> fst (ring ! i) < h"
    using find_ge_loop_spec [OF assms(1), of 0 "length ring" h] by (auto simp: not_less)
  have "rotate ?k ring = drop ?k ring @ take ?k ring"
    using k(1) by (cases "?k = length ring") (simp_all add: rotate_drop_take)
  also have "\<dots> = clockwise h ring"
    using filter_split [of ?k ring "\<lambda>e. fst e < h", OF k] by (simp add: clockwise_def not_less)
  finally show "rotate (find_ge ring h) ring = clockwise h ring"
    by (simp add: find_ge_def flip: rotate_conv_mod)
  show "find_ge ring h < length ring" using assms(2) by (simp add: find_ge_def)
qed

lemma clockwise_nth:
  assumes "ring_sorted ring" "ring \<noteq> []" "i < length ring"
  shows "ring ! ((find_ge ring h + i) mod length ring) = clockwise h ring ! i"
  using nth_rotate [of i ring "find_ge ring h"] rotate_find_ge [OF assms(1,2), of h] assms(3)
  by simp

lemma clockwise_filter: "clockwise h (filter P ring) = filter P (clockwise h ring)"
  by (simp add: clockwise_def conj_commute)

lemma clockwise_Nil [simp]: "clockwise h ring = [] \<longleftrightarrow> ring = []"
proof
  show "clockwise h ring = [] \<Longrightarrow> ring = []" by (cases ring) (auto simp: clockwise_def split: if_splits)
qed (simp add: clockwise_def)

lemma set_clockwise [simp]: "set (clockwise h ring) = set ring"
  by (auto simp: clockwise_def)

lemma get_node_clockwise:
  assumes "ring_sorted (ro_ring r)"
  shows "get_node hash key r =
     (if ro_ring r = [] then Inl RuntimeError else Inr (snd (hd (clockwise (hash key) (ro_ring r)))))"
  using clockwise_nth [OF assms, of 0 "hash key"] rotate_find_ge [OF assms, of "hash key"]
  by (auto simp: get_node_def hd_conv_nth)

section \<open>Distinct nodes along the walk\<close>

fun collect :: "'a list \<Rightarrow> 'a list \<Rightarrow> 'a list" where
  "collect acc [] = acc"
| "collect acc (n # ns) = (if n \<in> set acc then collect acc ns else collect (acc @ [n]) ns)"

lemma collect_prefix: "\<exists>ys. collect acc ns = acc @ ys"
  by (induction acc ns rule: collect.induct) auto

lemma collect_distinct: "distinct acc \<Longrightarrow> distinct (collect acc ns)"
  by (induction acc ns rule: collect.induct) auto

lemma set_collect: "set (collect acc ns) = set acc \<union> set ns"
  by (induction acc ns rule: collect.induct) auto

lemma take_collect: "take (length acc) (collect acc ns) = acc"
  using collect_prefix [of acc ns] by auto

lemma get_nodes_loop_collect:
  assumes "length result < nat (max 1 cnt)"
  shows "get_nodes_loop ring start cnt is result =
     take (nat (max 1 cnt)) (collect result (map (\<lambda>i. snd (ring ! ((start + i) mod length ring))) is))"
  using assms
proof (induction "is" arbitrary: result)
  case Nil
  then show ?case by simp
next
  case (Cons i "is")
  let ?n = "snd (ring ! ((start + i) mod length ring))"
  show ?case
  proof (cases "?n \<notin> set result \<and> int (length (result @ [?n])) \<ge> cnt")
    case True
    then have "nat (max 1 cnt) = length (result @ [?n])" using Cons.prems by auto
    then show ?thesis using True take_collect [of "result @ [?n]"] by simp
  next
    case False
    then show ?thesis using Cons.prems by (auto simp: Cons.IH)
  qed
qed

section \<open>Invariant\<close>

definition ring_inv :: "router \<Rightarrow> bool" where
  "ring_inv r \<longleftrightarrow> ring_sorted (ro_ring r) \<and> snd ` set (ro_ring r) = set (dict_keys (ro_nodes r)) \<and> dict_wf (ro_nodes r)"

lemma ring_inv_init: "ring_inv (router_init n)"
  by (simp add: ring_inv_def router_init_def)

lemma snd_vnode_entries: "0 < n \<Longrightarrow> snd ` set (vnode_entries hash node n) = {node}"
  by (force simp: vnode_entries_def)

lemma keys_update: "fst ` set (AList.update k v d) = insert k (fst ` set d)"
  by (simp add: dom_update flip: dom_map_of_conv_image_fst)

lemma keys_delete: "fst ` set (AList.delete k d) = fst ` set d - {k}"
  by (simp flip: dom_map_of_conv_image_fst)

lemma ring_inv_add:
  assumes "ring_inv r" "add_node hash node w r = Inr r'"
  shows "ring_inv r'"
proof -
  let ?n = "nat (max 1 \<lfloor>of_int (ro_vnode_count r) * w\<rfloor>)"
  have r': "ro_ring r' = sort_key fst (ro_ring r @ vnode_entries hash node ?n)"
      "ro_nodes r' = AList.update node w (ro_nodes r)"
    using assms(2) by (auto simp: add_node_def Let_def split: if_splits)
  have "snd ` set (ro_ring r') = insert node (snd ` set (ro_ring r))"
    using snd_vnode_entries [of ?n hash node] by (simp add: r' image_Un)
  then show ?thesis using assms(1) by (simp add: ring_inv_def r' keys_update)
qed

lemma remove_ring:
  "remove_node node r = Inr r' \<Longrightarrow> ro_ring r' = filter (\<lambda>e. snd e \<noteq> node) (ro_ring r)"
  by (auto simp: remove_node_def split: if_splits intro!: filter_cong)

lemma ring_inv_remove:
  assumes "ring_inv r" "remove_node node r = Inr r'"
  shows "ring_inv r'"
proof -
  have n: "ro_nodes r' = AList.delete node (ro_nodes r)"
    using assms(2) by (auto simp: remove_node_def split: if_splits)
  have "snd ` set (ro_ring r') = snd ` set (ro_ring r) - {node}"
    by (auto simp: remove_ring [OF assms(2)])
  then show ?thesis
    using assms(1) by (simp add: ring_inv_def n keys_delete remove_ring [OF assms(2)] sorted_filter)
qed

lemma add_keys: "add_node hash node w r = Inr r' \<Longrightarrow> fst ` set (ro_nodes r') = insert node (fst ` set (ro_nodes r))"
proof -
  assume "add_node hash node w r = Inr r'"
  then have "ro_nodes r' = AList.update node w (ro_nodes r)" by (auto simp: add_node_def Let_def split: if_splits)
  then show ?thesis by (simp add: keys_update)
qed

lemma add_ok:
  "node \<notin> fst ` set (ro_nodes r) \<Longrightarrow> 0 < w \<Longrightarrow> add_node hash node w r = Inr (projr (add_node hash node w r))"
  by (simp add: add_node_def Let_def)

text \<open>Taking the new node's entries out of the new ring gives the old ring back.\<close>

lemma add_ring:
  assumes "ring_inv r" "add_node hash node w r = Inr r'"
  shows "filter (\<lambda>e. snd e \<noteq> node) (ro_ring r') = ro_ring r"
proof -
  let ?new = "vnode_entries hash node (nat (max 1 \<lfloor>of_int (ro_vnode_count r) * w\<rfloor>))"
  have "node \<notin> snd ` set (ro_ring r)" and r': "ro_ring r' = sort_key fst (ro_ring r @ ?new)"
    using assms by (auto simp: add_node_def ring_inv_def Let_def split: if_splits)
  then have "filter (\<lambda>e. snd e \<noteq> node) (ro_ring r) = ro_ring r" "filter (\<lambda>e. snd e \<noteq> node) ?new = []"
    by (force simp: filter_id_conv, auto simp: filter_empty_conv vnode_entries_def)
  then show ?thesis
    using assms(1) by (simp add: r' filter_sort ring_inv_def sort_key_id_if_sorted)
qed

lemma get_node_filtered:
  assumes "ring_sorted (ro_ring r)" "ring_sorted (ro_ring r')"
    and "ro_ring r' = filter (\<lambda>e. snd e \<noteq> node) (ro_ring r)" "get_node hash key r \<noteq> Inr node"
  shows "get_node hash key r' = get_node hash key r"
proof (cases "ro_ring r = []")
  case True
  then show ?thesis using assms(3) by (simp add: get_node_def)
next
  case False
  let ?cw = "clockwise (hash key) (ro_ring r)"
  have "?cw \<noteq> []" "snd (hd ?cw) \<noteq> node"
    using assms(4) False by (auto simp: get_node_clockwise [OF assms(1)])
  then obtain e es where cw: "?cw = e # es" "snd e \<noteq> node" by (cases ?cw) auto
  moreover have "ro_ring r' \<noteq> []"
    using cw set_clockwise [of "hash key" "ro_ring r"] by (auto simp: assms(3) filter_empty_conv)
  ultimately show ?thesis
    using False by (simp add: get_node_clockwise [OF assms(1)] get_node_clockwise [OF assms(2)] clockwise_filter assms(3))
qed

section \<open>Properties\<close>

text \<open>Lookup finds the clockwise successor. The binary search returns the first entry of the sorted ring
  whose hash is not below the hash of the key, and wraps around to the first entry when there is
  none; the node returned is a registered one.\<close>

theorem get_node_successor:
  assumes "ring_inv r" "ro_ring r \<noteq> []"
  shows "find_ge (ro_ring r) h < length (ro_ring r)
    \<and> (if \<exists>e \<in> set (ro_ring r). h \<le> fst e
       then h \<le> fst (ro_ring r ! find_ge (ro_ring r) h) \<and> (\<forall>i < find_ge (ro_ring r) h. fst (ro_ring r ! i) < h)
       else find_ge (ro_ring r) h = 0)
    \<and> (\<exists>node \<in> set (dict_keys (ro_nodes r)). get_node hash key r = Inr node)"
proof -
  have s: "ring_sorted (ro_ring r)" using assms(1) by (simp add: ring_inv_def)
  let ?k = "find_ge_loop (ro_ring r) h 0 (length (ro_ring r))"
  have k: "?k \<le> length (ro_ring r)" "\<And>i. i < ?k \<Longrightarrow> fst (ro_ring r ! i) < h"
      "\<And>i. ?k \<le> i \<Longrightarrow> i < length (ro_ring r) \<Longrightarrow> h \<le> fst (ro_ring r ! i)"
    using find_ge_loop_spec [OF s, of 0 "length (ro_ring r)" h] by auto
  have ex: "(\<exists>e \<in> set (ro_ring r). h \<le> fst e) \<longleftrightarrow> ?k < length (ro_ring r)"
    using k by (metis in_set_conv_nth leD le_neq_implies_less order_refl)
  have "get_node hash key r = Inr (snd (ro_ring r ! find_ge (ro_ring r) (hash key)))"
    using assms(2) by (simp add: get_node_def)
  moreover have "snd (ro_ring r ! find_ge (ro_ring r) (hash key)) \<in> set (dict_keys (ro_nodes r))"
    using assms rotate_find_ge(2) [OF s assms(2), of "hash key"] by (auto simp: ring_inv_def simp flip: image_set)
  ultimately show ?thesis
    using ex k rotate_find_ge(2) [OF s assms(2), of h] by (auto simp: find_ge_def)
qed

text \<open>C20: membership changes move as few keys as possible. Adding a node moves a key only to the new node;
  removing a node moves only the keys that it served; removing the node just added restores the
  ring. The ring stays sorted and in step with the table of nodes.\<close>

theorem minimal_remapping:
  assumes "ring_inv r"
  shows "(\<forall>r'. add_node hash node w r = Inr r' \<longrightarrow> ring_inv r'
            \<and> (\<forall>key. get_node hash key r' = Inr node \<or> get_node hash key r' = get_node hash key r)
            \<and> (\<exists>r''. remove_node node r' = Inr r'' \<and> ro_ring r'' = ro_ring r))
    \<and> (\<forall>r'. remove_node node r = Inr r' \<longrightarrow> ring_inv r'
            \<and> (\<forall>key. get_node hash key r \<noteq> Inr node \<longrightarrow> get_node hash key r' = get_node hash key r))"
proof (intro conjI allI impI)
  fix r' key assume add: "add_node hash node w r = Inr r'"
  show inv: "ring_inv r'" by (rule ring_inv_add [OF assms add])
  show "get_node hash key r' = Inr node \<or> get_node hash key r' = get_node hash key r"
    using get_node_filtered [OF _ _ add_ring [OF assms add, symmetric], of hash key] inv assms
    unfolding ring_inv_def by metis
  have "node \<in> fst ` set (ro_nodes r')" by (simp add: add_keys [OF add])
  then obtain r'' where "remove_node node r' = Inr r''" by (simp add: remove_node_def)
  then show "\<exists>r''. remove_node node r' = Inr r'' \<and> ro_ring r'' = ro_ring r"
    using remove_ring [of node r' r''] add_ring [OF assms add] by simp
next
  fix r' key assume rem: "remove_node node r = Inr r'"
  show inv: "ring_inv r'" by (rule ring_inv_remove [OF assms rem])
  show "get_node hash key r \<noteq> Inr node \<Longrightarrow> get_node hash key r' = get_node hash key r"
    using get_node_filtered [OF _ _ remove_ring [OF rem], of hash key] inv assms
    unfolding ring_inv_def by blast
qed

definition demo_hash :: "string \<Rightarrow> nat" where
  "demo_hash s = (case s of [] \<Rightarrow> 0 | c # _ \<Rightarrow> of_char c)"

definition demo_router :: router where
  "demo_router = projr (add_node demo_hash ''b'' 1 (projr (add_node demo_hash ''a'' 1 (router_init 2))))"

lemma demo_router: "ring_inv demo_router" "ro_ring demo_router \<noteq> []"
    "add_node demo_hash ''c'' 1 demo_router = Inr (projr (add_node demo_hash ''c'' 1 demo_router))"
proof -
  let ?r1 = "projr (add_node demo_hash ''a'' 1 (router_init 2))"
  have r1: "add_node demo_hash ''a'' 1 (router_init 2) = Inr ?r1" by (rule add_ok) (simp_all add: router_init_def)
  have k1: "fst ` set (ro_nodes ?r1) = {''a''}" using add_keys [OF r1] by (simp add: router_init_def)
  have r2: "add_node demo_hash ''b'' 1 ?r1 = Inr demo_router"
    unfolding demo_router_def by (rule add_ok) (simp_all add: k1)
  show inv: "ring_inv demo_router" by (rule ring_inv_add [OF ring_inv_add [OF ring_inv_init r1] r2])
  have k2: "fst ` set (ro_nodes demo_router) = {''a'', ''b''}"
    using add_keys [OF r2] k1 by auto
  show "ro_ring demo_router \<noteq> []"
  proof
    assume "ro_ring demo_router = []"
    with inv have "fst ` set (ro_nodes demo_router) = {}" by (simp add: ring_inv_def)
    with k2 show False by simp
  qed
  show "add_node demo_hash ''c'' 1 demo_router = Inr (projr (add_node demo_hash ''c'' 1 demo_router))"
    by (rule add_ok) (simp_all add: k2)
qed

theorem get_node_successor_witness: "find_ge (ro_ring demo_router) 3 < length (ro_ring demo_router)"
  using get_node_successor [OF demo_router(1,2), of 3 demo_hash "''k''"] by blast

theorem minimal_remapping_witness:
  "get_node demo_hash ''k'' (projr (add_node demo_hash ''c'' 1 demo_router)) \<in> {Inr ''c'', get_node demo_hash ''k'' demo_router}"
  using minimal_remapping [OF demo_router(1), of demo_hash "''c''" 1] demo_router(3) by blast

text \<open>Replica lists. \<^verbatim>\<open>get_nodes\<close> returns distinct registered nodes in clockwise order, the primary first,
  exactly as many as asked for while nodes last (and one when fewer are asked for).\<close>

theorem get_nodes_replicas:
  assumes "ring_inv r" "ro_ring r \<noteq> []" and "get_nodes hash key cnt r = Inr ns"
  shows "distinct ns \<and> set ns \<subseteq> set (dict_keys (ro_nodes r))
     \<and> length ns = min (nat (max 1 cnt)) (length (ro_nodes r))
     \<and> get_node hash key r = Inr (hd ns)
     \<and> ns = take (nat (max 1 cnt)) (collect [] (map snd (clockwise (hash key) (ro_ring r))))"
proof -
  have s: "ring_sorted (ro_ring r)" using assms(1) by (simp add: ring_inv_def)
  let ?cw = "map snd (clockwise (hash key) (ro_ring r))"
  have len: "length (clockwise (hash key) (ro_ring r)) = length (ro_ring r)"
    using rotate_find_ge(1) [OF s assms(2), of "hash key", symmetric] by simp
  have walk: "map (\<lambda>i. snd (ro_ring r ! ((find_ge (ro_ring r) (hash key) + i) mod length (ro_ring r)))) [0..<length (ro_ring r)] = ?cw"
    using clockwise_nth [OF s assms(2)] len by (intro nth_equalityI) simp_all
  have ns: "ns = take (nat (max 1 cnt)) (collect [] ?cw)"
    using assms(2,3) get_nodes_loop_collect [of "[]" cnt] walk by (simp add: get_nodes_def)
  have set_c: "set (collect [] ?cw) = set (dict_keys (ro_nodes r))"
    using assms(1) by (simp add: set_collect ring_inv_def)
  have "length (collect [] ?cw) = card (set (dict_keys (ro_nodes r)))"
    unfolding set_c [symmetric] by (rule distinct_card [symmetric]) (simp add: collect_distinct)
  also have "\<dots> = length (ro_nodes r)"
    using assms(1) distinct_card [of "dict_keys (ro_nodes r)"] by (simp add: ring_inv_def dict_wf_def)
  finally have "length ns = min (nat (max 1 cnt)) (length (ro_nodes r))" by (simp add: ns)
  moreover have "distinct ns" unfolding ns by (simp add: collect_distinct)
  moreover have "set ns \<subseteq> set (dict_keys (ro_nodes r))"
    unfolding ns set_c [symmetric] by (rule set_take_subset)
  moreover have "hd ns = snd (hd (clockwise (hash key) (ro_ring r)))"
  proof -
    obtain e es where cw: "clockwise (hash key) (ro_ring r) = e # es"
      using assms(2) by (cases "clockwise (hash key) (ro_ring r)") auto
    obtain ys where "collect [snd e] (map snd es) = [snd e] @ ys" using collect_prefix by blast
    moreover have "0 < nat (max 1 cnt)" by linarith
    then obtain k where "nat (max 1 cnt) = Suc k" using gr0_implies_Suc by blast
    ultimately show ?thesis by (simp add: ns cw)
  qed
  ultimately show ?thesis using assms(2) ns by (simp add: get_node_clockwise [OF s])
qed

theorem get_nodes_replicas_witness: "\<exists>ns. get_nodes demo_hash ''k'' 2 demo_router = Inr ns \<and> distinct ns"
proof -
  obtain ns where ns: "get_nodes demo_hash ''k'' 2 demo_router = Inr ns" using demo_router(2) by (simp add: get_nodes_def)
  show ?thesis using get_nodes_replicas [OF demo_router(1,2) ns] ns by blast
qed

end
