(* ===== verification/Kademlia.thy ===== *)
theory Kademlia
  imports DigestWire Complex_Main
begin

text \<open>
  The routing table, the local store and the request handlers of the DHT in
  \<^verbatim>\<open>src/distllm/dist/p2p/kademlia_dht.py\<close>. Node identifiers are byte strings, as in the code, which nowhere
  checks that they have twenty bytes; \<open>be_decode\<close> is \<^verbatim>\<open>int.from_bytes(_, "big")\<close>. A bucket object of the
  table is named by its index. Clock readings are inputs (rationals, in seconds). The HMAC and the SHA-1
  digest are parameters \<open>mac\<close> and \<open>sha1\<close>. The UDP transport, the iterative lookup over the network and the
  refresh task are not modelled.
\<close>

unbundle bit_operations_syntax

section \<open>Identifiers\<close>

type_synonym node_id = "byte list"

definition bucket_size :: nat where "bucket_size = 20"

definition id_bits :: nat where "id_bits = 160"

definition xor_distance :: "node_id \<Rightarrow> node_id \<Rightarrow> nat" where
  "xor_distance a b = be_decode a XOR be_decode b"

text \<open>\<^verbatim>\<open>int.bit_length\<close>\<close>

fun bit_length :: "nat \<Rightarrow> nat" where
  "bit_length n = (if n = 0 then 0 else Suc (bit_length (n div 2)))"

declare bit_length.simps [simp del]

definition log_distance :: "node_id \<Rightarrow> node_id \<Rightarrow> nat" where
  "log_distance a b = (let d = xor_distance a b in if d = 0 then 0 else bit_length d - 1)"

definition hex_digit :: "nat \<Rightarrow> char" where
  "hex_digit n = char_of (if n < 10 then 48 + n else 87 + n)"

definition to_hex :: "byte list \<Rightarrow> string" where
  "to_hex bs = concat (map (\<lambda>b. [hex_digit (unat b div 16), hex_digit (unat b mod 16)]) bs)"

definition hex_value :: "char \<Rightarrow> nat option" where
  "hex_value c =
     (let n = of_char c
      in if 48 \<le> n \<and> n < 58 then Some (n - 48)
         else if 97 \<le> n \<and> n < 103 then Some (n - 87)
         else if 65 \<le> n \<and> n < 71 then Some (n - 55)
         else None)"

text \<open>ASCII white space, which \<^verbatim>\<open>bytes.fromhex\<close> skips between bytes.\<close>

definition is_space :: "char \<Rightarrow> bool" where
  "is_space c \<longleftrightarrow> of_char c \<in> {9, 10, 11, 12, 13, 32 :: nat}"

fun from_hex :: "string \<Rightarrow> py_error + byte list" where
  "from_hex [] = Inr []"
| "from_hex [c] = (if is_space c then Inr [] else Inl ValueError)"
| "from_hex (c # d # cs) =
     (if is_space c then from_hex (d # cs)
      else case (hex_value c, hex_value d) of
             (Some h, Some l) \<Rightarrow>
               (case from_hex cs of Inl e \<Rightarrow> Inl e | Inr bs \<Rightarrow> Inr (of_nat (16 * h + l) # bs))
           | _ \<Rightarrow> Inl ValueError)"

record knode =
  kn_id :: node_id
  kn_ip :: string
  kn_port :: int
  kn_tcp_port :: int

definition distance_to :: "knode \<Rightarrow> node_id \<Rightarrow> nat" where
  "distance_to n other = xor_distance (kn_id n) other"

section \<open>Buckets\<close>

record 't kbucket =
  kb_start :: nat
  kb_end :: nat
  kb_nodes :: "(node_id, knode) dict"
  kb_last :: 't

definition kb_new :: "'t \<Rightarrow> nat \<Rightarrow> nat \<Rightarrow> 't kbucket" where
  "kb_new now s e = \<lparr>kb_start = s, kb_end = e, kb_nodes = [], kb_last = now\<rparr>"

definition kb_is_full :: "'t kbucket \<Rightarrow> bool" where
  "kb_is_full b \<longleftrightarrow> length (kb_nodes b) \<ge> bucket_size"

definition kb_touch :: "'t \<Rightarrow> 't kbucket \<Rightarrow> 't kbucket" where
  "kb_touch now b = b\<lparr>kb_last := now\<rparr>"

text \<open>\<^verbatim>\<open>move_to_end\<close> keeps the stored object: a refreshed node keeps the address it was first seen with.\<close>

definition kb_add :: "'t \<Rightarrow> knode \<Rightarrow> 't kbucket \<Rightarrow> bool \<times> 't kbucket" where
  "kb_add now node b =
     (let b = b\<lparr>kb_last := now\<rparr>
      in case map_of (kb_nodes b) (kn_id node) of
           Some old \<Rightarrow> (True, b\<lparr>kb_nodes := AList.delete (kn_id node) (kb_nodes b) @ [(kn_id node, old)]\<rparr>)
         | None \<Rightarrow>
             if \<not> kb_is_full b then (True, b\<lparr>kb_nodes := AList.update (kn_id node) node (kb_nodes b)\<rparr>)
             else (False, b))"

definition kb_remove :: "node_id \<Rightarrow> 't kbucket \<Rightarrow> 't kbucket" where
  "kb_remove i b = b\<lparr>kb_nodes := AList.delete i (kb_nodes b)\<rparr>"

definition kb_head :: "'t kbucket \<Rightarrow> knode option" where
  "kb_head b = (case kb_nodes b of [] \<Rightarrow> None | (_, n) # _ \<Rightarrow> Some n)"

definition kb_split :: "'t \<Rightarrow> 't \<Rightarrow> 't kbucket \<Rightarrow> 't kbucket \<times> 't kbucket" where
  "kb_split t1 t2 b =
     (let mid = (kb_start b + kb_end b) div 2
      in ((kb_new t1 (kb_start b) mid)\<lparr>kb_nodes := filter (\<lambda>(i, n). be_decode i \<le> mid) (kb_nodes b)\<rparr>,
          (kb_new t2 (mid + 1) (kb_end b))\<lparr>kb_nodes := filter (\<lambda>(i, n). \<not> be_decode i \<le> mid) (kb_nodes b)\<rparr>))"

definition kb_in_range :: "'t kbucket \<Rightarrow> node_id \<Rightarrow> bool" where
  "kb_in_range b i \<longleftrightarrow> kb_start b \<le> be_decode i \<and> be_decode i \<le> kb_end b"

definition kb_needs_refresh :: "rat \<Rightarrow> rat kbucket \<Rightarrow> bool" where
  "kb_needs_refresh now b \<longleftrightarrow> now - kb_last b > 3600"

section \<open>The routing table\<close>

record 't rtable =
  rt_local :: node_id
  rt_buckets :: "'t kbucket list"

definition rt_init :: "'t \<Rightarrow> node_id \<Rightarrow> 't rtable" where
  "rt_init now i = \<lparr>rt_local = i, rt_buckets = [kb_new now 0 (2 ^ id_bits - 1)]\<rparr>"

definition all_nodes :: "'t rtable \<Rightarrow> knode list" where
  "all_nodes t = concat (map (\<lambda>b. map snd (kb_nodes b)) (rt_buckets t))"

text \<open>The index of the bucket that \<^verbatim>\<open>find_bucket\<close> returns.\<close>

fun find_bucket :: "'t kbucket list \<Rightarrow> node_id \<Rightarrow> nat option" where
  "find_bucket [] i = None"
| "find_bucket (b # bs) i = (if kb_in_range b i then Some 0 else map_option Suc (find_bucket bs i))"

definition rt_insert :: "(nat \<Rightarrow> 't) \<Rightarrow> knode \<Rightarrow> 't rtable \<Rightarrow> bool \<times> 't rtable" where
  "rt_insert clk node t =
     (if kn_id node = rt_local t then (False, t)
      else case find_bucket (rt_buckets t) (kn_id node) of
             None \<Rightarrow> (False, t)
           | Some i \<Rightarrow>
               let (ok, b) = kb_add (clk 0) node (rt_buckets t ! i)
               in if ok then (True, t\<lparr>rt_buckets := (rt_buckets t)[i := b]\<rparr>)
                  else
                    let local_val = be_decode (rt_local t);
                        can_split = (kb_start b \<le> local_val \<and> local_val \<le> kb_end b \<and> kb_end b - kb_start b > 1)
                    in if can_split
                       then let (left, right) = kb_split (clk 1) (clk 2) b;
                                bs = take i (rt_buckets t) @ [left, right] @ drop (Suc i) (rt_buckets t)
                            in case find_bucket bs (kn_id node) of
                                 None \<Rightarrow> (False, t\<lparr>rt_buckets := bs\<rparr>)
                               | Some j \<Rightarrow>
                                   let (ok', b') = kb_add (clk 3) node (bs ! j)
                                   in (ok', t\<lparr>rt_buckets := bs[j := b']\<rparr>)
                       else (False, t\<lparr>rt_buckets := (rt_buckets t)[i := b]\<rparr>))"

definition rt_remove :: "node_id \<Rightarrow> 't rtable \<Rightarrow> 't rtable" where
  "rt_remove i t =
     (case find_bucket (rt_buckets t) i of
        None \<Rightarrow> t
      | Some j \<Rightarrow> t\<lparr>rt_buckets := (rt_buckets t)[j := kb_remove i (rt_buckets t ! j)]\<rparr>)"

text \<open>\<^verbatim>\<open>all_nodes[:count]\<close> drops from the end when \<^verbatim>\<open>count\<close> is negative.\<close>

definition py_take :: "int \<Rightarrow> 'a list \<Rightarrow> 'a list" where
  "py_take n xs = (if 0 \<le> n then take (nat n) xs else take (length xs - nat (- n)) xs)"

definition find_nearest :: "node_id \<Rightarrow> int \<Rightarrow> 't rtable \<Rightarrow> knode list" where
  "find_nearest target cnt t = py_take cnt (sort_key (\<lambda>n. xor_distance (kn_id n) target) (all_nodes t))"

definition buckets_needing_refresh :: "rat \<Rightarrow> rat rtable \<Rightarrow> rat kbucket list" where
  "buckets_needing_refresh now t = filter (kb_needs_refresh now) (rt_buckets t)"

section \<open>Invariant\<close>

text \<open>The buckets tile the half-open interval from \<open>lo\<close> to \<open>hi\<close>.\<close>

fun tiles :: "nat \<Rightarrow> nat \<Rightarrow> 't kbucket list \<Rightarrow> bool" where
  "tiles lo hi [] \<longleftrightarrow> lo = hi"
| "tiles lo hi (b # bs) \<longleftrightarrow> kb_start b = lo \<and> lo \<le> kb_end b \<and> tiles (Suc (kb_end b)) hi bs"

definition kb_ok :: "'t kbucket \<Rightarrow> bool" where
  "kb_ok b \<longleftrightarrow> length (kb_nodes b) \<le> bucket_size \<and> dict_wf (kb_nodes b)
     \<and> (\<forall>(i, n) \<in> set (kb_nodes b). kn_id n = i \<and> kb_in_range b i)"

definition bucket_ids :: "'t kbucket \<Rightarrow> node_id set" where
  "bucket_ids b = fst ` set (kb_nodes b)"

definition known_ids :: "'t rtable \<Rightarrow> node_id set" where
  "known_ids t = (\<Union>b \<in> set (rt_buckets t). bucket_ids b)"

definition rt_inv :: "'t rtable \<Rightarrow> bool" where
  "rt_inv t \<longleftrightarrow> tiles 0 (2 ^ id_bits) (rt_buckets t) \<and> (\<forall>b \<in> set (rt_buckets t). kb_ok b) \<and> rt_local t \<notin> known_ids t"

lemma tiles_append: "tiles lo hi (xs @ ys) \<longleftrightarrow> (\<exists>m. tiles lo m xs \<and> tiles m hi ys)"
  by (induction xs arbitrary: lo) auto

lemma tiles_update:
  "tiles lo hi bs \<Longrightarrow> j < length bs \<Longrightarrow> kb_start b = kb_start (bs ! j) \<Longrightarrow> kb_end b = kb_end (bs ! j)
     \<Longrightarrow> tiles lo hi (bs[j := b])"
proof (induction bs arbitrary: lo j)
  case Nil
  then show ?case by simp
next
  case (Cons a bs)
  then show ?case by (cases j) auto
qed

lemma find_bucket_some: "find_bucket bs i = Some j \<Longrightarrow> j < length bs \<and> kb_in_range (bs ! j) i"
  by (induction bs arbitrary: j) (auto split: if_splits)

lemma find_bucket_total:
  "tiles lo hi bs \<Longrightarrow> lo \<le> be_decode i \<Longrightarrow> be_decode i < hi \<Longrightarrow> \<exists>j. find_bucket bs i = Some j"
proof (induction bs arbitrary: lo)
  case Nil
  then show ?case by simp
next
  case (Cons b bs)
  show ?case
  proof (cases "kb_in_range b i")
    case False
    then have "Suc (kb_end b) \<le> be_decode i" using Cons.prems by (auto simp: kb_in_range_def)
    then show ?thesis using Cons.IH [of "Suc (kb_end b)"] Cons.prems False by auto
  qed simp
qed

text \<open>A node is found only in the bucket for its identifier.\<close>

lemma tiles_le: "tiles lo hi bs \<Longrightarrow> lo \<le> hi"
  by (induction bs arbitrary: lo) fastforce+

lemma tiles_bounds: "tiles lo hi bs \<Longrightarrow> b \<in> set bs \<Longrightarrow> lo \<le> kb_start b \<and> kb_end b < hi"
proof (induction bs arbitrary: lo)
  case Nil
  then show ?case by simp
next
  case (Cons a bs)
  then show ?case using tiles_le [of "Suc (kb_end a)" hi bs] by fastforce
qed

lemma find_bucket_unique:
  "tiles lo hi bs \<Longrightarrow> find_bucket bs i = Some j \<Longrightarrow> k < length bs \<Longrightarrow> kb_in_range (bs ! k) i \<Longrightarrow> k = j"
proof (induction bs arbitrary: lo j k)
  case Nil
  then show ?case by simp
next
  case (Cons b bs)
  show ?case
  proof (cases "kb_in_range b i")
    case True
    have "k = 0"
    proof (rule ccontr)
      assume "k \<noteq> 0"
      then obtain k' where k': "k = Suc k'" "k' < length bs" using Cons.prems(3) by (cases k) auto
      then have "Suc (kb_end b) \<le> kb_start (bs ! k')" using Cons.prems(1) tiles_bounds [of "Suc (kb_end b)" hi bs] by auto
      then show False using True Cons.prems(4) k' by (simp add: kb_in_range_def)
    qed
    then show ?thesis using True Cons.prems(2) by simp
  next
    case False
    then obtain k' j' where k': "k = Suc k'" "j = Suc j'" "find_bucket bs i = Some j'"
      using Cons.prems(2,4) by (cases k) auto
    then show ?thesis using Cons.IH [of "Suc (kb_end b)" j' k'] Cons.prems by auto
  qed
qed

definition ids_of :: "'t kbucket list \<Rightarrow> node_id set" where
  "ids_of bs = (\<Union>b \<in> set bs. bucket_ids b)"

lemma ids_of_simps [simp]:
  "ids_of [] = {}" "ids_of (b # bs) = bucket_ids b \<union> ids_of bs" "ids_of (xs @ ys) = ids_of xs \<union> ids_of ys"
  by (auto simp: ids_of_def)

lemma ids_of_split: "j < length bs \<Longrightarrow> ids_of bs = ids_of (take j bs) \<union> bucket_ids (bs ! j) \<union> ids_of (drop (Suc j) bs)"
  by (subst id_take_nth_drop [of j bs]) auto

lemma ids_of_update:
  "j < length bs \<Longrightarrow> ids_of (bs[j := b]) = ids_of (take j bs) \<union> bucket_ids b \<union> ids_of (drop (Suc j) bs)"
  by (simp add: upd_conv_take_nth_drop Un_assoc)

lemma kb_add_spec:
  assumes "kb_ok b" "kb_in_range b (kn_id node)" "kb_add now node b = (ok, b')"
  shows "kb_ok b'" and "kb_start b' = kb_start b" and "kb_end b' = kb_end b"
    and "bucket_ids b' = (if ok then insert (kn_id node) (bucket_ids b) else bucket_ids b)"
    and "\<not> ok \<Longrightarrow> kn_id node \<notin> bucket_ids b \<and> length (kb_nodes b) = bucket_size \<and> kb_nodes b' = kb_nodes b"
proof -
  consider old where "map_of (kb_nodes b) (kn_id node) = Some old" | "map_of (kb_nodes b) (kn_id node) = None"
    by fastforce
  then have "kb_ok b' \<and> kb_start b' = kb_start b \<and> kb_end b' = kb_end b
    \<and> bucket_ids b' = (if ok then insert (kn_id node) (bucket_ids b) else bucket_ids b)
    \<and> (\<not> ok \<longrightarrow> kn_id node \<notin> bucket_ids b \<and> length (kb_nodes b) = bucket_size \<and> kb_nodes b' = kb_nodes b)"
  proof cases
    case 1
    let ?d = "AList.delete (kn_id node) (kb_nodes b) @ [(kn_id node, old)]"
    have b': "ok" "b' = b\<lparr>kb_last := now, kb_nodes := ?d\<rparr>" using assms(3) 1 by (auto simp: kb_add_def)
    have mem: "(kn_id node, old) \<in> set (kb_nodes b)" using 1 by (rule map_of_SomeD)
    have wf: "dict_wf ?d" using assms(1) by (intro dict_wf_delete_append) (simp add: kb_ok_def)
    have ids: "fst ` set ?d = fst ` set (kb_nodes b)" using mem by (force simp: set_delete)
    have "length ?d = length (kb_nodes b)"
      using dict_length [OF wf] dict_length [of "kb_nodes b"] assms(1) ids by (simp add: kb_ok_def)
    moreover have "set ?d \<subseteq> set (kb_nodes b)" using mem by (auto simp: set_delete)
    ultimately have "kb_ok b'" using wf assms(1) b'(2) unfolding kb_ok_def by (auto simp: kb_in_range_def)
    moreover have "bucket_ids b' = insert (kn_id node) (bucket_ids b)"
      unfolding bucket_ids_def b'(2) using ids mem by (auto simp: rev_image_eqI)
    ultimately show ?thesis using b' by simp
  next
    case 2
    then have new: "kn_id node \<notin> bucket_ids b" by (simp add: bucket_ids_def map_of_eq_None_iff)
    have upd: "AList.update (kn_id node) node (kb_nodes b) = kb_nodes b @ [(kn_id node, node)]"
      using new by (simp add: bucket_ids_def update_new)
    show ?thesis
    proof (cases "length (kb_nodes b) \<ge> bucket_size")
      case True
      then show ?thesis using assms 2 new by (auto simp: kb_add_def kb_is_full_def kb_ok_def kb_in_range_def bucket_ids_def)
    next
      case False
      then show ?thesis using assms 2 new
        by (auto simp: kb_add_def kb_is_full_def kb_ok_def kb_in_range_def upd bucket_ids_def dict_wf_def)
    qed
  qed
  then show "kb_ok b'" "kb_start b' = kb_start b" "kb_end b' = kb_end b"
    "bucket_ids b' = (if ok then insert (kn_id node) (bucket_ids b) else bucket_ids b)"
    "\<not> ok \<Longrightarrow> kn_id node \<notin> bucket_ids b \<and> length (kb_nodes b) = bucket_size \<and> kb_nodes b' = kb_nodes b"
    by blast+
qed

lemma kb_split_spec:
  assumes "kb_ok b" "kb_end b - kb_start b > 1" "kb_split t1 t2 b = (l, r)"
  shows "kb_ok l" "kb_ok r" "bucket_ids l \<union> bucket_ids r = bucket_ids b"
    and "kb_start b = lo \<Longrightarrow> tiles lo (Suc (kb_end b)) [l, r]"
proof -
  let ?mid = "(kb_start b + kb_end b) div 2"
  have l: "l = \<lparr>kb_start = kb_start b, kb_end = ?mid, kb_nodes = filter (\<lambda>(i, n). be_decode i \<le> ?mid) (kb_nodes b), kb_last = t1\<rparr>"
    and r: "r = \<lparr>kb_start = ?mid + 1, kb_end = kb_end b, kb_nodes = filter (\<lambda>(i, n). \<not> be_decode i \<le> ?mid) (kb_nodes b), kb_last = t2\<rparr>"
    using assms(3) by (simp_all add: kb_split_def kb_new_def Let_def)
  have len: "length (filter P (kb_nodes b)) \<le> bucket_size" for P
    using assms(1) order_trans [OF length_filter_le] by (auto simp: kb_ok_def)
  have wf: "dict_wf (filter P (kb_nodes b))" for P
    using assms(1) by (auto simp: kb_ok_def)
  show "kb_ok l" "kb_ok r" using assms(1) len wf by (auto simp: kb_ok_def l r kb_in_range_def)
  show "bucket_ids l \<union> bucket_ids r = bucket_ids b" by (force simp: bucket_ids_def l r)
  show "kb_start b = lo \<Longrightarrow> tiles lo (Suc (kb_end b)) [l, r]" using assms(2) by (auto simp: l r)
qed

text \<open>Replacing one bucket by buckets that tile the same range.\<close>

lemma tiles_splice:
  assumes "tiles lo hi bs" "i < length bs" "tiles (kb_start (bs ! i)) (Suc (kb_end (bs ! i))) cs"
  shows "tiles lo hi (take i bs @ cs @ drop (Suc i) bs)"
proof -
  have "tiles lo hi (take i bs @ [bs ! i] @ drop (Suc i) bs)"
    using assms(1) by (simp add: id_take_nth_drop [OF assms(2), symmetric])
  then show ?thesis using assms(3) by (auto simp: tiles_append)
qed

lemma set_splice: "b \<in> set (take i bs @ cs @ drop (Suc i) bs) \<Longrightarrow> b \<in> set bs \<or> b \<in> set cs"
  by (auto dest: in_set_takeD in_set_dropD)

text \<open>Adding a node to the bucket for it, at any stage of an insertion.\<close>

lemma insert_at_spec:
  assumes "tiles 0 N bs" "\<forall>b \<in> set bs. kb_ok b" "find_bucket bs (kn_id node) = Some j"
    and "kb_add now node (bs ! j) = (ok, b')"
  shows "tiles 0 N (bs[j := b'])" "\<forall>b \<in> set (bs[j := b']). kb_ok b"
    and "ids_of (bs[j := b']) = (if ok then insert (kn_id node) (ids_of bs) else ids_of bs)"
    and "\<not> ok \<Longrightarrow> kn_id node \<notin> bucket_ids (bs ! j)"
proof -
  have j: "j < length bs" "kb_in_range (bs ! j) (kn_id node)" using find_bucket_some [OF assms(3)] by auto
  have "kb_ok (bs ! j)" using assms(2) j by auto
  note add = kb_add_spec [OF this j(2) assms(4)]
  show "tiles 0 N (bs[j := b'])" using assms(1) j(1) add(2,3) by (rule tiles_update)
  show "\<forall>b \<in> set (bs[j := b']). kb_ok b"
    using assms(2) add(1) set_update_subset_insert [of bs j b'] by auto
  show "ids_of (bs[j := b']) = (if ok then insert (kn_id node) (ids_of bs) else ids_of bs)"
    using add(4) ids_of_split [OF j(1)] by (simp add: ids_of_update [OF j(1)])
  show "\<not> ok \<Longrightarrow> kn_id node \<notin> bucket_ids (bs ! j)" using add(5) by blast
qed

lemma known_ids_of: "known_ids t = ids_of (rt_buckets t)"
  by (simp add: known_ids_def ids_of_def)

lemma rt_inv_init: "rt_inv (rt_init now i)"
  by (simp add: rt_inv_def rt_init_def kb_new_def kb_ok_def bucket_size_def known_ids_def bucket_ids_def)

lemma rt_insert_spec:
  assumes "rt_inv t" "rt_insert clk node t = (ok, t')"
  shows "rt_inv t' \<and> rt_local t' = rt_local t
     \<and> known_ids t' = (if ok then insert (kn_id node) (known_ids t) else known_ids t)"
proof (cases "kn_id node = rt_local t \<or> find_bucket (rt_buckets t) (kn_id node) = None")
  case True
  then have "ok = False \<and> t' = t"
    using assms(2) by (cases "kn_id node = rt_local t") (simp_all add: rt_insert_def)
  then show ?thesis using assms(1) by simp
next
  case False
  then obtain i where new: "kn_id node \<noteq> rt_local t" and i: "find_bucket (rt_buckets t) (kn_id node) = Some i" by auto
  let ?bs = "rt_buckets t"
  have inv: "tiles 0 (2 ^ id_bits) ?bs" "\<forall>b \<in> set ?bs. kb_ok b" "rt_local t \<notin> ids_of ?bs"
    using assms(1) by (auto simp: rt_inv_def known_ids_of)
  obtain ok1 b where b: "kb_add (clk 0) node (?bs ! i) = (ok1, b)" by (cases "kb_add (clk 0) node (?bs ! i)")
  note at = insert_at_spec [OF inv(1,2) i b]
  have len: "i < length ?bs" and rng: "kb_in_range (?bs ! i) (kn_id node)" using find_bucket_some [OF i] by auto
  have okb: "kb_ok (?bs ! i)" using inv(2) len by auto
  note add = kb_add_spec [OF okb rng b]
  let ?split = "kb_start b \<le> be_decode (rt_local t) \<and> be_decode (rt_local t) \<le> kb_end b \<and> kb_end b - kb_start b > 1"
  show ?thesis
  proof (cases "ok1 \<or> \<not> ?split")
    case True
    then have "ok = ok1" "t' = t\<lparr>rt_buckets := ?bs[i := b]\<rparr>"
      using assms(2) False i b by (auto simp: rt_insert_def Let_def split: if_splits)
    then show ?thesis using at inv new by (auto simp: rt_inv_def known_ids_of)
  next
    case split: False
    obtain l r where lr: "kb_split (clk 1) (clk 2) b = (l, r)" by (cases "kb_split (clk 1) (clk 2) b")
    have gap: "kb_end b - kb_start b > 1" using split by simp
    note sp = kb_split_spec [OF add(1) gap lr]
    let ?cs = "take i ?bs @ [l, r] @ drop (Suc i) ?bs"
    have "tiles (kb_start (?bs ! i)) (Suc (kb_end (?bs ! i))) [l, r]"
      using sp(4) [OF add(2)] unfolding add(3) .
    then have tiles: "tiles 0 (2 ^ id_bits) ?cs" by (rule tiles_splice [OF inv(1) len])
    have oks: "\<forall>b \<in> set ?cs. kb_ok b"
      using sp(1,2) inv(2) by (auto dest: in_set_takeD in_set_dropD)
    have "bucket_ids l \<union> bucket_ids r = bucket_ids (?bs ! i)" using sp(3) add(4) split by simp
    then have ids: "ids_of ?cs = ids_of ?bs" unfolding ids_of_split [OF len] by auto
    note cs = tiles oks ids
    show ?thesis
    proof (cases "find_bucket ?cs (kn_id node)")
      case None
      then have "ok = False" "t' = t\<lparr>rt_buckets := ?cs\<rparr>"
        using assms(2) False i b lr split by (auto simp: rt_insert_def Let_def)
      then show ?thesis using cs inv(3) by (simp add: rt_inv_def known_ids_of)
    next
      case (Some j)
      obtain ok2 b2 where b2: "kb_add (clk 3) node (?cs ! j) = (ok2, b2)" by (cases "kb_add (clk 3) node (?cs ! j)")
      note at2 = insert_at_spec [OF cs(1,2) Some b2]
      have "ok = ok2" "t' = t\<lparr>rt_buckets := ?cs[j := b2]\<rparr>"
        using assms(2) False i b lr split Some b2 by (auto simp: rt_insert_def Let_def)
      then show ?thesis using at2 cs(3) inv(3) new by (auto simp: rt_inv_def known_ids_of)
    qed
  qed
qed

lemma ok_in_range: "kb_ok b \<Longrightarrow> i \<in> bucket_ids b \<Longrightarrow> kb_in_range b i"
  by (auto simp: kb_ok_def bucket_ids_def)

lemma kb_remove_spec:
  "kb_ok b \<Longrightarrow> kb_ok (kb_remove i b) \<and> kb_start (kb_remove i b) = kb_start b \<and> kb_end (kb_remove i b) = kb_end b
     \<and> bucket_ids (kb_remove i b) = bucket_ids b - {i}"
  by (auto simp: kb_ok_def kb_remove_def kb_in_range_def bucket_ids_def set_delete AList.delete_eq
      intro: order_trans [OF length_filter_le])

lemma rt_remove_spec:
  assumes "rt_inv t"
  shows "rt_inv (rt_remove i t) \<and> known_ids (rt_remove i t) = known_ids t - {i}"
proof -
  let ?bs = "rt_buckets t"
  have inv: "tiles 0 (2 ^ id_bits) ?bs" "\<forall>b \<in> set ?bs. kb_ok b" "rt_local t \<notin> ids_of ?bs"
    using assms by (auto simp: rt_inv_def known_ids_of)
  show ?thesis
  proof (cases "find_bucket ?bs i")
    case None
    have "i \<notin> bucket_ids b" if "b \<in> set ?bs" for b
    proof
      assume "i \<in> bucket_ids b"
      then have "kb_in_range b i" using that inv(2) by (blast intro: ok_in_range)
      moreover have "kb_end b < 2 ^ id_bits" using tiles_bounds [OF inv(1) that] by simp
      ultimately have "\<exists>j. find_bucket ?bs i = Some j"
        by (intro find_bucket_total [OF inv(1)]) (auto simp: kb_in_range_def)
      then show False using None by simp
    qed
    then have "i \<notin> known_ids t" by (auto simp: known_ids_def)
    then show ?thesis using None assms by (simp add: rt_remove_def)
  next
    case (Some j)
    have j: "j < length ?bs" using find_bucket_some [OF Some] by simp
    have elsewhere: "i \<notin> bucket_ids (?bs ! k)" if "k < length ?bs" "k \<noteq> j" for k
      using find_bucket_unique [OF inv(1) Some that(1)] that ok_in_range inv(2) nth_mem by blast
    have rest: "i \<notin> ids_of (take j ?bs)" "i \<notin> ids_of (drop (Suc j) ?bs)"
      using elsewhere j by (auto simp: ids_of_def in_set_conv_nth)
    have rem: "kb_ok (kb_remove i (?bs ! j))" "kb_start (kb_remove i (?bs ! j)) = kb_start (?bs ! j)"
        "kb_end (kb_remove i (?bs ! j)) = kb_end (?bs ! j)" "bucket_ids (kb_remove i (?bs ! j)) = bucket_ids (?bs ! j) - {i}"
      using kb_remove_spec [of "?bs ! j" i] inv(2) j by auto
    have t': "rt_remove i t = t\<lparr>rt_buckets := ?bs[j := kb_remove i (?bs ! j)]\<rparr>" using Some by (simp add: rt_remove_def)
    have ids: "known_ids (rt_remove i t) = known_ids t - {i}"
      unfolding known_ids_of t' using rest rem(4) ids_of_split [OF j] by (auto simp: ids_of_update [OF j])
    moreover have "tiles 0 (2 ^ id_bits) (?bs[j := kb_remove i (?bs ! j)])" using inv(1) j rem(2,3) by (rule tiles_update)
    moreover have "\<forall>b \<in> set (?bs[j := kb_remove i (?bs ! j)]). kb_ok b"
      using inv(2) rem(1) set_update_subset_insert [of ?bs j] by blast
    ultimately show ?thesis using inv(3) by (simp add: rt_inv_def t' known_ids_of)
  qed
qed

lemma all_nodes_ids:
  assumes "rt_inv t"
  shows "kn_id ` set (all_nodes t) = known_ids t"
proof -
  have "kn_id ` set (map snd (kb_nodes b)) = bucket_ids b" if "b \<in> set (rt_buckets t)" for b
    using assms that by (force simp: rt_inv_def kb_ok_def bucket_ids_def image_iff)
  then show ?thesis by (auto simp: all_nodes_def known_ids_def image_UN)
qed

section \<open>Properties\<close>

text \<open>C21: the routing table stays well formed and knows exactly the inserted nodes. Its buckets always tile the
  160-bit space, hold at most twenty nodes each, every node in its own bucket, and never the local
  node. An insertion adds the identifier when it reports success and otherwise changes no
  membership (splitting a bucket loses no node); a removal deletes exactly its identifier.\<close>

theorem routing_table_exact:
  assumes "rt_inv t"
  shows "(\<forall>ok t'. rt_insert clk node t = (ok, t') \<longrightarrow> rt_inv t'
            \<and> known_ids t' = (if ok then insert (kn_id node) (known_ids t) else known_ids t))
     \<and> rt_inv (rt_remove i t) \<and> known_ids (rt_remove i t) = known_ids t - {i}"
  using rt_insert_spec [OF assms] rt_remove_spec [OF assms] by blast

definition demo_node :: knode where
  "demo_node = \<lparr>kn_id = [7], kn_ip = ''10.0.0.1'', kn_port = 4000, kn_tcp_port = 0\<rparr>"

theorem routing_table_exact_witness:
  "known_ids (snd (rt_insert (\<lambda>_. 0) demo_node (rt_init (0::rat) [1]))) = {[7]}"
proof -
  let ?t = "rt_init (0::rat) [1]"
  have "be_decode [7] = 7" by (simp add: be_decode_def)
  then have "fst (rt_insert (\<lambda>_. 0) demo_node ?t)"
    by (simp add: rt_insert_def rt_init_def kb_new_def kb_in_range_def kb_add_def kb_is_full_def demo_node_def
        bucket_size_def id_bits_def)
  moreover have "known_ids ?t = {}" by (simp add: known_ids_def rt_init_def kb_new_def bucket_ids_def)
  moreover have "known_ids (snd (rt_insert (\<lambda>_. 0) demo_node ?t))
      = (if fst (rt_insert (\<lambda>_. 0) demo_node ?t) then insert (kn_id demo_node) (known_ids ?t) else known_ids ?t)"
    by (rule routing_table_exact [OF rt_inv_init, THEN conjunct1, rule_format, OF surjective_pairing, THEN conjunct2])
  ultimately show ?thesis by (simp add: demo_node_def)
qed

text \<open>Nearest-node queries are exact. The result has as many nodes as asked for while the table has them,
  is ordered by XOR distance to the target, consists of known nodes, and no known node left out
  is closer than one returned.\<close>

theorem find_nearest_exact:
  assumes "0 \<le> cnt"
  shows "length (find_nearest target cnt t) = min (nat cnt) (length (all_nodes t))
     \<and> sorted (map (\<lambda>n. xor_distance (kn_id n) target) (find_nearest target cnt t))
     \<and> set (find_nearest target cnt t) \<subseteq> set (all_nodes t)
     \<and> (\<forall>n \<in> set (find_nearest target cnt t). \<forall>m \<in> set (all_nodes t) - set (find_nearest target cnt t).
          distance_to n target \<le> distance_to m target)"
proof -
  let ?d = "\<lambda>n. xor_distance (kn_id n) target"
  let ?s = "sort_key ?d (all_nodes t)"
  have near: "find_nearest target cnt t = take (nat cnt) ?s"
    using assms by (simp add: find_nearest_def py_take_def)
  have srt: "sorted (map ?d (take (nat cnt) ?s @ drop (nat cnt) ?s))" by simp
  have mem: "m \<in> set (drop (nat cnt) ?s)" if "m \<in> set (all_nodes t)" "m \<notin> set (take (nat cnt) ?s)" for m
  proof -
    have "m \<in> set (take (nat cnt) ?s @ drop (nat cnt) ?s)" using that(1) by simp
    then show ?thesis using that(2) unfolding set_append by blast
  qed
  have "\<forall>n \<in> set (take (nat cnt) ?s). \<forall>m \<in> set (drop (nat cnt) ?s). ?d n \<le> ?d m"
    using srt unfolding map_append sorted_append by auto
  moreover have "sorted (map ?d (take (nat cnt) ?s))" using srt unfolding map_append sorted_append by blast
  moreover have "set (take (nat cnt) ?s) \<subseteq> set (all_nodes t)" using set_take_subset [of "nat cnt" ?s] by simp
  ultimately show ?thesis unfolding near distance_to_def using mem by (auto simp: min.commute)
qed

theorem find_nearest_exact_witness:
  "length (find_nearest [3] 20 (rt_init (0::rat) [1])) = min 20 (length (all_nodes (rt_init (0::rat) [1])))"
  using find_nearest_exact [of 20 "[3]" "rt_init (0::rat) [1]"] by simp

end
