(* ===== verification/DhtStore.thy ===== *)
theory DhtStore
  imports Kademlia
begin

text \<open>
  Construction, local store, store tokens and request handlers of \<^verbatim>\<open>KademliaDHT\<close> in
  \<^verbatim>\<open>src/distllm/dist/p2p/kademlia_dht.py\<close>. A handler returns its reply, or the exception that the dispatcher
  turns into an error reply, together with the new state, since it may change the state before it
  raises. A missing string field of a request is the empty string, which the code treats alike; an
  expiry that \<^verbatim>\<open>int\<close> rejects is \<open>None\<close>. The two environment variables are arguments of the constructor.
\<close>

section \<open>State and requests\<close>

record dht =
  dh_local :: knode
  dh_k :: int
  dh_alpha :: int
  dh_secret :: string
  dh_allow :: bool
  dh_rt :: "rat rtable"
  dh_store :: "(string, byte list \<times> rat) dict"

definition dht_init ::
    "string \<Rightarrow> bool \<Rightarrow> rat \<Rightarrow> node_id \<Rightarrow> string \<Rightarrow> int \<Rightarrow> int \<Rightarrow> int \<Rightarrow> string option \<Rightarrow> bool option \<Rightarrow> py_error + dht" where
  "dht_init env_secret require_secret now nid host port k alpha shared allow =
     (let secret = (case shared of None \<Rightarrow> env_secret | Some s \<Rightarrow> s);
          allowed = (case allow of None \<Rightarrow> False | Some b \<Rightarrow> b)
      in if secret = '''' \<and> require_secret then Inl ConfigError
         else Inr \<lparr>dh_local = \<lparr>kn_id = nid, kn_ip = (if host \<noteq> ''0.0.0.0'' then host else ''127.0.0.1''),
                              kn_port = port, kn_tcp_port = 0\<rparr>,
                   dh_k = k, dh_alpha = alpha, dh_secret = secret, dh_allow = allowed, dh_rt = rt_init now nid, dh_store = []\<rparr>)"

record request =
  rq_sender :: string
  rq_key :: string
  rq_value :: string
  rq_target :: string
  rq_token :: string
  rq_expires :: "int option"

datatype reply =
    Pong string
  | Stored
  | NotStored string
  | Nodes "knode list"
  | Found string string

type_synonym addr = "string \<times> int"

text \<open>The block with which every handler starts: register the sender under the packet's source address.\<close>

definition register_sender :: "(nat \<Rightarrow> rat) \<Rightarrow> addr \<Rightarrow> string \<Rightarrow> dht \<Rightarrow> py_error option \<times> dht" where
  "register_sender clk addr sender d =
     (if sender = '''' then (None, d)
      else case from_hex sender of
             Inl e \<Rightarrow> (Some e, d)
           | Inr nid \<Rightarrow>
               (None, d\<lparr>dh_rt := snd (rt_insert clk
                  \<lparr>kn_id = nid, kn_ip = fst addr, kn_port = snd addr, kn_tcp_port = 0\<rparr> (dh_rt d))\<rparr>))"

definition handle_ping :: "(nat \<Rightarrow> rat) \<Rightarrow> addr \<Rightarrow> request \<Rightarrow> dht \<Rightarrow> (py_error + reply) \<times> dht" where
  "handle_ping clk addr m d =
     (case register_sender clk addr (rq_sender m) d of
        (Some e, d') \<Rightarrow> (Inl e, d')
      | (None, d') \<Rightarrow> (Inr (Pong (to_hex (kn_id (dh_local d)))), d'))"

section \<open>Store tokens\<close>

definition store_token_ttl :: int where "store_token_ttl = 300"

definition store_token_skew :: int where "store_token_skew = 300"

definition token_text :: "string \<Rightarrow> string \<Rightarrow> string \<Rightarrow> int \<Rightarrow> string" where
  "token_text node key value_hex expires = node @ ''|'' @ key @ ''|'' @ value_hex @ ''|'' @ dec_int expires"

definition make_store_token ::
    "(string \<Rightarrow> string \<Rightarrow> string) \<Rightarrow> dht \<Rightarrow> string \<Rightarrow> string \<Rightarrow> string \<Rightarrow> int \<Rightarrow> string" where
  "make_store_token mac d node key value_hex expires =
     (if dh_secret d = '''' then '''' else mac (dh_secret d) (token_text node key value_hex expires))"

text \<open>\<^verbatim>\<open>hmac.compare_digest\<close> raises for strings that are not ASCII.\<close>

definition verify_store_token ::
    "(string \<Rightarrow> string \<Rightarrow> string) \<Rightarrow> rat \<Rightarrow> dht \<Rightarrow> string \<Rightarrow> string \<Rightarrow> string \<Rightarrow> string \<Rightarrow> int option \<Rightarrow> py_error + bool" where
  "verify_store_token mac now d node key value_hex token expires =
     (if dh_secret d = '''' then Inr (dh_allow d)
      else case expires of
             None \<Rightarrow> Inr False
           | Some e \<Rightarrow>
               if e < \<lfloor>now\<rfloor> - store_token_skew \<or> e > \<lfloor>now\<rfloor> + store_token_skew then Inr False
               else if \<not> ascii token then Inl TypeError
               else Inr (make_store_token mac d node key value_hex e = token))"

section \<open>Local store and handlers\<close>

definition expire_time :: rat where "expire_time = 86400"

definition check_local_store :: "rat \<Rightarrow> string \<Rightarrow> dht \<Rightarrow> byte list option \<times> dht" where
  "check_local_store now key d =
     (case map_of (dh_store d) key of
        None \<Rightarrow> (None, d)
      | Some (value, expiry) \<Rightarrow>
          if now < expiry then (Some value, d)
          else (None, d\<lparr>dh_store := AList.delete key (dh_store d)\<rparr>))"

definition handle_store ::
    "(string \<Rightarrow> string \<Rightarrow> string) \<Rightarrow> (nat \<Rightarrow> rat) \<Rightarrow> rat \<Rightarrow> rat \<Rightarrow> addr \<Rightarrow> request \<Rightarrow> dht \<Rightarrow> (py_error + reply) \<times> dht" where
  "handle_store mac clk now now' addr m d =
     (case register_sender clk addr (rq_sender m) d of
        (Some e, d') \<Rightarrow> (Inl e, d')
      | (None, d') \<Rightarrow>
          if rq_key m = '''' \<or> rq_value m = '''' then (Inr (NotStored ''missing key or value''), d')
          else case verify_store_token mac now d' (rq_sender m) (rq_key m) (rq_value m) (rq_token m) (rq_expires m) of
                 Inl e \<Rightarrow> (Inl e, d')
               | Inr False \<Rightarrow> (Inr (NotStored ''invalid or expired store token''), d')
               | Inr True \<Rightarrow>
                   (case from_hex (rq_value m) of
                      Inl e \<Rightarrow> (Inl e, d')
                    | Inr bs \<Rightarrow> (Inr Stored, d'\<lparr>dh_store := AList.update (rq_key m) (bs, now' + expire_time) (dh_store d')\<rparr>)))"

definition handle_find_node :: "(nat \<Rightarrow> rat) \<Rightarrow> addr \<Rightarrow> request \<Rightarrow> dht \<Rightarrow> (py_error + reply) \<times> dht" where
  "handle_find_node clk addr m d =
     (case register_sender clk addr (rq_sender m) d of
        (Some e, d') \<Rightarrow> (Inl e, d')
      | (None, d') \<Rightarrow>
          if rq_target m = '''' then (Inr (Nodes []), d')
          else case from_hex (rq_target m) of
                 Inl e \<Rightarrow> (Inl e, d')
               | Inr target \<Rightarrow> (Inr (Nodes (find_nearest target (dh_k d') (dh_rt d'))), d'))"

definition handle_find_value ::
    "(string \<Rightarrow> node_id) \<Rightarrow> (nat \<Rightarrow> rat) \<Rightarrow> rat \<Rightarrow> addr \<Rightarrow> request \<Rightarrow> dht \<Rightarrow> (py_error + reply) \<times> dht" where
  "handle_find_value sha1 clk now addr m d =
     (case register_sender clk addr (rq_sender m) d of
        (Some e, d') \<Rightarrow> (Inl e, d')
      | (None, d') \<Rightarrow>
          (case check_local_store now (rq_key m) d' of
             (Some v, d'') \<Rightarrow> (Inr (Found (rq_key m) (to_hex v)), d'')
           | (None, d'') \<Rightarrow> (Inr (Nodes (find_nearest (sha1 (rq_key m)) (dh_k d'') (dh_rt d''))), d'')))"

text \<open>\<^verbatim>\<open>store\<close>: the local write and the requests sent to the nearest nodes.\<close>

definition dht_store ::
    "(string \<Rightarrow> string \<Rightarrow> string) \<Rightarrow> (string \<Rightarrow> node_id) \<Rightarrow> rat \<Rightarrow> rat \<Rightarrow> string \<Rightarrow> byte list \<Rightarrow> dht
       \<Rightarrow> (addr \<times> request) list \<times> dht" where
  "dht_store mac sha1 now now' key v d =
     (let d' = d\<lparr>dh_store := AList.update key (v, now + expire_time) (dh_store d)\<rparr>;
          nearest = find_nearest (sha1 key) (dh_k d) (dh_rt d);
          me = to_hex (kn_id (dh_local d));
          expires = \<lfloor>now'\<rfloor> + store_token_ttl;
          token = make_store_token mac d me key (to_hex v) expires;
          rq = \<lparr>rq_sender = me, rq_key = key, rq_value = to_hex v, rq_target = '''', rq_token = token, rq_expires = Some expires\<rparr>
      in (map (\<lambda>n. ((kn_ip n, kn_port n), rq)) (filter (\<lambda>n. kn_id n \<noteq> kn_id (dh_local d)) nearest), d'))"

section \<open>Token texts are unambiguous\<close>

lemma from_hex_chars: "from_hex s = Inr bs \<Longrightarrow> c \<in> set s \<Longrightarrow> c \<noteq> CHR ''|''"
  by (induction s arbitrary: bs rule: from_hex.induct)
    (auto simp: is_space_def hex_value_def Let_def split: if_splits option.splits sum.splits)

lemma from_hex_error: "from_hex s = Inl e \<Longrightarrow> e = ValueError"
  by (induction s rule: from_hex.induct) (auto split: if_splits option.splits sum.splits)

lemma first_field:
  assumes "CHR ''|'' \<notin> set a" "CHR ''|'' \<notin> set b" "a @ CHR ''|'' # r = b @ CHR ''|'' # s"
  shows "a = b \<and> r = s"
  using assms by (rule field_split)

lemma last_field:
  assumes "CHR ''|'' \<notin> set a" "CHR ''|'' \<notin> set b" "r @ CHR ''|'' # a = s @ CHR ''|'' # b"
  shows "a = b \<and> r = s"
proof -
  have "rev a @ CHR ''|'' # rev r = rev b @ CHR ''|'' # rev s"
    using arg_cong [OF assms(3), of rev] by simp
  then show ?thesis using first_field [of "rev a" "rev b" "rev r" "rev s"] assms(1,2) by simp
qed

lemma token_text_inj:
  assumes "token_text n k v e = token_text n' k' v' e'"
    and "CHR ''|'' \<notin> set n" "CHR ''|'' \<notin> set n'" "CHR ''|'' \<notin> set v" "CHR ''|'' \<notin> set v'"
  shows "n = n' \<and> k = k' \<and> v = v' \<and> e = e'"
proof -
  have "n = n' \<and> k @ ''|'' @ v @ ''|'' @ dec_int e = k' @ ''|'' @ v' @ ''|'' @ dec_int e'"
    using assms(1-3) by (intro first_field) (simp_all add: token_text_def)
  then have n: "n = n'" and r: "(k @ ''|'' @ v) @ CHR ''|'' # dec_int e = (k' @ ''|'' @ v') @ CHR ''|'' # dec_int e'" by simp_all
  have "dec_int e = dec_int e' \<and> k @ ''|'' @ v = k' @ ''|'' @ v'"
    using dec_int_chars r by (intro last_field) blast+
  then have "e = e'" and "k @ CHR ''|'' # v = k' @ CHR ''|'' # v'" using dec_int_inj by auto
  then show ?thesis using n last_field [of v v' k k'] assms(4,5) by simp
qed

lemma register_frame:
  "register_sender clk addr s d = (e, d') \<Longrightarrow>
     dh_store d' = dh_store d \<and> dh_secret d' = dh_secret d \<and> dh_allow d' = dh_allow d \<and> dh_k d' = dh_k d
     \<and> (e = None \<longrightarrow> CHR ''|'' \<notin> set s)"
  by (auto simp: register_sender_def dest: from_hex_chars split: if_splits sum.splits)

lemma handle_store_cases:
  assumes "handle_store mac clk now now' addr m d = (res, d')"
  shows "dh_store d' = dh_store d \<and> res \<noteq> Inr Stored
     \<or> (\<exists>bs. res = Inr Stored \<and> from_hex (rq_value m) = Inr bs \<and> CHR ''|'' \<notin> set (rq_sender m)
          \<and> dh_store d' = AList.update (rq_key m) (bs, now' + expire_time) (dh_store d)
          \<and> verify_store_token mac now d (rq_sender m) (rq_key m) (rq_value m) (rq_token m) (rq_expires m) = Inr True)"
proof -
  obtain e d1 where reg: "register_sender clk addr (rq_sender m) d = (e, d1)" by (cases "register_sender clk addr (rq_sender m) d")
  note frame = register_frame [OF reg]
  have same: "verify_store_token mac now d1 = verify_store_token mac now d"
    using frame by (simp add: fun_eq_iff verify_store_token_def make_store_token_def split: option.split)
  show ?thesis
    using assms frame by (auto simp: handle_store_def reg same split: option.splits if_splits sum.splits bool.splits)
qed

section \<open>Properties\<close>


text \<open>How long a token is good for. A token issued by \<^verbatim>\<open>store\<close> at time \<open>t\<close> is accepted by a node that shares
  the secret exactly while that node's clock reads between \<open>t\<close> and ten minutes later. So a receiver
  whose clock is even a second behind the sender's rejects a fresh token, where the constant's
  documentation allows five minutes of skew, and a token is accepted for twice its documented window.\<close>

theorem token_window:
  assumes "dh_secret d \<noteq> ''''" "dh_secret d' = dh_secret d"
    and "ascii (make_store_token mac d n k v (\<lfloor>t\<rfloor> + store_token_ttl))"
  shows "verify_store_token mac now d' n k v (make_store_token mac d n k v (\<lfloor>t\<rfloor> + store_token_ttl))
           (Some (\<lfloor>t\<rfloor> + store_token_ttl)) = Inr True
     \<longleftrightarrow> \<lfloor>t\<rfloor> \<le> \<lfloor>now\<rfloor> \<and> \<lfloor>now\<rfloor> \<le> \<lfloor>t\<rfloor> + 600"
  using assms by (auto simp: verify_store_token_def make_store_token_def store_token_ttl_def store_token_skew_def)

definition demo_dht :: dht where
  "demo_dht = projr (dht_init ''s'' True 0 [1] ''0.0.0.0'' 0 20 3 None None)"

definition demo_request :: request where
  "demo_request = \<lparr>rq_sender = '''', rq_key = ''k|x'', rq_value = ''00'', rq_target = '''',
     rq_token = token_text '''' ''k|x'' ''00'' 100, rq_expires = Some 100\<rparr>"

lemma demo_secret: "dh_secret demo_dht = ''s''"
  by (simp add: demo_dht_def dht_init_def Let_def)

lemma demo_ascii: "ascii (token_text '''' ''k|x'' ''00'' 100)"
  by (simp add: ascii_def token_text_def dec_int_def dec.simps)

lemma demo_stored: "fst (handle_store (\<lambda>s t. t) (\<lambda>_. 0) 0 0 (''a'', 1) demo_request demo_dht) = Inr Stored"
  using demo_ascii
  by (simp add: handle_store_def register_sender_def demo_request_def verify_store_token_def make_store_token_def
      demo_secret store_token_skew_def hex_value_def is_space_def)


theorem token_window_witness:
  "verify_store_token (\<lambda>s t. t) 0 demo_dht '''' ''k|x'' ''00''
      (make_store_token (\<lambda>s t. t) demo_dht '''' ''k|x'' ''00'' (\<lfloor>(- 200 :: rat)\<rfloor> + store_token_ttl))
      (Some (\<lfloor>(- 200 :: rat)\<rfloor> + store_token_ttl)) = Inr True"
  using token_window [of demo_dht demo_dht "\<lambda>s t. t" "''''" "''k|x''" "''00''" "- 200" 0] demo_ascii demo_secret
  by (simp add: make_store_token_def store_token_ttl_def)

end
