(* ===== verification/SplitBrain.thy ===== *)
theory SplitBrain
  imports Prelude Complex_Main
begin

text \<open>
  \<^verbatim>\<open>SplitBrainDetector\<close> of \<^verbatim>\<open>src/distllm/core/split_brain.py\<close>. Times are rationals; a reading of the clock is an
  input. The lock makes every method one atomic step, so a detector in use is a sequence of such steps:
  the step relation below lets them come in any order. Log and reason strings of a rejected request are
  reduced to the two kinds of reason.
\<close>

section \<open>The detector\<close>

record peer =
  pe_cluster_id :: string
  pe_last_heartbeat :: rat
  pe_failures :: int
  pe_alive :: bool
  pe_fence_token :: int

definition peer_new :: "string \<Rightarrow> bool \<Rightarrow> peer" where
  "peer_new c alive = \<lparr>pe_cluster_id = c, pe_last_heartbeat = 0, pe_failures = 0, pe_alive = alive, pe_fence_token = 0\<rparr>"

record detector =
  sb_cluster_id :: string
  sb_peers :: "(string, peer) dict"
  sb_quorum_size :: int
  sb_timeout :: rat
  sb_threshold :: int
  sb_fence_token :: int
  sb_partition :: bool
  sb_partition_peers :: "string list"

definition detector_init :: "string \<Rightarrow> string list \<Rightarrow> int \<Rightarrow> rat \<Rightarrow> int \<Rightarrow> detector" where
  "detector_init c pids q timeout threshold =
     \<lparr>sb_cluster_id = c, sb_peers = foldl (\<lambda>d p. AList.update p (peer_new p False) d) [] pids,
      sb_quorum_size = q, sb_timeout = timeout, sb_threshold = threshold, sb_fence_token = 0,
      sb_partition = False, sb_partition_peers = []\<rparr>"

text \<open>The peer, created alive when it is unknown, as the first lines of \<^verbatim>\<open>heartbeat\<close> and \<^verbatim>\<open>record_failure\<close> do.\<close>

definition peer_or_new :: "string \<Rightarrow> detector \<Rightarrow> peer" where
  "peer_or_new c d = (case map_of (sb_peers d) c of Some p \<Rightarrow> p | None \<Rightarrow> peer_new c True)"

text \<open>\<^verbatim>\<open>timestamp or time.time()\<close>: a missing or zero timestamp is replaced by the clock.\<close>

definition heartbeat :: "rat \<Rightarrow> string \<Rightarrow> rat option \<Rightarrow> detector \<Rightarrow> detector" where
  "heartbeat now c timestamp d =
     (let t = (case timestamp of None \<Rightarrow> now | Some t \<Rightarrow> if t = 0 then now else t);
          p = (peer_or_new c d)\<lparr>pe_last_heartbeat := t, pe_failures := 0, pe_alive := True\<rparr>
      in d\<lparr>sb_peers := AList.update c p (sb_peers d)\<rparr>)"

definition count_failure :: "int \<Rightarrow> peer \<Rightarrow> peer" where
  "count_failure threshold p =
     (let p' = p\<lparr>pe_failures := pe_failures p + 1\<rparr>
      in if pe_failures p' \<ge> threshold then p'\<lparr>pe_alive := False\<rparr> else p')"

definition record_failure :: "string \<Rightarrow> detector \<Rightarrow> detector" where
  "record_failure c d =
     d\<lparr>sb_peers := AList.update c (count_failure (sb_threshold d) (peer_or_new c d)) (sb_peers d)\<rparr>"

definition has_quorum :: "detector \<Rightarrow> int \<Rightarrow> bool" where
  "has_quorum d alive_peers \<longleftrightarrow> alive_peers + 1 \<ge> sb_quorum_size d"

definition get_alive_peers :: "detector \<Rightarrow> string list" where
  "get_alive_peers d = map fst (filter (\<lambda>(pid, p). pe_alive p) (sb_peers d))"

definition alive_count :: "detector \<Rightarrow> int" where
  "alive_count d = int (length (filter (\<lambda>(pid, p). pe_alive p) (sb_peers d)))"

text \<open>The body of the loop of \<^verbatim>\<open>check_partition\<close> for one peer.\<close>

definition check_peer :: "rat \<Rightarrow> detector \<Rightarrow> peer \<Rightarrow> peer" where
  "check_peer now d p =
     (if pe_last_heartbeat p > 0 \<and> now - pe_last_heartbeat p > sb_timeout d
      then count_failure (sb_threshold d) p else p)"

definition check_partition :: "rat \<Rightarrow> detector \<Rightarrow> bool \<times> detector" where
  "check_partition now d =
     (let peers = map (\<lambda>(pid, p). (pid, check_peer now d p)) (sb_peers d);
          alive = int (length (filter (\<lambda>(pid, p). pe_alive p) peers));
          partitioned = map fst (filter (\<lambda>(pid, p). \<not> pe_alive p) peers);
          detected = (\<not> has_quorum d alive)
      in (detected, d\<lparr>sb_peers := peers, sb_partition := detected, sb_partition_peers := partitioned\<rparr>))"

definition is_partitioned :: "detector \<Rightarrow> bool" where
  "is_partitioned d = sb_partition d"

definition get_partitioned_peers :: "detector \<Rightarrow> string list" where
  "get_partitioned_peers d = sb_partition_peers d"

definition get_fence_token :: "detector \<Rightarrow> int" where
  "get_fence_token d = sb_fence_token d"

definition increment_fence_token :: "detector \<Rightarrow> int \<times> detector" where
  "increment_fence_token d =
     (let d' = d\<lparr>sb_fence_token := sb_fence_token d + 1\<rparr> in (sb_fence_token d', d'))"

definition should_accept_request :: "int \<Rightarrow> detector \<Rightarrow> bool" where
  "should_accept_request token d \<longleftrightarrow> token \<ge> sb_fence_token d"

definition quorum_check :: "detector \<Rightarrow> bool" where
  "quorum_check d = has_quorum d (alive_count d)"

datatype verdict = Accepted | NoQuorum | StaleToken

definition fence_request :: "int \<Rightarrow> detector \<Rightarrow> bool \<times> verdict" where
  "fence_request token d =
     (if \<not> has_quorum d (alive_count d) then (False, NoQuorum)
      else if token < sb_fence_token d then (False, StaleToken)
      else (True, Accepted))"

section \<open>Detectors in use\<close>

inductive sb_step :: "detector \<Rightarrow> detector \<Rightarrow> bool" where
  heartbeat: "sb_step d (heartbeat now c ts d)"
| failure: "sb_step d (record_failure c d)"
| check: "sb_step d (snd (check_partition now d))"
| fence: "sb_step d (snd (increment_fence_token d))"

inductive sb_run :: "detector \<Rightarrow> detector \<Rightarrow> bool" where
  refl: "sb_run d d"
| step: "sb_run d e \<Longrightarrow> sb_step e f \<Longrightarrow> sb_run d f"

inductive_cases sb_stepE: "sb_step d e"

text \<open>What a run keeps: the configuration, well-formed peers under their own names.\<close>

definition sb_wf :: "detector \<Rightarrow> bool" where
  "sb_wf d \<longleftrightarrow> dict_wf (sb_peers d)"

lemma sb_step_frame:
  "sb_step d e \<Longrightarrow> sb_quorum_size e = sb_quorum_size d \<and> sb_cluster_id e = sb_cluster_id d
     \<and> sb_fence_token d \<le> sb_fence_token e"
  by (erule sb_stepE)
    (auto simp: heartbeat_def record_failure_def check_partition_def increment_fence_token_def Let_def)

lemma sb_run_frame:
  "sb_run d e \<Longrightarrow> sb_quorum_size e = sb_quorum_size d \<and> sb_cluster_id e = sb_cluster_id d
     \<and> sb_fence_token d \<le> sb_fence_token e"
  by (induction rule: sb_run.induct) (auto dest!: sb_step_frame)

lemma dict_wf_map_val: "dict_wf d \<Longrightarrow> dict_wf (map (\<lambda>(k, v). (k, f v)) d)"
  by (simp add: dict_wf_def comp_def case_prod_beta)

lemma sb_step_wf: "sb_step d e \<Longrightarrow> sb_wf d \<Longrightarrow> sb_wf e"
  by (erule sb_stepE)
    (auto simp: sb_wf_def heartbeat_def record_failure_def check_partition_def increment_fence_token_def Let_def
       intro: dict_wf_map_val)

lemma sb_run_wf: "sb_run d e \<Longrightarrow> sb_wf d \<Longrightarrow> sb_wf e"
  by (induction rule: sb_run.induct) (auto dest: sb_step_wf)

lemma sb_wf_init: "sb_wf (detector_init c pids q t f)"
proof -
  have "dict_wf (foldl (\<lambda>d p. AList.update p (peer_new p False) d) ps pids)" if "dict_wf ps" for ps
    using that by (induction pids arbitrary: ps) auto
  then show ?thesis by (simp add: sb_wf_def detector_init_def)
qed

lemma alive_count_card: "sb_wf d \<Longrightarrow> alive_count d = int (card (set (get_alive_peers d)))"
  using distinct_map_filter [of fst "sb_peers d"]
  by (simp add: sb_wf_def dict_wf_def alive_count_def get_alive_peers_def distinct_card del: set_map)

section \<open>Properties\<close>



text \<open>Fencing. Along every run the fencing token never decreases; once it has been incremented, a request
  with a token issued before is rejected for good, by both admission checks. (A token that
  is ahead of the current one is accepted, although the documentation asks for a match.)\<close>

theorem fencing_is_permanent:
  assumes "sb_run (snd (increment_fence_token d)) e" and "token \<le> get_fence_token d"
  shows "get_fence_token d < get_fence_token e \<and> \<not> should_accept_request token e \<and> \<not> fst (fence_request token e)
     \<and> should_accept_request (get_fence_token e + 1) e"
  using sb_run_frame [OF assms(1)] assms(2)
  by (auto simp: increment_fence_token_def get_fence_token_def should_accept_request_def fence_request_def)

theorem fencing_is_permanent_witness:
  "\<not> should_accept_request 0 (record_failure ''x'' (snd (increment_fence_token (detector_init ''a'' [] 1 30 3))))"
  using fencing_is_permanent [of "detector_init ''a'' [] 1 30 3"
      "record_failure ''x'' (snd (increment_fence_token (detector_init ''a'' [] 1 30 3)))" 0]
  by (auto simp: get_fence_token_def detector_init_def intro: sb_run.intros sb_step.intros)

text \<open>A reported failure can create quorum. A failed heartbeat of a cluster that is not yet known adds it as
  alive (unless one failure is already the threshold), so it counts towards quorum, and since it has
  no heartbeat time it never times out; the constructor's comment says that a peer must not vouch for
  quorum before its first heartbeat.\<close>

theorem failure_vouches_for_quorum:
  assumes "map_of (sb_peers d) c = None" "1 < sb_threshold d"
  shows "c \<in> set (get_alive_peers (record_failure c d))
     \<and> alive_count (record_failure c d) = alive_count d + 1
     \<and> c \<in> set (get_alive_peers (snd (check_partition now (record_failure c d))))"
proof -
  have p: "sb_peers (record_failure c d) = sb_peers d @ [(c, (peer_new c True)\<lparr>pe_failures := 1\<rparr>)]"
  proof -
    have "c \<notin> fst ` set (sb_peers d)" using assms(1) by (simp add: map_of_eq_None_iff)
    moreover have "count_failure (sb_threshold d) (peer_or_new c d) = (peer_new c True)\<lparr>pe_failures := 1\<rparr>"
      using assms by (simp add: peer_or_new_def count_failure_def peer_new_def del: map_of_eq_None_iff)
    ultimately show ?thesis by (simp add: record_failure_def update_new)
  qed
  show ?thesis
    by (auto simp: get_alive_peers_def alive_count_def check_partition_def check_peer_def p peer_new_def Let_def)
qed

theorem failure_vouches_for_quorum_witness:
  "quorum_check (record_failure ''x'' (detector_init ''a'' [''b''] 2 30 3)) \<and> \<not> quorum_check (detector_init ''a'' [''b''] 2 30 3)"
proof -
  have z: "alive_count (detector_init ''a'' [''b''] 2 30 3) = 0" by (simp add: alive_count_def detector_init_def peer_new_def)
  show ?thesis
    using failure_vouches_for_quorum [of "detector_init ''a'' [''b''] 2 30 3" "''x''" 0] z
    by (simp add: quorum_check_def has_quorum_def) (simp add: detector_init_def record_failure_def)
qed

end
