(* ===== verification/BlockPool.thy ===== *)
theory BlockPool
  imports Prelude Complex_Main "HOL-Library.Product_Lexorder"
begin

text \<open>
  \<^verbatim>\<open>Block\<close>, \<^verbatim>\<open>BlockTable\<close> and \<^verbatim>\<open>BlockPool\<close> of \<^verbatim>\<open>src/distllm/dist/block_pool.py\<close>: allocation, reference counting, growth and
  the swapping of blocks to host memory. The tensors of one block are one value of type \<open>'d\<close>, \<open>zero\<close> when
  fresh; a pool tensor is the list of its blocks. Compressed swap and FP8 storage are switched off. The
  outcome of a tensor allocation (it may run out of memory) and clock readings (rationals) are inputs.
  \<^verbatim>\<open>heapq\<close> keeps a list whose pops come in ascending order; it is a sorted list here.
\<close>

section \<open>Blocks and tables\<close>

record block =
  bl_id :: nat
  bl_num_tokens :: int
  bl_ref_count :: int
  bl_last_access :: rat

definition block_new :: "rat \<Rightarrow> nat \<Rightarrow> block" where
  "block_new now i = \<lparr>bl_id = i, bl_num_tokens = 0, bl_ref_count = 1, bl_last_access = now\<rparr>"

definition block_is_full :: "int \<Rightarrow> block \<Rightarrow> bool" where
  "block_is_full block_size b \<longleftrightarrow> bl_num_tokens b \<ge> block_size"

definition block_is_free :: "block \<Rightarrow> bool" where
  "block_is_free b \<longleftrightarrow> bl_ref_count b = 0"

record block_table =
  bt_request_id :: string
  bt_physical :: "nat list"
  bt_logical :: "(nat, nat) dict"
  bt_num_logical :: nat

definition append_block :: "nat \<Rightarrow> block_table \<Rightarrow> nat \<times> block_table" where
  "append_block phys t =
     (bt_num_logical t,
      t\<lparr>bt_logical := AList.update (bt_num_logical t) phys (bt_logical t),
        bt_physical := bt_physical t @ [phys], bt_num_logical := bt_num_logical t + 1\<rparr>)"

definition get_physical :: "nat \<Rightarrow> block_table \<Rightarrow> nat option" where
  "get_physical i t = map_of (bt_logical t) i"

definition total_capacity :: "nat \<Rightarrow> block_table \<Rightarrow> nat" where
  "total_capacity block_size t = bt_num_logical t * block_size"

section \<open>The pool\<close>

record 'd bpool =
  bp_block_size :: int
  bp_swap_to_cpu :: bool
  bp_max_swap :: int
  bp_auto_expand :: bool
  bp_eviction_watermark :: rat
  bp_restore_watermark :: rat
  bp_pools :: "'d list list"
  bp_boundaries :: "nat list"
  bp_num_blocks :: nat
  bp_free :: "nat list"
  bp_usage :: "(nat, block) dict"
  bp_swap :: "(nat, 'd) dict"
  bp_heap :: "(rat \<times> nat) list"
  bp_allocations :: nat
  bp_swaps :: nat
  bp_restores :: nat
  bp_expansions :: nat

text \<open>\<^verbatim>\<open>block_size & (block_size - 1) != 0\<close> on a positive size says that it is not a power of two.\<close>

definition bpool_init ::
    "'d \<Rightarrow> int \<Rightarrow> int \<Rightarrow> bool \<Rightarrow> int \<Rightarrow> bool \<Rightarrow> rat \<Rightarrow> rat \<Rightarrow> bool \<Rightarrow> py_error + 'd bpool" where
  "bpool_init zero num_blocks block_size swap max_swap expand ev_wm re_wm oom =
     (if num_blocks \<le> 0 then Inl ValueError
      else if block_size \<le> 0 \<or> and block_size (block_size - 1) \<noteq> 0 then Inl ValueError
      else if oom then Inl RuntimeError
      else let n = nat (max 1 (min num_blocks 64))
           in Inr \<lparr>bp_block_size = block_size, bp_swap_to_cpu = swap, bp_max_swap = max_swap, bp_auto_expand = expand,
                   bp_eviction_watermark = ev_wm, bp_restore_watermark = re_wm,
                   bp_pools = [replicate n zero], bp_boundaries = [n], bp_num_blocks = n, bp_free = [0..<n],
                   bp_usage = [], bp_swap = [], bp_heap = [], bp_allocations = 0, bp_swaps = 0, bp_restores = 0,
                   bp_expansions = 0\<rparr>)"

definition expand_pool :: "'d \<Rightarrow> bool \<Rightarrow> 'd bpool \<Rightarrow> bool \<times> 'd bpool" where
  "expand_pool zero oom p =
     (if \<not> bp_auto_expand p then (False, p)
      else if oom then (False, p)
      else let grow = max (bp_num_blocks p) 64; start = bp_num_blocks p
           in (True, p\<lparr>bp_pools := bp_pools p @ [replicate grow zero],
                       bp_boundaries := bp_boundaries p @ [start + grow],
                       bp_free := bp_free p @ [start..<start + grow],
                       bp_num_blocks := bp_num_blocks p + grow,
                       bp_expansions := bp_expansions p + 1\<rparr>))"

text \<open>\<^verbatim>\<open>_get_pool_and_offset\<close>: the loop over the boundaries, \<open>prev\<close> being the one before.\<close>

fun locate :: "nat \<Rightarrow> nat \<Rightarrow> nat list \<Rightarrow> nat \<Rightarrow> (nat \<times> nat) option" where
  "locate i prev [] b = None"
| "locate i prev (bd # bds) b =
     (if prev \<le> b \<and> b < bd then Some (i, b - prev) else locate (Suc i) bd bds b)"

definition get_pool_and_offset :: "nat \<Rightarrow> 'd bpool \<Rightarrow> py_error + nat \<times> nat" where
  "get_pool_and_offset b p = (case locate 0 0 (bp_boundaries p) b of None \<Rightarrow> Inl ValueError | Some x \<Rightarrow> Inr x)"

definition used_count :: "'d bpool \<Rightarrow> int" where
  "used_count p = int (bp_num_blocks p) - int (length (bp_free p))"

definition utilization :: "'d bpool \<Rightarrow> rat" where
  "utilization p = (if bp_num_blocks p > 0 then of_int (used_count p) / of_nat (bp_num_blocks p) else 0)"

section \<open>Swapping out\<close>

text \<open>Pop heap entries until one is current for a block in use.\<close>

fun pop_lru :: "(rat \<times> nat) list \<Rightarrow> (nat, block) dict \<Rightarrow> nat option \<times> (rat \<times> nat) list" where
  "pop_lru [] usage = (None, [])"
| "pop_lru ((t, b) # heap) usage =
     (case map_of usage b of
        Some blk \<Rightarrow> if bl_last_access blk = t then (Some b, heap) else pop_lru heap usage
      | None \<Rightarrow> pop_lru heap usage)"

definition swap_lru_block :: "'d bpool \<Rightarrow> (py_error + bool) \<times> 'd bpool" where
  "swap_lru_block p =
     (let (lru, heap) = pop_lru (bp_heap p) (bp_usage p); p = p\<lparr>bp_heap := heap\<rparr>
      in case lru of
           None \<Rightarrow> (Inr False, p)
         | Some b \<Rightarrow>
             if bp_max_swap p > 0 \<and> int (length (bp_swap p)) \<ge> bp_max_swap p then (Inr False, p)
             else case get_pool_and_offset b p of
                    Inl e \<Rightarrow> (Inl e, p)
                  | Inr (i, off) \<Rightarrow>
                      (Inr True, p\<lparr>bp_swap := AList.update b (bp_pools p ! i ! off) (bp_swap p),
                                   bp_swaps := bp_swaps p + 1,
                                   bp_usage := AList.delete b (bp_usage p),
                                   bp_free := bp_free p @ [b]\<rparr>))"

lemma swap_frees: "swap_lru_block p = (Inr True, p') \<Longrightarrow> bp_free p' \<noteq> []"
  by (auto simp: swap_lru_block_def Let_def case_prod_beta split: option.splits if_splits sum.splits)

text \<open>\<^verbatim>\<open>while used_count > target and not free_blocks\<close>\<close>

function evict_loop :: "int \<Rightarrow> 'd bpool \<Rightarrow> py_error option \<times> 'd bpool" where
  "evict_loop target p =
     (if used_count p > target \<and> bp_free p = []
      then case swap_lru_block p of
             (Inl e, p') \<Rightarrow> (Some e, p')
           | (Inr False, p') \<Rightarrow> (None, p')
           | (Inr True, p') \<Rightarrow> evict_loop target p'
      else (None, p))"
  by pat_completeness auto
termination
  by (relation "measure (\<lambda>(target, p). if bp_free p = [] then 1 else 0)") (auto dest!: swap_frees [OF sym])

declare evict_loop.simps [simp del]

section \<open>Allocation\<close>

text \<open>The first part of \<^verbatim>\<open>allocate_block\<close>: make sure there is a free block. \<open>Some\<close> is an early return or error.\<close>

definition make_room :: "'d \<Rightarrow> bool \<Rightarrow> 'd bpool \<Rightarrow> (py_error + nat option) option \<times> 'd bpool" where
  "make_room zero oom p =
     (if bp_free p \<noteq> [] then (None, p)
      else let (grown, p1) = (if bp_auto_expand p then expand_pool zero oom p else (False, p))
           in if grown then (None, p1)
              else if bp_swap_to_cpu p1
              then (case swap_lru_block p1 of
                      (Inl e, p2) \<Rightarrow> (Some (Inl e), p2)
                    | (Inr swapped, p2) \<Rightarrow> if \<not> swapped then (Some (Inr None), p2) else (None, p2))
              else (Some (Inr None), p1))"

definition take_free :: "rat \<Rightarrow> 'd bpool \<Rightarrow> nat \<times> 'd bpool" where
  "take_free now p =
     (let b = last (bp_free p)
      in (b, p\<lparr>bp_free := butlast (bp_free p),
               bp_usage := AList.update b (block_new now b) (bp_usage p),
               bp_heap := insort (now, b) (bp_heap p),
               bp_allocations := bp_allocations p + 1\<rparr>))"

definition allocate_block :: "'d \<Rightarrow> bool \<Rightarrow> rat \<Rightarrow> 'd bpool \<Rightarrow> (py_error + nat option) \<times> 'd bpool" where
  "allocate_block zero oom now p =
     (case make_room zero oom p of
        (Some r, p1) \<Rightarrow> (r, p1)
      | (None, p1) \<Rightarrow>
          let (b, p2) = take_free now p1
          in if bp_swap_to_cpu p2 \<and> utilization p2 > bp_eviction_watermark p2
             then (case evict_loop \<lfloor>of_nat (bp_num_blocks p2) * bp_restore_watermark p2\<rfloor> p2 of
                     (Some e, p3) \<Rightarrow> (Inl e, p3)
                   | (None, p3) \<Rightarrow> (Inr (Some b), p3))
             else (Inr (Some b), p2))"

definition free_block :: "nat \<Rightarrow> 'd bpool \<Rightarrow> 'd bpool" where
  "free_block b p =
     (case map_of (bp_usage p) b of
        None \<Rightarrow> p
      | Some blk \<Rightarrow>
          let blk' = blk\<lparr>bl_ref_count := bl_ref_count blk - 1\<rparr>
          in if block_is_free blk'
             then p\<lparr>bp_usage := AList.delete b (bp_usage p), bp_free := bp_free p @ [b]\<rparr>
             else p\<lparr>bp_usage := AList.update b blk' (bp_usage p)\<rparr>)"

definition free_blocks :: "nat list \<Rightarrow> 'd bpool \<Rightarrow> 'd bpool" where
  "free_blocks bs p = fold free_block bs p"

section \<open>Restoring\<close>

text \<open>\<^verbatim>\<open>list.remove\<close> takes out the first occurrence.\<close>

definition restore_block :: "rat \<Rightarrow> nat \<Rightarrow> 'd bpool \<Rightarrow> (py_error + bool) \<times> 'd bpool" where
  "restore_block now b p =
     (case map_of (bp_swap p) b of
        None \<Rightarrow> (Inr False, p)
      | Some entry \<Rightarrow>
          let p1 = p\<lparr>bp_swap := AList.delete b (bp_swap p)\<rparr>
          in case get_pool_and_offset b p1 of
               Inl e \<Rightarrow> (Inl e, p1)
             | Inr (i, off) \<Rightarrow>
                 (Inr True, p1\<lparr>bp_pools := (bp_pools p1)[i := (bp_pools p1 ! i)[off := entry]],
                               bp_restores := bp_restores p1 + 1,
                               bp_usage := AList.update b (block_new now b) (bp_usage p1),
                               bp_free := remove1 b (bp_free p1)\<rparr>))"

section \<open>Addressing\<close>

fun bounds :: "nat \<Rightarrow> nat list \<Rightarrow> nat list" where
  "bounds acc [] = []"
| "bounds acc (n # ns) = (acc + n) # bounds (acc + n) ns"

lemma bounds_append: "bounds acc (xs @ ys) = bounds acc xs @ bounds (acc + sum_list xs) ys"
  by (induction xs arbitrary: acc) (auto simp: add.assoc)

lemma locate_bounds:
  "acc \<le> b \<Longrightarrow> b < acc + length (concat ps) \<Longrightarrow>
     \<exists>j off. locate i acc (bounds acc (map length ps)) b = Some (i + j, off) \<and> j < length ps \<and> off < length (ps ! j)
       \<and> ps ! j ! off = concat ps ! (b - acc)
       \<and> (\<forall>x. concat (ps[j := (ps ! j)[off := x]]) = (concat ps)[b - acc := x])"
proof (induction ps arbitrary: i acc)
  case Nil
  then show ?case by simp
next
  case (Cons p ps)
  show ?case
  proof (cases "b < acc + length p")
    case True
    then have "locate i acc (bounds acc (map length (p # ps))) b = Some (i + 0, b - acc)" using Cons.prems by simp
    then show ?thesis using True Cons.prems
      by (intro exI [of _ 0] exI [of _ "b - acc"]) (auto simp: nth_append list_update_append)
  next
    case False
    then have "acc + length p \<le> b" "b < acc + length p + length (concat ps)" using Cons.prems by auto
    from Cons.IH [OF this, of "Suc i"] obtain j off where
      "locate (Suc i) (acc + length p) (bounds (acc + length p) (map length ps)) b = Some (Suc i + j, off)"
      "j < length ps" "off < length (ps ! j)" "ps ! j ! off = concat ps ! (b - (acc + length p))"
      "\<And>x. concat (ps[j := (ps ! j)[off := x]]) = (concat ps)[b - (acc + length p) := x]" by auto
    then show ?thesis using False Cons.prems
      by (intro exI [of _ "Suc j"] exI [of _ off]) (auto simp: nth_append list_update_append)
  qed
qed

text \<open>The memory as one array of blocks.\<close>

definition memory :: "'d bpool \<Rightarrow> 'd list" where
  "memory p = concat (bp_pools p)"

definition pools_ok :: "'d bpool \<Rightarrow> bool" where
  "pools_ok p \<longleftrightarrow> bp_boundaries p = bounds 0 (map length (bp_pools p)) \<and> bp_num_blocks p = length (memory p)"

lemma get_pool_and_offset_ok:
  assumes "pools_ok p" "b < bp_num_blocks p"
  obtains i off where "get_pool_and_offset b p = Inr (i, off)" "bp_pools p ! i ! off = memory p ! b"
    "i < length (bp_pools p)" "off < length (bp_pools p ! i)"
    "\<forall>x. concat ((bp_pools p)[i := (bp_pools p ! i)[off := x]]) = (memory p)[b := x]"
  using assms locate_bounds [of 0 b "bp_pools p" 0]
  by (auto simp: pools_ok_def memory_def get_pool_and_offset_def)

lemma map_length_update:
  "i < length ps \<Longrightarrow> map length (ps[i := (ps ! i)[off := x]]) = map length ps"
  by (metis length_list_update list_update_id map_update)

section \<open>Invariant\<close>

definition used :: "'d bpool \<Rightarrow> nat set" where
  "used p = fst ` set (bp_usage p)"

definition bp_inv :: "'d bpool \<Rightarrow> bool" where
  "bp_inv p \<longleftrightarrow> pools_ok p \<and> distinct (bp_free p) \<and> dict_wf (bp_usage p)
     \<and> set (bp_free p) \<inter> used p = {} \<and> set (bp_free p) \<union> used p = {..<bp_num_blocks p}
     \<and> fst ` set (bp_swap p) \<subseteq> {..<bp_num_blocks p}"

lemma keys_update_dict: "fst ` set (AList.update k v d) = insert k (fst ` set d)"
  by (simp add: dom_update)

lemma keys_delete_dict: "fst ` set (AList.delete k d) = fst ` set d - {k}"
  by (force simp: set_delete)

lemma pop_lru_used: "pop_lru heap usage = (Some b, heap') \<Longrightarrow> b \<in> fst ` set usage"
  by (induction heap usage rule: pop_lru.induct)
    (auto split: option.splits if_splits dest!: map_of_SomeD intro: rev_image_eqI)

lemma swap_lru_spec:
  assumes "bp_inv p" "swap_lru_block p = (r, p')"
  shows "bp_inv p'" and "\<exists>ok. r = Inr ok" and "memory p' = memory p" and "bp_num_blocks p' = bp_num_blocks p"
    and "r = Inr True \<Longrightarrow> \<exists>b. b \<in> used p \<and> used p' = used p - {b} \<and> bp_free p' = bp_free p @ [b]
           \<and> bp_swap p' = AList.update b (memory p ! b) (bp_swap p)"
    and "r = Inr False \<Longrightarrow> bp_free p' = bp_free p \<and> bp_usage p' = bp_usage p"
proof -
  obtain lru heap where pop: "pop_lru (bp_heap p) (bp_usage p) = (lru, heap)" by (cases "pop_lru (bp_heap p) (bp_usage p)")
  let ?p = "p\<lparr>bp_heap := heap\<rparr>"
  have invp: "bp_inv ?p" "memory ?p = memory p"
    using assms(1) by (auto simp: bp_inv_def used_def pools_ok_def memory_def)
  have "bp_inv p' \<and> (\<exists>ok. r = Inr ok) \<and> memory p' = memory p \<and> bp_num_blocks p' = bp_num_blocks p
    \<and> (r = Inr True \<longrightarrow> (\<exists>b. b \<in> used p \<and> used p' = used p - {b} \<and> bp_free p' = bp_free p @ [b]
         \<and> bp_swap p' = AList.update b (memory p ! b) (bp_swap p)))
    \<and> (r = Inr False \<longrightarrow> bp_free p' = bp_free p \<and> bp_usage p' = bp_usage p)"
  proof (cases "lru = None \<or> bp_max_swap p > 0 \<and> int (length (bp_swap p)) \<ge> bp_max_swap p")
    case True
    then have "r = Inr False" "p' = ?p"
      using assms(2) by (auto simp: swap_lru_block_def pop Let_def split: option.splits)
    then show ?thesis using invp by auto
  next
    case False
    then obtain b where b: "lru = Some b" by auto
    have mem: "b \<in> used p" using pop_lru_used pop b by (auto simp: used_def)
    then have lt: "b < bp_num_blocks ?p" using assms(1) by (auto simp: bp_inv_def)
    have ok: "pools_ok ?p" using invp(1) by (simp add: bp_inv_def)
    obtain i off where loc: "get_pool_and_offset b ?p = Inr (i, off)" "bp_pools ?p ! i ! off = memory ?p ! b"
      using get_pool_and_offset_ok [OF ok lt] by metis
    let ?q = "?p\<lparr>bp_swap := AList.update b (memory p ! b) (bp_swap p), bp_swaps := bp_swaps p + 1,
                 bp_usage := AList.delete b (bp_usage p), bp_free := bp_free p @ [b]\<rparr>"
    have q: "r = Inr True" "p' = ?q"
      using assms(2) False b loc invp(2) by (auto simp: swap_lru_block_def pop Let_def)
    have u: "used ?q = used p - {b}" by (simp add: used_def keys_delete_dict)
    have "bp_inv ?q"
      unfolding bp_inv_def u using assms(1) mem lt
      by (auto simp: bp_inv_def pools_ok_def memory_def keys_update_dict)
    then show ?thesis using q u mem by (auto simp: memory_def)
  qed
  then show "bp_inv p'" "\<exists>ok. r = Inr ok" "memory p' = memory p" "bp_num_blocks p' = bp_num_blocks p"
    "r = Inr True \<Longrightarrow> \<exists>b. b \<in> used p \<and> used p' = used p - {b} \<and> bp_free p' = bp_free p @ [b]
           \<and> bp_swap p' = AList.update b (memory p ! b) (bp_swap p)"
    "r = Inr False \<Longrightarrow> bp_free p' = bp_free p \<and> bp_usage p' = bp_usage p"
    by blast+
qed

lemma evict_loop_spec:
  assumes "bp_inv p" "evict_loop target p = (e, p')"
  shows "bp_inv p' \<and> e = None \<and> memory p' = memory p \<and> bp_num_blocks p' = bp_num_blocks p"
  using assms
proof (induction target p rule: evict_loop.induct)
  case (1 target p)
  show ?case
  proof (cases "used_count p > target \<and> bp_free p = []")
    case False
    then show ?thesis using 1 by (subst (asm) evict_loop.simps) auto
  next
    case True
    obtain r q where q: "swap_lru_block p = (r, q)" by (cases "swap_lru_block p")
    note sw = swap_lru_spec [OF 1(2) q]
    obtain ok where ok: "r = Inr ok" using sw(2) by blast
    show ?thesis
    proof (cases ok)
      case False
      then show ?thesis using True 1 q ok sw by (subst (asm) evict_loop.simps) auto
    next
      case ok': True
      then have "evict_loop target q = (e, p')" using True 1(3) q ok by (subst (asm) evict_loop.simps) auto
      then show ?thesis using 1(1) [OF True q [symmetric] _ _ sw(1)] ok ok' sw(3,4) by auto
    qed
  qed
qed

lemma expand_spec:
  assumes "bp_inv p" "expand_pool zero oom p = (ok, p')"
  shows "bp_inv p' \<and> used p' = used p \<and> bp_num_blocks p \<le> bp_num_blocks p'
     \<and> (ok \<longrightarrow> bp_free p' \<noteq> []) \<and> (\<not> ok \<longrightarrow> p' = p) \<and> (\<exists>xs. memory p' = memory p @ xs)"
proof (cases "bp_auto_expand p \<and> \<not> oom")
  case False
  then have "\<not> ok" "p' = p" using assms(2) by (auto simp: expand_pool_def split: if_splits)
  then show ?thesis using assms(1) by simp
next
  case True
  let ?g = "max (bp_num_blocks p) 64"
  let ?q = "p\<lparr>bp_pools := bp_pools p @ [replicate ?g zero], bp_boundaries := bp_boundaries p @ [bp_num_blocks p + ?g],
      bp_free := bp_free p @ [bp_num_blocks p..<bp_num_blocks p + ?g], bp_num_blocks := bp_num_blocks p + ?g,
      bp_expansions := bp_expansions p + 1\<rparr>"
  have q: "ok" "p' = ?q" using assms(2) True by (auto simp: expand_pool_def Let_def)
  have len: "sum_list (map length (bp_pools p)) = bp_num_blocks p"
    using assms(1) by (simp add: bp_inv_def pools_ok_def memory_def length_concat)
  have ok: "pools_ok ?q"
    using assms(1) len by (auto simp: bp_inv_def pools_ok_def memory_def bounds_append)
  have part: "set (bp_free p) \<inter> used p = {}" "set (bp_free p) \<union> used p = {..<bp_num_blocks p}"
    using assms(1) by (auto simp: bp_inv_def)
  have "set (bp_free ?q) \<union> used ?q = {..<bp_num_blocks p} \<union> {bp_num_blocks p..<bp_num_blocks p + ?g}"
    using part(2) by (auto simp: used_def)
  also have "\<dots> = {..<bp_num_blocks ?q}" by auto
  finally have cover: "set (bp_free ?q) \<union> used ?q = {..<bp_num_blocks ?q}" .
  have below: "x < bp_num_blocks p" if "x \<in> set (bp_free p) \<or> x \<in> used p" for x using that part(2) by blast
  have "bp_inv ?q"
    unfolding bp_inv_def
  proof (intro conjI)
    show "distinct (bp_free ?q)" using assms(1) below by (force simp: bp_inv_def)
    show "set (bp_free ?q) \<inter> used ?q = {}" using part(1) below by (fastforce simp: used_def)
  qed (use ok cover assms(1) in \<open>auto simp: bp_inv_def\<close>)
  then show ?thesis using q by (auto simp: used_def memory_def)
qed

lemma make_room_spec:
  assumes "bp_inv p" "make_room zero oom p = (r, p')"
  shows "bp_inv p' \<and> r \<in> {None, Some (Inr None)} \<and> (r = None \<longrightarrow> bp_free p' \<noteq> []) \<and> bp_num_blocks p \<le> bp_num_blocks p'
     \<and> (\<exists>xs. memory p' = memory p @ xs)"
proof (cases "bp_free p = []")
  case False
  then show ?thesis using assms by (simp add: make_room_def)
next
  case True
  obtain grown p1 where g: "(if bp_auto_expand p then expand_pool zero oom p else (False, p)) = (grown, p1)"
    by (cases "if bp_auto_expand p then expand_pool zero oom p else (False, p)")
  have p1: "bp_inv p1 \<and> bp_num_blocks p \<le> bp_num_blocks p1 \<and> (grown \<longrightarrow> bp_free p1 \<noteq> []) \<and> (\<exists>xs. memory p1 = memory p @ xs)"
    using expand_spec [of p zero oom grown p1] g assms(1) by (auto split: if_splits)
  show ?thesis
  proof (cases "grown \<or> \<not> bp_swap_to_cpu p1")
    case no_swap: True
    then have "p' = p1 \<and> r = (if grown then None else Some (Inr None))"
      using assms(2) True g by (auto simp: make_room_def Let_def)
    then show ?thesis using p1 by auto
  next
    case False
    obtain s p2 where s: "swap_lru_block p1 = (s, p2)" by (cases "swap_lru_block p1")
    have inv1: "bp_inv p1" using p1 by simp
    note sw = swap_lru_spec [OF inv1 s]
    obtain ok where ok: "s = Inr ok" using sw(2) by blast
    have "p' = p2 \<and> r = (if ok then None else Some (Inr None))"
      using assms(2) True g False s ok by (auto simp: make_room_def Let_def)
    moreover have "ok \<longrightarrow> bp_free p2 \<noteq> []" using swap_frees [of p1 p2] s ok by auto
    ultimately show ?thesis using p1 sw(1,3,4) by auto
  qed
qed

lemma take_free_spec:
  assumes "bp_inv p" "bp_free p \<noteq> []" "take_free now p = (b, p')"
  shows "bp_inv p' \<and> b < bp_num_blocks p \<and> bp_num_blocks p' = bp_num_blocks p \<and> memory p' = memory p
     \<and> b \<notin> used p \<and> used p' = insert b (used p)"
proof -
  obtain fs where fs: "bp_free p = fs @ [b]"
    using assms(2,3) by (auto simp: take_free_def Let_def) (metis append_butlast_last_id)
  let ?q = "p\<lparr>bp_free := fs, bp_usage := AList.update b (block_new now b) (bp_usage p), bp_heap := insort (now, b) (bp_heap p),
               bp_allocations := bp_allocations p + 1\<rparr>"
  have q: "p' = ?q" using assms(3) fs by (auto simp: take_free_def Let_def)
  have u: "used ?q = insert b (used p)" by (simp add: used_def keys_update_dict)
  have "bp_inv ?q"
    unfolding bp_inv_def u using assms(1) fs by (auto simp: bp_inv_def pools_ok_def memory_def)
  moreover have "b < bp_num_blocks p" "b \<notin> used p" using assms(1) fs by (auto simp: bp_inv_def)
  ultimately show ?thesis using q u by (simp add: memory_def)
qed

lemma allocate_spec:
  assumes "bp_inv p" "allocate_block zero oom now p = (r, p')"
  shows "bp_inv p' \<and> (r = Inr None \<or> (\<exists>b < bp_num_blocks p'. r = Inr (Some b))) \<and> (\<exists>xs. memory p' = memory p @ xs)"
proof -
  obtain early p1 where room: "make_room zero oom p = (early, p1)" by (cases "make_room zero oom p")
  note rm = make_room_spec [OF assms(1) room]
  show ?thesis
  proof (cases early)
    case (Some x)
    then show ?thesis using rm assms(2) room by (auto simp: allocate_block_def)
  next
    case None
    obtain b p2 where tk: "take_free now p1 = (b, p2)" by (cases "take_free now p1")
    have t: "bp_inv p2" "b < bp_num_blocks p2" "memory p2 = memory p1"
      using take_free_spec [of p1 now b p2] rm None tk by auto
    obtain e p3 where ev: "evict_loop \<lfloor>of_nat (bp_num_blocks p2) * bp_restore_watermark p2\<rfloor> p2 = (e, p3)"
      by (cases "evict_loop \<lfloor>of_nat (bp_num_blocks p2) * bp_restore_watermark p2\<rfloor> p2")
    have v: "bp_inv p3 \<and> e = None \<and> memory p3 = memory p2 \<and> bp_num_blocks p3 = bp_num_blocks p2"
      by (rule evict_loop_spec [OF t(1) ev])
    show ?thesis using assms(2) room None tk t v rm by (auto simp: allocate_block_def ev split: if_splits)
  qed
qed

lemma free_block_inv: "bp_inv p \<Longrightarrow> bp_inv (free_block b p)"
proof -
  assume inv: "bp_inv p"
  show ?thesis
  proof (cases "map_of (bp_usage p) b")
    case None
    then show ?thesis using inv by (simp add: free_block_def)
  next
    case (Some blk)
    then have mem: "b \<in> used p" by (force simp: used_def dest: map_of_SomeD)
    let ?blk = "blk\<lparr>bl_ref_count := bl_ref_count blk - 1\<rparr>"
    show ?thesis
    proof (cases "block_is_free ?blk")
      case True
      let ?q = "p\<lparr>bp_usage := AList.delete b (bp_usage p), bp_free := bp_free p @ [b]\<rparr>"
      have u: "used ?q = used p - {b}" by (simp add: used_def keys_delete_dict)
      have "bp_inv ?q" unfolding bp_inv_def u using inv mem by (auto simp: bp_inv_def pools_ok_def memory_def)
      then show ?thesis using True Some by (simp add: free_block_def Let_def)
    next
      case False
      let ?q = "p\<lparr>bp_usage := AList.update b ?blk (bp_usage p)\<rparr>"
      have u: "used ?q = used p" using mem by (auto simp: used_def keys_update_dict)
      have "bp_inv ?q" unfolding bp_inv_def u using inv by (auto simp: bp_inv_def pools_ok_def memory_def)
      then show ?thesis using False Some by (simp add: free_block_def Let_def)
    qed
  qed
qed

lemma free_blocks_inv: "bp_inv p \<Longrightarrow> bp_inv (free_blocks bs p)"
  unfolding free_blocks_def by (induction bs arbitrary: p) (auto intro: free_block_inv)

lemma restore_spec:
  assumes "bp_inv p" "restore_block now b p = (r, p')"
  shows "bp_inv p' \<and> (r = Inr False \<and> p' = p \<or> (\<exists>entry. map_of (bp_swap p) b = Some entry \<and> r = Inr True
     \<and> memory p' = (memory p)[b := entry] \<and> used p' = insert b (used p) \<and> bp_num_blocks p' = bp_num_blocks p))"
proof (cases "map_of (bp_swap p) b")
  case None
  then show ?thesis using assms by (simp add: restore_block_def)
next
  case (Some entry)
  then have lt: "b < bp_num_blocks p" using assms(1) by (force simp: bp_inv_def dest: map_of_SomeD)
  let ?p1 = "p\<lparr>bp_swap := AList.delete b (bp_swap p)\<rparr>"
  have ok: "pools_ok ?p1" "b < bp_num_blocks ?p1" using assms(1) lt by (auto simp: bp_inv_def pools_ok_def memory_def)
  obtain i off where loc: "get_pool_and_offset b ?p1 = Inr (i, off)" "bp_pools ?p1 ! i ! off = memory ?p1 ! b"
      "i < length (bp_pools ?p1)" "off < length (bp_pools ?p1 ! i)"
      "\<forall>x. concat ((bp_pools ?p1)[i := (bp_pools ?p1 ! i)[off := x]]) = (memory ?p1)[b := x]"
    by (rule get_pool_and_offset_ok [OF ok])
  let ?q = "?p1\<lparr>bp_pools := (bp_pools p)[i := (bp_pools p ! i)[off := entry]], bp_restores := bp_restores p + 1,
      bp_usage := AList.update b (block_new now b) (bp_usage p), bp_free := remove1 b (bp_free p)\<rparr>"
  have q: "r = Inr True" "p' = ?q" using assms(2) Some loc(1) by (auto simp: restore_block_def Let_def)
  have u: "used ?q = insert b (used p)" by (simp add: used_def keys_update_dict)
  have mem: "memory ?q = (memory p)[b := entry]" using loc(5) by (simp add: memory_def)
  have pools: "pools_ok ?q"
    using assms(1) mem map_length_update [of i "bp_pools p" off entry] loc(3) by (simp add: bp_inv_def pools_ok_def)
  have fr: "distinct (bp_free p)" using assms(1) by (simp add: bp_inv_def)
  have "bp_inv ?q"
    unfolding bp_inv_def u
  proof (intro conjI)
    show "set (bp_free ?q) \<inter> insert b (used p) = {}" "set (bp_free ?q) \<union> insert b (used p) = {..<bp_num_blocks ?q}"
      using assms(1) lt fr by (auto simp: bp_inv_def set_remove1_eq)
    show "fst ` set (bp_swap ?q) \<subseteq> {..<bp_num_blocks ?q}" using assms(1) by (auto simp: bp_inv_def keys_delete_dict set_delete)
  qed (use pools fr assms(1) in \<open>auto simp: bp_inv_def\<close>)
  then show ?thesis using Some q u mem by simp
qed

section \<open>Properties\<close>

text \<open>C24: every block is either free or in use. Allocation, with or without growth and swapping, release,
  and restoration keep the free list free of duplicates, disjoint from the blocks in use and together
  with them equal to all blocks of the pool; addressing never fails; allocation returns a block of
  the pool or nothing, never an error, and changes no stored contents.\<close>

theorem blocks_partitioned:
  assumes "bp_inv p"
  shows "(\<forall>r p'. allocate_block zero oom now p = (r, p') \<longrightarrow>
            bp_inv p' \<and> (r = Inr None \<or> (\<exists>b < bp_num_blocks p'. r = Inr (Some b))) \<and> (\<exists>xs. memory p' = memory p @ xs))
     \<and> bp_inv (free_block b p) \<and> bp_inv (free_blocks bs p)
     \<and> (\<forall>r p'. restore_block now b p = (r, p') \<longrightarrow> bp_inv p' \<and> (\<exists>ok. r = Inr ok))"
  using allocate_spec [OF assms] restore_spec [OF assms] free_block_inv [OF assms] free_blocks_inv [OF assms] by blast

lemma bpool_init_inv:
  assumes "bpool_init zero n bs sw ms ex ew rw oom = Inr p"
  shows "bp_inv p"
proof -
  let ?n = "nat (max 1 (min n 64))"
  have "bp_pools p = [replicate ?n zero]" "bp_boundaries p = [?n]" "bp_num_blocks p = ?n" "bp_free p = [0..<?n]"
      "bp_usage p = []" "bp_swap p = []"
    using assms by (auto simp: bpool_init_def Let_def split: if_splits)
  then show ?thesis by (auto simp: bp_inv_def pools_ok_def memory_def used_def)
qed

text \<open>A pool of one block with swapping, without growth, and with the default watermarks.\<close>

definition one_block :: "nat bpool" where
  "one_block = projr (bpool_init 0 1 16 True 0 False (17 / 20) (7 / 10) False)"

lemma one_block: "bpool_init 0 1 16 True 0 False (17 / 20) (7 / 10) False = Inr one_block"
  by (simp add: one_block_def bpool_init_def)

theorem blocks_partitioned_witness:
  "\<exists>r p'. allocate_block 0 False 5 one_block = (r, p') \<and> bp_inv p'"
proof -
  obtain r p' where run: "allocate_block 0 False 5 one_block = (r, p')" by (cases "allocate_block 0 False 5 one_block")
  show ?thesis
    using blocks_partitioned [OF bpool_init_inv [OF one_block], of 0 False 5] run by blast
qed

text \<open>Allocation can return a block that is free. When the pool is above its eviction watermark after an
  allocation, the least recently used block is swapped out, and that may be the block just
  allocated: the caller receives a block that is on the free list and not in use, and the next caller
  receives the same one.\<close>

theorem allocate_returns_freed_block:
  "let (r1, p1) = allocate_block 0 False 1 one_block; (r2, p2) = allocate_block 0 False 2 p1
   in r1 = Inr (Some 0) \<and> bp_free p1 = [0] \<and> bp_usage p1 = [] \<and> r2 = Inr (Some 0)"
  by (simp add: one_block_def bpool_init_def allocate_block_def make_room_def take_free_def utilization_def used_count_def
      evict_loop.simps swap_lru_block_def get_pool_and_offset_def block_new_def Let_def)

text \<open>Restoring a block can overwrite another owner's data. A swapped-out block is on the free list, so it
  may be allocated again; restoring it then replaces the contents written by the new owner by the old
  ones and resets the block's reference count, with success reported.\<close>

theorem restore_overwrites_reallocated:
  assumes "bp_inv p" "b \<in> used p" "map_of (bp_swap p) b = Some old" "restore_block now b p = (r, p')"
  shows "r = Inr True \<and> memory p' ! b = old \<and> map_of (bp_usage p') b = Some (block_new now b)"
proof -
  have lt: "b < length (memory p)" using assms(1,2) by (auto simp: bp_inv_def pools_ok_def)
  have "r \<noteq> Inr False" using assms(3,4) by (auto simp: restore_block_def Let_def split: sum.splits)
  then have "r = Inr True \<and> memory p' = (memory p)[b := old]" using restore_spec [OF assms(1,4)] assms(3) by auto
  moreover have "map_of (bp_usage p') b = Some (block_new now b)"
    using assms(3,4) calculation by (auto simp: restore_block_def Let_def split: sum.splits)
  ultimately show ?thesis using lt by simp
qed

text \<open>Two allocations of the one block, with eviction only on demand, and a write by the second owner.\<close>

definition swap_pool :: "nat bpool" where
  "swap_pool = projr (bpool_init 0 1 16 True 0 False 1 1 False)"

definition reallocated :: "nat bpool" where
  "reallocated = (snd (allocate_block 0 False 2 (snd (allocate_block 0 False 1 swap_pool))))\<lparr>bp_pools := [[7]]\<rparr>"

theorem restore_overwrites_reallocated_witness:
  "memory reallocated = [7] \<and> memory (snd (restore_block 3 0 reallocated)) ! 0 = 0"
proof -
  have r: "reallocated = \<lparr>bp_block_size = 16, bp_swap_to_cpu = True, bp_max_swap = 0, bp_auto_expand = False,
      bp_eviction_watermark = 1, bp_restore_watermark = 1, bp_pools = [[7]], bp_boundaries = [1], bp_num_blocks = 1,
      bp_free = [], bp_usage = [(0, block_new 2 0)], bp_swap = [(0, 0)], bp_heap = [(2, 0)], bp_allocations = 2,
      bp_swaps = 1, bp_restores = 0, bp_expansions = 0\<rparr>"
    by (simp add: reallocated_def swap_pool_def bpool_init_def allocate_block_def make_room_def take_free_def utilization_def
        used_count_def evict_loop.simps swap_lru_block_def get_pool_and_offset_def block_new_def Let_def)
  have "bp_inv reallocated" "0 \<in> used reallocated" "map_of (bp_swap reallocated) 0 = Some 0"
    by (auto simp: r bp_inv_def pools_ok_def memory_def used_def dict_wf_def)
  from restore_overwrites_reallocated [OF this surjective_pairing, of 3]
  show ?thesis by (simp add: r memory_def)
qed

end
