(* ===== verification/Heapq.thy ===== *)
theory Heapq
  imports Prelude "HOL-Library.Multiset"
begin

text \<open>
  The operations of Python's \<^verbatim>\<open>heapq\<close> module that the schedulers use, on the array itself, because the
  callers also read and edit it by index. Comparing two items may raise: two tuples that agree on their
  keys are compared on their last component, which need not be ordered. The comparison is an argument
  \<open>lt\<close>, and an operation returns the array it leaves behind also when it raises. The locale \<open>key_order\<close>
  is the contract of a comparison by keys; the facts that clients use are proved in it once.
\<close>

section \<open>Operations\<close>

definition swap_at :: "nat \<Rightarrow> nat \<Rightarrow> 'a list \<Rightarrow> 'a list" where
  "swap_at i j h = h[i := h ! j, j := h ! i]"

lemma length_swap_at [simp]: "length (swap_at i j h) = length h"
  by (simp add: swap_at_def)

lemma nth_swap_at:
  "i < length h \<Longrightarrow> j < length h \<Longrightarrow> swap_at i j h ! k = (if k = j then h ! i else if k = i then h ! j else h ! k)"
  by (auto simp: swap_at_def nth_list_update)

lemma mset_swap_at: "i < length h \<Longrightarrow> j < length h \<Longrightarrow> mset (swap_at i j h) = mset h"
  by (simp add: swap_at_def mset_swap)

text \<open>Move the item at \<open>pos\<close> towards \<open>start\<close> while it is smaller than its parent.\<close>

function siftdown :: "('a \<Rightarrow> 'a \<Rightarrow> py_error + bool) \<Rightarrow> nat \<Rightarrow> nat \<Rightarrow> 'a list \<Rightarrow> py_error option \<times> 'a list" where
  "siftdown lt start pos h =
     (if pos \<le> start then (None, h)
      else case lt (h ! pos) (h ! ((pos - 1) div 2)) of
             Inl e \<Rightarrow> (Some e, h)
           | Inr smaller \<Rightarrow>
               if smaller then siftdown lt start ((pos - 1) div 2) (swap_at ((pos - 1) div 2) pos h) else (None, h))"
  by pat_completeness auto
termination by (relation "measure (\<lambda>(lt, start, pos, h). pos)") auto

declare siftdown.simps [simp del]

text \<open>Move the item at \<open>pos\<close> down to a leaf, always past the smaller child.\<close>

function sink :: "('a \<Rightarrow> 'a \<Rightarrow> py_error + bool) \<Rightarrow> nat \<Rightarrow> 'a list \<Rightarrow> (py_error + nat) \<times> 'a list" where
  "sink lt pos h =
     (if pos < length h div 2
      then case (if 2 * pos + 2 < length h then lt (h ! (2 * pos + 1)) (h ! (2 * pos + 2)) else Inr True) of
             Inl e \<Rightarrow> (Inl e, h)
           | Inr smaller \<Rightarrow>
               let c = (if smaller then 2 * pos + 1 else 2 * pos + 2) in sink lt c (swap_at pos c h)
      else (Inr pos, h))"
  by pat_completeness auto
termination by (relation "measure (\<lambda>(lt, pos, h). length h - pos)") auto

declare sink.simps [simp del]

definition siftup :: "('a \<Rightarrow> 'a \<Rightarrow> py_error + bool) \<Rightarrow> nat \<Rightarrow> 'a list \<Rightarrow> py_error option \<times> 'a list" where
  "siftup lt pos h =
     (case sink lt pos h of (Inl e, h') \<Rightarrow> (Some e, h') | (Inr leaf, h') \<Rightarrow> siftdown lt pos leaf h')"

definition heappush :: "('a \<Rightarrow> 'a \<Rightarrow> py_error + bool) \<Rightarrow> 'a \<Rightarrow> 'a list \<Rightarrow> py_error option \<times> 'a list" where
  "heappush lt x h = siftdown lt 0 (length h) (h @ [x])"

definition heappop :: "('a \<Rightarrow> 'a \<Rightarrow> py_error + bool) \<Rightarrow> 'a list \<Rightarrow> (py_error + 'a) \<times> 'a list" where
  "heappop lt h =
     (if h = [] then (Inl IndexError, [])
      else if butlast h = [] then (Inr (last h), [])
      else case siftup lt 0 ((butlast h)[0 := last h]) of
             (None, h') \<Rightarrow> (Inr (hd h), h')
           | (Some e, h') \<Rightarrow> (Inl e, h'))"

primrec heapify_below :: "('a \<Rightarrow> 'a \<Rightarrow> py_error + bool) \<Rightarrow> nat \<Rightarrow> 'a list \<Rightarrow> py_error option \<times> 'a list" where
  "heapify_below lt 0 h = (None, h)"
| "heapify_below lt (Suc k) h =
     (case siftup lt k h of (None, h') \<Rightarrow> heapify_below lt k h' | (Some e, h') \<Rightarrow> (Some e, h'))"

definition heapify :: "('a \<Rightarrow> 'a \<Rightarrow> py_error + bool) \<Rightarrow> 'a list \<Rightarrow> py_error option \<times> 'a list" where
  "heapify lt h = heapify_below lt (length h div 2) h"

section \<open>Nothing is lost\<close>

lemma siftdown_mset: "siftdown lt start pos h = (e, h') \<Longrightarrow> pos < length h \<Longrightarrow> mset h' = mset h"
proof (induction lt start pos h arbitrary: e h' rule: siftdown.induct)
  case (1 lt start pos h)
  then show ?case
    by (subst (asm) (2) siftdown.simps) (fastforce split: if_splits sum.splits simp: mset_swap_at)
qed

lemma sink_mset: "sink lt pos h = (e, h') \<Longrightarrow> pos < length h \<Longrightarrow>
    mset h' = mset h \<and> (\<forall>leaf. e = Inr leaf \<longrightarrow> leaf < length h \<and> \<not> leaf < length h div 2 \<and> pos \<le> leaf)"
proof (induction lt pos h arbitrary: e h' rule: sink.induct)
  case (1 lt pos h)
  show ?case
  proof (cases "pos < length h div 2")
    case False
    then show ?thesis using 1 by (subst (asm) (2) sink.simps) auto
  next
    case True
    let ?c = "if 2 * pos + 2 < length h then lt (h ! (2 * pos + 1)) (h ! (2 * pos + 2)) else Inr True"
    show ?thesis
    proof (cases ?c)
      case (Inl e')
      then show ?thesis using 1(2) True by (subst (asm) sink.simps) auto
    next
      case (Inr s)
      define c where "c = (if s then 2 * pos + 1 else 2 * pos + 2)"
      have c: "c < length h" using Inr True by (auto simp: c_def split: if_splits)
      have step: "sink lt c (swap_at pos c h) = (e, h')"
        using 1(2) True Inr by (subst (asm) sink.simps) (simp add: c_def Let_def)
      show ?thesis
        using 1(1) [OF True Inr c_def step] c 1(3) by (auto simp: mset_swap_at c_def split: if_splits)
    qed
  qed
qed

lemma siftup_mset: "siftup lt pos h = (e, h') \<Longrightarrow> pos < length h \<Longrightarrow> mset h' = mset h"
  by (auto simp: siftup_def split: prod.splits sum.splits dest!: sink_mset siftdown_mset)
    (metis mset_eq_length siftdown_mset)

lemma heappush_mset: "heappush lt x h = (e, h') \<Longrightarrow> mset h' = add_mset x (mset h)"
  by (auto simp: heappush_def dest: siftdown_mset)

lemma heapify_below_mset: "heapify_below lt k h = (e, h') \<Longrightarrow> k \<le> length h \<Longrightarrow> mset h' = mset h"
proof (induction k arbitrary: h)
  case (Suc k)
  obtain e1 h1 where s: "siftup lt k h = (e1, h1)" by fastforce
  from siftup_mset [OF s] Suc.prems have m: "mset h1 = mset h" by simp
  then have "length h1 = length h" by (rule mset_eq_length)
  with Suc s m show ?case by (cases e1) auto
qed simp

lemma heapify_mset: "heapify lt h = (e, h') \<Longrightarrow> mset h' = mset h"
  by (auto simp: heapify_def dest: heapify_below_mset)

lemma heappop_mset: "heappop lt h = (Inr x, h') \<Longrightarrow> mset h = add_mset x (mset h')"
proof (cases "h = [] \<or> butlast h = []")
  case True
  assume "heappop lt h = (Inr x, h')"
  with True show ?thesis by (cases h rule: rev_cases) (auto simp: heappop_def)
next
  case False
  assume pop: "heappop lt h = (Inr x, h')"
  from False obtain y ys z where h: "h = y # ys @ [z]" by (cases h; cases "tl h" rule: rev_cases) auto
  from pop have "siftup lt 0 (z # ys) = (None, h')" and x: "x = y"
    by (auto simp: heappop_def h butlast_append split: prod.splits option.splits)
  then show ?thesis using siftup_mset [of lt 0 "z # ys" None h'] by (simp add: h)
qed

section \<open>Comparison by keys\<close>

definition parent :: "nat \<Rightarrow> nat" where
  "parent i = (i - 1) div 2"

definition under :: "nat \<Rightarrow> nat \<Rightarrow> bool" where
  "under s p \<longleftrightarrow> (\<exists>k. (parent ^^ k) p = s)"

lemma parent_less: "0 < i \<Longrightarrow> parent i < i"
  by (auto simp: parent_def)

lemma parent_child [simp]: "parent (2 * p + 1) = p" "parent (2 * p + 2) = p" "parent (Suc (2 * p)) = p"
    "parent (Suc (Suc (2 * p))) = p"
  by (auto simp: parent_def)

lemma parent_cases: "parent i = p \<Longrightarrow> 0 < i \<Longrightarrow> i = 2 * p + 1 \<or> i = 2 * p + 2"
  by (auto simp: parent_def)

lemma parent_iter_le: "(parent ^^ k) p \<le> p"
proof (induction k)
  case (Suc k)
  then show ?case by (auto simp: parent_def)
qed simp

lemma under_refl [simp]: "under s s"
  by (auto simp: under_def intro: exI [of _ 0])

lemma under_child: "under s p \<Longrightarrow> parent c = p \<Longrightarrow> under s c"
  unfolding under_def by (metis comp_apply funpow_Suc_right)

lemma under_step: "under s p \<Longrightarrow> p \<noteq> s \<Longrightarrow> 0 < p \<and> s \<le> parent p \<and> under s (parent p)"
proof -
  assume "under s p" "p \<noteq> s"
  then obtain k where k: "(parent ^^ Suc k) p = s" by (metis funpow_0 not0_implies_Suc under_def)
  then have k': "(parent ^^ k) (parent p) = s" by (simp add: funpow_swap1)
  have "p \<noteq> 0"
  proof
    assume "p = 0"
    then have "(parent ^^ Suc k) p = 0" using parent_iter_le [of "Suc k" 0] by simp
    with k \<open>p \<noteq> s\<close> \<open>p = 0\<close> show False by simp
  qed
  then show ?thesis using k' parent_iter_le [of k "parent p"] by (auto simp: under_def)
qed

lemma under_zero [simp]: "under 0 p"
proof (induction p rule: less_induct)
  case (less p)
  then show ?case using parent_less [of p] by (cases "p = 0") (auto intro: under_child [of 0 "parent p"])
qed

locale key_order =
  fixes lt :: "'a \<Rightarrow> 'a \<Rightarrow> py_error + bool"
    and key :: "'a \<Rightarrow> 'k :: linorder"
  assumes lt_sound: "lt x y = Inr b \<Longrightarrow> b = (key x < key y)"
    and lt_total: "key x \<noteq> key y \<Longrightarrow> lt x y = Inr (key x < key y)"
begin

text \<open>The edges of the tree whose parent is at \<open>s\<close> or later; the one into \<open>p\<close> may be broken.\<close>

definition edges_but :: "nat \<Rightarrow> nat \<Rightarrow> 'a list \<Rightarrow> bool" where
  "edges_but s p h \<longleftrightarrow> (\<forall>i<length h. 0 < i \<longrightarrow> s \<le> parent i \<longrightarrow> i \<noteq> p \<longrightarrow> key (h ! parent i) \<le> key (h ! i))"

definition heap_from :: "nat \<Rightarrow> 'a list \<Rightarrow> bool" where
  "heap_from s h \<longleftrightarrow> (\<forall>i<length h. 0 < i \<longrightarrow> s \<le> parent i \<longrightarrow> key (h ! parent i) \<le> key (h ! i))"

definition is_heap :: "'a list \<Rightarrow> bool" where
  "is_heap h \<longleftrightarrow> heap_from 0 h"

definition over_children :: "nat \<Rightarrow> nat \<Rightarrow> 'a list \<Rightarrow> bool" where
  "over_children s p h \<longleftrightarrow>
     (\<forall>c<length h. 0 < c \<longrightarrow> parent c = p \<longrightarrow> 0 < p \<longrightarrow> s \<le> parent p \<longrightarrow> key (h ! parent p) \<le> key (h ! c))"

text \<open>As \<open>edges_but\<close>, with the edges out of \<open>p\<close> open as well: the state of \<open>sink\<close>.\<close>

definition edges_around :: "nat \<Rightarrow> nat \<Rightarrow> 'a list \<Rightarrow> bool" where
  "edges_around s p h \<longleftrightarrow>
     (\<forall>i<length h. 0 < i \<longrightarrow> s \<le> parent i \<longrightarrow> i \<noteq> p \<longrightarrow> parent i \<noteq> p \<longrightarrow> key (h ! parent i) \<le> key (h ! i))"

lemma swap_up_edges:
  assumes p: "p < length h" "0 < p" "s \<le> q" and q: "parent p = q"
    and e: "edges_but s p h" and o: "over_children s p h" and less: "key (h ! p) < key (h ! q)"
  shows "edges_but s q (swap_at q p h)" and "over_children s q (swap_at q p h)"
proof -
  have ql: "q < p" "q < length h" using p q parent_less [of p] by auto
  have n: "\<And>k. swap_at q p h ! k = (if k = p then h ! q else if k = q then h ! p else h ! k)"
    using p ql by (simp add: nth_swap_at)
  have e': "\<And>i. i < length h \<Longrightarrow> 0 < i \<Longrightarrow> s \<le> parent i \<Longrightarrow> i \<noteq> p \<Longrightarrow> key (h ! parent i) \<le> key (h ! i)"
    using e by (simp add: edges_but_def)
  have o': "\<And>c. c < length h \<Longrightarrow> 0 < c \<Longrightarrow> parent c = p \<Longrightarrow> key (h ! q) \<le> key (h ! c)"
    using o p q by (simp add: over_children_def)
  show "edges_but s q (swap_at q p h)"
    unfolding edges_but_def length_swap_at
  proof (intro allI impI)
    fix i assume i: "i < length h" "0 < i" "s \<le> parent i" "i \<noteq> q"
    show "key (swap_at q p h ! parent i) \<le> key (swap_at q p h ! i)"
    proof (cases "i = p")
      case True
      then show ?thesis using less q ql by (simp add: n)
    next
      case False
      then show ?thesis using o' [OF i(1,2)] e' [OF i(1-3) False] less i ql
        by (cases "parent i = p"; cases "parent i = q") (auto simp: n)
    qed
  qed
  show "over_children s q (swap_at q p h)"
    unfolding over_children_def length_swap_at
  proof (intro allI impI)
    fix c assume c: "c < length h" "0 < c" "parent c = q" "0 < q" "s \<le> parent q"
    have r: "parent q < q" using c parent_less by simp
    have up: "key (h ! parent q) \<le> key (h ! q)" using e' [of q] c ql by simp
    have "c \<noteq> q" using r c(3) by auto
    then show "key (swap_at q p h ! parent q) \<le> key (swap_at q p h ! c)"
      using up e' [of c] c p(3) r ql by (cases "c = p") (auto simp: n)
  qed
qed

lemma siftdown_heap:
  "siftdown lt s p h = (None, h') \<Longrightarrow> p < length h \<Longrightarrow> under s p \<Longrightarrow> edges_but s p h \<Longrightarrow> over_children s p h \<Longrightarrow>
     heap_from s h'"
proof (induction p arbitrary: h rule: less_induct)
  case (less p)
  show ?case
  proof (cases "p \<le> s")
    case True
    then have "h' = h" "p = s"
      using less.prems(1,3) parent_iter_le by (auto simp: siftdown.simps [of lt s p] under_def intro: le_antisym)
    moreover have "\<not> (0 < s \<and> s \<le> parent s)" using parent_less [of s] by auto
    ultimately show ?thesis using less.prems(4) unfolding edges_but_def heap_from_def by metis
  next
    case False
    then have u: "0 < p" "s \<le> parent p" "under s (parent p)" using under_step [OF less.prems(3)] by auto
    note stp = less.prems(1) [unfolded siftdown.simps [of lt s p] parent_def [symmetric]]
    from stp False obtain b where b: "lt (h ! p) (h ! parent p) = Inr b" by (auto split: sum.splits)
    show ?thesis
    proof (cases b)
      case True
      have "key (h ! p) < key (h ! parent p)" using lt_sound [OF b] True by simp
      note sw = swap_up_edges [OF less.prems(2) u(1,2) refl less.prems(4,5) this]
      have "siftdown lt s (parent p) (swap_at (parent p) p h) = (None, h')" using stp b True False by simp
      from less.IH [OF parent_less [OF u(1)] this _ u(3) sw] show ?thesis
        using less.prems(2) parent_less [OF u(1)] by simp
    next
      case False2: False
      have "key (h ! parent p) \<le> key (h ! p)" using lt_sound [OF b] False2 by simp
      moreover have "h' = h" using stp b False2 False by simp
      ultimately show ?thesis using less.prems(4) unfolding edges_but_def heap_from_def by metis
    qed
  qed
qed

lemma heappush_heap: "heappush lt x h = (None, h') \<Longrightarrow> is_heap h \<Longrightarrow> is_heap h'"
proof -
  assume push: "heappush lt x h = (None, h')" and hp: "is_heap h"
  have "edges_but 0 (length h) (h @ [x])" "over_children 0 (length h) (h @ [x])"
    using hp parent_less by (auto simp: edges_but_def over_children_def is_heap_def heap_from_def nth_append)
      (metis less_Suc_eq less_trans not_less_eq)+
  with push siftdown_heap [of 0 "length h" "h @ [x]" h'] show ?thesis
    by (simp add: heappush_def is_heap_def)
qed

lemma swap_down_edges:
  assumes c: "c < length h" "0 < c" "parent c = p" "s \<le> p"
    and small: "\<And>d. d < length h \<Longrightarrow> 0 < d \<Longrightarrow> parent d = p \<Longrightarrow> key (h ! c) \<le> key (h ! d)"
    and e: "edges_around s p h" and o: "over_children s p h"
  shows "edges_around s c (swap_at p c h)" and "over_children s c (swap_at p c h)"
proof -
  have pl: "p < c" "p < length h" using c parent_less [of c] by auto
  have n: "\<And>k. swap_at p c h ! k = (if k = c then h ! p else if k = p then h ! c else h ! k)"
    using c pl by (simp add: nth_swap_at)
  have e': "\<And>i. i < length h \<Longrightarrow> 0 < i \<Longrightarrow> s \<le> parent i \<Longrightarrow> i \<noteq> p \<Longrightarrow> parent i \<noteq> p \<Longrightarrow> key (h ! parent i) \<le> key (h ! i)"
    using e by (simp add: edges_around_def)
  have o': "0 < p \<Longrightarrow> s \<le> parent p \<Longrightarrow> key (h ! parent p) \<le> key (h ! c)"
    using o c by (simp add: over_children_def)
  show "edges_around s c (swap_at p c h)"
    unfolding edges_around_def length_swap_at
  proof (intro allI impI)
    fix i assume i: "i < length h" "0 < i" "s \<le> parent i" "i \<noteq> c" "parent i \<noteq> c"
    show "key (swap_at p c h ! parent i) \<le> key (swap_at p c h ! i)"
    proof (cases "i = p")
      case True
      then show ?thesis using o' i pl parent_less [of i] by (simp add: n)
    next
      case False
      then show ?thesis using small [of i] e' [of i] i by (cases "parent i = p") (auto simp: n)
    qed
  qed
  show "over_children s c (swap_at p c h)"
    unfolding over_children_def length_swap_at
  proof (intro allI impI)
    fix d assume d: "d < length h" "0 < d" "parent d = c"
    have "d \<noteq> c" "d \<noteq> p" using parent_less [of d] d pl by auto
    then show "key (swap_at p c h ! parent c) \<le> key (swap_at p c h ! d)"
      using e' [of d] d c pl by (auto simp: n)
  qed
qed

lemma sink_heap:
  "sink lt p h = (Inr leaf, h') \<Longrightarrow> p < length h \<Longrightarrow> under s p \<Longrightarrow> edges_around s p h \<Longrightarrow> over_children s p h \<Longrightarrow>
     under s leaf \<and> edges_but s leaf h' \<and> over_children s leaf h'"
proof (induction "length h - p" arbitrary: p h rule: less_induct)
  case less
  show ?case
  proof (cases "p < length h div 2")
    case False
    then have eq: "leaf = p" "h' = h" using less.prems(1) by (auto simp: sink.simps [of lt p])
    have no_child: "parent c \<noteq> p" if "c < length h" "0 < c" for c
      using parent_cases [of c p] that False by auto
    show ?thesis
      using less.prems(3,4) no_child unfolding eq edges_around_def edges_but_def over_children_def by blast
  next
    case True
    note stp = less.prems(1) [unfolded sink.simps [of lt p]]
    from stp True obtain b where
      b: "(if 2 * p + 2 < length h then lt (h ! (2 * p + 1)) (h ! (2 * p + 2)) else Inr True) = Inr b"
      by (auto split: sum.splits)
    define c where "c = (if b then 2 * p + 1 else 2 * p + 2)"
    have c: "c < length h" "0 < c" "parent c = p" "p < c"
      using b True by (auto simp: c_def split: if_splits)
    have small: "key (h ! c) \<le> key (h ! d)" if "d < length h" "0 < d" "parent d = p" for d
    proof -
      have "2 * p + 2 < length h \<Longrightarrow> b = (key (h ! (2 * p + 1)) < key (h ! (2 * p + 2)))"
        using b lt_sound [of "h ! (2 * p + 1)" "h ! (2 * p + 2)" b] by simp
      then show ?thesis using parent_cases [OF that(3,2)] that(1) b by (auto simp: c_def split: if_splits)
    qed
    have sp: "s \<le> p" using less.prems(3) parent_iter_le by (auto simp: under_def)
    note sw = swap_down_edges [OF c(1-3) sp small less.prems(4,5)]
    have rec: "sink lt c (swap_at p c h) = (Inr leaf, h')" using stp True b by (simp add: c_def Let_def)
    have m: "length (swap_at p c h) - c < length h - p" "c < length (swap_at p c h)" using c by auto
    show ?thesis by (rule less.hyps [OF m(1) rec m(2) under_child [OF less.prems(3) c(3)] sw])
  qed
qed

lemma siftup_heap:
  assumes up: "siftup lt s h = (None, h')" and s: "s < length h" and e: "heap_from (Suc s) h"
  shows "heap_from s h'"
proof -
  from up obtain leaf h1 where sk: "sink lt s h = (Inr leaf, h1)" and sd: "siftdown lt s leaf h1 = (None, h')"
    by (auto simp: siftup_def split: prod.splits sum.splits)
  have "edges_around s s h" "over_children s s h"
    using e parent_less [of s] by (auto simp: edges_around_def over_children_def heap_from_def Suc_le_eq)
  from sink_heap [OF sk s under_refl this] have
    inv: "under s leaf" "edges_but s leaf h1" "over_children s leaf h1" by auto
  have "leaf < length h1" using sink_mset [OF sk s] by (auto dest: mset_eq_length)
  from siftdown_heap [OF sd this inv] show ?thesis .
qed

lemma heapify_below_heap:
  "heapify_below lt k h = (None, h') \<Longrightarrow> k \<le> length h \<Longrightarrow> heap_from k h \<Longrightarrow> heap_from 0 h'"
proof (induction k arbitrary: h)
  case (Suc k)
  then obtain h1 where s: "siftup lt k h = (None, h1)" and r: "heapify_below lt k h1 = (None, h')"
    by (auto split: prod.splits option.splits)
  have "heap_from k h1" "length h1 = length h"
    using siftup_heap [OF s] siftup_mset [OF s] Suc.prems by (auto dest: mset_eq_length)
  with Suc.IH [OF r] Suc.prems show ?case by simp
qed simp

lemma heapify_heap: "heapify lt h = (None, h') \<Longrightarrow> is_heap h'"
proof -
  assume hy: "heapify lt h = (None, h')"
  have "heap_from (length h div 2) h"
    unfolding heap_from_def
  proof (intro allI impI)
    fix i assume i: "i < length h" "0 < i" "length h div 2 \<le> parent i"
    then show "key (h ! parent i) \<le> key (h ! i)" using parent_cases [of i "parent i"] by auto
  qed
  with hy heapify_below_heap [of "length h div 2" h h'] show ?thesis by (simp add: heapify_def is_heap_def)
qed

lemma heap_min: "is_heap h \<Longrightarrow> i < length h \<Longrightarrow> key (h ! 0) \<le> key (h ! i)"
proof (induction i rule: less_induct)
  case (less i)
  show ?case
  proof (cases "i = 0")
    case False
    then have "key (h ! parent i) \<le> key (h ! i)" "parent i < i"
      using less.prems parent_less by (auto simp: is_heap_def heap_from_def)
    then show ?thesis using less.IH [of "parent i"] less.prems by auto
  qed simp
qed

lemma heappop_heap: "heappop lt h = (Inr x, h') \<Longrightarrow> is_heap h \<Longrightarrow> is_heap h' \<and> (\<forall>y \<in> set h. key x \<le> key y)"
proof -
  assume pop: "heappop lt h = (Inr x, h')" and hp: "is_heap h"
  have ne: "h \<noteq> []" using pop by (auto simp: heappop_def)
  have x: "x = hd h" using pop ne by (cases h rule: rev_cases) (auto simp: heappop_def hd_append split: if_splits prod.splits option.splits)
  then have "\<forall>y \<in> set h. key x \<le> key y"
    using heap_min [OF hp] ne by (metis hd_conv_nth in_set_conv_nth)
  moreover have "is_heap h'"
  proof (cases "butlast h = []")
    case True
    then show ?thesis using pop ne by (simp add: heappop_def is_heap_def heap_from_def)
  next
    case False
    let ?g = "(butlast h)[0 := last h]"
    have up: "siftup lt 0 ?g = (None, h')"
      using pop ne False by (auto simp: heappop_def split: prod.splits option.splits)
    have "heap_from (Suc 0) ?g"
      unfolding heap_from_def length_list_update
    proof (intro allI impI)
      fix i assume i: "i < length (butlast h)" "0 < i" "Suc 0 \<le> parent i"
      then have p: "parent i < length (butlast h)" using parent_less [of i] by simp
      have "key (h ! parent i) \<le> key (h ! i)" using hp i by (simp add: is_heap_def heap_from_def)
      then show "key (?g ! parent i) \<le> key (?g ! i)"
        using i p nth_butlast [OF i(1)] nth_butlast [OF p] by simp
    qed
    moreover have "0 < length ?g" using False by (metis length_greater_0_conv length_list_update)
    ultimately show ?thesis using siftup_heap [OF up] by (simp only: is_heap_def)
  qed
  ultimately show ?thesis by simp
qed

text \<open>Comparing items whose keys all differ never raises.\<close>

lemma lt_distinct: "distinct (map key h) \<Longrightarrow> i < length h \<Longrightarrow> j < length h \<Longrightarrow> i \<noteq> j \<Longrightarrow> \<exists>b. lt (h ! i) (h ! j) = Inr b"
  using lt_total [of "h ! i" "h ! j"] by (auto simp: distinct_conv_nth)

lemma distinct_keys_swap: "i < length h \<Longrightarrow> j < length h \<Longrightarrow> distinct (map key (swap_at i j h)) \<longleftrightarrow> distinct (map key h)"
  by (metis mset_eq_imp_distinct_iff mset_map mset_swap_at)

lemma siftdown_total: "distinct (map key h) \<Longrightarrow> p < length h \<Longrightarrow> fst (siftdown lt s p h) = None"
proof (induction p arbitrary: h rule: less_induct)
  case (less p)
  show ?case
  proof (cases "p \<le> s")
    case False
    then have q: "(p - 1) div 2 < p" by simp
    then obtain b where "lt (h ! p) (h ! ((p - 1) div 2)) = Inr b" using lt_distinct less.prems by fastforce
    with less.IH [OF q, of "swap_at ((p - 1) div 2) p h"] less.prems q False show ?thesis
      by (subst siftdown.simps) (auto simp: distinct_keys_swap)
  qed (simp add: siftdown.simps [of lt s p])
qed

lemma sink_total: "distinct (map key h) \<Longrightarrow> p < length h \<Longrightarrow> \<exists>leaf. fst (sink lt p h) = Inr leaf"
proof (induction "length h - p" arbitrary: p h rule: less_induct)
  case less
  show ?case
  proof (cases "p < length h div 2")
    case True
    obtain b where b: "(if 2 * p + 2 < length h then lt (h ! (2 * p + 1)) (h ! (2 * p + 2)) else Inr True) = Inr b"
      using lt_distinct [OF less.prems(1), of "2 * p + 1" "2 * p + 2"] by (cases "2 * p + 2 < length h") auto
    define c where "c = (if b then 2 * p + 1 else 2 * p + 2)"
    have c: "c < length h" "p < c" using b True by (auto simp: c_def split: if_splits)
    have "sink lt p h = sink lt c (swap_at p c h)" using True b by (subst sink.simps) (simp add: c_def Let_def)
    then show ?thesis using less.hyps [of "swap_at p c h" c] c less.prems by (simp add: distinct_keys_swap)
  qed (simp add: sink.simps [of lt p])
qed

lemma siftup_total: "distinct (map key h) \<Longrightarrow> p < length h \<Longrightarrow> fst (siftup lt p h) = None"
proof -
  assume d: "distinct (map key h)" and p: "p < length h"
  obtain leaf h1 where sk: "sink lt p h = (Inr leaf, h1)" using sink_total [OF d p] by (metis prod.collapse)
  have "mset h1 = mset h" "leaf < length h" using sink_mset [OF sk p] by auto
  then have "distinct (map key h1)" "leaf < length h1"
    using d by (metis mset_eq_imp_distinct_iff mset_map, metis mset_eq_length)
  then show ?thesis using siftdown_total by (simp add: siftup_def sk)
qed

lemma heappush_total: "distinct (map key (x # h)) \<Longrightarrow> fst (heappush lt x h) = None"
  using siftdown_total [of "h @ [x]" "length h" 0] by (auto simp: heappush_def)

lemma heappop_total: "distinct (map key h) \<Longrightarrow> h \<noteq> [] \<Longrightarrow> \<exists>x h'. heappop lt h = (Inr x, h')"
proof -
  assume d: "distinct (map key h)" and ne: "h \<noteq> []"
  show ?thesis
  proof (cases "butlast h = []")
    case False
    then obtain y ys z where h: "h = y # ys @ [z]" using ne by (cases h; cases "tl h" rule: rev_cases) auto
    have "fst (siftup lt 0 (z # ys)) = None" using d by (intro siftup_total) (auto simp: h)
    then show ?thesis by (auto simp: heappop_def h butlast_append split: prod.splits option.splits)
  qed (simp add: heappop_def ne)
qed

lemma heapify_below_total: "distinct (map key h) \<Longrightarrow> k \<le> length h \<Longrightarrow> fst (heapify_below lt k h) = None"
proof (induction k arbitrary: h)
  case (Suc k)
  obtain h1 where s: "siftup lt k h = (None, h1)" using siftup_total [of h k] Suc.prems by (metis Suc_le_lessD prod.collapse)
  have "mset h1 = mset h" using siftup_mset [OF s] Suc.prems by simp
  then have "distinct (map key h1)" "length h1 = length h"
    using Suc.prems by (metis mset_eq_imp_distinct_iff mset_map, metis mset_eq_length)
  with Suc s show ?case by simp
qed simp

lemma heapify_total: "distinct (map key h) \<Longrightarrow> fst (heapify lt h) = None"
  by (simp add: heapify_def heapify_below_total)

section \<open>Changing the key of one entry\<close>

lemma sink_item:
  "sink lt p h = (Inr leaf, h') \<Longrightarrow> p < length h \<Longrightarrow> h' ! leaf = h ! p \<and> (\<forall>k < p. h' ! k = h ! k)"
proof (induction "length h - p" arbitrary: p h rule: less_induct)
  case less
  show ?case
  proof (cases "p < length h div 2")
    case False
    then show ?thesis using less.prems by (simp add: sink.simps [of lt p])
  next
    case True
    then obtain b where b: "(if 2 * p + 2 < length h then lt (h ! (2 * p + 1)) (h ! (2 * p + 2)) else Inr True) = Inr b"
      using less.prems(1) by (subst (asm) sink.simps) (auto split: sum.splits)
    define c where "c = (if b then 2 * p + 1 else 2 * p + 2)"
    have c: "p < c" "c < length h" using True b by (auto simp: c_def split: if_splits)
    have "sink lt c (swap_at p c h) = (Inr leaf, h')"
      using less.prems(1) True b by (subst (asm) sink.simps) (simp add: c_def Let_def)
    from less.hyps [OF _ this] c less.prems(2) show ?thesis
      by (auto simp: nth_swap_at)
  qed
qed

lemma siftdown_stop:
  "siftdown lt s p h = (None, h') \<Longrightarrow> p < length h \<Longrightarrow> under s p \<Longrightarrow> edges_but 0 p h \<Longrightarrow> over_children 0 p h \<Longrightarrow>
     (0 < s \<Longrightarrow> key (h ! parent s) \<le> key (h ! p)) \<Longrightarrow> is_heap h'"
proof (induction p arbitrary: h rule: less_induct)
  case (less p)
  show ?case
  proof (cases "p \<le> s")
    case True
    then have "h' = h" "p = s"
      using less.prems(1,3) parent_iter_le by (auto simp: siftdown.simps [of lt s p] under_def intro: le_antisym)
    then show ?thesis using less.prems(4,6) unfolding edges_but_def heap_from_def is_heap_def by metis
  next
    case False
    then have u: "0 < p" "s \<le> parent p" "under s (parent p)" using under_step [OF less.prems(3)] by auto
    note stp = less.prems(1) [unfolded siftdown.simps [of lt s p] parent_def [symmetric]]
    from stp False obtain b where b: "lt (h ! p) (h ! parent p) = Inr b" by (auto split: sum.splits)
    have pl: "parent p < p" using parent_less [OF u(1)] .
    show ?thesis
    proof (cases b)
      case True
      have "key (h ! p) < key (h ! parent p)" using lt_sound [OF b] True by simp
      note sw = swap_up_edges [OF less.prems(2) u(1) le0 refl less.prems(4,5) this]
      have "siftdown lt s (parent p) (swap_at (parent p) p h) = (None, h')" using stp b True False by simp
      moreover have "key (swap_at (parent p) p h ! parent s) \<le> key (swap_at (parent p) p h ! parent p)" if "0 < s"
        using less.prems(2,6) that pl u(2) parent_less [OF that] by (simp add: nth_swap_at)
      ultimately show ?thesis
        using less.IH [OF pl _ _ u(3) sw] less.prems(2) pl by simp
    next
      case False2: False
      have "key (h ! parent p) \<le> key (h ! p)" using lt_sound [OF b] False2 by simp
      moreover have "h' = h" using stp b False2 False by simp
      ultimately show ?thesis using less.prems(4) unfolding edges_but_def heap_from_def is_heap_def by metis
    qed
  qed
qed

lemma lower_key_heap:
  assumes "is_heap h" and "p < length h" and "key x \<le> key (h ! p)" and "siftdown lt 0 p (h[p := x]) = (None, h')"
  shows "is_heap h'"
proof -
  have e: "key (h ! parent i) \<le> key (h ! i)" if "i < length h" "0 < i" for i
    using assms(1) that by (simp add: is_heap_def heap_from_def)
  have "edges_but 0 p (h[p := x])"
    unfolding edges_but_def using e assms(2,3) by (auto simp: nth_list_update intro: order_trans)
  moreover have "over_children 0 p (h[p := x])"
    unfolding over_children_def
  proof (intro allI impI)
    fix c assume c: "c < length (h[p := x])" "0 < c" "parent c = p" "0 < p"
    have "key (h ! parent p) \<le> key (h ! p)" "key (h ! p) \<le> key (h ! c)" using e [of p] e [of c] assms(2) c by auto
    then show "key (h[p := x] ! parent p) \<le> key (h[p := x] ! c)"
      using c parent_less [of p] parent_less [of c] by (auto simp: nth_list_update)
  qed
  ultimately show ?thesis
    using siftdown_heap [of 0 p "h[p := x]" h'] assms(2,4) by (simp add: is_heap_def)
qed

lemma raise_key_heap:
  assumes "is_heap h" and "p < length h" and "key (h ! p) \<le> key x" and "siftup lt p (h[p := x]) = (None, h')"
  shows "is_heap h'"
proof -
  have e: "key (h ! parent i) \<le> key (h ! i)" if "i < length h" "0 < i" for i
    using assms(1) that by (simp add: is_heap_def heap_from_def)
  let ?h = "h[p := x]"
  from assms(4) obtain leaf h1 where sk: "sink lt p ?h = (Inr leaf, h1)" and sd: "siftdown lt p leaf h1 = (None, h')"
    by (auto simp: siftup_def split: prod.splits sum.splits)
  have p: "p < length ?h" using assms(2) by simp
  have "edges_around 0 p ?h" unfolding edges_around_def using e by (auto simp: nth_list_update)
  moreover have "over_children 0 p ?h"
    unfolding over_children_def
  proof (intro allI impI)
    fix c assume c: "c < length ?h" "0 < c" "parent c = p" "0 < p"
    have "key (h ! parent p) \<le> key (h ! p)" "key (h ! p) \<le> key (h ! c)" using e [of p] e [of c] assms(2) c by auto
    then show "key (?h ! parent p) \<le> key (?h ! c)"
      using c parent_less [of p] parent_less [of c] by (auto simp: nth_list_update)
  qed
  ultimately have inv: "edges_but 0 leaf h1" "over_children 0 leaf h1"
    using sink_heap [OF sk p under_zero] by auto
  have "edges_around p p ?h" "over_children p p ?h"
    using \<open>edges_around 0 p ?h\<close> parent_less [of p] by (auto simp: edges_around_def over_children_def)
  then have u: "under p leaf" using sink_heap [OF sk p under_refl] by auto
  have len: "leaf < length h1" using sink_mset [OF sk p] by (auto dest: mset_eq_length)
  have "h1 ! leaf = x" "\<forall>k < p. h1 ! k = ?h ! k" using sink_item [OF sk p] assms(2) by auto
  then have "key (h1 ! parent p) \<le> key (h1 ! leaf)" if "0 < p"
    using that e [OF assms(2) that] assms(3) parent_less [OF that] by auto
  then show ?thesis using siftdown_stop [OF sd len u inv] by blast
qed

end

end
