(* ===== verification/Sequences.thy ===== *)
theory Sequences
  imports Prelude Complex_Main
begin

text \<open>
  The data of the batch scheduler: generation sequences and scheduled batches
  (\<^verbatim>\<open>core/scheduler/sequence.py\<close>), iteration budgets (\<^verbatim>\<open>budget.py\<close>), chunked prefill
  (\<^verbatim>\<open>chunked_prefill.py\<close> of the scheduler and of \<^verbatim>\<open>dist/\<close>) and the decode pressure tracker
  (\<^verbatim>\<open>pressure.py\<close>). Python integers are \<open>int\<close>; floats are rationals, so a rounding of the float
  arithmetic is not visible, and \<open>trunc\<close> is the conversion \<^verbatim>\<open>int(x)\<close>. A sequence is a mutable object
  shared by several containers: containers hold references of type \<open>nat\<close>, and a store maps
  references to the current fields.
\<close>

section \<open>Python arithmetic and slices\<close>

definition trunc :: "rat \<Rightarrow> int" where
  "trunc x = (if x < 0 then - \<lfloor>- x\<rfloor> else \<lfloor>x\<rfloor>)"

lemma trunc_of_int [simp]: "trunc (of_int n) = n"
  by (simp add: trunc_def flip: of_int_minus)

lemma trunc_nonneg: "0 \<le> x \<Longrightarrow> 0 \<le> trunc x"
  by (simp add: trunc_def)

lemma trunc_mono: "x \<le> y \<Longrightarrow> trunc x \<le> trunc y"
proof -
  assume le: "x \<le> y"
  consider "x < 0" "y < 0" | "x < 0" "0 \<le> y" | "0 \<le> x" "0 \<le> y" using le by linarith
  then show ?thesis
  proof cases
    case 1
    then show ?thesis using floor_mono [of "- y" "- x"] le by (simp add: trunc_def)
  next
    case 2
    then have "0 \<le> \<lfloor>- x\<rfloor>" "0 \<le> \<lfloor>y\<rfloor>" by simp_all
    moreover have "trunc x = - \<lfloor>- x\<rfloor>" "trunc y = \<lfloor>y\<rfloor>" using 2 by (simp_all add: trunc_def)
    ultimately show ?thesis by linarith
  next
    case 3
    then show ?thesis using floor_mono [OF le] by (simp add: trunc_def)
  qed
qed

lemma trunc_le: "x \<le> of_int n \<Longrightarrow> trunc x \<le> n"
  using trunc_mono [of x "of_int n"] by simp

lemma trunc_ge: "of_int n \<le> x \<Longrightarrow> n \<le> trunc x"
  using trunc_mono [of "of_int n" x] by simp

definition clip_index :: "nat \<Rightarrow> int \<Rightarrow> nat" where
  "clip_index n i = nat (if i < 0 then i + int n else min i (int n))"

definition slice :: "'a list \<Rightarrow> int \<Rightarrow> int \<Rightarrow> 'a list" where
  "slice xs a b = take (clip_index (length xs) b - clip_index (length xs) a) (drop (clip_index (length xs) a) xs)"

section \<open>Sequences\<close>

datatype sequence_status = PENDING | PREFILLING | DECODING | DONE | FAILED | PREEMPTED

record generation_config =
  gc_temperature :: rat
  gc_top_p :: rat
  gc_top_k :: int
  gc_max_new_tokens :: int
  gc_stop_token_ids :: "int list"

record openai_compliance =
  oc_include_logprobs :: bool
  oc_top_logprobs :: int
  oc_logit_bias :: "(int, rat) dict"
  oc_presence_penalty :: rat
  oc_frequency_penalty :: rat
  oc_token_counts :: "(int, int) dict"

record scheduling_hints =
  sh_priority :: int
  sh_max_latency_ms :: "rat option"
  sh_adapter_id :: "string option"

text \<open>\<^verbatim>\<open>constraint\<close> is an opaque object; its identity stands for it.\<close>

record seqn =
  sq_request_id :: string
  sq_prompt_tokens :: "int list"
  sq_generated_tokens :: "int list"
  sq_status :: sequence_status
  sq_priority :: int
  sq_max_new_tokens :: int
  sq_temperature :: rat
  sq_top_p :: rat
  sq_top_k :: int
  sq_stop_token_ids :: "int list"
  sq_constraint :: "nat option"
  sq_prefix_match_len :: int
  sq_created_at :: rat
  sq_adapter_id :: "string option"
  sq_include_logprobs :: bool
  sq_top_logprobs :: int
  sq_logit_bias :: "(int, rat) dict"
  sq_presence_penalty :: rat
  sq_frequency_penalty :: rat
  sq_token_counts :: "(int, int) dict"
  sq_max_latency_ms :: "rat option"
  sq_generation :: "generation_config option"
  sq_scheduling :: "scheduling_hints option"
  sq_openai :: "openai_compliance option"

type_synonym sstore = "nat \<Rightarrow> seqn"

text \<open>\<^verbatim>\<open>__post_init__\<close>: clamp the priority, then fill in the nested objects that were not given.\<close>

definition clamp_priority :: "seqn \<Rightarrow> seqn" where
  "clamp_priority s = (if sq_priority s < 0 then s\<lparr>sq_priority := 0\<rparr> else s)"

definition post_init :: "seqn \<Rightarrow> seqn" where
  "post_init s0 =
     (let s = clamp_priority s0;
          s = (if sq_generation s = None
               then s\<lparr>sq_generation := Some \<lparr>gc_temperature = sq_temperature s, gc_top_p = sq_top_p s, gc_top_k = sq_top_k s,
                        gc_max_new_tokens = sq_max_new_tokens s, gc_stop_token_ids = sq_stop_token_ids s\<rparr>\<rparr>
               else s);
          s = (if sq_scheduling s = None
               then s\<lparr>sq_scheduling := Some \<lparr>sh_priority = sq_priority s, sh_max_latency_ms = sq_max_latency_ms s,
                        sh_adapter_id = sq_adapter_id s\<rparr>\<rparr>
               else s)
      in if sq_openai s = None
         then s\<lparr>sq_openai := Some \<lparr>oc_include_logprobs = sq_include_logprobs s, oc_top_logprobs = sq_top_logprobs s,
                  oc_logit_bias = sq_logit_bias s, oc_presence_penalty = sq_presence_penalty s,
                  oc_frequency_penalty = sq_frequency_penalty s, oc_token_counts = sq_token_counts s\<rparr>\<rparr>
         else s)"

text \<open>The constructor with the defaults of the dataclass, for the fields a request sets.\<close>

definition sequence_new ::
    "string \<Rightarrow> int list \<Rightarrow> int \<Rightarrow> int \<Rightarrow> int list \<Rightarrow> rat option \<Rightarrow> string option \<Rightarrow> rat \<Rightarrow> seqn" where
  "sequence_new rid prompt pri max_new stops latency adapter now = post_init
     \<lparr>sq_request_id = rid, sq_prompt_tokens = prompt, sq_generated_tokens = [], sq_status = PENDING, sq_priority = pri,
      sq_max_new_tokens = max_new, sq_temperature = 7 / 10, sq_top_p = 9 / 10, sq_top_k = 0, sq_stop_token_ids = stops,
      sq_constraint = None, sq_prefix_match_len = 0, sq_created_at = now, sq_adapter_id = adapter,
      sq_include_logprobs = False, sq_top_logprobs = 0, sq_logit_bias = [], sq_presence_penalty = 0,
      sq_frequency_penalty = 0, sq_token_counts = [], sq_max_latency_ms = latency, sq_generation = None,
      sq_scheduling = None, sq_openai = None\<rparr>"

definition seq_is_complete :: "seqn \<Rightarrow> bool" where
  "seq_is_complete s \<longleftrightarrow> sq_status s \<in> {DONE, FAILED} \<or> int (length (sq_generated_tokens s)) \<ge> sq_max_new_tokens s"

definition total_len :: "seqn \<Rightarrow> int" where
  "total_len s = int (length (sq_prompt_tokens s)) + int (length (sq_generated_tokens s))"

definition decode_input_token :: "seqn \<Rightarrow> py_error + int" where
  "decode_input_token s = (if sq_generated_tokens s = [] then Inl IndexError else Inr (last (sq_generated_tokens s)))"

lemma total_len_nonneg [simp]: "0 \<le> total_len s"
  by (simp add: total_len_def)

lemma total_len_status [simp, frame_simps]: "total_len (sq_status_update f s) = total_len s"
  by (simp add: total_len_def)

lemma clamp_priority_simps [simp]:
  "sq_priority (clamp_priority s) = max 0 (sq_priority s)" "sq_generation (clamp_priority s) = sq_generation s"
  "sq_scheduling (clamp_priority s) = sq_scheduling s" "sq_openai (clamp_priority s) = sq_openai s"
  "sq_request_id (clamp_priority s) = sq_request_id s" "sq_max_latency_ms (clamp_priority s) = sq_max_latency_ms s"
  by (auto simp: clamp_priority_def)

text \<open>Every constructed sequence has a non-negative priority and all three nested objects.\<close>

lemma post_init_ok:
  "0 \<le> sq_priority (post_init s)" "sq_generation (post_init s) \<noteq> None" "sq_scheduling (post_init s) \<noteq> None"
  "sq_openai (post_init s) \<noteq> None"
  by (auto simp: post_init_def Let_def)

lemma post_init_hints: "sq_scheduling s = None \<Longrightarrow> map_option sh_priority (sq_scheduling (post_init s)) = Some (max 0 (sq_priority s))"
  by (auto simp: post_init_def Let_def)

section \<open>Batches and budgets\<close>

record scheduled_batch =
  sb_sequences :: "nat list"
  sb_input_ids :: "int list"
  sb_seq_starts :: "int list"
  sb_seq_lengths :: "int list"
  sb_position_offsets :: "int list"
  sb_is_prefill :: "bool list"
  sb_request_ids :: "string list"
  sb_adapter_ids :: "string option list"

definition batch_size :: "scheduled_batch \<Rightarrow> nat" where
  "batch_size b = length (sb_sequences b)"

definition max_seq_len :: "scheduled_batch \<Rightarrow> int" where
  "max_seq_len b = (if sb_seq_lengths b = [] then 0 else fold max (tl (sb_seq_lengths b)) (hd (sb_seq_lengths b)))"

definition batch_total_tokens :: "scheduled_batch \<Rightarrow> int" where
  "batch_total_tokens b = (if sb_seq_lengths b = [] then 0 else sum_list (sb_seq_lengths b))"

definition build_inputs :: "scheduled_batch \<Rightarrow> int list \<times> int list \<times> int list \<times> int list \<times> bool list" where
  "build_inputs b = (sb_input_ids b, sb_seq_starts b, sb_seq_lengths b, sb_position_offsets b, sb_is_prefill b)"

record iteration_budget =
  ib_max_prefill_tokens :: int
  ib_max_decode_tokens :: int
  ib_max_batch_size :: int
  ib_max_total_tokens :: int
  ib_enable_chunked_prefill :: bool
  ib_prefill_slack_ratio :: rat

definition decode_slots :: "iteration_budget \<Rightarrow> int" where
  "decode_slots b = min (ib_max_batch_size b) (ib_max_decode_tokens b)"

section \<open>Chunked prefill\<close>

record chunked_prefill =
  cp_seq_id :: string
  cp_total_prompt_tokens :: int
  cp_tokens_processed :: int
  cp_chunk_size :: int
  cp_chunks_remaining :: int

definition cp_is_complete :: "chunked_prefill \<Rightarrow> bool" where
  "cp_is_complete c \<longleftrightarrow> cp_tokens_processed c \<ge> cp_total_prompt_tokens c"

definition cp_remaining :: "chunked_prefill \<Rightarrow> int" where
  "cp_remaining c = cp_total_prompt_tokens c - cp_tokens_processed c"

definition cp_advance :: "int \<Rightarrow> chunked_prefill \<Rightarrow> chunked_prefill" where
  "cp_advance n c0 =
     (let c = c0\<lparr>cp_tokens_processed := cp_tokens_processed c0 + n\<rparr>
      in if cp_chunk_size c > 0
         then c\<lparr>cp_chunks_remaining :=
                  max 0 ((cp_total_prompt_tokens c - cp_tokens_processed c + cp_chunk_size c - 1) div cp_chunk_size c)\<rparr>
         else c)"

record chunk_state =
  cs_prompt_tokens :: "int list"
  cs_chunk_size :: int
  cs_current_offset :: int

definition cs_remaining :: "chunk_state \<Rightarrow> int list" where
  "cs_remaining c = slice (cs_prompt_tokens c) (cs_current_offset c) (int (length (cs_prompt_tokens c)))"

definition cs_is_done :: "chunk_state \<Rightarrow> bool" where
  "cs_is_done c \<longleftrightarrow> cs_current_offset c \<ge> int (length (cs_prompt_tokens c))"

definition next_chunk :: "chunk_state \<Rightarrow> int list \<times> chunk_state" where
  "next_chunk c =
     (let end = min (cs_current_offset c + cs_chunk_size c) (int (length (cs_prompt_tokens c)))
      in (slice (cs_prompt_tokens c) (cs_current_offset c) end, c\<lparr>cs_current_offset := end\<rparr>))"

definition chunks_total :: "chunk_state \<Rightarrow> py_error + int" where
  "chunks_total c =
     (if cs_chunk_size c = 0 then Inl ZeroDivisionError
      else Inr \<lceil>(of_nat (length (cs_prompt_tokens c)) :: rat) / of_int (cs_chunk_size c)\<rceil>)"

definition chunks_done :: "chunk_state \<Rightarrow> py_error + int" where
  "chunks_done c =
     (case chunks_total c of
        Inl e \<Rightarrow> Inl e
      | Inr tot \<Rightarrow>
          Inr (min (cs_current_offset c div cs_chunk_size c + (if cs_current_offset c mod cs_chunk_size c > 0 then 1 else 0))
                   tot))"

definition from_chunk_state :: "string \<Rightarrow> chunk_state \<Rightarrow> py_error + chunked_prefill" where
  "from_chunk_state sid c =
     (case chunks_total c of
        Inl e \<Rightarrow> Inl e
      | Inr tot \<Rightarrow> (case chunks_done c of
                         Inl e \<Rightarrow> Inl e
                       | Inr d \<Rightarrow> Inr \<lparr>cp_seq_id = sid, cp_total_prompt_tokens = int (length (cs_prompt_tokens c)),
                                       cp_tokens_processed = cs_current_offset c, cp_chunk_size = cs_chunk_size c,
                                       cp_chunks_remaining = tot - d\<rparr>))"

section \<open>Decode pressure\<close>

record pressure_tracker =
  pt_ema :: rat
  pt_alpha :: rat
  pt_target_ms :: rat
  pt_sample_count :: nat
  pt_window_size :: int
  pt_latencies :: "rat list"

definition tracker_init :: "rat \<Rightarrow> rat \<Rightarrow> int \<Rightarrow> pressure_tracker" where
  "tracker_init alpha target window =
     \<lparr>pt_ema = 0, pt_alpha = alpha, pt_target_ms = target, pt_sample_count = 0, pt_window_size = max 1 window,
      pt_latencies = []\<rparr>"

text \<open>\<^verbatim>\<open>deque(maxlen=n).append\<close>: a full deque drops its oldest element.\<close>

definition deque_append :: "int \<Rightarrow> 'a \<Rightarrow> 'a list \<Rightarrow> 'a list" where
  "deque_append n x xs = (if int (length xs) \<ge> n then tl xs @ [x] else xs @ [x])"

definition record_decode_step :: "int \<Rightarrow> rat \<Rightarrow> pressure_tracker \<Rightarrow> pressure_tracker" where
  "record_decode_step count elapsed t =
     (let per_token = elapsed / of_int (max count 1)
      in t\<lparr>pt_latencies := deque_append (pt_window_size t) per_token (pt_latencies t),
           pt_ema := (if pt_sample_count t = 0 then per_token
                      else pt_alpha t * per_token + (1 - pt_alpha t) * pt_ema t),
           pt_sample_count := pt_sample_count t + 1\<rparr>)"

definition pressure :: "pressure_tracker \<Rightarrow> rat" where
  "pressure t = (if pt_sample_count t = 0 then 0 else min 1 (pt_ema t / max (pt_target_ms t) (1 / 10)))"

definition avg_ms_per_token :: "pressure_tracker \<Rightarrow> rat" where
  "avg_ms_per_token t = (if pt_sample_count t = 0 then 0 else pt_ema t)"

section \<open>Chunks cover the prompt\<close>

lemma clip_index_nonneg: "0 \<le> i \<Longrightarrow> i \<le> int n \<Longrightarrow> clip_index n i = nat i"
  by (simp add: clip_index_def)

lemma slice_nonneg:
  "0 \<le> a \<Longrightarrow> a \<le> b \<Longrightarrow> b \<le> int (length xs) \<Longrightarrow> slice xs a b = take (nat b - nat a) (drop (nat a) xs)"
  by (simp add: slice_def clip_index_nonneg)

text \<open>The states a prefill goes through: whole chunks, the last one possibly short.\<close>

definition chunk_wf :: "chunk_state \<Rightarrow> bool" where
  "chunk_wf c \<longleftrightarrow>
     0 < cs_chunk_size c \<and> 0 \<le> cs_current_offset c \<and> cs_current_offset c \<le> int (length (cs_prompt_tokens c)) \<and>
     (cs_current_offset c mod cs_chunk_size c = 0 \<or> cs_current_offset c = int (length (cs_prompt_tokens c)))"

lemma next_chunk_simps [simp]:
  "cs_prompt_tokens (snd (next_chunk c)) = cs_prompt_tokens c" "cs_chunk_size (snd (next_chunk c)) = cs_chunk_size c"
  "cs_current_offset (snd (next_chunk c)) = min (cs_current_offset c + cs_chunk_size c) (int (length (cs_prompt_tokens c)))"
  by (simp_all add: next_chunk_def Let_def)

lemma next_chunk_wf: "chunk_wf c \<Longrightarrow> chunk_wf (snd (next_chunk c))"
  by (auto simp: chunk_wf_def min_def)

lemma next_chunk_take:
  "chunk_wf c \<Longrightarrow> take (nat (cs_current_offset c)) (cs_prompt_tokens c) @ fst (next_chunk c) =
     take (nat (cs_current_offset (snd (next_chunk c)))) (cs_prompt_tokens c)"
proof -
  assume wf: "chunk_wf c"
  let ?b = "min (cs_current_offset c + cs_chunk_size c) (int (length (cs_prompt_tokens c)))"
  have "fst (next_chunk c) = take (nat ?b - nat (cs_current_offset c)) (drop (nat (cs_current_offset c)) (cs_prompt_tokens c))"
    using wf by (simp add: next_chunk_def Let_def slice_nonneg chunk_wf_def)
  moreover have "nat (cs_current_offset c) \<le> nat ?b" using wf by (auto simp: chunk_wf_def)
  ultimately show ?thesis by (simp add: take_add [symmetric])
qed

lemma next_chunk_length:
  "chunk_wf c \<Longrightarrow> int (length (fst (next_chunk c))) = cs_current_offset (snd (next_chunk c)) - cs_current_offset c"
  by (auto simp: next_chunk_def Let_def slice_nonneg chunk_wf_def min_def)

primrec run_chunks :: "nat \<Rightarrow> chunk_state \<Rightarrow> int list list \<times> chunk_state" where
  "run_chunks 0 c = ([], c)"
| "run_chunks (Suc n) c =
     (let (xs, c1) = run_chunks n c; (x, c2) = next_chunk c1 in (xs @ [x], c2))"

lemma run_chunks_inv:
  assumes "0 < cs_chunk_size c" "cs_current_offset c = 0"
  shows "chunk_wf (snd (run_chunks k c)) \<and> cs_prompt_tokens (snd (run_chunks k c)) = cs_prompt_tokens c
     \<and> cs_chunk_size (snd (run_chunks k c)) = cs_chunk_size c
     \<and> cs_current_offset (snd (run_chunks k c)) = min (int k * cs_chunk_size c) (int (length (cs_prompt_tokens c)))
     \<and> concat (fst (run_chunks k c)) = take (nat (cs_current_offset (snd (run_chunks k c)))) (cs_prompt_tokens c)"
proof (induction k)
  case 0
  then show ?case using assms by (simp add: chunk_wf_def)
next
  case (Suc k)
  obtain xs c1 where r: "run_chunks k c = (xs, c1)" by fastforce
  obtain x c2 where n: "next_chunk c1 = (x, c2)" by fastforce
  have wf: "chunk_wf c1" "cs_prompt_tokens c1 = cs_prompt_tokens c" "cs_chunk_size c1 = cs_chunk_size c"
    "cs_current_offset c1 = min (int k * cs_chunk_size c) (int (length (cs_prompt_tokens c)))"
    "concat xs = take (nat (cs_current_offset c1)) (cs_prompt_tokens c)"
    using Suc r by auto
  have eqs: "run_chunks (Suc k) c = (xs @ [x], c2)" by (simp add: r n)
  have c2: "chunk_wf c2" "cs_prompt_tokens c2 = cs_prompt_tokens c" "cs_chunk_size c2 = cs_chunk_size c"
    "cs_current_offset c2 = min (cs_current_offset c1 + cs_chunk_size c) (int (length (cs_prompt_tokens c)))"
    "take (nat (cs_current_offset c1)) (cs_prompt_tokens c) @ x = take (nat (cs_current_offset c2)) (cs_prompt_tokens c)"
    using next_chunk_wf [OF wf(1)] next_chunk_simps [of c1] next_chunk_take [OF wf(1)] wf(2,3) by (auto simp: n)
  have "cs_current_offset c2 = min (int (Suc k) * cs_chunk_size c) (int (length (cs_prompt_tokens c)))"
    using c2(4) wf(4) assms(1) by (auto simp: min_def algebra_simps)
  then show ?case using c2(1-3,5) wf(5) unfolding eqs by simp
qed

lemma ceil_div: "0 < (b :: int) \<Longrightarrow> \<lceil>(of_int a :: rat) / of_int b\<rceil> = (a + b - 1) div b"
proof -
  assume b: "0 < b"
  have "\<lceil>(of_int a :: rat) / of_int b\<rceil> = - ((- a) div b)"
    by (metis ceiling_def floor_divide_of_int_eq minus_divide_left of_int_minus)
  also have "\<dots> = (a + b - 1) div b"
  proof -
    define q where "q = (a + b - 1) div b"
    have "b * q \<le> a + b - 1" "a + b - 1 < b * q + b"
      using b pos_mod_bound [OF b, of "a + b - 1"] pos_mod_sign [OF b, of "a + b - 1"] mult_div_mod_eq [of b "a + b - 1"]
      unfolding q_def by linarith+
    then have "(- a) div b = - q"
      by (intro int_div_pos_eq [where r = "b * q - a"]) auto
    then show ?thesis by (simp add: q_def)
  qed
  finally show ?thesis .
qed

text \<open>C25: chunked prefill covers the prompt: with a positive chunk size, exactly \<^verbatim>\<open>chunks_total\<close> calls of
  \<^verbatim>\<open>next_chunk\<close> from the start return non-empty chunks of at most the chunk size whose concatenation is the
  prompt; the state is done after them and not before.
\<close>

theorem chunks_cover_prompt:
  assumes size: "0 < cs_chunk_size c" and start: "cs_current_offset c = 0" and tot: "chunks_total c = Inr n"
  shows "concat (fst (run_chunks (nat n) c)) = cs_prompt_tokens c \<and> cs_is_done (snd (run_chunks (nat n) c))
     \<and> (\<forall>k<nat n. \<not> cs_is_done (snd (run_chunks k c)) \<and> fst (next_chunk (snd (run_chunks k c))) \<noteq> []
           \<and> int (length (fst (next_chunk (snd (run_chunks k c))))) \<le> cs_chunk_size c)"
proof (intro conjI allI impI)
  let ?len = "int (length (cs_prompt_tokens c))"
  have n: "n = (?len + cs_chunk_size c - 1) div cs_chunk_size c"
    using tot size ceil_div [OF size, of ?len] by (simp add: chunks_total_def split: if_splits)
  then have n0: "0 \<le> n" using size by (simp add: pos_imp_zdiv_nonneg_iff)
  have "?len + cs_chunk_size c - 1 = cs_chunk_size c * n + (?len + cs_chunk_size c - 1) mod cs_chunk_size c"
    by (simp add: n)
  then have le: "?len \<le> n * cs_chunk_size c" "n * cs_chunk_size c < ?len + cs_chunk_size c"
    using pos_mod_bound [OF size, of "?len + cs_chunk_size c - 1"] pos_mod_sign [OF size, of "?len + cs_chunk_size c - 1"]
    by (simp_all add: mult.commute)
  note inv = run_chunks_inv [OF size start]
  have at_end: "cs_current_offset (snd (run_chunks (nat n) c)) = ?len"
    using inv [of "nat n"] le n0 by (simp add: min_def)
  then show "concat (fst (run_chunks (nat n) c)) = cs_prompt_tokens c" "cs_is_done (snd (run_chunks (nat n) c))"
    using inv [of "nat n"] by (simp_all add: cs_is_done_def)
  fix k assume "k < nat n"
  then have "int k + 1 \<le> n" by linarith
  then have "(int k + 1) * cs_chunk_size c \<le> n * cs_chunk_size c" using size by (intro mult_right_mono) auto
  then have "int k * cs_chunk_size c < ?len" using le by (simp add: algebra_simps)
  then have off: "cs_current_offset (snd (run_chunks k c)) < ?len" "cs_prompt_tokens (snd (run_chunks k c)) = cs_prompt_tokens c"
    "cs_chunk_size (snd (run_chunks k c)) = cs_chunk_size c" "chunk_wf (snd (run_chunks k c))"
    using inv [of k] by auto
  have "int (length (fst (next_chunk (snd (run_chunks k c))))) =
      min (cs_current_offset (snd (run_chunks k c)) + cs_chunk_size c) ?len - cs_current_offset (snd (run_chunks k c))"
    using next_chunk_length [OF off(4)] off by simp
  then have len: "0 < int (length (fst (next_chunk (snd (run_chunks k c)))))"
    "int (length (fst (next_chunk (snd (run_chunks k c))))) \<le> cs_chunk_size c"
    using off(1) size by linarith+
  then show "\<not> cs_is_done (snd (run_chunks k c))" "fst (next_chunk (snd (run_chunks k c))) \<noteq> []"
    "int (length (fst (next_chunk (snd (run_chunks k c))))) \<le> cs_chunk_size c"
    using off by (auto simp: cs_is_done_def)
qed

theorem chunks_cover_prompt_witness:
  "concat (fst (run_chunks 3 \<lparr>cs_prompt_tokens = [5, 6, 7, 8, 9], cs_chunk_size = 2, cs_current_offset = 0\<rparr>)) = [5, 6, 7, 8, 9]"
proof -
  let ?c = "\<lparr>cs_prompt_tokens = [5, 6, 7, 8, 9], cs_chunk_size = 2, cs_current_offset = 0\<rparr> :: chunk_state"
  have "chunks_total ?c = Inr 3" by code_simp
  from chunks_cover_prompt [of ?c 3] this show ?thesis by simp
qed

lemma ceil_up: "0 < (t :: int) \<Longrightarrow> x div t + (if x mod t > 0 then 1 else 0) = (x + t - 1) div t"
proof -
  assume t: "0 < t"
  define q r where "q = x div t" and "r = x mod t"
  have b: "0 \<le> r" "r < t" "x = t * q + r" using t by (auto simp: q_def r_def)
  have "(x + t - 1) div t = (if 0 < r then q + 1 else q)"
  proof (cases "0 < r")
    case True
    have "(x + t - 1) div t = q + 1"
      by (rule int_div_pos_eq [where r = "r - 1"]) (use b True in \<open>simp_all add: distrib_left\<close>)
    then show ?thesis using True by simp
  next
    case False
    have "(x + t - 1) div t = q"
      by (rule int_div_pos_eq [where r = "t - 1"]) (use b False t in simp_all)
    then show ?thesis using False by simp
  qed
  then show ?thesis by (simp add: q_def r_def)
qed

lemma from_chunk_state_eq:
  assumes wf: "chunk_wf d"
  shows "from_chunk_state sid d =
     Inr \<lparr>cp_seq_id = sid, cp_total_prompt_tokens = int (length (cs_prompt_tokens d)),
          cp_tokens_processed = cs_current_offset d, cp_chunk_size = cs_chunk_size d,
          cp_chunks_remaining =
            (int (length (cs_prompt_tokens d)) - cs_current_offset d + cs_chunk_size d - 1) div cs_chunk_size d\<rparr>"
proof -
  define l where "l = int (length (cs_prompt_tokens d))"
  define t where "t = cs_chunk_size d"
  define x where "x = cs_current_offset d"
  have t: "0 < t" and x: "x \<le> l" "x mod t = 0 \<or> x = l" using wf by (auto simp: chunk_wf_def l_def t_def x_def)
  have tot: "chunks_total d = Inr ((l + t - 1) div t)"
    using t ceil_div [OF t, of l] by (simp add: chunks_total_def l_def t_def)
  have le: "(x + t - 1) div t \<le> (l + t - 1) div t" using t x(1) by (intro zdiv_mono1) auto
  have t1: "(t - 1) div t = 0" using t by (intro div_pos_pos_trivial) auto
  have rest: "(l + t - 1) div t - (x + t - 1) div t = (l - x + t - 1) div t"
  proof (cases "x = l")
    case True
    then show ?thesis using t1 by simp
  next
    case False
    then obtain k where k: "x = t * k" using x(2) by (auto simp: mod_eq_0_iff_dvd)
    have "(x + t - 1) div t = k" using t k by (intro int_div_pos_eq [where r = "t - 1"]) auto
    moreover have "(l + t - 1) div t = (l - x + t - 1) div t + k"
      using div_mult_self2 [of t "l - x + t - 1" k] t k by (simp add: algebra_simps)
    ultimately show ?thesis by simp
  qed
  have "chunks_done d = Inr ((x + t - 1) div t)"
    using tot le ceil_up [OF t, of x] by (simp add: chunks_done_def x_def t_def)
  then show ?thesis using tot rest by (simp add: from_chunk_state_def l_def t_def x_def)
qed

text \<open>The adapter that the scheduler keeps moves in step with the chunk state: a commuting square.\<close>

theorem adapter_tracks_chunks:
  assumes wf: "chunk_wf c" and i: "from_chunk_state sid c = Inr i"
  shows "from_chunk_state sid (snd (next_chunk c)) = Inr (cp_advance (int (length (fst (next_chunk c)))) i)"
proof -
  have s: "0 < cs_chunk_size c" using wf by (simp add: chunk_wf_def)
  have nn: "0 \<le> (int (length (cs_prompt_tokens c)) - cs_current_offset (snd (next_chunk c)) + cs_chunk_size c - 1) div cs_chunk_size c"
    using s by (simp add: pos_imp_zdiv_nonneg_iff)
  have len: "int (length (fst (next_chunk c))) = cs_current_offset (snd (next_chunk c)) - cs_current_offset c"
    by (rule next_chunk_length [OF wf])
  show ?thesis
    using i nn s unfolding from_chunk_state_eq [OF wf] from_chunk_state_eq [OF next_chunk_wf [OF wf]] len
    by (auto simp: cp_advance_def Let_def)
qed

section \<open>Pressure stays in range\<close>

definition record_all :: "(int \<times> rat) list \<Rightarrow> pressure_tracker \<Rightarrow> pressure_tracker" where
  "record_all samples t = fold (\<lambda>(n, ms). record_decode_step n ms) samples t"

definition tracker_ok :: "rat \<Rightarrow> rat \<Rightarrow> pressure_tracker \<Rightarrow> bool" where
  "tracker_ok lo hi t \<longleftrightarrow>
     0 \<le> pt_alpha t \<and> pt_alpha t \<le> 1 \<and> 1 \<le> pt_window_size t \<and> int (length (pt_latencies t)) \<le> pt_window_size t \<and>
     (0 < pt_sample_count t \<longrightarrow> lo \<le> pt_ema t \<and> pt_ema t \<le> hi) \<and> (\<forall>x \<in> set (pt_latencies t). lo \<le> x \<and> x \<le> hi)"

lemma convex_between:
  fixes a x y lo hi :: rat
  assumes "0 \<le> a" "a \<le> 1" "lo \<le> x" "x \<le> hi" "lo \<le> y" "y \<le> hi"
  shows "lo \<le> a * x + (1 - a) * y \<and> a * x + (1 - a) * y \<le> hi"
proof -
  have "a * lo + (1 - a) * lo \<le> a * x + (1 - a) * y" "a * x + (1 - a) * y \<le> a * hi + (1 - a) * hi"
    using assms by (intro add_mono mult_left_mono; simp)+
  then show ?thesis by (simp add: algebra_simps)
qed

lemma deque_append_facts:
  "1 \<le> n \<Longrightarrow> int (length xs) \<le> n \<Longrightarrow> int (length (deque_append n x xs)) \<le> n"
  "set (deque_append n x xs) \<subseteq> insert x (set xs)"
  by (auto simp: deque_append_def) (metis list.sel(2) list.set_sel(2))

lemma record_decode_step_ok:
  assumes "tracker_ok lo hi t" "lo \<le> ms / of_int (max n 1)" "ms / of_int (max n 1) \<le> hi"
  shows "tracker_ok lo hi (record_decode_step n ms t)"
  using assms convex_between [of "pt_alpha t" lo "ms / of_int (max n 1)" hi "pt_ema t"]
    deque_append_facts(1) [of "pt_window_size t" "pt_latencies t" "ms / of_int (max n 1)"]
    deque_append_facts(2) [of "pt_window_size t" "ms / of_int (max n 1)" "pt_latencies t"]
  by (auto simp: tracker_ok_def record_decode_step_def Let_def)

lemma record_all_ok:
  "tracker_ok lo hi t \<Longrightarrow> (\<And>n ms. (n, ms) \<in> set samples \<Longrightarrow> lo \<le> ms / of_int (max n 1) \<and> ms / of_int (max n 1) \<le> hi) \<Longrightarrow>
     tracker_ok lo hi (record_all samples t)"
  by (induction samples arbitrary: t) (auto simp: record_all_def record_decode_step_ok)

lemma pressure_range: "tracker_ok 0 hi t \<Longrightarrow> 0 \<le> pressure t \<and> pressure t \<le> 1"
  by (auto simp: pressure_def tracker_ok_def)

text \<open>The decode pressure is a fraction: over any run of decode steps with non-negative elapsed times, starting
  from a tracker with smoothing factor between 0 and 1, the pressure stays between 0 and 1, the moving
  average between the smallest and the largest per-token latency, and the window within its size.
\<close>

theorem pressure_bounded:
  assumes "0 \<le> alpha" "alpha \<le> 1" "samples \<noteq> []"
    and samples: "\<And>n ms. (n, ms) \<in> set samples \<Longrightarrow> 0 \<le> lo \<and> lo \<le> ms / of_int (max n 1) \<and> ms / of_int (max n 1) \<le> hi"
  shows "0 \<le> pressure (record_all samples (tracker_init alpha target window))
     \<and> pressure (record_all samples (tracker_init alpha target window)) \<le> 1
     \<and> lo \<le> avg_ms_per_token (record_all samples (tracker_init alpha target window))
     \<and> avg_ms_per_token (record_all samples (tracker_init alpha target window)) \<le> hi
     \<and> int (length (pt_latencies (record_all samples (tracker_init alpha target window)))) \<le> max 1 window"
proof -
  let ?t = "record_all samples (tracker_init alpha target window)"
  have init: "tracker_ok lo hi (tracker_init alpha target window)"
    using assms(1,2) by (simp add: tracker_ok_def tracker_init_def)
  have ok: "tracker_ok lo hi ?t" using samples by (intro record_all_ok [OF init]) auto
  have cnt: "pt_sample_count (record_all ss t) = pt_sample_count t + length ss" for ss t
    by (induction ss arbitrary: t) (auto simp: record_all_def record_decode_step_def Let_def)
  have win: "pt_window_size (record_all ss t) = pt_window_size t" for ss t
    by (induction ss arbitrary: t) (auto simp: record_all_def record_decode_step_def Let_def)
  have "0 \<le> lo" using samples assms(3) by (metis list.set_intros(1) neq_Nil_conv surj_pair)
  then have "0 \<le> pt_ema ?t" "lo \<le> pt_ema ?t" "pt_ema ?t \<le> hi"
    using ok cnt [of samples] assms(3) by (auto simp: tracker_ok_def)
  then show ?thesis
    using ok cnt [of samples] assms(3) win [of samples "tracker_init alpha target window"]
    by (auto simp: pressure_def avg_ms_per_token_def tracker_ok_def tracker_init_def)
qed

theorem pressure_bounded_witness:
  "pressure (record_all [(2, 8), (1, 30)] (tracker_init (1 / 10) 8 32)) \<le> 1"
proof -
  have "0 \<le> (4 :: rat) \<and> 4 \<le> ms / of_int (max n 1) \<and> ms / of_int (max n 1) \<le> 30"
    if "(n, ms) \<in> set [(2, 8), (1, 30)]" for n and ms :: rat
    using that by auto
  from pressure_bounded [of "1 / 10" "[(2, 8), (1, 30)]" 4 30 8 32, OF _ _ _ this] show ?thesis by simp
qed

end
