(* ===== verification/KvCache.thy ===== *)
theory KvCache
  imports Sequences
begin

text \<open>
  \<^verbatim>\<open>KVCacheManager\<close> of \<^verbatim>\<open>core/scheduler/kv_cache_manager.py\<close>: block accounting through an optional
  PagedAttention manager, the eviction of active sequences to host memory, and the compression of KV
  state that a preempted sequence leaves behind. The PagedAttention manager is any object with the methods
  named in \<open>paged_ops\<close>; an exception it raises is an \<open>Inl\<close>. Tensor arithmetic belongs to PyTorch and is a
  parameter (\<open>tensor_ops\<close>): quantizing a tensor to data and scale, and multiplying them back.
\<close>

section \<open>The PagedAttention manager\<close>

record 'm paged_ops =
  pa_block_size :: "'m \<Rightarrow> int option"
  pa_allocate_sequence :: "string \<Rightarrow> int \<Rightarrow> 'm \<Rightarrow> (py_error + nat list) \<times> 'm"
  pa_free_sequence :: "string \<Rightarrow> 'm \<Rightarrow> (py_error + unit) \<times> 'm"
  pa_swap_blocks_to_cpu :: "string \<Rightarrow> 'm \<Rightarrow> (py_error + int) \<times> 'm"
  pa_swap_blocks_to_gpu :: "string \<Rightarrow> 'm \<Rightarrow> (py_error + int) \<times> 'm"
  pa_copy_on_write :: "string \<Rightarrow> string \<Rightarrow> 'm \<Rightarrow> (py_error + unit) \<times> 'm"
  pa_swap_out_sequence :: "string \<Rightarrow> 'm \<Rightarrow> (py_error + unit) \<times> 'm"
  pa_restore_first_block :: "string \<Rightarrow> 'm \<Rightarrow> (py_error + unit) \<times> 'm"

text \<open>Only a \<^verbatim>\<open>RuntimeError\<close> of the allocation is caught.\<close>

definition allocate_paged_blocks :: "'m paged_ops \<Rightarrow> seqn \<Rightarrow> 'm option \<Rightarrow> (py_error + nat list option) \<times> 'm option" where
  "allocate_paged_blocks ops s mgr =
     (case mgr of
        None \<Rightarrow> (Inr None, None)
      | Some m \<Rightarrow>
          let num_tokens = int (length (sq_prompt_tokens s)) + sq_max_new_tokens s
          in case pa_allocate_sequence ops (sq_request_id s) num_tokens m of
               (Inr blocks, m') \<Rightarrow> (Inr (Some blocks), Some m')
             | (Inl e, m') \<Rightarrow> (if e = RuntimeError then Inr None else Inl e, Some m'))"

definition free_paged_blocks :: "'m paged_ops \<Rightarrow> string \<Rightarrow> 'm option \<Rightarrow> 'm option" where
  "free_paged_blocks ops rid mgr = map_option (\<lambda>m. snd (pa_free_sequence ops rid m)) mgr"

text \<open>A manager whose block size is zero makes the division raise.\<close>

definition paged_kv_block_count :: "'m paged_ops \<Rightarrow> int \<Rightarrow> 'm option \<Rightarrow> py_error + int" where
  "paged_kv_block_count ops tokens mgr =
     (let block_size = (case mgr of None \<Rightarrow> 16 | Some m \<Rightarrow> (case pa_block_size ops m of None \<Rightarrow> 16 | Some b \<Rightarrow> b))
      in if block_size = 0 then Inl ZeroDivisionError else Inr ((tokens + block_size - 1) div block_size))"

section \<open>Eviction to host memory\<close>

definition evict_key :: "seqn \<Rightarrow> int \<times> rat" where
  "evict_key s = (sq_priority s, - sq_created_at s)"

definition evict_before :: "seqn \<Rightarrow> seqn \<Rightarrow> bool" where
  "evict_before s s' \<longleftrightarrow>
     sq_priority s < sq_priority s' \<or> sq_priority s = sq_priority s' \<and> - sq_created_at s < - sq_created_at s'"

text \<open>\<^verbatim>\<open>sorted(active.values(), key=...)\<close>: a stable sort of the references by their sequences' keys.\<close>

fun insert_candidate :: "sstore \<Rightarrow> nat \<Rightarrow> nat list \<Rightarrow> nat list" where
  "insert_candidate st r [] = [r]"
| "insert_candidate st r (r' # rs) =
     (if evict_before (st r') (st r) then r' # insert_candidate st r rs else r # r' # rs)"

definition evict_candidates :: "sstore \<Rightarrow> (string, nat) dict \<Rightarrow> nat list" where
  "evict_candidates st active = foldr (insert_candidate st) (map snd active) []"

text \<open>The eviction loop: stop when enough blocks are free, skip a sequence whose swap fails.\<close>

fun evict_blocks :: "'m paged_ops \<Rightarrow> sstore \<Rightarrow> int \<Rightarrow> nat list \<Rightarrow> int \<Rightarrow> 'm \<Rightarrow> int \<times> 'm" where
  "evict_blocks ops st min_blocks [] freed m = (freed, m)"
| "evict_blocks ops st min_blocks (r # rs) freed m =
     (if freed \<ge> min_blocks then (freed, m)
      else case pa_swap_blocks_to_cpu ops (sq_request_id (st r)) m of
             (Inr n, m') \<Rightarrow> evict_blocks ops st min_blocks rs (freed + n) m'
           | (Inl e, m') \<Rightarrow> evict_blocks ops st min_blocks rs freed m')"

definition swap_evict_to_cpu :: "'m paged_ops \<Rightarrow> sstore \<Rightarrow> (string, nat) dict \<Rightarrow> int \<Rightarrow> 'm option \<Rightarrow> int \<times> 'm option" where
  "swap_evict_to_cpu ops st active min_blocks mgr =
     (case mgr of
        None \<Rightarrow> (0, None)
      | Some m \<Rightarrow> let (freed, m') = evict_blocks ops st min_blocks (evict_candidates st active) 0 m in (freed, Some m'))"

definition restore_from_cpu :: "'m paged_ops \<Rightarrow> string \<Rightarrow> 'm option \<Rightarrow> int \<times> 'm option" where
  "restore_from_cpu ops rid mgr =
     (case mgr of
        None \<Rightarrow> (0, None)
      | Some m \<Rightarrow> (case pa_swap_blocks_to_gpu ops rid m of (Inr n, m') \<Rightarrow> (n, Some m') | (Inl e, m') \<Rightarrow> (0, Some m')))"

definition copy_on_write :: "'m paged_ops \<Rightarrow> string \<Rightarrow> string \<Rightarrow> 'm option \<Rightarrow> 'm option" where
  "copy_on_write ops src dst mgr = map_option (\<lambda>m. snd (pa_copy_on_write ops src dst m)) mgr"

section \<open>KV data\<close>

text \<open>The Python values that a KV cache holds; dictionary keys are strings or integers.\<close>

datatype kv_key = KeyStr string | KeyInt int

datatype 't kv =
    KvNone | KvBool bool | KvInt int | KvStr string | KvTensor 't
  | KvDict "(kv_key \<times> 't kv) list" | KvList "'t kv list" | KvTuple "'t kv list"

record 't tensor_ops =
  tn_quantize :: "string \<Rightarrow> 't \<Rightarrow> 't \<times> 't"
  tn_dequantize :: "'t \<Rightarrow> 't \<Rightarrow> 't"
  tn_truth :: "'t \<Rightarrow> py_error + bool"

definition compress_tensor :: "'t tensor_ops \<Rightarrow> 't \<Rightarrow> string \<Rightarrow> 't kv" where
  "compress_tensor tn t meth =
     (if meth = ''int4'' \<or> meth = ''int8''
      then let (q, scale) = tn_quantize tn meth t
           in KvDict [(KeyStr ''_compressed'', KvBool True), (KeyStr ''method'', KvStr meth),
                      (KeyStr ''data'', KvTensor q), (KeyStr ''scale'', KvTensor scale)]
      else KvDict [(KeyStr ''_compressed'', KvBool False), (KeyStr ''data'', KvTensor t)])"

fun truthy :: "'t tensor_ops \<Rightarrow> 't kv \<Rightarrow> py_error + bool" where
  "truthy tn KvNone = Inr False"
| "truthy tn (KvBool b) = Inr b"
| "truthy tn (KvInt i) = Inr (i \<noteq> 0)"
| "truthy tn (KvStr s) = Inr (s \<noteq> [])"
| "truthy tn (KvTensor t) = tn_truth tn t"
| "truthy tn (KvDict d) = Inr (d \<noteq> [])"
| "truthy tn (KvList xs) = Inr (xs \<noteq> [])"
| "truthy tn (KvTuple xs) = Inr (xs \<noteq> [])"

text \<open>\<^verbatim>\<open>data.to(...)\<close> needs a tensor, and its product is taken with a tensor scale.\<close>

definition decompress_tensor :: "'t tensor_ops \<Rightarrow> (kv_key \<times> 't kv) list \<Rightarrow> py_error + 't kv" where
  "decompress_tensor tn d =
     (let get = map_of d in
      case (case get (KeyStr ''_compressed'') of None \<Rightarrow> Inr False | Some v \<Rightarrow> truthy tn v) of
        Inl e \<Rightarrow> Inl e
      | Inr compressed \<Rightarrow>
          (case get (KeyStr ''data'') of
             None \<Rightarrow> Inl KeyError
           | Some data \<Rightarrow>
               if \<not> compressed then Inr data
               else case get (KeyStr ''scale'') of
                      None \<Rightarrow> Inl KeyError
                    | Some scale \<Rightarrow>
                        let meth = (case get (KeyStr ''method'') of None \<Rightarrow> KvStr ''int8'' | Some v \<Rightarrow> v)
                        in if meth = KvStr ''int4'' \<or> meth = KvStr ''int8''
                           then (case (data, scale) of
                                   (KvTensor q, KvTensor sc) \<Rightarrow> Inr (KvTensor (tn_dequantize tn q sc))
                                 | (KvTensor q, _) \<Rightarrow> Inl TypeError
                                 | _ \<Rightarrow> Inl AttributeError)
                           else Inr data))"

fun compress_kv :: "'t tensor_ops \<Rightarrow> string \<Rightarrow> 't kv \<Rightarrow> 't kv" where
  "compress_kv tn meth (KvTensor t) = (if meth = ''none'' then KvTensor t else compress_tensor tn t meth)"
| "compress_kv tn meth (KvDict d) =
     (if meth = ''none'' then KvDict d else KvDict (map (\<lambda>(k, v). (k, compress_kv tn meth v)) d))"
| "compress_kv tn meth (KvList xs) = (if meth = ''none'' then KvList xs else KvList (map (compress_kv tn meth) xs))"
| "compress_kv tn meth (KvTuple xs) = (if meth = ''none'' then KvTuple xs else KvList (map (compress_kv tn meth) xs))"
| "compress_kv tn meth v = v"

fun sequence_results :: "(py_error + 'a) list \<Rightarrow> py_error + 'a list" where
  "sequence_results [] = Inr []"
| "sequence_results (Inl e # xs) = Inl e"
| "sequence_results (Inr x # xs) = (case sequence_results xs of Inl e \<Rightarrow> Inl e | Inr ys \<Rightarrow> Inr (x # ys))"

fun decompress_preempted_kv :: "'t tensor_ops \<Rightarrow> 't kv \<Rightarrow> py_error + 't kv" where
  "decompress_preempted_kv tn (KvDict d) =
     (case (case map_of d (KeyStr ''_compressed'') of None \<Rightarrow> Inr False | Some v \<Rightarrow> truthy tn v) of
        Inl e \<Rightarrow> Inl e
      | Inr True \<Rightarrow> decompress_tensor tn d
      | Inr False \<Rightarrow>
          map_sum id (\<lambda>vs. KvDict (zip (map fst d) vs))
            (sequence_results (map (\<lambda>(k, v). decompress_preempted_kv tn v) d)))"
| "decompress_preempted_kv tn (KvList xs) =
     map_sum id KvList (sequence_results (map (decompress_preempted_kv tn) xs))"
| "decompress_preempted_kv tn v = Inr v"

definition save_kv_state ::
    "'t tensor_ops \<Rightarrow> string \<Rightarrow> (string, 't kv) dict \<Rightarrow> (string, 't kv) dict option \<Rightarrow> (string, 't kv) dict" where
  "save_kv_state tn rid saved cache =
     (case cache of
        None \<Rightarrow> saved
      | Some c \<Rightarrow> (case map_of c rid of
                      None \<Rightarrow> saved
                    | Some data \<Rightarrow> AList.update rid (compress_kv tn ''int4'' data) saved))"

text \<open>The saved state is popped before the test, so a call without a cache dictionary drops it.\<close>

definition restore_kv_state ::
    "'t tensor_ops \<Rightarrow> string \<Rightarrow> (string, 't kv) dict \<Rightarrow> (string, 't kv) dict option \<Rightarrow>
     (py_error + bool) \<times> (string, 't kv) dict \<times> (string, 't kv) dict option" where
  "restore_kv_state tn rid saved cache =
     (let found = map_of saved rid; saved' = AList.delete rid saved in
      case (found, cache) of
        (Some data, Some c) \<Rightarrow>
          if data = KvNone then (Inr False, saved', cache)
          else (case decompress_preempted_kv tn data of
                  Inl e \<Rightarrow> (Inl e, saved', cache)
                | Inr v \<Rightarrow> (Inr True, saved', Some (AList.update rid v c)))
      | _ \<Rightarrow> (Inr False, saved', cache))"

section \<open>Which sequences are evicted\<close>

lemma set_insert_candidate: "set (insert_candidate st r rs) = insert r (set rs)"
  by (induction rs) auto

lemma set_evict_candidates: "set (evict_candidates st active) = snd ` set active"
proof -
  have "set (foldr (insert_candidate st) rs []) = set rs" for rs
    by (induction rs) (auto simp: set_insert_candidate)
  then show ?thesis by (simp add: evict_candidates_def)
qed

fun evict_sorted :: "sstore \<Rightarrow> nat list \<Rightarrow> bool" where
  "evict_sorted st [] \<longleftrightarrow> True"
| "evict_sorted st (r # rs) \<longleftrightarrow> (\<forall>r' \<in> set rs. \<not> evict_before (st r') (st r)) \<and> evict_sorted st rs"

lemma evict_before_trans: "\<not> evict_before b a \<Longrightarrow> \<not> evict_before c b \<Longrightarrow> \<not> evict_before c a"
  by (auto simp: evict_before_def)

lemma evict_before_asym: "evict_before a b \<Longrightarrow> \<not> evict_before b a"
  by (auto simp: evict_before_def)

lemma evict_sorted_insert: "evict_sorted st rs \<Longrightarrow> evict_sorted st (insert_candidate st r rs)"
  by (induction rs) (auto simp: set_insert_candidate evict_before_asym, metis evict_before_trans)

lemma evict_candidates_sorted: "evict_sorted st (evict_candidates st active)"
proof -
  have "evict_sorted st (foldr (insert_candidate st) rs [])" for rs
    by (induction rs) (auto intro: evict_sorted_insert)
  then show ?thesis by (simp add: evict_candidates_def)
qed

text \<open>A manager that frees one block per sequence and remembers whom it evicted.\<close>

definition logging_ops :: "string list paged_ops" where
  "logging_ops =
     \<lparr>pa_block_size = (\<lambda>m. None), pa_allocate_sequence = (\<lambda>rid n m. (Inr [], m)), pa_free_sequence = (\<lambda>rid m. (Inr (), m)),
      pa_swap_blocks_to_cpu = (\<lambda>rid m. (Inr 1, m @ [rid])), pa_swap_blocks_to_gpu = (\<lambda>rid m. (Inr 1, m)),
      pa_copy_on_write = (\<lambda>src dst m. (Inr (), m)), pa_swap_out_sequence = (\<lambda>rid m. (Inr (), m)),
      pa_restore_first_block = (\<lambda>rid m. (Inr (), m))\<rparr>"

text \<open>Eviction to host memory starts with the most important work. The first sequence that
  \<^verbatim>\<open>swap_evict_to_cpu\<close> swaps out has the smallest priority number of all active sequences, and among those the
  latest creation time; the documentation promises the least important first, ties broken by oldest
  first. When the manager frees enough blocks for that sequence it is the only one evicted.
\<close>

theorem eviction_starts_with_most_important:
  assumes active: "active \<noteq> []" and need: "0 < min_blocks"
    and enough: "\<And>rid. \<exists>n m'. pa_swap_blocks_to_cpu ops rid m = (Inr n, m') \<and> min_blocks \<le> n"
  shows "\<exists>r \<in> snd ` set active.
           (\<forall>r' \<in> snd ` set active. sq_priority (st r) \<le> sq_priority (st r')
              \<and> (sq_priority (st r) = sq_priority (st r') \<longrightarrow> sq_created_at (st r') \<le> sq_created_at (st r)))
           \<and> swap_evict_to_cpu ops st active min_blocks (Some m) =
               map_prod (case_sum (\<lambda>e. 0) id) Some (pa_swap_blocks_to_cpu ops (sq_request_id (st r)) m)"
proof -
  obtain r rs where c: "evict_candidates st active = r # rs"
    using active set_evict_candidates [of st active] by (cases "evict_candidates st active") auto
  obtain n m' where s: "pa_swap_blocks_to_cpu ops (sq_request_id (st r)) m = (Inr n, m')" "min_blocks \<le> n"
    using enough [of "sq_request_id (st r)"] by auto
  have "evict_blocks ops st min_blocks (r # rs) 0 m = (n, m')" using need s by (cases rs) auto
  then have "swap_evict_to_cpu ops st active min_blocks (Some m) =
      map_prod (case_sum (\<lambda>e. 0) id) Some (pa_swap_blocks_to_cpu ops (sq_request_id (st r)) m)"
    using s c by (simp add: swap_evict_to_cpu_def)
  moreover have "\<forall>r' \<in> set (r # rs). \<not> evict_before (st r') (st r)"
    using evict_candidates_sorted [of st active] c by (auto simp: evict_before_def)
  then have "\<forall>r' \<in> snd ` set active. sq_priority (st r) \<le> sq_priority (st r')
      \<and> (sq_priority (st r) = sq_priority (st r') \<longrightarrow> sq_created_at (st r') \<le> sq_created_at (st r))"
    using set_evict_candidates [of st active] c by (auto simp: evict_before_def not_less)
  moreover have "r \<in> snd ` set active" using set_evict_candidates [of st active] c by auto
  ultimately show ?thesis by blast
qed

definition two_seqs :: sstore where
  "two_seqs r = (if r = 0 then sequence_new ''critical'' [1, 2] 0 8 [] None None 10 else sequence_new ''low'' [3] 3 8 [] None None 5)"

theorem eviction_starts_with_most_important_witness:
  "swap_evict_to_cpu logging_ops two_seqs [(''low'', 1), (''critical'', 0)] 1 (Some []) = (1, Some [''critical''])"
proof -
  have "\<exists>n m'. pa_swap_blocks_to_cpu logging_ops rid [] = (Inr n, m') \<and> (1 :: int) \<le> n" for rid
    by (simp add: logging_ops_def)
  from eviction_starts_with_most_important [of "[(''low'', 1), (''critical'', 0)]" 1 logging_ops "[]" two_seqs, OF _ _ this]
  show ?thesis
    by (auto simp: two_seqs_def sequence_new_def post_init_def clamp_priority_def logging_ops_def Let_def)
qed

section \<open>KV state survives a preemption\<close>

fun plain :: "'t kv \<Rightarrow> bool" where
  "plain (KvDict d) \<longleftrightarrow> KeyStr ''_compressed'' \<notin> fst ` set d \<and> list_all (\<lambda>(k, v). plain v) d"
| "plain (KvList xs) \<longleftrightarrow> list_all plain xs"
| "plain (KvTuple xs) \<longleftrightarrow> list_all plain xs"
| "plain v \<longleftrightarrow> True"

text \<open>What is left of a value: tensors quantized and back, tuples turned into lists.\<close>

fun dequantized :: "'t tensor_ops \<Rightarrow> 't kv \<Rightarrow> 't kv" where
  "dequantized tn (KvTensor t) = (let (q, sc) = tn_quantize tn ''int4'' t in KvTensor (tn_dequantize tn q sc))"
| "dequantized tn (KvDict d) = KvDict (map (\<lambda>(k, v). (k, dequantized tn v)) d)"
| "dequantized tn (KvList xs) = KvList (map (dequantized tn) xs)"
| "dequantized tn (KvTuple xs) = KvList (map (dequantized tn) xs)"
| "dequantized tn v = v"

lemma sequence_results_Inr: "(\<And>x. x \<in> set xs \<Longrightarrow> f x = Inr (g x)) \<Longrightarrow> sequence_results (map f xs) = Inr (map g xs)"
  by (induction xs) auto

lemma map_of_None_fst: "k \<notin> fst ` set d \<Longrightarrow> map_of (map (\<lambda>(k, v). (k, f v)) d) k = None"
  by (induction d) auto

lemma decompress_compress: "plain v \<Longrightarrow> decompress_preempted_kv tn (compress_kv tn ''int4'' v) = Inr (dequantized tn v)"
proof (induction v rule: plain.induct)
  case (1 d)
  have none: "map_of (map (\<lambda>(k, v). (k, compress_kv tn ''int4'' v)) d) (KeyStr ''_compressed'') = None"
    using 1(2) by (intro map_of_None_fst) simp
  have each: "sequence_results (map (\<lambda>kv. decompress_preempted_kv tn (compress_kv tn ''int4'' (snd kv))) d) =
      Inr (map (\<lambda>kv. dequantized tn (snd kv)) d)"
    using 1 by (intro sequence_results_Inr) (fastforce simp: list_all_iff)
  have zip: "zip (map fst d) (map (\<lambda>kv. dequantized tn (snd kv)) d) = map (\<lambda>(k, v). (k, dequantized tn v)) d"
    by (induction d) auto
  show ?case using none each zip by (simp add: comp_def case_prod_beta)
next
  case (2 xs)
  then have "sequence_results (map (\<lambda>x. decompress_preempted_kv tn (compress_kv tn ''int4'' x)) xs) = Inr (map (dequantized tn) xs)"
    by (intro sequence_results_Inr) (auto simp: list_all_iff)
  then show ?case by (simp add: comp_def)
next
  case (3 xs)
  then have "sequence_results (map (\<lambda>x. decompress_preempted_kv tn (compress_kv tn ''int4'' x)) xs) = Inr (map (dequantized tn) xs)"
    by (intro sequence_results_Inr) (auto simp: list_all_iff)
  then show ?case by (simp add: comp_def)
qed (auto simp: compress_tensor_def decompress_tensor_def case_prod_beta Let_def)

lemma compress_not_none: "compress_kv tn meth v = KvNone \<longleftrightarrow> v = KvNone"
  by (cases v) (auto simp: compress_tensor_def Let_def case_prod_beta)

lemma restore_after_save:
  assumes "map_of c rid = Some v" "v \<noteq> KvNone" "plain v"
  shows "restore_kv_state tn rid (save_kv_state tn rid saved (Some c)) (Some c') =
     (Inr True, AList.delete rid saved, Some (AList.update rid (dequantized tn v) c'))"
  using assms decompress_compress [OF assms(3)]
  by (simp add: save_kv_state_def restore_kv_state_def Let_def compress_not_none delete_update_same)

end
