(* ===== verification/Preemption.thy ===== *)
theory Preemption
  imports KvCache Heapq "HOL-Library.Product_Lexorder"
begin

text \<open>
  \<^verbatim>\<open>PreemptionManager\<close> of \<^verbatim>\<open>core/scheduler/preemption_manager.py\<close>, with the admission operation \<^verbatim>\<open>add\<close> of
  \<^verbatim>\<open>core/batch_scheduler.py\<close> that shares its pending heap and FIFO counter. The containers that the methods receive
  and modify in place (active set, token count, heap, counter, PagedAttention manager) are the record
  \<open>sched\<close>; the manager's own state is the record \<open>preemption\<close>. Heap entries are triples (priority,
  counter, reference): two entries that agree on both numbers are compared on the sequences, which have no
  order, so the comparison raises unless the two sequences are equal.
\<close>

section \<open>State\<close>

type_synonym entry = "int \<times> int \<times> nat"

record 'm sched =
  sc_store :: sstore
  sc_active :: "(string, nat) dict"
  sc_total :: int
  sc_heap :: "entry list"
  sc_counter :: int
  sc_paged :: "'m option"

record 't preemption =
  pm_preempted :: "(string, nat) dict"
  pm_kv :: "(string, 't kv) dict"
  pm_max :: int

definition preemption_init :: "int \<Rightarrow> 't preemption" where
  "preemption_init max_preempted = \<lparr>pm_preempted = [], pm_kv = [], pm_max = max_preempted\<rparr>"

definition set_max_preempted :: "int \<Rightarrow> 't preemption \<Rightarrow> 't preemption" where
  "set_max_preempted n pm = pm\<lparr>pm_max := max 0 n\<rparr>"

definition get_preempted_count :: "'t preemption \<Rightarrow> nat" where
  "get_preempted_count pm = length (pm_preempted pm)"

fun entry_lt :: "sstore \<Rightarrow> entry \<Rightarrow> entry \<Rightarrow> py_error + bool" where
  "entry_lt st (p, c, r) (p', c', r') =
     (if p \<noteq> p' then Inr (p < p') else if c \<noteq> c' then Inr (c < c')
      else if st r = st r' then Inr False else Inl TypeError)"

fun entry_key :: "entry \<Rightarrow> int \<times> int" where
  "entry_key (p, c, r) = (p, c)"

fun entry_ref :: "entry \<Rightarrow> nat" where
  "entry_ref (p, c, r) = r"

interpretation pq: key_order "entry_lt st" entry_key for st
proof
  show "entry_lt st x y = Inr b \<Longrightarrow> b = (entry_key x < entry_key y)" for x y b
    by (cases x; cases y) (auto simp: less_prod_def split: if_splits)
  show "entry_key x \<noteq> entry_key y \<Longrightarrow> entry_lt st x y = Inr (entry_key x < entry_key y)" for x y
    by (cases x; cases y) (auto simp: less_prod_def)
qed

section \<open>Admission\<close>

text \<open>\<^verbatim>\<open>BatchScheduler.add\<close>: back-pressure, then a push with the current counter, which is increased afterwards.\<close>

definition sched_add :: "int \<Rightarrow> nat \<Rightarrow> 'm sched \<Rightarrow> (py_error + unit) \<times> 'm sched" where
  "sched_add max_pending r sc =
     (if int (length (sc_heap sc)) \<ge> max_pending then (Inl BatchCapacityError, sc)
      else case heappush (entry_lt (sc_store sc)) (sq_priority (sc_store sc r), sc_counter sc, r) (sc_heap sc) of
             (Some e, h) \<Rightarrow> (Inl e, sc\<lparr>sc_heap := h\<rparr>)
           | (None, h) \<Rightarrow> (Inr (), sc\<lparr>sc_heap := h, sc_counter := sc_counter sc + 1\<rparr>))"

section \<open>Preemption\<close>

text \<open>The scan over at most the first fifty active sequences.\<close>

fun scan_victim :: "sstore \<Rightarrow> int \<Rightarrow> (string \<times> nat) list \<Rightarrow> (nat \<times> int) option \<Rightarrow> nat option" where
  "scan_victim st min_priority [] best = map_option fst best"
| "scan_victim st min_priority ((k, r) # xs) best =
     (if sq_priority (st r) \<ge> min_priority \<and> (best = None \<or> sq_priority (st r) > snd (the best))
      then scan_victim st min_priority xs (Some (r, sq_priority (st r)))
      else scan_victim st min_priority xs best)"

definition set_status :: "nat \<Rightarrow> sequence_status \<Rightarrow> sstore \<Rightarrow> sstore" where
  "set_status r s st = st(r := (st r)\<lparr>sq_status := s\<rparr>)"

definition preempt_lowest ::
    "'t tensor_ops \<Rightarrow> 'm paged_ops \<Rightarrow> int \<Rightarrow> (string, 't kv) dict option \<Rightarrow> 't preemption \<Rightarrow> 'm sched \<Rightarrow>
     (py_error + nat option) \<times> 't preemption \<times> 'm sched" where
  "preempt_lowest tn ops min_priority cache pm sc =
     (if int (length (pm_preempted pm)) \<ge> pm_max pm then (Inr None, pm, sc)
      else case scan_victim (sc_store sc) min_priority (take 50 (sc_active sc)) None of
             None \<Rightarrow> (Inr None, pm, sc)
           | Some r \<Rightarrow>
               let rid = sq_request_id (sc_store sc r);
                   pm1 = pm\<lparr>pm_kv := save_kv_state tn rid (pm_kv pm) cache\<rparr>;
                   sc1 = sc\<lparr>sc_paged := map_option (\<lambda>m. snd (pa_swap_out_sequence ops rid m)) (sc_paged sc)\<rparr>
               in if map_of (sc_active sc) rid = None then (Inl KeyError, pm1, sc1)
                  else let sc2 = sc1\<lparr>sc_active := AList.delete rid (sc_active sc1),
                                     sc_total := sc_total sc1 - total_len (sc_store sc1 r),
                                     sc_store := set_status r PENDING (sc_store sc1),
                                     sc_counter := sc_counter sc1 + 1\<rparr>
                       in case heappush (entry_lt (sc_store sc2)) (sq_priority (sc_store sc2 r), sc_counter sc2, r) (sc_heap sc2) of
                            (Some e, h) \<Rightarrow> (Inl e, pm1, sc2\<lparr>sc_heap := h\<rparr>)
                          | (None, h) \<Rightarrow> (Inr (Some r), pm1\<lparr>pm_preempted := AList.update rid r (pm_preempted pm1)\<rparr>,
                                         sc2\<lparr>sc_heap := h\<rparr>))"

text \<open>
  \<^verbatim>\<open>preempt_if_needed\<close>: \<open>policy\<close> is the answer function of the connected policy object (pending count, minimal
  priority), \<open>preempt_fn\<close> the callback of the caller (it receives the minimal priority).
\<close>

definition preempt_if_needed ::
    "(int \<Rightarrow> int \<Rightarrow> bool) option \<Rightarrow> (int \<Rightarrow> 's \<Rightarrow> (py_error + nat option) \<times> 's) option \<Rightarrow> int \<Rightarrow> 's \<Rightarrow>
     (py_error + nat option) \<times> 's" where
  "preempt_if_needed policy preempt_fn pending_count s =
     (case policy of
        None \<Rightarrow> (Inr None, s)
      | Some should_preempt \<Rightarrow>
          if should_preempt pending_count 3
          then (case preempt_fn of None \<Rightarrow> (Inr None, s) | Some f \<Rightarrow> f 2 s)
          else (Inr None, s))"

section \<open>Restoration\<close>

record ('t, 'm) restoring =
  rs_pm :: "'t preemption"
  rs_sched :: "'m sched"
  rs_cache :: "(string, 't kv) dict option"
  rs_restored :: "nat list"
  rs_requeued :: "nat list"

text \<open>One round of the loop over the preempted sequences.\<close>

definition restore_one ::
    "'t tensor_ops \<Rightarrow> 'm paged_ops \<Rightarrow> string \<times> nat \<Rightarrow> ('t, 'm) restoring \<Rightarrow> py_error option \<times> ('t, 'm) restoring" where
  "restore_one tn ops kr s =
     (let (rid, r) = kr; pm = rs_pm s; sc = rs_sched s in
      case restore_kv_state tn rid (pm_kv pm) (rs_cache s) of
        (Inl e, kv, cache) \<Rightarrow> (Some e, s\<lparr>rs_pm := pm\<lparr>pm_kv := kv\<rparr>, rs_cache := cache\<rparr>)
      | (Inr False, kv, cache) \<Rightarrow>
          (None, s\<lparr>rs_pm := pm\<lparr>pm_kv := kv\<rparr>, rs_cache := cache,
                   rs_sched := sc\<lparr>sc_store := set_status r PENDING (sc_store sc)\<rparr>,
                   rs_requeued := rs_requeued s @ [r]\<rparr>)
      | (Inr True, kv, cache) \<Rightarrow>
          (None, s\<lparr>rs_pm := pm\<lparr>pm_kv := kv\<rparr>, rs_cache := cache,
                   rs_sched := sc\<lparr>sc_paged := map_option (\<lambda>m. snd (pa_restore_first_block ops rid m)) (sc_paged sc),
                                   sc_store := set_status r DECODING (sc_store sc),
                                   sc_active := AList.update rid r (sc_active sc),
                                   sc_total := sc_total sc + total_len (sc_store sc r)\<rparr>,
                   rs_restored := rs_restored s @ [r]\<rparr>))"

fun restore_loop ::
    "'t tensor_ops \<Rightarrow> 'm paged_ops \<Rightarrow> (string \<times> nat) list \<Rightarrow> ('t, 'm) restoring \<Rightarrow> py_error option \<times> ('t, 'm) restoring" where
  "restore_loop tn ops [] s = (None, s)"
| "restore_loop tn ops (kr # krs) s =
     (case restore_one tn ops kr s of (Some e, s') \<Rightarrow> (Some e, s') | (None, s') \<Rightarrow> restore_loop tn ops krs s')"

text \<open>The second loop pushes the re-queued sequences with their length in the place of the counter.\<close>

fun requeue :: "nat list \<Rightarrow> 'm sched \<Rightarrow> py_error option \<times> 'm sched" where
  "requeue [] sc = (None, sc)"
| "requeue (r # rs) sc =
     (case heappush (entry_lt (sc_store sc)) (sq_priority (sc_store sc r), total_len (sc_store sc r), r) (sc_heap sc) of
        (Some e, h) \<Rightarrow> (Some e, sc\<lparr>sc_heap := h\<rparr>)
      | (None, h) \<Rightarrow> requeue rs (sc\<lparr>sc_heap := h\<rparr>))"

definition drop_entries :: "string list \<Rightarrow> 'm sched \<Rightarrow> entry list" where
  "drop_entries ids sc = filter (\<lambda>(p, c, r). sq_request_id (sc_store sc r) \<notin> set ids) (sc_heap sc)"

definition restore_preempted ::
    "'t tensor_ops \<Rightarrow> 'm paged_ops \<Rightarrow> (string, 't kv) dict option \<Rightarrow> 't preemption \<Rightarrow> 'm sched \<Rightarrow>
     (py_error + nat list) \<times> 't preemption \<times> 'm sched \<times> (string, 't kv) dict option" where
  "restore_preempted tn ops cache pm sc =
     (if pm_preempted pm = [] then (Inr [], pm, sc, cache)
      else case restore_loop tn ops (pm_preempted pm) \<lparr>rs_pm = pm, rs_sched = sc, rs_cache = cache, rs_restored = [], rs_requeued = []\<rparr> of
             (Some e, s) \<Rightarrow> (Inl e, rs_pm s, rs_sched s, rs_cache s)
           | (None, s) \<Rightarrow>
               (case heapify (entry_lt (sc_store (rs_sched s))) (drop_entries (dict_keys (pm_preempted pm)) (rs_sched s)) of
                  (Some e, h) \<Rightarrow> (Inl e, rs_pm s, (rs_sched s)\<lparr>sc_heap := h\<rparr>, rs_cache s)
                | (None, h) \<Rightarrow>
                    (case requeue (rs_requeued s) ((rs_sched s)\<lparr>sc_heap := h\<rparr>) of
                       (Some e, sc') \<Rightarrow> (Inl e, rs_pm s, sc', rs_cache s)
                     | (None, sc') \<Rightarrow> (Inr (rs_restored s), (rs_pm s)\<lparr>pm_preempted := []\<rparr>, sc', rs_cache s))))"

section \<open>Invariant\<close>

definition keyed :: "sstore \<Rightarrow> (string, nat) dict \<Rightarrow> bool" where
  "keyed st d \<longleftrightarrow> dict_wf d \<and> (\<forall>(k, r) \<in> set d. sq_request_id (st r) = k)"

definition tokens_of :: "sstore \<Rightarrow> (string, nat) dict \<Rightarrow> int" where
  "tokens_of st d = (\<Sum>(k, r) \<leftarrow> d. total_len (st r))"

text \<open>Active and preempted sequences are disjoint, the token count is exact, the heap is ordered with distinct keys.\<close>

definition sched_ok :: "'t preemption \<Rightarrow> 'm sched \<Rightarrow> bool" where
  "sched_ok pm sc \<longleftrightarrow>
     keyed (sc_store sc) (sc_active sc) \<and> keyed (sc_store sc) (pm_preempted pm) \<and>
     fst ` set (sc_active sc) \<inter> fst ` set (pm_preempted pm) = {} \<and>
     sc_total sc = tokens_of (sc_store sc) (sc_active sc) \<and>
     pq.is_heap (sc_heap sc) \<and> distinct (map entry_key (sc_heap sc)) \<and>
     (\<forall>e \<in> set (sc_heap sc). snd (entry_key e) \<le> sc_counter sc)"

definition same_but_status :: "sstore \<Rightarrow> sstore \<Rightarrow> bool" where
  "same_but_status st st' \<longleftrightarrow> (\<forall>r. \<exists>s. st' r = (st r)\<lparr>sq_status := s\<rparr>)"

lemma same_but_status_refl [simp]: "same_but_status st st"
  unfolding same_but_status_def by (metis seqn.surjective seqn.update_convs(4))

lemma same_but_status_set [simp]: "same_but_status st (set_status r s st)"
  using same_but_status_refl [of st] unfolding same_but_status_def set_status_def by (metis fun_upd_apply)

lemma same_but_status_trans: "same_but_status a b \<Longrightarrow> same_but_status b c \<Longrightarrow> same_but_status a c"
  unfolding same_but_status_def by (metis (no_types, lifting) seqn.surjective seqn.update_convs(4))

lemma same_but_statusD:
  "same_but_status st st' \<Longrightarrow> sq_request_id (st' r) = sq_request_id (st r)"
  "same_but_status st st' \<Longrightarrow> total_len (st' r) = total_len (st r)"
  "same_but_status st st' \<Longrightarrow> sq_priority (st' r) = sq_priority (st r)"
  unfolding same_but_status_def by (metis seqn.select_convs(1) seqn.surjective seqn.update_convs(4))
    (metis total_len_status, metis seqn.select_convs(5) seqn.surjective seqn.update_convs(4))

lemma set_status_simps [simp]:
  "sq_request_id (set_status r s st r') = sq_request_id (st r')" "total_len (set_status r s st r') = total_len (st r')"
  "sq_priority (set_status r s st r') = sq_priority (st r')"
  "sq_status (set_status r s st r') = (if r' = r then s else sq_status (st r'))"
  by (auto simp: set_status_def)

lemma keyed_same: "same_but_status st st' \<Longrightarrow> keyed st' d \<longleftrightarrow> keyed st d"
  by (simp add: keyed_def same_but_statusD)

lemma tokens_of_same: "same_but_status st st' \<Longrightarrow> tokens_of st' d = tokens_of st d"
  by (simp add: tokens_of_def same_but_statusD)

lemma tokens_of_append [simp]: "tokens_of st (xs @ ys) = tokens_of st xs + tokens_of st ys"
  by (simp add: tokens_of_def)

lemma tokens_of_delete: "dict_wf d \<Longrightarrow> (k, r) \<in> set d \<Longrightarrow> tokens_of st (AList.delete k d) = tokens_of st d - total_len (st r)"
proof (induction d)
  case (Cons x d)
  obtain k' r' where x: "x = (k', r')" by fastforce
  show ?case
  proof (cases "k' = k")
    case True
    then have "k \<notin> fst ` set d" "r' = r" using Cons.prems x by (auto simp: dict_wf_def image_iff)
    then show ?thesis using x True by (simp add: tokens_of_def)
  next
    case False
    then show ?thesis using Cons x by (auto simp: tokens_of_def dict_wf_def)
  qed
qed simp

lemma keyed_delete: "keyed st d \<Longrightarrow> keyed st (AList.delete k d)"
  by (auto simp: keyed_def set_delete)

lemma keyed_snoc: "keyed st d \<Longrightarrow> k \<notin> fst ` set d \<Longrightarrow> sq_request_id (st r) = k \<Longrightarrow> keyed st (d @ [(k, r)])"
  by (auto simp: keyed_def dict_wf_def)

section \<open>The victim\<close>

lemma scan_victim_best:
  "scan_victim st m xs (Some (b, sq_priority (st b))) = Some r \<Longrightarrow>
     (r = b \<or> (\<exists>k. (k, r) \<in> set xs \<and> m \<le> sq_priority (st r))) \<and> sq_priority (st b) \<le> sq_priority (st r)
     \<and> (\<forall>(k, r') \<in> set xs. m \<le> sq_priority (st r') \<longrightarrow> sq_priority (st r') \<le> sq_priority (st r))"
proof (induction xs arbitrary: b)
  case (Cons x xs)
  obtain k q where x: "x = (k, q)" by fastforce
  show ?case
  proof (cases "m \<le> sq_priority (st q) \<and> sq_priority (st q) > sq_priority (st b)")
    case True
    then have "scan_victim st m xs (Some (q, sq_priority (st q))) = Some r" using Cons.prems x by simp
    from Cons.IH [OF this] show ?thesis using True x by auto
  next
    case False
    then have "scan_victim st m xs (Some (b, sq_priority (st b))) = Some r" using Cons.prems x by auto
    from Cons.IH [OF this] show ?thesis using False x by auto
  qed
qed simp

lemma scan_victim_some: "scan_victim st m xs (Some b) \<noteq> None"
  by (induction xs arbitrary: b) auto

lemma scan_victim_Some:
  "scan_victim st m xs None = Some r \<Longrightarrow>
     (\<exists>k. (k, r) \<in> set xs) \<and> m \<le> sq_priority (st r)
     \<and> (\<forall>(k, r') \<in> set xs. m \<le> sq_priority (st r') \<longrightarrow> sq_priority (st r') \<le> sq_priority (st r))"
proof (induction xs)
  case (Cons x xs)
  obtain k q where x: "x = (k, q)" by fastforce
  show ?case
  proof (cases "m \<le> sq_priority (st q)")
    case True
    then have "scan_victim st m xs (Some (q, sq_priority (st q))) = Some r" using Cons.prems x by simp
    from scan_victim_best [OF this] show ?thesis using True x by auto
  next
    case False
    then show ?thesis using Cons x by auto
  qed
qed simp

lemma scan_victim_None: "scan_victim st m xs None = None \<longleftrightarrow> (\<forall>(k, r) \<in> set xs. sq_priority (st r) < m)"
proof (induction xs)
  case (Cons x xs)
  then show ?case using scan_victim_some [of st m xs] by (cases x) (auto simp: not_le)
qed simp

section \<open>Preempting\<close>

lemma entry_keys_fresh:
  "\<forall>e \<in> set h. snd (entry_key e) \<le> c \<Longrightarrow> distinct (map entry_key h) \<Longrightarrow> c < c' \<Longrightarrow> distinct (map entry_key ((p, c', r) # h))"
  by fastforce

lemma heappush_entry:
  assumes "pq.is_heap h" "distinct (map entry_key (e # h))"
  obtains h' where "heappush (entry_lt st) e h = (None, h')" "pq.is_heap h'" "mset h' = add_mset e (mset h)"
    "distinct (map entry_key h')"
proof -
  obtain h' where h': "heappush (entry_lt st) e h = (None, h')"
    using pq.heappush_total [OF assms(2), of st] by (metis prod.collapse)
  have m: "mset h' = mset (e # h)" using heappush_mset [OF h'] by simp
  then have "distinct (map entry_key h')" using assms(2) by (metis mset_eq_imp_distinct_iff mset_map)
  then show thesis using that [OF h' pq.heappush_heap [OF h' assms(1)]] m by simp
qed

text \<open>The result of a preemption that finds a victim.\<close>

lemma preempt_lowest_victim:
  assumes ok: "sched_ok pm sc" and room: "int (length (pm_preempted pm)) < pm_max pm"
    and v: "scan_victim (sc_store sc) minp (take 50 (sc_active sc)) None = Some r"
  defines "rid \<equiv> sq_request_id (sc_store sc r)"
  obtains h where "preempt_lowest tn ops minp cache pm sc =
      (Inr (Some r),
       pm\<lparr>pm_kv := save_kv_state tn rid (pm_kv pm) cache, pm_preempted := pm_preempted pm @ [(rid, r)]\<rparr>,
       sc\<lparr>sc_paged := map_option (\<lambda>m. snd (pa_swap_out_sequence ops rid m)) (sc_paged sc),
          sc_active := AList.delete rid (sc_active sc), sc_total := sc_total sc - total_len (sc_store sc r),
          sc_store := set_status r PENDING (sc_store sc), sc_counter := sc_counter sc + 1, sc_heap := h\<rparr>)"
    and "pq.is_heap h" and "mset h = add_mset (sq_priority (sc_store sc r), sc_counter sc + 1, r) (mset (sc_heap sc))"
    and "distinct (map entry_key h)" and "(rid, r) \<in> set (sc_active sc)"
proof -
  obtain k where "(k, r) \<in> set (sc_active sc)" using scan_victim_Some [OF v] by (auto dest: in_set_takeD)
  moreover have keyed: "keyed (sc_store sc) (sc_active sc)" using ok by (simp add: sched_ok_def)
  ultimately have mem: "(rid, r) \<in> set (sc_active sc)" by (auto simp: keyed_def rid_def)
  then have act: "map_of (sc_active sc) rid = Some r" using keyed by (auto simp: keyed_def dict_mem_iff)
  have new: "rid \<notin> fst ` set (pm_preempted pm)" using ok mem by (force simp: sched_ok_def)
  let ?e = "(sq_priority (sc_store sc r), sc_counter sc + 1, r)"
  have d: "distinct (map entry_key (?e # sc_heap sc))" using ok by (intro entry_keys_fresh) (auto simp: sched_ok_def)
  have i: "pq.is_heap (sc_heap sc)" using ok by (simp add: sched_ok_def)
  obtain h where h: "heappush (entry_lt (set_status r PENDING (sc_store sc))) ?e (sc_heap sc) = (None, h)"
    "pq.is_heap h" "mset h = add_mset ?e (mset (sc_heap sc))" "distinct (map entry_key h)"
    by (rule heappush_entry [OF i d, where st = "set_status r PENDING (sc_store sc)"]) blast
  show thesis
    by (rule that [OF _ h(2-4) mem])
      (use room v act h(1) new in \<open>simp add: preempt_lowest_def Let_def rid_def [symmetric] update_new\<close>)
qed

lemma preempt_lowest_no_victim:
  "\<not> int (length (pm_preempted pm)) < pm_max pm \<or> scan_victim (sc_store sc) minp (take 50 (sc_active sc)) None = None \<Longrightarrow>
     preempt_lowest tn ops minp cache pm sc = (Inr None, pm, sc)"
  by (auto simp: preempt_lowest_def)

lemma preempt_lowest_cases:
  assumes ok: "sched_ok pm sc"
  obtains (none) "preempt_lowest tn ops minp cache pm sc = (Inr None, pm, sc)"
      "int (length (pm_preempted pm)) \<ge> pm_max pm \<or> (\<forall>(k, r) \<in> set (take 50 (sc_active sc)). sq_priority (sc_store sc r) < minp)"
  | (victim) r h where "int (length (pm_preempted pm)) < pm_max pm"
      "scan_victim (sc_store sc) minp (take 50 (sc_active sc)) None = Some r"
      "preempt_lowest tn ops minp cache pm sc =
        (Inr (Some r),
         pm\<lparr>pm_kv := save_kv_state tn (sq_request_id (sc_store sc r)) (pm_kv pm) cache,
            pm_preempted := pm_preempted pm @ [(sq_request_id (sc_store sc r), r)]\<rparr>,
         sc\<lparr>sc_paged := map_option (\<lambda>m. snd (pa_swap_out_sequence ops (sq_request_id (sc_store sc r)) m)) (sc_paged sc),
            sc_active := AList.delete (sq_request_id (sc_store sc r)) (sc_active sc),
            sc_total := sc_total sc - total_len (sc_store sc r),
            sc_store := set_status r PENDING (sc_store sc), sc_counter := sc_counter sc + 1, sc_heap := h\<rparr>)"
      "mset h = add_mset (sq_priority (sc_store sc r), sc_counter sc + 1, r) (mset (sc_heap sc))"
      "(sq_request_id (sc_store sc r), r) \<in> set (sc_active sc)"
      "sched_ok (fst (snd (preempt_lowest tn ops minp cache pm sc))) (snd (snd (preempt_lowest tn ops minp cache pm sc)))"
proof (cases "int (length (pm_preempted pm)) < pm_max pm \<and> scan_victim (sc_store sc) minp (take 50 (sc_active sc)) None \<noteq> None")
  case False
  then show thesis
    using preempt_lowest_no_victim [of pm sc minp tn ops cache]
      scan_victim_None [of "sc_store sc" minp "take 50 (sc_active sc)"] by (intro none) auto
next
  case True
  then obtain r where room: "int (length (pm_preempted pm)) < pm_max pm"
    and v: "scan_victim (sc_store sc) minp (take 50 (sc_active sc)) None = Some r" by auto
  define rid where "rid = sq_request_id (sc_store sc r)"
  obtain h where res: "preempt_lowest tn ops minp cache pm sc =
      (Inr (Some r),
       pm\<lparr>pm_kv := save_kv_state tn rid (pm_kv pm) cache, pm_preempted := pm_preempted pm @ [(rid, r)]\<rparr>,
       sc\<lparr>sc_paged := map_option (\<lambda>m. snd (pa_swap_out_sequence ops rid m)) (sc_paged sc),
          sc_active := AList.delete rid (sc_active sc), sc_total := sc_total sc - total_len (sc_store sc r),
          sc_store := set_status r PENDING (sc_store sc), sc_counter := sc_counter sc + 1, sc_heap := h\<rparr>)"
    (is "_ = (_, ?pm, ?sc)")
    and h: "pq.is_heap h" "mset h = add_mset (sq_priority (sc_store sc r), sc_counter sc + 1, r) (mset (sc_heap sc))"
      "distinct (map entry_key h)" and mem: "(rid, r) \<in> set (sc_active sc)"
    by (rule preempt_lowest_victim [OF ok room v, of tn ops cache, folded rid_def])
  have "rid \<notin> fst ` set (pm_preempted pm)" using ok mem by (force simp: sched_ok_def)
  moreover have "keyed (sc_store sc) (pm_preempted pm)" using ok by (simp add: sched_ok_def)
  ultimately have kp: "keyed (sc_store sc) (pm_preempted pm @ [(rid, r)])"
    by (intro keyed_snoc) (simp_all add: rid_def)
  have "set h = insert (sq_priority (sc_store sc r), sc_counter sc + 1, r) (set (sc_heap sc))"
    using h(2) by (metis set_mset_add_mset_insert set_mset_mset)
  then have cnt: "\<forall>e \<in> set h. snd (entry_key e) \<le> sc_counter sc + 1" using ok by (force simp: sched_ok_def)
  have "sched_ok ?pm ?sc"
    using ok kp h cnt mem tokens_of_delete [of "sc_active sc" rid r "sc_store sc"]
    by (auto simp: sched_ok_def keyed_same [OF same_but_status_set] tokens_of_same [OF same_but_status_set]
        set_delete keyed_delete) (auto simp: keyed_def)
  then show thesis
    using res h(2) mem unfolding rid_def by (intro victim [OF room v]) auto
qed

text \<open>C26: preemption is safe and picks the least important work. From a consistent state \<^verbatim>\<open>preempt_lowest\<close> never
  raises and leaves a consistent state. It preempts nobody exactly when the limit is reached or none of the
  first fifty active sequences has the minimal priority; otherwise its victim has the largest priority
  number among those, leaves the active set with its tokens, is recorded as preempted and is queued again.
\<close>

theorem preempt_lowest_correct:
  assumes ok: "sched_ok pm sc"
  shows "\<exists>res pm' sc'. preempt_lowest tn ops minp cache pm sc = (Inr res, pm', sc') \<and> sched_ok pm' sc'
     \<and> (res = None \<longleftrightarrow> int (length (pm_preempted pm)) \<ge> pm_max pm
          \<or> (\<forall>(k, r) \<in> set (take 50 (sc_active sc)). sq_priority (sc_store sc r) < minp))
     \<and> (res = None \<longrightarrow> pm' = pm \<and> sc' = sc)
     \<and> (\<forall>r. res = Some r \<longrightarrow>
          (\<exists>rid. (rid, r) \<in> set (sc_active sc) \<and> minp \<le> sq_priority (sc_store sc r)
             \<and> (\<forall>(k, q) \<in> set (take 50 (sc_active sc)). sq_priority (sc_store sc q) \<le> sq_priority (sc_store sc r)
                   \<or> sq_priority (sc_store sc q) < minp)
             \<and> sc_active sc' = AList.delete rid (sc_active sc) \<and> pm_preempted pm' = pm_preempted pm @ [(rid, r)]
             \<and> sq_status (sc_store sc' r) = PENDING
             \<and> mset (sc_heap sc') = add_mset (sq_priority (sc_store sc r), sc_counter sc + 1, r) (mset (sc_heap sc))))"
proof (cases rule: preempt_lowest_cases [OF ok, of tn ops minp cache, case_names none victim])
  case none
  then show ?thesis using ok by auto
next
  case (victim r h)
  have ne: "\<not> (int (length (pm_preempted pm)) \<ge> pm_max pm
      \<or> (\<forall>(k, r) \<in> set (take 50 (sc_active sc)). sq_priority (sc_store sc r) < minp))"
    using victim(1,2) scan_victim_None [of "sc_store sc" minp "take 50 (sc_active sc)"] by auto
  obtain pm' sc' where p: "preempt_lowest tn ops minp cache pm sc = (Inr (Some r), pm', sc')" using victim(3) by blast
  have "sc_active sc' = AList.delete (sq_request_id (sc_store sc r)) (sc_active sc)"
    "pm_preempted pm' = pm_preempted pm @ [(sq_request_id (sc_store sc r), r)]" "sq_status (sc_store sc' r) = PENDING"
    "sc_heap sc' = h"
    using victim(3) p by auto
  moreover have "sched_ok pm' sc'" using victim(6) p by simp
  moreover have "\<forall>(k, q) \<in> set (take 50 (sc_active sc)). sq_priority (sc_store sc q) \<le> sq_priority (sc_store sc r) \<or> sq_priority (sc_store sc q) < minp"
    using scan_victim_Some [OF victim(2)] by fastforce
  ultimately show ?thesis
    using victim(4,5) ne scan_victim_Some [OF victim(2)] p
    by (intro exI [of _ "Some r"] exI [of _ pm'] exI [of _ sc'] conjI allI impI exI [of _ "sq_request_id (sc_store sc r)"]) auto
qed

section \<open>Restoring\<close>

lemma restore_one_cases:
  assumes "restore_one tn ops (k, r) s = (None, s1)"
  obtains (requeued) kv cache where "s1 = s\<lparr>rs_pm := (rs_pm s)\<lparr>pm_kv := kv\<rparr>, rs_cache := cache,
        rs_sched := (rs_sched s)\<lparr>sc_store := set_status r PENDING (sc_store (rs_sched s))\<rparr>,
        rs_requeued := rs_requeued s @ [r]\<rparr>"
      "restore_kv_state tn k (pm_kv (rs_pm s)) (rs_cache s) = (Inr False, kv, cache)"
  | (restored) kv cache paged where "s1 = s\<lparr>rs_pm := (rs_pm s)\<lparr>pm_kv := kv\<rparr>, rs_cache := cache,
        rs_sched := (rs_sched s)\<lparr>sc_paged := paged, sc_store := set_status r DECODING (sc_store (rs_sched s)),
                        sc_active := AList.update k r (sc_active (rs_sched s)),
                        sc_total := sc_total (rs_sched s) + total_len (sc_store (rs_sched s) r)\<rparr>,
        rs_restored := rs_restored s @ [r]\<rparr>"
      "restore_kv_state tn k (pm_kv (rs_pm s)) (rs_cache s) = (Inr True, kv, cache)"
  using assms by (auto simp: restore_one_def Let_def split: prod.splits sum.splits bool.splits)

text \<open>
  The loop splits the preempted sequences into those restored, \<open>R\<close>, and those to be queued again, \<open>Q\<close>.
\<close>

definition loop_split :: "(string \<times> nat) list \<Rightarrow> ('t, 'm) restoring \<Rightarrow> ('t, 'm) restoring \<Rightarrow>
    (string, nat) dict \<Rightarrow> (string, nat) dict \<Rightarrow> bool" where
  "loop_split krs s s' R Q \<longleftrightarrow>
     mset krs = mset R + mset Q \<and> sc_active (rs_sched s') = sc_active (rs_sched s) @ R
     \<and> rs_restored s' = rs_restored s @ map snd R \<and> rs_requeued s' = rs_requeued s @ map snd Q
     \<and> sc_total (rs_sched s') = sc_total (rs_sched s) + tokens_of (sc_store (rs_sched s)) R
     \<and> (\<forall>(k, r) \<in> set R. sq_status (sc_store (rs_sched s') r) = DECODING)
     \<and> (\<forall>(k, r) \<in> set Q. sq_status (sc_store (rs_sched s') r) = PENDING)"

definition loop_frame :: "(string \<times> nat) list \<Rightarrow> ('t, 'm) restoring \<Rightarrow> ('t, 'm) restoring \<Rightarrow> bool" where
  "loop_frame krs s s' \<longleftrightarrow>
     same_but_status (sc_store (rs_sched s)) (sc_store (rs_sched s')) \<and> sc_heap (rs_sched s') = sc_heap (rs_sched s)
     \<and> sc_counter (rs_sched s') = sc_counter (rs_sched s)
     \<and> (\<forall>r. r \<notin> snd ` set krs \<longrightarrow> sc_store (rs_sched s') r = sc_store (rs_sched s) r)"

lemma restore_loop_facts:
  assumes "restore_loop tn ops krs s = (None, s')" "keyed (sc_store (rs_sched s)) krs"
    and "keyed (sc_store (rs_sched s)) (sc_active (rs_sched s))" "fst ` set krs \<inter> fst ` set (sc_active (rs_sched s)) = {}"
  shows "loop_frame krs s s' \<and> (\<exists>R Q. loop_split krs s s' R Q)"
  using assms
proof (induction krs arbitrary: s)
  case Nil
  then have "loop_frame [] s s' \<and> loop_split [] s s' [] []" by (simp add: loop_frame_def loop_split_def tokens_of_def)
  then show ?case by blast
next
  case (Cons kr krs)
  obtain k r where kr: "kr = (k, r)" by fastforce
  have kid: "sq_request_id (sc_store (rs_sched s) r) = k" "keyed (sc_store (rs_sched s)) krs" "k \<notin> fst ` set krs"
    using Cons.prems(2) kr by (auto simp: keyed_def dict_wf_def)
  have fresh: "r \<notin> snd ` set krs" using kid by (force simp: keyed_def)
  have knew: "k \<notin> fst ` set (sc_active (rs_sched s))" using Cons.prems(4) kr by auto
  from Cons.prems(1) obtain s1 where one: "restore_one tn ops (k, r) s = (None, s1)"
    and rest: "restore_loop tn ops krs s1 = (None, s')"
    by (auto simp: kr split: prod.splits option.splits)
  from one show ?case
  proof (cases rule: restore_one_cases)
    case (requeued kv cache)
    have same: "same_but_status (sc_store (rs_sched s)) (sc_store (rs_sched s1))" by (simp add: requeued)
    have IH: "loop_frame krs s1 s'" "\<exists>R Q. loop_split krs s1 s' R Q"
      using Cons.IH [OF rest] kid(2) Cons.prems(3,4) kr by (auto simp: keyed_same [OF same]) (auto simp: requeued)
    from IH(2) obtain R Q where RQ: "loop_split krs s1 s' R Q" by blast
    have "sq_status (sc_store (rs_sched s') r) = PENDING" using IH(1) fresh by (simp add: loop_frame_def requeued)
    then have "loop_split (kr # krs) s s' R ((k, r) # Q)"
      using RQ by (auto simp: loop_split_def kr requeued tokens_of_same [OF same_but_status_set])
    moreover have "loop_frame (kr # krs) s s'"
      using IH(1) same by (auto simp: loop_frame_def kr requeued set_status_def intro: same_but_status_trans)
    ultimately show ?thesis by blast
  next
    case (restored kv cache paged)
    have same: "same_but_status (sc_store (rs_sched s)) (sc_store (rs_sched s1))" by (simp add: restored)
    have act: "sc_active (rs_sched s1) = sc_active (rs_sched s) @ [(k, r)]" using knew by (simp add: restored update_new)
    have k1: "keyed (sc_store (rs_sched s1)) (sc_active (rs_sched s1))"
      using keyed_snoc [OF Cons.prems(3) knew kid(1)] by (simp add: act keyed_same [OF same])
    have IH: "loop_frame krs s1 s'" "\<exists>R Q. loop_split krs s1 s' R Q"
      using Cons.IH [OF rest _ k1] kid(2,3) Cons.prems(4) kr by (auto simp: keyed_same [OF same] act)
    from IH(2) obtain R Q where RQ: "loop_split krs s1 s' R Q" by blast
    have "sq_status (sc_store (rs_sched s') r) = DECODING" using IH(1) fresh by (simp add: loop_frame_def restored)
    then have "loop_split (kr # krs) s s' ((k, r) # R) Q"
      using RQ act by (auto simp: loop_split_def kr restored tokens_of_def)
    moreover have "loop_frame (kr # krs) s s'"
      using IH(1) same by (auto simp: loop_frame_def kr restored set_status_def intro: same_but_status_trans)
    ultimately show ?thesis by blast
  qed
qed

lemma requeue_facts:
  assumes "requeue rs sc = (None, sc')" "pq.is_heap (sc_heap sc)"
  shows "pq.is_heap (sc_heap sc') \<and> sc' = sc\<lparr>sc_heap := sc_heap sc'\<rparr>
     \<and> mset (sc_heap sc') = mset (sc_heap sc) + mset (map (\<lambda>r. (sq_priority (sc_store sc r), total_len (sc_store sc r), r)) rs)"
  using assms
proof (induction rs arbitrary: sc)
  case (Cons r rs)
  then obtain h where h: "heappush (entry_lt (sc_store sc)) (sq_priority (sc_store sc r), total_len (sc_store sc r), r) (sc_heap sc) = (None, h)"
    and rest: "requeue rs (sc\<lparr>sc_heap := h\<rparr>) = (None, sc')" by (auto split: prod.splits option.splits)
  have "pq.is_heap h" using pq.heappush_heap [OF h] Cons.prems(2) by simp
  then show ?case using Cons.IH [OF rest] heappush_mset [OF h] by simp
qed simp

lemma drop_entries_same:
  "same_but_status (sc_store sc) (sc_store sc') \<Longrightarrow> sc_heap sc' = sc_heap sc \<Longrightarrow> drop_entries ids sc' = drop_entries ids sc"
  by (simp add: drop_entries_def same_but_statusD)

lemma keyed_append: "keyed st (xs @ ys) \<longleftrightarrow> keyed st xs \<and> keyed st ys \<and> fst ` set xs \<inter> fst ` set ys = {}"
  unfolding keyed_def dict_wf_def by (simp add: ball_Un) blast

lemma keyed_mset:
  assumes "mset xs = mset ys" shows "keyed st xs \<longleftrightarrow> keyed st ys"
proof -
  have "mset (map fst xs) = mset (map fst ys)" using assms by simp
  then have "distinct (map fst xs) \<longleftrightarrow> distinct (map fst ys)" by (rule mset_eq_imp_distinct_iff)
  moreover have "set xs = set ys" using assms by (rule mset_eq_setD)
  ultimately show ?thesis by (simp add: keyed_def dict_wf_def)
qed

lemma restore_preempted_facts:
  assumes ok: "sched_ok pm sc" and ret: "restore_preempted tn ops cache pm sc = (Inr rs, pm', sc', cache')"
  shows "pm_preempted pm' = [] \<and> keyed (sc_store sc') (sc_active sc')
     \<and> sc_total sc' = tokens_of (sc_store sc') (sc_active sc') \<and> pq.is_heap (sc_heap sc')
     \<and> same_but_status (sc_store sc) (sc_store sc')
     \<and> (\<exists>R Q. mset (pm_preempted pm) = mset R + mset Q \<and> rs = map snd R \<and> sc_active sc' = sc_active sc @ R
          \<and> (\<forall>(k, r) \<in> set R. sq_status (sc_store sc' r) = DECODING) \<and> (\<forall>(k, r) \<in> set Q. sq_status (sc_store sc' r) = PENDING)
          \<and> mset (sc_heap sc') = mset (drop_entries (dict_keys (pm_preempted pm)) sc)
               + mset (map (\<lambda>(k, r). (sq_priority (sc_store sc r), total_len (sc_store sc r), r)) Q))"
proof (cases "pm_preempted pm = []")
  case True
  then show ?thesis using ok ret by (auto simp: restore_preempted_def sched_ok_def drop_entries_def)
next
  case False
  let ?s0 = "\<lparr>rs_pm = pm, rs_sched = sc, rs_cache = cache, rs_restored = [], rs_requeued = []\<rparr>"
  from ret False obtain s h where lp: "restore_loop tn ops (pm_preempted pm) ?s0 = (None, s)"
    and hy: "heapify (entry_lt (sc_store (rs_sched s))) (drop_entries (dict_keys (pm_preempted pm)) (rs_sched s)) = (None, h)"
    and rq: "requeue (rs_requeued s) ((rs_sched s)\<lparr>sc_heap := h\<rparr>) = (None, sc')"
    and eqs: "rs = rs_restored s" "pm' = (rs_pm s)\<lparr>pm_preempted := []\<rparr>"
    by (auto simp: restore_preempted_def split: prod.splits option.splits)
  have "loop_frame (pm_preempted pm) ?s0 s \<and> (\<exists>R Q. loop_split (pm_preempted pm) ?s0 s R Q)"
    using ok by (intro restore_loop_facts [OF lp]) (auto simp: sched_ok_def)
  then obtain R Q where fr: "loop_frame (pm_preempted pm) ?s0 s" and sp: "loop_split (pm_preempted pm) ?s0 s R Q" by blast
  have same: "same_but_status (sc_store sc) (sc_store (rs_sched s))" using fr by (simp add: loop_frame_def)
  have drop: "drop_entries (dict_keys (pm_preempted pm)) (rs_sched s) = drop_entries (dict_keys (pm_preempted pm)) sc"
    using fr by (intro drop_entries_same) (auto simp: loop_frame_def)
  have h: "pq.is_heap h" "mset h = mset (drop_entries (dict_keys (pm_preempted pm)) sc)"
    using pq.heapify_heap [OF hy] heapify_mset [OF hy] drop by auto
  have sc': "pq.is_heap (sc_heap sc')" "sc' = (rs_sched s)\<lparr>sc_heap := sc_heap sc'\<rparr>"
    "mset (sc_heap sc') = mset h + mset (map (\<lambda>r. (sq_priority (sc_store sc r), total_len (sc_store sc r), r)) (map snd Q))"
    using requeue_facts [OF rq] h(1) sp same by (auto simp: loop_split_def same_but_statusD image_mset.compositionality comp_def)
  have fields: "sc_store sc' = sc_store (rs_sched s)" "sc_active sc' = sc_active sc @ R"
    "sc_total sc' = tokens_of (sc_store sc) (sc_active sc) + tokens_of (sc_store sc) R"
    using sp ok by (subst sc'(2); simp add: loop_split_def sched_ok_def)+
  have "keyed (sc_store sc) (R @ Q)" using keyed_mset [of "pm_preempted pm" "R @ Q"] sp ok by (simp add: loop_split_def sched_ok_def)
  moreover have "set R \<subseteq> set (pm_preempted pm)" using sp by (metis loop_split_def mset_subset_eq_add_left set_mset_mono set_mset_mset)
  then have "fst ` set R \<subseteq> fst ` set (pm_preempted pm)" by (rule image_mono)
  then have "fst ` set (sc_active sc) \<inter> fst ` set R = {}" using ok unfolding sched_ok_def by blast
  ultimately have "keyed (sc_store sc) (sc_active sc @ R)" using ok by (simp add: keyed_append sched_ok_def)
  then have "keyed (sc_store sc') (sc_active sc')" "sc_total sc' = tokens_of (sc_store sc') (sc_active sc')"
    using fields same by (simp_all add: keyed_same [OF same] tokens_of_same [OF same])
  moreover have "mset (sc_heap sc') = mset (drop_entries (dict_keys (pm_preempted pm)) sc)
      + mset (map (\<lambda>(k, r). (sq_priority (sc_store sc r), total_len (sc_store sc r), r)) Q)"
    using sc'(3) h(2) by (simp add: comp_def case_prod_unfold image_mset.compositionality)
  ultimately show ?thesis
    using sp fields sc'(1) eqs same by (auto simp: loop_split_def intro!: exI [of _ R] exI [of _ Q])
qed

text \<open>When the KV state of every preempted sequence is on record, restoration cannot fail and requeues nobody.\<close>

definition kv_saved :: "'t tensor_ops \<Rightarrow> (string, 't kv) dict \<Rightarrow> string \<Rightarrow> bool" where
  "kv_saved tn saved k \<longleftrightarrow> (\<exists>v v'. map_of saved k = Some v \<and> v \<noteq> KvNone \<and> decompress_preempted_kv tn v = Inr v')"

lemma restore_loop_saved:
  assumes "distinct (map fst krs)" "\<forall>k \<in> fst ` set krs. kv_saved tn (pm_kv (rs_pm s)) k" "rs_cache s \<noteq> None"
  shows "\<exists>s'. restore_loop tn ops krs s = (None, s') \<and> rs_requeued s' = rs_requeued s \<and> rs_restored s' = rs_restored s @ map snd krs"
  using assms
proof (induction krs arbitrary: s)
  case (Cons kr krs)
  obtain k r where kr: "kr = (k, r)" by fastforce
  obtain v v' c where v: "map_of (pm_kv (rs_pm s)) k = Some v" "v \<noteq> KvNone" "decompress_preempted_kv tn v = Inr v'"
    and c: "rs_cache s = Some c" using Cons.prems kr by (auto simp: kv_saved_def)
  then have "restore_kv_state tn k (pm_kv (rs_pm s)) (rs_cache s) =
      (Inr True, AList.delete k (pm_kv (rs_pm s)), Some (AList.update k v' c))"
    by (simp add: restore_kv_state_def Let_def)
  then obtain s1 where one: "restore_one tn ops (k, r) s = (None, s1)" "rs_requeued s1 = rs_requeued s" "rs_restored s1 = rs_restored s @ [r]"
      "pm_kv (rs_pm s1) = AList.delete k (pm_kv (rs_pm s))" "rs_cache s1 \<noteq> None"
    by (simp add: restore_one_def Let_def)
  have "\<forall>k' \<in> fst ` set krs. kv_saved tn (pm_kv (rs_pm s1)) k'"
    using Cons.prems kr by (auto simp: kv_saved_def one(4))
  with Cons.IH [of s1] Cons.prems(1) one show ?case by (auto simp: kr)
qed simp

lemma restore_preempted_saved:
  assumes ok: "sched_ok pm sc" and saved: "\<forall>k \<in> fst ` set (pm_preempted pm). kv_saved tn (pm_kv pm) k"
  shows "\<exists>pm' sc' cache'. restore_preempted tn ops (Some c) pm sc = (Inr (map snd (pm_preempted pm)), pm', sc', cache') \<and> sched_ok pm' sc'"
proof (cases "pm_preempted pm = []")
  case True
  then show ?thesis using ok by (auto simp: restore_preempted_def)
next
  case False
  let ?s0 = "\<lparr>rs_pm = pm, rs_sched = sc, rs_cache = Some c, rs_restored = [], rs_requeued = []\<rparr>"
  have keyed: "keyed (sc_store sc) (pm_preempted pm)" using ok by (simp add: sched_ok_def)
  then have "distinct (map fst (pm_preempted pm))" by (simp add: keyed_def dict_wf_def)
  then obtain s where lp: "restore_loop tn ops (pm_preempted pm) ?s0 = (None, s)" and rq: "rs_requeued s = []"
    and rs: "rs_restored s = map snd (pm_preempted pm)"
    using restore_loop_saved [of "pm_preempted pm" tn ?s0 ops] saved by auto
  have "loop_frame (pm_preempted pm) ?s0 s \<and> (\<exists>R Q. loop_split (pm_preempted pm) ?s0 s R Q)"
    using ok by (intro restore_loop_facts [OF lp]) (auto simp: sched_ok_def)
  then have fr: "loop_frame (pm_preempted pm) ?s0 s" by blast
  let ?d = "drop_entries (dict_keys (pm_preempted pm)) sc"
  have drop: "drop_entries (dict_keys (pm_preempted pm)) (rs_sched s) = ?d"
    using fr by (intro drop_entries_same) (auto simp: loop_frame_def)
  have sub: "set ?d \<subseteq> set (sc_heap sc)" by (auto simp: drop_entries_def)
  have dist: "distinct (map entry_key ?d)" using ok by (simp add: drop_entries_def sched_ok_def distinct_map_filter)
  obtain h where hy: "heapify (entry_lt (sc_store (rs_sched s))) ?d = (None, h)"
    using pq.heapify_total [OF dist, of "sc_store (rs_sched s)"] by (metis prod.collapse)
  define sc' where "sc' = (rs_sched s)\<lparr>sc_heap := h\<rparr>"
  have ret: "restore_preempted tn ops (Some c) pm sc =
      (Inr (map snd (pm_preempted pm)), (rs_pm s)\<lparr>pm_preempted := []\<rparr>, sc', rs_cache s)"
    using False lp drop hy rq rs by (simp add: restore_preempted_def sc'_def)
  have "mset h = mset ?d" by (rule heapify_mset [OF hy])
  then have "distinct (map entry_key h)" "set h \<subseteq> set (sc_heap sc)"
    using dist sub by (metis mset_eq_imp_distinct_iff mset_map, metis mset_eq_setD)
  moreover have "sc_counter sc' = sc_counter sc" using fr by (simp add: loop_frame_def sc'_def)
  ultimately have "sched_ok ((rs_pm s)\<lparr>pm_preempted := []\<rparr>) sc'"
    using restore_preempted_facts [OF ok ret] ok by (auto simp: sched_ok_def sc'_def keyed_def)
  with ret show ?thesis by blast
qed

text \<open>Restoration loses and duplicates nobody. When \<^verbatim>\<open>restore_preempted\<close> returns from a consistent state, every
  preempted sequence is either active again and decoding (\<open>R\<close>, the returned list) or, its KV state not being
  restorable, queued again exactly once as pending (\<open>Q\<close>); the sequences active before stay active, the
  pending entries of other requests stay in the heap, which is again ordered, the token count is exact, and nobody is left
  recorded as preempted.
\<close>

theorem restore_preempted_conserves:
  assumes ok: "sched_ok pm sc" and ret: "restore_preempted tn ops cache pm sc = (Inr rs, pm', sc', cache')"
  shows "pm_preempted pm' = [] \<and> keyed (sc_store sc') (sc_active sc')
     \<and> sc_total sc' = tokens_of (sc_store sc') (sc_active sc') \<and> pq.is_heap (sc_heap sc')
     \<and> same_but_status (sc_store sc) (sc_store sc')
     \<and> (\<exists>R Q. mset (pm_preempted pm) = mset R + mset Q \<and> rs = map snd R \<and> sc_active sc' = sc_active sc @ R
          \<and> (\<forall>(k, r) \<in> set R. sq_status (sc_store sc' r) = DECODING) \<and> (\<forall>(k, r) \<in> set Q. sq_status (sc_store sc' r) = PENDING)
          \<and> mset (sc_heap sc') = mset (drop_entries (dict_keys (pm_preempted pm)) sc)
               + mset (map (\<lambda>(k, r). (sq_priority (sc_store sc r), total_len (sc_store sc r), r)) Q))"
  by (rule restore_preempted_facts [OF ok ret])

section \<open>Examples and consequences\<close>

text \<open>A scheduler with a critical and a low-priority sequence active and one more waiting.\<close>

definition demo_store :: sstore where
  "demo_store r =
     (if r = 0 then sequence_new ''a'' [1, 2, 3] 0 8 [] None None 1
      else if r = 1 then sequence_new ''b'' [4, 5] 3 8 [] None None 2
      else if r = 2 then sequence_new ''c'' [6] 2 8 [] None None 3
      else sequence_new ''d'' [7] 3 8 [] None None 4)"

definition demo_sched :: "string list sched" where
  "demo_sched = \<lparr>sc_store = demo_store, sc_active = [(''a'', 0), (''b'', 1)], sc_total = 5, sc_heap = [(2, 0, 2)],
     sc_counter = 1, sc_paged = None\<rparr>"

definition demo_tensors :: "int tensor_ops" where
  "demo_tensors = \<lparr>tn_quantize = (\<lambda>meth t. (t, 1)), tn_dequantize = (\<lambda>q s. q * s), tn_truth = (\<lambda>t. Inr (t \<noteq> 0))\<rparr>"

definition demo_cache :: "(string, int kv) dict" where
  "demo_cache = [(''a'', KvList [KvTensor 5]), (''b'', KvTuple [KvTensor 7, KvTensor 9])]"

lemma demo_seqs [simp]:
  "sq_request_id (demo_store 0) = ''a''" "sq_request_id (demo_store (Suc 0)) = ''b''"
  "total_len (demo_store 0) = 3" "total_len (demo_store (Suc 0)) = 2"
  "sq_priority (demo_store 0) = 0" "sq_priority (demo_store (Suc 0)) = 3"
  by (simp_all add: demo_store_def sequence_new_def post_init_def clamp_priority_def total_len_def)

lemma demo_ok: "sched_ok (preemption_init 4) demo_sched"
  by (simp add: sched_ok_def demo_sched_def preemption_init_def keyed_def dict_wf_def tokens_of_def pq.is_heap_def pq.heap_from_def)

lemma demo_victim: "scan_victim (sc_store demo_sched) 3 (take 50 (sc_active demo_sched)) None = Some 1"
  by (simp add: demo_sched_def)

theorem preempt_lowest_correct_witness:
  "\<exists>pm' sc'. preempt_lowest demo_tensors logging_ops 3 (Some demo_cache) (preemption_init 4) demo_sched = (Inr (Some 1), pm', sc')
     \<and> sched_ok pm' sc' \<and> sc_active sc' = [(''a'', 0)]"
proof -
  obtain res pm' sc' where p: "preempt_lowest demo_tensors logging_ops 3 (Some demo_cache) (preemption_init 4) demo_sched = (Inr res, pm', sc')"
    and ok: "sched_ok pm' sc'"
    and some: "\<And>r. res = Some r \<Longrightarrow> \<exists>rid. (rid, r) \<in> set (sc_active demo_sched)
         \<and> 3 \<le> sq_priority (sc_store demo_sched r) \<and> sc_active sc' = AList.delete rid (sc_active demo_sched)"
    and none: "res = None \<longleftrightarrow> int (length (pm_preempted (preemption_init 4 :: int preemption))) \<ge> pm_max (preemption_init 4 :: int preemption)
          \<or> (\<forall>(k, r) \<in> set (take 50 (sc_active demo_sched)). sq_priority (sc_store demo_sched r) < 3)"
    using preempt_lowest_correct [OF demo_ok, of demo_tensors logging_ops 3 "Some demo_cache"] by blast
  have "res \<noteq> None" using none by (auto simp: demo_sched_def preemption_init_def)
  then obtain r where r: "res = Some r" by blast
  with some [OF r] have "r = 1" "sc_active sc' = [(''a'', 0)]" by (auto simp: demo_sched_def)
  with p ok r show ?thesis by auto
qed

text \<open>A preempted sequence comes back. If nobody was preempted before and the cache holds KV data for the active
  sequences, then after a preemption \<^verbatim>\<open>restore_preempted\<close> does not raise, returns exactly the victim, which is
  decoding again; the active set, the token count and the pending entries of other requests are
  those before the preemption, and the victim's KV data is back in the cache (quantized, tuples as lists).
\<close>

theorem preempt_restore_roundtrip:
  assumes ok: "sched_ok pm sc" and first: "pm_preempted pm = []"
    and held: "\<And>k. k \<in> fst ` set (sc_active sc) \<Longrightarrow> \<exists>v. map_of c k = Some v \<and> v \<noteq> KvNone \<and> plain v"
    and pre: "preempt_lowest tn ops minp (Some c) pm sc = (Inr (Some r), pm1, sc1)"
  shows "\<exists>pm2 sc2 rid v. restore_preempted tn ops (Some c') pm1 sc1 = (Inr [r], pm2, sc2, Some (AList.update rid (dequantized tn v) c'))
     \<and> map_of c rid = Some v \<and> rid = sq_request_id (sc_store sc r)
     \<and> sched_ok pm2 sc2 \<and> pm_preempted pm2 = [] \<and> set (sc_active sc2) = set (sc_active sc) \<and> sc_total sc2 = sc_total sc
     \<and> sq_status (sc_store sc2 r) = DECODING
     \<and> mset (sc_heap sc2) = mset (drop_entries [rid] sc)"
proof (cases rule: preempt_lowest_cases [OF ok, of tn ops minp "Some c", case_names none victim])
  case none
  then show ?thesis using pre by simp
next
  case (victim r' h)
  then have [simp]: "r' = r" using pre by simp
  define rid where "rid = sq_request_id (sc_store sc r)"
  have mem: "(rid, r) \<in> set (sc_active sc)" using victim(5) by (simp add: rid_def)
  then obtain v where v: "map_of c rid = Some v" "v \<noteq> KvNone" "plain v" using held [of rid] by force
  have ok1: "sched_ok pm1 sc1" using victim(6) pre by simp
  have pm1: "pm_preempted pm1 = [(rid, r)]" "pm_kv pm1 = save_kv_state tn rid (pm_kv pm) (Some c)"
    and sc1: "sc_active sc1 = AList.delete rid (sc_active sc)" "sc_total sc1 = sc_total sc - total_len (sc_store sc r)"
      "sc_store sc1 = set_status r PENDING (sc_store sc)" "sc_heap sc1 = h"
    using victim(3) pre first by (auto simp: rid_def)
  have "kv_saved tn (pm_kv pm1) rid"
    using v decompress_compress [OF v(3), of tn] by (simp add: kv_saved_def pm1(2) save_kv_state_def compress_not_none)
  then obtain pm2 sc2 cache2 where ret: "restore_preempted tn ops (Some c') pm1 sc1 = (Inr [r], pm2, sc2, cache2)"
    and ok2: "sched_ok pm2 sc2"
    using restore_preempted_saved [OF ok1, of tn ops c'] pm1(1) by auto
  have cache2: "cache2 = Some (AList.update rid (dequantized tn v) c')"
    using ret restore_after_save [OF v, of tn "pm_kv pm" c'] pm1
    by (auto simp: restore_preempted_def restore_one_def Let_def split: prod.splits option.splits)
  note facts = restore_preempted_facts [OF ok1 ret]
  have drop: "drop_entries [rid] sc1 = filter (\<lambda>(p, c, q). sq_request_id (sc_store sc q) \<noteq> rid) h"
    by (simp add: drop_entries_def sc1)
  have "mset (drop_entries [rid] sc1) = mset (drop_entries [rid] sc)"
    unfolding drop by (simp add: drop_entries_def victim(4)) (simp add: rid_def)
  moreover have act: "sc_active sc2 = sc_active sc1 @ [(rid, r)]" "sq_status (sc_store sc2 r) = DECODING"
    "mset (sc_heap sc2) = mset (drop_entries [rid] sc1)" "pm_preempted pm2 = []"
    "sc_total sc2 = tokens_of (sc_store sc2) (sc_active sc2)" "same_but_status (sc_store sc1) (sc_store sc2)"
    using facts pm1(1) by auto
  moreover have "set (sc_active sc2) = set (sc_active sc)"
    using mem ok by (auto simp: act(1) sc1(1) set_delete sched_ok_def keyed_def dict_mem_iff)
  moreover have "sc_total sc2 = sc_total sc"
  proof -
    have same: "same_but_status (sc_store sc) (sc_store sc2)" using act(6) sc1(3) same_but_status_set same_but_status_trans by metis
    have "sc_total sc = tokens_of (sc_store sc) (sc_active sc)" "dict_wf (sc_active sc)"
      using ok by (auto simp: sched_ok_def keyed_def)
    then show ?thesis
      using tokens_of_delete [of "sc_active sc" rid r "sc_store sc"] mem
      by (simp add: act(5) act(1) tokens_of_same [OF same] sc1(1)) (simp add: tokens_of_def)
  qed
  ultimately show ?thesis using ret cache2 v(1) ok2 by (auto simp: rid_def)
qed

theorem preempt_restore_roundtrip_witness:
  "\<exists>pm1 sc1 pm2 sc2. preempt_lowest demo_tensors logging_ops 3 (Some demo_cache) (preemption_init 4) demo_sched = (Inr (Some 1), pm1, sc1)
     \<and> restore_preempted demo_tensors logging_ops (Some []) pm1 sc1 =
         (Inr [1], pm2, sc2, Some [(''b'', KvList [KvTensor 7, KvTensor 9])])
     \<and> set (sc_active sc2) = {(''a'', 0), (''b'', 1)} \<and> sc_total sc2 = 5"
proof -
  have "int (length (pm_preempted (preemption_init 4 :: int preemption))) < pm_max (preemption_init 4 :: int preemption)"
    by (simp add: preemption_init_def)
  from preempt_lowest_victim [OF demo_ok this demo_victim, of demo_tensors logging_ops "Some demo_cache"]
  obtain pm1 sc1 where p: "preempt_lowest demo_tensors logging_ops 3 (Some demo_cache) (preemption_init 4) demo_sched = (Inr (Some 1), pm1, sc1)"
    by metis
  have held: "\<exists>v. map_of demo_cache k = Some v \<and> v \<noteq> KvNone \<and> plain v" if "k \<in> fst ` set (sc_active demo_sched)" for k
    using that by (auto simp: demo_sched_def demo_cache_def)
  have first: "pm_preempted (preemption_init 4 :: int preemption) = []" by (simp add: preemption_init_def)
  from preempt_restore_roundtrip [OF demo_ok first held p, of "[]"] p show ?thesis
    by (auto simp: demo_sched_def demo_cache_def demo_tensors_def)
qed

theorem restore_preempted_conserves_witness:
  "\<exists>rs pm' sc' cache'. restore_preempted demo_tensors logging_ops (Some []) \<lparr>pm_preempted = [(''c'', 2)], pm_kv = [], pm_max = 4\<rparr> demo_sched
       = (Inr rs, pm', sc', cache')
     \<and> pm_preempted pm' = [] \<and> sc_total sc' = tokens_of (sc_store sc') (sc_active sc')"
proof -
  let ?pm = "\<lparr>pm_preempted = [(''c'', 2)], pm_kv = [], pm_max = 4\<rparr> :: int preemption"
  have ok: "sched_ok ?pm demo_sched"
    using demo_ok by (simp add: sched_ok_def keyed_def dict_wf_def demo_sched_def preemption_init_def)
      (simp add: demo_store_def sequence_new_def post_init_def clamp_priority_def)
  obtain rs pm' sc' cache' where r: "restore_preempted demo_tensors logging_ops (Some []) ?pm demo_sched = (Inr rs, pm', sc', cache')"
    by (simp add: restore_preempted_def restore_one_def restore_kv_state_def Let_def drop_entries_def demo_sched_def
        heapify_def heappush_def siftdown.simps)
      (simp add: demo_store_def sequence_new_def post_init_def clamp_priority_def)
  from restore_preempted_conserves [OF ok r] r show ?thesis by blast
qed

text \<open>The FIFO counter collides. \<^verbatim>\<open>preempt_lowest\<close> increases the counter before it pushes, \<^verbatim>\<open>add\<close> pushes before it
  increases: after a preemption, with no other request waiting, admitting a new request of the victim's priority
  raises a \<^verbatim>\<open>TypeError\<close>, because the two heap entries agree on priority and counter and
  sequences are not ordered. The request is left in the heap although the caller saw an exception.
\<close>

theorem add_after_preempt_raises:
  assumes ok: "sched_ok pm sc" and idle: "sc_heap sc = []" and room: "2 \<le> max_pending"
    and pre: "preempt_lowest tn ops minp cache pm sc = (Inr (Some r), pm1, sc1)"
    and same: "sq_priority (sc_store sc q) = sq_priority (sc_store sc r)"
    and new: "sq_request_id (sc_store sc q) \<noteq> sq_request_id (sc_store sc r)"
  shows "\<exists>sc2. sched_add max_pending q sc1 = (Inl TypeError, sc2) \<and> length (sc_heap sc2) = 2 \<and> sc_counter sc2 = sc_counter sc1"
proof (cases rule: preempt_lowest_cases [OF ok, of tn ops minp cache, case_names none victim])
  case none
  then show ?thesis using pre by simp
next
  case (victim r' h)
  then have r': "r' = r" using pre by simp
  have h: "h = [(sq_priority (sc_store sc r), sc_counter sc + 1, r)]" using victim(4) idle r' by simp
  have sc1: "sc_heap sc1 = h" "sc_counter sc1 = sc_counter sc + 1" "sc_store sc1 = set_status r PENDING (sc_store sc)"
    using victim(3) pre by auto
  have "sc_store sc1 q \<noteq> sc_store sc1 r" using new by (metis sc1(3) set_status_simps(1))
  then have "siftdown (entry_lt (sc_store sc1)) 0 1 [(sq_priority (sc_store sc r), sc_counter sc1, r), (sq_priority (sc_store sc r), sc_counter sc1, q)]
      = (Some TypeError, [(sq_priority (sc_store sc r), sc_counter sc1, r), (sq_priority (sc_store sc r), sc_counter sc1, q)])"
    by (subst siftdown.simps) simp
  then show ?thesis using room same by (simp add: sched_add_def heappush_def sc1(1) h sc1(3) flip: sc1(2))
qed

theorem add_after_preempt_raises_witness:
  "\<exists>pm1 sc1 sc2. preempt_lowest demo_tensors logging_ops 3 None (preemption_init 4) (demo_sched\<lparr>sc_heap := []\<rparr>) = (Inr (Some 1), pm1, sc1)
     \<and> sched_add 1000 3 sc1 = (Inl TypeError, sc2)"
proof -
  let ?sc = "demo_sched\<lparr>sc_heap := []\<rparr>"
  have ok: "sched_ok (preemption_init 4 :: int preemption) ?sc"
    by (simp add: sched_ok_def demo_sched_def preemption_init_def keyed_def dict_wf_def tokens_of_def pq.is_heap_def pq.heap_from_def)
  have v: "scan_victim (sc_store ?sc) 3 (take 50 (sc_active ?sc)) None = Some 1" using demo_victim by simp
  have "int (length (pm_preempted (preemption_init 4 :: int preemption))) < pm_max (preemption_init 4 :: int preemption)"
    by (simp add: preemption_init_def)
  from preempt_lowest_victim [OF ok this v, of demo_tensors logging_ops None]
  obtain pm1 sc1 where p: "preempt_lowest demo_tensors logging_ops 3 None (preemption_init 4) ?sc = (Inr (Some 1), pm1, sc1)" by metis
  have "sq_priority (sc_store ?sc 3) = sq_priority (sc_store ?sc 1)" "sq_request_id (sc_store ?sc 3) \<noteq> sq_request_id (sc_store ?sc 1)"
    by (simp_all add: demo_sched_def demo_store_def sequence_new_def post_init_def clamp_priority_def)
  from add_after_preempt_raises [OF ok _ _ p this, of 1000] p show ?thesis by auto
qed

end
