(* ===== verification/Budget.thy ===== *)
theory Budget
  imports Sequences
begin

text \<open>
  Iteration budgets: \<^verbatim>\<open>BudgetComputer\<close> of \<^verbatim>\<open>core/scheduler/budget_computer.py\<close> and the policies that it consults under
  \<^verbatim>\<open>core/advanced_scheduling/\<close>: heterogeneous devices (\<^verbatim>\<open>heterogeneous.py\<close>), wide-area links
  (\<^verbatim>\<open>wan.py\<close>), power (\<^verbatim>\<open>energy.py\<close>), the pluggable policies of \<^verbatim>\<open>policy.py\<close> and the priority adjustment of
  \<^verbatim>\<open>cost_aware.py\<close>. The pool attributes that the code reads with \<^verbatim>\<open>getattr\<close> may be missing; a missing
  attribute is \<open>None\<close>.
\<close>

section \<open>Heterogeneous devices\<close>

datatype device_class = DATA_CENTER | WORKSTATION | CONSUMER | MOBILE | CPU

record node_info =
  ni_node_id :: string
  ni_device_class :: device_class
  ni_gpu_tflops :: rat
  ni_gpu_memory_gb :: rat
  ni_bandwidth_gbps :: rat
  ni_num_layers_assigned :: int
  ni_current_load :: rat
  ni_is_spot :: bool
  ni_cost_per_hour :: rat
  ni_measured_latency_ms :: "rat option"

type_synonym het_nodes = "(string, node_info) dict"

definition default_budget :: "int \<Rightarrow> int \<Rightarrow> int \<Rightarrow> int \<Rightarrow> iteration_budget" where
  "default_budget prefill dec_tokens batch total_tokens =
     \<lparr>ib_max_prefill_tokens = prefill, ib_max_decode_tokens = dec_tokens, ib_max_batch_size = batch,
      ib_max_total_tokens = total_tokens, ib_enable_chunked_prefill = True, ib_prefill_slack_ratio = 3 / 10\<rparr>"

definition known_tflops :: "het_nodes \<Rightarrow> rat list" where
  "known_tflops nodes = filter (\<lambda>x. x > 0) (map (\<lambda>(k, n). ni_gpu_tflops n) nodes)"

definition het_compute_budget :: "het_nodes \<Rightarrow> int \<Rightarrow> int \<Rightarrow> int \<Rightarrow> int \<Rightarrow> iteration_budget" where
  "het_compute_budget nodes prefill dec_tokens batch total_tokens =
     (let tflops = known_tflops nodes;
          prefill' = (if tflops = [] then prefill
                      else let mn = fold min (tl tflops) (hd tflops); mx = fold max (tl tflops) (hd tflops)
                           in if mx > 0 \<and> mn / mx < 1 / 2 then trunc (of_int prefill * (mn / mx)) else prefill)
      in default_budget prefill' dec_tokens batch total_tokens)"

section \<open>Wide-area links\<close>

text \<open>The configuration and, as the last field, the only state of its own that the policy keeps.\<close>

record wan_policy =
  wp_enabled :: bool
  wp_p2p_forwarding :: bool
  wp_tokens_before_forward :: int
  wp_wan_timeout_seconds :: rat
  wp_max_retries :: int
  wp_backoff_base_seconds :: rat
  wp_accumulation_window :: int
  wp_chunk_multiplier :: rat
  wp_batch_multiplier :: rat
  wp_rtt_threshold_ms :: rat
  wp_prefetch_kv :: bool
  wp_disable_sarathi_pressure :: bool
  wp_max_seen_rtt_ms :: rat

definition adjust_budget_for_wan :: "wan_policy \<Rightarrow> int \<Rightarrow> int \<Rightarrow> int \<Rightarrow> int \<times> int \<times> int" where
  "adjust_budget_for_wan w prefill batch total_tokens =
     (if \<not> wp_enabled w then (prefill, batch, total_tokens)
      else (trunc (of_int prefill * wp_chunk_multiplier w), trunc (of_int batch * wp_batch_multiplier w),
            trunc (of_int total_tokens * wp_chunk_multiplier w * wp_batch_multiplier w)))"

text \<open>The scan of \<^verbatim>\<open>detect_wan_mode\<close>, which stops at the first node that looks like a wide-area link.\<close>

fun wan_scan :: "rat \<Rightarrow> node_info list \<Rightarrow> rat \<Rightarrow> bool \<times> rat" where
  "wan_scan threshold [] seen = (False, seen)"
| "wan_scan threshold (n # ns) seen =
     (let seen' = (case ni_measured_latency_ms n of None \<Rightarrow> seen | Some l \<Rightarrow> max seen l)
      in if (case ni_measured_latency_ms n of None \<Rightarrow> False | Some l \<Rightarrow> l > threshold) then (True, seen')
         else if 0 < ni_bandwidth_gbps n \<and> ni_bandwidth_gbps n \<le> 5 then (True, seen')
         else wan_scan threshold ns seen')"

definition detect_wan_mode :: "het_nodes \<Rightarrow> wan_policy \<Rightarrow> bool \<times> wan_policy" where
  "detect_wan_mode nodes w =
     (let (wan, seen) = wan_scan (wp_rtt_threshold_ms w) (map snd nodes) (wp_max_seen_rtt_ms w);
          w' = w\<lparr>wp_max_seen_rtt_ms := seen, wp_enabled := wp_enabled w \<or> wan\<rparr>
      in (wp_enabled w', w'))"

definition should_disable_pressure_adaptation :: "wan_policy \<Rightarrow> bool" where
  "should_disable_pressure_adaptation w \<longleftrightarrow> wp_enabled w \<and> wp_disable_sarathi_pressure w"

definition wan_compute_budget :: "wan_policy \<Rightarrow> iteration_budget \<Rightarrow> iteration_budget" where
  "wan_compute_budget w b = (if \<not> wp_enabled w then b else b\<lparr>ib_max_batch_size := min (ib_max_batch_size b) 8\<rparr>)"

section \<open>Power\<close>

record energy_profile =
  ep_idle_watts :: rat
  ep_max_watts :: rat
  ep_current_watts :: rat
  ep_thermal_limit_c :: rat
  ep_current_temp_c :: rat
  ep_node_id :: string
  ep_gpu_name :: string
  ep_tdp_watts :: rat
  ep_power_budget_watts :: rat

record energy_scheduler =
  es_thermal_threshold :: rat
  es_max_power_watts :: rat
  es_energy_cost_per_kwh :: rat
  es_profiles :: "(string, energy_profile) dict"
  es_total_energy_wh :: rat

definition profile_new :: "string \<Rightarrow> energy_profile" where
  "profile_new nid = \<lparr>ep_idle_watts = 50, ep_max_watts = 300, ep_current_watts = 100, ep_thermal_limit_c = 83,
     ep_current_temp_c = 60, ep_node_id = nid, ep_gpu_name = [], ep_tdp_watts = 0, ep_power_budget_watts = 0\<rparr>"

definition energy_init :: "rat \<Rightarrow> rat \<Rightarrow> rat \<Rightarrow> energy_scheduler" where
  "energy_init threshold max_power cost =
     \<lparr>es_thermal_threshold = threshold, es_max_power_watts = max_power, es_energy_cost_per_kwh = cost, es_profiles = [],
      es_total_energy_wh = 0\<rparr>"

definition update_profile :: "string \<Rightarrow> energy_profile \<Rightarrow> energy_scheduler \<Rightarrow> energy_scheduler" where
  "update_profile nid p e = e\<lparr>es_profiles := AList.update nid p (es_profiles e)\<rparr>"

definition set_node_profile :: "energy_profile \<Rightarrow> energy_scheduler \<Rightarrow> energy_scheduler" where
  "set_node_profile p e =
     update_profile (if ep_node_id p = [] then ''node-'' @ dec (length (es_profiles e) + 1) else ep_node_id p) p e"

definition update_power_draw :: "string \<Rightarrow> rat \<Rightarrow> energy_scheduler \<Rightarrow> energy_scheduler" where
  "update_power_draw nid watts e =
     (let p = (case map_of (es_profiles e) nid of None \<Rightarrow> profile_new nid | Some p \<Rightarrow> p)
      in e\<lparr>es_profiles := AList.update nid (p\<lparr>ep_current_watts := watts\<rparr>) (es_profiles e)\<rparr>)"

definition get_total_power_draw :: "energy_scheduler \<Rightarrow> rat" where
  "get_total_power_draw e = sum_list (map (\<lambda>(k, p). ep_current_watts p) (es_profiles e))"

definition get_power_utilization :: "energy_scheduler \<Rightarrow> rat" where
  "get_power_utilization e =
     (if es_max_power_watts e \<le> 0 then 0 else get_total_power_draw e / es_max_power_watts e)"

definition adjust_for_energy :: "energy_scheduler \<Rightarrow> int \<Rightarrow> int \<Rightarrow> int \<times> int" where
  "adjust_for_energy e batch prefill =
     (if es_max_power_watts e \<le> 0 \<or> es_profiles e = [] then (batch, prefill)
      else let draw = get_total_power_draw e in
           if draw > es_max_power_watts e
           then let scale = max (1 / 2) (min 1 (es_max_power_watts e / draw))
                in (max 1 (trunc (of_int batch * scale)), max 1 (trunc (of_int prefill * scale)))
           else if draw / es_max_power_watts e < 1 / 2
           then (min (batch * 2) (max (batch + 1) (trunc (of_int batch * (5 / 4)))), prefill)
           else (batch, prefill))"

definition record_energy_usage :: "rat \<Rightarrow> energy_scheduler \<Rightarrow> energy_scheduler" where
  "record_energy_usage secs e =
     (if secs \<le> 0 then e
      else e\<lparr>es_total_energy_wh := es_total_energy_wh e + get_total_power_draw e * (secs / 3600)\<rparr>)"

definition total_energy_cost_usd :: "energy_scheduler \<Rightarrow> rat" where
  "total_energy_cost_usd e = es_total_energy_wh e / 1000 * es_energy_cost_per_kwh e"

definition energy_compute_budget :: "energy_scheduler \<Rightarrow> iteration_budget \<Rightarrow> iteration_budget" where
  "energy_compute_budget e b =
     (let temps = map (\<lambda>(k, p). ep_current_temp_c p) (es_profiles e);
          hottest = (if temps = [] then 0 else fold max (tl temps) (hd temps))
      in if hottest > es_thermal_threshold e
         then b\<lparr>ib_max_batch_size :=
                  trunc (of_int (ib_max_batch_size b) * max (1 / 2) (1 - (hottest - es_thermal_threshold e) / 10))\<rparr>
         else b)"

section \<open>Pluggable policies\<close>

record sarathi_policy =
  sp_pressure :: "rat option"
  sp_pressure_threshold :: rat
  sp_prefill_scale_under_pressure :: rat

definition sarathi_policy_budget :: "sarathi_policy \<Rightarrow> iteration_budget \<Rightarrow> iteration_budget" where
  "sarathi_policy_budget p b =
     (case sp_pressure p of
        None \<Rightarrow> b
      | Some pr \<Rightarrow>
          if pr \<le> sp_pressure_threshold p then b
          else let scale = max (sp_prefill_scale_under_pressure p) (min 1 (1 - pr))
               in b\<lparr>ib_max_prefill_tokens := max 1 (trunc (of_int (ib_max_prefill_tokens b) * scale))\<rparr>)"

datatype policy = DefaultPolicy | SarathiPolicy sarathi_policy | WANPolicy wan_policy | EnergyPolicy energy_scheduler
  | CompositePolicy "policy list"

fun policy_compute_budget :: "policy \<Rightarrow> iteration_budget \<Rightarrow> iteration_budget" where
  "policy_compute_budget DefaultPolicy b = b"
| "policy_compute_budget (SarathiPolicy p) b = sarathi_policy_budget p b"
| "policy_compute_budget (WANPolicy w) b = wan_compute_budget w b"
| "policy_compute_budget (EnergyPolicy e) b = energy_compute_budget e b"
| "policy_compute_budget (CompositePolicy ps) b = fold policy_compute_budget ps b"

record cost_adjuster =
  ca_cost_weight :: rat
  ca_node_costs :: "(string, rat) dict"
  ca_max_cost_per_request :: rat
  ca_prefer_cheap :: bool

definition update_node_cost :: "string \<Rightarrow> rat \<Rightarrow> cost_adjuster \<Rightarrow> cost_adjuster" where
  "update_node_cost nid cost a = a\<lparr>ca_node_costs := AList.update nid cost (ca_node_costs a)\<rparr>"

definition adjust_priority :: "int \<Rightarrow> int \<Rightarrow> string option \<Rightarrow> cost_adjuster \<Rightarrow> int \<times> rat" where
  "adjust_priority base_priority est_tokens node a =
     (case node of
        None \<Rightarrow> (base_priority, 0)
      | Some nid \<Rightarrow>
          (case (if nid = [] then None else map_of (ca_node_costs a) nid) of
             None \<Rightarrow> (base_priority, 0)
           | Some cost \<Rightarrow>
               (max 0 (base_priority + trunc (ca_cost_weight a * (cost / 10))), of_int est_tokens / 1000000 * cost)))"

section \<open>The budget computer\<close>

definition decode_demand :: "seqn list \<Rightarrow> int" where
  "decode_demand active =
     int (length (filter (\<lambda>s. sq_status s = DECODING) active))
     + int (length (filter (\<lambda>s. sq_status s = PREFILLING \<and> sq_generated_tokens s \<noteq> []) active))"

definition in_flight :: "seqn \<Rightarrow> bool" where
  "in_flight s \<longleftrightarrow> sq_status s = DECODING \<or> sq_status s = PREFILLING \<or> sq_generated_tokens s \<noteq> []"

definition in_flight_count :: "seqn list \<Rightarrow> int" where
  "in_flight_count active = int (length (filter in_flight active))"

definition adjusted_decode :: "rat \<Rightarrow> iteration_budget \<Rightarrow> seqn list \<Rightarrow> int" where
  "adjusted_decode pr b active =
     (let base = min (ib_max_batch_size b) (ib_max_decode_tokens b);
          guaranteed = max base (decode_demand active)
      in min (if pr > 7 / 10 then min (ib_max_batch_size b) (trunc (of_int guaranteed * (1 + pr)))
              else if pr < 3 / 10 then max (max (in_flight_count active) 1) (trunc (of_int base * (6 / 10)))
              else base)
             (ib_max_batch_size b))"

definition prefill_scale :: "rat \<Rightarrow> rat" where
  "prefill_scale pr = (if pr > 8 / 10 then max (1 / 4) (1 - pr) else if pr > 1 / 2 then 3 / 4 else 1)"

definition compute_sarathi_budget :: "wan_policy option \<Rightarrow> rat \<Rightarrow> seqn list \<Rightarrow> iteration_budget \<Rightarrow> iteration_budget" where
  "compute_sarathi_budget wan pr active b =
     (if (case wan of None \<Rightarrow> False | Some w \<Rightarrow> should_disable_pressure_adaptation w) then b
      else let dec_slots = adjusted_decode pr b active;
               after_decode = max 0 (ib_max_total_tokens b - dec_slots);
               prefill = min (trunc (of_int (ib_max_prefill_tokens b) * prefill_scale pr)) after_decode;
               batch = (if pr > 9 / 10 then max dec_slots (trunc (of_int (ib_max_batch_size b) * (1 / 2))) else ib_max_batch_size b)
           in b\<lparr>ib_max_prefill_tokens := prefill, ib_max_decode_tokens := dec_slots, ib_max_batch_size := batch\<rparr>)"

text \<open>
  What \<^verbatim>\<open>getattr\<close> finds on the PagedAttention manager: a pool, each of whose attributes is missing, a number or
  something else, or no pool and possibly a utilization.
\<close>

datatype attr = Absent | Opaque | Number int

fun num_attr :: "int \<Rightarrow> attr \<Rightarrow> int option" where
  "num_attr d Absent = Some d"
| "num_attr d Opaque = None"
| "num_attr d (Number n) = Some n"

record pool_attrs =
  pl_free_count :: attr
  pl_block_size :: attr

datatype pool_view = NoPool "rat option" | WithPool pool_attrs

definition compute_dynamic_budget :: "int \<Rightarrow> pool_view option \<Rightarrow> int" where
  "compute_dynamic_budget base_budget mgr =
     (let budget = min base_budget 131072 in
      case mgr of
        None \<Rightarrow> budget
      | Some (WithPool p) \<Rightarrow>
          (case (num_attr 0 (pl_free_count p), num_attr 16 (pl_block_size p)) of
             (Some free, Some bsize) \<Rightarrow> min budget (trunc (of_int free * of_int bsize * (9 / 10)))
           | _ \<Rightarrow> budget)
      | Some (NoPool util) \<Rightarrow>
          (let u = (case util of None \<Rightarrow> 0 | Some u \<Rightarrow> u)
           in if u > 85 / 100 then trunc (of_int budget * (3 / 4))
              else if u > 70 / 100 then trunc (of_int budget * (9 / 10)) else budget))"

definition adjust_budget :: "int \<Rightarrow> pool_view option \<Rightarrow> int" where
  "adjust_budget base_tokens mgr = compute_dynamic_budget base_tokens mgr"

definition get_iteration_budget ::
    "iteration_budget \<Rightarrow> bool \<Rightarrow> int \<Rightarrow> int \<Rightarrow> het_nodes option \<Rightarrow> wan_policy option \<Rightarrow> energy_scheduler option \<Rightarrow> iteration_budget" where
  "get_iteration_budget base_budget enable_chunked max_tokens max_batch het wan energy =
     (let b0 = (if ib_enable_chunked_prefill base_budget \<and> enable_chunked then base_budget
                else (default_budget max_tokens max_tokens max_batch max_tokens)\<lparr>ib_enable_chunked_prefill := False\<rparr>);
          b1 = (case het of
                  None \<Rightarrow> b0
                | Some nodes \<Rightarrow> het_compute_budget nodes (ib_max_prefill_tokens b0) (ib_max_decode_tokens b0)
                                  (ib_max_batch_size b0) (ib_max_total_tokens b0));
          b2 = (case wan of
                  None \<Rightarrow> b1
                | Some w \<Rightarrow>
                    if wp_enabled w
                    then let (p, n, t) = adjust_budget_for_wan w (ib_max_prefill_tokens b1) (ib_max_batch_size b1) (ib_max_total_tokens b1)
                         in b1\<lparr>ib_max_prefill_tokens := p, ib_max_batch_size := n, ib_max_total_tokens := t\<rparr>
                    else b1)
      in case energy of
           None \<Rightarrow> b2
         | Some e \<Rightarrow> (let (n, p) = adjust_for_energy e (ib_max_batch_size b2) (ib_max_prefill_tokens b2)
                      in b2\<lparr>ib_max_batch_size := n, ib_max_prefill_tokens := p\<rparr>))"

definition apply_budget_policy ::
    "bool \<Rightarrow> policy option \<Rightarrow> wan_policy option \<Rightarrow> rat \<Rightarrow> seqn list \<Rightarrow> iteration_budget \<Rightarrow> iteration_budget" where
  "apply_budget_policy adapt pol wan pr active b =
     (case pol of
        Some p \<Rightarrow> policy_compute_budget p b
      | None \<Rightarrow> if adapt then compute_sarathi_budget wan pr active b else b)"

section \<open>Bounds\<close>

lemma trunc_scale: "0 \<le> n \<Longrightarrow> 0 \<le> c \<Longrightarrow> c \<le> 1 \<Longrightarrow> 0 \<le> trunc (of_int n * c) \<and> trunc (of_int n * c) \<le> n"
  by (auto intro!: trunc_nonneg trunc_le mult_left_le)

lemma trunc_grow: "0 \<le> n \<Longrightarrow> 1 \<le> c \<Longrightarrow> n \<le> trunc (of_int n * c)"
  by (rule trunc_ge) (simp add: mult_le_cancel_left1)

lemma prefill_scale_range: "0 \<le> pr \<Longrightarrow> pr \<le> 1 \<Longrightarrow> 0 \<le> prefill_scale pr \<and> prefill_scale pr \<le> 1"
  by (auto simp: prefill_scale_def)

lemma decode_demand_in_flight: "decode_demand active \<le> in_flight_count active"
proof (induction active)
  case (Cons s active)
  then show ?case by (cases "sq_status s") (auto simp: decode_demand_def in_flight_count_def in_flight_def)
qed (simp add: decode_demand_def in_flight_count_def)

lemma demand_nonneg: "0 \<le> decode_demand active" "0 \<le> in_flight_count active"
  by (auto simp: decode_demand_def in_flight_count_def)

definition budget_ok :: "iteration_budget \<Rightarrow> bool" where
  "budget_ok b \<longleftrightarrow> 0 \<le> ib_max_prefill_tokens b \<and> 0 \<le> ib_max_decode_tokens b \<and> 1 \<le> ib_max_batch_size b \<and> 0 \<le> ib_max_total_tokens b"

lemma adjusted_decode_bounds:
  assumes "budget_ok b" "0 \<le> pr" "pr \<le> 1"
  shows "0 \<le> adjusted_decode pr b active \<and> adjusted_decode pr b active \<le> ib_max_batch_size b"
proof -
  let ?base = "min (ib_max_batch_size b) (ib_max_decode_tokens b)"
  have "0 \<le> max ?base (decode_demand active)" "0 \<le> ?base" using assms by (auto simp: budget_ok_def)
  then have "0 \<le> trunc (of_int (max ?base (decode_demand active)) * (1 + pr))"
    using assms(2) by (intro trunc_nonneg mult_nonneg_nonneg) auto
  then show ?thesis using assms(1) by (auto simp: adjusted_decode_def Let_def budget_ok_def)
qed

lemma adjusted_decode_high:
  assumes "budget_ok b" "7 / 10 < pr" "pr \<le> 1"
  shows "min (decode_demand active) (ib_max_batch_size b) \<le> adjusted_decode pr b active"
proof -
  let ?g = "max (min (ib_max_batch_size b) (ib_max_decode_tokens b)) (decode_demand active)"
  have "?g \<le> trunc (of_int ?g * (1 + pr))" using assms demand_nonneg(1) [of active] by (intro trunc_grow) auto
  then show ?thesis using assms(2) by (auto simp: adjusted_decode_def Let_def)
qed

lemma adjusted_decode_low:
  "pr < 3 / 10 \<Longrightarrow> min (in_flight_count active) (ib_max_batch_size b) \<le> adjusted_decode pr b active"
  by (auto simp: adjusted_decode_def Let_def)

text \<open>The pressure-adapted budget stays within the configured one. For a pressure in the unit interval, the
  adapted budget never exceeds the batch size, the prefill tokens or (decode slots and prefill together) the total
  tokens of the base budget, its decode slots are exactly its decode tokens, and outside the middle
  band of the pressure the slots cover the running decodes as far as the batch size allows:
  all sequences in flight when idle, the whole decode demand under pressure.
\<close>

theorem sarathi_budget_bounded:
  assumes ok: "budget_ok b" and pr: "0 \<le> pr" "pr \<le> 1"
  shows "ib_max_batch_size (compute_sarathi_budget None pr active b) \<le> ib_max_batch_size b
     \<and> 0 \<le> ib_max_prefill_tokens (compute_sarathi_budget None pr active b)
     \<and> ib_max_prefill_tokens (compute_sarathi_budget None pr active b) \<le> ib_max_prefill_tokens b
     \<and> decode_slots (compute_sarathi_budget None pr active b) = ib_max_decode_tokens (compute_sarathi_budget None pr active b)
     \<and> (ib_max_decode_tokens (compute_sarathi_budget None pr active b) \<le> ib_max_total_tokens b \<longrightarrow>
          ib_max_prefill_tokens (compute_sarathi_budget None pr active b) + decode_slots (compute_sarathi_budget None pr active b)
            \<le> ib_max_total_tokens b)
     \<and> (pr < 3 / 10 \<longrightarrow> min (in_flight_count active) (ib_max_batch_size b) \<le> decode_slots (compute_sarathi_budget None pr active b))
     \<and> (pr > 7 / 10 \<longrightarrow> min (decode_demand active) (ib_max_batch_size b) \<le> decode_slots (compute_sarathi_budget None pr active b))"
proof -
  define d where "d = adjusted_decode pr b active"
  have d: "0 \<le> d" "d \<le> ib_max_batch_size b" using adjusted_decode_bounds [OF ok pr] by (auto simp: d_def)
  have p: "0 \<le> trunc (of_int (ib_max_prefill_tokens b) * prefill_scale pr)"
    "trunc (of_int (ib_max_prefill_tokens b) * prefill_scale pr) \<le> ib_max_prefill_tokens b"
    using trunc_scale [of "ib_max_prefill_tokens b" "prefill_scale pr"] prefill_scale_range [OF pr] ok by (auto simp: budget_ok_def)
  have h: "trunc (of_int (ib_max_batch_size b) * (1 / 2)) \<le> ib_max_batch_size b"
    using trunc_scale [of "ib_max_batch_size b" "1 / 2"] ok by (simp add: budget_ok_def)
  have lo: "pr < 3 / 10 \<Longrightarrow> min (in_flight_count active) (ib_max_batch_size b) \<le> d"
    unfolding d_def by (rule adjusted_decode_low)
  have hi: "7 / 10 < pr \<Longrightarrow> min (decode_demand active) (ib_max_batch_size b) \<le> d"
    unfolding d_def by (rule adjusted_decode_high [OF ok _ pr(2)])
  show ?thesis
    using d p h lo hi unfolding compute_sarathi_budget_def decode_slots_def d_def [symmetric]
    by (auto simp: Let_def d_def [symmetric] min_def max_def)
qed

definition demo_budget :: iteration_budget where
  "demo_budget = default_budget 4096 2 32 32768"

theorem sarathi_budget_bounded_witness:
  "decode_slots (compute_sarathi_budget None (9 / 10) [] demo_budget) = ib_max_decode_tokens (compute_sarathi_budget None (9 / 10) [] demo_budget)"
  using sarathi_budget_bounded [of demo_budget "9 / 10" "[]"] by (simp add: budget_ok_def demo_budget_def default_budget_def)

text \<open>
  In the middle band the slots are the configured ones even when more decodes are running, although the slots are
  documented as guaranteed for all active decoders.
\<close>

theorem sarathi_middle_band_drops:
  assumes "3 / 10 \<le> pr" "pr \<le> 7 / 10" "decode_slots b < decode_demand active"
  shows "decode_slots (compute_sarathi_budget None pr active b) < decode_demand active"
  using assms by (auto simp: compute_sarathi_budget_def adjusted_decode_def decode_slots_def Let_def)

text \<open>
  Registering node capabilities turns chunked prefill back on: the heterogeneous budget is built afresh with the
  default flags, so a scheduler configured without chunking gets a budget with chunking, and a
  configured slack ratio is replaced by the default.
\<close>

theorem heterogeneous_budget_resets_flags:
  "ib_enable_chunked_prefill (get_iteration_budget b False max_tokens max_batch (Some nodes) None None)
     \<and> ib_prefill_slack_ratio (get_iteration_budget b True max_tokens max_batch (Some nodes) None None) = 3 / 10"
  by (simp add: get_iteration_budget_def het_compute_budget_def default_budget_def Let_def)

lemma flags_kept_without_nodes:
  "\<not> ib_enable_chunked_prefill (get_iteration_budget b False max_tokens max_batch None wan energy)"
  by (auto simp: get_iteration_budget_def default_budget_def Let_def case_prod_beta split: option.splits)

lemma compute_dynamic_budget_bounds:
  assumes "0 \<le> base"
  shows "compute_dynamic_budget base mgr \<le> min base 131072"
  using assms trunc_scale [of "min base 131072" "3 / 4"] trunc_scale [of "min base 131072" "9 / 10"]
  by (auto simp: compute_dynamic_budget_def Let_def split: option.splits pool_view.splits)

lemma adjust_for_energy_bounds:
  assumes "1 \<le> batch" "1 \<le> prefill" "adjust_for_energy e batch prefill = (n, p)"
  shows "1 \<le> n \<and> n \<le> 2 * batch \<and> 1 \<le> p \<and> p \<le> prefill"
proof -
  let ?scale = "max (1 / 2) (min 1 (es_max_power_watts e / get_total_power_draw e))"
  have "trunc (of_int batch * ?scale) \<le> batch" "trunc (of_int prefill * ?scale) \<le> prefill"
    using trunc_scale [of batch ?scale] trunc_scale [of prefill ?scale] assms(1,2) by auto
  then show ?thesis using assms by (auto simp: adjust_for_energy_def Let_def min_def split: if_splits)
qed

lemma policies_preserve_total: "ib_max_total_tokens (policy_compute_budget p b) = ib_max_total_tokens b"
proof (induction p arbitrary: b)
  case (CompositePolicy ps)
  have "ib_max_total_tokens (fold policy_compute_budget qs b) = ib_max_total_tokens b" if "set qs \<subseteq> set ps" for qs b
    using that CompositePolicy by (induction qs arbitrary: b) auto
  then show ?case by simp
qed (auto simp: sarathi_policy_budget_def wan_compute_budget_def energy_compute_budget_def Let_def split: option.splits)

end
