(* ===== verification/Latency.thy ===== *)
theory Latency
  imports Sequences
begin

text \<open>
  \<^verbatim>\<open>RequestLatencyTracker\<close> of \<^verbatim>\<open>core/request_latency.py\<close>: what the scheduler asks about the deadlines of requests. The
  wall clock is an argument; \<^verbatim>\<open>x or y\<close> on numbers takes \<open>y\<close> where \<open>x\<close> is missing or zero.
\<close>

record latency_info =
  li_request_id :: string
  li_enqueued_at :: rat
  li_first_token_at :: "rat option"
  li_last_token_at :: "rat option"
  li_tokens_generated :: int
  li_sla_target_ms :: rat
  li_completed_at :: "rat option"

definition or_else :: "rat option \<Rightarrow> rat \<Rightarrow> rat" where
  "or_else x d = (case x of None \<Rightarrow> d | Some v \<Rightarrow> if v = 0 then d else v)"

definition ttft_ms :: "latency_info \<Rightarrow> rat option" where
  "ttft_ms i = map_option (\<lambda>t. (t - li_enqueued_at i) * 1000) (li_first_token_at i)"

definition elapsed_ms :: "rat \<Rightarrow> latency_info \<Rightarrow> rat" where
  "elapsed_ms now i = (or_else (li_completed_at i) now - li_enqueued_at i) * 1000"

definition tpot_ms :: "latency_info \<Rightarrow> rat option" where
  "tpot_ms i =
     (case (li_first_token_at i, li_last_token_at i) of
        (Some a, Some b) \<Rightarrow> if li_tokens_generated i \<le> 1 then None else Some ((b - a) * 1000 / of_int (li_tokens_generated i - 1))
      | _ \<Rightarrow> None)"

definition is_overdue :: "rat \<Rightarrow> latency_info \<Rightarrow> bool" where
  "is_overdue now i \<longleftrightarrow> elapsed_ms now i > li_sla_target_ms i"

record latency_tracker =
  lt_default_sla_ms :: rat
  lt_requests :: "(string, latency_info) dict"
  lt_completed :: "latency_info list"

definition latency_init :: "rat \<Rightarrow> latency_tracker" where
  "latency_init sla = \<lparr>lt_default_sla_ms = sla, lt_requests = [], lt_completed = []\<rparr>"

definition register :: "rat \<Rightarrow> string \<Rightarrow> rat option \<Rightarrow> latency_tracker \<Rightarrow> latency_tracker" where
  "register now rid sla t =
     t\<lparr>lt_requests := AList.update rid
         \<lparr>li_request_id = rid, li_enqueued_at = now, li_first_token_at = None, li_last_token_at = None,
          li_tokens_generated = 0, li_sla_target_ms = or_else sla (lt_default_sla_ms t), li_completed_at = None\<rparr> (lt_requests t)\<rparr>"

definition update_info :: "string \<Rightarrow> (latency_info \<Rightarrow> latency_info) \<Rightarrow> latency_tracker \<Rightarrow> latency_tracker" where
  "update_info rid f t =
     (case map_of (lt_requests t) rid of None \<Rightarrow> t | Some i \<Rightarrow> t\<lparr>lt_requests := AList.update rid (f i) (lt_requests t)\<rparr>)"

definition record_first_token :: "rat \<Rightarrow> string \<Rightarrow> latency_tracker \<Rightarrow> latency_tracker" where
  "record_first_token now rid = update_info rid (\<lambda>i. i\<lparr>li_first_token_at := Some now\<rparr>)"

definition record_token :: "rat \<Rightarrow> string \<Rightarrow> latency_tracker \<Rightarrow> latency_tracker" where
  "record_token now rid = update_info rid (\<lambda>i. i\<lparr>li_last_token_at := Some now, li_tokens_generated := li_tokens_generated i + 1\<rparr>)"

definition complete :: "rat \<Rightarrow> string \<Rightarrow> latency_tracker \<Rightarrow> latency_tracker" where
  "complete now rid t =
     (case map_of (lt_requests t) rid of
        None \<Rightarrow> t
      | Some i \<Rightarrow>
          t\<lparr>lt_requests := AList.delete rid (lt_requests t),
            lt_completed := lt_completed t @
              [i\<lparr>li_last_token_at := (if li_last_token_at i = None then Some now else li_last_token_at i), li_completed_at := Some now\<rparr>]\<rparr>)"

definition get_latency_boost :: "rat \<Rightarrow> string \<Rightarrow> int \<Rightarrow> latency_tracker \<Rightarrow> int" where
  "get_latency_boost now rid base t =
     (case map_of (lt_requests t) rid of
        None \<Rightarrow> base
      | Some i \<Rightarrow>
          if is_overdue now i
          then (if elapsed_ms now i > li_sla_target_ms i * 2 then min base 0 else max 0 (base - 1))
          else base)"

definition get_urgency_score :: "rat \<Rightarrow> string \<Rightarrow> latency_tracker \<Rightarrow> rat" where
  "get_urgency_score now rid t =
     (case map_of (lt_requests t) rid of
        None \<Rightarrow> 0
      | Some i \<Rightarrow> min 1 (elapsed_ms now i / max (li_sla_target_ms i) 1))"

definition get_overdue_request_ids :: "rat \<Rightarrow> latency_tracker \<Rightarrow> string list" where
  "get_overdue_request_ids now t = map fst (filter (\<lambda>(rid, i). is_overdue now i) (lt_requests t))"

definition get_requests_sorted_by_deadline :: "rat \<Rightarrow> latency_tracker \<Rightarrow> (string \<times> rat) list" where
  "get_requests_sorted_by_deadline now t =
     sort_key (\<lambda>x. - snd x)
       (map (\<lambda>(rid, i). (rid, elapsed_ms now i / max (li_sla_target_ms i) 1))
         (filter (\<lambda>(rid, i). li_first_token_at i \<noteq> None) (lt_requests t)))"

lemma latency_boost_range: "0 \<le> base \<Longrightarrow> 0 \<le> get_latency_boost now rid base t \<and> get_latency_boost now rid base t \<le> base"
  by (auto simp: get_latency_boost_def split: option.splits)

end
