(* ===== verification/BatchScheduler.thy ===== *)
theory BatchScheduler
  imports Preemption Budget Latency "HOL-Library.Char_ord" "HOL-Library.List_Lexorder"
begin

text \<open>
  The iteration loop of \<^verbatim>\<open>BatchScheduler\<close> (\<^verbatim>\<open>core/batch_scheduler.py\<close>): a batch is built from the active sequences and
  the pending heap, laid out as one flat token list, and \<^verbatim>\<open>step\<close> consumes the sampled tokens. The
  containers shared with the preemption manager are the record \<open>sched\<close>. The clock, the PagedAttention
  manager with its pool, the constraint objects, the prefix cache and the floating-point logarithm behind the length
  buckets are arguments.
\<close>

section \<open>State\<close>

record bs_config =
  cf_max_batch_size :: int
  cf_base_batch_size :: int
  cf_max_tokens :: int
  cf_base_tokens :: int
  cf_enable_chunked :: bool
  cf_length_grouping :: bool
  cf_aging_enabled :: bool
  cf_aging_interval :: rat
  cf_aging_max_boost :: int
  cf_priority_weights :: "(int, rat) dict"
  cf_budget :: iteration_budget
  cf_adapt_prefill :: bool
  cf_policy :: "policy option"
  cf_het :: "het_nodes option"
  cf_wan :: "wan_policy option"
  cf_energy :: "energy_scheduler option"

record ('t, 'm) bsched =
  bs_cfg :: bs_config
  bs_core :: "'m sched"
  bs_pm :: "'t preemption"
  bs_chunked :: "(string, chunked_prefill) dict"
  bs_latency :: latency_tracker
  bs_pressure :: pressure_tracker
  bs_index :: "(string, nat) dict option"
  bs_iteration :: int
  bs_total_prefill :: int
  bs_total_decode :: int

definition default_weights :: "(int, rat) dict" where
  "default_weights = [(0, 3 / 2), (1, 5 / 4), (2, 1), (3, 1 / 2)]"

definition bs_config_init :: "int \<Rightarrow> int \<Rightarrow> bool \<Rightarrow> bool \<Rightarrow> int \<Rightarrow> rat \<Rightarrow> (int, rat) dict \<Rightarrow> rat \<Rightarrow> int \<Rightarrow> bool \<Rightarrow> pool_view option \<Rightarrow> bs_config" where
  "bs_config_init max_batch max_tokens has_model enable_chunked max_prefill slack weights interval max_boost aging mgr =
     (let tokens = compute_dynamic_budget max_tokens mgr
      in \<lparr>cf_max_batch_size = max_batch, cf_base_batch_size = max_batch, cf_max_tokens = tokens, cf_base_tokens = max_tokens,
          cf_enable_chunked = enable_chunked, cf_length_grouping = has_model, cf_aging_enabled = aging, cf_aging_interval = interval,
          cf_aging_max_boost = max_boost, cf_priority_weights = (if weights = [] then default_weights else weights),
          cf_budget = (default_budget max_prefill 512 max_batch tokens)\<lparr>ib_prefill_slack_ratio := slack\<rparr>,
          cf_adapt_prefill = True, cf_policy = None, cf_het = None, cf_wan = None, cf_energy = None\<rparr>)"

text \<open>The fresh scheduler; \<open>st\<close> is the heap of sequence objects.\<close>

definition bs_init :: "bs_config \<Rightarrow> sstore \<Rightarrow> 'm option \<Rightarrow> ('t, 'm) bsched" where
  "bs_init cfg st mgr =
     \<lparr>bs_cfg = cfg,
      bs_core = \<lparr>sc_store = st, sc_active = [], sc_total = 0, sc_heap = [], sc_counter = 0, sc_paged = mgr\<rparr>,
      bs_pm = preemption_init 4, bs_chunked = [], bs_latency = latency_init 5000, bs_pressure = tracker_init (1 / 10) 8 32,
      bs_index = None, bs_iteration = 0, bs_total_prefill = 0, bs_total_decode = 0\<rparr>"

section \<open>Configuration at run time\<close>

definition set_iteration_budget :: "iteration_budget \<Rightarrow> bs_config \<Rightarrow> bs_config" where
  "set_iteration_budget b c = c\<lparr>cf_budget := b, cf_max_tokens := ib_max_total_tokens b, cf_max_batch_size := ib_max_batch_size b\<rparr>"

definition update_batch_size_from_adaptive :: "int option \<Rightarrow> bs_config \<Rightarrow> bs_config" where
  "update_batch_size_from_adaptive recommended c =
     (case recommended of
        None \<Rightarrow> c
      | Some n \<Rightarrow> if n \<noteq> cf_max_batch_size c \<and> n \<ge> 1
                  then c\<lparr>cf_max_batch_size := n, cf_budget := (cf_budget c)\<lparr>ib_max_batch_size := n\<rparr>\<rparr> else c)"

definition utilization_size :: "int \<Rightarrow> rat \<Rightarrow> int" where
  "utilization_size base util =
     (if util < 7 / 10 then min (trunc (of_int base * min 2 (1 + (7 / 10 - util) * 3))) (base * 2)
      else if util > 9 / 10 then max (trunc (of_int base * max (1 / 2) (1 - (util - 9 / 10) * 5))) (max 1 (base div 2))
      else base)"

definition adjust_from_gpu_utilization :: "rat \<Rightarrow> int \<Rightarrow> bs_config \<Rightarrow> bs_config" where
  "adjust_from_gpu_utilization util queue_depth c =
     (let base = cf_base_batch_size c;
          new_size = utilization_size base util;
          c1 = (if queue_depth > base * 2
                then c\<lparr>cf_budget := (cf_budget c)\<lparr>ib_max_prefill_tokens := min (ib_max_prefill_tokens (cf_budget c) * 2) (cf_base_tokens c div 4)\<rparr>\<rparr>
                else c)
      in if new_size \<noteq> cf_max_batch_size c1
         then c1\<lparr>cf_max_batch_size := new_size, cf_budget := (cf_budget c1)\<lparr>ib_max_batch_size := new_size\<rparr>\<rparr> else c1)"

definition update_priority_weights :: "(int, rat) dict \<Rightarrow> bs_config \<Rightarrow> bs_config" where
  "update_priority_weights ws c = c\<lparr>cf_priority_weights := fold (\<lambda>(k, v). AList.update k v) ws (cf_priority_weights c)\<rparr>"

definition update_aging_params :: "rat option \<Rightarrow> int option \<Rightarrow> bool option \<Rightarrow> bs_config \<Rightarrow> bs_config" where
  "update_aging_params interval max_boost enabled c =
     (let c1 = (case interval of None \<Rightarrow> c | Some x \<Rightarrow> c\<lparr>cf_aging_interval := x\<rparr>);
          c2 = (case max_boost of None \<Rightarrow> c1 | Some x \<Rightarrow> c1\<lparr>cf_aging_max_boost := x\<rparr>)
      in case enabled of None \<Rightarrow> c2 | Some x \<Rightarrow> c2\<lparr>cf_aging_enabled := x\<rparr>)"

definition priority_weight :: "bs_config \<Rightarrow> int \<Rightarrow> rat" where
  "priority_weight c p = (case map_of (cf_priority_weights c) p of None \<Rightarrow> 1 | Some w \<Rightarrow> w)"

definition aging_boost :: "bs_config \<Rightarrow> rat \<Rightarrow> seqn \<Rightarrow> py_error + int" where
  "aging_boost c now s =
     (if \<not> cf_aging_enabled c then Inr 0
      else if cf_aging_interval c = 0 then Inl ZeroDivisionError
      else Inr (min (trunc ((now - sq_created_at s) / cf_aging_interval c)) (cf_aging_max_boost c)))"

section \<open>The active part of a batch\<close>

text \<open>Completed sequences leave the active set; what remains is the snapshot.\<close>

fun evict_done :: "'m paged_ops \<Rightarrow> rat \<Rightarrow> (string \<times> nat) list \<Rightarrow> ('t, 'm) bsched \<Rightarrow> ('t, 'm) bsched" where
  "evict_done ops now [] s = s"
| "evict_done ops now ((rid, r) # rest) s =
     evict_done ops now rest
       (let sc = bs_core s
        in s\<lparr>bs_core := sc\<lparr>sc_active := AList.delete rid (sc_active sc), sc_total := sc_total sc - total_len (sc_store sc r),
                            sc_paged := free_paged_blocks ops rid (sc_paged sc)\<rparr>,
             bs_chunked := AList.delete rid (bs_chunked s), bs_latency := complete now rid (bs_latency s)\<rparr>)"

definition prefetch_and_snapshot :: "'m paged_ops \<Rightarrow> rat \<Rightarrow> ('t, 'm) bsched \<Rightarrow> (string \<times> nat) list \<times> ('t, 'm) bsched" where
  "prefetch_and_snapshot ops now s =
     (let s1 = evict_done ops now (filter (\<lambda>(rid, r). seq_is_complete (sc_store (bs_core s) r)) (sc_active (bs_core s))) s
      in (sc_active (bs_core s1), s1))"

definition check_decode_budget :: "iteration_budget \<Rightarrow> int \<Rightarrow> int \<Rightarrow> bool" where
  "check_decode_budget b decode_count remaining_total \<longleftrightarrow> \<not> decode_count \<ge> decode_slots b \<and> \<not> remaining_total < 1"

text \<open>The accumulators of \<^verbatim>\<open>_build_active_batch\<close>: batch, remaining prefill and total tokens, decodes added.\<close>

fun decode_part :: "iteration_budget \<Rightarrow> sstore \<Rightarrow> (string \<times> nat) list \<Rightarrow> nat list \<times> int \<times> int \<Rightarrow> nat list \<times> int \<times> int" where
  "decode_part b st [] acc = acc"
| "decode_part b st ((rid, r) # items) (batch, remain_t, added) =
     (if added \<ge> decode_slots b then (batch, remain_t, added)
      else if in_flight (st r) \<and> check_decode_budget b added remain_t
      then decode_part b st items (batch @ [r], remain_t - 1, added + 1)
      else decode_part b st items (batch, remain_t, added))"

fun prefill_part ::
    "iteration_budget \<Rightarrow> sstore \<Rightarrow> (string, chunked_prefill) dict \<Rightarrow> (string \<times> nat) list \<Rightarrow> nat list \<times> int \<times> int \<Rightarrow> nat list \<times> int \<times> int" where
  "prefill_part b st cps [] acc = acc"
| "prefill_part b st cps ((rid, r) # items) (batch, remain_p, remain_t) =
     (case map_of cps (sq_request_id (st r)) of
        None \<Rightarrow> prefill_part b st cps items (batch, remain_p, remain_t)
      | Some c \<Rightarrow>
          if cp_is_complete c then prefill_part b st cps items (batch, remain_p, remain_t)
          else let chunk = min (min (cp_remaining c) (ib_max_prefill_tokens b)) remain_p;
                   batch' = (if list_ex (\<lambda>q. st q = st r) batch then batch else batch @ [r])
               in if remain_p - chunk \<le> 0 then (batch', remain_p - chunk, remain_t - chunk)
                  else prefill_part b st cps items (batch', remain_p - chunk, remain_t - chunk))"

definition build_active_batch ::
    "rat \<Rightarrow> iteration_budget \<Rightarrow> (string \<times> nat) list \<Rightarrow> ('t, 'm) bsched \<Rightarrow> nat list \<times> int \<times> int \<times> int" where
  "build_active_batch now b items s =
     (let urgent = map fst (get_requests_sorted_by_deadline now (bs_latency s));
          st = sc_store (bs_core s);
          sorted_items = sort_key (\<lambda>(rid, r). (if rid \<in> set urgent then 0 else 1 :: int, rid)) items;
          (batch, remain_t, added) = decode_part b st sorted_items ([], ib_max_total_tokens b, 0);
          (batch', remain_p, remain_t') =
            (if cf_enable_chunked (bs_cfg s) then prefill_part b st (bs_chunked s) sorted_items (batch, ib_max_prefill_tokens b, remain_t)
             else (batch, ib_max_prefill_tokens b, remain_t))
      in (batch', remain_p, remain_t', added))"

section \<open>Promotion of pending sequences\<close>

text \<open>
  The effective priority is computed and discarded: only an exception of the computation has an effect. (The cost adjuster
  is asked without a node and returns the priority unchanged.)
\<close>

definition effective_priority :: "bs_config \<Rightarrow> rat \<Rightarrow> latency_tracker \<Rightarrow> rat \<Rightarrow> int \<Rightarrow> seqn \<Rightarrow> py_error + rat" where
  "effective_priority c now lat avg pri s =
     (case aging_boost c now s of
        Inl e \<Rightarrow> Inl e
      | Inr aging \<Rightarrow>
          let p0 = get_latency_boost now (sq_request_id s) pri lat;
              p1 = of_int (if aging > 0 then max 0 (p0 - aging) else p0);
              left = of_int (sq_max_new_tokens s - int (length (sq_generated_tokens s)))
          in Inr (if cf_length_grouping c \<and> avg > 0 then p1 + min (\<bar>left - avg\<bar> / (avg + 1) * (1 / 10)) (1 / 2) else p1))"

text \<open>How many tokens a candidate is charged, or nothing when it would eat into the slack kept for decodes.\<close>

definition chunked_candidate :: "bs_config \<Rightarrow> iteration_budget \<Rightarrow> int \<Rightarrow> bool" where
  "chunked_candidate c b tokens \<longleftrightarrow> cf_enable_chunked c \<and> tokens > ib_max_prefill_tokens b \<and> ib_max_prefill_tokens b > 0"

definition candidate_chunk :: "bs_config \<Rightarrow> iteration_budget \<Rightarrow> int \<Rightarrow> int \<Rightarrow> int \<Rightarrow> int option" where
  "candidate_chunk c b tokens remain_t decode_added =
     (let chunk = (if chunked_candidate c b tokens then ib_max_prefill_tokens b else tokens)
      in if of_int (remain_t - chunk) < of_int decode_added * ib_prefill_slack_ratio b
         then (if tokens > ib_max_prefill_tokens b
               then Some (min chunk (trunc (of_int remain_t * (1 - ib_prefill_slack_ratio b)))) else None)
         else Some chunk)"

text \<open>\<open>pool\<close> tells what \<^verbatim>\<open>getattr(mgr, 'pool', None)\<close> finds, and its \<^verbatim>\<open>total_blocks\<close> if it has any.\<close>

type_synonym 'm pool_of = "'m \<Rightarrow> int option option"

definition blocks_ok :: "'m paged_ops \<Rightarrow> 'm pool_of \<Rightarrow> int \<Rightarrow> 'm option \<Rightarrow> py_error + bool" where
  "blocks_ok ops pool tokens mgr =
     (case mgr of
        None \<Rightarrow> Inr True
      | Some m \<Rightarrow>
          (case paged_kv_block_count ops tokens mgr of
             Inl e \<Rightarrow> Inl e
           | Inr needed \<Rightarrow>
               (case pool m of
                  None \<Rightarrow> Inr True
                | Some tot \<Rightarrow> let total_blocks = (case tot of None \<Rightarrow> needed + 1 | Some n \<Rightarrow> n)
                              in Inr (of_int needed \<le> (of_int total_blocks :: rat) * (9 / 10)))))"

record 'm promo =
  po_core :: "'m sched"
  po_batch :: "nat list"
  po_rejected :: "entry list"
  po_remain_p :: int
  po_remain_t :: int
  po_slots :: int
  po_chunked :: "(string, chunked_prefill) dict"

definition admit :: "bs_config \<Rightarrow> 'm paged_ops \<Rightarrow> iteration_budget \<Rightarrow> int \<Rightarrow> nat \<Rightarrow> 'm promo \<Rightarrow> py_error option \<times> 'm promo" where
  "admit c ops b chunk r po =
     (let sc = po_core po; s = sc_store sc r; rid = sq_request_id s; tokens = total_len s;
          sc1 = sc\<lparr>sc_store := set_status r PREFILLING (sc_store sc), sc_active := AList.update rid r (sc_active sc),
                   sc_total := sc_total sc + tokens\<rparr>;
          (res, paged) = allocate_paged_blocks ops (sc_store sc1 r) (sc_paged sc);
          po1 = po\<lparr>po_core := sc1\<lparr>sc_paged := paged\<rparr>, po_batch := po_batch po @ [r], po_remain_p := po_remain_p po - chunk,
                   po_remain_t := po_remain_t po - chunk, po_slots := po_slots po - 1\<rparr>;
          left = tokens - sq_prefix_match_len s
      in case res of
           Inl e \<Rightarrow> (Some e, po1)
         | Inr _ \<Rightarrow>
             (None,
              if chunked_candidate c b tokens \<and> left > 0
              then po1\<lparr>po_chunked := AList.update rid
                         \<lparr>cp_seq_id = rid, cp_total_prompt_tokens = left, cp_tokens_processed = 0,
                          cp_chunk_size = ib_max_prefill_tokens b,
                          cp_chunks_remaining = \<lceil>(of_int left :: rat) / of_int (ib_max_prefill_tokens b)\<rceil>\<rparr> (po_chunked po1)\<rparr>
              else po1))"

definition reject :: "entry \<Rightarrow> 'm promo \<Rightarrow> py_error option \<times> 'm promo" where
  "reject x po = (None, po\<lparr>po_rejected := po_rejected po @ [x]\<rparr>)"

definition promote_one ::
    "bs_config \<Rightarrow> 'm paged_ops \<Rightarrow> 'm pool_of \<Rightarrow> rat \<Rightarrow> latency_tracker \<Rightarrow> iteration_budget \<Rightarrow> int \<Rightarrow> rat \<Rightarrow> entry \<Rightarrow> 'm promo
     \<Rightarrow> py_error option \<times> 'm promo" where
  "promote_one c ops pool now lat b decode_added avg x po =
     (case x of (pri, cnt, r) \<Rightarrow>
        let sc = po_core po; s = sc_store sc r; tokens = total_len s in
        if map_of (sc_active sc) (sq_request_id s) \<noteq> None then (None, po)
        else case effective_priority c now lat avg pri s of
               Inl e \<Rightarrow> (Some e, po)
             | Inr _ \<Rightarrow>
                 if po_slots po \<le> 0 \<or> (po_remain_p po \<le> 0 \<and> po_remain_t po \<le> 0) \<or> tokens > po_remain_t po then reject x po
                 else case candidate_chunk c b tokens (po_remain_t po) decode_added of
                        None \<Rightarrow> reject x po
                      | Some chunk \<Rightarrow>
                          if chunk > po_remain_p po \<and> po_remain_t po - chunk < 0 then reject x po
                          else case blocks_ok ops pool (sc_total sc + chunk) (sc_paged sc) of
                                 Inl e \<Rightarrow> (Some e, po)
                               | Inr False \<Rightarrow> reject x po
                               | Inr True \<Rightarrow> admit c ops b chunk r po)"

text \<open>The loop pops one entry per round; the first argument counts the entries of the heap.\<close>

fun promote_loop ::
    "nat \<Rightarrow> bs_config \<Rightarrow> 'm paged_ops \<Rightarrow> 'm pool_of \<Rightarrow> rat \<Rightarrow> latency_tracker \<Rightarrow> iteration_budget \<Rightarrow> int \<Rightarrow> rat \<Rightarrow> int \<Rightarrow> 'm promo
     \<Rightarrow> py_error option \<times> 'm promo" where
  "promote_loop 0 c ops pool now lat b da avg quota po = (None, po)"
| "promote_loop (Suc k) c ops pool now lat b da avg quota po =
     (if int (length (po_batch po) + length (po_rejected po)) < quota
      then (case heappop (entry_lt (sc_store (po_core po))) (sc_heap (po_core po)) of
              (Inl e, h) \<Rightarrow> (Some e, po\<lparr>po_core := (po_core po)\<lparr>sc_heap := h\<rparr>\<rparr>)
            | (Inr x, h) \<Rightarrow>
                (case promote_one c ops pool now lat b da avg x (po\<lparr>po_core := (po_core po)\<lparr>sc_heap := h\<rparr>\<rparr>) of
                   (Some e, po') \<Rightarrow> (Some e, po')
                 | (None, po') \<Rightarrow> promote_loop k c ops pool now lat b da avg quota po'))
      else (None, po))"

fun push_back :: "entry list \<Rightarrow> 'm sched \<Rightarrow> py_error option \<times> 'm sched" where
  "push_back [] sc = (None, sc)"
| "push_back (x # xs) sc =
     (case heappush (entry_lt (sc_store sc)) x (sc_heap sc) of
        (Some e, h) \<Rightarrow> (Some e, sc\<lparr>sc_heap := h\<rparr>)
      | (None, h) \<Rightarrow> push_back xs (sc\<lparr>sc_heap := h\<rparr>))"

definition mean_remaining :: "sstore \<Rightarrow> nat list \<Rightarrow> rat" where
  "mean_remaining st batch =
     of_int (\<Sum>r \<leftarrow> batch. sq_max_new_tokens (st r) - int (length (sq_generated_tokens (st r)))) / of_nat (length batch)"

definition promote_pending ::
    "'m paged_ops \<Rightarrow> 'm pool_of \<Rightarrow> rat \<Rightarrow> iteration_budget \<Rightarrow> nat list \<Rightarrow> int \<Rightarrow> int \<Rightarrow> int \<Rightarrow> ('t, 'm) bsched
     \<Rightarrow> (py_error + (nat list \<times> int \<times> int) option) \<times> ('t, 'm) bsched" where
  "promote_pending ops pool now b batch remain_p remain_t decode_added s =
     (let sc = bs_core s; c = bs_cfg s;
          slots = ib_max_batch_size b - int (length batch);
          quota = max (slots * 2) 10;
          avg = (if cf_length_grouping c \<and> batch \<noteq> [] then mean_remaining (sc_store sc) batch else 0);
          po0 = \<lparr>po_core = sc, po_batch = batch, po_rejected = [], po_remain_p = remain_p, po_remain_t = remain_t,
                 po_slots = slots, po_chunked = bs_chunked s\<rparr>
      in case promote_loop (length (sc_heap sc)) c ops pool now (bs_latency s) b decode_added avg quota po0 of
           (Some e, po) \<Rightarrow> (Inl e, s\<lparr>bs_core := po_core po, bs_chunked := po_chunked po\<rparr>)
         | (None, po) \<Rightarrow>
             (case push_back (po_rejected po) (po_core po) of
                (Some e, sc') \<Rightarrow> (Inl e, s\<lparr>bs_core := sc', bs_chunked := po_chunked po\<rparr>)
              | (None, sc') \<Rightarrow>
                  (Inr (if po_batch po = [] then None else Some (po_batch po, po_remain_p po, po_remain_t po)),
                   s\<lparr>bs_core := sc', bs_chunked := po_chunked po, bs_index := None\<rparr>)))"

section \<open>The flat token layout\<close>

text \<open>\<^verbatim>\<open>group_by_length\<close>: \<open>bucket lo hi k n\<close> is the logarithmic bucket of a length \<open>n\<close> among \<open>k\<close>.\<close>

type_synonym bucket_fn = "int \<Rightarrow> int \<Rightarrow> nat \<Rightarrow> int \<Rightarrow> nat"

definition group_by_length :: "bucket_fn \<Rightarrow> sstore \<Rightarrow> nat list \<Rightarrow> nat \<Rightarrow> nat list list" where
  "group_by_length bucket st rs k =
     (let lens = map (\<lambda>r. total_len (st r)) rs in
      if lens = [] then replicate k []
      else let lo = fold min lens (hd lens); hi = fold max lens (hd lens)
           in if lo = hi then (replicate k [])[0 := rs]
              else map (\<lambda>i. filter (\<lambda>r. min (bucket lo hi k (total_len (st r))) (k - 1) = i) rs) [0..<k])"

definition apply_length_grouping :: "bucket_fn \<Rightarrow> bs_config \<Rightarrow> sstore \<Rightarrow> nat list \<Rightarrow> nat list" where
  "apply_length_grouping bucket c st batch =
     (if cf_length_grouping c \<and> length batch > 1
      then concat (map (sort_key (\<lambda>r. total_len (st r))) (group_by_length bucket st batch (min 4 (length batch))))
      else batch)"

record layout =
  ly_request_ids :: "string list"
  ly_seq_starts :: "int list"
  ly_seq_lengths :: "int list"
  ly_position_offsets :: "int list"
  ly_is_prefill :: "bool list"
  ly_flat_tokens :: "int list"

text \<open>The tokens of one sequence: the next chunk of a chunked prefill, the rest of the prompt, or the last generated token.\<close>

definition chunk_tokens :: "bs_config \<Rightarrow> iteration_budget \<Rightarrow> seqn \<Rightarrow> chunked_prefill \<Rightarrow> int list \<times> int" where
  "chunk_tokens c b s cp =
     (let start = sq_prefix_match_len s + cp_tokens_processed cp;
          max_chunk = max 1 (trunc (of_int (ib_max_prefill_tokens b) * priority_weight c (sq_priority s)));
          chunk_end = min (start + max_chunk) (int (length (sq_prompt_tokens s)))
      in (slice (sq_prompt_tokens s) start chunk_end, start))"

definition build_seq_tokens ::
    "iteration_budget \<Rightarrow> nat \<Rightarrow> ('t, 'm) bsched \<Rightarrow> (py_error + int list \<times> bool \<times> int) \<times> ('t, 'm) bsched" where
  "build_seq_tokens b r s =
     (let sc = bs_core s; q = sc_store sc r; rid = sq_request_id q; c = bs_cfg s in
      case map_of (bs_chunked s) rid of
        Some cp \<Rightarrow>
          let (tokens, pos) = chunk_tokens c b q cp;
              cp' = cp\<lparr>cp_tokens_processed := cp_tokens_processed cp + int (length tokens),
                       cp_chunks_remaining := max 0 (cp_chunks_remaining cp - 1)\<rparr>
          in (Inr (tokens, True, pos),
              if cp_is_complete cp'
              then s\<lparr>bs_chunked := AList.delete rid (bs_chunked s), bs_core := sc\<lparr>sc_store := set_status r DECODING (sc_store sc)\<rparr>\<rparr>
              else s\<lparr>bs_chunked := AList.update rid cp' (bs_chunked s), bs_core := sc\<lparr>sc_store := set_status r PREFILLING (sc_store sc)\<rparr>\<rparr>)
      | None \<Rightarrow>
          if sq_generated_tokens q = []
          then let n = int (length (sq_prompt_tokens q)); start = min (sq_prefix_match_len q) n in
               if n = 0 then (Inr ([], True, 0), s\<lparr>bs_core := sc\<lparr>sc_store := set_status r PREFILLING (sc_store sc)\<rparr>\<rparr>)
               else let start' = (if start \<ge> n then n - 1 else start)
                    in (Inr (slice (sq_prompt_tokens q) start' n, True, start'),
                        if seq_is_complete q then s else s\<lparr>bs_core := sc\<lparr>sc_store := set_status r PREFILLING (sc_store sc)\<rparr>\<rparr>)
          else let s1 = s\<lparr>bs_core := sc\<lparr>sc_store := set_status r DECODING (sc_store sc)\<rparr>\<rparr>
               in (case decode_input_token q of Inl e \<Rightarrow> Inl e | Inr t \<Rightarrow> Inr ([t], False, total_len q - 1), s1))"

definition extend_layout :: "string \<Rightarrow> int list \<times> bool \<times> int \<Rightarrow> layout \<Rightarrow> layout" where
  "extend_layout rid t l =
     (case t of (tokens, prefill, pos) \<Rightarrow>
        \<lparr>ly_request_ids = ly_request_ids l @ [rid], ly_seq_starts = ly_seq_starts l @ [int (length (ly_flat_tokens l))],
         ly_seq_lengths = ly_seq_lengths l @ [int (length tokens)], ly_position_offsets = ly_position_offsets l @ [pos],
         ly_is_prefill = ly_is_prefill l @ [prefill], ly_flat_tokens = ly_flat_tokens l @ tokens\<rparr>)"

fun build_batch_tensors :: "iteration_budget \<Rightarrow> nat list \<Rightarrow> layout \<Rightarrow> ('t, 'm) bsched \<Rightarrow> (py_error + layout) \<times> ('t, 'm) bsched" where
  "build_batch_tensors b [] l s = (Inr l, s)"
| "build_batch_tensors b (r # rs) l s =
     (let rid = sq_request_id (sc_store (bs_core s) r) in
      case build_seq_tokens b r s of
        (Inl e, s1) \<Rightarrow> (Inl e, s1)
      | (Inr (tokens, prefill, pos), s1) \<Rightarrow>
          build_batch_tensors b rs (extend_layout rid (tokens, prefill, pos) l)
            (if prefill then s1\<lparr>bs_total_prefill := bs_total_prefill s1 + int (length tokens)\<rparr>
             else s1\<lparr>bs_total_decode := bs_total_decode s1 + 1\<rparr>))"

definition empty_layout :: layout where
  "empty_layout = \<lparr>ly_request_ids = [], ly_seq_starts = [], ly_seq_lengths = [], ly_position_offsets = [], ly_is_prefill = [], ly_flat_tokens = []\<rparr>"

definition build_scheduled_batch :: "nat list \<Rightarrow> iteration_budget \<Rightarrow> ('t, 'm) bsched \<Rightarrow> (py_error + scheduled_batch) \<times> ('t, 'm) bsched" where
  "build_scheduled_batch batch b s =
     (case build_batch_tensors b batch empty_layout s of
        (Inl e, s1) \<Rightarrow> (Inl e, s1)
      | (Inr l, s1) \<Rightarrow>
          (Inr \<lparr>sb_sequences = batch, sb_input_ids = ly_flat_tokens l, sb_seq_starts = ly_seq_starts l, sb_seq_lengths = ly_seq_lengths l,
                sb_position_offsets = ly_position_offsets l, sb_is_prefill = ly_is_prefill l, sb_request_ids = ly_request_ids l,
                sb_adapter_ids = map (\<lambda>r. sq_adapter_id (sc_store (bs_core s1) r)) batch\<rparr>, s1))"

section \<open>Scheduling\<close>

definition bs_preempt_lowest :: "'t tensor_ops \<Rightarrow> 'm paged_ops \<Rightarrow> int \<Rightarrow> (string, 't kv) dict option \<Rightarrow> ('t, 'm) bsched
    \<Rightarrow> (py_error + nat option) \<times> ('t, 'm) bsched" where
  "bs_preempt_lowest tn ops min_priority cache s =
     (case preempt_lowest tn ops min_priority cache (bs_pm s) (bs_core s) of
        (res, pm, sc) \<Rightarrow> (res, s\<lparr>bs_pm := pm, bs_core := sc\<rparr>))"

definition bs_add :: "rat \<Rightarrow> nat \<Rightarrow> ('t, 'm) bsched \<Rightarrow> (py_error + unit) \<times> ('t, 'm) bsched" where
  "bs_add now r s =
     (case sched_add 1000 r (bs_core s) of
        (Inl e, sc) \<Rightarrow> (Inl e, s\<lparr>bs_core := sc\<rparr>)
      | (Inr u, sc) \<Rightarrow>
          (Inr u, s\<lparr>bs_core := sc, bs_index := None,
                   bs_latency := register now (sq_request_id (sc_store sc r)) (sq_max_latency_ms (sc_store sc r)) (bs_latency s)\<rparr>))"

record ('t, 'm) env =
  en_tensor :: "'t tensor_ops"
  en_ops :: "'m paged_ops"
  en_pool :: "'m pool_of"
  en_bucket :: bucket_fn
  en_now :: rat
  en_recommended :: "int option"
  en_should_preempt :: "(int \<Rightarrow> int \<Rightarrow> bool) option"

definition schedule_with_budget :: "('t, 'm) env \<Rightarrow> iteration_budget \<Rightarrow> ('t, 'm) bsched \<Rightarrow> (py_error + scheduled_batch option) \<times> ('t, 'm) bsched" where
  "schedule_with_budget en budget s0 =
     (let s1 = s0\<lparr>bs_cfg := update_batch_size_from_adaptive (en_recommended en) (bs_cfg s0)\<rparr>;
          c = bs_cfg s1;
          b = apply_budget_policy (cf_adapt_prefill c) (cf_policy c) (cf_wan c) (pressure (bs_pressure s1))
                (map (sc_store (bs_core s1) \<circ> snd) (sc_active (bs_core s1))) budget
      in case preempt_if_needed (en_should_preempt en) (Some (\<lambda>p. bs_preempt_lowest (en_tensor en) (en_ops en) p None))
                (int (length (sc_heap (bs_core s1)))) s1 of
           (Inl e, s2) \<Rightarrow> (Inl e, s2)
         | (Inr _, s2) \<Rightarrow>
             let (items, s3) = prefetch_and_snapshot (en_ops en) (en_now en) s2;
                 (batch, remain_p, remain_t, added) = build_active_batch (en_now en) b items s3
             in case promote_pending (en_ops en) (en_pool en) (en_now en) b batch remain_p remain_t added s3 of
                  (Inl e, s4) \<Rightarrow> (Inl e, s4)
                | (Inr None, s4) \<Rightarrow> (Inr None, s4)
                | (Inr (Some (batch', _, _)), s4) \<Rightarrow>
                    (case build_scheduled_batch (apply_length_grouping (en_bucket en) (bs_cfg s4) (sc_store (bs_core s4)) batch') b s4 of
                       (Inl e, s5) \<Rightarrow> (Inl e, s5)
                     | (Inr sb, s5) \<Rightarrow> (Inr (Some sb), s5)))"

definition bs_iteration_budget :: "('t, 'm) bsched \<Rightarrow> iteration_budget" where
  "bs_iteration_budget s =
     (let c = bs_cfg s in get_iteration_budget (cf_budget c) (cf_enable_chunked c) (cf_max_tokens c) (cf_max_batch_size c) (cf_het c) (cf_wan c) (cf_energy c))"

definition schedule :: "('t, 'm) env \<Rightarrow> ('t, 'm) bsched \<Rightarrow> (py_error + scheduled_batch option) \<times> ('t, 'm) bsched" where
  "schedule en s = (let s1 = s\<lparr>bs_iteration := bs_iteration s + 1\<rparr> in schedule_with_budget en (bs_iteration_budget s1) s1)"

definition schedule_iteration :: "('t, 'm) env \<Rightarrow> iteration_budget option \<Rightarrow> ('t, 'm) bsched \<Rightarrow> (py_error + scheduled_batch option) \<times> ('t, 'm) bsched" where
  "schedule_iteration en budget s =
     (let s1 = s\<lparr>bs_iteration := bs_iteration s + 1\<rparr>
      in schedule_with_budget en (case budget of None \<Rightarrow> bs_iteration_budget s1 | Some b \<Rightarrow> b) s1)"

section \<open>Consuming the sampled tokens\<close>

text \<open>The prefix cache the scheduler may hand finished sequences to: its minimal length and its \<^verbatim>\<open>store_prefix\<close>.\<close>

record ('k, 'c) prefix_hook =
  ph_min_len :: int
  ph_store :: "int list \<Rightarrow> 'k \<Rightarrow> 'c \<Rightarrow> py_error option \<times> 'c"

definition store_finished :: "('k, 'c) prefix_hook option \<Rightarrow> (string, 'k) dict \<Rightarrow> seqn \<Rightarrow> 'c \<Rightarrow> py_error option \<times> 'c" where
  "store_finished hook kvs q cache =
     (case hook of
        None \<Rightarrow> (None, cache)
      | Some h \<Rightarrow>
          let toks = sq_prompt_tokens q @ sq_generated_tokens q in
          if int (length toks) \<ge> ph_min_len h
          then (case map_of kvs (sq_request_id q) of None \<Rightarrow> (None, cache) | Some kv \<Rightarrow> ph_store h toks kv cache)
          else (None, cache))"

text \<open>One sequence: \<open>con\<close> is the effect of updating its constraint object with the token (an exception or nothing).\<close>

definition step_one ::
    "(nat \<Rightarrow> nat \<Rightarrow> int \<Rightarrow> py_error option) \<Rightarrow> ('k, 'c) prefix_hook option \<Rightarrow> (string, 'k) dict \<Rightarrow> rat \<Rightarrow> nat \<Rightarrow> int \<Rightarrow> nat
     \<Rightarrow> ('t, 'm) bsched \<times> 'c \<Rightarrow> py_error option \<times> ('t, 'm) bsched \<times> 'c" where
  "step_one con hook kvs now i tok r sx =
     (let (s, cache) = sx; sc = bs_core s; rid = sq_request_id (sc_store sc r);
          q1 = (sc_store sc r)\<lparr>sq_generated_tokens := sq_generated_tokens (sc_store sc r) @ [tok]\<rparr>;
          lat1 = record_token now rid (bs_latency s);
          first = (sq_status q1 = PREFILLING);
          q2 = (if first then q1\<lparr>sq_status := DECODING\<rparr> else q1);
          lat2 = (if first then record_first_token now rid lat1 else lat1);
          s2 = s\<lparr>bs_core := sc\<lparr>sc_store := (sc_store sc)(r := q2)\<rparr>, bs_latency := lat2\<rparr>
      in case (case sq_constraint q2 of None \<Rightarrow> None | Some k \<Rightarrow> con k i tok) of
           Some e \<Rightarrow> (Some e, s2, cache)
         | None \<Rightarrow>
             if seq_is_complete q2 \<or> tok \<in> set (sq_stop_token_ids q2)
             then let q3 = q2\<lparr>sq_status := DONE\<rparr>;
                      (e, cache') = store_finished hook kvs q3 cache
                  in (e, s2\<lparr>bs_core := sc\<lparr>sc_store := (sc_store sc)(r := q3)\<rparr>, bs_latency := complete now rid lat2\<rparr>, cache')
             else (None, s2, cache))"

text \<open>Reading past the sampled tokens raises.\<close>

fun step_loop ::
    "(nat \<Rightarrow> nat \<Rightarrow> int \<Rightarrow> py_error option) \<Rightarrow> ('k, 'c) prefix_hook option \<Rightarrow> (string, 'k) dict \<Rightarrow> rat \<Rightarrow> nat \<Rightarrow> int list \<Rightarrow> nat list
     \<Rightarrow> ('t, 'm) bsched \<times> 'c \<Rightarrow> py_error option \<times> ('t, 'm) bsched \<times> 'c" where
  "step_loop con hook kvs now i toks [] sx = (None, sx)"
| "step_loop con hook kvs now i [] (r # rs) sx = (Some IndexError, sx)"
| "step_loop con hook kvs now i (tok # toks) (r # rs) sx =
     (case step_one con hook kvs now i tok r sx of
        (Some e, sx') \<Rightarrow> (Some e, sx')
      | (None, sx') \<Rightarrow> step_loop con hook kvs now (Suc i) toks rs sx')"

fun prune_done :: "'m paged_ops \<Rightarrow> string list \<Rightarrow> ('t, 'm) bsched \<Rightarrow> ('t, 'm) bsched" where
  "prune_done ops [] s = s"
| "prune_done ops (rid # rids) s =
     prune_done ops rids
       (let sc = bs_core s
        in s\<lparr>bs_core := sc\<lparr>sc_paged := free_paged_blocks ops rid (sc_paged sc), sc_active := AList.delete rid (sc_active sc)\<rparr>,
             bs_chunked := AList.delete rid (bs_chunked s)\<rparr>)"

definition record_step_metrics :: "int \<Rightarrow> rat \<Rightarrow> ('t, 'm) bsched \<Rightarrow> ('t, 'm) bsched" where
  "record_step_metrics decode_count elapsed s =
     (if decode_count > 0 \<and> elapsed > 0 then s\<lparr>bs_pressure := record_decode_step decode_count elapsed (bs_pressure s)\<rparr> else s)"

text \<open>\<open>elapsed\<close> is the time the loop took, in milliseconds.\<close>

definition step ::
    "(nat \<Rightarrow> nat \<Rightarrow> int \<Rightarrow> py_error option) \<Rightarrow> ('k, 'c) prefix_hook option \<Rightarrow> (string, 'k) dict \<Rightarrow> 'm paged_ops \<Rightarrow> rat \<Rightarrow> rat
     \<Rightarrow> scheduled_batch \<Rightarrow> int list \<Rightarrow> ('t, 'm) bsched \<times> 'c \<Rightarrow> py_error option \<times> ('t, 'm) bsched \<times> 'c" where
  "step con hook kvs ops now elapsed sb toks sx =
     (let decode_count = int (length (filter (\<lambda>r. sq_status (sc_store (bs_core (fst sx)) r) = DECODING) (sb_sequences sb)))
      in case step_loop con hook kvs now 0 toks (sb_sequences sb) sx of
           (Some e, sx') \<Rightarrow> (Some e, sx')
         | (None, s1, cache) \<Rightarrow>
             let s2 = record_step_metrics decode_count (if decode_count > 0 then elapsed else 0) s1;
                 st = sc_store (bs_core s2);
                 done_rids = map (sq_request_id \<circ> st) (filter (seq_is_complete \<circ> st) (sb_sequences sb));
                 s3 = prune_done ops done_rids s2;
                 c = bs_cfg s3
             in (None, s3\<lparr>bs_cfg := c\<lparr>cf_energy := map_option (record_energy_usage (if decode_count > 0 then elapsed / 1000 else 0)) (cf_energy c)\<rparr>\<rparr>, cache))"

section \<open>Queries and re-prioritisation\<close>

definition get_sequence :: "string \<Rightarrow> ('t, 'm) bsched \<Rightarrow> nat option" where
  "get_sequence rid s =
     (let sc = bs_core s in
      case map_of (sc_active sc) rid of
        Some r \<Rightarrow> Some r
      | None \<Rightarrow> map_option entry_ref (find (\<lambda>x. sq_request_id (sc_store sc (entry_ref x)) = rid) (sc_heap sc)))"

definition has_pending :: "('t, 'm) bsched \<Rightarrow> bool" where
  "has_pending s \<longleftrightarrow> sc_heap (bs_core s) \<noteq> [] \<or> list_ex (\<lambda>(k, r). \<not> seq_is_complete (sc_store (bs_core s) r)) (sc_active (bs_core s))"

definition build_index :: "'m sched \<Rightarrow> (string, nat) dict" where
  "build_index sc = fold (\<lambda>i. AList.update (sq_request_id (sc_store sc (entry_ref (sc_heap sc ! i)))) i) [0..<length (sc_heap sc)] []"

definition promote_request :: "string \<Rightarrow> int \<Rightarrow> ('t, 'm) bsched \<Rightarrow> (py_error + bool) \<times> ('t, 'm) bsched" where
  "promote_request rid new_priority s =
     (let sc = bs_core s;
          index = (case bs_index s of None \<Rightarrow> build_index sc | Some d \<Rightarrow> d);
          s1 = s\<lparr>bs_index := Some index\<rparr>
      in case map_of index rid of
           None \<Rightarrow> (Inr False, s1)
         | Some idx \<Rightarrow>
             if idx \<ge> length (sc_heap sc) then (Inl IndexError, s1)
             else (case sc_heap sc ! idx of (pri, cnt, r) \<Rightarrow>
               let st = (sc_store sc)(r := (sc_store sc r)\<lparr>sq_priority := new_priority\<rparr>);
                   h = (sc_heap sc)[idx := (new_priority, cnt, r)]
               in case (if new_priority < pri then siftdown (entry_lt st) 0 idx h else siftup (entry_lt st) idx h) of
                    (Some e, h') \<Rightarrow> (Inl e, s1\<lparr>bs_core := sc\<lparr>sc_store := st, sc_heap := h'\<rparr>\<rparr>)
                  | (None, h') \<Rightarrow> (Inr True, s1\<lparr>bs_core := sc\<lparr>sc_store := st, sc_heap := h'\<rparr>, bs_index := None\<rparr>)))"

end
