(* ===== verification/Batching.thy ===== *)
theory Batching
  imports BatchScheduler
begin

text \<open>
  Properties of the iteration loop of \<^verbatim>\<open>core/batch_scheduler.py\<close>: the flat layout of a batch, the promotion of pending
  sequences, re-prioritisation in the heap, and the token count over \<^verbatim>\<open>step\<close>.
\<close>

section \<open>The flat layout\<close>

definition seq_tokens :: "seqn \<Rightarrow> int list" where
  "seq_tokens q = sq_prompt_tokens q @ sq_generated_tokens q"

text \<open>A piece of a sequence: the tokens found in it from a position on.\<close>

definition piece_of :: "seqn \<Rightarrow> int list \<times> bool \<times> int \<Rightarrow> bool" where
  "piece_of q t \<longleftrightarrow> (case t of (tokens, prefill, pos) \<Rightarrow>
     0 \<le> pos \<and> tokens = take (length tokens) (drop (nat pos) (seq_tokens q))
     \<and> (\<not> prefill \<longrightarrow> length tokens = 1 \<and> pos = total_len q - 1))"

definition cursors_ok :: "('t, 'm) bsched \<Rightarrow> bool" where
  "cursors_ok s \<longleftrightarrow> (\<forall>cp \<in> snd ` set (bs_chunked s). 0 \<le> cp_tokens_processed cp)"

definition unmatched_ok :: "sstore \<Rightarrow> nat list \<Rightarrow> bool" where
  "unmatched_ok st rs \<longleftrightarrow> (\<forall>r \<in> set rs. 0 \<le> sq_prefix_match_len (st r))"

lemma slice_piece:
  assumes "0 \<le> a" and "b \<le> int (length xs)"
  shows "slice xs a b = take (length (slice xs a b)) (drop (nat a) (xs @ ys))"
proof -
  have c: "clip_index (length xs) a = min (nat a) (length xs)" using assms by (auto simp: clip_index_def min_def)
  show ?thesis
    by (cases "nat a \<le> length xs") (auto simp: slice_def c min_def)
qed

lemma same_status_fields:
  assumes "same_but_status st st'"
  shows "sq_prompt_tokens (st' r) = sq_prompt_tokens (st r)" "sq_generated_tokens (st' r) = sq_generated_tokens (st r)"
    "sq_prefix_match_len (st' r) = sq_prefix_match_len (st r)" "sq_max_new_tokens (st' r) = sq_max_new_tokens (st r)"
    "sq_adapter_id (st' r) = sq_adapter_id (st r)"
proof -
  obtain x where "st' r = (st r)\<lparr>sq_status := x\<rparr>" using assms unfolding same_but_status_def by blast
  then show "sq_prompt_tokens (st' r) = sq_prompt_tokens (st r)" "sq_generated_tokens (st' r) = sq_generated_tokens (st r)"
    "sq_prefix_match_len (st' r) = sq_prefix_match_len (st r)" "sq_max_new_tokens (st' r) = sq_max_new_tokens (st r)"
    "sq_adapter_id (st' r) = sq_adapter_id (st r)" by simp_all
qed

lemma seq_tokens_same: "same_but_status st st' \<Longrightarrow> seq_tokens (st' r) = seq_tokens (st r)"
  by (simp add: seq_tokens_def same_status_fields)

lemma set_update_subset: "set (AList.update k v d) \<subseteq> insert (k, v) (set d)"
  by (induction d) auto

lemma chunk_tokens_piece:
  assumes "0 \<le> sq_prefix_match_len q" and "0 \<le> cp_tokens_processed cp" and "chunk_tokens c b q cp = (tokens, pos)"
  shows "piece_of q (tokens, True, pos)"
  using assms slice_piece [of "sq_prefix_match_len q + cp_tokens_processed cp" _ "sq_prompt_tokens q" "sq_generated_tokens q"]
  by (auto simp: chunk_tokens_def piece_of_def seq_tokens_def Let_def)

lemma build_seq_tokens_piece:
  assumes "0 \<le> sq_prefix_match_len (sc_store (bs_core s) r)" and "cursors_ok s"
  obtains t s' where "build_seq_tokens b r s = (Inr t, s')" "piece_of (sc_store (bs_core s) r) t" "cursors_ok s'"
    "same_but_status (sc_store (bs_core s)) (sc_store (bs_core s'))"
proof -
  let ?q = "sc_store (bs_core s) r"
  let ?n = "int (length (sq_prompt_tokens ?q))"
  consider (chunk) cp where "map_of (bs_chunked s) (sq_request_id ?q) = Some cp"
    | (empty) "map_of (bs_chunked s) (sq_request_id ?q) = None" "sq_generated_tokens ?q = []" "?n = 0"
    | (prompt) "map_of (bs_chunked s) (sq_request_id ?q) = None" "sq_generated_tokens ?q = []" "?n \<noteq> 0"
    | (decode) "map_of (bs_chunked s) (sq_request_id ?q) = None" "sq_generated_tokens ?q \<noteq> []"
    by (cases "map_of (bs_chunked s) (sq_request_id ?q)"; blast)
  then show thesis
  proof cases
    case chunk
    obtain tokens pos where ct: "chunk_tokens (bs_cfg s) b ?q cp = (tokens, pos)" by fastforce
    have "0 \<le> cp_tokens_processed cp" using assms(2) map_of_SomeD [OF chunk] by (force simp: cursors_ok_def)
    then have "piece_of ?q (tokens, True, pos)" "0 \<le> cp_tokens_processed cp + int (length tokens)"
      using chunk_tokens_piece [OF assms(1) _ ct] by auto
    moreover have "cursors_ok (s\<lparr>bs_chunked := AList.delete k (bs_chunked s), bs_core := x\<rparr>)" for k x
      using assms(2) by (auto simp: cursors_ok_def set_delete)
    moreover have "cursors_ok (s\<lparr>bs_chunked := AList.update k cp' (bs_chunked s), bs_core := x\<rparr>)"
      if "0 \<le> cp_tokens_processed cp'" for k cp' x
      using assms(2) that set_update_subset [of k cp' "bs_chunked s"] by (force simp: cursors_ok_def)
    ultimately show thesis
      by (intro that [of "(tokens, True, pos)"]) (auto simp: build_seq_tokens_def chunk ct Let_def)
  next
    case empty
    then show thesis
      using assms(2) by (intro that [of "([], True, 0)" "snd (build_seq_tokens b r s)"]) (auto simp: build_seq_tokens_def Let_def piece_of_def cursors_ok_def)
  next
    case prompt
    define a where "a = (if min (sq_prefix_match_len ?q) ?n \<ge> ?n then ?n - 1 else min (sq_prefix_match_len ?q) ?n)"
    have "0 \<le> a" using assms(1) prompt(3) by (auto simp: a_def)
    then have "piece_of ?q (slice (sq_prompt_tokens ?q) a ?n, True, a)"
      using slice_piece [of a ?n "sq_prompt_tokens ?q"] by (simp add: piece_of_def seq_tokens_def)
    then show thesis
      using assms(2) prompt
      by (intro that [of "(slice (sq_prompt_tokens ?q) a ?n, True, a)" "snd (build_seq_tokens b r s)"])
        (auto simp: build_seq_tokens_def Let_def cursors_ok_def a_def)
  next
    case decode
    then obtain xs t where g: "sq_generated_tokens ?q = xs @ [t]" by (cases "sq_generated_tokens ?q" rule: rev_cases) auto
    then have "piece_of ?q ([t], False, total_len ?q - 1)"
      by (simp add: piece_of_def seq_tokens_def total_len_def nat_add_distrib)
    with decode g show thesis
      using assms(2)
      by (intro that [of "([t], False, total_len ?q - 1)" "snd (build_seq_tokens b r s)"]) (auto simp: build_seq_tokens_def Let_def cursors_ok_def decode_input_token_def)
  qed
qed


text \<open>A layout lists the pieces of the sequences of a batch one after the other.\<close>

definition layout_ok :: "sstore \<Rightarrow> nat list \<Rightarrow> layout \<Rightarrow> bool" where
  "layout_ok st rs l \<longleftrightarrow>
     ly_request_ids l = map (sq_request_id \<circ> st) rs
     \<and> length (ly_seq_starts l) = length rs \<and> length (ly_seq_lengths l) = length rs
     \<and> length (ly_position_offsets l) = length rs \<and> length (ly_is_prefill l) = length rs
     \<and> sum_list (ly_seq_lengths l) = int (length (ly_flat_tokens l))
     \<and> (\<forall>i < length rs. ly_seq_starts l ! i = sum_list (take i (ly_seq_lengths l)) \<and> 0 \<le> ly_seq_lengths l ! i
           \<and> piece_of (st (rs ! i))
               (take (nat (ly_seq_lengths l ! i)) (drop (nat (ly_seq_starts l ! i)) (ly_flat_tokens l)),
                ly_is_prefill l ! i, ly_position_offsets l ! i))"

lemma piece_of_same: "same_but_status st st' \<Longrightarrow> piece_of (st' r) t = piece_of (st r) t"
  by (simp add: piece_of_def seq_tokens_same same_but_statusD)

lemma layout_ok_same: "same_but_status st st' \<Longrightarrow> layout_ok st' rs l = layout_ok st rs l"
  by (simp add: layout_ok_def piece_of_same same_but_statusD comp_def)

lemma layout_start_bound:
  assumes "layout_ok st rs l" and "i < length rs"
  shows "nat (ly_seq_starts l ! i) + nat (ly_seq_lengths l ! i) \<le> length (ly_flat_tokens l)"
proof -
  let ?n = "ly_seq_lengths l"
  have i: "i < length ?n" and nn: "\<And>x. x \<in> set ?n \<Longrightarrow> 0 \<le> x"
    using assms by (auto simp: layout_ok_def in_set_conv_nth)
  have "sum_list ?n = sum_list (take i ?n) + ?n ! i + sum_list (drop (Suc i) ?n)"
    by (subst id_take_nth_drop [OF i]) simp
  moreover have "0 \<le> sum_list (take i ?n)" "0 \<le> sum_list (drop (Suc i) ?n)" "0 \<le> ?n ! i"
    using nn i by (auto intro!: sum_list_nonneg dest: in_set_takeD in_set_dropD)
  moreover have "ly_seq_starts l ! i = sum_list (take i ?n)" "sum_list ?n = int (length (ly_flat_tokens l))"
    using assms by (simp_all add: layout_ok_def)
  ultimately show ?thesis by linarith
qed

lemma layout_ok_extend:
  assumes "layout_ok st rs l" and "piece_of (st r) (tokens, prefill, pos)"
  shows "layout_ok st (rs @ [r]) (extend_layout (sq_request_id (st r)) (tokens, prefill, pos) l)" (is "layout_ok st _ ?l")
proof -
  have "piece_of (st ((rs @ [r]) ! i)) (take (nat (ly_seq_lengths ?l ! i)) (drop (nat (ly_seq_starts ?l ! i)) (ly_flat_tokens ?l)),
      ly_is_prefill ?l ! i, ly_position_offsets ?l ! i)
    \<and> ly_seq_starts ?l ! i = sum_list (take i (ly_seq_lengths ?l)) \<and> 0 \<le> ly_seq_lengths ?l ! i" if "i < length (rs @ [r])" for i
  proof (cases "i < length rs")
    case True
    then show ?thesis
      using assms(1) layout_start_bound [OF assms(1) True] by (auto simp: layout_ok_def extend_layout_def nth_append)
  next
    case False
    with that have "i = length rs" by simp
    then show ?thesis using assms by (auto simp: layout_ok_def extend_layout_def nth_append)
  qed
  then have "\<forall>i < length (rs @ [r]). ly_seq_starts ?l ! i = sum_list (take i (ly_seq_lengths ?l)) \<and> 0 \<le> ly_seq_lengths ?l ! i
      \<and> piece_of (st ((rs @ [r]) ! i)) (take (nat (ly_seq_lengths ?l ! i)) (drop (nat (ly_seq_starts ?l ! i)) (ly_flat_tokens ?l)),
          ly_is_prefill ?l ! i, ly_position_offsets ?l ! i)" by blast
  moreover have "ly_request_ids ?l = map (sq_request_id \<circ> st) (rs @ [r])" "length (ly_seq_starts ?l) = length (rs @ [r])"
    "length (ly_seq_lengths ?l) = length (rs @ [r])" "length (ly_position_offsets ?l) = length (rs @ [r])"
    "length (ly_is_prefill ?l) = length (rs @ [r])" "sum_list (ly_seq_lengths ?l) = int (length (ly_flat_tokens ?l))"
    using assms(1) by (simp_all add: layout_ok_def extend_layout_def)
  ultimately show ?thesis unfolding layout_ok_def by blast
qed

lemma build_batch_tensors_layout:
  assumes "layout_ok (sc_store (bs_core s)) rs0 l" and "unmatched_ok (sc_store (bs_core s)) rs" and "cursors_ok s"
  obtains l' s' where "build_batch_tensors b rs l s = (Inr l', s')" "layout_ok (sc_store (bs_core s)) (rs0 @ rs) l'"
    "same_but_status (sc_store (bs_core s)) (sc_store (bs_core s'))"
  using assms
proof (induction rs arbitrary: rs0 l s thesis)
  case Nil
  then show ?case by simp
next
  case (Cons r rs)
  let ?st = "sc_store (bs_core s)"
  obtain tokens prefill pos s1 where b: "build_seq_tokens b r s = (Inr (tokens, prefill, pos), s1)"
    and piece: "piece_of (?st r) (tokens, prefill, pos)" and c1: "cursors_ok s1" and same: "same_but_status ?st (sc_store (bs_core s1))"
    using build_seq_tokens_piece [of s r b] Cons.prems(3,4) unfolding unmatched_ok_def by (metis list.set_intros(1) prod_cases3)
  define s2 where "s2 = (if prefill then s1\<lparr>bs_total_prefill := bs_total_prefill s1 + int (length tokens)\<rparr>
      else s1\<lparr>bs_total_decode := bs_total_decode s1 + 1\<rparr>)"
  have core: "bs_core s2 = bs_core s1" and c2: "cursors_ok s2" using c1 by (auto simp: s2_def cursors_ok_def)
  let ?l = "extend_layout (sq_request_id (?st r)) (tokens, prefill, pos) l"
  have "layout_ok ?st (rs0 @ [r]) ?l" using layout_ok_extend [OF Cons.prems(2) piece] .
  then have l: "layout_ok (sc_store (bs_core s2)) (rs0 @ [r]) ?l" using layout_ok_same [OF same] core by simp
  have u: "unmatched_ok (sc_store (bs_core s2)) rs"
    using Cons.prems(3) same core by (simp add: unmatched_ok_def same_status_fields)
  obtain l' s' where r: "build_batch_tensors b rs ?l s2 = (Inr l', s')" "layout_ok (sc_store (bs_core s2)) ((rs0 @ [r]) @ rs) l'"
    "same_but_status (sc_store (bs_core s2)) (sc_store (bs_core s'))"
    using Cons.IH [OF _ l u c2] by blast
  show ?case
  proof (rule Cons.prems(1))
    show "build_batch_tensors b (r # rs) l s = (Inr l', s')" using r(1) b by (simp add: s2_def Let_def)
    show "layout_ok ?st (rs0 @ r # rs) l'" using r(2) layout_ok_same [OF same] core by simp
    show "same_but_status ?st (sc_store (bs_core s'))" using r(3) same core by (auto intro: same_but_status_trans)
  qed
qed

text \<open>C28: The batch handed to the model is well-formed and holds the right tokens. Building it never raises; its lists have
  one item per sequence, the lengths add up to the number of flat tokens, each start is the sum of the lengths before it,
  and the tokens between start and start plus length are the sequence's own tokens (prompt, then
  generated) from the recorded position offset on; a decode item is exactly the last token of the sequence.\<close>
theorem batch_layout_exact:
  assumes "unmatched_ok (sc_store (bs_core s)) batch" and "cursors_ok s"
  shows "\<exists>sb s'. build_scheduled_batch batch b s = (Inr sb, s') \<and> sb_sequences sb = batch
     \<and> sb_request_ids sb = map (sq_request_id \<circ> sc_store (bs_core s)) batch
     \<and> length (sb_seq_starts sb) = length batch \<and> length (sb_seq_lengths sb) = length batch
     \<and> length (sb_position_offsets sb) = length batch \<and> length (sb_is_prefill sb) = length batch
     \<and> batch_total_tokens sb = int (length (sb_input_ids sb))
     \<and> (\<forall>i < length batch. sb_seq_starts sb ! i = sum_list (take i (sb_seq_lengths sb))
           \<and> piece_of (sc_store (bs_core s) (batch ! i))
               (take (nat (sb_seq_lengths sb ! i)) (drop (nat (sb_seq_starts sb ! i)) (sb_input_ids sb)),
                sb_is_prefill sb ! i, sb_position_offsets sb ! i))"
proof -
  have "layout_ok (sc_store (bs_core s)) [] empty_layout" by (simp add: layout_ok_def empty_layout_def)
  then obtain l s' where "build_batch_tensors b batch empty_layout s = (Inr l, s')" "layout_ok (sc_store (bs_core s)) batch l"
    using build_batch_tensors_layout [OF _ assms, of "[]" empty_layout b] by (metis append_Nil)
  then show ?thesis by (auto simp: build_scheduled_batch_def layout_ok_def batch_total_tokens_def)
qed


text \<open>A scheduler with a decode, a fresh prompt and a prompt in chunks.\<close>

definition demo_store :: sstore where
  "demo_store r =
     (if r = 0 then (sequence_new ''a'' [1, 2, 3] 2 8 [] None None 0)\<lparr>sq_generated_tokens := [7, 8], sq_status := DECODING\<rparr>
      else if r = 1 then sequence_new ''b'' [4, 5] 2 8 [] None None 1
      else sequence_new ''c'' [10, 11, 12, 13, 14, 15, 16, 17, 18, 19] 2 8 [] None None 2)"

definition demo_cfg :: bs_config where
  "demo_cfg = bs_config_init 4 100 False True 4 0 [] 30 2 True None"

definition demo_bs :: "(unit, unit) bsched" where
  "demo_bs = \<lparr>bs_cfg = demo_cfg,
     bs_core = \<lparr>sc_store = demo_store, sc_active = [(''a'', 0), (''c'', 2)], sc_total = 15, sc_heap = [(2, 1, 1)], sc_counter = 2, sc_paged = None\<rparr>,
     bs_pm = preemption_init 4,
     bs_chunked = [(''c'', \<lparr>cp_seq_id = ''c'', cp_total_prompt_tokens = 10, cp_tokens_processed = 4, cp_chunk_size = 4, cp_chunks_remaining = 2\<rparr>)],
     bs_latency = latency_init 5000, bs_pressure = tracker_init (1 / 5) 50 10, bs_index = None, bs_iteration = 0, bs_total_prefill = 0,
     bs_total_decode = 0\<rparr>"

theorem batch_layout_exact_witness:
  "\<exists>sb s'. build_scheduled_batch [0, 1, 2] (cf_budget demo_cfg) demo_bs = (Inr sb, s') \<and> sb_input_ids sb = [8, 4, 5, 14, 15, 16, 17]
     \<and> batch_total_tokens sb = 7"
proof -
  let ?b = "build_scheduled_batch [0, 1, 2] (cf_budget demo_cfg) demo_bs"
  have "unmatched_ok (sc_store (bs_core demo_bs)) [0, 1, 2]" by code_simp
  moreover have "cursors_ok demo_bs" by code_simp
  ultimately obtain sb s' where b: "?b = (Inr sb, s')" "batch_total_tokens sb = int (length (sb_input_ids sb))"
    using batch_layout_exact [of demo_bs "[0, 1, 2]" "cf_budget demo_cfg"] by blast
  have "sb_input_ids (projr (fst ?b)) = [8, 4, 5, 14, 15, 16, 17]" by code_simp
  with b show ?thesis by simp
qed


section \<open>Promotion of pending sequences\<close>

text \<open>The part of the scheduler's consistency that does not speak of preempted sequences.\<close>

definition core_ok :: "'m sched \<Rightarrow> bool" where
  "core_ok sc \<longleftrightarrow> keyed (sc_store sc) (sc_active sc) \<and> sc_total sc = tokens_of (sc_store sc) (sc_active sc)
     \<and> pq.is_heap (sc_heap sc) \<and> distinct (map entry_key (sc_heap sc)) \<and> (\<forall>e \<in> set (sc_heap sc). snd (entry_key e) \<le> sc_counter sc)"

lemma sched_ok_core: "sched_ok pm sc \<Longrightarrow> core_ok sc"
  by (simp add: sched_ok_def core_ok_def)

abbreviation entry_id :: "'m sched \<Rightarrow> entry \<Rightarrow> string" where
  "entry_id sc x \<equiv> sq_request_id (sc_store sc (entry_ref x))"

text \<open>No request waits twice or while it is active.\<close>

definition waiting_once :: "'m sched \<Rightarrow> bool" where
  "waiting_once sc \<longleftrightarrow> distinct (map (entry_id sc) (sc_heap sc)) \<and> (\<forall>x \<in> set (sc_heap sc). entry_id sc x \<notin> fst ` set (sc_active sc))"

lemma core_ok_init: "core_ok (bs_core (bs_init cfg st mgr))" "waiting_once (bs_core (bs_init cfg st mgr))"
  by (simp_all add: bs_init_def core_ok_def waiting_once_def keyed_def dict_wf_def tokens_of_def pq.is_heap_def pq.heap_from_def)

text \<open>A PagedAttention manager with blocks of positive size whose allocation fails only for lack of blocks.\<close>

definition paging_safe :: "'m paged_ops \<Rightarrow> bool" where
  "paging_safe ops \<longleftrightarrow> (\<forall>m. pa_block_size ops m \<noteq> Some 0)
     \<and> (\<forall>rid n m e. fst (pa_allocate_sequence ops rid n m) = Inl e \<longrightarrow> e = RuntimeError)"

definition aging_safe :: "bs_config \<Rightarrow> bool" where
  "aging_safe c \<longleftrightarrow> cf_aging_enabled c \<longrightarrow> cf_aging_interval c \<noteq> 0"

lemma effective_priority_total: "aging_safe c \<Longrightarrow> \<exists>p. effective_priority c now lat avg pri s = Inr p"
  by (auto simp: effective_priority_def aging_boost_def aging_safe_def Let_def)

lemma blocks_ok_total: "paging_safe ops \<Longrightarrow> \<exists>ok. blocks_ok ops pool tokens mgr = Inr ok"
  by (cases mgr) (auto simp: blocks_ok_def paged_kv_block_count_def paging_safe_def Let_def split: option.splits)

lemma allocate_total: "paging_safe ops \<Longrightarrow> \<exists>bl m. allocate_paged_blocks ops s mgr = (Inr bl, m)"
proof (cases mgr)
  case (Some m)
  assume safe: "paging_safe ops"
  obtain res m' where a: "pa_allocate_sequence ops (sq_request_id s) (int (length (sq_prompt_tokens s)) + sq_max_new_tokens s) m = (res, m')"
    by fastforce
  have "res = Inl e \<Longrightarrow> e = RuntimeError" for e using safe a unfolding paging_safe_def by (metis fst_conv)
  with Some a show ?thesis by (cases res) (auto simp: allocate_paged_blocks_def)
qed (simp add: allocate_paged_blocks_def)

lemma candidate_chunk_le: "candidate_chunk c b tokens remain da = Some chunk \<Longrightarrow> chunk \<le> tokens"
  by (auto simp: candidate_chunk_def chunked_candidate_def Let_def split: if_splits)

lemma admit_fields:
  assumes "paging_safe ops"
  obtains po' paged where "admit c ops b chunk r po = (None, po')"
    "po_core po' = (po_core po)\<lparr>sc_store := set_status r PREFILLING (sc_store (po_core po)),
        sc_active := AList.update (sq_request_id (sc_store (po_core po) r)) r (sc_active (po_core po)),
        sc_total := sc_total (po_core po) + total_len (sc_store (po_core po) r), sc_paged := paged\<rparr>"
    "po_batch po' = po_batch po @ [r]" "po_rejected po' = po_rejected po" "po_remain_t po' = po_remain_t po - chunk"
    "po_slots po' = po_slots po - 1"
proof -
  obtain bl paged where a: "allocate_paged_blocks ops (set_status r PREFILLING (sc_store (po_core po)) r) (sc_paged (po_core po)) = (Inr bl, paged)"
    using allocate_total [OF assms] by blast
  show thesis
    by (rule that [of "snd (admit c ops b chunk r po)" paged]) (simp_all add: admit_def a Let_def)
qed

lemma promote_one_cases:
  assumes "paging_safe ops" and "aging_safe c" and "map_of (sc_active (po_core po)) (entry_id (po_core po) x) = None"
  obtains (rejected) "promote_one c ops pool now lat b da avg x po = (None, po\<lparr>po_rejected := po_rejected po @ [x]\<rparr>)"
  | (admitted) chunk where "promote_one c ops pool now lat b da avg x po = admit c ops b chunk (entry_ref x) po"
      "0 < po_slots po" "chunk \<le> po_remain_t po"
proof -
  obtain pri cnt r where x: "x = (pri, cnt, r)" by (cases x) auto
  let ?s = "sc_store (po_core po) r"
  obtain p where p: "effective_priority c now lat avg pri ?s = Inr p" using effective_priority_total [OF assms(2)] by blast
  show thesis
  proof (cases "po_slots po \<le> 0 \<or> (po_remain_p po \<le> 0 \<and> po_remain_t po \<le> 0) \<or> total_len ?s > po_remain_t po")
    case True
    then show thesis using rejected assms(3) p x by (auto simp: promote_one_def reject_def Let_def)
  next
    case False
    show thesis
    proof (cases "candidate_chunk c b (total_len ?s) (po_remain_t po) da")
      case None
      then show thesis using rejected assms(3) p x False by (auto simp: promote_one_def reject_def Let_def)
    next
      case (Some chunk)
      have le: "chunk \<le> po_remain_t po" using candidate_chunk_le [OF Some] False by simp
      obtain ok where "blocks_ok ops pool (sc_total (po_core po) + chunk) (sc_paged (po_core po)) = Inr ok"
        using blocks_ok_total [OF assms(1)] by blast
      then show thesis
        using rejected admitted [of chunk] assms(3) p x False Some le by (cases ok) (auto simp: promote_one_def reject_def Let_def)
    qed
  qed
qed


text \<open>
  What the promotion loop has done so far, given the entries \<open>adm\<close> it admitted: nothing is lost, the admitted entries
  came out in the order of the heap, and the counters are exact.
\<close>

definition promo_split :: "'m sched \<Rightarrow> entry list \<Rightarrow> entry list \<Rightarrow> 'm promo \<Rightarrow> bool" where
  "promo_split sc0 adm popped po \<longleftrightarrow>
     mset (sc_heap sc0) = mset (sc_heap (po_core po)) + mset popped + mset (po_rejected po) + mset adm
     \<and> sorted (map entry_key adm)
     \<and> (\<forall>x \<in> set adm. \<forall>y \<in> set popped \<union> set (sc_heap (po_core po)). entry_key x \<le> entry_key y)
     \<and> (\<forall>x \<in> set popped. \<forall>y \<in> set (sc_heap (po_core po)). entry_key x \<le> entry_key y)
     \<and> pq.is_heap (sc_heap (po_core po))"

definition promo_state :: "'m sched \<Rightarrow> nat list \<Rightarrow> int \<Rightarrow> entry list \<Rightarrow> 'm promo \<Rightarrow> bool" where
  "promo_state sc0 batch0 slots0 adm po \<longleftrightarrow>
     same_but_status (sc_store sc0) (sc_store (po_core po))
     \<and> (\<forall>r. sq_status (sc_store (po_core po) r) = (if r \<in> entry_ref ` set adm then PREFILLING else sq_status (sc_store sc0 r)))
     \<and> po_batch po = batch0 @ map entry_ref adm
     \<and> sc_active (po_core po) = sc_active sc0 @ map (\<lambda>x. (entry_id sc0 x, entry_ref x)) adm
     \<and> sc_total (po_core po) = sc_total sc0 + (\<Sum>x \<leftarrow> adm. total_len (sc_store sc0 (entry_ref x)))
     \<and> sc_counter (po_core po) = sc_counter sc0
     \<and> po_slots po = slots0 - int (length adm) \<and> (adm \<noteq> [] \<longrightarrow> 0 \<le> po_slots po) \<and> 0 \<le> po_remain_t po"

lemma promo_ids:
  assumes "waiting_once sc0" and "promo_split sc0 adm popped po" and "promo_state sc0 batch0 slots0 adm po" and "x \<in> set popped"
  shows "entry_id sc0 x \<notin> fst ` set (sc_active (po_core po))"
proof -
  have m: "mset (map (entry_id sc0) (sc_heap sc0)) =
      mset (map (entry_id sc0) (sc_heap (po_core po) @ popped @ po_rejected po @ adm))"
    using assms(2) by (simp add: promo_split_def image_mset_union)
  have "distinct (map (entry_id sc0) (sc_heap (po_core po) @ popped @ po_rejected po @ adm))"
    using assms(1) mset_eq_imp_distinct_iff [OF m] by (simp add: waiting_once_def)
  then have "entry_id sc0 ` set popped \<inter> entry_id sc0 ` set adm = {}" by auto
  then have "entry_id sc0 x \<notin> entry_id sc0 ` set adm" using assms(4) by blast
  moreover have "x \<in> set (sc_heap sc0)"
    using assms(2,4) mset_eq_setD [of "sc_heap sc0" "sc_heap (po_core po) @ popped @ po_rejected po @ adm"]
    by (auto simp: promo_split_def)
  moreover have "fst ` set (sc_active (po_core po)) = fst ` set (sc_active sc0) \<union> entry_id sc0 ` set adm"
    using assms(3) by (simp add: promo_state_def image_Un image_image)
  ultimately show ?thesis using assms(1) by (simp add: waiting_once_def)
qed

lemma promote_one_step:
  assumes "paging_safe ops" and "aging_safe c" and "waiting_once sc0"
    and "promo_split sc0 adm [x] po" and "promo_state sc0 batch0 slots0 adm po"
  obtains adm' po' where "promote_one c ops pool now lat b da avg x po = (None, po')"
    "promo_split sc0 adm' [] po'" "promo_state sc0 batch0 slots0 adm' po'" "sc_heap (po_core po') = sc_heap (po_core po)"
proof -
  have same: "same_but_status (sc_store sc0) (sc_store (po_core po))" using assms(5) by (simp add: promo_state_def)
  have id: "entry_id (po_core po) x = entry_id sc0 x" using same by (simp add: same_but_statusD)
  have new: "entry_id sc0 x \<notin> fst ` set (sc_active (po_core po))" using promo_ids [OF assms(3,4,5)] by simp
  then have none: "map_of (sc_active (po_core po)) (entry_id (po_core po) x) = None" using id by (simp add: map_of_eq_None_iff)
  show thesis
  proof (cases rule: promote_one_cases [OF assms(1,2) none, of pool now lat b da avg, case_names rejected admitted])
    case rejected
    then show thesis
      using assms(4,5) by (intro that [of "po\<lparr>po_rejected := po_rejected po @ [x]\<rparr>" adm]) (auto simp: promo_split_def promo_state_def)
  next
    case (admitted chunk)
    obtain po' paged where po': "admit c ops b chunk (entry_ref x) po = (None, po')"
      and core: "po_core po' = (po_core po)\<lparr>sc_store := set_status (entry_ref x) PREFILLING (sc_store (po_core po)),
        sc_active := AList.update (entry_id (po_core po) x) (entry_ref x) (sc_active (po_core po)),
        sc_total := sc_total (po_core po) + total_len (sc_store (po_core po) (entry_ref x)), sc_paged := paged\<rparr>"
      and rest: "po_batch po' = po_batch po @ [entry_ref x]" "po_rejected po' = po_rejected po"
        "po_remain_t po' = po_remain_t po - chunk" "po_slots po' = po_slots po - 1"
      using admit_fields [OF assms(1)] by metis
    show thesis
    proof (rule that [of po' "adm @ [x]"])
      show "promote_one c ops pool now lat b da avg x po = (None, po')" using admitted(1) po' by simp
      show "promo_split sc0 (adm @ [x]) [] po'"
        using assms(4) core rest by (auto simp: promo_split_def sorted_append)
      show "promo_state sc0 batch0 slots0 (adm @ [x]) po'"
        using assms(5) core rest admitted(2,3) new
        by (auto simp: promo_state_def id update_new same_but_statusD [OF same] intro: same_but_status_trans)
      show "sc_heap (po_core po') = sc_heap (po_core po)" using core by simp
    qed
  qed
qed


lemma promote_loop_facts:
  assumes "paging_safe ops" and "aging_safe c" and "waiting_once sc0" and "distinct (map entry_key (sc_heap sc0))"
    and "promo_split sc0 adm [] po" and "promo_state sc0 batch0 slots0 adm po" and "k \<le> length (sc_heap (po_core po))"
  obtains adm' po' where "promote_loop k c ops pool now lat b da avg quota po = (None, po')"
    "promo_split sc0 adm' [] po'" "promo_state sc0 batch0 slots0 adm' po'"
  using assms(5-7)
proof (induction k arbitrary: adm po thesis)
  case 0
  then show ?case by simp
next
  case (Suc k)
  let ?sc = "po_core po"
  show ?case
  proof (cases "int (length (po_batch po) + length (po_rejected po)) < quota")
    case False
    then show ?thesis using Suc.prems by (intro Suc.prems(1) [of po adm]) auto
  next
    case True
    have m: "mset (map entry_key (sc_heap sc0)) = mset (map entry_key (sc_heap ?sc @ po_rejected po @ adm))"
      using Suc.prems(2) by (simp add: promo_split_def image_mset_union)
    then have "distinct (map entry_key (sc_heap ?sc))" using assms(4) mset_eq_imp_distinct_iff [OF m] by simp
    moreover have "sc_heap ?sc \<noteq> []" using Suc.prems(4) by auto
    ultimately obtain x h where pop: "heappop (entry_lt (sc_store ?sc)) (sc_heap ?sc) = (Inr x, h)"
      using pq.heappop_total by blast
    define po1 where "po1 = po\<lparr>po_core := ?sc\<lparr>sc_heap := h\<rparr>\<rparr>"
    have mh: "mset (sc_heap ?sc) = add_mset x (mset h)" using heappop_mset [OF pop] .
    have hp: "pq.is_heap h" and mn: "\<forall>y \<in> set (sc_heap ?sc). entry_key x \<le> entry_key y"
      using pq.heappop_heap [OF pop] Suc.prems(2) by (auto simp: promo_split_def)
    have sh: "set (sc_heap ?sc) = insert x (set h)" using mh by (metis set_mset_add_mset_insert set_mset_mset)
    have "promo_split sc0 adm [x] po1"
      using Suc.prems(2) mh hp sh mn by (auto simp: promo_split_def po1_def)
    moreover have "promo_state sc0 batch0 slots0 adm po1" using Suc.prems(3) by (auto simp: promo_state_def po1_def)
    ultimately obtain adm' po' where one: "promote_one c ops pool now lat b da avg x po1 = (None, po')"
      "promo_split sc0 adm' [] po'" "promo_state sc0 batch0 slots0 adm' po'" "sc_heap (po_core po') = sc_heap (po_core po1)"
      using promote_one_step [OF assms(1-3)] by metis
    have "length (sc_heap ?sc) = Suc (length h)" using arg_cong [OF mh, of size] by simp
    then have "k \<le> length (sc_heap (po_core po'))" using Suc.prems(4) one(4) by (simp add: po1_def)
    then obtain adm2 po2 where "promote_loop k c ops pool now lat b da avg quota po' = (None, po2)"
      "promo_split sc0 adm2 [] po2" "promo_state sc0 batch0 slots0 adm2 po2"
      using Suc.IH [OF _ one(2,3)] by blast
    then show ?thesis
      using True pop one(1) by (intro Suc.prems(1) [of po2 adm2]) (simp_all add: po1_def)
  qed
qed

lemma push_back_facts:
  assumes "pq.is_heap (sc_heap sc)" and "distinct (map entry_key (sc_heap sc @ xs))"
  obtains sc' where "push_back xs sc = (None, sc')" "sc' = sc\<lparr>sc_heap := sc_heap sc'\<rparr>" "pq.is_heap (sc_heap sc')"
    "mset (sc_heap sc') = mset (sc_heap sc) + mset xs"
  using assms
proof (induction xs arbitrary: sc thesis)
  case Nil
  then show ?case by simp
next
  case (Cons x xs)
  obtain h where h: "heappush (entry_lt (sc_store sc)) x (sc_heap sc) = (None, h)" "pq.is_heap h" "mset h = add_mset x (mset (sc_heap sc))"
    by (rule heappush_entry [of "sc_heap sc" x "sc_store sc"]) (use Cons.prems(2,3) in auto)
  have "mset (map entry_key (h @ xs)) = mset (map entry_key (sc_heap sc @ x # xs))" using h(3) by simp
  then have "distinct (map entry_key (h @ xs))" using Cons.prems(3) mset_eq_imp_distinct_iff by blast
  then obtain sc' where "push_back xs (sc\<lparr>sc_heap := h\<rparr>) = (None, sc')" "sc' = sc\<lparr>sc_heap := sc_heap sc'\<rparr>" "pq.is_heap (sc_heap sc')"
    "mset (sc_heap sc') = mset h + mset xs"
    using Cons.IH [of "sc\<lparr>sc_heap := h\<rparr>"] h(2) by auto
  then show ?case using h by (intro Cons.prems(1) [of sc']) auto
qed


lemma promoted_keyed:
  assumes "core_ok sc0" and "waiting_once sc0" and "mset (sc_heap sc0) = mset h + mset adm"
  shows "keyed (sc_store sc0) (sc_active sc0 @ map (\<lambda>x. (entry_id sc0 x, entry_ref x)) adm)"
proof -
  have m: "mset (map (entry_id sc0) (sc_heap sc0)) = mset (map (entry_id sc0) (h @ adm))" using assms(3) by simp
  have d: "distinct (map (entry_id sc0) adm)"
    using assms(2) mset_eq_imp_distinct_iff [OF m] by (simp add: waiting_once_def)
  have sub: "set adm \<subseteq> set (sc_heap sc0)" using mset_eq_setD [of "sc_heap sc0" "h @ adm"] assms(3) by auto
  have "keyed (sc_store sc0) (map (\<lambda>x. (entry_id sc0 x, entry_ref x)) adm)"
    using d by (auto simp: keyed_def dict_wf_def comp_def)
  moreover have "entry_id sc0 x \<notin> fst ` set (sc_active sc0)" if "x \<in> set adm" for x
    using assms(2) sub that unfolding waiting_once_def by blast
  then have "fst ` set (sc_active sc0) \<inter> fst ` set (map (\<lambda>x. (entry_id sc0 x, entry_ref x)) adm) = {}"
    by (simp add: image_image disjoint_iff) blast
  ultimately show ?thesis using assms(1) by (simp only: keyed_append core_ok_def)
qed

lemma core_ok_promoted:
  assumes "core_ok sc0" and "waiting_once sc0" and "promo_split sc0 adm [] po" and "promo_state sc0 batch0 slots0 adm po"
    and "sc' = (po_core po)\<lparr>sc_heap := h\<rparr>" and "pq.is_heap h" and "mset h = mset (sc_heap (po_core po)) + mset (po_rejected po)"
  shows "core_ok sc'" and "mset (sc_heap sc0) = mset adm + mset (sc_heap sc')"
proof -
  show m: "mset (sc_heap sc0) = mset adm + mset (sc_heap sc')" using assms(3,5,7) by (simp add: promo_split_def)
  have same: "same_but_status (sc_store sc0) (sc_store sc')" using assms(4,5) by (simp add: promo_state_def)
  have act: "sc_active sc' = sc_active sc0 @ map (\<lambda>x. (entry_id sc0 x, entry_ref x)) adm" using assms(4,5) by (simp add: promo_state_def)
  have "keyed (sc_store sc') (sc_active sc')"
    using promoted_keyed [OF assms(1,2), of h adm] m assms(5) keyed_same [OF same] act by (simp add: add.commute)
  moreover have "sc_total sc' = tokens_of (sc_store sc') (sc_active sc')"
  proof -
    have "tokens_of (sc_store sc0) (map (\<lambda>x. (entry_id sc0 x, entry_ref x)) adm) = (\<Sum>x \<leftarrow> adm. total_len (sc_store sc0 (entry_ref x)))"
      by (simp add: tokens_of_def comp_def)
    moreover have "sc_total sc' = sc_total sc0 + (\<Sum>x \<leftarrow> adm. total_len (sc_store sc0 (entry_ref x)))"
      using assms(4,5) by (simp add: promo_state_def)
    ultimately show ?thesis using assms(1) act tokens_of_same [OF same] by (simp add: core_ok_def)
  qed
  moreover have mk: "mset (map entry_key (sc_heap sc0)) = mset (map entry_key (adm @ h))" using m assms(5) by simp
  then have "distinct (map entry_key h)" using assms(1) mset_eq_imp_distinct_iff [OF mk] by (simp add: core_ok_def)
  moreover have "set h \<subseteq> set (sc_heap sc0)" using mset_eq_setD [of "sc_heap sc0" "adm @ h"] m assms(5) by auto
  ultimately show "core_ok sc'" using assms(1,4,5,6) by (auto simp: core_ok_def promo_state_def)
qed



text \<open>A paging manager that counts its free blocks of sixteen tokens.\<close>

definition demo_paging :: "int paged_ops" where
  "demo_paging = \<lparr>pa_block_size = (\<lambda>m. Some 16),
     pa_allocate_sequence = (\<lambda>rid n m. if n \<le> 16 * m then (Inr [], m - (n + 15) div 16) else (Inl RuntimeError, m)),
     pa_free_sequence = (\<lambda>rid m. (Inr (), m)), pa_swap_blocks_to_cpu = (\<lambda>rid m. (Inr 0, m)),
     pa_swap_blocks_to_gpu = (\<lambda>rid m. (Inr 0, m)), pa_copy_on_write = (\<lambda>a b m. (Inr (), m)),
     pa_swap_out_sequence = (\<lambda>rid m. (Inr (), m)), pa_restore_first_block = (\<lambda>rid m. (Inr (), m))\<rparr>"

definition demo_waiting :: "(unit, int) bsched" where
  "demo_waiting = \<lparr>bs_cfg = demo_cfg,
     bs_core = \<lparr>sc_store = demo_store, sc_active = [(''a'', 0)], sc_total = 5, sc_heap = [(2, 1, 1), (2, 2, 2)], sc_counter = 3, sc_paged = Some 100\<rparr>,
     bs_pm = preemption_init 4, bs_chunked = [], bs_latency = latency_init 5000, bs_pressure = tracker_init (1 / 5) 50 10,
     bs_index = None, bs_iteration = 0, bs_total_prefill = 0, bs_total_decode = 0\<rparr>"

lemma demo_waiting_ok: "core_ok (bs_core demo_waiting)" "waiting_once (bs_core demo_waiting)"
proof -
  have "pq.is_heap (sc_heap (bs_core demo_waiting))"
    by (auto simp: demo_waiting_def pq.is_heap_def pq.heap_from_def less_Suc_eq parent_def less_eq_prod_def)
  then show "core_ok (bs_core demo_waiting)"
    by (simp add: core_ok_def demo_waiting_def keyed_def dict_wf_def tokens_of_def total_len_def demo_store_def sequence_new_def
        post_init_def clamp_priority_def Let_def)
  show "waiting_once (bs_core demo_waiting)"
    by (simp add: waiting_once_def demo_waiting_def demo_store_def sequence_new_def post_init_def clamp_priority_def Let_def)
qed



section \<open>Changing the priority of a waiting request\<close>

lemma index_upto:
  "(map_of (fold (\<lambda>i. AList.update (f i) i) [0..<n] []) k = Some i \<longrightarrow> i < n \<and> f i = k)
   \<and> (map_of (fold (\<lambda>i. AList.update (f i) i) [0..<n] []) k = None \<longleftrightarrow> (\<forall>i < n. f i \<noteq> k))"
  by (induction n) (auto simp: less_Suc_eq)

lemma build_index_Some: "map_of (build_index sc) rid = Some i \<Longrightarrow> i < length (sc_heap sc) \<and> entry_id sc (sc_heap sc ! i) = rid"
  using index_upto [of "\<lambda>i. entry_id sc (sc_heap sc ! i)" "length (sc_heap sc)" rid i] by (simp add: build_index_def)

lemma build_index_None: "map_of (build_index sc) rid = None \<longleftrightarrow> (\<forall>x \<in> set (sc_heap sc). entry_id sc x \<noteq> rid)"
proof -
  have "map_of (build_index sc) rid = None \<longleftrightarrow> (\<forall>i < length (sc_heap sc). entry_id sc (sc_heap sc ! i) \<noteq> rid)"
    unfolding build_index_def by (rule conjunct2 [OF index_upto])
  also have "\<dots> \<longleftrightarrow> (\<forall>x \<in> set (sc_heap sc). entry_id sc x \<noteq> rid)"
    by (rule all_set_conv_all_nth [symmetric])
  finally show ?thesis .
qed

text \<open>The reference: give the new priority to the entries of the request.\<close>

definition reprioritise :: "'m sched \<Rightarrow> string \<Rightarrow> int \<Rightarrow> entry \<Rightarrow> entry" where
  "reprioritise sc rid p x = (if entry_id sc x = rid then (p, snd (entry_key x), entry_ref x) else x)"

lemma reprioritise_other: "\<forall>x \<in> set xs. entry_id sc x \<noteq> rid \<Longrightarrow> map (reprioritise sc rid p) xs = xs"
  by (simp add: reprioritise_def map_idI)

lemma map_reprioritise:
  assumes "waiting_once sc" and "i < length (sc_heap sc)" and "entry_id sc (sc_heap sc ! i) = rid"
  shows "map (reprioritise sc rid p) (sc_heap sc) = (sc_heap sc)[i := (p, snd (entry_key (sc_heap sc ! i)), entry_ref (sc_heap sc ! i))]"
proof (rule nth_equalityI)
  fix j assume "j < length (map (reprioritise sc rid p) (sc_heap sc))"
  then have j: "j < length (sc_heap sc)" by simp
  have "distinct (map (entry_id sc) (sc_heap sc))" using assms(1) by (simp add: waiting_once_def)
  then have "entry_id sc (sc_heap sc ! j) = rid \<longleftrightarrow> j = i"
    using assms(2,3) j nth_eq_iff_index_eq [of "map (entry_id sc) (sc_heap sc)" j i] by auto
  then show "map (reprioritise sc rid p) (sc_heap sc) ! j = (sc_heap sc)[i := (p, snd (entry_key (sc_heap sc ! i)), entry_ref (sc_heap sc ! i))] ! j"
    using j assms(2) by (auto simp: reprioritise_def nth_list_update)
qed simp

lemma snd_key_reprioritise [simp]: "snd (entry_key (reprioritise sc rid p x)) = snd (entry_key x)"
  by (cases x) (simp add: reprioritise_def)

lemma distinct_counters: "distinct (map (snd \<circ> entry_key) h) \<Longrightarrow> distinct (map entry_key h)"
  by (auto simp: distinct_map intro: inj_on_imageI2)

lemma core_ok_reprioritised:
  assumes "core_ok sc" and "mset h = mset (map (reprioritise sc rid p) (sc_heap sc))" and "pq.is_heap h"
    and "distinct (map (snd \<circ> entry_key) (sc_heap sc))" and "st = (sc_store sc)(r := (sc_store sc r)\<lparr>sq_priority := q\<rparr>)"
  shows "core_ok (sc\<lparr>sc_store := st, sc_heap := h\<rparr>)"
proof -
  have st: "sq_request_id (st i) = sq_request_id (sc_store sc i)" "total_len (st i) = total_len (sc_store sc i)" for i
    using assms(5) by (auto simp: total_len_def)
  have "mset (map (snd \<circ> entry_key) h) = mset (map (snd \<circ> entry_key) (sc_heap sc))"
    using assms(2) by (simp add: mset_map comp_def flip: mset_map) (simp add: multiset.map_comp comp_def)
  then have d: "distinct (map (snd \<circ> entry_key) h)" using assms(4) mset_eq_imp_distinct_iff by blast
  then have "distinct (map entry_key h)" by (rule distinct_counters)
  moreover have "\<forall>e \<in> set h. snd (entry_key e) \<le> sc_counter sc"
    using mset_eq_setD [OF assms(2)] assms(1) by (auto simp: core_ok_def)
  ultimately show ?thesis
    using assms(1,3) st by (simp add: core_ok_def keyed_def tokens_of_def)
qed

text \<open>Re-prioritising a waiting request in place is the same as rebuilding the queue. With a fresh index, distinct
  counters and no request waiting twice, \<^verbatim>\<open>promote_request\<close> never raises, reports whether the request was waiting, and leaves a
  heap that holds exactly the old entries with the new priority at the request's entry; the scheduler stays consistent.\<close>
theorem promote_request_correct:
  assumes "core_ok (bs_core s)" and "waiting_once (bs_core s)" and "bs_index s = None"
    and "distinct (map (snd \<circ> entry_key) (sc_heap (bs_core s)))"
  shows "\<exists>res s'. promote_request rid p s = (Inr res, s') \<and> res = (\<exists>x \<in> set (sc_heap (bs_core s)). entry_id (bs_core s) x = rid)
     \<and> mset (sc_heap (bs_core s')) = mset (map (reprioritise (bs_core s) rid p) (sc_heap (bs_core s)))
     \<and> pq.is_heap (sc_heap (bs_core s')) \<and> core_ok (bs_core s') \<and> sc_active (bs_core s') = sc_active (bs_core s)"
proof (cases "map_of (build_index (bs_core s)) rid")
  case None
  then show ?thesis
    using assms reprioritise_other [of "sc_heap (bs_core s)" "bs_core s" rid p] build_index_None [of "bs_core s" rid]
    by (auto simp: promote_request_def core_ok_def)
next
  case (Some i)
  let ?sc = "bs_core s"
  have i: "i < length (sc_heap ?sc)" "entry_id ?sc (sc_heap ?sc ! i) = rid" using build_index_Some [OF Some] by auto
  obtain pri cnt r where x: "sc_heap ?sc ! i = (pri, cnt, r)" by (cases "sc_heap ?sc ! i") auto
  define st where "st = (sc_store ?sc)(r := (sc_store ?sc r)\<lparr>sq_priority := p\<rparr>)"
  define h where "h = (sc_heap ?sc)[i := (p, cnt, r)]"
  have h: "h = map (reprioritise ?sc rid p) (sc_heap ?sc)" using map_reprioritise [OF assms(2) i] x by (simp add: h_def)
  have "map (snd \<circ> entry_key) h = map (snd \<circ> entry_key) (sc_heap ?sc)" by (simp add: h)
  then have d: "distinct (map entry_key h)" using assms(4) by (intro distinct_counters) simp
  have il: "i < length h" using i by (simp add: h_def)
  let ?sift = "if p < pri then siftdown (entry_lt st) 0 i h else siftup (entry_lt st) i h"
  obtain h' where sift: "?sift = (None, h')"
    using pq.siftdown_total [OF d il, of st 0] pq.siftup_total [OF d il, of st] by (metis prod.collapse)
  have m: "mset h' = mset h" using sift siftdown_mset siftup_mset il by (metis (full_types))
  have "pq.is_heap (sc_heap ?sc)" using assms(1) by (simp add: core_ok_def)
  then have "pq.is_heap h'"
    using sift pq.lower_key_heap [of "sc_heap ?sc" i "(p, cnt, r)" st h'] pq.raise_key_heap [of "sc_heap ?sc" i "(p, cnt, r)" st h'] i(1) x
    by (auto simp: h_def less_eq_prod_def split: if_splits)
  moreover have "promote_request rid p s = (Inr True, s\<lparr>bs_index := None, bs_core := ?sc\<lparr>sc_store := st, sc_heap := h'\<rparr>\<rparr>)"
    using Some i(1) x sift assms(3) unfolding promote_request_def Let_def st_def h_def by auto
  moreover have "core_ok (?sc\<lparr>sc_store := st, sc_heap := h'\<rparr>)"
    using core_ok_reprioritised [OF assms(1) _ calculation(1) assms(4) st_def] m h by simp
  ultimately show ?thesis
    using i m h by (intro exI [of _ True] exI) (auto intro: bexI [of _ "sc_heap ?sc ! i"])
qed


theorem promote_request_correct_witness:
  "\<exists>s'. promote_request ''c'' 0 demo_waiting = (Inr True, s') \<and> sc_heap (bs_core s') = [(0, 2, 2), (2, 1, 1)] \<and> core_ok (bs_core s')"
proof -
  have "bs_index demo_waiting = None" "distinct (map (snd \<circ> entry_key) (sc_heap (bs_core demo_waiting)))" by code_simp+
  from promote_request_correct [OF demo_waiting_ok this, of "''c''" 0]
  obtain res s' where r: "promote_request ''c'' 0 demo_waiting = (Inr res, s')" and ok: "core_ok (bs_core s')" by blast
  have "projr (fst (promote_request ''c'' 0 demo_waiting)) = True" by code_simp
  moreover have "sc_heap (bs_core (snd (promote_request ''c'' 0 demo_waiting))) = [(0, 2, 2), (2, 1, 1)]" by code_simp
  ultimately show ?thesis using r ok by simp
qed


section \<open>Consuming the sampled tokens\<close>

text \<open>What one sampled token does to its sequence.\<close>

definition sampled :: "int \<Rightarrow> seqn \<Rightarrow> seqn" where
  "sampled tok q =
     (let q1 = q\<lparr>sq_generated_tokens := sq_generated_tokens q @ [tok], sq_status := (if sq_status q = PREFILLING then DECODING else sq_status q)\<rparr>
      in if seq_is_complete q1 \<or> tok \<in> set (sq_stop_token_ids q) then q1\<lparr>sq_status := DONE\<rparr> else q1)"

definition hook_safe :: "('k, 'c) prefix_hook option \<Rightarrow> bool" where
  "hook_safe hook \<longleftrightarrow> (\<forall>h ts kv c. hook = Some h \<longrightarrow> fst (ph_store h ts kv c) = None)"

text \<open>Everything of the scheduler that consuming tokens leaves alone, the shared counters included.\<close>

definition step_frame :: "('t, 'm) bsched \<Rightarrow> ('t, 'm) bsched \<Rightarrow> bool" where
  "step_frame s s' \<longleftrightarrow> bs_pm s' = bs_pm s \<and> bs_index s' = bs_index s \<and> bs_iteration s' = bs_iteration s
     \<and> sc_heap (bs_core s') = sc_heap (bs_core s) \<and> sc_counter (bs_core s') = sc_counter (bs_core s) \<and> sc_total (bs_core s') = sc_total (bs_core s)"

lemma sampled_id [simp]: "sq_request_id (sampled tok q) = sq_request_id q"
  by (simp add: sampled_def Let_def)

lemma sampled_complete: "seq_is_complete (sampled tok q) \<longleftrightarrow> sq_status (sampled tok q) = DONE"
  by (auto simp: sampled_def Let_def seq_is_complete_def)

lemma step_one_sampled:
  assumes "\<And>k. con k i tok = None" and "hook_safe hook"
  shows "\<exists>s' cache'. step_one con hook kvs now i tok r (s, cache) = (None, s', cache')
     \<and> sc_store (bs_core s') = (sc_store (bs_core s))(r := sampled tok (sc_store (bs_core s) r))
     \<and> sc_active (bs_core s') = sc_active (bs_core s) \<and> bs_chunked s' = bs_chunked s \<and> step_frame s s'"
proof -
  have "\<exists>c. store_finished hook kvs q cache = (None, c)" for q
    using assms(2) by (auto simp: store_finished_def hook_safe_def Let_def split: option.splits) (metis prod.collapse)
  then obtain f where f: "\<And>q. store_finished hook kvs q cache = (None, f q)" by metis
  show ?thesis
    by (auto simp: step_one_def Let_def assms(1) f sampled_def step_frame_def split: option.splits)
qed

lemma step_frame_trans: "step_frame a b \<Longrightarrow> step_frame b c \<Longrightarrow> step_frame a c"
  by (simp add: step_frame_def)

fun sample_all :: "int list \<Rightarrow> nat list \<Rightarrow> sstore \<Rightarrow> sstore" where
  "sample_all (tok # toks) (r # rs) st = sample_all toks rs (st(r := sampled tok (st r)))"
| "sample_all toks rs st = st"

lemma sample_all_other: "r \<notin> set rs \<Longrightarrow> sample_all toks rs st r = st r"
  by (induction toks rs st rule: sample_all.induct) auto

lemma sample_all_nth:
  "distinct rs \<Longrightarrow> i < length rs \<Longrightarrow> i < length toks \<Longrightarrow> sample_all toks rs st (rs ! i) = sampled (toks ! i) (st (rs ! i))"
proof (induction toks rs st arbitrary: i rule: sample_all.induct)
  case (1 tok toks r rs st)
  then show ?case by (cases i) (auto simp: sample_all_other fun_upd_def)
qed auto

lemma sample_all_id [simp]: "sq_request_id (sample_all toks rs st r) = sq_request_id (st r)"
  by (induction toks rs st rule: sample_all.induct) (auto simp: fun_upd_def)

lemma step_loop_sampled:
  assumes "\<And>k i tok. con k i tok = None" and "hook_safe hook"
  shows "\<exists>s' cache'. step_loop con hook kvs now i toks rs (s, cache) = (if length rs \<le> length toks then None else Some IndexError, s', cache')
     \<and> sc_store (bs_core s') = sample_all toks rs (sc_store (bs_core s))
     \<and> sc_active (bs_core s') = sc_active (bs_core s) \<and> bs_chunked s' = bs_chunked s \<and> step_frame s s'"
proof (induction rs arbitrary: i toks s cache)
  case (Cons r rs)
  show ?case
  proof (cases toks)
    case (Cons tok ts)
    obtain s1 c1 where one: "step_one con hook kvs now i tok r (s, cache) = (None, s1, c1)"
      "sc_store (bs_core s1) = (sc_store (bs_core s))(r := sampled tok (sc_store (bs_core s) r))"
      "sc_active (bs_core s1) = sc_active (bs_core s)" "bs_chunked s1 = bs_chunked s" "step_frame s s1"
      using step_one_sampled [where con = con, OF assms] by blast
    with Cons.IH [of "Suc i" ts s1 c1] show ?thesis by (auto simp: Cons fun_upd_def intro: step_frame_trans)
  qed (simp add: step_frame_def)
qed (simp add: step_frame_def)

lemma delete_as_filter: "AList.delete k d = filter (\<lambda>(x, r). x \<noteq> k) d"
  by (induction d) auto

lemma prune_done_facts:
  "sc_store (bs_core (prune_done ops rids s)) = sc_store (bs_core s) \<and> step_frame s (prune_done ops rids s)
   \<and> sc_active (bs_core (prune_done ops rids s)) = filter (\<lambda>(k, r). k \<notin> set rids) (sc_active (bs_core s))
   \<and> bs_chunked (prune_done ops rids s) = filter (\<lambda>(k, c). k \<notin> set rids) (bs_chunked s)"
  by (induction ops rids s rule: prune_done.induct)
     (auto simp: step_frame_def Let_def delete_as_filter intro!: filter_cong)

lemma record_step_metrics_frame:
  "bs_core (record_step_metrics n e s) = bs_core s" "bs_chunked (record_step_metrics n e s) = bs_chunked s" "step_frame s (record_step_metrics n e s)"
  by (simp_all add: record_step_metrics_def step_frame_def)

text \<open>C29: Consuming one sampled token per sequence. When the constraints accept the tokens and the prefix cache does not
  raise, \<^verbatim>\<open>step\<close> raises \<^verbatim>\<open>IndexError\<close> exactly if there are fewer tokens than sequences. Otherwise each sequence of the batch gets
  its own token, starts decoding after its first one, and is done when it reaches its limit or a stop token; exactly the
  finished sequences leave the active set, and no other sequence and no waiting request changes. The token count is not
  touched either, although sequences grow and leave.\<close>
theorem step_consumes_tokens:
  assumes "\<And>k i tok. con k i tok = None" and "hook_safe hook" and "distinct (sb_sequences sb)"
  shows "\<exists>s' cache'. step con hook kvs ops now elapsed sb toks (s, cache)
           = (if length (sb_sequences sb) \<le> length toks then None else Some IndexError, s', cache')
     \<and> step_frame s s'
     \<and> (length (sb_sequences sb) \<le> length toks \<longrightarrow>
          (\<forall>i < length (sb_sequences sb). sc_store (bs_core s') (sb_sequences sb ! i) = sampled (toks ! i) (sc_store (bs_core s) (sb_sequences sb ! i)))
        \<and> (\<forall>r. r \<notin> set (sb_sequences sb) \<longrightarrow> sc_store (bs_core s') r = sc_store (bs_core s) r)
        \<and> sc_active (bs_core s') = filter (\<lambda>(k, r). \<not> list_ex (\<lambda>q. sq_status (sc_store (bs_core s') q) = DONE
               \<and> sq_request_id (sc_store (bs_core s) q) = k) (sb_sequences sb)) (sc_active (bs_core s)))"
proof -
  let ?rs = "sb_sequences sb"
  define st' where "st' = sample_all toks ?rs (sc_store (bs_core s))"
  obtain s1 c1 where loop: "step_loop con hook kvs now 0 toks ?rs (s, cache) = (if length ?rs \<le> length toks then None else Some IndexError, s1, c1)"
      "sc_store (bs_core s1) = st'" "sc_active (bs_core s1) = sc_active (bs_core s)" "step_frame s s1"
    using step_loop_sampled [where con = con, OF assms(1,2)] unfolding st'_def by blast
  show ?thesis
  proof (cases "length ?rs \<le> length toks")
    case False
    with loop show ?thesis by (simp add: step_def Let_def)
  next
    case True
    have at: "st' (?rs ! i) = sampled (toks ! i) (sc_store (bs_core s) (?rs ! i))" if "i < length ?rs" for i
      using sample_all_nth [OF assms(3) that] that True by (simp add: st'_def)
    then have fin: "seq_is_complete (st' r) \<longleftrightarrow> sq_status (st' r) = DONE" if "r \<in> set ?rs" for r
      using that by (auto simp: in_set_conv_nth sampled_complete)
    define n where "n = int (length (filter (\<lambda>r. sq_status (sc_store (bs_core s) r) = DECODING) ?rs))"
    define s2 where "s2 = record_step_metrics n (if n > 0 then elapsed else 0) s1"
    define rids where "rids = map (sq_request_id \<circ> st') (filter (seq_is_complete \<circ> st') ?rs)"
    define s3 where "s3 = prune_done ops rids s2"
    have run: "step con hook kvs ops now elapsed sb toks (s, cache)
        = (None, s3\<lparr>bs_cfg := (bs_cfg s3)\<lparr>cf_energy := map_option (record_energy_usage (if n > 0 then elapsed / 1000 else 0)) (cf_energy (bs_cfg s3))\<rparr>\<rparr>, c1)"
      using loop True by (simp add: step_def Let_def n_def s2_def rids_def s3_def record_step_metrics_frame)
    have s3: "sc_store (bs_core s3) = st'" "sc_active (bs_core s3) = filter (\<lambda>(k, r). k \<notin> set rids) (sc_active (bs_core s))" "step_frame s s3"
      using prune_done_facts [of ops rids s2] loop(2-4) record_step_metrics_frame [where n = n and e = "if n > 0 then elapsed else 0" and s = s1]
      by (auto simp: s3_def s2_def step_frame_def)
    have "k \<notin> set rids \<longleftrightarrow> \<not> list_ex (\<lambda>q. sq_status (st' q) = DONE \<and> sq_request_id (sc_store (bs_core s) q) = k) ?rs" for k
      using fin by (auto simp: rids_def st'_def list_ex_iff)
    with run s3 at True show ?thesis
      by (auto simp: step_frame_def st'_def sample_all_other intro!: filter_cong)
  qed
qed


definition demo_batch :: scheduled_batch where
  "demo_batch = \<lparr>sb_sequences = [0, 2], sb_input_ids = [8, 18, 19], sb_seq_starts = [0, 1], sb_seq_lengths = [1, 2], sb_position_offsets = [4, 8],
     sb_is_prefill = [False, True], sb_request_ids = [''a'', ''c''], sb_adapter_ids = [None, None]\<rparr>"

text \<open>Request a stops at token 99, request c goes on; the freed tokens of a stay in the count.\<close>

definition demo_stop :: "(unit, unit) bsched" where
  "demo_stop = demo_bs\<lparr>bs_core := (bs_core demo_bs)\<lparr>sc_store := set_status 2 PREFILLING (demo_store(0 := (demo_store 0)\<lparr>sq_stop_token_ids := [99]\<rparr>))\<rparr>\<rparr>"

definition idle_paging :: "unit paged_ops" where
  "idle_paging = \<lparr>pa_block_size = (\<lambda>m. None), pa_allocate_sequence = (\<lambda>rid n m. (Inr [], m)),
       pa_free_sequence = (\<lambda>rid m. (Inr (), m)), pa_swap_blocks_to_cpu = (\<lambda>rid m. (Inr 0, m)), pa_swap_blocks_to_gpu = (\<lambda>rid m. (Inr 0, m)),
       pa_copy_on_write = (\<lambda>a b m. (Inr (), m)), pa_swap_out_sequence = (\<lambda>rid m. (Inr (), m)), pa_restore_first_block = (\<lambda>rid m. (Inr (), m))\<rparr>"

theorem step_consumes_tokens_witness:
  "\<exists>s'. step (\<lambda>k i tok. None) (None :: (unit, unit) prefix_hook option) [] idle_paging 10 5 demo_batch [99, 21] (demo_stop, ()) = (None, s', ())
     \<and> sc_active (bs_core s') = [(''c'', 2)] \<and> sq_generated_tokens (sc_store (bs_core s') 0) = [7, 8, 99] \<and> sc_total (bs_core s') = 15"
proof -
  have d: "hook_safe (None :: (unit, unit) prefix_hook option)" "distinct (sb_sequences demo_batch)"
    "length (sb_sequences demo_batch) = length [99, 21 :: int]" by (simp_all add: hook_safe_def demo_batch_def)
  from step_consumes_tokens [where con = "\<lambda>k i tok. None" and kvs = "[]" and ops = idle_paging and now = 10 and elapsed = 5 and toks = "[99, 21]"
      and s = demo_stop and cache = "()", OF refl d(1,2)] d(3)
  obtain s' where r: "step (\<lambda>k i tok. None) (None :: (unit, unit) prefix_hook option) [] idle_paging 10 5 demo_batch [99, 21] (demo_stop, ()) = (None, s', ())"
      and st: "\<forall>i < length (sb_sequences demo_batch). sc_store (bs_core s') (sb_sequences demo_batch ! i)
          = sampled ([99, 21] ! i) (sc_store (bs_core demo_stop) (sb_sequences demo_batch ! i))"
      and act: "sc_active (bs_core s') = filter (\<lambda>(k, r). \<not> list_ex (\<lambda>q. sq_status (sc_store (bs_core s') q) = DONE
               \<and> sq_request_id (sc_store (bs_core demo_stop) q) = k) (sb_sequences demo_batch)) (sc_active (bs_core demo_stop))"
      and fr: "step_frame demo_stop s'"
    by auto
  have st0: "sc_store (bs_core s') 0 = sampled 99 (sc_store (bs_core demo_stop) 0)" using spec [OF st, of 0] by (simp add: demo_batch_def)
  have st2: "sc_store (bs_core s') 2 = sampled 21 (sc_store (bs_core demo_stop) 2)" using spec [OF st, of 1] by (simp add: demo_batch_def)
  have v: "sq_status (sampled 99 (sc_store (bs_core demo_stop) 0)) = DONE" "sq_status (sampled 21 (sc_store (bs_core demo_stop) 2)) = DECODING"
    "sq_generated_tokens (sampled 99 (sc_store (bs_core demo_stop) 0)) = [7, 8, 99]" "sc_active (bs_core demo_stop) = [(''a'', 0), (''c'', 2)]"
    "sq_request_id (sc_store (bs_core demo_stop) 0) = ''a''" "sq_request_id (sc_store (bs_core demo_stop) 2) = ''c''"
    "sc_total (bs_core demo_stop) = 15" by code_simp+
  have "sc_active (bs_core s') = [(''c'', 2)]" using act st0 st2 v by (simp add: demo_batch_def)
  moreover have "sc_total (bs_core s') = 15" using fr v by (simp add: step_frame_def)
  ultimately show ?thesis using r st0 v by auto
qed


text \<open>The guard on the prefill budget can never fire: a candidate that reaches it fits into the remaining total.\<close>

lemma prefill_budget_not_enforced:
  "candidate_chunk c b tokens remain_t da = Some chunk \<Longrightarrow> tokens \<le> remain_t \<Longrightarrow> \<not> (chunk > remain_p \<and> remain_t - chunk < 0)"
  using candidate_chunk_le [of c b tokens remain_t da chunk] by simp

end
