(* ===== verification/Raft.thy ===== *)
theory Raft
  imports Sequences
begin

text \<open>
  \<^verbatim>\<open>RaftNode\<close> of \<^verbatim>\<open>src/distllm/dist/topology_consensus.py\<close>: the replicated log for topology changes. Log indices are
  1-based integers as in the code; the election deadline is an input (a random delay added to the wall
  clock). The constructor stores \<^verbatim>\<open>dataclasses.field(default_factory=set)\<close> in \<^verbatim>\<open>_votes_received\<close>, a \<^verbatim>\<open>Field\<close> object
  that is no set: the votes are \<open>None\<close> then, and the set operations on it raise. An operation
  that raises returns the state it leaves behind.
\<close>

section \<open>State\<close>

datatype raft_role = FOLLOWER | CANDIDATE | LEADER

record 'p log_entry =
  le_term :: int
  le_index :: int
  le_type :: string
  le_payload :: 'p

record leader_state =
  ls_next_index :: "(string, int) dict"
  ls_match_index :: "(string, int) dict"

record 'p raft =
  rf_node_id :: string
  rf_max_batch_size :: int
  rf_role :: raft_role
  rf_current_term :: int
  rf_voted_for :: "string option"
  rf_log :: "'p log_entry list"
  rf_commit_index :: int
  rf_last_applied :: int
  rf_leader_state :: "leader_state option"
  rf_leader_id :: "string option"
  rf_deadline :: rat
  rf_votes :: "string list option"

definition raft_init :: "string \<Rightarrow> int \<Rightarrow> rat \<Rightarrow> 'p raft" where
  "raft_init nid max_batch deadline =
     \<lparr>rf_node_id = nid, rf_max_batch_size = max_batch, rf_role = FOLLOWER, rf_current_term = 0, rf_voted_for = None,
      rf_log = [], rf_commit_index = 0, rf_last_applied = 0, rf_leader_state = None, rf_leader_id = None,
      rf_deadline = deadline, rf_votes = None\<rparr>"

definition last_log_index :: "'p raft \<Rightarrow> int" where
  "last_log_index n = int (length (rf_log n))"

definition last_log_term :: "'p raft \<Rightarrow> int" where
  "last_log_term n = (if rf_log n = [] then 0 else le_term (last (rf_log n)))"

definition get_entry :: "int \<Rightarrow> 'p raft \<Rightarrow> 'p log_entry option" where
  "get_entry i n = (if 1 \<le> i \<and> i \<le> int (length (rf_log n)) then Some (rf_log n ! nat (i - 1)) else None)"

definition truncate_from :: "int \<Rightarrow> 'p raft \<Rightarrow> 'p raft" where
  "truncate_from i n = (if 1 \<le> i \<and> i \<le> int (length (rf_log n)) then n\<lparr>rf_log := take (nat (i - 1)) (rf_log n)\<rparr> else n)"

definition log_slice :: "int \<Rightarrow> 'p raft \<Rightarrow> 'p log_entry list" where
  "log_slice start n = slice (rf_log n) (start - 1) (int (length (rf_log n)))"

section \<open>Role transitions\<close>

text \<open>\<^verbatim>\<open>_votes_received.clear()\<close> raises on the initial \<^verbatim>\<open>Field\<close> object, before the deadline is reset.\<close>

definition become_follower :: "rat \<Rightarrow> int \<Rightarrow> string option \<Rightarrow> 'p raft \<Rightarrow> py_error option \<times> 'p raft" where
  "become_follower deadline t leader n =
     (let n1 = n\<lparr>rf_role := FOLLOWER, rf_current_term := t, rf_leader_id := leader, rf_leader_state := None\<rparr>
      in case rf_votes n1 of
           None \<Rightarrow> (Some AttributeError, n1)
         | Some v \<Rightarrow> (None, n1\<lparr>rf_votes := Some [], rf_deadline := deadline\<rparr>))"

definition become_candidate :: "rat \<Rightarrow> 'p raft \<Rightarrow> 'p raft" where
  "become_candidate deadline n =
     n\<lparr>rf_role := CANDIDATE, rf_current_term := rf_current_term n + 1, rf_leader_id := None,
       rf_voted_for := Some (rf_node_id n), rf_votes := Some [rf_node_id n], rf_leader_state := None, rf_deadline := deadline\<rparr>"

definition become_leader :: "'p raft \<Rightarrow> 'p raft" where
  "become_leader n =
     n\<lparr>rf_role := LEADER, rf_leader_id := Some (rf_node_id n),
       rf_leader_state := Some \<lparr>ls_next_index = [], ls_match_index = []\<rparr>\<rparr>"

definition dict_setdefault :: "'k \<Rightarrow> 'v \<Rightarrow> ('k, 'v) dict \<Rightarrow> ('k, 'v) dict" where
  "dict_setdefault k v d = (if map_of d k = None then d @ [(k, v)] else d)"

definition track_peer :: "string \<Rightarrow> int \<Rightarrow> string \<Rightarrow> leader_state \<Rightarrow> leader_state" where
  "track_peer self next pid ls =
     (if pid = self then ls
      else ls\<lparr>ls_next_index := dict_setdefault pid next (ls_next_index ls),
              ls_match_index := dict_setdefault pid 0 (ls_match_index ls)\<rparr>)"

definition set_peers :: "string list \<Rightarrow> 'p raft \<Rightarrow> 'p raft" where
  "set_peers peer_ids n =
     n\<lparr>rf_leader_state := map_option (fold (track_peer (rf_node_id n) (last_log_index n + 1)) peer_ids) (rf_leader_state n)\<rparr>"

definition update_peer_tracking :: "string list \<Rightarrow> 'p raft \<Rightarrow> 'p raft" where
  "update_peer_tracking peer_ids n = set_peers peer_ids n"

definition reset_election_timeout :: "rat \<Rightarrow> 'p raft \<Rightarrow> 'p raft" where
  "reset_election_timeout deadline n = n\<lparr>rf_deadline := deadline\<rparr>"

definition election_elapsed :: "rat \<Rightarrow> 'p raft \<Rightarrow> bool" where
  "election_elapsed now n \<longleftrightarrow> now \<ge> rf_deadline n"

definition append_to_log :: "string \<Rightarrow> 'p \<Rightarrow> 'p raft \<Rightarrow> int \<times> 'p raft" where
  "append_to_log ty payload n =
     (let i = last_log_index n + 1
      in (i, n\<lparr>rf_log := rf_log n @ [\<lparr>le_term = rf_current_term n, le_index = i, le_type = ty, le_payload = payload\<rparr>]\<rparr>))"

section \<open>Votes\<close>

definition log_ok :: "int \<Rightarrow> int \<Rightarrow> 'p raft \<Rightarrow> bool" where
  "log_ok cand_index cand_term n \<longleftrightarrow>
     cand_term > last_log_term n \<or> cand_term = last_log_term n \<and> cand_index \<ge> last_log_index n"

text \<open>The reply is the pair of \<^verbatim>\<open>term\<close> and \<^verbatim>\<open>vote_granted\<close>.\<close>

definition decide_vote :: "rat \<Rightarrow> string \<Rightarrow> int \<Rightarrow> int \<Rightarrow> 'p raft \<Rightarrow> (py_error + int \<times> bool) \<times> 'p raft" where
  "decide_vote deadline cand lidx lterm n =
     (if rf_voted_for n \<noteq> None \<and> rf_voted_for n \<noteq> Some cand then (Inr (rf_current_term n, False), n)
      else if \<not> log_ok lidx lterm n then (Inr (rf_current_term n, False), n)
      else (Inr (rf_current_term n, True), n\<lparr>rf_voted_for := Some cand, rf_deadline := deadline\<rparr>))"

definition handle_request_vote ::
    "rat \<Rightarrow> string \<Rightarrow> int \<Rightarrow> int \<Rightarrow> int \<Rightarrow> 'p raft \<Rightarrow> (py_error + int \<times> bool) \<times> 'p raft" where
  "handle_request_vote deadline cand cterm lidx lterm n =
     (if cterm < rf_current_term n then (Inr (rf_current_term n, False), n)
      else if cterm > rf_current_term n
      then (case become_follower deadline cterm None n of
              (Some e, n') \<Rightarrow> (Inl e, n')
            | (None, n') \<Rightarrow> decide_vote deadline cand lidx lterm n')
      else decide_vote deadline cand lidx lterm n)"

definition record_vote :: "string \<Rightarrow> 'p raft \<Rightarrow> py_error option \<times> 'p raft" where
  "record_vote voter n =
     (case rf_votes n of None \<Rightarrow> (Some AttributeError, n) | Some v \<Rightarrow> (None, n\<lparr>rf_votes := Some (List.insert voter v)\<rparr>))"

definition has_majority :: "nat \<Rightarrow> 'p raft \<Rightarrow> py_error + bool" where
  "has_majority cluster_size n =
     (case rf_votes n of None \<Rightarrow> Inl TypeError | Some v \<Rightarrow> Inr (length v > cluster_size div 2))"

section \<open>Log replication\<close>

record append_reply =
  ar_term :: int
  ar_success :: bool
  ar_conflict_index :: "int option"

text \<open>The backward scan of \<^verbatim>\<open>_find_conflict_index\<close> over \<^verbatim>\<open>range(prev_log_index, 0, -1)\<close>.\<close>

fun conflict_scan :: "nat \<Rightarrow> int \<Rightarrow> 'p raft \<Rightarrow> int" where
  "conflict_scan 0 t n = 1"
| "conflict_scan (Suc i) t n =
     (case get_entry (int (Suc i)) n of
        None \<Rightarrow> int (Suc i) + 1
      | Some e \<Rightarrow> if le_term e \<noteq> t then int (Suc i) + 1 else conflict_scan i t n)"

definition find_conflict_index :: "int \<Rightarrow> 'p raft \<Rightarrow> int" where
  "find_conflict_index prev n =
     conflict_scan (nat prev) (case get_entry prev n of None \<Rightarrow> 0 | Some e \<Rightarrow> le_term e) n"

text \<open>Truncate at the first received entry that conflicts with the one at its position.\<close>

fun truncate_conflict :: "int \<Rightarrow> 'p log_entry list \<Rightarrow> 'p raft \<Rightarrow> 'p raft" where
  "truncate_conflict i [] n = n"
| "truncate_conflict i (e # es) n =
     (case get_entry i n of
        Some x \<Rightarrow> if le_term x \<noteq> le_term e then truncate_from i n else truncate_conflict (i + 1) es n
      | None \<Rightarrow> truncate_conflict (i + 1) es n)"

fun append_missing :: "'p log_entry list \<Rightarrow> 'p raft \<Rightarrow> 'p raft" where
  "append_missing [] n = n"
| "append_missing (e # es) n =
     append_missing es (if get_entry (le_index e) n = None then n\<lparr>rf_log := rf_log n @ [e]\<rparr> else n)"

definition handle_append_entries ::
    "rat \<Rightarrow> int \<Rightarrow> string \<Rightarrow> int \<Rightarrow> int \<Rightarrow> 'p log_entry list \<Rightarrow> int \<Rightarrow> 'p raft \<Rightarrow> (py_error + append_reply) \<times> 'p raft" where
  "handle_append_entries deadline lterm leader prev_index prev_term entries leader_commit n =
     (if lterm < rf_current_term n
      then (Inr \<lparr>ar_term = rf_current_term n, ar_success = False, ar_conflict_index = None\<rparr>, n)
      else case become_follower deadline lterm (Some leader) n of
             (Some e, n1) \<Rightarrow> (Inl e, n1)
           | (None, n1) \<Rightarrow>
               if prev_index > 0 \<and> (case get_entry prev_index n1 of None \<Rightarrow> True | Some e \<Rightarrow> le_term e \<noteq> prev_term)
               then (Inr \<lparr>ar_term = rf_current_term n1, ar_success = False,
                          ar_conflict_index = Some (find_conflict_index prev_index n1)\<rparr>, n1)
               else let n2 = append_missing entries (truncate_conflict (prev_index + 1) entries n1);
                        n3 = (if leader_commit > rf_commit_index n2
                              then n2\<lparr>rf_commit_index := min leader_commit (last_log_index n2)\<rparr> else n2)
                    in (Inr \<lparr>ar_term = rf_current_term n3, ar_success = True, ar_conflict_index = None\<rparr>, n3))"

definition advance_commit_index :: "'p raft \<Rightarrow> int \<times> 'p raft" where
  "advance_commit_index n =
     (case rf_leader_state n of
        None \<Rightarrow> (rf_commit_index n, n)
      | Some ls \<Rightarrow>
          let match_indices = sort (rf_commit_index n # map snd (ls_match_index ls));
              candidate = match_indices ! (length match_indices div 2);
              n' = (if candidate > rf_commit_index n
                       \<and> (case get_entry candidate n of None \<Rightarrow> False | Some e \<Rightarrow> le_term e = rf_current_term n)
                    then n\<lparr>rf_commit_index := candidate\<rparr> else n)
          in (rf_commit_index n', n'))"

definition get_committed_entries :: "'p raft \<Rightarrow> 'p log_entry list" where
  "get_committed_entries n =
     (let start = rf_last_applied n + 1; last = rf_commit_index n
      in if start > last then [] else slice (log_slice start n) 0 (last - start + 1))"

definition advance_last_applied :: "int \<Rightarrow> 'p raft \<Rightarrow> 'p raft" where
  "advance_last_applied count n = n\<lparr>rf_last_applied := rf_last_applied n + count\<rparr>"

record 'p append_request =
  aq_term :: int
  aq_leader_id :: string
  aq_prev_log_index :: int
  aq_prev_log_term :: int
  aq_entries :: "'p log_entry list"
  aq_leader_commit :: int
  aq_is_heartbeat :: bool

definition build_append_entries_request :: "string \<Rightarrow> 'p raft \<Rightarrow> 'p append_request option" where
  "build_append_entries_request peer n =
     (case rf_leader_state n of
        None \<Rightarrow> None
      | Some ls \<Rightarrow>
          (case map_of (ls_next_index ls) peer of
             None \<Rightarrow> None
           | Some next \<Rightarrow>
               let prev = next - 1;
                   prev_term = (if prev > 0 then (case get_entry prev n of None \<Rightarrow> 0 | Some e \<Rightarrow> le_term e) else 0);
                   entries = (if next \<le> last_log_index n
                              then slice (log_slice next n) 0 (min (next + rf_max_batch_size n - 1) (last_log_index n) - next + 1)
                              else [])
               in Some \<lparr>aq_term = rf_current_term n, aq_leader_id = rf_node_id n, aq_prev_log_index = prev,
                        aq_prev_log_term = prev_term, aq_entries = entries, aq_leader_commit = rf_commit_index n,
                        aq_is_heartbeat = (entries = [])\<rparr>))"

text \<open>
  A reply to AppendEntries as it arrives: \<^verbatim>\<open>applied_count\<close> may be missing, null, a number, or a list (its length).
\<close>

datatype count_value = CountMissing | CountNull | CountInt int | CountList nat

record append_response =
  ap_success :: bool
  ap_applied_count :: count_value

text \<open>
  On success the code takes \<^verbatim>\<open>len()\<close> of the count, which raises unless it is a list, and then adds it to a number,
  which raises when it is.
\<close>

definition process_append_entries_response :: "string \<Rightarrow> append_response \<Rightarrow> 'p raft \<Rightarrow> (py_error + bool) \<times> 'p raft" where
  "process_append_entries_response peer r n =
     (case rf_leader_state n of
        None \<Rightarrow> (Inr False, n)
      | Some ls \<Rightarrow>
          let next = (case map_of (ls_next_index ls) peer of None \<Rightarrow> 1 | Some i \<Rightarrow> i) in
          if ap_success r
          then (case ap_applied_count r of
                  CountList k \<Rightarrow>
                    (Inl TypeError, n\<lparr>rf_leader_state := Some (ls\<lparr>ls_match_index := AList.update peer (next - 1 + int k) (ls_match_index ls)\<rparr>)\<rparr>)
                | _ \<Rightarrow> (Inl TypeError, n))
          else (Inr False,
                if next > 1 then n\<lparr>rf_leader_state := Some (ls\<lparr>ls_next_index := AList.update peer (next - 1) (ls_next_index ls)\<rparr>)\<rparr> else n))"

end
