(* ===== verification/RaftCluster.thy ===== *)
theory RaftCluster
  imports Raft
begin

text \<open>
  \<^verbatim>\<open>PeerHandle\<close> and \<^verbatim>\<open>RaftCluster\<close> of \<^verbatim>\<open>src/distllm/dist/topology_consensus.py\<close>: elections, proposals, heartbeats and the
  application of committed entries. The handle's two send methods are stubs; the operations take the
  transport as an argument, the stubs are two instances of it, and every exception the loops catch is an
  \<open>Inl\<close> answer. The apply callback is an argument too, acting on a state of its own.
\<close>

section \<open>Peers\<close>

record peer_handle =
  ph_node_id :: string
  ph_address :: string
  ph_connected :: bool

record vote_request =
  vq_candidate_id :: string
  vq_candidate_term :: int
  vq_last_log_index :: int
  vq_last_log_term :: int

type_synonym vote_transport = "string \<Rightarrow> vote_request \<Rightarrow> py_error + int \<times> bool"
type_synonym 'p append_transport = "string \<Rightarrow> 'p append_request \<Rightarrow> py_error + append_response"

definition send_request_vote :: vote_transport where
  "send_request_vote peer q = Inr (0, True)"

definition send_append_entries :: "'p append_transport" where
  "send_append_entries peer q = Inr \<lparr>ap_success = True, ap_applied_count = CountInt (int (length (aq_entries q)))\<rparr>"

definition peer_close :: "peer_handle \<Rightarrow> peer_handle" where
  "peer_close h = h\<lparr>ph_connected := False\<rparr>"

section \<open>Cluster state\<close>

record 'p cluster =
  rc_node_id :: string
  rc_raft :: "'p raft"
  rc_peers :: "(string, peer_handle) dict"
  rc_peer_ids :: "string list"
  rc_running :: bool

text \<open>\<^verbatim>\<open>str.split(":")\<close>: the parts between the colons, one more than there are colons.\<close>

fun split_colon :: "string \<Rightarrow> string list" where
  "split_colon [] = [[]]"
| "split_colon (c # cs) =
     (if c = CHR '':'' then [] # split_colon cs
      else (case split_colon cs of [] \<Rightarrow> [[c]] | p # ps \<Rightarrow> (c # p) # ps))"

definition parse_peer :: "string \<Rightarrow> string \<times> peer_handle" where
  "parse_peer p =
     (let parts = split_colon p; pid = parts ! 0;
          addr = (if length parts \<ge> 3 then parts ! 1 @ '':'' @ parts ! 2 else pid)
      in (pid, \<lparr>ph_node_id = pid, ph_address = addr, ph_connected = True\<rparr>))"

definition cluster_init :: "string \<Rightarrow> string list \<Rightarrow> int \<Rightarrow> rat \<Rightarrow> 'p cluster" where
  "cluster_init nid peers max_batch deadline =
     (let ps = fold (\<lambda>p d. AList.update (fst (parse_peer p)) (snd (parse_peer p)) d) peers []
      in \<lparr>rc_node_id = nid,
          rc_raft = (if peers = [] then raft_init nid max_batch deadline
                     else set_peers (map fst ps) (raft_init nid max_batch deadline)),
          rc_peers = ps, rc_peer_ids = map fst ps, rc_running = False\<rparr>)"

definition cluster_start :: "'p cluster \<Rightarrow> 'p cluster" where
  "cluster_start c = (if rc_running c then c else c\<lparr>rc_running := True\<rparr>)"

definition cluster_stop :: "'p cluster \<Rightarrow> 'p cluster" where
  "cluster_stop c = c\<lparr>rc_running := False, rc_peers := map (\<lambda>(k, h). (k, peer_close h)) (rc_peers c)\<rparr>"

definition get_leader :: "'p cluster \<Rightarrow> string option" where
  "get_leader c = rf_leader_id (rc_raft c)"

definition raft_add_peer :: "string \<Rightarrow> string \<Rightarrow> 'p cluster \<Rightarrow> 'p cluster" where
  "raft_add_peer pid addr c =
     (if map_of (rc_peers c) pid = None \<and> pid \<noteq> rc_node_id c
      then let ps = AList.update pid \<lparr>ph_node_id = pid, ph_address = (if addr = [] then pid else addr), ph_connected = True\<rparr>
                      (rc_peers c)
           in c\<lparr>rc_peers := ps, rc_peer_ids := map fst ps, rc_raft := update_peer_tracking (map fst ps) (rc_raft c)\<rparr>
      else c)"

definition raft_remove_peer :: "string \<Rightarrow> 'p cluster \<Rightarrow> 'p cluster" where
  "raft_remove_peer pid c = c\<lparr>rc_peers := AList.delete pid (rc_peers c), rc_peer_ids := map fst (AList.delete pid (rc_peers c))\<rparr>"

definition reachable_peer :: "'p cluster \<Rightarrow> string \<Rightarrow> bool" where
  "reachable_peer c pid \<longleftrightarrow> (case map_of (rc_peers c) pid of None \<Rightarrow> False | Some h \<Rightarrow> ph_connected h)"

section \<open>Elections\<close>

text \<open>
  What the candidate does with one answer: it feeds the answered term to its own vote handler and then, unless that
  raised, records the vote if it was granted.
\<close>

definition take_vote_response :: "rat \<Rightarrow> string \<Rightarrow> int \<times> bool \<Rightarrow> 'p raft \<Rightarrow> 'p raft" where
  "take_vote_response deadline pid r n =
     (case handle_request_vote deadline pid (fst r) 0 0 n of
        (Inl e, n1) \<Rightarrow> n1
      | (Inr _, n1) \<Rightarrow> if snd r then snd (record_vote pid n1) else n1)"

definition vote_request_of :: "int \<Rightarrow> int \<Rightarrow> 'p raft \<Rightarrow> vote_request" where
  "vote_request_of li lt n =
     \<lparr>vq_candidate_id = rf_node_id n, vq_candidate_term = rf_current_term n, vq_last_log_index = li, vq_last_log_term = lt\<rparr>"

fun request_votes ::
    "vote_transport \<Rightarrow> (string \<Rightarrow> rat) \<Rightarrow> (string \<Rightarrow> bool) \<Rightarrow> int \<Rightarrow> int \<Rightarrow> string list \<Rightarrow> 'p raft \<Rightarrow> 'p raft" where
  "request_votes send dl up li lt [] n = n"
| "request_votes send dl up li lt (pid # pids) n =
     request_votes send dl up li lt pids
       (if up pid
        then (case send pid (vote_request_of li lt n) of Inl e \<Rightarrow> n | Inr r \<Rightarrow> take_vote_response (dl pid) pid r n)
        else n)"

definition finish_election :: "nat \<Rightarrow> string list \<Rightarrow> 'p raft \<Rightarrow> py_error option \<times> 'p raft" where
  "finish_election votes_needed pids n =
     (case has_majority votes_needed n of
        Inl e \<Rightarrow> (Some e, n)
      | Inr b \<Rightarrow> (None, if b then set_peers pids (become_leader n) else n))"

definition handle_election_tick ::
    "vote_transport \<Rightarrow> rat \<Rightarrow> rat \<Rightarrow> (string \<Rightarrow> rat) \<Rightarrow> 'p cluster \<Rightarrow> py_error option \<times> 'p cluster" where
  "handle_election_tick send now deadline dl c =
     (if \<not> election_elapsed now (rc_raft c) then (None, c)
      else let n = become_candidate deadline (rc_raft c);
               n1 = request_votes send dl (reachable_peer c) (last_log_index n) (last_log_term n) (rc_peer_ids c) n;
               (e, n2) = finish_election (length (rc_peer_ids c) + 1) (rc_peer_ids c) n1
           in (e, c\<lparr>rc_raft := n2\<rparr>))"

section \<open>Replication and application\<close>

definition replicate_one :: "'p append_transport \<Rightarrow> (string \<Rightarrow> bool) \<Rightarrow> string \<Rightarrow> 'p raft \<Rightarrow> 'p raft" where
  "replicate_one send up pid n =
     (if up pid
      then (case build_append_entries_request pid n of
              None \<Rightarrow> n
            | Some q \<Rightarrow> (case send pid q of Inl e \<Rightarrow> n | Inr r \<Rightarrow> snd (process_append_entries_response pid r n)))
      else n)"

text \<open>\<^verbatim>\<open>apply_log\<close> swallows the exceptions of the callback and keeps its effects.\<close>

type_synonym ('p, 'a) apply_callback = "'p log_entry \<Rightarrow> 'a \<Rightarrow> py_error option \<times> 'a"

definition apply_log :: "('p, 'a) apply_callback \<Rightarrow> 'p log_entry \<Rightarrow> 'a \<Rightarrow> 'a" where
  "apply_log cb e a = snd (cb e a)"

definition apply_committed_entries :: "('p, 'a) apply_callback \<Rightarrow> 'p raft \<times> 'a \<Rightarrow> 'p raft \<times> 'a" where
  "apply_committed_entries cb s =
     (let es = get_committed_entries (fst s); a = fold (apply_log cb) es (snd s)
      in (if es = [] then fst s else advance_last_applied (int (length es)) (fst s), a))"

definition replicate_to_peers ::
    "'p append_transport \<Rightarrow> ('p, 'a) apply_callback \<Rightarrow> 'p cluster \<times> 'a \<Rightarrow> 'p cluster \<times> 'a" where
  "replicate_to_peers send cb s =
     (let c = fst s;
          n = fold (replicate_one send (reachable_peer c)) (rc_peer_ids c) (rc_raft c);
          (committed, n1) = advance_commit_index n;
          (n2, a) = (if committed > 0 then apply_committed_entries cb (n1, snd s) else (n1, snd s))
      in (c\<lparr>rc_raft := n2\<rparr>, a))"

definition send_heartbeats ::
    "'p append_transport \<Rightarrow> ('p, 'a) apply_callback \<Rightarrow> 'p cluster \<times> 'a \<Rightarrow> 'p cluster \<times> 'a" where
  "send_heartbeats send cb s = replicate_to_peers send cb s"

definition propose ::
    "'p append_transport \<Rightarrow> ('p, 'a) apply_callback \<Rightarrow> string \<Rightarrow> 'p \<Rightarrow> 'p cluster \<times> 'a \<Rightarrow> bool \<times> 'p cluster \<times> 'a" where
  "propose send cb ty payload s =
     (let c = fst s in
      if rf_role (rc_raft c) \<noteq> LEADER then (False, s)
      else (True, replicate_to_peers send cb (c\<lparr>rc_raft := snd (append_to_log ty payload (rc_raft c))\<rparr>, snd s)))"

text \<open>
  One iteration of \<^verbatim>\<open>_run_loop\<close> at time \<open>now\<close>, with the time of the last heartbeat; exceptions are logged and dropped.
\<close>

definition run_loop_iteration ::
    "vote_transport \<Rightarrow> 'p append_transport \<Rightarrow> ('p, 'a) apply_callback \<Rightarrow> rat \<Rightarrow> rat \<Rightarrow> rat \<Rightarrow> (string \<Rightarrow> rat)
     \<Rightarrow> rat \<times> 'p cluster \<times> 'a \<Rightarrow> rat \<times> 'p cluster \<times> 'a" where
  "run_loop_iteration vsend asend cb heartbeat_interval now deadline dl s =
     (case s of (last_heartbeat, c, a) \<Rightarrow>
        if rf_role (rc_raft c) = LEADER
        then (if now - last_heartbeat \<ge> heartbeat_interval then (now, send_heartbeats asend cb (c, a)) else s)
        else (last_heartbeat, snd (handle_election_tick vsend now deadline dl c), a))"

section \<open>Elections over the stub transport\<close>

lemma stub_request_votes:
  "rf_votes n = Some v \<Longrightarrow> 0 < rf_current_term n \<Longrightarrow>
   request_votes send_request_vote dl up li lt pids n = n\<lparr>rf_votes := Some (fold List.insert (filter up pids) v)\<rparr>"
proof (induction pids arbitrary: n v)
  case (Cons pid pids)
  have "take_vote_response (dl pid) pid (0, True) n = n\<lparr>rf_votes := Some (List.insert pid v)\<rparr>"
    using Cons.prems by (simp add: take_vote_response_def handle_request_vote_def record_vote_def)
  with Cons.prems Cons.IH [of "n\<lparr>rf_votes := Some (List.insert pid v)\<rparr>"] Cons.IH [of n] show ?case
    by (simp add: send_request_vote_def)
qed simp

lemma length_fold_insert: "distinct xs \<Longrightarrow> set xs \<inter> set v = {} \<Longrightarrow> length (fold List.insert xs v) = length xs + length v"
  by (induction xs arbitrary: v) (auto simp: List.insert_def)

text \<open>
  The stub grants every vote, so a node whose timer has run out always makes itself leader of the next term: two members
  that time out lead the same term.
\<close>

lemma stub_tick_elects:
  assumes "rf_deadline (rc_raft c) \<le> now" and "0 \<le> rf_current_term (rc_raft c)"
    and "distinct (rc_peer_ids c)" and "rf_node_id (rc_raft c) \<notin> set (rc_peer_ids c)"
    and "\<And>p. p \<in> set (rc_peer_ids c) \<Longrightarrow> reachable_peer c p"
    and "handle_election_tick send_request_vote now d dl c = (e, c')"
  shows "e = None \<and> rf_role (rc_raft c') = LEADER \<and> rf_current_term (rc_raft c') = rf_current_term (rc_raft c) + 1
         \<and> get_leader c' = Some (rf_node_id (rc_raft c))"
proof -
  let ?n = "become_candidate d (rc_raft c)" and ?v = "fold List.insert (rc_peer_ids c) [rf_node_id (rc_raft c)]"
  have "filter (reachable_peer c) (rc_peer_ids c) = rc_peer_ids c" using assms(5) by (simp add: filter_id_conv)
  then have "request_votes send_request_vote dl (reachable_peer c) li lt (rc_peer_ids c) ?n = ?n\<lparr>rf_votes := Some ?v\<rparr>" for li lt
    using stub_request_votes [of ?n "[rf_node_id (rc_raft c)]"] assms(2) by (simp add: become_candidate_def)
  moreover have "length ?v = length (rc_peer_ids c) + 1" using length_fold_insert [OF assms(3)] assms(4) by simp
  ultimately show ?thesis
    using assms(1,6)
    by (auto simp: handle_election_tick_def election_elapsed_def finish_election_def has_majority_def set_peers_def
        become_leader_def get_leader_def become_candidate_def Let_def)
qed

section \<open>A leader does not commit\<close>

datatype 'p leader_op = Propose string 'p | Heartbeat | AddPeer string string | RemovePeer string

fun leader_step ::
    "'p append_transport \<Rightarrow> ('p, 'a) apply_callback \<Rightarrow> 'p leader_op \<Rightarrow> 'p cluster \<times> 'a \<Rightarrow> 'p cluster \<times> 'a" where
  "leader_step send cb (Propose ty p) s = snd (propose send cb ty p s)"
| "leader_step send cb Heartbeat s = send_heartbeats send cb s"
| "leader_step send cb (AddPeer pid addr) s = (raft_add_peer pid addr (fst s), snd s)"
| "leader_step send cb (RemovePeer pid) s = (raft_remove_peer pid (fst s), snd s)"

fun proposals :: "'p leader_op list \<Rightarrow> (string \<times> 'p) list" where
  "proposals [] = []"
| "proposals (Propose ty p # ops) = (ty, p) # proposals ops"
| "proposals (_ # ops) = proposals ops"

text \<open>No answer carries a list as its \<^verbatim>\<open>applied_count\<close>: true of the stub and of the answers of \<^verbatim>\<open>handle_append_entries\<close>.\<close>

definition scalar_counts :: "'p append_transport \<Rightarrow> bool" where
  "scalar_counts send \<longleftrightarrow> (\<forall>p q r k. send p q = Inr r \<longrightarrow> ap_applied_count r \<noteq> CountList k)"

lemma send_append_entries_scalar: "scalar_counts send_append_entries"
  by (simp add: scalar_counts_def send_append_entries_def)

text \<open>The fields that decide whether anything is committed, for a leader that has heard of no replication.\<close>

definition zero_matches :: "leader_state \<Rightarrow> bool" where
  "zero_matches ls \<longleftrightarrow> (\<forall>m \<in> set (ls_match_index ls). snd m = 0)"

definition unreplicated :: "int \<Rightarrow> int \<Rightarrow> 'p log_entry list \<Rightarrow> 'p raft \<Rightarrow> bool" where
  "unreplicated k t es n \<longleftrightarrow>
     rf_role n = LEADER \<and> rf_current_term n = t \<and> rf_commit_index n = k \<and> rf_last_applied n = k \<and> rf_log n = es \<and>
     (\<exists>ls. rf_leader_state n = Some ls \<and> zero_matches ls)"

lemma track_peer_zero: "zero_matches ls \<Longrightarrow> zero_matches (track_peer self next pid ls)"
  by (auto simp: zero_matches_def track_peer_def dict_setdefault_def)

lemma track_peers_zero: "zero_matches ls \<Longrightarrow> zero_matches (fold (track_peer self next) pids ls)"
  by (induction pids arbitrary: ls) (simp_all add: track_peer_zero)

lemma set_peers_unreplicated: "unreplicated k t es n \<Longrightarrow> unreplicated k t es (set_peers pids n)"
  by (auto simp: unreplicated_def set_peers_def track_peers_zero)

lemma elected_unreplicated:
  "rf_commit_index n = k \<Longrightarrow> rf_last_applied n = k \<Longrightarrow>
   unreplicated k (rf_current_term n) (rf_log n) (set_peers pids (become_leader n))"
  by (rule set_peers_unreplicated) (simp add: unreplicated_def become_leader_def zero_matches_def)

lemma replicate_one_unreplicated:
  assumes "scalar_counts send" and "unreplicated k t es n"
  shows "unreplicated k t es (replicate_one send up pid n)"
  using assms
  by (auto simp: replicate_one_def process_append_entries_response_def unreplicated_def scalar_counts_def zero_matches_def Let_def
      split: option.splits sum.splits count_value.splits)

lemma fold_replicate_unreplicated:
  "scalar_counts send \<Longrightarrow> unreplicated k t es n \<Longrightarrow> unreplicated k t es (fold (replicate_one send up) pids n)"
  by (induction pids arbitrary: n) (auto intro: replicate_one_unreplicated)

lemma advance_commit_unreplicated:
  assumes "unreplicated k t es n" and "0 \<le> k"
  shows "advance_commit_index n = (k, n)"
proof -
  obtain ls where ls: "rf_leader_state n = Some ls" and z: "zero_matches ls"
    using assms(1) by (auto simp: unreplicated_def)
  define m where "m = sort (rf_commit_index n # map snd (ls_match_index ls))"
  have sm: "set m = insert (rf_commit_index n) (snd ` set (ls_match_index ls))" by (simp add: m_def set_insort_key)
  have "length m > 0" by (simp add: m_def)
  then have "m ! (length m div 2) \<in> set m" by (intro nth_mem) simp
  then have "m ! (length m div 2) \<le> k"
    unfolding sm using z assms by (auto simp: unreplicated_def zero_matches_def)
  then show ?thesis
    using assms(1) unfolding advance_commit_index_def ls option.case Let_def m_def [symmetric] by (simp add: unreplicated_def)
qed

lemma apply_committed_unreplicated:
  "unreplicated k t es n \<Longrightarrow> apply_committed_entries cb (n, a) = (n, a)"
  by (simp add: apply_committed_entries_def get_committed_entries_def unreplicated_def)

lemma replicate_to_peers_unreplicated:
  assumes "scalar_counts send" and "unreplicated k t es (rc_raft c)" and "0 \<le> k"
  shows "\<exists>n. replicate_to_peers send cb (c, a) = (c\<lparr>rc_raft := n\<rparr>, a) \<and> unreplicated k t es n"
proof -
  let ?n = "fold (replicate_one send (reachable_peer c)) (rc_peer_ids c) (rc_raft c)"
  have u: "unreplicated k t es ?n" using fold_replicate_unreplicated assms(1,2) .
  have "replicate_to_peers send cb (c, a) = (c\<lparr>rc_raft := ?n\<rparr>, a)"
    by (simp add: replicate_to_peers_def Let_def advance_commit_unreplicated [OF u assms(3)] apply_committed_unreplicated [OF u])
  with u show ?thesis by blast
qed

fun entries_from :: "int \<Rightarrow> int \<Rightarrow> (string \<times> 'p) list \<Rightarrow> 'p log_entry list" where
  "entries_from t i [] = []"
| "entries_from t i ((ty, p) # ps) = \<lparr>le_term = t, le_index = i, le_type = ty, le_payload = p\<rparr> # entries_from t (i + 1) ps"

lemma propose_unreplicated:
  assumes "scalar_counts send" and "unreplicated k t es (rc_raft c)" and "0 \<le> k"
  shows "\<exists>n. propose send cb ty p (c, a) = (True, c\<lparr>rc_raft := n\<rparr>, a)
             \<and> unreplicated k t (es @ entries_from t (int (length es) + 1) [(ty, p)]) n"
proof -
  let ?c = "c\<lparr>rc_raft := snd (append_to_log ty p (rc_raft c))\<rparr>"
  have "unreplicated k t (es @ entries_from t (int (length es) + 1) [(ty, p)]) (rc_raft ?c)"
    using assms(2) by (auto simp: unreplicated_def append_to_log_def last_log_index_def Let_def)
  from replicate_to_peers_unreplicated [OF assms(1) this assms(3), of cb a] assms(2)
  show ?thesis by (auto simp: propose_def unreplicated_def)
qed

lemma leader_step_unreplicated:
  assumes "scalar_counts send" and "unreplicated k t es (rc_raft c)" and "0 \<le> k"
  shows "\<exists>c'. leader_step send cb op (c, a) = (c', a)
              \<and> unreplicated k t (es @ entries_from t (int (length es) + 1) (proposals [op])) (rc_raft c')"
proof (cases op)
  case (Propose ty p)
  with propose_unreplicated [OF assms, of cb ty p a] show ?thesis by auto
next
  case Heartbeat
  with replicate_to_peers_unreplicated [OF assms, of cb a] show ?thesis by (auto simp: send_heartbeats_def)
next
  case (AddPeer pid addr)
  with assms(2) show ?thesis
    by (auto simp: raft_add_peer_def update_peer_tracking_def Let_def intro: set_peers_unreplicated)
next
  case (RemovePeer pid)
  with assms(2) show ?thesis by (auto simp: raft_remove_peer_def)
qed

lemma entries_from_Cons: "entries_from t i (proposals (op # ops)) =
    entries_from t i (proposals [op]) @ entries_from t (i + int (length (proposals [op]))) (proposals ops)"
  by (cases op) auto

lemma length_entries_from [simp]: "length (entries_from t i ps) = length ps"
  by (induction t i ps rule: entries_from.induct) auto

lemma leader_run_unreplicated:
  assumes "scalar_counts send" and "0 \<le> k" and "unreplicated k t es (rc_raft c)"
  shows "\<exists>c'. fold (leader_step send cb) ops (c, a) = (c', a)
              \<and> unreplicated k t (es @ entries_from t (int (length es) + 1) (proposals ops)) (rc_raft c')"
  using assms(3)
proof (induction ops arbitrary: c es)
  case Nil
  then show ?case by simp
next
  case (Cons op ops)
  from leader_step_unreplicated [OF assms(1) Cons.prems assms(2), of cb op a] obtain c1
    where c1: "leader_step send cb op (c, a) = (c1, a)"
      and u: "unreplicated k t (es @ entries_from t (int (length es) + 1) (proposals [op])) (rc_raft c1)"
    by blast
  from Cons.IH [OF u] c1 show ?case
    by (subst entries_from_Cons) (auto simp: algebra_simps)
qed

text \<open>C6: Nothing a leader accepts is ever committed or applied. From the moment it is elected, for every sequence of
  proposals, heartbeats and membership changes over a transport whose answers give no list as applied count, every
  proposal is appended to its log and acknowledged with True, yet the commit index, the applied index and
  the state of the apply callback stay what they were, although \<^verbatim>\<open>propose\<close> documents True as committed by a majority.\<close>
theorem proposals_never_commit:
  assumes "scalar_counts send" and "0 \<le> rf_commit_index n" and "rf_last_applied n = rf_commit_index n"
    and "rc_raft c = set_peers pids (become_leader n)"
    and "fold (leader_step send cb) ops (c, a) = (c', a')"
  shows "rf_commit_index (rc_raft c') = rf_commit_index n \<and> rf_last_applied (rc_raft c') = rf_last_applied n \<and> a' = a
         \<and> rf_log (rc_raft c') = rf_log n @ entries_from (rf_current_term n) (last_log_index n + 1) (proposals ops)
         \<and> fst (propose send cb ty p (c', a'))"
proof -
  have "unreplicated (rf_commit_index n) (rf_current_term n) (rf_log n) (rc_raft c)"
    using elected_unreplicated [OF refl assms(3)] assms(4) by simp
  from leader_run_unreplicated [OF assms(1,2) this, of cb ops a] assms(5)
  have "a' = a" and u: "unreplicated (rf_commit_index n) (rf_current_term n)
      (rf_log n @ entries_from (rf_current_term n) (last_log_index n + 1) (proposals ops)) (rc_raft c')"
    by (auto simp: last_log_index_def)
  with propose_unreplicated [OF assms(1) u assms(2), of cb ty p a'] assms(3) show ?thesis
    by (auto simp: unreplicated_def)
qed

definition demo_leader :: "string cluster" where
  "demo_leader = (let n = become_candidate 0 (raft_init ''a'' 64 0)
     in cluster_init ''a'' [''b:h:1'', ''c''] 64 0 \<lparr>rc_raft := set_peers [''b'', ''c''] (become_leader n)\<rparr>)"

theorem proposals_never_commit_witness:
  "rf_commit_index (rc_raft (fst (fold (leader_step send_append_entries (\<lambda>e a. (None, e # a))) [Propose ''node_join'' ''n'', Heartbeat]
     (demo_leader, [])))) = 0
   \<and> snd (fold (leader_step send_append_entries (\<lambda>e a. (None, e # a))) [Propose ''node_join'' ''n'', Heartbeat] (demo_leader, [])) = []"
proof -
  let ?cb = "\<lambda>e a. (None, e # a) :: py_error option \<times> string log_entry list"
  let ?ops = "[Propose ''node_join'' ''n'', Heartbeat]"
  obtain c' a' where r: "fold (leader_step send_append_entries ?cb) ?ops (demo_leader, []) = (c', a')" by fastforce
  have "rc_raft demo_leader = set_peers [''b'', ''c''] (become_leader (become_candidate 0 (raft_init ''a'' 64 0)))"
    by (simp add: demo_leader_def Let_def)
  from proposals_never_commit [OF send_append_entries_scalar _ _ this r, of "''node_join''" "''m''"] show ?thesis
    unfolding r by (simp add: become_candidate_def raft_init_def)
qed

end
