(* ===== verification/RaftLog.thy ===== *)
theory RaftLog
  imports Raft
begin

text \<open>
  Log replication of \<^verbatim>\<open>topology_consensus.py\<close>: what the AppendEntries request a leader builds does to the log of the
  follower that handles it.
\<close>

section \<open>Log matching\<close>

text \<open>Entry \<open>i\<close> of a log carries index \<open>i + 1\<close>; two logs match when equal terms at a position mean equal prefixes.\<close>

definition well_indexed :: "'p log_entry list \<Rightarrow> bool" where
  "well_indexed L \<longleftrightarrow> (\<forall>i < length L. le_index (L ! i) = int i + 1)"

definition matching :: "'p log_entry list \<Rightarrow> 'p log_entry list \<Rightarrow> bool" where
  "matching L F \<longleftrightarrow>
     (\<forall>i < min (length L) (length F). le_term (L ! i) = le_term (F ! i) \<longrightarrow> take (Suc i) L = take (Suc i) F)"

lemma matchingD:
  "matching L F \<Longrightarrow> i < length L \<Longrightarrow> i < length F \<Longrightarrow> le_term (L ! i) = le_term (F ! i) \<Longrightarrow> take (Suc i) L = take (Suc i) F"
  by (simp add: matching_def)

lemma matching_nth:
  assumes "matching L F" and "i < length L" and "i < length F" and "le_term (L ! i) = le_term (F ! i)"
  shows "L ! i = F ! i"
  using arg_cong [OF matchingD [OF assms], of "\<lambda>xs. xs ! i"] assms(2,3) by simp

lemma matching_take: "matching L F \<Longrightarrow> matching L (take m F)"
  by (auto simp: matching_def min_def)

lemma matching_prefix: "matching L (take m L)"
  by (auto simp: matching_def min_def)

lemma well_indexed_append:
  "well_indexed (rf_log n) \<Longrightarrow> well_indexed (rf_log (snd (append_to_log ty p n)))"
  by (auto simp: well_indexed_def append_to_log_def last_log_index_def nth_append less_Suc_eq Let_def)

section \<open>The two loops over the received entries\<close>

lemma get_entry_Suc: "get_entry (int i + 1) n = (if i < length (rf_log n) then Some (rf_log n ! i) else None)"
  by (simp add: get_entry_def)

lemma truncate_from_log: "i < length (rf_log n) \<Longrightarrow> rf_log (truncate_from (int i + 1) n) = take i (rf_log n)"
  by (simp add: truncate_from_def)

text \<open>
  The truncation cuts at the first received entry whose term conflicts; up to there the received entries
  are in the log already.
\<close>

lemma truncate_conflict_log:
  assumes "matching L (rf_log n)" and "es = take k (drop p L)"
  shows "\<exists>m \<le> length (rf_log n). rf_log (truncate_conflict (int p + 1) es n) = take m (rf_log n)
           \<and> (\<forall>i. p \<le> i \<longrightarrow> i < m \<longrightarrow> i < p + length es \<longrightarrow> rf_log n ! i = L ! i)
           \<and> (m = length (rf_log n) \<or> p \<le> m \<and> m < p + length es \<and> rf_log n ! m \<noteq> L ! m)"
  using assms(2)
proof (induction es arbitrary: p k)
  case Nil
  show ?case by (intro exI [of _ "length (rf_log n)"]) simp
next
  case (Cons e es)
  let ?F = "rf_log n"
  have pL: "p < length L" using Cons.prems by (cases "p < length L") simp_all
  from Cons.prems have "e # es = take k (L ! p # drop (Suc p) L)"
    by (simp only: Cons_nth_drop_Suc [OF pL])
  then have e: "e = L ! p" and es: "es = take (k - 1) (drop (Suc p) L)"
    by (cases k; simp)+
  have Suc: "int p + 1 + 1 = int (Suc p) + 1" by simp
  show ?case
  proof (cases "p < length ?F \<and> le_term (?F ! p) \<noteq> le_term e")
    case True
    then show ?thesis
      using e by (intro exI [of _ p]) (auto simp: get_entry_Suc truncate_from_log)
  next
    case False
    then have same: "p < length ?F \<longrightarrow> ?F ! p = L ! p"
      using matching_nth [OF assms(1) pL] e by auto
    from Cons.IH [OF es] obtain m where m: "m \<le> length ?F"
        "rf_log (truncate_conflict (int (Suc p) + 1) es n) = take m ?F"
        "\<forall>i. Suc p \<le> i \<longrightarrow> i < m \<longrightarrow> i < Suc p + length es \<longrightarrow> ?F ! i = L ! i"
        "m = length ?F \<or> Suc p \<le> m \<and> m < Suc p + length es \<and> ?F ! m \<noteq> L ! m" by blast
    have "truncate_conflict (int p + 1) (e # es) n = truncate_conflict (int (Suc p) + 1) es n"
      using False Suc by (auto simp: get_entry_Suc)
    moreover have "?F ! i = L ! i" if "p \<le> i" "i < m" "i < p + length (e # es)" for i
      using that same m(1,3) by (cases "i = p") auto
    ultimately show ?thesis
      using m by (intro exI [of _ m]) auto
  qed
qed

lemma append_missing_fields [frame_simps]:
  "rf_commit_index (append_missing es n) = rf_commit_index n" "rf_current_term (append_missing es n) = rf_current_term n"
  by (induction es arbitrary: n) auto

lemma truncate_conflict_fields [frame_simps]:
  "rf_commit_index (truncate_conflict i es n) = rf_commit_index n"
  "rf_current_term (truncate_conflict i es n) = rf_current_term n"
  by (induction i es n rule: truncate_conflict.induct) (auto simp: truncate_from_def split: option.splits)

lemma append_missing_log:
  assumes "\<And>i. i < length es \<Longrightarrow> le_index (es ! i) = int (p + i) + 1" and "p \<le> length (rf_log n)"
  shows "rf_log (append_missing es n) = rf_log n @ drop (length (rf_log n) - p) es"
  using assms
proof (induction es arbitrary: p n)
  case Nil
  then show ?case by simp
next
  case (Cons e es)
  have e: "le_index e = int p + 1" using Cons.prems(1) [of 0] by simp
  have idx: "\<And>i. i < length es \<Longrightarrow> le_index (es ! i) = int (Suc p + i) + 1"
    using Cons.prems(1) [of "Suc i" for i] by simp
  show ?case
  proof (cases "p < length (rf_log n)")
    case True
    with Cons.IH [OF idx, of n] show ?thesis
      by (simp add: e get_entry_Suc Suc_diff_Suc [symmetric])
  next
    case False
    with Cons.prems(2) have "p = length (rf_log n)" by simp
    with Cons.IH [OF idx, of "n\<lparr>rf_log := rf_log n @ [e]\<rparr>"] show ?thesis
      by (simp add: e get_entry_Suc)
  qed
qed

section \<open>From a leader's request to the follower's log\<close>

definition next_index_ok :: "string \<Rightarrow> 'p raft \<Rightarrow> bool" where
  "next_index_ok peer ld \<longleftrightarrow>
     (case rf_leader_state ld of
        None \<Rightarrow> True
      | Some ls \<Rightarrow> (case map_of (ls_next_index ls) peer of None \<Rightarrow> True | Some i \<Rightarrow> 1 \<le> i \<and> i \<le> last_log_index ld + 1))"

text \<open>The operations of a leader keep the next index of a peer within the log.\<close>

lemma track_peers_next_index:
  assumes "map_of (ls_next_index (fold (track_peer self (m + 1)) pids ls)) peer = Some i" and "0 \<le> m"
    and "\<And>j. map_of (ls_next_index ls) peer = Some j \<Longrightarrow> 1 \<le> j \<and> j \<le> m + 1"
  shows "1 \<le> i \<and> i \<le> m + 1"
  using assms
proof (induction pids arbitrary: ls)
  case (Cons p ps)
  show ?case
    by (rule Cons.IH [of "track_peer self (m + 1) p ls"])
       (use Cons.prems in \<open>auto simp: track_peer_def dict_setdefault_def map_add_def split: if_splits option.splits\<close>)
qed auto

lemma next_index_ok_elected: "next_index_ok peer (set_peers pids (become_leader n))"
  using track_peers_next_index [of "rf_node_id n" "last_log_index n" pids "\<lparr>ls_next_index = [], ls_match_index = []\<rparr>" peer]
  by (auto simp: next_index_ok_def set_peers_def become_leader_def last_log_index_def split: option.splits)

lemma next_index_ok_append: "next_index_ok peer n \<Longrightarrow> next_index_ok peer (snd (append_to_log ty p n))"
  by (auto simp: next_index_ok_def append_to_log_def last_log_index_def Let_def split: option.splits)

lemma next_index_ok_response: "next_index_ok peer n \<Longrightarrow> next_index_ok peer (snd (process_append_entries_response p r n))"
  by (auto simp: next_index_ok_def process_append_entries_response_def last_log_index_def Let_def
      split: option.splits count_value.splits if_splits)

lemma slice_to: "0 \<le> j \<Longrightarrow> slice xs 0 j = take (nat j) xs"
  by (simp add: slice_def clip_index_def min_def)

lemma log_slice_Suc: "p \<le> length (rf_log n) \<Longrightarrow> log_slice (int p + 1) n = drop p (rf_log n)"
  by (simp add: log_slice_def slice_nonneg)

lemma build_request_fields:
  assumes "build_append_entries_request peer ld = Some q" and "next_index_ok peer ld" and "0 \<le> rf_max_batch_size ld"
  obtains p k where "p \<le> length (rf_log ld)" "aq_prev_log_index q = int p"
    "aq_prev_log_term q = (if p = 0 then 0 else le_term (rf_log ld ! (p - 1)))" "aq_entries q = take k (drop p (rf_log ld))"
proof -
  from assms(1) obtain ls nx where ls: "rf_leader_state ld = Some ls" and nx: "map_of (ls_next_index ls) peer = Some nx"
    by (auto simp: build_append_entries_request_def split: option.splits)
  define p where "p = nat (nx - 1)"
  from assms(2) ls nx have p: "nx = int p + 1" "p \<le> length (rf_log ld)"
    by (auto simp: next_index_ok_def p_def last_log_index_def)
  define j where "j = min (nx + rf_max_batch_size ld - 1) (last_log_index ld) - nx + 1"
  have "0 \<le> j" using p assms(3) by (simp add: j_def last_log_index_def min_def)
  then have "aq_entries q = take (nat j) (drop p (rf_log ld))"
    using assms(1) p by (auto simp: build_append_entries_request_def ls nx Let_def slice_to log_slice_Suc last_log_index_def j_def)
  moreover have "aq_prev_log_index q = int p"
    using assms(1) p by (auto simp: build_append_entries_request_def ls nx Let_def)
  moreover have "aq_prev_log_term q = (if p = 0 then 0 else le_term (rf_log ld ! (p - 1)))"
    using assms(1) p by (auto simp: build_append_entries_request_def ls nx Let_def get_entry_def nat_diff_distrib)
  ultimately show ?thesis using p(2) that by blast
qed

lemma become_follower_log: "become_follower d t l n = (None, n1) \<Longrightarrow> rf_log n1 = rf_log n \<and> rf_current_term n1 = t"
  by (auto simp: become_follower_def Let_def split: option.splits)

lemma handle_append_entries_success:
  assumes "handle_append_entries d t l prev pt es lc n = (Inr r, n')" and "ar_success r"
  obtains n1 where "rf_log n1 = rf_log n"
    "prev > 0 \<Longrightarrow> (\<exists>e. get_entry prev n1 = Some e \<and> le_term e = pt)"
    "rf_log n' = rf_log (append_missing es (truncate_conflict (prev + 1) es n1))"
proof -
  from assms obtain n1 where n1: "become_follower d t (Some l) n = (None, n1)"
    by (auto simp: handle_append_entries_def split: if_splits prod.splits option.splits)
  show ?thesis
  proof (rule that [of n1])
    show "rf_log n1 = rf_log n" using become_follower_log [OF n1] by simp
    show "prev > 0 \<Longrightarrow> \<exists>e. get_entry prev n1 = Some e \<and> le_term e = pt"
      using assms n1 by (auto simp: handle_append_entries_def split: if_splits option.splits)
    show "rf_log n' = rf_log (append_missing es (truncate_conflict (prev + 1) es n1))"
      using assms n1 by (auto simp: handle_append_entries_def Let_def split: if_splits option.splits)
  qed
qed

lemma installed_log:
  assumes "matching L (rf_log n)" and "well_indexed L" and p: "p \<le> length L" "take p (rf_log n) = take p L"
    and es: "es = take k (drop p L)"
  defines "F' \<equiv> rf_log (append_missing es (truncate_conflict (int p + 1) es n))"
  shows "take (p + length es) F' = take (p + length es) L" (is ?agree)
    and "F' = rf_log n \<or> F' = take (p + length es) L" (is ?cases)
    and "take q (rf_log n) = take q L \<Longrightarrow> take q F' = take q L"
proof -
  let ?F = "rf_log n" and ?T = "truncate_conflict (int p + 1) es n"
  have pF: "p \<le> length ?F" using arg_cong [OF p(2), of length] p(1) by simp
  obtain m where m: "m \<le> length ?F" "rf_log ?T = take m ?F"
    and eq: "\<And>i. p \<le> i \<Longrightarrow> i < m \<Longrightarrow> i < p + length es \<Longrightarrow> ?F ! i = L ! i"
    and stop: "m = length ?F \<or> p \<le> m \<and> m < p + length es \<and> ?F ! m \<noteq> L ! m"
    using truncate_conflict_log [OF assms(1) es] by blast
  have pm: "p \<le> m" using stop pF by auto
  have le: "p + length es \<le> length L" using es p(1) by simp
  have idx: "le_index (es ! i) = int (p + i) + 1" if "i < length es" for i
    using that assms(2) es by (auto simp: well_indexed_def)
  have F': "F' = take m ?F @ drop (m - p) es"
    using append_missing_log [of es p ?T, OF idx] m pm by (simp add: F'_def)
  have low: "?F ! i = L ! i" if "i < m" "i < p + length es" for i
    using that eq [of i] arg_cong [OF p(2), of "\<lambda>xs. xs ! i"] pF p(1) by (cases "i < p") auto
  have agree_low: "take (min m (p + length es)) ?F = take (min m (p + length es)) L"
    using low m(1) le by (intro nth_equalityI) auto
  have rest: "drop (m - p) es = drop m (take (p + length es) L)"
  proof -
    have "take (length es) (drop p L) = es" unfolding es by (simp add: min_def)
    then have "drop (m - p) es = drop (m - p) (take (length es) (drop p L))" by simp
    also have "\<dots> = drop m (take (p + length es) L)" using pm by (simp add: take_drop add.commute)
    finally show ?thesis .
  qed
  show agree: ?agree
  proof (cases "m \<le> p + length es")
    case True
    with agree_low F' rest show ?thesis by (simp add: min_absorb1) (metis append_take_drop_id min.absorb1 take_take)
  next
    case False
    with agree_low F' show ?thesis by (simp add: min_absorb2)
  qed
  show ?cases
  proof (cases "p + length es \<le> m \<and> m = length ?F")
    case True
    with F' have "F' = ?F" by auto
    then show ?thesis by simp
  next
    case False
    with stop m(1) have "m \<le> p + length es" by auto
    with F' m(1) pm have "length F' = p + length es" by simp
    with agree show ?thesis by simp
  qed
  show "take q F' = take q L" if q: "take q ?F = take q L"
  proof (cases "F' = ?F")
    case True
    with q show ?thesis by simp
  next
    case False
    with \<open>?cases\<close> have F'_eq: "F' = take (p + length es) L" by simp
    have "q \<le> p + length es"
    proof (rule ccontr)
      assume "\<not> q \<le> p + length es"
      then have long: "p + length es < q" by simp
      have "p + length es \<le> length ?F" using arg_cong [OF q, of length] long le by simp
      with False F' have "m \<noteq> length ?F" by auto
      with stop arg_cong [OF q, of "\<lambda>xs. xs ! m"] long show False by simp
    qed
    then show ?thesis by (simp add: F'_eq)
  qed
qed


lemma accepted_prefix:
  assumes "matching L F" and "p \<le> length L"
    and "p > 0 \<Longrightarrow> p \<le> length F \<and> le_term (F ! (p - 1)) = le_term (L ! (p - 1))"
  shows "take p F = take p L"
proof (cases p)
  case (Suc i)
  with assms(2,3) have "i < length L" "i < length F" "le_term (L ! i) = le_term (F ! i)" by auto
  from matchingD [OF assms(1) this] Suc show ?thesis by simp
qed simp

text \<open>C5: A successful AppendEntries copies the leader's log. Where a follower whose log matches the leader's handles a
  request that the leader built for it and answers success, its log then agrees with the leader's up to the last entry
  sent, is either unchanged or exactly that prefix, still matches the leader's log, and every
  prefix on which the two logs agreed before still agrees.\<close>
theorem append_entries_copies_leader:
  assumes "build_append_entries_request peer ld = Some q" and "next_index_ok peer ld" and "0 \<le> rf_max_batch_size ld"
    and "well_indexed (rf_log ld)" and "matching (rf_log ld) (rf_log n)"
    and "handle_append_entries d (aq_term q) (aq_leader_id q) (aq_prev_log_index q) (aq_prev_log_term q) (aq_entries q)
           (aq_leader_commit q) n = (Inr r, n')"
    and "ar_success r" and "last_sent = nat (aq_prev_log_index q) + length (aq_entries q)"
  shows "take last_sent (rf_log n') = take last_sent (rf_log ld)
       \<and> (rf_log n' = rf_log n \<or> rf_log n' = take last_sent (rf_log ld))
       \<and> matching (rf_log ld) (rf_log n')
       \<and> (\<forall>i. take i (rf_log n) = take i (rf_log ld) \<longrightarrow> take i (rf_log n') = take i (rf_log ld))"
proof -
  obtain p k where p: "p \<le> length (rf_log ld)" "aq_prev_log_index q = int p"
      "aq_prev_log_term q = (if p = 0 then 0 else le_term (rf_log ld ! (p - 1)))"
      and es: "aq_entries q = take k (drop p (rf_log ld))"
    using build_request_fields [OF assms(1-3)] .
  obtain n1 where n1: "rf_log n1 = rf_log n"
      and prev: "aq_prev_log_index q > 0 \<Longrightarrow> \<exists>e. get_entry (aq_prev_log_index q) n1 = Some e \<and> le_term e = aq_prev_log_term q"
      and log: "rf_log n' = rf_log (append_missing (aq_entries q) (truncate_conflict (aq_prev_log_index q + 1) (aq_entries q) n1))"
    using handle_append_entries_success [OF assms(6,7)] by metis
  have m: "matching (rf_log ld) (rf_log n1)" using assms(5) n1 by simp
  have "take p (rf_log n1) = take p (rf_log ld)"
  proof (rule accepted_prefix [OF m p(1)])
    assume "p > 0"
    with prev p show "p \<le> length (rf_log n1) \<and> le_term (rf_log n1 ! (p - 1)) = le_term (rf_log ld ! (p - 1))"
      by (auto simp: get_entry_def nat_diff_distrib split: if_splits)
  qed
  note inst = installed_log [OF m assms(4) p(1) this es]
  have l: "rf_log n' = rf_log (append_missing (aq_entries q) (truncate_conflict (int p + 1) (aq_entries q) n1))"
    using log p(2) by simp
  show ?thesis
    using inst(1,2) inst(3) assms(5,8) p(2) matching_prefix unfolding n1 l by auto
qed

definition demo_log :: "int list \<Rightarrow> int log_entry list" where
  "demo_log ts = map (\<lambda>i. \<lparr>le_term = ts ! i, le_index = int i + 1, le_type = ''node_join'', le_payload = 10 * ts ! i + int i\<rparr>) [0..<length ts]"

definition demo_node :: "string \<Rightarrow> int \<Rightarrow> int list \<Rightarrow> int raft" where
  "demo_node nid t ts = (raft_init nid 1 0)\<lparr>rf_log := demo_log ts, rf_current_term := t, rf_votes := Some []\<rparr>"

definition demo_ld :: "int raft" where
  "demo_ld = (set_peers [''b''] (become_leader (demo_node ''a'' 2 [1])))\<lparr>rf_log := demo_log [1, 2, 2]\<rparr>"

theorem append_entries_copies_leader_witness:
  "\<exists>q r n'. build_append_entries_request ''b'' demo_ld = Some q
     \<and> handle_append_entries 0 (aq_term q) (aq_leader_id q) (aq_prev_log_index q) (aq_prev_log_term q) (aq_entries q)
         (aq_leader_commit q) (demo_node ''b'' 1 [1, 1, 1]) = (Inr r, n')
     \<and> rf_log n' = demo_log [1, 2]"
proof -
  let ?n = "demo_node ''b'' 1 [1, 1, 1]" and ?q = "the (build_append_entries_request ''b'' demo_ld)"
  let ?h = "handle_append_entries 0 (aq_term ?q) (aq_leader_id ?q) (aq_prev_log_index ?q) (aq_prev_log_term ?q) (aq_entries ?q)
         (aq_leader_commit ?q) ?n"
  have "build_append_entries_request ''b'' demo_ld \<noteq> None" by code_simp
  then have q: "build_append_entries_request ''b'' demo_ld = Some ?q" by simp
  have "\<not> isl (fst ?h)" by code_simp
  then have h: "?h = (Inr (projr (fst ?h)), snd ?h)" by (cases ?h; cases "fst ?h") auto
  have "ar_success (projr (fst ?h))" by code_simp
  moreover have "next_index_ok ''b'' demo_ld" by code_simp
  moreover have "0 \<le> rf_max_batch_size demo_ld" by code_simp
  moreover have "well_indexed (rf_log demo_ld)" by code_simp
  moreover have "matching (rf_log demo_ld) (rf_log ?n)" by code_simp
  moreover have sent: "nat (aq_prev_log_index ?q) + length (aq_entries ?q) = 2" by code_simp
  ultimately have "rf_log (snd ?h) = rf_log ?n \<or> rf_log (snd ?h) = take 2 (rf_log demo_ld)"
    and agree: "take 2 (rf_log (snd ?h)) = take 2 (rf_log demo_ld)"
    using append_entries_copies_leader [OF q _ _ _ _ h] by auto
  moreover have "take 2 (rf_log ?n) \<noteq> take 2 (rf_log demo_ld)" by code_simp
  moreover have "take 2 (rf_log demo_ld) = demo_log [1, 2]" by code_simp
  ultimately have "rf_log (snd ?h) = demo_log [1, 2]" by auto
  with q h show ?thesis by blast
qed

text \<open>
  The commit index of a follower is cut to the length of its log, not to the last entry sent: a stale suffix behind the
  entries sent is committed when the leader's commit index covers it.
\<close>

lemma stale_suffix_committed:
  "let ld = (set_peers [''b''] (become_leader (demo_node ''a'' 2 [])))\<lparr>rf_log := demo_log [1, 2], rf_commit_index := 2\<rparr>;
       n = demo_node ''b'' 1 [1, 1];
       q = the (build_append_entries_request ''b'' ld);
       n' = snd (handle_append_entries 0 (aq_term q) (aq_leader_id q) (aq_prev_log_index q) (aq_prev_log_term q) (aq_entries q)
                   (aq_leader_commit q) n)
   in matching (rf_log ld) (rf_log n) \<and> rf_commit_index n' = 2 \<and> get_entry 2 n' \<noteq> get_entry 2 ld \<and> get_entry 2 n' \<noteq> None"
  by code_simp

end
