(* ===== verification/RaftElection.thy ===== *)
theory RaftElection
  imports RaftCluster
begin

text \<open>
  Elections of a whole cluster: every member runs \<^verbatim>\<open>_handle_election_tick\<close> of \<^verbatim>\<open>topology_consensus.py\<close> step by step, its
  vote requests are handled by the members they are addressed to, and everything else the nodes do may happen in
  between: requests that arrive late, twice or never, lost answers, AppendEntries from anyone. The
  members and their terms start as the constructor leaves them; a node that restarts is not part of the system, because
  the code keeps its term and vote in memory only.
\<close>

section \<open>The cluster as a transition system\<close>

text \<open>Where the election tick of a node stands: in the loop over the peers, waiting for an answer, or holding one.\<close>

datatype tick_pc =
    Idle
  | Asking "string list" int int
  | Waiting string vote_request "string list" int int
  | Answered string "int \<times> bool" "string list" int int

text \<open>The last four fields record history: requests sent, votes granted, terms stood for, and elections won.\<close>

record 'p net =
  nt_node :: "string \<Rightarrow> 'p raft"
  nt_pc :: "string \<Rightarrow> tick_pc"
  nt_sent :: "(string \<times> vote_request) set"
  nt_grants :: "(string \<times> string \<times> int) set"
  nt_cands :: "(string \<times> int) set"
  nt_wins :: "(int \<times> string \<times> string set) set"

datatype 'p action =
    Start string rat rat
  | Skip string
  | Send string
  | Deliver string rat
  | Late string vote_request rat
  | Answer string rat
  | Finish string
  | Append string rat int string int int "'p log_entry list" int
  | Local string string 'p

text \<open>A vote request is handled by its receiver; a granted vote is recorded.\<close>

definition deliver_vote :: "string \<Rightarrow> vote_request \<Rightarrow> rat \<Rightarrow> 'p net \<Rightarrow> (py_error + int \<times> bool) \<times> 'p net" where
  "deliver_vote j q d s =
     (let (r, n) = handle_request_vote d (vq_candidate_id q) (vq_candidate_term q) (vq_last_log_index q) (vq_last_log_term q)
                     (nt_node s j)
      in (r, s\<lparr>nt_node := (nt_node s)(j := n),
               nt_grants := (case r of Inr (_, True) \<Rightarrow> insert (j, vq_candidate_id q, vq_candidate_term q) (nt_grants s)
                                     | _ \<Rightarrow> nt_grants s)\<rparr>))"

definition votes_of :: "'p raft \<Rightarrow> string set" where
  "votes_of n = (case rf_votes n of None \<Rightarrow> {} | Some v \<Rightarrow> set v)"

fun exec :: "(string \<Rightarrow> string list) \<Rightarrow> string list \<Rightarrow> 'p action \<Rightarrow> 'p net \<Rightarrow> 'p net option" where
  "exec peers ms (Start i now d) s =
     (if i \<in> set ms \<and> nt_pc s i = Idle \<and> rf_role (nt_node s i) \<noteq> LEADER \<and> election_elapsed now (nt_node s i)
      then let n = become_candidate d (nt_node s i)
           in Some (s\<lparr>nt_node := (nt_node s)(i := n),
                      nt_pc := (nt_pc s)(i := Asking (peers i) (last_log_index n) (last_log_term n)),
                      nt_cands := insert (i, rf_current_term n) (nt_cands s)\<rparr>)
      else None)"
| "exec peers ms (Skip i) s =
     (case nt_pc s i of
        Asking (j # ps) li lt \<Rightarrow> Some (s\<lparr>nt_pc := (nt_pc s)(i := Asking ps li lt)\<rparr>)
      | Waiting j q ps li lt \<Rightarrow> Some (s\<lparr>nt_pc := (nt_pc s)(i := Asking ps li lt)\<rparr>)
      | Answered j r ps li lt \<Rightarrow> Some (s\<lparr>nt_pc := (nt_pc s)(i := Asking ps li lt)\<rparr>)
      | _ \<Rightarrow> None)"
| "exec peers ms (Send i) s =
     (case nt_pc s i of
        Asking (j # ps) li lt \<Rightarrow>
          let q = vote_request_of li lt (nt_node s i)
          in Some (s\<lparr>nt_pc := (nt_pc s)(i := Waiting j q ps li lt), nt_sent := insert (j, q) (nt_sent s)\<rparr>)
      | _ \<Rightarrow> None)"
| "exec peers ms (Deliver i d) s =
     (case nt_pc s i of
        Waiting j q ps li lt \<Rightarrow>
          (case deliver_vote j q d s of
             (Inl e, s') \<Rightarrow> Some (s'\<lparr>nt_pc := (nt_pc s)(i := Asking ps li lt)\<rparr>)
           | (Inr r, s') \<Rightarrow> Some (s'\<lparr>nt_pc := (nt_pc s)(i := Answered j r ps li lt)\<rparr>))
      | _ \<Rightarrow> None)"
| "exec peers ms (Late j q d) s = (if (j, q) \<in> nt_sent s then Some (snd (deliver_vote j q d s)) else None)"
| "exec peers ms (Answer i d) s =
     (case nt_pc s i of
        Answered j r ps li lt \<Rightarrow>
          Some (s\<lparr>nt_node := (nt_node s)(i := take_vote_response d j r (nt_node s i)), nt_pc := (nt_pc s)(i := Asking ps li lt)\<rparr>)
      | _ \<Rightarrow> None)"
| "exec peers ms (Finish i) s =
     (case nt_pc s i of
        Asking [] li lt \<Rightarrow>
          let n = nt_node s i
          in Some (s\<lparr>nt_node := (nt_node s)(i := snd (finish_election (length (peers i) + 1) (peers i) n)),
                     nt_pc := (nt_pc s)(i := Idle),
                     nt_wins := (if has_majority (length (peers i) + 1) n = Inr True
                                 then insert (rf_current_term n, i, votes_of n) (nt_wins s) else nt_wins s)\<rparr>)
      | _ \<Rightarrow> None)"
| "exec peers ms (Append i d t l pv pt es lc) s =
     (if i \<in> set ms
      then Some (s\<lparr>nt_node := (nt_node s)(i := snd (handle_append_entries d t l pv pt es lc (nt_node s i)))\<rparr>) else None)"
| "exec peers ms (Local i ty p) s =
     (if i \<in> set ms \<and> rf_role (nt_node s i) = LEADER
      then Some (s\<lparr>nt_node := (nt_node s)(i := snd (append_to_log ty p (nt_node s i)))\<rparr>) else None)"

definition net_init :: "int \<Rightarrow> (string \<Rightarrow> rat) \<Rightarrow> 'p net" where
  "net_init max_batch dl =
     \<lparr>nt_node = (\<lambda>i. raft_init i max_batch (dl i)), nt_pc = (\<lambda>i. Idle), nt_sent = {}, nt_grants = {}, nt_cands = {}, nt_wins = {}\<rparr>"

inductive reach :: "(string \<Rightarrow> string list) \<Rightarrow> string list \<Rightarrow> 'p net \<Rightarrow> bool" for peers ms where
  reach_init: "reach peers ms (net_init max_batch dl)"
| reach_step: "reach peers ms s \<Longrightarrow> exec peers ms a s = Some s' \<Longrightarrow> reach peers ms s'"

text \<open>Every member knows the other members, each once.\<close>

definition peer_config :: "(string \<Rightarrow> string list) \<Rightarrow> string list \<Rightarrow> bool" where
  "peer_config peers ms \<longleftrightarrow> distinct ms \<and> (\<forall>i \<in> set ms. distinct (peers i) \<and> set (peers i) = set ms - {i})"

lemma peer_config_length: "peer_config peers ms \<Longrightarrow> i \<in> set ms \<Longrightarrow> length (peers i) + 1 = length ms"
  using card_Suc_Diff1 [of "set ms" i] by (auto simp: peer_config_def distinct_card [symmetric])

section \<open>What the handlers do to the election state of a node\<close>

text \<open>
  A handler either leaves term, votes and role alone, or makes the node a follower of a term that is not
  smaller, with no votes collected.
\<close>

definition subdued :: "'p raft \<Rightarrow> 'p raft \<Rightarrow> bool" where
  "subdued n n' \<longleftrightarrow>
     rf_node_id n' = rf_node_id n \<and> (rf_votes n' = None \<longleftrightarrow> rf_votes n = None) \<and>
     (rf_current_term n' = rf_current_term n \<and> rf_votes n' = rf_votes n \<and> rf_role n' = rf_role n
      \<or> rf_current_term n \<le> rf_current_term n' \<and> votes_of n' = {} \<and> rf_role n' = FOLLOWER)"

lemma subdued_refl [simp]: "subdued n n"
  by (simp add: subdued_def)

lemma subdued_trans: "subdued n n1 \<Longrightarrow> subdued n1 n2 \<Longrightarrow> subdued n n2"
  by (auto simp: subdued_def votes_of_def)

lemma subdued_term: "subdued n n' \<Longrightarrow> rf_current_term n \<le> rf_current_term n'"
  by (auto simp: subdued_def)

lemma become_follower_subdued:
  "become_follower d t l n = (e, n') \<Longrightarrow> rf_current_term n \<le> t \<Longrightarrow>
   subdued n n' \<and> rf_voted_for n' = rf_voted_for n \<and> rf_current_term n' = t"
  by (auto simp: become_follower_def subdued_def votes_of_def Let_def split: option.splits)

lemma decide_vote_cases:
  "decide_vote d c li lt n = (r, n') \<Longrightarrow>
   subdued n n' \<and> rf_current_term n' = rf_current_term n \<and>
   (rf_voted_for n' = rf_voted_for n \<and> r = Inr (rf_current_term n, False)
    \<or> rf_voted_for n \<in> {None, Some c} \<and> rf_voted_for n' = Some c \<and> r = Inr (rf_current_term n, True))"
  by (auto simp: decide_vote_def subdued_def split: if_splits)

lemma handle_request_vote_cases:
  assumes "handle_request_vote d c t li lt n = (r, n')"
  shows "subdued n n' \<and> (rf_voted_for n' = rf_voted_for n \<and> (\<forall>u. r \<noteq> Inr (u, True))
           \<or> rf_voted_for n \<in> {None, Some c} \<and> rf_voted_for n' = Some c \<and> r = Inr (t, True) \<and> t = rf_current_term n')"
proof (cases "t > rf_current_term n")
  case True
  obtain e n1 where n1: "become_follower d t None n = (e, n1)" by fastforce
  from become_follower_subdued [OF n1] True assms decide_vote_cases [of d c li lt n1 r n'] show ?thesis
    by (auto simp: handle_request_vote_def n1 intro: subdued_trans split: option.splits)
next
  case False
  with assms decide_vote_cases [of d c li lt n r n'] show ?thesis
    by (auto simp: handle_request_vote_def split: if_splits)
qed

lemma own_vote_handler:
  assumes "handle_request_vote d j t 0 0 n = (r, n')" and "rf_voted_for n = Some i" and "j \<noteq> i"
  shows "subdued n n'" and "rf_voted_for n' = Some i" and "t \<le> rf_current_term n \<Longrightarrow> n' = n"
  using handle_request_vote_cases [OF assms(1)] assms by (auto simp: handle_request_vote_def decide_vote_def split: if_splits)

lemma log_update_subdued: "subdued n (n\<lparr>rf_log := l\<rparr>)" "subdued n (n\<lparr>rf_commit_index := k\<rparr>)"
  by (simp_all add: subdued_def)

lemma truncate_append_subdued:
  "subdued n (append_missing es n) \<and> rf_voted_for (append_missing es n) = rf_voted_for n"
  "subdued n (truncate_conflict k es n) \<and> rf_voted_for (truncate_conflict k es n) = rf_voted_for n"
proof (induction es arbitrary: n k)
  case (Cons e es)
  {
    case 1
    show ?case using Cons.IH(1) [of "n\<lparr>rf_log := rf_log n @ [e]\<rparr>"] Cons.IH(1) [of n] log_update_subdued
      by (auto intro: subdued_trans)
  next
    case 2
    show ?case using Cons.IH(2) [of n "k + 1"] log_update_subdued by (auto simp: truncate_from_def split: option.splits)
  }
qed simp_all

lemma handle_append_entries_subdued:
  "subdued n (snd (handle_append_entries d t l pv pt es lc n))
   \<and> rf_voted_for (snd (handle_append_entries d t l pv pt es lc n)) = rf_voted_for n"
proof (cases "t < rf_current_term n")
  case True
  then show ?thesis by (simp add: handle_append_entries_def)
next
  case False
  obtain e n1 where n1: "become_follower d t (Some l) n = (e, n1)" by fastforce
  let ?n2 = "append_missing es (truncate_conflict (pv + 1) es n1)"
  have p1: "subdued n n1" "rf_voted_for n1 = rf_voted_for n"
    using become_follower_subdued [OF n1] False by auto
  have p2: "subdued n ?n2" "rf_voted_for ?n2 = rf_voted_for n"
    using p1 truncate_append_subdued subdued_trans by (blast, metis)
  have "subdued n (?n2\<lparr>rf_commit_index := k\<rparr>)" for k
    using p2(1) log_update_subdued(2) subdued_trans by blast
  with False p1 p2 show ?thesis
    by (auto simp: handle_append_entries_def n1 Let_def split: option.splits)
qed

section \<open>The invariant\<close>

text \<open>
  A set of votes backs a candidate in a term: every other voter has granted it a vote in that term or before, and when the
  candidate counts its own vote, it stands in that very term and so were all votes given.
\<close>

definition backed :: "string set \<Rightarrow> (string \<times> string \<times> int) set \<Rightarrow> (string \<times> int) set \<Rightarrow> string \<Rightarrow> int \<Rightarrow> string set \<Rightarrow> bool" where
  "backed M G C i T V \<longleftrightarrow> V \<subseteq> M \<and> (\<forall>j \<in> V - {i}. \<exists>t \<le> T. (j, i, t) \<in> G)
     \<and> (i \<in> V \<longrightarrow> (i, T) \<in> C \<and> (\<forall>j \<in> V - {i}. (j, i, T) \<in> G))"

lemma backed_mono: "backed M G C i T V \<Longrightarrow> G \<subseteq> G' \<Longrightarrow> C \<subseteq> C' \<Longrightarrow> backed M G' C' i T V"
  unfolding backed_def by blast

lemma backed_empty [simp]: "backed M G C i T {}"
  by (simp add: backed_def)

text \<open>
  A node votes for one other node at most, ever; once it has stood itself it votes for no other, and the votes it gave
  are older than the terms it stood for.
\<close>

definition voter_inv :: "(string \<times> string \<times> int) set \<Rightarrow> (string \<times> int) set \<Rightarrow> string \<Rightarrow> int \<Rightarrow> string option \<Rightarrow> bool" where
  "voter_inv G C i T v \<longleftrightarrow>
     (\<forall>c t. (i, c, t) \<in> G \<longrightarrow> c \<noteq> i \<and> t \<le> T \<and> (v = Some c \<or> v = Some i))
     \<and> (\<exists>c. \<forall>c' t. (i, c', t) \<in> G \<longrightarrow> c' = c)
     \<and> (\<forall>u. (i, u) \<in> C \<longrightarrow> u \<le> T \<and> v = Some i \<and> (\<forall>c t. (i, c, t) \<in> G \<longrightarrow> t < u))"

definition node_inv :: "string set \<Rightarrow> (string \<times> string \<times> int) set \<Rightarrow> (string \<times> int) set \<Rightarrow> string \<Rightarrow> 'p raft \<Rightarrow> bool" where
  "node_inv M G C i n \<longleftrightarrow>
     rf_node_id n = i \<and> voter_inv G C i (rf_current_term n) (rf_voted_for n)
     \<and> (rf_votes n \<noteq> None \<longrightarrow> (\<exists>u. (i, u) \<in> C))
     \<and> (case rf_votes n of None \<Rightarrow> True | Some v \<Rightarrow> distinct v)
     \<and> backed M G C i (rf_current_term n) (votes_of n)"

text \<open>What the tick in progress knows: a request or a granted vote of the current term while the own vote still counts.\<close>

definition timely :: "string \<Rightarrow> int \<Rightarrow> 'p raft \<Rightarrow> bool" where
  "timely i t n \<longleftrightarrow> t \<le> rf_current_term n \<and> (i \<in> votes_of n \<longrightarrow> t = rf_current_term n)"

fun pc_inv :: "string set \<Rightarrow> (string \<times> string \<times> int) set \<Rightarrow> string \<Rightarrow> 'p raft \<Rightarrow> tick_pc \<Rightarrow> bool" where
  "pc_inv M G i n Idle \<longleftrightarrow> True"
| "pc_inv M G i n (Asking ps li lt) \<longleftrightarrow> rf_votes n \<noteq> None \<and> rf_role n \<noteq> LEADER \<and> set ps \<subseteq> M - {i}"
| "pc_inv M G i n (Waiting j q ps li lt) \<longleftrightarrow>
     rf_votes n \<noteq> None \<and> rf_role n \<noteq> LEADER \<and> set ps \<subseteq> M - {i} \<and> j \<in> M - {i} \<and> vq_candidate_id q = i
     \<and> timely i (vq_candidate_term q) n"
| "pc_inv M G i n (Answered j (t, b) ps li lt) \<longleftrightarrow>
     rf_votes n \<noteq> None \<and> rf_role n \<noteq> LEADER \<and> set ps \<subseteq> M - {i} \<and> j \<in> M - {i}
     \<and> (b \<longrightarrow> timely i t n \<and> (j, i, t) \<in> G)"

definition win_inv :: "string list \<Rightarrow> (string \<times> string \<times> int) set \<Rightarrow> (string \<times> int) set \<Rightarrow> int \<Rightarrow> string \<Rightarrow> string set \<Rightarrow> bool" where
  "win_inv ms G C T i V \<longleftrightarrow> i \<in> set ms \<and> backed (set ms) G C i T V \<and> length ms div 2 < card V \<and> (\<exists>T' \<le> T. (i, T') \<in> C)"

definition net_inv :: "string list \<Rightarrow> 'p net \<Rightarrow> bool" where
  "net_inv ms s \<longleftrightarrow>
     (\<forall>i \<in> set ms. node_inv (set ms) (nt_grants s) (nt_cands s) i (nt_node s i)
                 \<and> pc_inv (set ms) (nt_grants s) i (nt_node s i) (nt_pc s i)
                 \<and> (rf_role (nt_node s i) = LEADER \<longrightarrow> (\<exists>V. (rf_current_term (nt_node s i), i, V) \<in> nt_wins s)))
     \<and> (\<forall>i. i \<notin> set ms \<longrightarrow> nt_pc s i = Idle)
     \<and> (\<forall>(j, q) \<in> nt_sent s. j \<in> set ms \<and> vq_candidate_id q \<in> set ms - {j})
     \<and> (\<forall>(T, i, V) \<in> nt_wins s. win_inv ms (nt_grants s) (nt_cands s) T i V)"

subsection \<open>Two winners of one term\<close>

lemma disjoint_halves:
  assumes "finite M" "V \<subseteq> M - {a, b}" "W \<subseteq> M - {a, b}" "V \<inter> W = {}" "a \<in> M" "b \<in> M" "a \<noteq> b"
    and "card M div 2 \<le> card V" "card M div 2 \<le> card W"
  shows False
proof -
  have "card V + card W = card (V \<union> W)"
    using assms by (intro card_Un_disjoint [symmetric]) (auto intro: finite_subset)
  also have "\<dots> \<le> card (M - {a, b})" using assms by (intro card_mono) auto
  also have "\<dots> = card M - 2" using assms(1,5-7) by (simp add: card_Diff_subset)
  finally have "2 * (card M div 2) \<le> card M - 2" using assms(8,9) by linarith
  moreover have "2 \<le> card M" using assms(1,5-7) card_mono [of M "{a, b}"] by simp
  ultimately show False by linarith
qed

lemma other_votes_half:
  assumes "finite V" "N < card V" "a \<in> V \<Longrightarrow> b \<notin> V"
  shows "N \<le> card (V - {a, b})"
proof -
  have "V - {a, b} = V - {a} \<or> V - {a, b} = V - {b}" using assms(3) by blast
  moreover have "card V - 1 \<le> card (V - {x})" for x by (simp add: card_Diff_singleton_if)
  ultimately show ?thesis using assms(2) by (metis Suc_leI Suc_le_D diff_Suc_1 le_trans not_less_eq_eq)
qed

lemma net_inv_node: "net_inv ms s \<Longrightarrow> i \<in> set ms \<Longrightarrow> node_inv (set ms) (nt_grants s) (nt_cands s) i (nt_node s i)"
  by (simp add: net_inv_def)

lemma net_inv_win: "net_inv ms s \<Longrightarrow> (T, i, V) \<in> nt_wins s \<Longrightarrow> win_inv ms (nt_grants s) (nt_cands s) T i V"
  by (auto simp: net_inv_def)

lemma node_inv_one: "node_inv M G C i n \<Longrightarrow> (i, c, t) \<in> G \<Longrightarrow> (i, c', t') \<in> G \<Longrightarrow> c = c'"
  unfolding node_inv_def voter_inv_def by metis

lemma node_inv_older: "node_inv M G C i n \<Longrightarrow> (i, c, t) \<in> G \<Longrightarrow> (i, T) \<in> C \<Longrightarrow> t < T"
  unfolding node_inv_def voter_inv_def by metis

lemma winner_without_rival:
  assumes "net_inv ms s" and "(T, a, V) \<in> nt_wins s" and "(T, b, W) \<in> nt_wins s" and "a \<noteq> b" and "a \<in> V"
  shows "b \<notin> V"
proof
  assume "b \<in> V"
  then have G: "(b, a, T) \<in> nt_grants s"
    using net_inv_win [OF assms(1,2)] assms(4,5) by (auto simp: win_inv_def backed_def)
  obtain T' where "T' \<le> T" "(b, T') \<in> nt_cands s" "b \<in> set ms"
    using net_inv_win [OF assms(1,3)] by (auto simp: win_inv_def)
  with node_inv_older [OF net_inv_node [OF assms(1)] G] show False by force
qed

lemma winners_disjoint:
  assumes "net_inv ms s" and "(T, a, V) \<in> nt_wins s" and "(T, b, W) \<in> nt_wins s" and "a \<noteq> b"
  shows "(V - {a, b}) \<inter> (W - {a, b}) = {}"
proof (rule ccontr)
  assume "(V - {a, b}) \<inter> (W - {a, b}) \<noteq> {}"
  then obtain j where j: "j \<in> V - {a}" "j \<in> W - {b}" by auto
  from net_inv_win [OF assms(1,2)] j(1) obtain t where t: "(j, a, t) \<in> nt_grants s" and m: "j \<in> set ms"
    by (auto simp: win_inv_def backed_def)
  from net_inv_win [OF assms(1,3)] j(2) obtain t' where "(j, b, t') \<in> nt_grants s"
    by (auto simp: win_inv_def backed_def)
  with node_inv_one [OF net_inv_node [OF assms(1) m] t] assms(4) show False by blast
qed

lemma winners_unique:
  assumes "distinct ms" and "net_inv ms s" and "(T, a, V) \<in> nt_wins s" and "(T, b, W) \<in> nt_wins s"
  shows "a = b"
proof (rule ccontr)
  let ?M = "set ms"
  assume ab: "a \<noteq> b"
  have V: "V \<subseteq> ?M" "a \<in> ?M" "card ?M div 2 < card V"
    using net_inv_win [OF assms(2,3)] assms(1) by (simp_all add: win_inv_def backed_def distinct_card)
  have W: "W \<subseteq> ?M" "b \<in> ?M" "card ?M div 2 < card W"
    using net_inv_win [OF assms(2,4)] assms(1) by (simp_all add: win_inv_def backed_def distinct_card)
  have hV: "card ?M div 2 \<le> card (V - {a, b})"
    using other_votes_half [OF finite_subset [OF V(1)] V(3)] winner_without_rival [OF assms(2-4) ab] by simp
  have hW: "card ?M div 2 \<le> card (W - {a, b})"
    using other_votes_half [OF finite_subset [OF W(1)] W(3), of b a] winner_without_rival [OF assms(2,4,3)] ab
    by (simp add: insert_commute)
  show False
    by (rule disjoint_halves [OF _ _ _ winners_disjoint [OF assms(2-4) ab] V(2) W(2) ab hV hW]) (use V(1) W(1) in auto)
qed

subsection \<open>Preservation\<close>

lemma voter_inv_term: "voter_inv G C i T v \<Longrightarrow> T \<le> T' \<Longrightarrow> voter_inv G C i T' v"
  by (fastforce simp: voter_inv_def)

lemma voter_inv_other:
  assumes "i \<noteq> k"
  shows "voter_inv (insert (i, c, t) G) C k T v = voter_inv G C k T v" and "voter_inv G (insert (i, u) C) k T v = voter_inv G C k T v"
  using assms by (simp_all add: voter_inv_def)

lemma voter_inv_grant:
  assumes "voter_inv G C i T v" and "v = None \<or> v = Some c" and "c \<noteq> i" and "T \<le> t"
  shows "voter_inv (insert (i, c, t) G) C i t (Some c)"
proof -
  have C: "(i, u) \<notin> C" for u using assms(1-3) by (auto simp: voter_inv_def)
  have G: "c' = c \<and> t' \<le> t" if "(i, c', t') \<in> G" for c' t'
    using that assms unfolding voter_inv_def by (metis option.distinct(1) option.inject order_trans)
  show ?thesis using C G assms(3) by (auto simp: voter_inv_def)
qed

lemma voter_inv_candidate: "voter_inv G C i T v \<Longrightarrow> voter_inv G (insert (i, T + 1) C) i (T + 1) (Some i)"
proof -
  assume v: "voter_inv G C i T v"
  then have "c \<noteq> i \<and> t < T + 1" if "(i, c, t) \<in> G" for c t using that by (fastforce simp: voter_inv_def)
  with v show ?thesis by (fastforce simp: voter_inv_def)
qed

lemma node_inv_mono:
  assumes "node_inv M G C k n" and "i \<noteq> k"
  shows "node_inv M (insert (i, c, t) G) C k n" and "node_inv M G (insert (i, u) C) k n"
proof -
  show "node_inv M (insert (i, c, t) G) C k n"
    using assms backed_mono [of M G C k _ _ "insert (i, c, t) G" C] by (auto simp: node_inv_def voter_inv_other)
  show "node_inv M G (insert (i, u) C) k n"
    using assms backed_mono [of M G C k _ _ G "insert (i, u) C"] by (auto simp: node_inv_def voter_inv_other)
qed

lemma node_inv_subdued:
  assumes "node_inv M G C i n" and "subdued n n'" and "rf_voted_for n' = rf_voted_for n"
  shows "node_inv M G C i n'"
proof -
  have "backed M G C i (rf_current_term n') (votes_of n')" "case rf_votes n' of None \<Rightarrow> True | Some v \<Rightarrow> distinct v"
    using assms(1,2) by (auto simp: subdued_def node_inv_def votes_of_def split: option.splits)
  moreover have "voter_inv G C i (rf_current_term n') (rf_voted_for n')"
    using assms(1,3) voter_inv_term [OF _ subdued_term [OF assms(2)]] by (simp add: node_inv_def)
  ultimately show ?thesis
    using assms(1,2) by (auto simp: node_inv_def subdued_def)
qed

lemma timely_subdued: "timely i t n \<Longrightarrow> subdued n n' \<Longrightarrow> timely i t n'"
  by (auto simp: timely_def subdued_def votes_of_def)

lemma pc_inv_subdued: "pc_inv M G i n pc \<Longrightarrow> subdued n n' \<Longrightarrow> pc_inv M G i n' pc"
  by (cases "(M, G, i, n, pc)" rule: pc_inv.cases) (auto simp: subdued_def timely_def votes_of_def)

lemma pc_inv_mono: "pc_inv M G i n pc \<Longrightarrow> pc_inv M (insert g G) i n pc"
  by (cases "(M, G, i, n, pc)" rule: pc_inv.cases) auto

lemma node_inv_grant:
  assumes "node_inv M G C i n" and "subdued n n'" and "rf_voted_for n \<in> {None, Some c}" and "rf_voted_for n' = Some c"
    and "c \<noteq> i" and "t = rf_current_term n'"
  shows "node_inv M (insert (i, c, t) G) C i n'"
proof -
  have v: "voter_inv (insert (i, c, t) G) C i t (Some c)"
    using assms(1,3,5,6) subdued_term [OF assms(2)] by (auto simp: node_inv_def intro: voter_inv_grant)
  have "(i, u) \<notin> C" for u using assms(1,3,5) by (auto simp: node_inv_def voter_inv_def)
  then have "rf_votes n' = None" using assms(1,2) by (auto simp: node_inv_def subdued_def)
  with v assms(1,2,4,6) show ?thesis by (simp add: node_inv_def subdued_def votes_of_def)
qed

lemma node_inv_candidate:
  assumes "node_inv M G C i n" and "i \<in> M"
  shows "node_inv M G (insert (i, rf_current_term n + 1) C) i (become_candidate d n)"
  using assms voter_inv_candidate by (auto simp: node_inv_def become_candidate_def votes_of_def backed_def)

lemma node_inv_vote:
  assumes "node_inv M G C i n" and "rf_votes n = Some v" and "timely i t n" and "(j, i, t) \<in> G" and "j \<in> M - {i}"
  shows "node_inv M G C i (n\<lparr>rf_votes := Some (List.insert j v)\<rparr>)"
  using assms by (auto simp: node_inv_def votes_of_def backed_def timely_def)

lemma net_inv_update:
  assumes "net_inv ms s" and "i \<in> set ms" and "node_inv (set ms) (nt_grants s) (nt_cands s) i n"
    and "pc_inv (set ms) (nt_grants s) i n pc"
    and "rf_role n = LEADER \<Longrightarrow> \<exists>V. (rf_current_term n, i, V) \<in> nt_wins s"
  shows "net_inv ms (s\<lparr>nt_node := (nt_node s)(i := n), nt_pc := (nt_pc s)(i := pc)\<rparr>)"
  using assms unfolding net_inv_def by auto

lemma net_inv_leader: "net_inv ms s \<Longrightarrow> i \<in> set ms \<Longrightarrow> rf_role (nt_node s i) = LEADER \<Longrightarrow>
    \<exists>V. (rf_current_term (nt_node s i), i, V) \<in> nt_wins s"
  by (simp add: net_inv_def)

lemma net_inv_pc: "net_inv ms s \<Longrightarrow> nt_pc s i \<noteq> Idle \<Longrightarrow> i \<in> set ms \<and> pc_inv (set ms) (nt_grants s) i (nt_node s i) (nt_pc s i)"
  by (auto simp: net_inv_def)

lemma net_inv_subdued:
  assumes "net_inv ms s" and "i \<in> set ms" and "subdued (nt_node s i) n" and "rf_voted_for n = rf_voted_for (nt_node s i)"
  shows "net_inv ms (s\<lparr>nt_node := (nt_node s)(i := n)\<rparr>)"
proof -
  have "net_inv ms (s\<lparr>nt_node := (nt_node s)(i := n), nt_pc := (nt_pc s)(i := nt_pc s i)\<rparr>)"
  proof (rule net_inv_update [OF assms(1,2)])
    show "node_inv (set ms) (nt_grants s) (nt_cands s) i n"
      using node_inv_subdued [OF net_inv_node [OF assms(1,2)] assms(3,4)] .
    show "pc_inv (set ms) (nt_grants s) i n (nt_pc s i)"
      using assms(1,2) by (intro pc_inv_subdued [OF _ assms(3)]) (simp add: net_inv_def)
    show "\<exists>V. (rf_current_term n, i, V) \<in> nt_wins s" if "rf_role n = LEADER"
      using that assms(3) net_inv_leader [OF assms(1,2)] by (auto simp: subdued_def)
  qed
  then show ?thesis by simp
qed

lemma net_inv_grant:
  assumes "net_inv ms s" and "j \<in> set ms" and "subdued (nt_node s j) n"
    and "node_inv (set ms) (insert (j, c, t) (nt_grants s)) (nt_cands s) j n"
  shows "net_inv ms (s\<lparr>nt_node := (nt_node s)(j := n), nt_grants := insert (j, c, t) (nt_grants s)\<rparr>)"
proof -
  let ?G = "insert (j, c, t) (nt_grants s)"
  have w: "win_inv ms ?G (nt_cands s) T i V" if "win_inv ms (nt_grants s) (nt_cands s) T i V" for T i V
    using that backed_mono [of "set ms" "nt_grants s" "nt_cands s" i T V ?G "nt_cands s"] by (auto simp: win_inv_def)
  have o: "node_inv (set ms) ?G (nt_cands s) k (nt_node s k)" if "k \<in> set ms" "k \<noteq> j" for k
    using node_inv_mono(1) [OF net_inv_node [OF assms(1) that(1)]] that(2) by metis
  have p: "pc_inv (set ms) ?G k (if k = j then n else nt_node s k) (nt_pc s k)" if "k \<in> set ms" for k
  proof (rule pc_inv_mono)
    have "pc_inv (set ms) (nt_grants s) k (nt_node s k) (nt_pc s k)" using that assms(1) by (simp add: net_inv_def)
    then show "pc_inv (set ms) (nt_grants s) k (if k = j then n else nt_node s k) (nt_pc s k)"
      using pc_inv_subdued [OF _ assms(3)] by auto
  qed
  have l: "\<exists>V. (rf_current_term n, j, V) \<in> nt_wins s" if "rf_role n = LEADER"
    using that assms(3) net_inv_leader [OF assms(1,2)] by (auto simp: subdued_def)
  show ?thesis
    using assms(1) assms(4) w o p l unfolding net_inv_def by (auto simp: case_prod_beta)
qed

lemma deliver_vote_inv:
  assumes "net_inv ms s" and "j \<in> set ms" and "vq_candidate_id q \<in> set ms - {j}" and "deliver_vote j q d s = (r, s')"
  shows "net_inv ms s' \<and> nt_pc s' = nt_pc s \<and> (\<forall>k. k \<noteq> j \<longrightarrow> nt_node s' k = nt_node s k)
         \<and> (\<forall>t. r = Inr (t, True) \<longrightarrow> t = vq_candidate_term q \<and> (j, vq_candidate_id q, t) \<in> nt_grants s')"
proof -
  obtain n where h: "handle_request_vote d (vq_candidate_id q) (vq_candidate_term q) (vq_last_log_index q) (vq_last_log_term q)
      (nt_node s j) = (r, n)"
    using assms(4) by (auto simp: deliver_vote_def Let_def split: prod.splits)
  from handle_request_vote_cases [OF h] consider
      (denied) "subdued (nt_node s j) n" "rf_voted_for n = rf_voted_for (nt_node s j)" "\<forall>u. r \<noteq> Inr (u, True)"
    | (granted) "subdued (nt_node s j) n" "rf_voted_for (nt_node s j) \<in> {None, Some (vq_candidate_id q)}"
        "rf_voted_for n = Some (vq_candidate_id q)" "r = Inr (vq_candidate_term q, True)" "vq_candidate_term q = rf_current_term n"
    by blast
  then show ?thesis
  proof cases
    case denied
    have "s' = s\<lparr>nt_node := (nt_node s)(j := n)\<rparr>"
      using assms(4) denied(3) h by (auto simp: deliver_vote_def split: sum.splits bool.splits prod.splits)
    with net_inv_subdued [OF assms(1,2) denied(1,2)] denied(3) show ?thesis by simp
  next
    case granted
    have "s' = s\<lparr>nt_node := (nt_node s)(j := n), nt_grants := insert (j, vq_candidate_id q, vq_candidate_term q) (nt_grants s)\<rparr>"
      using assms(4) granted(4) h by (simp add: deliver_vote_def)
    moreover have "node_inv (set ms) (insert (j, vq_candidate_id q, vq_candidate_term q) (nt_grants s)) (nt_cands s) j n"
      using node_inv_grant [OF net_inv_node [OF assms(1,2)] granted(1-3) _ granted(5)] assms(3) by simp
    ultimately show ?thesis
      using net_inv_grant [OF assms(1,2) granted(1)] granted(4) by simp
  qed
qed

lemma take_vote_response_cases:
  assumes "rf_voted_for n = Some i" and "j \<noteq> i" and "rf_votes n = Some v"
  shows "b \<Longrightarrow> t \<le> rf_current_term n \<Longrightarrow> take_vote_response d j (t, b) n = n\<lparr>rf_votes := Some (List.insert j v)\<rparr>"
    and "\<not> b \<Longrightarrow> subdued n (take_vote_response d j (t, b) n) \<and> rf_voted_for (take_vote_response d j (t, b) n) = Some i"
proof -
  obtain r n1 where h: "handle_request_vote d j t 0 0 n = (r, n1)" by fastforce
  note own = own_vote_handler [OF h assms(1,2)]
  show "take_vote_response d j (t, b) n = n\<lparr>rf_votes := Some (List.insert j v)\<rparr>" if "b" "t \<le> rf_current_term n"
  proof -
    have "handle_request_vote d j t 0 0 n = (Inr (rf_current_term n, False), n)"
      using assms that(2) by (auto simp: handle_request_vote_def decide_vote_def)
    with that(1) assms(3) show ?thesis by (simp add: take_vote_response_def record_vote_def)
  qed
  show "subdued n (take_vote_response d j (t, b) n) \<and> rf_voted_for (take_vote_response d j (t, b) n) = Some i" if "\<not> b"
    using that own(1,2) by (simp add: take_vote_response_def h split: sum.splits)
qed

lemma finish_election_fields:
  assumes "rf_votes n = Some v" and "(e, n') = finish_election k pids n"
  shows "rf_node_id n' = rf_node_id n" "rf_current_term n' = rf_current_term n" "rf_voted_for n' = rf_voted_for n" "rf_votes n' = rf_votes n"
    "rf_role n' = (if length v > k div 2 then LEADER else rf_role n)"
  using assms by (auto simp: finish_election_def has_majority_def set_peers_def become_leader_def split: if_splits)

lemma net_inv_set_pc:
  assumes "net_inv ms s" and "i \<in> set ms" and "pc_inv (set ms) (nt_grants s) i (nt_node s i) pc"
  shows "net_inv ms (s\<lparr>nt_pc := (nt_pc s)(i := pc)\<rparr>)"
  using net_inv_update [OF assms(1,2) net_inv_node [OF assms(1,2)] assms(3) net_inv_leader [OF assms(1,2)]] by simp

lemma exec_Start_inv:
  assumes "peer_config peers ms" and "net_inv ms s" and "exec peers ms (Start i now d) s = Some s'"
  shows "net_inv ms s'"
proof -
  let ?n = "become_candidate d (nt_node s i)" and ?C = "insert (i, rf_current_term (nt_node s i) + 1) (nt_cands s)"
  let ?pc = "Asking (peers i) (last_log_index ?n) (last_log_term ?n)"
  from assms(3) have i: "i \<in> set ms"
    and s': "s' = s\<lparr>nt_node := (nt_node s)(i := ?n), nt_pc := (nt_pc s)(i := ?pc), nt_cands := ?C\<rparr>"
    by (auto simp: Let_def become_candidate_def split: if_splits)
  have n: "node_inv (set ms) (nt_grants s) ?C i ?n"
    using node_inv_candidate [OF net_inv_node [OF assms(2) i] i] .
  have o: "node_inv (set ms) (nt_grants s) ?C k (nt_node s k)" if "k \<in> set ms" "k \<noteq> i" for k
    using node_inv_mono(2) [OF net_inv_node [OF assms(2) that(1)]] that(2) by metis
  have w: "win_inv ms (nt_grants s) ?C T k V" if "win_inv ms (nt_grants s) (nt_cands s) T k V" for T k V
    using that backed_mono [of "set ms" "nt_grants s" "nt_cands s" k T V "nt_grants s" ?C] by (auto simp: win_inv_def)
  have p: "pc_inv (set ms) (nt_grants s) i ?n ?pc"
    using assms(1) i by (auto simp: become_candidate_def peer_config_def)
  have "rf_role ?n \<noteq> LEADER" by (simp add: become_candidate_def)
  then show ?thesis
    using assms(2) i n o w p unfolding s' net_inv_def by (auto simp: case_prod_beta)
qed

lemma exec_Answer_inv:
  assumes "net_inv ms s" and "exec peers ms (Answer i d) s = Some s'"
  shows "net_inv ms s'"
proof -
  from assms(2) obtain j t b ps li lt where pc: "nt_pc s i = Answered j (t, b) ps li lt"
    and s': "s' = s\<lparr>nt_node := (nt_node s)(i := take_vote_response d j (t, b) (nt_node s i)), nt_pc := (nt_pc s)(i := Asking ps li lt)\<rparr>"
    by (auto split: tick_pc.splits)
  let ?n = "nt_node s i" and ?n' = "take_vote_response d j (t, b) (nt_node s i)"
  have i: "i \<in> set ms" and p: "pc_inv (set ms) (nt_grants s) i ?n (Answered j (t, b) ps li lt)"
    using net_inv_pc [OF assms(1), of i] pc by auto
  note inv = net_inv_node [OF assms(1) i]
  from p obtain v where v: "rf_votes ?n = Some v" and j: "j \<in> set ms - {i}" and ps: "set ps \<subseteq> set ms - {i}"
    and role: "rf_role ?n \<noteq> LEADER" and vote: "b \<Longrightarrow> timely i t ?n \<and> (j, i, t) \<in> nt_grants s" by auto
  have self: "rf_voted_for ?n = Some i" using inv v by (auto simp: node_inv_def voter_inv_def)
  have "node_inv (set ms) (nt_grants s) (nt_cands s) i ?n' \<and> rf_votes ?n' \<noteq> None \<and> rf_role ?n' \<noteq> LEADER"
  proof (cases b)
    case True
    with vote take_vote_response_cases(1) [OF self _ v] j have "?n' = ?n\<lparr>rf_votes := Some (List.insert j v)\<rparr>"
      by (auto simp: timely_def)
    with vote [OF True] role node_inv_vote [OF inv v _ _ j, of t] show ?thesis by simp
  next
    case False
    with take_vote_response_cases(2) [OF self _ v, of j b d t] j
    have sub: "subdued ?n ?n'" "rf_voted_for ?n' = rf_voted_for ?n" using self by auto
    with node_inv_subdued [OF inv sub] v role show ?thesis by (auto simp: subdued_def)
  qed
  then show ?thesis
    unfolding s' using ps by (intro net_inv_update [OF assms(1) i]) auto
qed

lemma exec_Finish_inv:
  assumes "peer_config peers ms" and "net_inv ms s" and "exec peers ms (Finish i) s = Some s'"
  shows "net_inv ms s'"
proof -
  let ?n = "nt_node s i" and ?k = "length (peers i) + 1"
  let ?n' = "snd (finish_election ?k (peers i) ?n)"
  let ?W = "if has_majority ?k ?n = Inr True then insert (rf_current_term ?n, i, votes_of ?n) (nt_wins s) else nt_wins s"
  from assms(3) obtain li lt where pc: "nt_pc s i = Asking [] li lt"
    and s': "s' = s\<lparr>nt_node := (nt_node s)(i := ?n'), nt_pc := (nt_pc s)(i := Idle), nt_wins := ?W\<rparr>"
    by (auto simp: Let_def split: tick_pc.splits list.splits)
  have i: "i \<in> set ms" and p: "pc_inv (set ms) (nt_grants s) i ?n (Asking [] li lt)"
    using net_inv_pc [OF assms(2), of i] pc by auto
  note inv = net_inv_node [OF assms(2) i]
  from p obtain v where v: "rf_votes ?n = Some v" and role: "rf_role ?n \<noteq> LEADER" by auto
  have k: "?k = length ms" using peer_config_length [OF assms(1) i] .
  note f = finish_election_fields [OF v, of "fst (finish_election ?k (peers i) ?n)" ?n' ?k "peers i", OF prod.collapse]
  have maj: "has_majority ?k ?n = Inr True \<longleftrightarrow> length ms div 2 < length v"
    using v k by (simp add: has_majority_def)
  have n: "node_inv (set ms) (nt_grants s) (nt_cands s) i ?n'"
    using inv f(1-4) by (simp add: node_inv_def votes_of_def)
  have won: "win_inv ms (nt_grants s) (nt_cands s) (rf_current_term ?n) i (votes_of ?n)" if "length ms div 2 < length v"
    using that inv v i by (auto simp: win_inv_def node_inv_def voter_inv_def votes_of_def distinct_card)
  have l: "\<exists>V. (rf_current_term ?n', i, V) \<in> ?W" if "rf_role ?n' = LEADER"
    using that f(2,5) maj k role by (auto split: if_splits)
  show ?thesis
    using assms(2) i n l won maj unfolding s' net_inv_def by (auto simp: case_prod_beta split: if_splits)
qed

lemma exec_Deliver_inv:
  assumes "net_inv ms s" and "exec peers ms (Deliver i d) s = Some s'"
  shows "net_inv ms s'"
proof -
  from assms(2) obtain j q ps li lt r s1 where pc: "nt_pc s i = Waiting j q ps li lt" and dv: "deliver_vote j q d s = (r, s1)"
    and s': "s' = s1\<lparr>nt_pc := (nt_pc s)(i := (case r of Inl e \<Rightarrow> Asking ps li lt | Inr r' \<Rightarrow> Answered j r' ps li lt))\<rparr>"
    by (auto split: tick_pc.splits sum.splits prod.splits)
  have i: "i \<in> set ms" and p: "pc_inv (set ms) (nt_grants s) i (nt_node s i) (Waiting j q ps li lt)"
    using net_inv_pc [OF assms(1), of i] pc by auto
  from p i have j: "j \<in> set ms" "vq_candidate_id q \<in> set ms - {j}" and ji: "j \<noteq> i" and c: "vq_candidate_id q = i" by auto
  from deliver_vote_inv [OF assms(1) j dv] have inv: "net_inv ms s1" and pcs: "nt_pc s1 = nt_pc s"
    and n: "nt_node s1 i = nt_node s i" and g: "\<And>t. r = Inr (t, True) \<Longrightarrow> t = vq_candidate_term q \<and> (j, i, t) \<in> nt_grants s1"
    using ji c by auto
  have "pc_inv (set ms) (nt_grants s1) i (nt_node s1 i) (case r of Inl e \<Rightarrow> Asking ps li lt | Inr r' \<Rightarrow> Answered j r' ps li lt)"
    using p n g by (cases r) auto
  from net_inv_set_pc [OF inv i this] show ?thesis unfolding s' pcs .
qed

lemma exec_inv:
  assumes "peer_config peers ms" and "net_inv ms s" and "exec peers ms a s = Some s'"
  shows "net_inv ms s'"
proof (cases a)
  case (Start i now d)
  with exec_Start_inv [OF assms(1,2)] assms(3) show ?thesis by blast
next
  case (Skip i)
  with assms(3) obtain j ps li lt where s': "s' = s\<lparr>nt_pc := (nt_pc s)(i := Asking ps li lt)\<rparr>"
    and "nt_pc s i = Asking (j # ps) li lt \<or> (\<exists>q. nt_pc s i = Waiting j q ps li lt) \<or> (\<exists>r. nt_pc s i = Answered j r ps li lt)"
    by (auto split: tick_pc.splits list.splits)
  then have i: "i \<in> set ms" and "pc_inv (set ms) (nt_grants s) i (nt_node s i) (Asking ps li lt)"
    using net_inv_pc [OF assms(2), of i] by auto
  from net_inv_set_pc [OF assms(2) this] show ?thesis unfolding s' .
next
  case (Send i)
  with assms(3) obtain j ps li lt q where pc: "nt_pc s i = Asking (j # ps) li lt" and q: "q = vote_request_of li lt (nt_node s i)"
    and s': "s' = s\<lparr>nt_pc := (nt_pc s)(i := Waiting j q ps li lt), nt_sent := insert (j, q) (nt_sent s)\<rparr>"
    by (auto simp: Let_def split: tick_pc.splits list.splits)
  have i: "i \<in> set ms" and p: "pc_inv (set ms) (nt_grants s) i (nt_node s i) (Asking (j # ps) li lt)"
    using net_inv_pc [OF assms(2), of i] pc by auto
  have c: "vq_candidate_id q = i" using net_inv_node [OF assms(2) i] q by (simp add: vote_request_of_def node_inv_def)
  with p q have "pc_inv (set ms) (nt_grants s) i (nt_node s i) (Waiting j q ps li lt)"
    by (simp add: timely_def vote_request_of_def)
  from net_inv_set_pc [OF assms(2) i this] p i c show ?thesis unfolding s' net_inv_def by auto
next
  case (Deliver i d)
  with exec_Deliver_inv [OF assms(2)] assms(3) show ?thesis by blast
next
  case (Late j q d)
  obtain r s1 where dv: "deliver_vote j q d s = (r, s1)" by fastforce
  from Late assms(2,3) have "j \<in> set ms" "vq_candidate_id q \<in> set ms - {j}" by (auto simp: net_inv_def split: if_splits)
  from deliver_vote_inv [OF assms(2) this dv] Late assms(3) dv show ?thesis by (auto split: if_splits)
next
  case (Answer i d)
  with exec_Answer_inv [OF assms(2)] assms(3) show ?thesis by blast
next
  case (Finish i)
  with exec_Finish_inv [OF assms(1,2)] assms(3) show ?thesis by blast
next
  case (Append i d t l pv pt es lc)
  then have "i \<in> set ms" and s': "s' = s\<lparr>nt_node := (nt_node s)(i := snd (handle_append_entries d t l pv pt es lc (nt_node s i)))\<rparr>"
    using assms(3) by (auto split: if_splits)
  then show ?thesis
    unfolding s' by (intro net_inv_subdued [OF assms(2)]) (simp_all add: handle_append_entries_subdued)
next
  case (Local i ty p)
  with assms(3) net_inv_subdued [OF assms(2)] show ?thesis
    by (auto simp: append_to_log_def Let_def subdued_def split: if_splits)
qed

lemma net_init_inv: "net_inv ms (net_init max_batch dl)"
  by (simp add: net_inv_def net_init_def node_inv_def voter_inv_def raft_init_def votes_of_def)

lemma reach_inv: "reach peers ms s \<Longrightarrow> peer_config peers ms \<Longrightarrow> net_inv ms s"
  by (induction rule: reach.induct) (auto intro: net_init_inv exec_inv)

section \<open>Election safety\<close>


fun exec_all :: "(string \<Rightarrow> string list) \<Rightarrow> string list \<Rightarrow> 'p action list \<Rightarrow> 'p net \<Rightarrow> 'p net option" where
  "exec_all peers ms [] s = Some s"
| "exec_all peers ms (a # as) s = (case exec peers ms a s of None \<Rightarrow> None | Some s' \<Rightarrow> exec_all peers ms as s')"

lemma exec_all_reach: "reach peers ms s \<Longrightarrow> exec_all peers ms as s = Some s' \<Longrightarrow> reach peers ms s'"
  by (induction as arbitrary: s) (auto intro: reach_step split: option.splits)

definition demo_members :: "string list" where
  "demo_members = [''a'', ''b'', ''c'']"

definition demo_peers :: "string \<Rightarrow> string list" where
  "demo_peers i = filter (\<lambda>j. j \<noteq> i) demo_members"

lemma demo_config: "peer_config demo_peers demo_members"
  by (auto simp: peer_config_def demo_peers_def demo_members_def)

text \<open>
  A run that elects a leader: the first request to the fresh node c raises there but raises its term too, so that it can
  vote for the second candidate of that term.
\<close>

definition demo_run :: "int action list" where
  "demo_run = [Start ''a'' 1 5, Start ''b'' 1 5, Skip ''a'', Send ''a'', Deliver ''a'' 5, Skip ''b'', Send ''b'', Deliver ''b'' 5,
     Answer ''b'' 5, Finish ''b'', Finish ''a'']"


section \<open>When every member has stood for election\<close>

text \<open>
  \<^verbatim>\<open>voted_for\<close> is never cleared, so a node that voted for itself denies every later candidate. What the ticks know
  once this holds of all members: at most their own vote, and no granted answer.
\<close>

fun lonely_pc :: "string \<Rightarrow> 'p raft \<Rightarrow> tick_pc \<Rightarrow> bool" where
  "lonely_pc i n Idle \<longleftrightarrow> True"
| "lonely_pc i n (Asking ps li lt) \<longleftrightarrow> votes_of n \<subseteq> {i}"
| "lonely_pc i n (Waiting j q ps li lt) \<longleftrightarrow> votes_of n \<subseteq> {i}"
| "lonely_pc i n (Answered j (t, b) ps li lt) \<longleftrightarrow> votes_of n \<subseteq> {i} \<and> \<not> b"

definition all_stood :: "string list \<Rightarrow> (int \<times> string \<times> string set) set \<Rightarrow> string set \<Rightarrow> 'p net \<Rightarrow> bool" where
  "all_stood ms W L s \<longleftrightarrow> nt_wins s = W \<and>
     (\<forall>i \<in> set ms. rf_voted_for (nt_node s i) = Some i \<and> lonely_pc i (nt_node s i) (nt_pc s i)
                 \<and> (rf_role (nt_node s i) = LEADER \<longrightarrow> i \<in> L))"

lemma lonely_pc_subdued: "lonely_pc i n pc \<Longrightarrow> subdued n n' \<Longrightarrow> lonely_pc i n' pc"
  by (cases "(i, n, pc)" rule: lonely_pc.cases) (auto simp: subdued_def votes_of_def)

lemma all_stood_update:
  assumes "all_stood ms W L s" and "rf_voted_for n = Some i" and "lonely_pc i n pc" and "rf_role n = LEADER \<Longrightarrow> i \<in> L"
  shows "all_stood ms W L (s\<lparr>nt_node := (nt_node s)(i := n), nt_pc := (nt_pc s)(i := pc)\<rparr>)"
  using assms by (simp add: all_stood_def)

lemma all_stood_subdued:
  assumes "all_stood ms W L s" and "i \<in> set ms" and "subdued (nt_node s i) n" and "rf_voted_for n = rf_voted_for (nt_node s i)"
  shows "all_stood ms W L (s\<lparr>nt_node := (nt_node s)(i := n)\<rparr>)"
  using assms lonely_pc_subdued [OF _ assms(3)] by (auto simp: all_stood_def subdued_def)

lemma all_stood_set_pc:
  "all_stood ms W L s \<Longrightarrow> lonely_pc i (nt_node s i) pc \<Longrightarrow> all_stood ms W L (s\<lparr>nt_pc := (nt_pc s)(i := pc)\<rparr>)"
  by (simp add: all_stood_def)

lemma all_stood_pc:
  "all_stood ms W L s \<Longrightarrow> net_inv ms s \<Longrightarrow> nt_pc s i = pc \<Longrightarrow> pc \<noteq> Idle \<Longrightarrow> lonely_pc i (nt_node s i) pc"
  using net_inv_pc [of ms s i] by (auto simp: all_stood_def)

lemma deliver_vote_all_stood:
  assumes "all_stood ms W L s" and "j \<in> set ms" and "vq_candidate_id q \<noteq> j" and "deliver_vote j q d s = (r, s')"
  shows "all_stood ms W L s' \<and> nt_pc s' = nt_pc s \<and> (\<forall>k. k \<noteq> j \<longrightarrow> nt_node s' k = nt_node s k) \<and> (\<forall>t. r \<noteq> Inr (t, True))"
proof -
  obtain n where h: "handle_request_vote d (vq_candidate_id q) (vq_candidate_term q) (vq_last_log_index q) (vq_last_log_term q)
      (nt_node s j) = (r, n)"
    using assms(4) by (auto simp: deliver_vote_def Let_def split: prod.splits)
  have "rf_voted_for (nt_node s j) = Some j" using assms(1,2) by (simp add: all_stood_def)
  with handle_request_vote_cases [OF h] assms(3) have sub: "subdued (nt_node s j) n" "rf_voted_for n = rf_voted_for (nt_node s j)"
    and r: "\<forall>t. r \<noteq> Inr (t, True)" by auto
  have "s' = s\<lparr>nt_node := (nt_node s)(j := n)\<rparr>"
    using assms(4) r h by (auto simp: deliver_vote_def split: sum.splits bool.splits prod.splits)
  with all_stood_subdued [OF assms(1,2) sub] r show ?thesis by simp
qed

lemma exec_Deliver_all_stood:
  assumes "net_inv ms s" and "all_stood ms W L s" and "exec peers ms (Deliver i d) s = Some s'"
  shows "all_stood ms W L s'"
proof -
  obtain j q ps li lt r s1 where pc: "nt_pc s i = Waiting j q ps li lt" and dv: "deliver_vote j q d s = (r, s1)"
    and s': "s' = s1\<lparr>nt_pc := (nt_pc s)(i := (case r of Inl e \<Rightarrow> Asking ps li lt | Inr r' \<Rightarrow> Answered j r' ps li lt))\<rparr>"
    using assms(3) by (auto split: tick_pc.splits sum.splits prod.splits)
  from net_inv_pc [OF assms(1), of i] pc have j: "j \<in> set ms" "vq_candidate_id q \<noteq> j" "j \<noteq> i" by auto
  note d = deliver_vote_all_stood [OF assms(2) j(1,2) dv]
  have "votes_of (nt_node s i) \<subseteq> {i}" using all_stood_pc [OF assms(2,1) pc] by simp
  with d j(3) have "lonely_pc i (nt_node s1 i) (case r of Inl e \<Rightarrow> Asking ps li lt | Inr r' \<Rightarrow> Answered j r' ps li lt)"
    by (cases r) auto
  with all_stood_set_pc [of ms W L s1 i] d show ?thesis unfolding s' by simp
qed

lemma lonely_no_majority:
  assumes "node_inv M G C i n" and "votes_of n \<subseteq> {i}" and "2 \<le> k"
  shows "has_majority k n \<noteq> Inr True"
proof (cases "rf_votes n")
  case (Some v)
  then have "length v = card (votes_of n)" using assms(1) by (simp add: node_inv_def votes_of_def distinct_card)
  also have "\<dots> \<le> 1" using card_mono [OF _ assms(2)] by simp
  also have "\<dots> \<le> k div 2" using assms(3) by simp
  finally show ?thesis using Some by (simp add: has_majority_def)
qed (simp add: has_majority_def)

lemma exec_all_stood:
  assumes "peer_config peers ms" and "2 \<le> length ms" and "net_inv ms s" and "all_stood ms W L s" and "exec peers ms a s = Some s'"
  shows "all_stood ms W L s'"
proof (cases a)
  case (Start i now d)
  with assms(4,5) show ?thesis
    using net_inv_node [OF assms(3), of i]
    by (auto simp: all_stood_def become_candidate_def votes_of_def node_inv_def Let_def split: if_splits)
next
  case (Skip i)
  with assms(5) all_stood_pc [OF assms(4,3), of i] show ?thesis
    by (auto intro!: all_stood_set_pc [OF assms(4)] split: tick_pc.splits list.splits)
next
  case (Send i)
  then obtain j ps li lt q where pc: "nt_pc s i = Asking (j # ps) li lt"
    and s': "s' = s\<lparr>nt_pc := (nt_pc s)(i := Waiting j q ps li lt), nt_sent := insert (j, q) (nt_sent s)\<rparr>"
    using assms(5) by (auto simp: Let_def split: tick_pc.splits list.splits)
  from all_stood_set_pc [OF assms(4), of i "Waiting j q ps li lt"] all_stood_pc [OF assms(4,3) pc] show ?thesis
    unfolding s' by (simp add: all_stood_def)
next
  case (Deliver i d)
  with exec_Deliver_all_stood [OF assms(3,4)] assms(5) show ?thesis by blast
next
  case (Late j q d)
  obtain r s1 where dv: "deliver_vote j q d s = (r, s1)" by fastforce
  from Late assms(3,5) have "j \<in> set ms" "vq_candidate_id q \<noteq> j" by (auto simp: net_inv_def split: if_splits)
  from deliver_vote_all_stood [OF assms(4) this dv] Late assms(5) dv show ?thesis by (auto split: if_splits)
next
  case (Answer i d)
  then obtain j t b ps li lt where pc: "nt_pc s i = Answered j (t, b) ps li lt"
    and s': "s' = s\<lparr>nt_node := (nt_node s)(i := take_vote_response d j (t, b) (nt_node s i)), nt_pc := (nt_pc s)(i := Asking ps li lt)\<rparr>"
    using assms(5) by (auto split: tick_pc.splits)
  from net_inv_pc [OF assms(3), of i] pc obtain v where i: "i \<in> set ms" "j \<noteq> i" and v: "rf_votes (nt_node s i) = Some v"
    and role: "rf_role (nt_node s i) \<noteq> LEADER" by auto
  have st: "rf_voted_for (nt_node s i) = Some i" "votes_of (nt_node s i) \<subseteq> {i}" "\<not> b"
    using assms(4) i(1) all_stood_pc [OF assms(4,3) pc] by (simp_all add: all_stood_def)
  from take_vote_response_cases(2) [OF st(1) i(2) v st(3), of d t] show ?thesis
    unfolding s' using st(2) role by (intro all_stood_update [OF assms(4)]) (auto simp: subdued_def votes_of_def)
next
  case (Finish i)
  then obtain li lt where pc: "nt_pc s i = Asking [] li lt"
    using assms(5) by (auto simp: Let_def split: tick_pc.splits list.splits)
  from net_inv_pc [OF assms(3), of i] pc obtain v where i: "i \<in> set ms" and v: "rf_votes (nt_node s i) = Some v" by auto
  have "votes_of (nt_node s i) \<subseteq> {i}" using all_stood_pc [OF assms(4,3) pc] by simp
  then have "has_majority (length (peers i) + 1) (nt_node s i) \<noteq> Inr True"
    using lonely_no_majority net_inv_node [OF assms(3) i] assms(2) peer_config_length [OF assms(1) i] by metis
  then have "snd (finish_election (length (peers i) + 1) (peers i) (nt_node s i)) = nt_node s i"
    and "s' = s\<lparr>nt_node := (nt_node s)(i := nt_node s i), nt_pc := (nt_pc s)(i := Idle)\<rparr>"
    using Finish assms(5) pc v by (auto simp: finish_election_def has_majority_def Let_def)
  with assms(4) i show ?thesis by (simp add: all_stood_def)
next
  case (Append i d t l pv pt es lc)
  then have "i \<in> set ms" and s': "s' = s\<lparr>nt_node := (nt_node s)(i := snd (handle_append_entries d t l pv pt es lc (nt_node s i)))\<rparr>"
    using assms(5) by (auto split: if_splits)
  then show ?thesis
    unfolding s' by (intro all_stood_subdued [OF assms(4)]) (simp_all add: handle_append_entries_subdued)
next
  case (Local i ty p)
  with assms(5) all_stood_subdued [OF assms(4)] show ?thesis
    by (auto simp: append_to_log_def Let_def subdued_def split: if_splits)
qed


lemma run_all_stood:
  assumes "exec_all peers ms as s = Some s'" and "peer_config peers ms" and "2 \<le> length ms" and "net_inv ms s" and "all_stood ms W L s"
  shows "all_stood ms W L s'"
  using assms(1,4,5)
proof (induction as arbitrary: s)
  case (Cons a as)
  then obtain s1 where "exec peers ms a s = Some s1" and "exec_all peers ms as s1 = Some s'" by (auto split: option.splits)
  with Cons exec_inv [OF assms(2)] exec_all_stood [OF assms(2,3)] show ?case by blast
qed simp


text \<open>Three members that time out together and miss each other's requests are in that state.\<close>

definition demo_split :: "int action list" where
  "demo_split = concat (map (\<lambda>i. [Start i 1 5, Skip i, Skip i, Finish i]) demo_members)"

definition demo_retry :: "int action list" where
  "demo_retry = [Start ''a'' 9 20, Send ''a'', Deliver ''a'' 20, Answer ''a'' 20, Send ''a'', Deliver ''a'' 20, Answer ''a'' 20, Finish ''a'']"


end
