(* ===== verification/Topology.thy ===== *)
theory Topology
  imports RaftCluster
begin

text \<open>
  \<^verbatim>\<open>TopologyStore\<close>, \<^verbatim>\<open>TopologyGossipBridge\<close> and \<^verbatim>\<open>TopologyManager\<close> of \<^verbatim>\<open>src/distllm/dist/topology_consensus.py\<close>: the state machine that
  applies committed log entries to a table of nodes in memory, mirrors it in SQLite and announces every change. A node
  dictionary is a record of optional fields, one per key the code knows, and the remaining keys; its values have the
  types the code documents. A table of SQLite is the list of its rows in insertion order, and a JSON text is
  represented by the value it encodes. Subscribers and the gossip client are arguments acting on a state of their own, the
  clock is read once per operation, and reading through a closed connection is the failed assertion.
\<close>

section \<open>Node dictionaries\<close>

record 'x node_doc =
  nd_node_id :: "string option"
  nd_host :: "string option"
  nd_port :: "int option"
  nd_gpu_count :: "int option"
  nd_healthy :: "bool option"
  nd_tags :: "(string, string) dict option"
  nd_registered_at :: "rat option"
  nd_last_seen :: "rat option"
  nd_extra :: "(string, 'x) dict"

definition get_or :: "'a \<Rightarrow> 'a option \<Rightarrow> 'a" where
  "get_or d v = (case v of None \<Rightarrow> d | Some x \<Rightarrow> x)"

text \<open>\<^verbatim>\<open>dict.update\<close>: a key of the argument overrides.\<close>

definition override :: "'a option \<Rightarrow> 'a option \<Rightarrow> 'a option" where
  "override new old = (case new of None \<Rightarrow> old | Some v \<Rightarrow> Some v)"

definition doc_update :: "'x node_doc \<Rightarrow> 'x node_doc \<Rightarrow> 'x node_doc" where
  "doc_update u d =
     \<lparr>nd_node_id = override (nd_node_id u) (nd_node_id d), nd_host = override (nd_host u) (nd_host d),
      nd_port = override (nd_port u) (nd_port d), nd_gpu_count = override (nd_gpu_count u) (nd_gpu_count d),
      nd_healthy = override (nd_healthy u) (nd_healthy d), nd_tags = override (nd_tags u) (nd_tags d),
      nd_registered_at = override (nd_registered_at u) (nd_registered_at d), nd_last_seen = override (nd_last_seen u) (nd_last_seen d),
      nd_extra = fold (\<lambda>(k, v). AList.update k v) (nd_extra u) (nd_extra d)\<rparr>"

definition doc_empty :: "'x node_doc" where
  "doc_empty = \<lparr>nd_node_id = None, nd_host = None, nd_port = None, nd_gpu_count = None, nd_healthy = None, nd_tags = None,
     nd_registered_at = None, nd_last_seen = None, nd_extra = []\<rparr>"

text \<open>Truth of a dictionary: it has a key.\<close>

definition doc_truthy :: "'x node_doc \<Rightarrow> bool" where
  "doc_truthy d \<longleftrightarrow> nd_node_id d \<noteq> None \<or> nd_host d \<noteq> None \<or> nd_port d \<noteq> None \<or> nd_gpu_count d \<noteq> None \<or> nd_healthy d \<noteq> None
     \<or> nd_tags d \<noteq> None \<or> nd_registered_at d \<noteq> None \<or> nd_last_seen d \<noteq> None \<or> nd_extra d \<noteq> []"

text \<open>The \<^verbatim>\<open>setdefault\<close> calls of \<^verbatim>\<open>register_node\<close>.\<close>

definition normalise_info :: "rat \<Rightarrow> 'x node_doc \<Rightarrow> 'x node_doc" where
  "normalise_info now d =
     d\<lparr>nd_node_id := Some (get_or [] (nd_node_id d)), nd_host := Some (get_or [] (nd_host d)), nd_port := Some (get_or 50051 (nd_port d)),
       nd_gpu_count := Some (get_or 1 (nd_gpu_count d)), nd_healthy := Some (get_or True (nd_healthy d)), nd_tags := Some (get_or [] (nd_tags d)),
       nd_registered_at := Some (get_or now (nd_registered_at d)), nd_last_seen := Some (get_or now (nd_last_seen d))\<rparr>"

section \<open>The store\<close>

record node_record =
  nr_node_id :: string
  nr_host :: string
  nr_port :: int
  nr_gpu_count :: int
  nr_healthy :: bool
  nr_tags :: "(string, string) dict"
  nr_registered_at :: rat
  nr_last_seen :: rat

record 's version_record =
  vr_version :: int
  vr_topology :: 's
  vr_committed_at :: rat
  vr_term :: int
  vr_index :: int

record 's topology_store =
  ts_connected :: bool
  ts_nodes :: "node_record list"
  ts_versions :: "'s version_record list"
  ts_sequence :: int

definition store_init :: "'s topology_store" where
  "store_init = \<lparr>ts_connected = False, ts_nodes = [], ts_versions = [], ts_sequence = 0\<rparr>"

definition store_connect :: "'s topology_store \<Rightarrow> 's topology_store" where
  "store_connect s = s\<lparr>ts_connected := True\<rparr>"

definition store_close :: "'s topology_store \<Rightarrow> 's topology_store" where
  "store_close s = s\<lparr>ts_connected := False\<rparr>"

text \<open>\<^verbatim>\<open>INSERT OR REPLACE\<close> removes the row with the same key and adds the new one.\<close>

definition put_row :: "node_record \<Rightarrow> node_record list \<Rightarrow> node_record list" where
  "put_row r rows = filter (\<lambda>x. nr_node_id x \<noteq> nr_node_id r) rows @ [r]"

definition drop_row :: "string \<Rightarrow> node_record list \<Rightarrow> node_record list" where
  "drop_row k rows = filter (\<lambda>x. nr_node_id x \<noteq> k) rows"

definition find_row :: "node_record list \<Rightarrow> string \<Rightarrow> node_record option" where
  "find_row rows k = find (\<lambda>x. nr_node_id x = k) rows"

definition row_of :: "rat \<Rightarrow> 'x node_doc \<Rightarrow> node_record" where
  "row_of now d =
     \<lparr>nr_node_id = get_or [] (nd_node_id d), nr_host = get_or [] (nd_host d), nr_port = get_or 50051 (nd_port d),
      nr_gpu_count = get_or 1 (nd_gpu_count d), nr_healthy = get_or True (nd_healthy d), nr_tags = get_or [] (nd_tags d),
      nr_registered_at = get_or now (nd_registered_at d), nr_last_seen = get_or now (nd_last_seen d)\<rparr>"

definition save_node :: "rat \<Rightarrow> 'x node_doc \<Rightarrow> 's topology_store \<Rightarrow> py_error option \<times> 's topology_store" where
  "save_node now d s =
     (if ts_connected s then (None, s\<lparr>ts_nodes := put_row (row_of now d) (ts_nodes s)\<rparr>) else (Some AssertionError, s))"

definition load_all_nodes :: "'s topology_store \<Rightarrow> py_error + node_record list" where
  "load_all_nodes s = (if ts_connected s then Inr (sort_key nr_node_id (ts_nodes s)) else Inl AssertionError)"

definition delete_node :: "string \<Rightarrow> 's topology_store \<Rightarrow> py_error option \<times> 's topology_store" where
  "delete_node k s = (if ts_connected s then (None, s\<lparr>ts_nodes := drop_row k (ts_nodes s)\<rparr>) else (Some AssertionError, s))"

definition update_heartbeat :: "rat \<Rightarrow> string \<Rightarrow> 's topology_store \<Rightarrow> py_error option \<times> 's topology_store" where
  "update_heartbeat now k s =
     (if ts_connected s
      then (None, s\<lparr>ts_nodes := map (\<lambda>r. if nr_node_id r = k then r\<lparr>nr_last_seen := now\<rparr> else r) (ts_nodes s)\<rparr>)
      else (Some AssertionError, s))"

text \<open>The key of a new version row is one more than any key ever given out (\<^verbatim>\<open>AUTOINCREMENT\<close>).\<close>

definition save_version :: "rat \<Rightarrow> 's \<Rightarrow> int \<Rightarrow> int \<Rightarrow> 's topology_store \<Rightarrow> py_error option \<times> 's topology_store" where
  "save_version now topo term idx s =
     (if ts_connected s
      then (None, s\<lparr>ts_versions := ts_versions s @ [\<lparr>vr_version = ts_sequence s + 1, vr_topology = topo, vr_committed_at = now,
                                                       vr_term = term, vr_index = idx\<rparr>],
                   ts_sequence := ts_sequence s + 1\<rparr>)
      else (Some AssertionError, s))"

text \<open>A negative limit means no limit.\<close>

definition load_all_versions :: "int \<Rightarrow> 's topology_store \<Rightarrow> py_error + 's version_record list" where
  "load_all_versions limit s =
     (if ts_connected s
      then let newest_first = rev (sort_key vr_version (ts_versions s)) in Inr (if limit < 0 then newest_first else take (nat limit) newest_first)
      else Inl AssertionError)"

definition load_latest_version :: "'s topology_store \<Rightarrow> py_error + 's version_record option" where
  "load_latest_version s =
     (case load_all_versions 1 s of Inl e \<Rightarrow> Inl e | Inr vs \<Rightarrow> Inr (case vs of [] \<Rightarrow> None | v # _ \<Rightarrow> Some v))"

definition recover_topology :: "'s topology_store \<Rightarrow> py_error + node_record list \<times> 's version_record option" where
  "recover_topology s =
     (case load_all_nodes s of
        Inl e \<Rightarrow> Inl e
      | Inr ns \<Rightarrow> (case load_latest_version s of Inl e \<Rightarrow> Inl e | Inr v \<Rightarrow> Inr (ns, v)))"

definition store_clear :: "'s topology_store \<Rightarrow> py_error option \<times> 's topology_store" where
  "store_clear s = (if ts_connected s then (None, s\<lparr>ts_nodes := [], ts_versions := []\<rparr>) else (Some AssertionError, s))"

section \<open>The gossip bridge\<close>

text \<open>Payloads of log entries: the keys of a node and, for an update, the key \<^verbatim>\<open>updates\<close>.\<close>

record 'x topo_payload =
  py_info :: "'x node_doc"
  py_updates :: "'x node_doc option"

record 'x change_item =
  ci_type :: string
  ci_node_id :: string
  ci_payload :: "'x topo_payload"

record 'x topology_change =
  tc_version :: int
  tc_changes :: "'x change_item list"
  tc_committed_at :: rat
  tc_term :: int

record 'x gossip_message =
  gm_type :: "string option"
  gm_version :: "int option"
  gm_changes :: "'x change_item list option"
  gm_committed_at :: "rat option"
  gm_term :: "int option"

record gossip_bridge =
  gb_node_id :: string
  gb_subscriptions :: "nat list"
  gb_current_version :: int

text \<open>Callbacks are known by number; what they and the gossip client do is part of the environment.\<close>

record ('x, 'w) topo_env =
  te_exchange :: "(string \<Rightarrow> 'x gossip_message \<Rightarrow> 'w \<Rightarrow> py_error option \<times> 'w) option"
  te_callback :: "nat \<Rightarrow> 'x topology_change \<Rightarrow> 'w \<Rightarrow> py_error option \<times> 'w"

definition bridge_init :: "string \<Rightarrow> gossip_bridge" where
  "bridge_init nid = \<lparr>gb_node_id = nid, gb_subscriptions = [], gb_current_version = 0\<rparr>"

definition subscribe :: "nat \<Rightarrow> gossip_bridge \<Rightarrow> gossip_bridge" where
  "subscribe cb b = b\<lparr>gb_subscriptions := gb_subscriptions b @ [cb]\<rparr>"

text \<open>The comprehension variable shadows the argument, so each subscription is compared with itself.\<close>

definition unsubscribe :: "nat \<Rightarrow> gossip_bridge \<Rightarrow> gossip_bridge" where
  "unsubscribe callback b = b\<lparr>gb_subscriptions := filter (\<lambda>cb. cb \<noteq> cb) (gb_subscriptions b)\<rparr>"

text \<open>Exceptions of subscribers and of the client are logged and dropped.\<close>

definition notify_subscribers :: "('x, 'w) topo_env \<Rightarrow> 'x topology_change \<Rightarrow> gossip_bridge \<Rightarrow> 'w \<Rightarrow> 'w" where
  "notify_subscribers en change b w = fold (\<lambda>cb w. snd (te_callback en cb change w)) (gb_subscriptions b) w"

definition notify_change :: "('x, 'w) topo_env \<Rightarrow> rat \<Rightarrow> 'x topology_change \<Rightarrow> gossip_bridge \<times> 'w \<Rightarrow> gossip_bridge \<times> 'w" where
  "notify_change en now change s =
     (let b = (fst s)\<lparr>gb_current_version := tc_version change\<rparr>;
          msg = \<lparr>gm_type = Some ''topology_update'', gm_version = Some (tc_version change), gm_changes = Some (tc_changes change),
                 gm_committed_at = Some (if tc_committed_at change = 0 then now else tc_committed_at change), gm_term = Some (tc_term change)\<rparr>;
          w = (case te_exchange en of None \<Rightarrow> snd s | Some ex \<Rightarrow> snd (ex (gb_node_id b) msg (snd s)))
      in (b, notify_subscribers en change b w))"

definition receive_gossip_update ::
    "('x, 'w) topo_env \<Rightarrow> rat \<Rightarrow> 'x gossip_message \<Rightarrow> gossip_bridge \<times> 'w \<Rightarrow> 'x topology_change option \<times> gossip_bridge \<times> 'w" where
  "receive_gossip_update en now msg s =
     (let version = get_or 0 (gm_version msg) in
      if gm_type msg \<noteq> Some ''topology_update'' \<or> version \<le> gb_current_version (fst s) then (None, s)
      else let b = (fst s)\<lparr>gb_current_version := version\<rparr>;
               change = \<lparr>tc_version = version, tc_changes = get_or [] (gm_changes msg), tc_committed_at = get_or now (gm_committed_at msg),
                         tc_term = get_or 0 (gm_term msg)\<rparr>
           in (Some change, b, notify_subscribers en change b (snd s)))"

section \<open>The manager\<close>

record topology =
  tp_version :: int
  tp_nodes :: "node_record list"
  tp_node_count :: int
  tp_leader :: "string option"
  tp_timestamp :: rat

record 'x topo_manager =
  tm_node_id :: string
  tm_store :: "topology topology_store"
  tm_gossip :: gossip_bridge
  tm_nodes :: "(string, 'x node_doc) dict"
  tm_version :: int
  tm_callbacks :: "nat list"
  tm_started :: bool

definition manager_init :: "string \<Rightarrow> topology topology_store \<Rightarrow> 'x topo_manager" where
  "manager_init nid st =
     \<lparr>tm_node_id = nid, tm_store = st, tm_gossip = bridge_init nid, tm_nodes = [], tm_version = 0, tm_callbacks = [], tm_started = False\<rparr>"

definition view_of :: "string \<times> 'x node_doc \<Rightarrow> node_record" where
  "view_of e = (row_of 0 (snd e))\<lparr>nr_node_id := fst e\<rparr>"

definition get_topology :: "rat \<Rightarrow> string option \<Rightarrow> 'x topo_manager \<Rightarrow> topology" where
  "get_topology now leader m =
     \<lparr>tp_version = tm_version m, tp_nodes = map view_of (tm_nodes m), tp_node_count = int (length (tm_nodes m)),
      tp_leader = leader, tp_timestamp = now\<rparr>"

definition topo_get_node :: "string \<Rightarrow> 'x topo_manager \<Rightarrow> 'x node_doc option" where
  "topo_get_node nid m = map_of (tm_nodes m) nid"

definition get_healthy_nodes :: "'x topo_manager \<Rightarrow> 'x node_doc list" where
  "get_healthy_nodes m = filter (\<lambda>d. get_or True (nd_healthy d)) (map snd (tm_nodes m))"

definition on_topology_change :: "nat \<Rightarrow> 'x topo_manager \<Rightarrow> 'x topo_manager" where
  "on_topology_change cb m = m\<lparr>tm_callbacks := tm_callbacks m @ [cb], tm_gossip := subscribe cb (tm_gossip m)\<rparr>"

text \<open>What an entry does to the table and to the store, before the version is raised.\<close>

definition apply_entry :: "rat \<Rightarrow> 'x topo_payload log_entry \<Rightarrow> 'x topo_manager \<Rightarrow> py_error option \<times> 'x topo_manager" where
  "apply_entry now e m =
     (let d = py_info (le_payload e); nid = get_or [] (nd_node_id d) in
      if le_type e = ''node_join''
      then (case save_node now d (tm_store m) of (r, st) \<Rightarrow> (r, m\<lparr>tm_nodes := AList.update nid d (tm_nodes m), tm_store := st\<rparr>))
      else if le_type e = ''node_leave''
      then (let m1 = m\<lparr>tm_nodes := AList.delete nid (tm_nodes m)\<rparr> in
            case map_of (tm_nodes m) nid of
              None \<Rightarrow> (None, m1)
            | Some old \<Rightarrow> if doc_truthy old then (case delete_node nid (tm_store m) of (r, st) \<Rightarrow> (r, m1\<lparr>tm_store := st\<rparr>)) else (None, m1))
      else case map_of (tm_nodes m) nid of
             None \<Rightarrow> (None, m)
           | Some old \<Rightarrow>
               let new = doc_update (get_or doc_empty (py_updates (le_payload e))) old in
               case save_node now new (tm_store m) of (r, st) \<Rightarrow> (r, m\<lparr>tm_nodes := AList.update nid new (tm_nodes m), tm_store := st\<rparr>))"

definition on_log_applied ::
    "('x, 'w) topo_env \<Rightarrow> rat \<Rightarrow> string option \<Rightarrow> 'x topo_payload log_entry \<Rightarrow> 'x topo_manager \<times> 'w \<Rightarrow> py_error option \<times> 'x topo_manager \<times> 'w" where
  "on_log_applied en now leader e s =
     (let (m, w) = s; nid = get_or [] (nd_node_id (py_info (le_payload e))) in
      if le_type e \<notin> {''node_join'', ''node_leave'', ''node_update''} then (None, s)
      else case apply_entry now e m of
             (Some err, m1) \<Rightarrow> (Some err, m1, w)
           | (None, m1) \<Rightarrow>
               let m2 = m1\<lparr>tm_version := tm_version m1 + 1\<rparr> in
               (case save_version now (get_topology now leader m2) (le_term e) (le_index e) (tm_store m2) of
                  (Some err, st) \<Rightarrow> (Some err, m2\<lparr>tm_store := st\<rparr>, w)
                | (None, st) \<Rightarrow>
                    let change = \<lparr>tc_version = tm_version m2, tc_changes = [\<lparr>ci_type = le_type e, ci_node_id = nid, ci_payload = le_payload e\<rparr>],
                                  tc_committed_at = now, tc_term = le_term e\<rparr>;
                        (b, w1) = notify_change en now change (tm_gossip m2, w)
                    in (None, m2\<lparr>tm_store := st, tm_gossip := b\<rparr>, w1)))"

type_synonym ('x, 'w) topo_state = "'x topo_payload cluster \<times> 'x topo_manager \<times> 'w"

text \<open>Proposals go to the Raft cluster, whose apply callback is \<^verbatim>\<open>_on_log_applied\<close>.\<close>

definition topo_propose ::
    "('x, 'w) topo_env \<Rightarrow> 'x topo_payload append_transport \<Rightarrow> rat \<Rightarrow> string \<Rightarrow> 'x topo_payload \<Rightarrow> ('x, 'w) topo_state \<Rightarrow> bool \<times> ('x, 'w) topo_state" where
  "topo_propose en send now ty p s = propose send (on_log_applied en now (get_leader (fst s))) ty p s"

definition register_node ::
    "('x, 'w) topo_env \<Rightarrow> 'x topo_payload append_transport \<Rightarrow> rat \<Rightarrow> 'x node_doc \<Rightarrow> ('x, 'w) topo_state \<Rightarrow> bool \<times> ('x, 'w) topo_state" where
  "register_node en send now info s = topo_propose en send now ''node_join'' \<lparr>py_info = normalise_info now info, py_updates = None\<rparr> s"

definition unregister_node ::
    "('x, 'w) topo_env \<Rightarrow> 'x topo_payload append_transport \<Rightarrow> rat \<Rightarrow> string \<Rightarrow> ('x, 'w) topo_state \<Rightarrow> bool \<times> ('x, 'w) topo_state" where
  "unregister_node en send now nid s =
     topo_propose en send now ''node_leave'' \<lparr>py_info = doc_empty\<lparr>nd_node_id := Some nid\<rparr>, py_updates = None\<rparr> s"

definition update_node ::
    "('x, 'w) topo_env \<Rightarrow> 'x topo_payload append_transport \<Rightarrow> rat \<Rightarrow> string \<Rightarrow> 'x node_doc \<Rightarrow> ('x, 'w) topo_state \<Rightarrow> bool \<times> ('x, 'w) topo_state" where
  "update_node en send now nid u s =
     topo_propose en send now ''node_update'' \<lparr>py_info = doc_empty\<lparr>nd_node_id := Some nid\<rparr>, py_updates = Some u\<rparr> s"

definition doc_of_row :: "node_record \<Rightarrow> 'x node_doc" where
  "doc_of_row r =
     \<lparr>nd_node_id = Some (nr_node_id r), nd_host = Some (nr_host r), nd_port = Some (nr_port r), nd_gpu_count = Some (nr_gpu_count r),
      nd_healthy = Some (nr_healthy r), nd_tags = Some (nr_tags r), nd_registered_at = Some (nr_registered_at r),
      nd_last_seen = Some (nr_last_seen r), nd_extra = []\<rparr>"

text \<open>The recovery part of \<^verbatim>\<open>start\<close>: the store is opened and its rows and latest version are taken over.\<close>

definition recover_manager :: "'x topo_manager \<Rightarrow> py_error option \<times> 'x topo_manager" where
  "recover_manager m =
     (let st = store_connect (tm_store m) in
      case recover_topology st of
        Inl e \<Rightarrow> (Some e, m\<lparr>tm_store := st\<rparr>)
      | Inr (rows, v) \<Rightarrow>
          (None, m\<lparr>tm_store := st, tm_nodes := fold (\<lambda>r. AList.update (nr_node_id r) (doc_of_row r)) rows (tm_nodes m),
                   tm_version := (case v of None \<Rightarrow> tm_version m | Some x \<Rightarrow> vr_version x)\<rparr>))"

definition manager_start ::
    "('x, 'w) topo_env \<Rightarrow> 'x topo_payload append_transport \<Rightarrow> rat \<Rightarrow> string \<Rightarrow> ('x, 'w) topo_state \<Rightarrow> py_error option \<times> ('x, 'w) topo_state" where
  "manager_start en send now hostname s =
     (let (c, m, w) = s in
      if tm_started m then (None, s)
      else case recover_manager m of
             (Some e, m1) \<Rightarrow> (Some e, c, m1, w)
           | (None, m1) \<Rightarrow>
               let info = doc_empty\<lparr>nd_node_id := Some (tm_node_id m1), nd_host := Some hostname, nd_port := Some 50051, nd_gpu_count := Some 1,
                                    nd_tags := Some [(''role'', ''coordinator'')]\<rparr>;
                   (_, c1, m2, w1) = register_node en send now info (cluster_start c, m1, w)
               in (None, c1, m2\<lparr>tm_started := True\<rparr>, w1))"

definition manager_stop ::
    "('x, 'w) topo_env \<Rightarrow> 'x topo_payload append_transport \<Rightarrow> rat \<Rightarrow> ('x, 'w) topo_state \<Rightarrow> ('x, 'w) topo_state" where
  "manager_stop en send now s =
     (if \<not> tm_started (fst (snd s)) then s
      else case unregister_node en send now (tm_node_id (fst (snd s))) s of
             (_, c1, m1, w1) \<Rightarrow> (cluster_stop c1, m1\<lparr>tm_store := store_close (tm_store m1), tm_started := False\<rparr>, w1))"


section \<open>The table of rows\<close>

text \<open>What the manager relies on: rows are found under their key after a write, and no longer after a deletion.\<close>

locale row_table =
  fixes load :: "'s \<Rightarrow> 'k \<Rightarrow> 'r option"
    and save :: "'r \<Rightarrow> 's \<Rightarrow> 's"
    and del :: "'k \<Rightarrow> 's \<Rightarrow> 's"
    and key :: "'r \<Rightarrow> 'k"
    and ok :: "'s \<Rightarrow> bool"
  assumes load_save: "ok s \<Longrightarrow> load (save r s) = (load s)(key r \<mapsto> r)"
    and load_del: "ok s \<Longrightarrow> load (del k s) = (load s)(k := None)"
    and ok_save: "ok s \<Longrightarrow> ok (save r s)"
    and ok_del: "ok s \<Longrightarrow> ok (del k s)"
begin

text \<open>The table holds the rows of exactly the entries of a dictionary.\<close>

definition mirrors :: "('d \<Rightarrow> 'r) \<Rightarrow> ('k, 'd) dict \<Rightarrow> 's \<Rightarrow> bool" where
  "mirrors row d s \<longleftrightarrow> ok s \<and> (\<forall>k. load s k = map_option row (map_of d k))"

lemma mirrors_put: "mirrors row d s \<Longrightarrow> key (row x) = k \<Longrightarrow> mirrors row (AList.update k x d) (save (row x) s)"
  by (auto simp: mirrors_def load_save ok_save)

lemma mirrors_drop: "mirrors row d s \<Longrightarrow> mirrors row (AList.delete k d) (del k s)"
  by (auto simp: mirrors_def load_del ok_del)

lemma mirrors_absent: "mirrors row d s \<Longrightarrow> map_of d k = None \<Longrightarrow> mirrors row (AList.delete k d) s"
  by (auto simp: mirrors_def)

end

lemma find_row_filter: "find_row (filter (\<lambda>x. nr_node_id x \<noteq> k) rows) j = (if j = k then None else find_row rows j)"
  by (induction rows) (auto simp: find_row_def)

lemma find_row_snoc: "find_row (rows @ [r]) j = (case find_row rows j of None \<Rightarrow> if nr_node_id r = j then Some r else None | Some x \<Rightarrow> Some x)"
  by (induction rows) (auto simp: find_row_def)

lemma find_row_Some: "distinct (map nr_node_id rows) \<Longrightarrow> find_row rows k = Some r \<longleftrightarrow> r \<in> set rows \<and> nr_node_id r = k"
  by (induction rows) (auto simp: find_row_def)

interpretation nodes: row_table find_row put_row drop_row nr_node_id "\<lambda>rows. distinct (map nr_node_id rows)"
proof
  fix s r k
  show "find_row (put_row r s) = (find_row s)(nr_node_id r \<mapsto> r)"
    by (rule ext) (auto simp: put_row_def find_row_snoc find_row_filter split: option.splits)
  show "find_row (drop_row k s) = (find_row s)(k := None)"
    by (rule ext) (simp add: drop_row_def find_row_filter)
  assume d: "distinct (map nr_node_id s)"
  show "distinct (map nr_node_id (put_row r s))" "distinct (map nr_node_id (drop_row k s))"
    using d by (auto simp: put_row_def drop_row_def distinct_map_filter)
qed

section \<open>Memory and store agree\<close>

text \<open>A dictionary with the eight keys of a row, as \<^verbatim>\<open>register_node\<close> proposes it.\<close>

definition doc_full :: "'x node_doc \<Rightarrow> bool" where
  "doc_full d \<longleftrightarrow> nd_node_id d \<noteq> None \<and> nd_host d \<noteq> None \<and> nd_port d \<noteq> None \<and> nd_gpu_count d \<noteq> None \<and> nd_healthy d \<noteq> None
     \<and> nd_tags d \<noteq> None \<and> nd_registered_at d \<noteq> None \<and> nd_last_seen d \<noteq> None"

definition doc_core :: "'x node_doc \<Rightarrow> 'x node_doc" where
  "doc_core d = d\<lparr>nd_extra := []\<rparr>"

definition versions_ok :: "int \<Rightarrow> 's topology_store \<Rightarrow> bool" where
  "versions_ok v s \<longleftrightarrow> v = ts_sequence s \<and> map vr_version (ts_versions s) = map int [1..<Suc (length (ts_versions s))]
     \<and> ts_sequence s = int (length (ts_versions s))"

definition docs_ok :: "(string, 'x node_doc) dict \<Rightarrow> bool" where
  "docs_ok xs \<longleftrightarrow> (\<forall>(k, d) \<in> set xs. doc_full d \<and> nd_node_id d = Some k)"

definition topo_synced :: "'x topo_manager \<Rightarrow> bool" where
  "topo_synced m \<longleftrightarrow> ts_connected (tm_store m) \<and> dict_wf (tm_nodes m) \<and> nodes.mirrors (row_of 0) (tm_nodes m) (ts_nodes (tm_store m))
     \<and> docs_ok (tm_nodes m) \<and> versions_ok (tm_version m) (tm_store m)"

text \<open>Entries as the manager proposes them: joins are normalised and updates leave the identity alone.\<close>

definition entry_ok :: "'x topo_payload log_entry \<Rightarrow> bool" where
  "entry_ok e \<longleftrightarrow> (le_type e = ''node_join'' \<longrightarrow> doc_full (py_info (le_payload e)))
     \<and> (le_type e = ''node_update'' \<longrightarrow> (case py_updates (le_payload e) of None \<Rightarrow> True | Some u \<Rightarrow> nd_node_id u = None))"

definition known_type :: "'x topo_payload log_entry \<Rightarrow> bool" where
  "known_type e \<longleftrightarrow> le_type e \<in> {''node_join'', ''node_leave'', ''node_update''}"

lemma get_or_simps [simp]: "get_or d (Some x) = x" "get_or d None = d"
  by (simp_all add: get_or_def)

lemma normalise_full [simp]: "doc_full (normalise_info now d)"
  by (simp add: doc_full_def normalise_info_def)

lemma row_of_full: "doc_full d \<Longrightarrow> row_of now d = row_of 0 d"
  by (auto simp: doc_full_def row_of_def)

lemma row_of_id: "nd_node_id d = Some k \<Longrightarrow> nr_node_id (row_of now d) = k"
  by (simp add: row_of_def)

lemma doc_of_row_of: "doc_full d \<Longrightarrow> doc_of_row (row_of 0 d) = doc_core d"
  by (cases d) (auto simp: doc_full_def doc_of_row_def row_of_def doc_core_def)

lemma doc_full_update: "doc_full d \<Longrightarrow> doc_full (doc_update u d)"
  by (auto simp: doc_full_def doc_update_def override_def split: option.splits)

lemma doc_full_truthy: "doc_full d \<Longrightarrow> doc_truthy d"
  by (simp add: doc_full_def doc_truthy_def)

lemma doc_update_id: "nd_node_id u = None \<Longrightarrow> nd_node_id (doc_update u d) = nd_node_id d"
  by (simp add: doc_update_def override_def)

lemma synced_entry: "topo_synced m \<Longrightarrow> map_of (tm_nodes m) k = Some d \<Longrightarrow> doc_full d \<and> nd_node_id d = Some k"
  using map_of_SomeD by (fastforce simp: topo_synced_def docs_ok_def)

lemma docs_ok_update: "docs_ok xs \<Longrightarrow> doc_full d \<Longrightarrow> nd_node_id d = Some k \<Longrightarrow> docs_ok (AList.update k d xs)"
  unfolding docs_ok_def by (induction xs) auto

lemma docs_ok_delete: "docs_ok xs \<Longrightarrow> docs_ok (AList.delete j xs)"
  unfolding docs_ok_def by (induction xs) auto

lemma versions_ok_nodes [simp]: "versions_ok v (s\<lparr>ts_nodes := x\<rparr>) = versions_ok v s"
  by (simp add: versions_ok_def)

lemma synced_put:
  assumes "topo_synced m" and "doc_full d" and "nd_node_id d = Some k"
  shows "topo_synced (m\<lparr>tm_nodes := AList.update k d (tm_nodes m), tm_store := (tm_store m)\<lparr>ts_nodes := put_row (row_of now d) (ts_nodes (tm_store m))\<rparr>\<rparr>)"
proof -
  have "row_of now d = row_of 0 d" by (rule row_of_full [OF assms(2)])
  then show ?thesis
    using assms nodes.mirrors_put [of "row_of 0" "tm_nodes m" "ts_nodes (tm_store m)" d k]
    by (simp add: topo_synced_def row_of_id docs_ok_update)
qed

lemma synced_drop:
  assumes "topo_synced m"
  shows "topo_synced (m\<lparr>tm_nodes := AList.delete k (tm_nodes m), tm_store := (tm_store m)\<lparr>ts_nodes := drop_row k (ts_nodes (tm_store m))\<rparr>\<rparr>)"
  using assms nodes.mirrors_drop [of "row_of 0" "tm_nodes m" "ts_nodes (tm_store m)" k]
  by (simp add: topo_synced_def docs_ok_delete)

lemma apply_entry_synced:
  assumes "topo_synced m" and "entry_ok e" and "known_type e"
  shows "\<exists>m'. apply_entry now e m = (None, m') \<and> topo_synced m' \<and> tm_version m' = tm_version m \<and> tm_gossip m' = tm_gossip m"
proof -
  let ?d = "py_info (le_payload e)"
  have c: "ts_connected (tm_store m)" using assms(1) by (simp add: topo_synced_def)
  consider (join) "le_type e = ''node_join''" | (leave) "le_type e = ''node_leave''" | (upd) "le_type e = ''node_update''"
    using assms(3) by (auto simp: known_type_def)
  then show ?thesis
  proof cases
    case join
    with assms(2) obtain k where "doc_full ?d" "nd_node_id ?d = Some k" by (auto simp: entry_ok_def doc_full_def)
    with join c synced_put [OF assms(1), of ?d k] show ?thesis by (simp add: apply_entry_def save_node_def Let_def)
  next
    case leave
    let ?k = "get_or [] (nd_node_id ?d)"
    show ?thesis
    proof (cases "map_of (tm_nodes m) ?k")
      case None
      then have "topo_synced (m\<lparr>tm_nodes := AList.delete ?k (tm_nodes m)\<rparr>)"
        using assms(1) nodes.mirrors_absent [of "row_of 0" "tm_nodes m" "ts_nodes (tm_store m)" ?k] by (simp add: topo_synced_def docs_ok_delete)
      with None leave show ?thesis by (simp add: apply_entry_def Let_def)
    next
      case (Some d)
      with leave c synced_drop [OF assms(1), of ?k] synced_entry [OF assms(1) Some] doc_full_truthy [of d] show ?thesis
        by (simp add: apply_entry_def delete_node_def Let_def)
    qed
  next
    case upd
    let ?k = "get_or [] (nd_node_id ?d)" and ?u = "get_or doc_empty (py_updates (le_payload e))"
    have u: "nd_node_id ?u = None" using upd assms(2) by (auto simp: entry_ok_def doc_empty_def get_or_def split: option.splits)
    show ?thesis
    proof (cases "map_of (tm_nodes m) ?k")
      case None
      with upd assms(1) show ?thesis by (simp add: apply_entry_def Let_def)
    next
      case (Some d)
      with upd c synced_put [OF assms(1), of "doc_update ?u d" ?k] synced_entry [OF assms(1) Some] doc_full_update [of d ?u] u show ?thesis
        by (simp add: apply_entry_def save_node_def Let_def doc_update_id)
    qed
  qed
qed


lemma versions_ok_save:
  assumes "versions_ok v s" and "ts_connected s"
  shows "\<exists>s'. save_version now t term idx s = (None, s') \<and> versions_ok (v + 1) s' \<and> ts_connected s' \<and> ts_nodes s' = ts_nodes s"
  using assms by (simp add: save_version_def versions_ok_def)

lemma notify_change_version: "fst (notify_change en now c (b, w)) = b\<lparr>gb_current_version := tc_version c\<rparr>"
  by (simp add: notify_change_def Let_def)

lemma on_log_applied_synced:
  assumes "topo_synced m" and "entry_ok e"
  shows "\<exists>m' w'. on_log_applied en now leader e (m, w) = (None, m', w') \<and> topo_synced m'
     \<and> tm_version m' = tm_version m + (if known_type e then 1 else 0)"
proof (cases "known_type e")
  case False
  with assms(1) show ?thesis by (auto simp: on_log_applied_def known_type_def)
next
  case True
  from apply_entry_synced [OF assms True]
  obtain m1 where m1: "apply_entry now e m = (None, m1)" "topo_synced m1" "tm_version m1 = tm_version m" by blast
  define m2 where "m2 = m1\<lparr>tm_version := tm_version m1 + 1\<rparr>"
  have "versions_ok (tm_version m1) (tm_store m1)" "ts_connected (tm_store m1)" using m1(2) by (simp_all add: topo_synced_def)
  from versions_ok_save [OF this, of now "get_topology now leader m2" "le_term e" "le_index e"]
  obtain st where st: "save_version now (get_topology now leader m2) (le_term e) (le_index e) (tm_store m1) = (None, st)"
      "versions_ok (tm_version m1 + 1) st" "ts_connected st" "ts_nodes st = ts_nodes (tm_store m1)" by blast
  have s2: "tm_store m2 = tm_store m1" by (simp add: m2_def)
  show ?thesis
    using m1 st True
    by (auto simp: on_log_applied_def known_type_def Let_def s2 [unfolded m2_def] m2_def topo_synced_def split: prod.splits)
qed

lemma applied_all_synced:
  "topo_synced m \<Longrightarrow> \<forall>(now, e) \<in> set es. entry_ok e \<Longrightarrow>
   \<exists>m' w'. fold (\<lambda>(now, e). apply_log (on_log_applied en now leader) e) es (m, w) = (m', w') \<and> topo_synced m'
     \<and> tm_version m' = tm_version m + int (length (filter (known_type \<circ> snd) es))"
proof (induction es arbitrary: m w)
  case (Cons x es)
  obtain now e where x: "x = (now, e)" by force
  from on_log_applied_synced [OF Cons.prems(1), of e en now leader w] Cons.prems(2)
  obtain m1 w1 where "on_log_applied en now leader e (m, w) = (None, m1, w1)" "topo_synced m1"
      "tm_version m1 = tm_version m + (if known_type e then 1 else 0)" by (auto simp: x)
  with Cons.IH [of m1 w1] Cons.prems(2) show ?case by (auto simp: x apply_log_def)
qed simp

section \<open>Recovery after a restart\<close>

lemma map_of_fold_rows:
  "distinct (map nr_node_id rows) \<Longrightarrow>
   map_of (fold (\<lambda>r. AList.update (nr_node_id r) (doc_of_row r)) rows d) k
     = (case find_row rows k of None \<Rightarrow> map_of d k | Some r \<Rightarrow> Some (doc_of_row r))"
proof (induction rows arbitrary: d)
  case (Cons r rows)
  have "find_row rows (nr_node_id r) = None"
    using Cons.prems by (auto simp: find_row_def find_None_iff) (metis image_eqI)
  with Cons show ?case by (auto simp: find_row_def split: option.splits)
qed (simp add: find_row_def)

lemma wf_fold_rows:
  fixes d :: "(string, 'x node_doc) dict"
  shows "dict_wf d \<Longrightarrow> docs_ok d \<Longrightarrow>
    dict_wf (fold (\<lambda>r. AList.update (nr_node_id r) (doc_of_row r)) rows d)
    \<and> docs_ok (fold (\<lambda>r. AList.update (nr_node_id r) (doc_of_row r)) rows d)"
proof (induction rows arbitrary: d)
  case (Cons r rows)
  have "doc_full (doc_of_row r :: 'x node_doc)" "nd_node_id (doc_of_row r :: 'x node_doc) = Some (nr_node_id r)"
    by (simp_all add: doc_full_def doc_of_row_def)
  with Cons show ?case by (simp add: docs_ok_update)
qed simp

lemma distinct_sorted_rows: "distinct (map nr_node_id rows) \<Longrightarrow> distinct (map nr_node_id (sort_key nr_node_id rows))"
  by (simp add: distinct_map)

lemma find_row_sorted: "distinct (map nr_node_id rows) \<Longrightarrow> find_row (sort_key nr_node_id rows) k = find_row rows k"
proof -
  assume d: "distinct (map nr_node_id rows)"
  note d' = distinct_sorted_rows [OF d]
  have "find_row (sort_key nr_node_id rows) k = Some r \<longleftrightarrow> find_row rows k = Some r" for r
    by (simp add: find_row_Some [OF d] find_row_Some [OF d'])
  then show ?thesis by (cases "find_row rows k"; cases "find_row (sort_key nr_node_id rows) k") auto
qed

lemma latest_version:
  assumes "versions_ok v s" and "ts_connected s"
  shows "\<exists>r. load_latest_version s = Inr r \<and> (case r of None \<Rightarrow> v = 0 | Some x \<Rightarrow> vr_version x = v)"
proof -
  let ?vs = "ts_versions s"
  have m: "map vr_version ?vs = map int [1..<Suc (length ?vs)]" and v: "v = int (length ?vs)" using assms(1) by (simp_all add: versions_ok_def)
  have "sorted (map vr_version ?vs)" unfolding m by (simp add: sorted_map del: upt_Suc)
  then have s: "sort_key vr_version ?vs = ?vs" by (rule sort_key_id_if_sorted)
  show ?thesis
  proof (cases ?vs rule: rev_cases)
    case Nil
    then show ?thesis using assms(2) v by (simp add: load_latest_version_def load_all_versions_def Let_def)
  next
    case (snoc xs x)
    have "vr_version x = last (map vr_version ?vs)" by (simp add: snoc)
    also have "\<dots> = v" unfolding m v using snoc by (simp add: last_map)
    finally show ?thesis using assms(2) s snoc by (simp add: load_latest_version_def load_all_versions_def Let_def)
  qed
qed

lemma row_of_core: "row_of t (doc_core d) = row_of t d"
  by (simp add: row_of_def doc_core_def)

lemma recover_synced:
  assumes "topo_synced m"
  shows "\<exists>m'. recover_manager (manager_init nid (store_close (tm_store m))) = (None, m') \<and> topo_synced m' \<and> tm_version m' = tm_version m
     \<and> (\<forall>k. map_of (tm_nodes m') k = map_option doc_core (map_of (tm_nodes m) k))"
proof -
  let ?st = "(tm_store m)\<lparr>ts_connected := True\<rparr>" and ?rows = "ts_nodes (tm_store m)"
  have c: "ts_connected (tm_store m)" and v: "versions_ok (tm_version m) (tm_store m)"
    and mir: "distinct (map nr_node_id ?rows)" "\<And>k. find_row ?rows k = map_option (row_of 0) (map_of (tm_nodes m) k)"
    using assms by (simp_all add: topo_synced_def nodes.mirrors_def)
  from latest_version [OF v c] obtain r where r: "load_latest_version (tm_store m) = Inr r"
      "case r of None \<Rightarrow> tm_version m = 0 | Some x \<Rightarrow> vr_version x = tm_version m" by blast
  define ns where "ns = fold (\<lambda>r. AList.update (nr_node_id r) (doc_of_row r :: 'a node_doc)) (sort_key nr_node_id ?rows) []"
  define m' where "m' = (manager_init nid (tm_store m) :: 'a topo_manager)\<lparr>tm_nodes := ns, tm_version := tm_version m\<rparr>"
  have st: "store_connect (store_close (tm_store m)) = tm_store m" using c by (simp add: store_connect_def store_close_def)
  have run: "recover_manager (manager_init nid (store_close (tm_store m))) = (None, m')"
    using r c by (auto simp: recover_manager_def manager_init_def st recover_topology_def load_all_nodes_def m'_def ns_def Let_def split: option.splits)
  have srt: "distinct (map nr_node_id (sort_key nr_node_id ?rows))" by (rule distinct_sorted_rows [OF mir(1)])
  have nk: "map_of ns k = map_option doc_core (map_of (tm_nodes m) k)" for k
    using map_of_fold_rows [OF srt, of "[]" k] mir synced_entry [OF assms, of k] unfolding ns_def find_row_sorted [OF mir(1)]
    by (auto simp: doc_of_row_of split: option.splits)
  have "nodes.mirrors (row_of 0) ns ?rows" using mir nk by (auto simp: nodes.mirrors_def option.map_comp comp_def row_of_core)
  then have "topo_synced m'"
    using c v wf_fold_rows [of "[]" "sort_key nr_node_id ?rows"] by (simp add: topo_synced_def m'_def manager_init_def ns_def docs_ok_def)
  with run nk show ?thesis by (auto simp: m'_def)
qed



definition quiet_env :: "(unit, unit) topo_env" where
  "quiet_env = \<lparr>te_exchange = None, te_callback = (\<lambda>cb c w. (None, w))\<rparr>"

definition demo_entry :: "string \<Rightarrow> string \<Rightarrow> unit node_doc option \<Rightarrow> unit topo_payload log_entry" where
  "demo_entry ty nid u =
     \<lparr>le_term = 1, le_index = 1, le_type = ty,
      le_payload = \<lparr>py_info = (if ty = ''node_join'' then normalise_info 7 (doc_empty\<lparr>nd_node_id := Some nid\<rparr>) else doc_empty\<lparr>nd_node_id := Some nid\<rparr>),
                    py_updates = u\<rparr>\<rparr>"

definition demo_entries :: "(rat \<times> unit topo_payload log_entry) list" where
  "demo_entries = [(10, demo_entry ''node_join'' ''b'' None), (11, demo_entry ''node_join'' ''a'' None),
     (12, demo_entry ''node_update'' ''a'' (Some (doc_empty\<lparr>nd_gpu_count := Some 4\<rparr>))), (13, demo_entry ''node_leave'' ''b'' None), (14, demo_entry ''noop'' ''b'' None)]"

lemma fresh_synced: "topo_synced (manager_init nid (store_connect store_init))"
  by (simp add: topo_synced_def manager_init_def store_connect_def store_init_def nodes.mirrors_def find_row_def docs_ok_def versions_ok_def)


section \<open>Behaviour outside the contract\<close>

text \<open>A renaming update leaves the old row behind: after a restart the node is there twice.\<close>

definition rename_entries :: "(rat \<times> unit topo_payload log_entry) list" where
  "rename_entries = [(10, demo_entry ''node_join'' ''a'' None), (11, demo_entry ''node_update'' ''a'' (Some (doc_empty\<lparr>nd_node_id := Some ''z''\<rparr>)))]"

lemma rename_update_diverges:
  "(let m = fst (fold (\<lambda>(now, e). apply_log (on_log_applied quiet_env now None) e) rename_entries (manager_init ''n'' (store_connect store_init), ()))
    in map fst (tm_nodes m) = [''a'']
       \<and> map fst (tm_nodes (snd (recover_manager (manager_init ''n'' (store_close (tm_store m)) :: unit topo_manager)))) = [''a'', ''z''])"
  by code_simp

text \<open>The manager proposes its own registration before there can be a leader; the proposal is refused and dropped.\<close>

lemma start_registration_dropped:
  assumes "rf_role (rc_raft c) \<noteq> LEADER" and "\<not> tm_started m" and "recover_manager m = (None, m1)"
  shows "manager_start en send now host (c, m, w) = (None, cluster_start c, m1\<lparr>tm_started := True\<rparr>, w)"
  using assms by (simp add: manager_start_def register_node_def topo_propose_def propose_def cluster_start_def Let_def)

lemma fresh_cluster_follows: "rf_role (rc_raft (cluster_init nid peers b d)) \<noteq> LEADER"
  by (simp add: cluster_init_def raft_init_def set_peers_def Let_def split: option.splits)

lemma unsubscribe_drops_all: "gb_subscriptions (unsubscribe cb b) = []"
  by (simp add: unsubscribe_def)

text \<open>An update received by gossip is taken at most once, and only a newer version.\<close>

lemma receive_raises_version:
  assumes "receive_gossip_update en now msg (b, w) = (r, b', w')"
  shows "gb_current_version b \<le> gb_current_version b' \<and> (r \<noteq> None \<longrightarrow> gb_current_version b < gb_current_version b')
     \<and> receive_gossip_update en now' msg (b', w'') = (None, b', w'')"
  using assms by (auto simp: receive_gossip_update_def Let_def split: if_splits)

end
