(* ===== verification/Pbft.thy ===== *)
theory Pbft
  imports Prelude Complex_Main
begin

text \<open>
  \<^verbatim>\<open>PBFTNode\<close> of \<^verbatim>\<open>src/distllm/dist/byzantine.py\<close>: the three phases, view changes, watermarks and signatures. The code leaves the
  messages it signs in its own logs and has no transport; here an operation also returns the
  messages it has signed and the operations it has handed to the commit callback, in that order. The digest of an operation
  and the signature scheme are parameters; operations are non-empty dictionaries.
\<close>

section \<open>Data\<close>

datatype pbft_phase = PRE_PREPARE | PREPARE | COMMIT | REPLY

datatype node_status = ACTIVE | SUSPECT | FAULTY | RECOVERING

record 'o pbft_message =
  mg_phase :: pbft_phase
  mg_view :: int
  mg_sequence :: int
  mg_digest :: string
  mg_sender :: string
  mg_operation :: "'o option"
  mg_signature :: "string option"

text \<open>
  View-change and new-view messages in one record; an absent \<^verbatim>\<open>new_view\<close> or \<^verbatim>\<open>last_committed\<close> is the default 0, and the two logs
  are those of the sender (view change) or of the checkpoint (new view).
\<close>

record 'o view_message =
  vm_node_id :: "string option"
  vm_sender :: "string option"
  vm_new_view :: int
  vm_last_committed :: int
  vm_signature :: "string option"
  vm_pre_prepare_log :: "(int, 'o pbft_message) dict"
  vm_prepare_log :: "(int, 'o pbft_message list) dict"

text \<open>SHA-256 over the serialised operation, and Ed25519.\<close>

record ('o, 'k) pbft_crypto =
  pc_digest :: "'o \<Rightarrow> string"
  pc_sign :: "'k \<Rightarrow> string \<Rightarrow> string"
  pc_verify :: "'k \<Rightarrow> string \<Rightarrow> string \<Rightarrow> bool"
  pc_public :: "'k \<Rightarrow> 'k"

record ('o, 'k) pbft =
  pb_node_id :: string
  pb_node_ids :: "string list"
  pb_f :: int
  pb_signing_key :: 'k
  pb_public_keys :: "(string, 'k) dict"
  pb_view :: int
  pb_last_sequence :: int
  pb_committed :: "int list"
  pb_pre_prepare_log :: "(int, 'o pbft_message) dict"
  pb_prepare_log :: "(int, 'o pbft_message list) dict"
  pb_commit_log :: "(int, 'o pbft_message list) dict"
  pb_low_watermark :: int
  pb_watermark_window :: int
  pb_view_change_in_progress :: bool
  pb_view_change_messages :: "(int, 'o view_message list) dict"
  pb_new_view_messages :: "(int, 'o view_message) dict"
  pb_last_view_change :: rat
  pb_committed_ops :: int
  pb_node_status :: "(string, node_status) dict"

abbreviation pb_total :: "('o, 'k) pbft \<Rightarrow> int" where
  "pb_total n \<equiv> int (length (pb_node_ids n))"

definition pbft_init ::
    "('o, 'k) pbft_crypto \<Rightarrow> string \<Rightarrow> string list \<Rightarrow> int option \<Rightarrow> 'k \<Rightarrow> (string, 'k) dict \<Rightarrow> py_error + ('o, 'k) pbft" where
  "pbft_init cr nid ids f key keys =
     (if nid \<notin> set ids then Inl ValueError
      else Inr \<lparr>pb_node_id = nid, pb_node_ids = sort ids, pb_f = (case f of None \<Rightarrow> (int (length ids) - 1) div 3 | Some x \<Rightarrow> x),
                pb_signing_key = key, pb_public_keys = fold (\<lambda>(k, v). AList.update k v) keys [(nid, pc_public cr key)],
                pb_view = 0, pb_last_sequence = 0, pb_committed = [], pb_pre_prepare_log = [], pb_prepare_log = [], pb_commit_log = [],
                pb_low_watermark = 0, pb_watermark_window = 128, pb_view_change_in_progress = False, pb_view_change_messages = [],
                pb_new_view_messages = [], pb_last_view_change = 0, pb_committed_ops = 0,
                pb_node_status = fold (\<lambda>i. AList.update i ACTIVE) (sort ids) []\<rparr>)"

section \<open>Accessors, signatures and watermarks\<close>

definition pb_primary :: "('o, 'k) pbft \<Rightarrow> string" where
  "pb_primary n = pb_node_ids n ! nat (pb_view n mod pb_total n)"

definition pb_is_primary :: "('o, 'k) pbft \<Rightarrow> bool" where
  "pb_is_primary n \<longleftrightarrow> pb_node_id n = pb_primary n"

definition faulty_count :: "('o, 'k) pbft \<Rightarrow> nat" where
  "faulty_count n = length (filter (\<lambda>(i, s). s = FAULTY) (pb_node_status n))"

definition pb_quorum_size :: "('o, 'k) pbft \<Rightarrow> int" where
  "pb_quorum_size n = 2 * pb_f n + 1"

definition message_payload :: "string \<Rightarrow> int \<Rightarrow> int \<Rightarrow> string \<Rightarrow> string" where
  "message_payload sender view sequence digest = sender @ '':'' @ dec_int view @ '':'' @ dec_int sequence @ '':'' @ digest"

definition sign_message :: "('o, 'k) pbft_crypto \<Rightarrow> ('o, 'k) pbft \<Rightarrow> string \<Rightarrow> int \<Rightarrow> int \<Rightarrow> string" where
  "sign_message cr n digest view sequence = pc_sign cr (pb_signing_key n) (message_payload (pb_node_id n) view sequence digest)"

definition verify_signature :: "('o, 'k) pbft_crypto \<Rightarrow> ('o, 'k) pbft \<Rightarrow> 'o pbft_message \<Rightarrow> bool" where
  "verify_signature cr n m =
     (case mg_signature m of
        None \<Rightarrow> False
      | Some s \<Rightarrow>
          (case map_of (pb_public_keys n) (mg_sender m) of
             None \<Rightarrow> False
           | Some pub \<Rightarrow> pc_verify cr pub (message_payload (mg_sender m) (mg_view m) (mg_sequence m) (mg_digest m)) s))"

definition view_payload :: "string \<Rightarrow> string \<Rightarrow> int \<Rightarrow> int \<Rightarrow> string" where
  "view_payload kind nid new_view extra = kind @ '':'' @ nid @ '':'' @ dec_int new_view @ '':'' @ dec_int extra"

definition sign_view_message :: "('o, 'k) pbft_crypto \<Rightarrow> ('o, 'k) pbft \<Rightarrow> string \<Rightarrow> string \<Rightarrow> int \<Rightarrow> int \<Rightarrow> string" where
  "sign_view_message cr n kind nid new_view extra = pc_sign cr (pb_signing_key n) (view_payload kind nid new_view extra)"

definition verify_view_message :: "('o, 'k) pbft_crypto \<Rightarrow> ('o, 'k) pbft \<Rightarrow> string \<Rightarrow> 'o view_message \<Rightarrow> bool" where
  "verify_view_message cr n kind m =
     (let sender = (case vm_node_id m of Some s \<Rightarrow> if s = [] then vm_sender m else Some s | None \<Rightarrow> vm_sender m) in
      case (sender, vm_signature m) of
        (Some s, Some sig) \<Rightarrow>
          if s = [] \<or> sig = [] then False
          else (case map_of (pb_public_keys n) s of
                  None \<Rightarrow> False
                | Some pub \<Rightarrow> pc_verify cr pub (view_payload kind s (vm_new_view m) (if kind = ''view_change'' then vm_last_committed m else 0)) sig)
      | _ \<Rightarrow> False)"

definition register_public_key :: "string \<Rightarrow> 'k \<Rightarrow> ('o, 'k) pbft \<Rightarrow> ('o, 'k) pbft" where
  "register_public_key nid key n = n\<lparr>pb_public_keys := AList.update nid key (pb_public_keys n)\<rparr>"

definition register_public_keys :: "(string, 'k) dict \<Rightarrow> ('o, 'k) pbft \<Rightarrow> ('o, 'k) pbft" where
  "register_public_keys ks n = fold (\<lambda>(i, k). register_public_key i k) ks n"

definition check_sequence_watermark :: "int \<Rightarrow> ('o, 'k) pbft \<Rightarrow> bool" where
  "check_sequence_watermark s n \<longleftrightarrow> pb_low_watermark n \<le> s \<and> s \<le> pb_low_watermark n + pb_watermark_window n"

definition prune_below :: "int \<Rightarrow> (int, 'v) dict \<Rightarrow> (int, 'v) dict" where
  "prune_below w d = filter (\<lambda>(s, v). \<not> s < w) d"

definition advance_watermark :: "('o, 'k) pbft \<Rightarrow> ('o, 'k) pbft" where
  "advance_watermark n =
     (if pb_committed n = [] then n
      else let w = fold min (tl (pb_committed n)) (hd (pb_committed n))
           in n\<lparr>pb_pre_prepare_log := prune_below w (pb_pre_prepare_log n), pb_prepare_log := prune_below w (pb_prepare_log n),
                pb_commit_log := prune_below w (pb_commit_log n), pb_low_watermark := w\<rparr>)"

definition log_at :: "int \<Rightarrow> (int, 'o pbft_message list) dict \<Rightarrow> 'o pbft_message list" where
  "log_at s d = (case map_of d s of None \<Rightarrow> [] | Some ms \<Rightarrow> ms)"

definition log_add :: "int \<Rightarrow> 'o pbft_message \<Rightarrow> (int, 'o pbft_message list) dict \<Rightarrow> (int, 'o pbft_message list) dict" where
  "log_add s m d = AList.update s (log_at s d @ [m]) d"

definition matching_senders :: "string \<Rightarrow> 'o pbft_message list \<Rightarrow> string list" where
  "matching_senders digest ms = remdups (map mg_sender (filter (\<lambda>m. mg_digest m = digest) ms))"

section \<open>The three phases\<close>

text \<open>Results carry the messages signed and the operations handed to the callback.\<close>

type_synonym ('o, 'k) pbft_effect = "'o pbft_message list \<times> 'o list \<times> ('o, 'k) pbft"

definition try_commit_quorum :: "int \<Rightarrow> string \<Rightarrow> ('o, 'k) pbft \<Rightarrow> 'o list \<times> ('o, 'k) pbft" where
  "try_commit_quorum s digest n =
     (if int (length (matching_senders digest (log_at s (pb_commit_log n)))) \<ge> pb_quorum_size n \<and> s \<notin> set (pb_committed n)
      then let n1 = n\<lparr>pb_committed := pb_committed n @ [s], pb_committed_ops := pb_committed_ops n + 1\<rparr>;
               oper = (case map_of (pb_pre_prepare_log n) s of None \<Rightarrow> None | Some pp \<Rightarrow> mg_operation pp)
           in ((case oper of None \<Rightarrow> [] | Some x \<Rightarrow> [x]), advance_watermark n1)
      else ([], n))"

definition own_message :: "('o, 'k) pbft_crypto \<Rightarrow> pbft_phase \<Rightarrow> int \<Rightarrow> int \<Rightarrow> string \<Rightarrow> ('o, 'k) pbft \<Rightarrow> 'o pbft_message" where
  "own_message cr ph view s digest n =
     \<lparr>mg_phase = ph, mg_view = view, mg_sequence = s, mg_digest = digest, mg_sender = pb_node_id n, mg_operation = None,
      mg_signature = Some (sign_message cr n digest view s)\<rparr>"

definition try_prepare_quorum :: "('o, 'k) pbft_crypto \<Rightarrow> int \<Rightarrow> string \<Rightarrow> ('o, 'k) pbft \<Rightarrow> ('o, 'k) pbft_effect" where
  "try_prepare_quorum cr s digest n =
     (if int (length (matching_senders digest (log_at s (pb_prepare_log n)))) \<ge> pb_quorum_size n
         \<and> s \<notin> set (pb_committed n) \<and> \<not> list_ex (\<lambda>m. mg_sender m = pb_node_id n \<and> mg_phase m = COMMIT) (log_at s (pb_commit_log n))
      then let c = own_message cr COMMIT (pb_view n) s digest n;
               (ops, n1) = try_commit_quorum s digest (n\<lparr>pb_commit_log := log_add s c (pb_commit_log n)\<rparr>)
           in ([c], ops, n1)
      else ([], [], n))"

text \<open>The guards of \<^verbatim>\<open>_handle_pre_prepare\<close> before the log is consulted.\<close>

definition pre_prepare_valid :: "('o, 'k) pbft_crypto \<Rightarrow> bool \<Rightarrow> 'o pbft_message \<Rightarrow> ('o, 'k) pbft \<Rightarrow> bool" where
  "pre_prepare_valid cr from_primary m n \<longleftrightarrow> mg_phase m = PRE_PREPARE
     \<and> (from_primary \<or> verify_signature cr n m \<and> mg_sender m = pb_primary n \<and> mg_view m = pb_view n)
     \<and> check_sequence_watermark (mg_sequence m) n
     \<and> (case mg_operation m of None \<Rightarrow> True | Some x \<Rightarrow> pc_digest cr x = mg_digest m)"

definition accept_pre_prepare :: "('o, 'k) pbft_crypto \<Rightarrow> bool \<Rightarrow> 'o pbft_message \<Rightarrow> ('o, 'k) pbft \<Rightarrow> bool \<times> ('o, 'k) pbft_effect" where
  "accept_pre_prepare cr from_primary m n =
     (if \<not> pre_prepare_valid cr from_primary m n then (False, [], [], n)
      else case map_of (pb_pre_prepare_log n) (mg_sequence m) of
             Some existing \<Rightarrow> (mg_digest existing = mg_digest m, [], [], n)
           | None \<Rightarrow>
               let s = mg_sequence m;
                   p = own_message cr PREPARE (pb_view n) s (mg_digest m) n;
                   (sent, ops, n1) = try_prepare_quorum cr s (mg_digest m)
                     (n\<lparr>pb_pre_prepare_log := AList.update s m (pb_pre_prepare_log n), pb_prepare_log := log_add s p (pb_prepare_log n)\<rparr>)
               in (True, p # sent, ops, n1))"

definition handle_pre_prepare :: "('o, 'k) pbft_crypto \<Rightarrow> 'o pbft_message \<Rightarrow> ('o, 'k) pbft \<Rightarrow> bool \<times> ('o, 'k) pbft_effect" where
  "handle_pre_prepare cr m n = accept_pre_prepare cr False m n"

definition handle_request :: "('o, 'k) pbft_crypto \<Rightarrow> 'o \<Rightarrow> ('o, 'k) pbft \<Rightarrow> 'o pbft_message option \<times> ('o, 'k) pbft_effect" where
  "handle_request cr x n =
     (let digest = pc_digest cr x; s = pb_last_sequence n + 1 in
      if \<not> pb_is_primary n \<or> pb_view_change_in_progress n \<or> \<not> check_sequence_watermark s n then (None, [], [], n)
      else let m = \<lparr>mg_phase = PRE_PREPARE, mg_view = pb_view n, mg_sequence = s, mg_digest = digest, mg_sender = pb_node_id n,
                    mg_operation = Some x, mg_signature = Some (sign_message cr n digest (pb_view n) s)\<rparr>;
               (_, sent, ops, n1) = accept_pre_prepare cr True m
                 (n\<lparr>pb_last_sequence := s, pb_pre_prepare_log := AList.update s m (pb_pre_prepare_log n)\<rparr>)
           in (Some m, m # sent, ops, n1))"

definition handle_prepare :: "('o, 'k) pbft_crypto \<Rightarrow> 'o pbft_message \<Rightarrow> ('o, 'k) pbft \<Rightarrow> bool \<times> ('o, 'k) pbft_effect" where
  "handle_prepare cr m n =
     (if mg_phase m \<noteq> PREPARE \<or> mg_view m \<noteq> pb_view n then (False, [], [], n)
      else if mg_sender m = pb_node_id n then (True, [], [], n)
      else if \<not> verify_signature cr n m then (False, [], [], n)
      else case map_of (pb_pre_prepare_log n) (mg_sequence m) of
             None \<Rightarrow> (False, [], [], n)
           | Some pp \<Rightarrow>
               if mg_digest m \<noteq> mg_digest pp then (False, [], [], n)
               else if mg_sender m \<in> mg_sender ` set (log_at (mg_sequence m) (pb_prepare_log n)) then (True, [], [], n)
               else (True, try_prepare_quorum cr (mg_sequence m) (mg_digest m)
                             (n\<lparr>pb_prepare_log := log_add (mg_sequence m) m (pb_prepare_log n)\<rparr>)))"

definition handle_commit :: "('o, 'k) pbft_crypto \<Rightarrow> 'o pbft_message \<Rightarrow> ('o, 'k) pbft \<Rightarrow> bool \<times> ('o, 'k) pbft_effect" where
  "handle_commit cr m n =
     (if mg_phase m \<noteq> COMMIT \<or> mg_view m \<noteq> pb_view n then (False, [], [], n)
      else if mg_sender m \<noteq> pb_node_id n \<and> \<not> verify_signature cr n m then (False, [], [], n)
      else if int (length (matching_senders (mg_digest m) (log_at (mg_sequence m) (pb_prepare_log n)))) < pb_quorum_size n then (False, [], [], n)
      else if mg_sender m \<in> mg_sender ` set (log_at (mg_sequence m) (pb_commit_log n)) then (True, [], [], n)
      else let (ops, n1) = try_commit_quorum (mg_sequence m) (mg_digest m)
                             (n\<lparr>pb_commit_log := log_add (mg_sequence m) m (pb_commit_log n)\<rparr>)
           in (True, [], ops, n1))"

section \<open>View changes\<close>

definition max_committed :: "('o, 'k) pbft \<Rightarrow> int" where
  "max_committed n = (if pb_committed n = [] then 0 else fold max (tl (pb_committed n)) (hd (pb_committed n)))"

definition start_view_change :: "('o, 'k) pbft_crypto \<Rightarrow> rat \<Rightarrow> ('o, 'k) pbft \<Rightarrow> ('o, 'k) pbft" where
  "start_view_change cr now n =
     (if pb_view_change_in_progress n then n
      else let v = pb_view n + 1; lc = max_committed n;
               vm = \<lparr>vm_node_id = Some (pb_node_id n), vm_sender = None, vm_new_view = v, vm_last_committed = lc,
                     vm_signature = Some (sign_view_message cr n ''view_change'' (pb_node_id n) v lc),
                     vm_pre_prepare_log = filter (\<lambda>(k, x). k > pb_low_watermark n) (pb_pre_prepare_log n),
                     vm_prepare_log = filter (\<lambda>(k, x). k > pb_low_watermark n) (pb_prepare_log n)\<rparr>;
               old = (case map_of (pb_view_change_messages n) v of None \<Rightarrow> [] | Some ms \<Rightarrow> ms)
           in n\<lparr>pb_view_change_in_progress := True, pb_last_view_change := now,
                pb_view_change_messages := AList.update v (old @ [vm]) (pb_view_change_messages n)\<rparr>)"

definition set_node_status :: "string \<Rightarrow> node_status \<Rightarrow> ('o, 'k) pbft \<Rightarrow> ('o, 'k) pbft" where
  "set_node_status nid st n = n\<lparr>pb_node_status := AList.update nid st (pb_node_status n)\<rparr>"

text \<open>Replay of one pre-prepare of the checkpoint.\<close>

definition replay_one ::
    "('o, 'k) pbft_crypto \<Rightarrow> int \<Rightarrow> int \<times> 'o pbft_message \<Rightarrow> 'o pbft_message list \<times> ('o, 'k) pbft \<Rightarrow> 'o pbft_message list \<times> ('o, 'k) pbft" where
  "replay_one cr v e s =
     (let (k, pp) = e; (sent, n) = s in
      if map_of (pb_pre_prepare_log n) k \<noteq> None then s
      else let p = own_message cr PREPARE v k (mg_digest pp) n
           in (sent @ [p], n\<lparr>pb_pre_prepare_log := AList.update k (pp\<lparr>mg_view := v\<rparr>) (pb_pre_prepare_log n),
                             pb_prepare_log := log_add k p (pb_prepare_log n)\<rparr>))"

definition handle_new_view :: "('o, 'k) pbft_crypto \<Rightarrow> 'o view_message \<Rightarrow> ('o, 'k) pbft \<Rightarrow> 'o pbft_message list \<times> ('o, 'k) pbft" where
  "handle_new_view cr m n =
     (if vm_new_view m \<le> pb_view n \<or> \<not> verify_view_message cr n ''new_view'' m then ([], n)
      else let n1 = n\<lparr>pb_view := vm_new_view m, pb_view_change_in_progress := False\<rparr>
           in fold (replay_one cr (vm_new_view m)) (vm_pre_prepare_log m) ([], set_node_status (pb_primary n1) ACTIVE n1))"

text \<open>The checkpoint is that of the last message whose \<^verbatim>\<open>last_committed\<close> is the largest.\<close>

definition pick_checkpoint :: "'o view_message list \<Rightarrow> (int, 'o pbft_message) dict \<times> (int, 'o pbft_message list) dict" where
  "pick_checkpoint ms =
     (let lc = fold (\<lambda>m. max (vm_last_committed m)) (tl ms) (vm_last_committed (hd ms))
      in fold (\<lambda>m acc. if vm_last_committed m \<ge> lc then (vm_pre_prepare_log m, vm_prepare_log m) else acc) ms ([], []))"

definition broadcast_new_view ::
    "('o, 'k) pbft_crypto \<Rightarrow> int \<Rightarrow> 'o view_message list \<Rightarrow> ('o, 'k) pbft \<Rightarrow> 'o pbft_message list \<times> ('o, 'k) pbft" where
  "broadcast_new_view cr v ms n =
     (let (pps, ps) = pick_checkpoint ms;
          nv = \<lparr>vm_node_id = None, vm_sender = Some (pb_node_id n), vm_new_view = v, vm_last_committed = 0,
                vm_signature = Some (sign_view_message cr n ''new_view'' (pb_node_id n) v 0), vm_pre_prepare_log = pps, vm_prepare_log = ps\<rparr>
      in handle_new_view cr nv (n\<lparr>pb_new_view_messages := AList.update v nv (pb_new_view_messages n), pb_view := v,
                                  pb_view_change_in_progress := False\<rparr>))"

definition handle_view_change :: "('o, 'k) pbft_crypto \<Rightarrow> 'o view_message \<Rightarrow> ('o, 'k) pbft \<Rightarrow> 'o pbft_message list \<times> ('o, 'k) pbft" where
  "handle_view_change cr m n =
     (let sender = (case vm_node_id m of None \<Rightarrow> ''unknown'' | Some s \<Rightarrow> s); v = vm_new_view m in
      if sender \<notin> set (pb_node_ids n) \<or> \<not> verify_view_message cr n ''view_change'' m \<or> v \<le> pb_view n then ([], n)
      else let ms = (case map_of (pb_view_change_messages n) v of None \<Rightarrow> [] | Some xs \<Rightarrow> xs) @ [m];
               n1 = n\<lparr>pb_view_change_messages := AList.update v ms (pb_view_change_messages n)\<rparr>
           in if int (length ms) \<ge> pb_quorum_size n \<and> pb_node_id n = pb_node_ids n ! nat (v mod pb_total n)
              then broadcast_new_view cr v ms n1 else ([], n1))"

definition suspect_primary :: "('o, 'k) pbft_crypto \<Rightarrow> rat \<Rightarrow> ('o, 'k) pbft \<Rightarrow> ('o, 'k) pbft" where
  "suspect_primary cr now n =
     (if pb_primary n = pb_node_id n then n else start_view_change cr now (set_node_status (pb_primary n) SUSPECT n))"

definition recover_node :: "string \<Rightarrow> ('o, 'k) pbft \<Rightarrow> ('o, 'k) pbft" where
  "recover_node nid n = (if map_of (pb_node_status n) nid \<noteq> None then set_node_status nid ACTIVE n else n)"

definition mark_faulty :: "string \<Rightarrow> ('o, 'k) pbft \<Rightarrow> ('o, 'k) pbft" where
  "mark_faulty nid n = (if map_of (pb_node_status n) nid \<noteq> None then set_node_status nid FAULTY n else n)"

definition get_committed_operations :: "('o, 'k) pbft \<Rightarrow> (int \<times> 'o) list" where
  "get_committed_operations n =
     concat (map (\<lambda>s. case map_of (pb_pre_prepare_log n) s of
                        None \<Rightarrow> [] | Some pp \<Rightarrow> (case mg_operation pp of None \<Rightarrow> [] | Some x \<Rightarrow> [(s, x)]))
             (sort (pb_committed n)))"

end
