(* ===== verification/PbftSafety.thy ===== *)
theory PbftSafety
  imports Pbft
begin

text \<open>
  Agreement of \<^verbatim>\<open>PBFTNode\<close>s within a view. Honest nodes run the handlers of \<^verbatim>\<open>dist/byzantine.py\<close>; everything else, the order and
  loss of messages and the messages themselves, is up to the adversary, who cannot sign for an honest node. The invariant
  speaks of one node and the history of signed messages, is kept by every handler, and with the intersection of quorums gives
  agreement when the cluster has exactly \<open>3 f + 1\<close> members.
\<close>

section \<open>Runs of a cluster\<close>

datatype 'o pbft_event =
    ClientRequest string 'o
  | PrePrepareMsg string "'o pbft_message"
  | PrepareMsg string "'o pbft_message"
  | CommitMsg string "'o pbft_message"

fun receiver :: "'o pbft_event \<Rightarrow> string" where
  "receiver (ClientRequest i x) = i"
| "receiver (PrePrepareMsg i m) = i"
| "receiver (PrepareMsg i m) = i"
| "receiver (CommitMsg i m) = i"

fun event_message :: "'o pbft_event \<Rightarrow> 'o pbft_message option" where
  "event_message (ClientRequest i x) = None"
| "event_message (PrePrepareMsg i m) = Some m"
| "event_message (PrepareMsg i m) = Some m"
| "event_message (CommitMsg i m) = Some m"

fun pbft_handle :: "('o, 'k) pbft_crypto \<Rightarrow> 'o pbft_event \<Rightarrow> ('o, 'k) pbft \<Rightarrow> ('o, 'k) pbft_effect" where
  "pbft_handle cr (ClientRequest i x) n = snd (handle_request cr x n)"
| "pbft_handle cr (PrePrepareMsg i m) n = snd (handle_pre_prepare cr m n)"
| "pbft_handle cr (PrepareMsg i m) n = snd (handle_prepare cr m n)"
| "pbft_handle cr (CommitMsg i m) n = snd (handle_commit cr m n)"

record ('o, 'k) pbft_net =
  pw_nodes :: "string \<Rightarrow> ('o, 'k) pbft"
  pw_sent :: "'o pbft_message list"

definition pbft_exec :: "('o, 'k) pbft_crypto \<Rightarrow> 'o pbft_event \<Rightarrow> ('o, 'k) pbft_net \<Rightarrow> ('o, 'k) pbft_net" where
  "pbft_exec cr ev w =
     (case pbft_handle cr ev (pw_nodes w (receiver ev)) of
        (sent, ops, n) \<Rightarrow> w\<lparr>pw_nodes := (pw_nodes w)(receiver ev := n), pw_sent := pw_sent w @ sent\<rparr>)"

definition payload_of :: "'o pbft_message \<Rightarrow> string" where
  "payload_of m = message_payload (mg_sender m) (mg_view m) (mg_sequence m) (mg_digest m)"

text \<open>Signatures of honest nodes cannot be forged: what verifies as theirs has been signed by them, under whatever phase.\<close>

definition authentic :: "('o, 'k) pbft_crypto \<Rightarrow> string set \<Rightarrow> 'o pbft_event \<Rightarrow> ('o, 'k) pbft_net \<Rightarrow> bool" where
  "authentic cr H ev w \<longleftrightarrow>
     (case event_message ev of
        None \<Rightarrow> True
      | Some m \<Rightarrow> verify_signature cr (pw_nodes w (receiver ev)) m \<longrightarrow> mg_sender m \<in> H \<longrightarrow>
                    (\<exists>m' \<in> set (pw_sent w). mg_sender m' = mg_sender m \<and> payload_of m' = payload_of m))"

inductive pbft_reach :: "('o, 'k) pbft_crypto \<Rightarrow> string set \<Rightarrow> ('o, 'k) pbft_net \<Rightarrow> ('o, 'k) pbft_net \<Rightarrow> bool"
  for cr :: "('o, 'k) pbft_crypto" and H :: "string set" and w0 :: "('o, 'k) pbft_net"
  where
  start: "pbft_reach cr H w0 w0"
| event: "pbft_reach cr H w0 w \<Longrightarrow> receiver ev \<in> H \<Longrightarrow> authentic cr H ev w \<Longrightarrow> pbft_reach cr H w0 (pbft_exec cr ev w)"

text \<open>A cluster at its start: all honest nodes know the same members, and keys of members only.\<close>

definition pbft_started :: "('o, 'k) pbft_crypto \<Rightarrow> string list \<Rightarrow> int \<Rightarrow> string set \<Rightarrow> ('o, 'k) pbft_net \<Rightarrow> bool" where
  "pbft_started cr ids f H w \<longleftrightarrow> pw_sent w = [] \<and> H \<subseteq> set ids
     \<and> (\<forall>i \<in> H. \<exists>key keys. fst ` set keys \<subseteq> set ids \<and> pbft_init cr i ids (Some f) key keys = Inr (pw_nodes w i))"

section \<open>The invariant of a node\<close>

definition signed :: "'o pbft_message set \<Rightarrow> string \<Rightarrow> int \<Rightarrow> int \<Rightarrow> string \<Rightarrow> bool" where
  "signed G i v s d \<longleftrightarrow> (\<exists>m \<in> G. mg_sender m = i \<and> mg_view m = v \<and> mg_sequence m = s \<and> mg_digest m = d)"

definition vote_ok :: "string set \<Rightarrow> string set \<Rightarrow> 'o pbft_message set \<Rightarrow> int \<Rightarrow> int \<Rightarrow> string \<Rightarrow> 'o pbft_message \<Rightarrow> bool" where
  "vote_ok ids H G v s d m \<longleftrightarrow> mg_digest m = d \<and> mg_sender m \<in> ids \<and> (mg_sender m \<in> H \<longrightarrow> signed G (mg_sender m) v s d)"

definition static_ok :: "string list \<Rightarrow> int \<Rightarrow> int \<Rightarrow> ('o, 'k) pbft \<Rightarrow> bool" where
  "static_ok ids f v n \<longleftrightarrow> 0 \<le> f \<and> pb_node_ids n = ids \<and> pb_f n = f \<and> pb_view n = v \<and> fst ` set (pb_public_keys n) \<subseteq> set ids \<and> pb_node_id n \<in> set ids"

definition low_mark :: "int list \<Rightarrow> int" where
  "low_mark cs = (if cs = [] then 0 else Min (set cs))"

definition water_ok :: "('o, 'k) pbft \<Rightarrow> bool" where
  "water_ok n \<longleftrightarrow> pb_low_watermark n = low_mark (pb_committed n)
     \<and> (\<forall>s. map_of (pb_pre_prepare_log n) s \<noteq> None \<longrightarrow> pb_low_watermark n \<le> s)
     \<and> (\<forall>s. map_of (pb_prepare_log n) s \<noteq> None \<longrightarrow> map_of (pb_pre_prepare_log n) s \<noteq> None)"

definition votes_ok :: "string list \<Rightarrow> string set \<Rightarrow> 'o pbft_message set \<Rightarrow> ('o, 'k) pbft \<Rightarrow> bool" where
  "votes_ok ids H G n \<longleftrightarrow> (\<forall>s pp m. map_of (pb_pre_prepare_log n) s = Some pp \<longrightarrow> m \<in> set (log_at s (pb_prepare_log n)) \<longrightarrow>
     vote_ok (set ids) H G (pb_view n) s (mg_digest pp) m)"

definition decided_ok :: "('o, 'k) pbft \<Rightarrow> bool" where
  "decided_ok n \<longleftrightarrow> (\<forall>s \<in> set (pb_committed n). map_of (pb_pre_prepare_log n) s \<noteq> None
     \<and> pb_quorum_size n \<le> int (card (mg_sender ` set (log_at s (pb_prepare_log n)))))"

definition own_ok :: "'o pbft_message set \<Rightarrow> ('o, 'k) pbft \<Rightarrow> bool" where
  "own_ok G n \<longleftrightarrow>
     (\<forall>m \<in> G. mg_sender m = pb_node_id n \<longrightarrow> mg_view m = pb_view n
        \<and> ((\<exists>pp. map_of (pb_pre_prepare_log n) (mg_sequence m) = Some pp \<and> mg_digest pp = mg_digest m) \<or> mg_sequence m < pb_low_watermark n))"

definition unique_ok :: "'o pbft_message set \<Rightarrow> string \<Rightarrow> bool" where
  "unique_ok G i \<longleftrightarrow> (\<forall>m \<in> G. \<forall>m' \<in> G. mg_sender m = i \<longrightarrow> mg_sender m' = i \<longrightarrow> mg_sequence m = mg_sequence m' \<longrightarrow> mg_digest m = mg_digest m')"

definition lead_ok :: "'o pbft_message set \<Rightarrow> ('o, 'k) pbft \<Rightarrow> bool" where
  "lead_ok G n \<longleftrightarrow> (pb_is_primary n \<longrightarrow> (\<forall>s. map_of (pb_pre_prepare_log n) s \<noteq> None \<longrightarrow> s \<le> pb_last_sequence n)
     \<and> (\<forall>m \<in> G. mg_sender m = pb_node_id n \<longrightarrow> mg_sequence m \<le> pb_last_sequence n))"

definition pbft_node_ok :: "string list \<Rightarrow> int \<Rightarrow> int \<Rightarrow> string set \<Rightarrow> 'o pbft_message set \<Rightarrow> ('o, 'k) pbft \<Rightarrow> bool" where
  "pbft_node_ok ids f v H G n \<longleftrightarrow> static_ok ids f v n \<and> water_ok n \<and> votes_ok ids H G n \<and> decided_ok n \<and> own_ok G n
     \<and> unique_ok G (pb_node_id n) \<and> lead_ok G n"

lemma node_okI:
  "static_ok ids f v n \<Longrightarrow> water_ok n \<Longrightarrow> votes_ok ids H G n \<Longrightarrow> decided_ok n \<Longrightarrow> own_ok G n \<Longrightarrow> unique_ok G (pb_node_id n) \<Longrightarrow> lead_ok G n
   \<Longrightarrow> pbft_node_ok ids f v H G n"
  by (simp add: pbft_node_ok_def)

lemma node_okD:
  assumes "pbft_node_ok ids f v H G n"
  shows "static_ok ids f v n" "water_ok n" "votes_ok ids H G n" "decided_ok n" "own_ok G n" "unique_ok G (pb_node_id n)" "lead_ok G n"
  using assms by (simp_all add: pbft_node_ok_def)

lemma message_payload_inj:
  "message_payload i v s d = message_payload i v' s' d' \<Longrightarrow> v = v' \<and> s = s' \<and> d = d'"
proof -
  assume "message_payload i v s d = message_payload i v' s' d'"
  then have e: "dec_int v @ CHR '':'' # (dec_int s @ CHR '':'' # d) = dec_int v' @ CHR '':'' # (dec_int s' @ CHR '':'' # d')"
    by (simp add: message_payload_def)
  have "dec_int v = dec_int v'" and e2: "dec_int s @ CHR '':'' # d = dec_int s' @ CHR '':'' # d'" using field_split [OF _ _ e] by simp_all
  moreover have "dec_int s = dec_int s'" "d = d'" using field_split [OF _ _ e2] by simp_all
  ultimately show ?thesis using dec_int_inj by blast
qed

lemma length_matching: "int (length (matching_senders d ms)) \<le> int (card (mg_sender ` set ms))"
proof -
  have "length (matching_senders d ms) = card (mg_sender ` set (filter (\<lambda>m. mg_digest m = d) ms))"
    by (simp add: matching_senders_def length_remdups_card_conv)
  also have "\<dots> \<le> card (mg_sender ` set ms)" by (intro card_mono) auto
  finally show ?thesis by simp
qed

lemma fold_min_Min: "fold min xs (x :: int) = Min (insert x (set xs))"
  using Min.set_eq_fold [of x xs] by simp

lemma log_at_add [simp]: "log_at s (log_add t m d) = (if s = t then log_at s d @ [m] else log_at s d)"
  by (auto simp: log_at_def log_add_def)

lemma map_of_log_add [simp]: "map_of (log_add t m d) s = (if s = t then Some (log_at t d @ [m]) else map_of d s)"
  by (simp add: log_add_def)

lemma map_of_prune [simp]: "map_of (prune_below w d) s = (if s < w then None else map_of d s)"
  unfolding prune_below_def by (induction d) auto

lemma log_at_prune [simp]: "log_at s (prune_below w d) = (if s < w then [] else log_at s d)"
  by (simp add: log_at_def)

section \<open>The handlers keep it\<close>

text \<open>The commit log plays no part in the invariant.\<close>

lemmas pbft_frame_defs = static_ok_def water_ok_def votes_ok_def decided_ok_def own_ok_def lead_ok_def pb_quorum_size_def pb_is_primary_def pb_primary_def

lemma node_ok_commit_log [simp]:
  "pbft_node_ok ids f v H G (n\<lparr>pb_commit_log := c\<rparr>) = pbft_node_ok ids f v H G n"
  "pbft_node_ok ids f v H G (n\<lparr>pb_committed_ops := k\<rparr>) = pbft_node_ok ids f v H G n"
  unfolding pbft_node_ok_def by (simp_all add: pbft_frame_defs)

lemma advance_watermark_low:
  assumes "pb_committed n \<noteq> []" and "water_ok n" and "s \<notin> set (pb_committed n)" and "pb_low_watermark n \<le> s"
  shows "advance_watermark (n\<lparr>pb_committed := pb_committed n @ [s]\<rparr>)
     = n\<lparr>pb_committed := pb_committed n @ [s],
         pb_pre_prepare_log := prune_below (pb_low_watermark n) (pb_pre_prepare_log n),
         pb_prepare_log := prune_below (pb_low_watermark n) (pb_prepare_log n),
         pb_commit_log := prune_below (pb_low_watermark n) (pb_commit_log n)\<rparr>"
proof -
  have m: "pb_low_watermark n = Min (set (pb_committed n))" using assms(1,2) by (simp add: water_ok_def low_mark_def)
  have "fold min (tl (pb_committed n) @ [s]) (hd (pb_committed n)) = min s (Min (set (pb_committed n)))"
    using assms(1) by (cases "pb_committed n") (simp_all add: fold_min_Min)
  then have "fold min (tl (pb_committed n @ [s])) (hd (pb_committed n @ [s])) = pb_low_watermark n"
    using assms(1,4) m by (cases "pb_committed n") simp_all
  then show ?thesis using assms(1) by (simp add: advance_watermark_def Let_def)
qed

lemma committed_node_ok:
  assumes "pbft_node_ok ids f v H G n" and "map_of (pb_pre_prepare_log n) s \<noteq> None"
    and "pb_quorum_size n \<le> int (card (mg_sender ` set (log_at s (pb_prepare_log n))))" and "s \<notin> set (pb_committed n)"
  shows "pbft_node_ok ids f v H G (advance_watermark (n\<lparr>pb_committed := pb_committed n @ [s]\<rparr>))"
proof -
  have low: "pb_low_watermark n \<le> s" using assms(1,2) by (auto simp: pbft_node_ok_def water_ok_def)
  show ?thesis
  proof (cases "pb_committed n = []")
    case True
    let ?n = "advance_watermark (n\<lparr>pb_committed := pb_committed n @ [s]\<rparr>)"
    have n': "?n = n\<lparr>pb_committed := [s], pb_pre_prepare_log := prune_below s (pb_pre_prepare_log n),
        pb_prepare_log := prune_below s (pb_prepare_log n), pb_commit_log := prune_below s (pb_commit_log n), pb_low_watermark := s\<rparr>"
      using True by (simp add: advance_watermark_def)
    note ok = node_okD [OF assms(1)]
    show ?thesis
    proof (rule node_okI)
      show "static_ok ids f v ?n" using ok(1) by (simp add: n' static_ok_def)
      show "water_ok ?n" using ok(2) by (auto simp: n' water_ok_def low_mark_def)
      show "votes_ok ids H G ?n" using ok(3) by (auto simp: n' votes_ok_def)
      show "decided_ok ?n" using assms(2,3) by (simp add: n' decided_ok_def pb_quorum_size_def)
      show "own_ok G ?n" using ok(5) low by (auto simp: n' own_ok_def)
      show "unique_ok G (pb_node_id ?n)" using ok(6) by (simp add: n')
      show "lead_ok G ?n" using ok(7) by (auto simp: n' lead_ok_def pb_is_primary_def pb_primary_def)
    qed
  next
    case False
    let ?n = "n\<lparr>pb_committed := pb_committed n @ [s]\<rparr>"
    note ok = node_okD [OF assms(1)]
    note w = ok(2)
    have none: "map_of (pb_pre_prepare_log n) t = None" "map_of (pb_prepare_log n) t = None" if "t < pb_low_watermark n" for t
      using w that unfolding water_ok_def by (metis not_le)+
    have keep: "map_of (prune_below (pb_low_watermark n) (pb_pre_prepare_log n)) t = map_of (pb_pre_prepare_log n) t"
      "map_of (prune_below (pb_low_watermark n) (pb_prepare_log n)) t = map_of (pb_prepare_log n) t"
      "log_at t (prune_below (pb_low_watermark n) (pb_prepare_log n)) = log_at t (pb_prepare_log n)" for t
      using none by (auto simp: log_at_def)
    have mn: "low_mark (pb_committed n @ [s]) = pb_low_watermark n" using w False low by (simp add: water_ok_def low_mark_def)
    show ?thesis
      unfolding advance_watermark_low [OF False w assms(4) low]
    proof (rule node_okI, goal_cases)
      case 1 show ?case using ok(1) by (simp add: static_ok_def)
      have "\<forall>s. map_of (pb_pre_prepare_log n) s \<noteq> None \<longrightarrow> pb_low_watermark n \<le> s"
        "\<forall>s. map_of (pb_prepare_log n) s \<noteq> None \<longrightarrow> map_of (pb_pre_prepare_log n) s \<noteq> None" using w unfolding water_ok_def by blast+
      with mn have "water_ok (n\<lparr>pb_committed := pb_committed n @ [s],
         pb_pre_prepare_log := prune_below (pb_low_watermark n) (pb_pre_prepare_log n),
         pb_prepare_log := prune_below (pb_low_watermark n) (pb_prepare_log n),
         pb_commit_log := prune_below (pb_low_watermark n) (pb_commit_log n)\<rparr>)"
        by (simp add: water_ok_def keep del: map_of_prune)
      case 2 show ?case by fact
      case 3 show ?case using ok(3) by (simp add: votes_ok_def keep del: map_of_prune log_at_prune)
      case 4 show ?case using ok(4) assms(2,3) by (simp add: decided_ok_def pb_quorum_size_def keep del: map_of_prune log_at_prune)
      case 5 show ?case using ok(5) by (simp add: own_ok_def keep del: map_of_prune)
      case 6 show ?case using ok(6) by simp
      case 7 show ?case using ok(7) by (simp add: lead_ok_def pb_is_primary_def pb_primary_def keep del: map_of_prune)
    qed
  qed
qed

lemma try_commit_node_ok:
  assumes "pbft_node_ok ids f v H G n" and "map_of (pb_pre_prepare_log n) s \<noteq> None"
    and "pb_quorum_size n \<le> int (card (mg_sender ` set (log_at s (pb_prepare_log n))))"
  shows "pbft_node_ok ids f v H G (snd (try_commit_quorum s d n))"
proof -
  have "pbft_node_ok ids f v H G (advance_watermark (n\<lparr>pb_committed := pb_committed n @ [s], pb_committed_ops := k\<rparr>))"
    if "s \<notin> set (pb_committed n)" for k
  proof -
    let ?n = "n\<lparr>pb_committed_ops := k\<rparr>"
    have "pbft_node_ok ids f v H G ?n" using assms(1) by simp
    then have "pbft_node_ok ids f v H G (advance_watermark (?n\<lparr>pb_committed := pb_committed ?n @ [s]\<rparr>))"
      by (rule committed_node_ok) (use assms(2,3) that in \<open>simp_all add: pb_quorum_size_def\<close>)
    moreover have "?n\<lparr>pb_committed := pb_committed ?n @ [s]\<rparr> = n\<lparr>pb_committed := pb_committed n @ [s], pb_committed_ops := k\<rparr>" by simp
    ultimately show ?thesis by metis
  qed
  then show ?thesis using assms(1) by (simp add: try_commit_quorum_def Let_def)
qed


lemma signed_mono: "signed G i v s d \<Longrightarrow> G \<subseteq> G' \<Longrightarrow> signed G' i v s d"
  by (auto simp: signed_def)

lemma votes_ok_mono: "votes_ok ids H G n \<Longrightarrow> G \<subseteq> G' \<Longrightarrow> votes_ok ids H G' n"
  unfolding votes_ok_def vote_ok_def using signed_mono by blast

text \<open>What others sign does not matter to a node.\<close>

lemma node_ok_others:
  assumes "pbft_node_ok ids f v H G n" and "\<And>m. m \<in> X \<Longrightarrow> mg_sender m \<noteq> pb_node_id n"
  shows "pbft_node_ok ids f v H (G \<union> X) n"
proof (rule node_okI)
  note ok = node_okD [OF assms(1)]
  show "static_ok ids f v n" "water_ok n" "decided_ok n" by (rule ok)+
  show "votes_ok ids H (G \<union> X) n" using ok(3) by (rule votes_ok_mono) simp
  show "own_ok (G \<union> X) n" using ok(5) assms(2) by (auto simp: own_ok_def)
  show "unique_ok (G \<union> X) (pb_node_id n)" using ok(6) assms(2) by (auto simp: unique_ok_def)
  show "lead_ok (G \<union> X) n" using ok(7) assms(2) by (auto simp: lead_ok_def)
qed

text \<open>A node signs what it has accepted.\<close>

lemma node_ok_sign:
  assumes "pbft_node_ok ids f v H G n" and "map_of (pb_pre_prepare_log n) (mg_sequence m) = Some pp" and "mg_digest pp = mg_digest m"
    and "mg_view m = pb_view n" and "mg_sender m = pb_node_id n"
  shows "pbft_node_ok ids f v H (insert m G) n"
proof (rule node_okI)
  note ok = node_okD [OF assms(1)]
  have low: "pb_low_watermark n \<le> mg_sequence m" using ok(2) assms(2) by (auto simp: water_ok_def)
  show "static_ok ids f v n" "water_ok n" "decided_ok n" by (rule ok)+
  show "votes_ok ids H (insert m G) n" using ok(3) by (rule votes_ok_mono) auto
  show "own_ok (insert m G) n" using ok(5) assms(2-5) by (auto simp: own_ok_def)
  have "mg_digest x = mg_digest m" if "x \<in> G" "mg_sender x = pb_node_id n" "mg_sequence x = mg_sequence m" for x
    using ok(5) that low assms(2,3) unfolding own_ok_def by fastforce
  then show "unique_ok (insert m G) (pb_node_id n)" using ok(6) unfolding unique_ok_def by (metis insert_iff)
  show "lead_ok (insert m G) n" using ok(7) assms(2) by (auto simp: lead_ok_def)
qed

lemma own_message_simps [simp]:
  "mg_phase (own_message cr ph vw s d n) = ph" "mg_view (own_message cr ph vw s d n) = vw" "mg_sequence (own_message cr ph vw s d n) = s"
  "mg_digest (own_message cr ph vw s d n) = d" "mg_sender (own_message cr ph vw s d n) = pb_node_id n" "mg_operation (own_message cr ph vw s d n) = None"
  by (simp_all add: own_message_def)

lemma try_prepare_node_ok:
  assumes "pbft_node_ok ids f v H G n" and "map_of (pb_pre_prepare_log n) s = Some pp" and "mg_digest pp = d"
    and "try_prepare_quorum cr s d n = (sent, ops, n')"
  shows "pbft_node_ok ids f v H (G \<union> set sent) n' \<and> (\<forall>m \<in> set sent. mg_sender m = pb_node_id n)"
proof (cases "sent = []")
  case True
  with assms(1,4) show ?thesis by (auto simp: try_prepare_quorum_def Let_def split: if_splits prod.splits)
next
  case False
  let ?c = "own_message cr COMMIT (pb_view n) s d n"
  let ?n = "n\<lparr>pb_commit_log := log_add s ?c (pb_commit_log n)\<rparr>"
  have q: "int (length (matching_senders d (log_at s (pb_prepare_log n)))) \<ge> pb_quorum_size n" and sent: "sent = [?c]"
    and n': "n' = snd (try_commit_quorum s d ?n)"
    using assms(4) False by (auto simp: try_prepare_quorum_def Let_def split: if_splits prod.splits)
  have "pbft_node_ok ids f v H (insert ?c G) ?n" using node_ok_sign [OF assms(1), of ?c pp] assms(2,3) by simp
  then have "pbft_node_ok ids f v H (insert ?c G) n'"
    unfolding n' by (rule try_commit_node_ok) (use assms(2) q length_matching [of d "log_at s (pb_prepare_log n)"] in \<open>auto simp: pb_quorum_size_def\<close>)
  then show ?thesis by (simp add: sent)
qed

text \<open>A vote that matches the accepted pre-prepare is added.\<close>

lemma node_ok_vote:
  assumes "pbft_node_ok ids f v H G n" and "map_of (pb_pre_prepare_log n) s = Some pp" and "vote_ok (set ids) H G (pb_view n) s (mg_digest pp) m"
  shows "pbft_node_ok ids f v H G (n\<lparr>pb_prepare_log := log_add s m (pb_prepare_log n)\<rparr>)" (is "pbft_node_ok _ _ _ _ _ ?n")
proof (rule node_okI)
  note ok = node_okD [OF assms(1)]
  show "static_ok ids f v ?n" using ok(1) by (simp add: static_ok_def)
  show "water_ok ?n" using ok(2) assms(2) by (auto simp: water_ok_def)
  show "votes_ok ids H G ?n" using ok(3) assms(2,3) by (auto simp: votes_ok_def split: if_splits)
  have "card (mg_sender ` set (log_at s (pb_prepare_log n))) \<le> card (insert (mg_sender m) (mg_sender ` set (log_at s (pb_prepare_log n))))"
    by (intro card_mono) auto
  then show "decided_ok ?n" using ok(4) by (auto simp: decided_ok_def pb_quorum_size_def)
  show "own_ok G ?n" using ok(5) by (simp add: own_ok_def)
  show "unique_ok G (pb_node_id ?n)" using ok(6) by simp
  show "lead_ok G ?n" using ok(7) by (simp add: lead_ok_def pb_is_primary_def pb_primary_def)
qed

text \<open>A pre-prepare at a fresh sequence number, for which the node has signed nothing.\<close>

lemma node_ok_pre_prepare:
  assumes "pbft_node_ok ids f v H G n" and "map_of (pb_pre_prepare_log n) s = None" and "pb_low_watermark n \<le> s"
    and "pb_is_primary n \<Longrightarrow> s \<le> last'" and "pb_last_sequence n \<le> last'"
  shows "pbft_node_ok ids f v H G (n\<lparr>pb_last_sequence := last', pb_pre_prepare_log := AList.update s pp (pb_pre_prepare_log n)\<rparr>)"
    (is "pbft_node_ok _ _ _ _ _ ?n")
proof (rule node_okI)
  note ok = node_okD [OF assms(1)]
  have none: "map_of (pb_prepare_log n) s = None" using ok(2) assms(2) unfolding water_ok_def by blast
  have own: "mg_sequence m \<noteq> s" if "m \<in> G" "mg_sender m = pb_node_id n" for m
    using ok(5) that assms(2,3) unfolding own_ok_def by fastforce
  show "static_ok ids f v ?n" using ok(1) by (simp add: static_ok_def)
  show "water_ok ?n" using ok(2) assms(3) unfolding water_ok_def by auto
  show "votes_ok ids H G ?n" using ok(3) none by (auto simp: votes_ok_def log_at_def split: if_splits)
  show "decided_ok ?n" using ok(4) by (auto simp: decided_ok_def pb_quorum_size_def)
  show "own_ok G ?n" using ok(5) own by (fastforce simp: own_ok_def)
  show "unique_ok G (pb_node_id ?n)" using ok(6) by simp
  show "lead_ok G ?n" using ok(7) assms(4,5) by (fastforce simp: lead_ok_def pb_is_primary_def pb_primary_def)
qed


lemma verified_vote:
  assumes "verify_signature cr n m" and "static_ok ids f v n" and "mg_view m = pb_view n" and "mg_digest m = d"
    and "mg_sender m \<in> H \<longrightarrow> (\<exists>m' \<in> G. mg_sender m' = mg_sender m \<and> payload_of m' = payload_of m)"
  shows "vote_ok (set ids) H G (pb_view n) (mg_sequence m) d m"
proof -
  have "mg_sender m \<in> fst ` set (pb_public_keys n)"
    using assms(1) by (auto simp: verify_signature_def split: option.splits dest: map_of_SomeD intro: rev_image_eqI)
  then have "mg_sender m \<in> set ids" using assms(2) by (auto simp: static_ok_def)
  moreover have "signed G (mg_sender m) (pb_view n) (mg_sequence m) d" if "mg_sender m \<in> H"
  proof -
    obtain m' where m': "m' \<in> G" "mg_sender m' = mg_sender m" "payload_of m' = payload_of m" using assms(5) \<open>mg_sender m \<in> H\<close> by blast
    then have "mg_view m' = mg_view m \<and> mg_sequence m' = mg_sequence m \<and> mg_digest m' = mg_digest m"
      using message_payload_inj [of "mg_sender m" "mg_view m'" "mg_sequence m'" "mg_digest m'" "mg_view m" "mg_sequence m" "mg_digest m"]
      by (simp add: payload_of_def)
    with m' assms(3,4) show ?thesis by (auto simp: signed_def)
  qed
  ultimately show ?thesis using assms(4) by (simp add: vote_ok_def)
qed

text \<open>The condition of \<^const>\<open>authentic\<close> at one node, over the set of signed messages.\<close>

definition auth_at :: "('o, 'k) pbft_crypto \<Rightarrow> string set \<Rightarrow> 'o pbft_message set \<Rightarrow> 'o pbft_message \<Rightarrow> ('o, 'k) pbft \<Rightarrow> bool" where
  "auth_at cr H G m n \<longleftrightarrow> (verify_signature cr n m \<longrightarrow> mg_sender m \<in> H \<longrightarrow> (\<exists>m' \<in> G. mg_sender m' = mg_sender m \<and> payload_of m' = payload_of m))"

lemma handle_prepare_ok:
  assumes "pbft_node_ok ids f v H G n" and "auth_at cr H G m n" and "handle_prepare cr m n = (r, sent, ops, n')"
  shows "pbft_node_ok ids f v H (G \<union> set sent) n' \<and> (\<forall>x \<in> set sent. mg_sender x = pb_node_id n)"
proof (cases "n' = n \<and> sent = []")
  case True
  with assms(1) show ?thesis by simp
next
  case False
  let ?n = "n\<lparr>pb_prepare_log := log_add (mg_sequence m) m (pb_prepare_log n)\<rparr>"
  obtain pp where pp: "mg_view m = pb_view n" "verify_signature cr n m" "map_of (pb_pre_prepare_log n) (mg_sequence m) = Some pp"
      "mg_digest m = mg_digest pp" "try_prepare_quorum cr (mg_sequence m) (mg_digest m) ?n = (sent, ops, n')"
    using assms(3) False by (auto simp: handle_prepare_def split: if_splits option.splits)
  have "vote_ok (set ids) H G (pb_view n) (mg_sequence m) (mg_digest pp) m"
    using pp(1,4) assms(2) by (intro verified_vote [OF pp(2) node_okD(1) [OF assms(1)]]) (auto simp: auth_at_def pp(2))
  then have "pbft_node_ok ids f v H G ?n" by (rule node_ok_vote [OF assms(1) pp(3)])
  from try_prepare_node_ok [OF this _ _ pp(5)] show ?thesis using pp(3,4) by simp
qed

lemma handle_commit_ok:
  assumes "pbft_node_ok ids f v H G n" and "handle_commit cr m n = (r, sent, ops, n')"
  shows "pbft_node_ok ids f v H (G \<union> set sent) n' \<and> (\<forall>x \<in> set sent. mg_sender x = pb_node_id n)"
proof (cases "n' = n \<and> sent = []")
  case True
  with assms(1) show ?thesis by simp
next
  case False
  let ?n = "n\<lparr>pb_commit_log := log_add (mg_sequence m) m (pb_commit_log n)\<rparr>"
  let ?P = "log_at (mg_sequence m) (pb_prepare_log n)"
  have q: "pb_quorum_size n \<le> int (length (matching_senders (mg_digest m) ?P))" and s: "sent = []"
    and n': "n' = snd (try_commit_quorum (mg_sequence m) (mg_digest m) ?n)"
    using assms(2) False by (auto simp: handle_commit_def Let_def split: if_splits prod.splits)
  note q' = order_trans [OF q length_matching]
  show ?thesis
  proof (cases "?P = []")
    case True
    then have "pb_quorum_size n \<le> 0" using q by (simp add: matching_senders_def)
    with node_okD(1) [OF assms(1)] show ?thesis by (simp add: static_ok_def pb_quorum_size_def)
  next
    case False
    then have "map_of (pb_pre_prepare_log n) (mg_sequence m) \<noteq> None"
      using node_okD(2) [OF assms(1)] by (auto simp: water_ok_def log_at_def split: option.splits)
    then have "pbft_node_ok ids f v H G n'"
      unfolding n' using assms(1) q' by (intro try_commit_node_ok) (auto simp: pb_quorum_size_def)
    then show ?thesis using s by simp
  qed
qed


lemma handle_pre_prepare_ok:
  assumes "pbft_node_ok ids f v H G n" and "auth_at cr H G m n" and "pb_node_id n \<in> H" and "handle_pre_prepare cr m n = (r, sent, ops, n')"
  shows "pbft_node_ok ids f v H (G \<union> set sent) n' \<and> (\<forall>x \<in> set sent. mg_sender x = pb_node_id n)"
proof (cases "sent = []")
  case True
  with assms(1,4) show ?thesis
    by (auto simp: handle_pre_prepare_def accept_pre_prepare_def Let_def split: if_splits option.splits prod.splits)
next
  case False
  note ok = node_okD [OF assms(1)]
  let ?s = "mg_sequence m" and ?p = "own_message cr PREPARE (pb_view n) (mg_sequence m) (mg_digest m) n"
  let ?n1 = "n\<lparr>pb_last_sequence := pb_last_sequence n, pb_pre_prepare_log := AList.update ?s m (pb_pre_prepare_log n)\<rparr>"
  let ?n2 = "?n1\<lparr>pb_prepare_log := log_add ?s ?p (pb_prepare_log ?n1)\<rparr>"
  have val: "verify_signature cr n m" "mg_sender m = pb_primary n" "mg_view m = pb_view n" "pb_low_watermark n \<le> ?s"
    and fresh: "map_of (pb_pre_prepare_log n) ?s = None"
    using assms(4) False
    by (auto simp: handle_pre_prepare_def accept_pre_prepare_def pre_prepare_valid_def check_sequence_watermark_def split: if_splits option.splits)
  obtain sent' where run: "try_prepare_quorum cr ?s (mg_digest m) ?n2 = (sent', ops, n')" and sent: "sent = ?p # sent'"
    using assms(4) False fresh
    by (auto simp: handle_pre_prepare_def accept_pre_prepare_def Let_def split: if_splits option.splits prod.splits)
  have "\<not> pb_is_primary n"
  proof
    assume "pb_is_primary n"
    then have own: "mg_sender m = pb_node_id n" using val(2) by (simp add: pb_is_primary_def)
    then have "vote_ok (set ids) H G (pb_view n) ?s (mg_digest m) m"
      using assms(2) val by (intro verified_vote [OF val(1) ok(1)]) (auto simp: auth_at_def)
    then obtain m' where "m' \<in> G" "mg_sender m' = pb_node_id n" "mg_sequence m' = ?s" using own assms(3) by (auto simp: vote_ok_def signed_def)
    with ok(5) fresh val(4) show False by (fastforce simp: own_ok_def)
  qed
  then have "pbft_node_ok ids f v H G ?n1" using fresh val(4) by (intro node_ok_pre_prepare [OF assms(1)]) auto
  then have n1: "pbft_node_ok ids f v H (insert ?p G) ?n1" by (rule node_ok_sign [where pp = m]) simp_all
  have "vote_ok (set ids) H (insert ?p G) (pb_view ?n1) ?s (mg_digest m) ?p" using ok(1) by (auto simp: vote_ok_def signed_def static_ok_def)
  then have "pbft_node_ok ids f v H (insert ?p G) ?n2" by (intro node_ok_vote [OF n1, where pp = m]) simp_all
  from try_prepare_node_ok [OF this _ _ run, of m] show ?thesis by (simp add: sent)
qed

lemma handle_request_run:
  assumes "handle_request cr x n = (r, sent, ops, n')" and "sent \<noteq> []"
  shows "\<exists>m. sent = [m] \<and> n' = n\<lparr>pb_last_sequence := pb_last_sequence n + 1, pb_pre_prepare_log := AList.update (pb_last_sequence n + 1) m (pb_pre_prepare_log n)\<rparr>
     \<and> mg_sequence m = pb_last_sequence n + 1 \<and> mg_view m = pb_view n \<and> mg_sender m = pb_node_id n \<and> mg_phase m = PRE_PREPARE
     \<and> pb_is_primary n \<and> check_sequence_watermark (pb_last_sequence n + 1) n"
  using assms by (auto simp: handle_request_def accept_pre_prepare_def Let_def split: if_splits option.splits)

lemma handle_request_idle: "handle_request cr x n = (r, [], ops, n') \<Longrightarrow> n' = n"
  by (auto simp: handle_request_def Let_def split: if_splits prod.splits)

lemma handle_request_ok:
  assumes "pbft_node_ok ids f v H G n" and "handle_request cr x n = (r, sent, ops, n')"
  shows "pbft_node_ok ids f v H (G \<union> set sent) n' \<and> (\<forall>y \<in> set sent. mg_sender y = pb_node_id n)"
proof (cases "sent = []")
  case True
  with assms handle_request_idle show ?thesis by fastforce
next
  case False
  from handle_request_run [OF assms(2) this] obtain m where m: "sent = [m]"
      "n' = n\<lparr>pb_last_sequence := pb_last_sequence n + 1, pb_pre_prepare_log := AList.update (pb_last_sequence n + 1) m (pb_pre_prepare_log n)\<rparr>"
      "mg_sequence m = pb_last_sequence n + 1" "mg_view m = pb_view n" "mg_sender m = pb_node_id n" "pb_is_primary n"
      "check_sequence_watermark (pb_last_sequence n + 1) n" by blast
  have "map_of (pb_pre_prepare_log n) (pb_last_sequence n + 1) = None"
    using node_okD(7) [OF assms(1)] m(6) unfolding lead_ok_def by (metis add_le_same_cancel1 not_one_le_zero)
  then have "pbft_node_ok ids f v H G n'"
    unfolding m(2) using m(7) by (intro node_ok_pre_prepare [OF assms(1)]) (auto simp: check_sequence_watermark_def)
  then have "pbft_node_ok ids f v H (insert m G) n'"
    by (rule node_ok_sign [where pp = m]) (use m in \<open>simp_all\<close>)
  then show ?thesis using m by simp
qed

lemma pbft_handle_ok:
  assumes "pbft_node_ok ids f v H G n" and "\<forall>m. event_message ev = Some m \<longrightarrow> auth_at cr H G m n" and "pb_node_id n \<in> H"
    and "pbft_handle cr ev n = (sent, ops, n')"
  shows "pbft_node_ok ids f v H (G \<union> set sent) n' \<and> (\<forall>x \<in> set sent. mg_sender x = pb_node_id n)"
proof (cases ev)
  case (ClientRequest i x)
  then show ?thesis using assms(4) handle_request_ok [OF assms(1), of cr x "fst (handle_request cr x n)"] by (metis pbft_handle.simps(1) prod.collapse)
next
  case (PrePrepareMsg i m)
  then show ?thesis using assms(2,4) handle_pre_prepare_ok [OF assms(1) _ assms(3), of cr m "fst (handle_pre_prepare cr m n)"]
    by (metis event_message.simps(2) pbft_handle.simps(2) prod.collapse)
next
  case (PrepareMsg i m)
  then show ?thesis using assms(2,4) handle_prepare_ok [OF assms(1), of cr m "fst (handle_prepare cr m n)"]
    by (metis event_message.simps(3) pbft_handle.simps(3) prod.collapse)
next
  case (CommitMsg i m)
  then show ?thesis using assms(4) handle_commit_ok [OF assms(1), of cr m "fst (handle_commit cr m n)"] by (metis pbft_handle.simps(4) prod.collapse)
qed

section \<open>Agreement\<close>

definition pbft_net_ok :: "string list \<Rightarrow> int \<Rightarrow> int \<Rightarrow> string set \<Rightarrow> ('o, 'k) pbft_net \<Rightarrow> bool" where
  "pbft_net_ok ids f v H w \<longleftrightarrow> (\<forall>i \<in> H. pb_node_id (pw_nodes w i) = i \<and> pbft_node_ok ids f v H (set (pw_sent w)) (pw_nodes w i))"

lemma keys_subset_fold: "fst ` set (fold (\<lambda>(k, v). AList.update k v) keys d) \<subseteq> fst ` set d \<union> fst ` set keys"
proof (induction keys arbitrary: d)
  case (Cons x keys)
  obtain k v where x: "x = (k, v)" by force
  have "fst ` set (AList.update k v d) = insert k (fst ` set d)" using update_keys [of k v d] by (metis dom_map_of_conv_image_fst dom_fun_upd map_of_update option.distinct(1))
  with Cons [of "AList.update k v d"] show ?case by (auto simp: x)
qed simp

lemma fresh_node_ok:
  assumes "pbft_init cr i ids (Some f) key keys = Inr n" and "fst ` set keys \<subseteq> set ids" and "0 \<le> f"
  shows "pb_node_id n = i \<and> pbft_node_ok (sort ids) f 0 H {} n"
proof -
  have i: "i \<in> set ids" and n: "pb_node_id n = i" "pb_node_ids n = sort ids" "pb_f n = f" "pb_view n = 0" "pb_committed n = []"
    "pb_public_keys n = fold (\<lambda>(k, v). AList.update k v) keys [(i, pc_public cr key)]"
    "pb_pre_prepare_log n = []" "pb_prepare_log n = []" "pb_low_watermark n = 0" "pb_last_sequence n = 0"
    using assms(1) by (auto simp: pbft_init_def split: if_splits)
  have "fst ` set (pb_public_keys n) \<subseteq> set ids" using keys_subset_fold [of keys "[(i, pc_public cr key)]"] assms(2) i n(6) by auto
  then show ?thesis using n i assms(3)
    by (simp add: pbft_node_ok_def static_ok_def water_ok_def low_mark_def votes_ok_def decided_ok_def own_ok_def unique_ok_def lead_ok_def)
qed

lemma pbft_started_ok:
  assumes "pbft_started cr ids f H w" and "0 \<le> f"
  shows "pbft_net_ok (sort ids) f 0 H w"
  unfolding pbft_net_ok_def
proof
  fix i assume "i \<in> H"
  then obtain key keys where k: "fst ` set keys \<subseteq> set ids" "pbft_init cr i ids (Some f) key keys = Inr (pw_nodes w i)"
    using assms(1) by (auto simp: pbft_started_def)
  have "set (pw_sent w) = {}" using assms(1) by (simp add: pbft_started_def)
  then show "pb_node_id (pw_nodes w i) = i \<and> pbft_node_ok (sort ids) f 0 H (set (pw_sent w)) (pw_nodes w i)"
    using fresh_node_ok [OF k(2,1) assms(2)] by simp
qed

text \<open>What no handler of the three phases changes.\<close>

definition pb_conf :: "('o, 'k) pbft \<Rightarrow> string \<times> string list \<times> int \<times> int \<times> int" where
  "pb_conf n = (pb_node_id n, pb_node_ids n, pb_f n, pb_view n, pb_watermark_window n)"

lemma try_commit_conf:
  "try_commit_quorum s d n = (ops, n') \<Longrightarrow> pb_conf n' = pb_conf n \<and> pb_last_sequence n' = pb_last_sequence n"
  by (auto simp: try_commit_quorum_def advance_watermark_def pb_conf_def Let_def split: if_splits)

lemma try_prepare_conf:
  "try_prepare_quorum cr s d n = (sent, ops, n') \<Longrightarrow> pb_conf n' = pb_conf n \<and> pb_last_sequence n' = pb_last_sequence n"
  by (auto simp: try_prepare_quorum_def Let_def pb_conf_def split: if_splits prod.splits dest!: try_commit_conf)

lemma accept_conf:
  "accept_pre_prepare cr b m n = (r, sent, ops, n') \<Longrightarrow> pb_conf n' = pb_conf n \<and> pb_last_sequence n' = pb_last_sequence n"
  by (auto simp: accept_pre_prepare_def Let_def pb_conf_def split: if_splits option.splits prod.splits dest!: try_prepare_conf)

lemma handle_prepare_conf:
  "handle_prepare cr m n = (r, sent, ops, n') \<Longrightarrow> pb_conf n' = pb_conf n \<and> pb_last_sequence n' = pb_last_sequence n"
  by (auto simp: handle_prepare_def pb_conf_def split: if_splits option.splits dest!: try_prepare_conf)

lemma handle_commit_conf:
  "handle_commit cr m n = (r, sent, ops, n') \<Longrightarrow> pb_conf n' = pb_conf n \<and> pb_last_sequence n' = pb_last_sequence n"
  by (auto simp: handle_commit_def Let_def pb_conf_def split: if_splits prod.splits dest!: try_commit_conf)

lemma handle_request_conf: "handle_request cr x n = (r, sent, ops, n') \<Longrightarrow> pb_conf n' = pb_conf n"
  using handle_request_run [of cr x n r sent ops n'] handle_request_idle [of cr x n r ops n'] by (cases "sent = []") (auto simp: pb_conf_def)

lemma pbft_handle_conf: "pbft_handle cr ev n = (sent, ops, n') \<Longrightarrow> pb_conf n' = pb_conf n"
proof (cases ev)
  case (ClientRequest i x)
  then show "pbft_handle cr ev n = (sent, ops, n') \<Longrightarrow> ?thesis" using handle_request_conf [of cr x n "fst (handle_request cr x n)"] by (metis pbft_handle.simps(1) prod.collapse)
next
  case (PrePrepareMsg i m)
  then show "pbft_handle cr ev n = (sent, ops, n') \<Longrightarrow> ?thesis"
    using accept_conf [of cr False m n "fst (handle_pre_prepare cr m n)"] by (metis handle_pre_prepare_def pbft_handle.simps(2) prod.collapse)
next
  case (PrepareMsg i m)
  then show "pbft_handle cr ev n = (sent, ops, n') \<Longrightarrow> ?thesis" using handle_prepare_conf [of cr m n "fst (handle_prepare cr m n)"] by (metis pbft_handle.simps(3) prod.collapse)
next
  case (CommitMsg i m)
  then show "pbft_handle cr ev n = (sent, ops, n') \<Longrightarrow> ?thesis" using handle_commit_conf [of cr m n "fst (handle_commit cr m n)"] by (metis pbft_handle.simps(4) prod.collapse)
qed

lemma pbft_exec_ok:
  assumes "pbft_net_ok ids f v H w" and "receiver ev \<in> H" and "authentic cr H ev w"
  shows "pbft_net_ok ids f v H (pbft_exec cr ev w)"
proof -
  let ?i = "receiver ev" and ?G = "set (pw_sent w)"
  let ?n = "pw_nodes w ?i"
  obtain sent ops n' where run: "pbft_handle cr ev ?n = (sent, ops, n')" by (metis prod_cases3)
  have id: "pb_node_id ?n = ?i" and ok: "pbft_node_ok ids f v H ?G ?n" using assms(1,2) by (auto simp: pbft_net_ok_def)
  have "\<forall>m. event_message ev = Some m \<longrightarrow> auth_at cr H ?G m ?n" using assms(3) by (auto simp: authentic_def auth_at_def)
  from pbft_handle_ok [OF ok this _ run] id assms(2)
  have n': "pbft_node_ok ids f v H (?G \<union> set sent) n'" and own: "\<forall>x \<in> set sent. mg_sender x = ?i" by auto
  have "pb_node_id n' = ?i" using pbft_handle_conf [OF run] id by (simp add: pb_conf_def)
  moreover have "pbft_node_ok ids f v H (?G \<union> set sent) (pw_nodes w j)" if "j \<in> H" "j \<noteq> ?i" for j
    using assms(1) that own by (intro node_ok_others) (auto simp: pbft_net_ok_def)
  ultimately show ?thesis using n' assms(1) by (auto simp: pbft_net_ok_def pbft_exec_def run)
qed

lemma pbft_reach_ok:
  assumes "pbft_reach cr H w0 w" and "pbft_net_ok ids f v H w0"
  shows "pbft_net_ok ids f v H w"
  using assms by (induction rule: pbft_reach.induct) (auto intro: pbft_exec_ok)

text \<open>The quorums of a cluster of at most \<open>3 f + 1\<close> members of which at most \<open>f\<close> are not honest.\<close>

definition pbft_quorum :: "string set \<Rightarrow> int \<Rightarrow> string set \<Rightarrow> string set \<Rightarrow> bool" where
  "pbft_quorum M f H A \<longleftrightarrow> finite M \<and> int (card M) \<le> 3 * f + 1 \<and> int (card (M - H)) \<le> f \<and> A \<subseteq> M \<and> 2 * f + 1 \<le> int (card A)"

interpretation pbq: voting_quorums "pbft_quorum M f H" H for M f H
  by unfold_locales (auto simp: pbft_quorum_def dest: quorums_share_honest)

lemma unique_signed:
  assumes "unique_ok G h" and "signed G h v s d" and "signed G h v' s d'"
  shows "d = d'"
proof -
  obtain m where m: "m \<in> G" "mg_sender m = h" "mg_sequence m = s" "mg_digest m = d" using assms(2) unfolding signed_def by blast
  obtain m' where m': "m' \<in> G" "mg_sender m' = h" "mg_sequence m' = s" "mg_digest m' = d'" using assms(3) unfolding signed_def by blast
  have "mg_digest m = mg_digest m'"
    using assms(1) [unfolded unique_ok_def, rule_format, OF m(1) m'(1)] m(2,3) m'(2,3) by simp
  then show ?thesis using m(4) m'(4) by simp
qed

lemma committed_digest_unique:
  assumes "pbft_net_ok ids f v H w" and "i \<in> H" and "j \<in> H" and "length ids \<le> nat (3 * f + 1)" and "int (card (set ids - H)) \<le> f"
    and "s \<in> set (pb_committed (pw_nodes w i))" and "s \<in> set (pb_committed (pw_nodes w j))"
  shows "\<exists>p q. map_of (pb_pre_prepare_log (pw_nodes w i)) s = Some p \<and> map_of (pb_pre_prepare_log (pw_nodes w j)) s = Some q
     \<and> mg_digest p = mg_digest q"
proof -
  let ?G = "set (pw_sent w)" and ?ni = "pw_nodes w i" and ?nj = "pw_nodes w j"
  have oki: "pbft_node_ok ids f v H ?G ?ni" and okj: "pbft_node_ok ids f v H ?G ?nj" using assms(1-3) by (auto simp: pbft_net_ok_def)
  have f: "0 \<le> f" and cf: "pb_view ?ni = v" "pb_view ?nj = v" "pb_f ?ni = f" "pb_f ?nj = f"
    using node_okD(1) [OF oki] node_okD(1) [OF okj] by (auto simp: static_ok_def)
  obtain p q where p: "map_of (pb_pre_prepare_log ?ni) s = Some p" and q: "map_of (pb_pre_prepare_log ?nj) s = Some q"
    and qi: "2 * f + 1 \<le> int (card (mg_sender ` set (log_at s (pb_prepare_log ?ni))))"
    and qj: "2 * f + 1 \<le> int (card (mg_sender ` set (log_at s (pb_prepare_log ?nj))))"
    using node_okD(4) [OF oki] node_okD(4) [OF okj] assms(6,7) cf by (fastforce simp: decided_ok_def pb_quorum_size_def)
  have vi: "\<forall>m \<in> set (log_at s (pb_prepare_log ?ni)). vote_ok (set ids) H ?G v s (mg_digest p) m"
    and vj: "\<forall>m \<in> set (log_at s (pb_prepare_log ?nj)). vote_ok (set ids) H ?G v s (mg_digest q) m"
    using node_okD(3) [OF oki] node_okD(3) [OF okj] p q cf by (auto simp: votes_ok_def)
  have n: "int (card (set ids)) \<le> 3 * f + 1" using assms(4) card_length [of ids] f by linarith
  define A where "A = mg_sender ` set (log_at s (pb_prepare_log ?ni))"
  define B where "B = mg_sender ` set (log_at s (pb_prepare_log ?nj))"
  have A: "A \<subseteq> set ids" "\<And>h. h \<in> A \<Longrightarrow> h \<in> H \<Longrightarrow> signed ?G h v s (mg_digest p)" using vi by (auto simp: A_def vote_ok_def)
  have B: "B \<subseteq> set ids" "\<And>h. h \<in> B \<Longrightarrow> h \<in> H \<Longrightarrow> signed ?G h v s (mg_digest q)" using vj by (auto simp: B_def vote_ok_def)
  have "pbft_quorum (set ids) f H A" "pbft_quorum (set ids) f H B"
    using A(1) B(1) n qi [folded A_def] qj [folded B_def] assms(5) by (simp_all add: pbft_quorum_def)
  moreover have "d = d'" if "h \<in> H" "signed ?G h v s d" "signed ?G h v s d'" for h d d'
    using that assms(1) node_okD(6) unique_signed unfolding pbft_net_ok_def by metis
  ultimately have "mg_digest p = mg_digest q" by (rule pbq.one_decision [where vote = "\<lambda>h d. signed ?G h v s d"]) (use A B in auto)
  with p q show ?thesis by blast
qed


text \<open>Accepted operations carry their own digest.\<close>

definition ops_ok :: "('o, 'k) pbft_crypto \<Rightarrow> ('o, 'k) pbft \<Rightarrow> bool" where
  "ops_ok cr n \<longleftrightarrow> (\<forall>s pp x. map_of (pb_pre_prepare_log n) s = Some pp \<longrightarrow> mg_operation pp = Some x \<longrightarrow> pc_digest cr x = mg_digest pp)"

lemma try_commit_ops: "try_commit_quorum s d n = (ops, n') \<Longrightarrow> ops_ok cr n \<Longrightarrow> ops_ok cr n'"
  by (auto simp: try_commit_quorum_def advance_watermark_def ops_ok_def Let_def split: if_splits)

lemma ops_ok_frame [simp]: "ops_ok cr (n\<lparr>pb_commit_log := c\<rparr>) = ops_ok cr n" "ops_ok cr (n\<lparr>pb_prepare_log := p\<rparr>) = ops_ok cr n"
  by (simp_all add: ops_ok_def)

lemma try_prepare_ops: "try_prepare_quorum cr' s d n = (sent, ops, n') \<Longrightarrow> ops_ok cr n \<Longrightarrow> ops_ok cr n'"
  by (auto simp: try_prepare_quorum_def Let_def split: if_splits prod.splits dest!: try_commit_ops)

lemma accept_ops: "accept_pre_prepare cr b m n = (r, sent, ops, n') \<Longrightarrow> ops_ok cr n \<Longrightarrow> ops_ok cr n'"
proof -
  assume a: "accept_pre_prepare cr b m n = (r, sent, ops, n')" and n: "ops_ok cr n"
  show ?thesis
  proof (cases "n' = n")
    case False
    with a have v: "pre_prepare_valid cr b m n" by (auto simp: accept_pre_prepare_def split: if_splits)
    have "ops_ok cr (n\<lparr>pb_pre_prepare_log := AList.update (mg_sequence m) m (pb_pre_prepare_log n)\<rparr>)"
      using n v by (auto simp: ops_ok_def pre_prepare_valid_def)
    then have "ops_ok cr (n\<lparr>pb_pre_prepare_log := AList.update (mg_sequence m) m (pb_pre_prepare_log n), pb_prepare_log := p\<rparr>)" for p by simp
    with a False show ?thesis
      by (auto simp: accept_pre_prepare_def Let_def split: if_splits option.splits prod.splits dest!: try_prepare_ops)
  qed (use n in simp)
qed

lemma handle_request_ops: "handle_request cr x n = (r, sent, ops, n') \<Longrightarrow> ops_ok cr n \<Longrightarrow> ops_ok cr n'"
  by (auto simp: handle_request_def Let_def ops_ok_def split: if_splits prod.splits dest!: accept_ops)

lemma pbft_handle_ops: "pbft_handle cr ev n = (sent, ops, n') \<Longrightarrow> ops_ok cr n \<Longrightarrow> ops_ok cr n'"
proof (cases ev)
  case (ClientRequest i x)
  then show "pbft_handle cr ev n = (sent, ops, n') \<Longrightarrow> ops_ok cr n \<Longrightarrow> ?thesis"
    using handle_request_ops [of cr x n "fst (handle_request cr x n)"] by (metis pbft_handle.simps(1) prod.collapse)
next
  case (PrePrepareMsg i m)
  then show "pbft_handle cr ev n = (sent, ops, n') \<Longrightarrow> ops_ok cr n \<Longrightarrow> ?thesis"
    using accept_ops [of cr False m n "fst (handle_pre_prepare cr m n)"] by (metis handle_pre_prepare_def pbft_handle.simps(2) prod.collapse)
next
  case (PrepareMsg i m)
  then show "pbft_handle cr ev n = (sent, ops, n') \<Longrightarrow> ops_ok cr n \<Longrightarrow> ?thesis"
    by (auto simp: handle_prepare_def split: if_splits option.splits dest!: try_prepare_ops)
next
  case (CommitMsg i m)
  then show "pbft_handle cr ev n = (sent, ops, n') \<Longrightarrow> ops_ok cr n \<Longrightarrow> ?thesis"
    by (auto simp: handle_commit_def Let_def split: if_splits prod.splits dest!: try_commit_ops)
qed

lemma reach_ops:
  assumes "pbft_reach cr H w0 w" and "\<forall>i \<in> H. ops_ok cr (pw_nodes w0 i)"
  shows "\<forall>i \<in> H. ops_ok cr (pw_nodes w i)"
  using assms
proof (induction rule: pbft_reach.induct)
  case (event w ev)
  obtain sent ops n' where "pbft_handle cr ev (pw_nodes w (receiver ev)) = (sent, ops, n')" by (metis prod_cases3)
  with event show ?case by (auto simp: pbft_exec_def dest: pbft_handle_ops)
qed

lemma committed_operationsD: "(s, x) \<in> set (get_committed_operations n) \<Longrightarrow>
    s \<in> set (pb_committed n) \<and> (\<exists>pp. map_of (pb_pre_prepare_log n) s = Some pp \<and> mg_operation pp = Some x)"
  by (auto simp: get_committed_operations_def split: option.splits) metis

lemma fresh_ops: "pbft_init cr i ids f key keys = Inr n \<Longrightarrow> ops_ok cr n"
  by (auto simp: pbft_init_def ops_ok_def split: if_splits)



section \<open>Examples\<close>

text \<open>Keys are names, a signature is the key before the text, and an operation is its own digest.\<close>

definition toy_crypto :: "(string, string) pbft_crypto" where
  "toy_crypto = \<lparr>pc_digest = (\<lambda>x. x), pc_sign = (\<lambda>k t. k @ ''/'' @ t), pc_verify = (\<lambda>k t s. s = k @ ''/'' @ t), pc_public = (\<lambda>k. k)\<rparr>"

definition toy_net :: "string list \<Rightarrow> int \<Rightarrow> (string, string) pbft_net" where
  "toy_net ids f = \<lparr>pw_nodes = (\<lambda>i. projr (pbft_init toy_crypto (if i \<in> set ids then i else hd ids) ids (Some f) i (map (\<lambda>k. (k, k)) ids))), pw_sent = []\<rparr>"

definition toy_msg :: "pbft_phase \<Rightarrow> string \<Rightarrow> string \<Rightarrow> string pbft_message" where
  "toy_msg ph i d = \<lparr>mg_phase = ph, mg_view = 0, mg_sequence = 1, mg_digest = d, mg_sender = i, mg_operation = (if ph = PRE_PREPARE then Some d else None),
     mg_signature = Some (i @ ''/'' @ message_payload i 0 1 d)\<rparr>"

fun pbft_run_ok :: "('o, 'k) pbft_crypto \<Rightarrow> string list \<Rightarrow> 'o pbft_event list \<Rightarrow> ('o, 'k) pbft_net \<Rightarrow> bool" where
  "pbft_run_ok cr hs [] w \<longleftrightarrow> True"
| "pbft_run_ok cr hs (ev # evs) w \<longleftrightarrow> receiver ev \<in> set hs \<and> authentic cr (set hs) ev w \<and> pbft_run_ok cr hs evs (pbft_exec cr ev w)"

lemma pbft_run_reach: "pbft_run_ok cr hs evs w \<Longrightarrow> pbft_reach cr (set hs) w0 w \<Longrightarrow> pbft_reach cr (set hs) w0 (fold (pbft_exec cr) evs w)"
  by (induction evs arbitrary: w) (auto intro: pbft_reach.event)

text \<open>Everything a quorum of voters sends about an operation goes to the given receivers.\<close>

definition toy_round :: "string \<Rightarrow> string list \<Rightarrow> string list \<Rightarrow> string \<Rightarrow> string pbft_event list" where
  "toy_round prim voters rcv d =
     map (\<lambda>i. PrePrepareMsg i (toy_msg PRE_PREPARE prim d)) rcv
     @ concat (map (\<lambda>v. map (\<lambda>i. PrepareMsg i (toy_msg PREPARE v d)) rcv) voters)
     @ concat (map (\<lambda>v. map (\<lambda>i. CommitMsg i (toy_msg COMMIT v d)) rcv) voters)"

lemma toy_started:
  assumes "set hs \<subseteq> set ids"
  shows "pbft_started toy_crypto ids f (set hs) (toy_net ids f)"
  unfolding pbft_started_def
proof (intro conjI ballI)
  fix i assume "i \<in> set hs"
  then have "i \<in> set ids" using assms by auto
  then have "pbft_init toy_crypto i ids (Some f) i (map (\<lambda>k. (k, k)) ids) = Inr (pw_nodes (toy_net ids f) i)"
    by (simp add: toy_net_def pbft_init_def)
  moreover have "fst ` set (map (\<lambda>k. (k, k)) ids) \<subseteq> set ids" by auto
  ultimately show "\<exists>key keys. fst ` set keys \<subseteq> set ids \<and> pbft_init toy_crypto i ids (Some f) key keys = Inr (pw_nodes (toy_net ids f) i)" by blast
qed (use assms in \<open>simp_all add: toy_net_def\<close>)

definition good_run :: "string pbft_event list" where
  "good_run = ClientRequest ''a'' ''op'' # toy_round ''a'' [''b'', ''c'', ''d''] [''b'', ''c''] ''op''"

definition good_net :: "(string, string) pbft_net" where
  "good_net = fold (pbft_exec toy_crypto) good_run (toy_net [''a'', ''b'', ''c'', ''d''] 1)"

lemma good_net_reach: "pbft_reach toy_crypto (set [''a'', ''b'', ''c'']) (toy_net [''a'', ''b'', ''c'', ''d''] 1) good_net"
proof -
  have "pbft_run_ok toy_crypto [''a'', ''b'', ''c''] good_run (toy_net [''a'', ''b'', ''c'', ''d''] 1)" by code_simp
  then show ?thesis unfolding good_net_def by (rule pbft_run_reach [OF _ pbft_reach.start])
qed


text \<open>
  With five members the default is still \<open>f = 1\<close> and a quorum of three. Two quorums may then meet in the one faulty member only:
  it prepares two operations, and the honest nodes commit different ones under the same number.
\<close>

definition split_net :: "(string, string) pbft_net" where
  "split_net = fold (pbft_exec toy_crypto)
     (toy_round ''a'' [''a'', ''b'', ''c''] [''b'', ''c''] ''x'' @ toy_round ''a'' [''a'', ''d'', ''e''] [''d'', ''e''] ''y'')
     (toy_net [''a'', ''b'', ''c'', ''d'', ''e''] 1)"

lemma default_f_five: "pb_f (projr (pbft_init toy_crypto ''a'' [''a'', ''b'', ''c'', ''d'', ''e''] None ''a'' [])) = 1"
  by code_simp

lemma five_nodes_disagree:
  "pbft_reach toy_crypto (set [''b'', ''c'', ''d'', ''e'']) (toy_net [''a'', ''b'', ''c'', ''d'', ''e''] 1) split_net
   \<and> get_committed_operations (pw_nodes split_net ''b'') = [(1, ''x'')] \<and> get_committed_operations (pw_nodes split_net ''d'') = [(1, ''y'')]"
proof -
  let ?evs = "toy_round ''a'' [''a'', ''b'', ''c''] [''b'', ''c''] ''x'' @ toy_round ''a'' [''a'', ''d'', ''e''] [''d'', ''e''] ''y''"
  have "pbft_run_ok toy_crypto [''b'', ''c'', ''d'', ''e''] ?evs (toy_net [''a'', ''b'', ''c'', ''d'', ''e''] 1)" by code_simp
  then have "pbft_reach toy_crypto (set [''b'', ''c'', ''d'', ''e'']) (toy_net [''a'', ''b'', ''c'', ''d'', ''e''] 1) split_net"
    unfolding split_net_def by (rule pbft_run_reach [OF _ pbft_reach.start])
  moreover have "get_committed_operations (pw_nodes split_net ''b'') = [(1, ''x'')]" by code_simp
  moreover have "get_committed_operations (pw_nodes split_net ''d'') = [(1, ''y'')]" by code_simp
  ultimately show ?thesis by simp
qed

end
