(* ===== verification/PbftProgress.thy ===== *)
theory PbftProgress
  imports PbftSafety
begin

text \<open>
  What keeps the protocol of \<^verbatim>\<open>dist/byzantine.py\<close> from making progress, and what its view change allows: a bound on the requests a
  primary ever accepts, silence of the primary in the prepare phase, and runs of the view change.
\<close>

section \<open>How many requests a primary accepts\<close>

definition third :: "'a \<times> 'b \<times> 'c \<Rightarrow> 'c" where
  "third x = snd (snd x)"

definition pbft_apply :: "('o, 'k) pbft_crypto \<Rightarrow> 'o pbft_event \<Rightarrow> ('o, 'k) pbft \<Rightarrow> ('o, 'k) pbft" where
  "pbft_apply cr ev n = third (pbft_handle cr ev n)"

definition log_window :: "('o, 'k) pbft \<Rightarrow> bool" where
  "log_window n \<longleftrightarrow> (\<forall>s. map_of (pb_pre_prepare_log n) s \<noteq> None \<longrightarrow> pb_low_watermark n \<le> s \<and> s \<le> pb_low_watermark n + 128)
     \<and> (\<forall>s. map_of (pb_prepare_log n) s \<noteq> None \<longrightarrow> map_of (pb_pre_prepare_log n) s \<noteq> None)"

definition capacity_ok :: "('o, 'k) pbft \<Rightarrow> bool" where
  "capacity_ok n \<longleftrightarrow> 0 \<le> pb_f n \<and> pb_watermark_window n = 128 \<and> pb_low_watermark n = low_mark (pb_committed n)
     \<and> 0 \<le> pb_low_watermark n \<and> pb_low_watermark n \<le> 128 \<and> pb_last_sequence n \<le> pb_low_watermark n + 128 \<and> log_window n"

lemma capacity_frame [simp]:
  "capacity_ok (n\<lparr>pb_commit_log := c\<rparr>) = capacity_ok n" "capacity_ok (n\<lparr>pb_committed_ops := k\<rparr>) = capacity_ok n"
  by (simp_all add: capacity_ok_def log_window_def)

lemma low_mark_snoc: "low_mark (cs @ [s]) = (if cs = [] then s else min (low_mark cs) s)"
  by (auto simp: low_mark_def min.commute)

lemma advance_watermark_to:
  "pb_committed n \<noteq> [] \<Longrightarrow> advance_watermark n = n\<lparr>pb_pre_prepare_log := prune_below (low_mark (pb_committed n)) (pb_pre_prepare_log n),
     pb_prepare_log := prune_below (low_mark (pb_committed n)) (pb_prepare_log n),
     pb_commit_log := prune_below (low_mark (pb_committed n)) (pb_commit_log n), pb_low_watermark := low_mark (pb_committed n)\<rparr>"
  by (cases "pb_committed n") (simp_all add: advance_watermark_def low_mark_def fold_min_Min Let_def)

lemma capacity_commit:
  assumes "capacity_ok n" and "map_of (pb_pre_prepare_log n) s \<noteq> None"
  shows "capacity_ok (advance_watermark (n\<lparr>pb_committed := pb_committed n @ [s], pb_committed_ops := k\<rparr>))" (is "capacity_ok (advance_watermark ?n)")
proof -
  have s: "pb_low_watermark n \<le> s" "s \<le> pb_low_watermark n + 128" and lw: "log_window n"
    using assms by (auto simp: capacity_ok_def log_window_def)
  have low: "pb_low_watermark n \<le> low_mark (pb_committed n @ [s]) \<and> low_mark (pb_committed n @ [s]) \<le> 128 \<and> 0 \<le> low_mark (pb_committed n @ [s])"
    using assms(1) s by (auto simp: capacity_ok_def low_mark_snoc low_mark_def split: if_splits)
  have "log_window (advance_watermark ?n)"
    using lw low by (auto simp: advance_watermark_to log_window_def)
  then show ?thesis using assms(1) low by (simp add: advance_watermark_to capacity_ok_def)
qed

lemma capacity_try_commit:
  assumes "capacity_ok n" and "map_of (pb_pre_prepare_log n) s \<noteq> None" and "try_commit_quorum s d n = (ops, n')"
  shows "capacity_ok n'"
  using assms(3) capacity_commit [OF assms(1,2)] assms(1) by (auto simp: try_commit_quorum_def Let_def split: if_splits)

lemma capacity_try_prepare:
  assumes "capacity_ok n" and "map_of (pb_pre_prepare_log n) s \<noteq> None" and "try_prepare_quorum cr s d n = (sent, ops, n')"
  shows "capacity_ok n'"
proof -
  have "n' = n \<or> (\<exists>c. try_commit_quorum s d (n\<lparr>pb_commit_log := c\<rparr>) = (ops, n'))"
    using assms(3) by (auto simp: try_prepare_quorum_def Let_def split: if_splits prod.splits)
  then show ?thesis using assms(1,2) capacity_try_commit [of "n\<lparr>pb_commit_log := c\<rparr>" s d ops n' for c] by auto
qed

lemma capacity_vote: "capacity_ok n \<Longrightarrow> map_of (pb_pre_prepare_log n) s \<noteq> None \<Longrightarrow> capacity_ok (n\<lparr>pb_prepare_log := log_add s m (pb_prepare_log n)\<rparr>)"
  by (auto simp: capacity_ok_def log_window_def)

lemma capacity_pre_prepare:
  assumes "capacity_ok n" and "check_sequence_watermark s n" and "pb_last_sequence n \<le> l" and "l \<le> max (pb_last_sequence n) s"
  shows "capacity_ok (n\<lparr>pb_last_sequence := l, pb_pre_prepare_log := AList.update s m (pb_pre_prepare_log n)\<rparr>)"
  using assms by (auto simp: capacity_ok_def log_window_def check_sequence_watermark_def)

lemma quorum_pre_prepare:
  assumes "capacity_ok n" and "pb_quorum_size n \<le> int (length (matching_senders d (log_at s (pb_prepare_log n))))"
  shows "map_of (pb_pre_prepare_log n) s \<noteq> None"
proof -
  have "log_at s (pb_prepare_log n) \<noteq> []" using assms by (auto simp: matching_senders_def pb_quorum_size_def capacity_ok_def)
  then show ?thesis using assms(1) by (auto simp: capacity_ok_def log_window_def log_at_def split: option.splits)
qed

lemma capacity_apply:
  assumes "capacity_ok n"
  shows "capacity_ok (pbft_apply cr ev n)"
proof -
  obtain sent ops n' where run: "pbft_handle cr ev n = (sent, ops, n')" by (metis prod_cases3)
  have "capacity_ok n'"
  proof (cases ev)
    case (ClientRequest i x)
    then obtain r where r: "handle_request cr x n = (r, sent, ops, n')" using run by (metis pbft_handle.simps(1) prod.collapse)
    show ?thesis
    proof (cases "sent = []")
      case True
      with r assms handle_request_idle show ?thesis by metis
    next
      case False
      from handle_request_run [OF r False] capacity_pre_prepare [OF assms, of "pb_last_sequence n + 1" "pb_last_sequence n + 1"] show ?thesis by auto
    qed
  next
    case (PrePrepareMsg i m)
    show ?thesis
    proof (cases "n' = n")
      case False
      let ?n = "n\<lparr>pb_last_sequence := pb_last_sequence n, pb_pre_prepare_log := AList.update (mg_sequence m) m (pb_pre_prepare_log n)\<rparr>"
      obtain p s where c: "check_sequence_watermark (mg_sequence m) n"
        and t: "try_prepare_quorum cr (mg_sequence m) (mg_digest m) (?n\<lparr>pb_prepare_log := log_add (mg_sequence m) p (pb_prepare_log ?n)\<rparr>) = (s, ops, n')"
        using run PrePrepareMsg False
        by (auto simp: handle_pre_prepare_def accept_pre_prepare_def pre_prepare_valid_def Let_def split: if_splits option.splits prod.splits)
      have "capacity_ok ?n" by (rule capacity_pre_prepare [OF assms c]) simp_all
      then have "capacity_ok (?n\<lparr>pb_prepare_log := log_add (mg_sequence m) p (pb_prepare_log ?n)\<rparr>)" by (rule capacity_vote) simp
      then show ?thesis by (rule capacity_try_prepare [OF _ _ t]) simp
    qed (use assms in simp)
  next
    case (PrepareMsg i m)
    show ?thesis
    proof (cases "n' = n")
      case False
      then obtain pp where pp: "map_of (pb_pre_prepare_log n) (mg_sequence m) = Some pp"
        and t: "try_prepare_quorum cr (mg_sequence m) (mg_digest m) (n\<lparr>pb_prepare_log := log_add (mg_sequence m) m (pb_prepare_log n)\<rparr>) = (sent, ops, n')"
        using run PrepareMsg by (auto simp: handle_prepare_def split: if_splits option.splits)
      have "capacity_ok (n\<lparr>pb_prepare_log := log_add (mg_sequence m) m (pb_prepare_log n)\<rparr>)" by (rule capacity_vote [OF assms]) (simp add: pp)
      then show ?thesis by (rule capacity_try_prepare [OF _ _ t]) (simp add: pp)
    qed (use assms in simp)
  next
    case (CommitMsg i m)
    show ?thesis
    proof (cases "n' = n")
      case False
      then have q: "pb_quorum_size n \<le> int (length (matching_senders (mg_digest m) (log_at (mg_sequence m) (pb_prepare_log n))))"
        and t: "try_commit_quorum (mg_sequence m) (mg_digest m) (n\<lparr>pb_commit_log := log_add (mg_sequence m) m (pb_commit_log n)\<rparr>) = (ops, n')"
        using run CommitMsg by (auto simp: handle_commit_def Let_def split: if_splits prod.splits)
      have "map_of (pb_pre_prepare_log n) (mg_sequence m) \<noteq> None" by (rule quorum_pre_prepare [OF assms q])
      then show ?thesis using assms by (intro capacity_try_commit [OF _ _ t]) auto
    qed (use assms in simp)
  qed
  then show ?thesis by (simp add: pbft_apply_def third_def run)
qed

lemma capacity_run: "capacity_ok n \<Longrightarrow> capacity_ok (fold (pbft_apply cr) evs n)"
  by (induction evs arbitrary: n) (auto intro: capacity_apply)

lemma capacity_fresh: "pbft_init cr i ids (Some f) key keys = Inr n \<Longrightarrow> 0 \<le> f \<Longrightarrow> capacity_ok n"
  by (auto simp: pbft_init_def capacity_ok_def log_window_def low_mark_def split: if_splits)

lemma low_mark_le: "k \<in> set cs \<Longrightarrow> low_mark cs \<le> k"
  by (auto simp: low_mark_def)

text \<open>A primary accepts a bounded number of requests. Whatever requests and messages a fresh node handles, as long as no new view is
  installed its sequence counter never passes 256, nor 128 above any number it has committed, and once it is 128 above a
  committed number every further request is dropped without a trace: the low watermark is the smallest number ever committed, so it does not advance.\<close>
theorem pbft_request_capacity:
  assumes "pbft_init cr i ids (Some f) key keys = Inr n0" and "0 \<le> f" and "n = fold (pbft_apply cr) evs n0"
  shows "pb_last_sequence n \<le> 256 \<and> (\<forall>k \<in> set (pb_committed n). pb_last_sequence n \<le> k + 128
           \<and> (pb_last_sequence n = k + 128 \<longrightarrow> handle_request cr x n = (None, [], [], n)))"
proof -
  have ok: "capacity_ok n" unfolding assms(3) by (rule capacity_run [OF capacity_fresh [OF assms(1,2)]])
  have "pb_low_watermark n \<le> k" if "k \<in> set (pb_committed n)" for k using ok low_mark_le [OF that] by (simp add: capacity_ok_def)
  with ok show ?thesis by (force simp: capacity_ok_def handle_request_def check_sequence_watermark_def Let_def)
qed

text \<open>Within the window the primary takes request after request.\<close>

lemma requests_accepted:
  assumes "pb_is_primary n" and "\<not> pb_view_change_in_progress n" and "pb_low_watermark n \<le> pb_last_sequence n + 1"
    and "pb_last_sequence n + int k \<le> pb_low_watermark n + pb_watermark_window n"
  shows "pb_last_sequence (fold (pbft_apply cr) (replicate k (ClientRequest i x)) n) = pb_last_sequence n + int k
     \<and> pb_committed (fold (pbft_apply cr) (replicate k (ClientRequest i x)) n) = pb_committed n"
  using assms
proof (induction k arbitrary: n)
  case (Suc k)
  obtain r sent ops n' where r: "handle_request cr x n = (r, sent, ops, n')" by (metis prod_cases4)
  with Suc.prems have "sent \<noteq> []" by (auto simp: handle_request_def check_sequence_watermark_def Let_def split: prod.splits)
  from handle_request_run [OF r this] obtain m where
    n': "n' = n\<lparr>pb_last_sequence := pb_last_sequence n + 1, pb_pre_prepare_log := AList.update (pb_last_sequence n + 1) m (pb_pre_prepare_log n)\<rparr>" by blast
  have "pb_is_primary n'" using Suc.prems(1) by (simp add: n' pb_is_primary_def pb_primary_def)
  with Suc.prems Suc.IH [of n'] show ?case by (simp add: pbft_apply_def third_def r n')
qed simp

text \<open>A primary that has committed its first request, and 128 more after that.\<close>

definition first_run :: "string pbft_event list" where
  "first_run = ClientRequest ''a'' ''op'' # map (\<lambda>v. PrepareMsg ''a'' (toy_msg PREPARE v ''op'')) [''b'', ''c'', ''d'']
     @ map (\<lambda>v. CommitMsg ''a'' (toy_msg COMMIT v ''op'')) [''b'', ''c'', ''d'']"

definition busy_run :: "string pbft_event list" where
  "busy_run = first_run @ replicate 128 (ClientRequest ''a'' ''x'')"

definition busy_node :: "(string, string) pbft" where
  "busy_node = fold (pbft_apply toy_crypto) busy_run (pw_nodes (toy_net [''a'', ''b'', ''c'', ''d''] 1) ''a'')"

lemma busy_node_full: "pb_committed busy_node = [1] \<and> pb_last_sequence busy_node = 129"
proof -
  let ?n = "fold (pbft_apply toy_crypto) first_run (pw_nodes (toy_net [''a'', ''b'', ''c'', ''d''] 1) ''a'')"
  have "pb_is_primary ?n" "\<not> pb_view_change_in_progress ?n" "pb_low_watermark ?n = 1" "pb_last_sequence ?n = 1"
    "pb_watermark_window ?n = 128" "pb_committed ?n = [1]" by code_simp+
  with requests_accepted [of ?n 128 toy_crypto "''a''" "''x''"] show ?thesis by (simp add: busy_node_def busy_run_def)
qed

theorem pbft_request_capacity_witness: "pb_last_sequence busy_node = 129 \<and> handle_request toy_crypto ''y'' busy_node = (None, [], [], busy_node)"
proof -
  let ?ids = "[''a'', ''b'', ''c'', ''d'']"
  have "pbft_init toy_crypto ''a'' ?ids (Some 1) ''a'' (map (\<lambda>k. (k, k)) ?ids) = Inr (pw_nodes (toy_net ?ids 1) ''a'')"
    by (simp add: toy_net_def pbft_init_def)
  from pbft_request_capacity [OF this _ busy_node_def, of "''y''"] busy_node_full show ?thesis by simp
qed

section \<open>The primary does not prepare\<close>

text \<open>
  Runs without an adversary: only messages that have been sent are delivered, in any order and any number of times, and only to the
  nodes that are alive.
\<close>

inductive crash_reach :: "('o, 'k) pbft_crypto \<Rightarrow> string set \<Rightarrow> ('o, 'k) pbft_net \<Rightarrow> ('o, 'k) pbft_net \<Rightarrow> bool"
  for cr :: "('o, 'k) pbft_crypto" and A :: "string set" and w0 :: "('o, 'k) pbft_net"
  where
  start: "crash_reach cr A w0 w0"
| event: "crash_reach cr A w0 w \<Longrightarrow> receiver ev \<in> A \<Longrightarrow> \<forall>m. event_message ev = Some m \<longrightarrow> m \<in> set (pw_sent w)
     \<Longrightarrow> crash_reach cr A w0 (pbft_exec cr ev w)"

definition quiet_msgs :: "string \<Rightarrow> string set \<Rightarrow> 'o pbft_message set \<Rightarrow> bool" where
  "quiet_msgs p A G \<longleftrightarrow> (\<forall>m \<in> G. mg_phase m = PRE_PREPARE \<and> mg_sender m = p \<or> mg_phase m = PREPARE \<and> mg_sender m \<in> A - {p})"

definition quiet_node :: "string \<Rightarrow> string set \<Rightarrow> int \<Rightarrow> ('o, 'k) pbft \<Rightarrow> bool" where
  "quiet_node p A f n \<longleftrightarrow> pb_f n = f \<and> pb_primary n = p \<and> pb_node_id n \<in> A \<and> pb_committed n = []
     \<and> (\<forall>s. mg_sender ` set (log_at s (pb_prepare_log n)) \<subseteq> A - {p})"

definition quiet_lead :: "string \<Rightarrow> 'o pbft_message set \<Rightarrow> ('o, 'k) pbft \<Rightarrow> bool" where
  "quiet_lead p G n \<longleftrightarrow> (pb_node_id n = p \<longrightarrow> (\<forall>m \<in> G. mg_phase m = PRE_PREPARE \<longrightarrow> map_of (pb_pre_prepare_log n) (mg_sequence m) \<noteq> None))"

lemma quiet_no_quorum:
  assumes "quiet_node p A f n" and "finite A" and "int (card (A - {p})) \<le> 2 * f"
  shows "try_prepare_quorum cr s d n = ([], [], n)"
proof -
  have "card (mg_sender ` set (log_at s (pb_prepare_log n))) \<le> card (A - {p})"
    using assms(1,2) by (intro card_mono) (auto simp: quiet_node_def)
  then have "int (length (matching_senders d (log_at s (pb_prepare_log n)))) < pb_quorum_size n"
    using length_matching [of d "log_at s (pb_prepare_log n)"] assms(1,3) by (simp add: quiet_node_def pb_quorum_size_def)
  then show ?thesis by (simp add: try_prepare_quorum_def)
qed

lemma quiet_vote:
  "quiet_node p A f n \<Longrightarrow> mg_sender m \<in> A - {p} \<Longrightarrow> quiet_node p A f (n\<lparr>pb_prepare_log := log_add s m (pb_prepare_log n)\<rparr>)"
  by (auto simp: quiet_node_def pb_primary_def)

lemma quiet_frame [simp]:
  "quiet_node p A f (n\<lparr>pb_pre_prepare_log := l\<rparr>) = quiet_node p A f n" "quiet_node p A f (n\<lparr>pb_last_sequence := k\<rparr>) = quiet_node p A f n"
  by (simp_all add: quiet_node_def pb_primary_def)

lemma quiet_node_primary: "quiet_node p A f n \<Longrightarrow> pb_primary n = p"
  by (simp add: quiet_node_def)

lemma quiet_handle:
  assumes n: "quiet_node p A f n" and A: "finite A" "int (card (A - {p})) \<le> 2 * f" and G: "quiet_msgs p A G" "quiet_lead p G n"
    and ev: "\<forall>m. event_message ev = Some m \<longrightarrow> m \<in> G" and run: "pbft_handle cr ev n = (sent, ops, n')"
  shows "quiet_node p A f n' \<and> quiet_msgs p A (set sent) \<and> quiet_lead p (G \<union> set sent) n' \<and> ops = []"
proof (cases ev)
  case (ClientRequest i x)
  then obtain r where r: "handle_request cr x n = (r, sent, ops, n')" using run by (metis pbft_handle.simps(1) prod.collapse)
  then have "ops = []" by (auto simp: handle_request_def accept_pre_prepare_def Let_def split: if_splits option.splits)
  then show ?thesis
  proof (cases "sent = []")
    case True
    with r handle_request_idle have "n' = n" by metis
    with True \<open>ops = []\<close> n G show ?thesis by (simp add: quiet_msgs_def)
  next
    case False
    from handle_request_run [OF r False] n G \<open>ops = []\<close> show ?thesis
      by (auto simp: quiet_msgs_def quiet_lead_def quiet_node_primary pb_is_primary_def)
  qed
next
  case (PrePrepareMsg i m)
  show ?thesis
  proof (cases "n' = n \<and> sent = [] \<and> ops = []")
    case True with n G show ?thesis by (simp add: quiet_msgs_def)
  next
    case False
    let ?s = "mg_sequence m"
    let ?p = "own_message cr PREPARE (pb_view n) ?s (mg_digest m) n"
    let ?n = "n\<lparr>pb_pre_prepare_log := AList.update ?s m (pb_pre_prepare_log n), pb_prepare_log := log_add ?s ?p (pb_prepare_log n)\<rparr>"
    have v: "pre_prepare_valid cr False m n" and fresh: "map_of (pb_pre_prepare_log n) ?s = None"
      using run PrePrepareMsg False by (auto simp: handle_pre_prepare_def accept_pre_prepare_def split: if_splits option.splits)
    have "mg_phase m = PRE_PREPARE" "m \<in> G" using v ev PrePrepareMsg by (auto simp: pre_prepare_valid_def)
    with fresh G(2) n have me: "pb_node_id n \<in> A - {p}" by (auto simp: quiet_lead_def quiet_node_def)
    have "quiet_node p A f ?n"
      using quiet_vote [of p A f "n\<lparr>pb_pre_prepare_log := AList.update ?s m (pb_pre_prepare_log n)\<rparr>" ?p ?s] n me by simp
    then have "try_prepare_quorum cr ?s (mg_digest m) ?n = ([], [], ?n)" by (rule quiet_no_quorum [OF _ A])
    with run PrePrepareMsg v fresh have "sent = [?p]" "ops = []" "n' = ?n"
      by (auto simp: handle_pre_prepare_def accept_pre_prepare_def Let_def)
    with \<open>quiet_node p A f ?n\<close> G me show ?thesis by (auto simp: quiet_msgs_def quiet_lead_def)
  qed
next
  case (PrepareMsg i m)
  show ?thesis
  proof (cases "n' = n \<and> sent = [] \<and> ops = []")
    case True with n G show ?thesis by (simp add: quiet_msgs_def)
  next
    case False
    let ?n = "n\<lparr>pb_prepare_log := log_add (mg_sequence m) m (pb_prepare_log n)\<rparr>"
    have t: "try_prepare_quorum cr (mg_sequence m) (mg_digest m) ?n = (sent, ops, n')" and ph: "mg_phase m = PREPARE"
      using run PrepareMsg False by (auto simp: handle_prepare_def split: if_splits option.splits)
    have "mg_sender m \<in> A - {p}" using ph ev PrepareMsg G(1) by (auto simp: quiet_msgs_def)
    then have q: "quiet_node p A f ?n" by (rule quiet_vote [OF n])
    from quiet_no_quorum [OF q A] t q G show ?thesis by (auto simp: quiet_msgs_def quiet_lead_def)
  qed
next
  case (CommitMsg i m)
  then have "mg_phase m \<noteq> COMMIT" using ev G(1) by (auto simp: quiet_msgs_def)
  with run CommitMsg n G show ?thesis by (simp add: handle_commit_def quiet_msgs_def)
qed


lemma pre_prepare_sender:
  assumes "pbft_handle cr ev n = (sent, ops, n')" and "m \<in> set sent" and "mg_phase m = PRE_PREPARE"
  shows "mg_sender m = pb_node_id n"
proof (cases ev)
  case (ClientRequest i x)
  then obtain r where r: "handle_request cr x n = (r, sent, ops, n')" using assms(1) by (metis pbft_handle.simps(1) prod.collapse)
  moreover have "sent \<noteq> []" using assms(2) by auto
  ultimately show ?thesis using handle_request_run assms(2) by fastforce
qed (use assms in \<open>auto simp: handle_pre_prepare_def accept_pre_prepare_def handle_prepare_def handle_commit_def try_prepare_quorum_def Let_def
       split: if_splits option.splits prod.splits\<close>)

definition quiet_net :: "string \<Rightarrow> string set \<Rightarrow> int \<Rightarrow> ('o, 'k) pbft_net \<Rightarrow> bool" where
  "quiet_net p A f w \<longleftrightarrow> quiet_msgs p A (set (pw_sent w))
     \<and> (\<forall>i \<in> A. pb_node_id (pw_nodes w i) = i \<and> quiet_node p A f (pw_nodes w i) \<and> quiet_lead p (set (pw_sent w)) (pw_nodes w i))"

lemma quiet_exec:
  assumes w: "quiet_net p A f w" and A: "finite A" "int (card (A - {p})) \<le> 2 * f" and r: "receiver ev \<in> A"
    and ev: "\<forall>m. event_message ev = Some m \<longrightarrow> m \<in> set (pw_sent w)"
  shows "quiet_net p A f (pbft_exec cr ev w)"
proof -
  let ?i = "receiver ev" and ?G = "set (pw_sent w)"
  obtain sent ops n' where run: "pbft_handle cr ev (pw_nodes w ?i) = (sent, ops, n')" by (metis prod_cases3)
  have i: "pb_node_id (pw_nodes w ?i) = ?i" "quiet_node p A f (pw_nodes w ?i)" "quiet_lead p ?G (pw_nodes w ?i)" and G: "quiet_msgs p A ?G"
    using w r by (auto simp: quiet_net_def)
  note step = quiet_handle [OF i(2) A G i(3) ev run]
  have own: "mg_sender m = p \<Longrightarrow> ?i = p" if "m \<in> set sent" "mg_phase m = PRE_PREPARE" for m
    using pre_prepare_sender [OF run that] i by (simp add: quiet_node_def)
  have id: "pb_node_id n' = ?i" using pbft_handle_conf [OF run] i(1) by (simp add: pb_conf_def)
  have "quiet_lead p (?G \<union> set sent) (pw_nodes w j)" if "j \<in> A" "j \<noteq> ?i" for j
    using w that own step by (auto simp: quiet_net_def quiet_lead_def quiet_msgs_def)
  with step id G w show ?thesis by (auto simp: quiet_net_def pbft_exec_def run quiet_msgs_def)
qed

lemma quiet_reach:
  assumes "crash_reach cr A w0 w" and "quiet_net p A f w0" and "finite A" and "int (card (A - {p})) \<le> 2 * f"
  shows "quiet_net p A f w"
  using assms by (induction rule: crash_reach.induct) (auto intro: quiet_exec)

lemma quiet_fresh:
  "pbft_init cr i ids (Some f) key keys = Inr n \<Longrightarrow> i \<in> A \<Longrightarrow> pb_node_id n = i \<and> quiet_node (sort ids ! 0) A f n"
  by (auto simp: pbft_init_def quiet_node_def pb_primary_def log_at_def split: if_splits)

lemma quiet_started:
  assumes "pbft_started cr ids f A w"
  shows "quiet_net (sort ids ! 0) A f w"
proof -
  have "pb_node_id (pw_nodes w i) = i \<and> quiet_node (sort ids ! 0) A f (pw_nodes w i)" if "i \<in> A" for i
    using assms that quiet_fresh unfolding pbft_started_def by metis
  with assms show ?thesis by (simp add: pbft_started_def quiet_net_def quiet_msgs_def quiet_lead_def)
qed

text \<open>C9: The primary never votes in the prepare phase, so its vote is missing. When only messages that were sent are delivered and at most \<open>2 f\<close>
  backups are alive, which with \<open>3 f + 1\<close> members is the case as soon as \<open>f\<close> backups have crashed, no node ever commits
  anything, however often and in whatever order the messages arrive.\<close>
theorem pbft_crash_stalls:
  assumes "pbft_started cr ids f A w0" and "int (card (A - {sort ids ! 0})) \<le> 2 * f" and "crash_reach cr A w0 w" and "i \<in> A"
  shows "pb_committed (pw_nodes w i) = [] \<and> get_committed_operations (pw_nodes w i) = []"
proof -
  have "finite A" using assms(1) finite_subset unfolding pbft_started_def by blast
  from quiet_reach [OF assms(3) quiet_started [OF assms(1)] this assms(2)] assms(4)
  show ?thesis by (simp add: quiet_net_def quiet_node_def get_committed_operations_def)
qed

text \<open>Four members, the last one down: request, pre-prepare and both prepares reach everyone alive.\<close>

definition stalled_run :: "string pbft_event list" where
  "stalled_run = [ClientRequest ''a'' ''op'', PrePrepareMsg ''b'' (toy_msg PRE_PREPARE ''a'' ''op''), PrePrepareMsg ''c'' (toy_msg PRE_PREPARE ''a'' ''op''),
     PrepareMsg ''a'' (toy_msg PREPARE ''b'' ''op''), PrepareMsg ''a'' (toy_msg PREPARE ''c'' ''op''),
     PrepareMsg ''b'' (toy_msg PREPARE ''c'' ''op''), PrepareMsg ''c'' (toy_msg PREPARE ''b'' ''op'')]"

fun crash_run_ok :: "('o, 'k) pbft_crypto \<Rightarrow> string list \<Rightarrow> 'o pbft_event list \<Rightarrow> ('o, 'k) pbft_net \<Rightarrow> bool" where
  "crash_run_ok cr hs [] w \<longleftrightarrow> True"
| "crash_run_ok cr hs (ev # evs) w \<longleftrightarrow> receiver ev \<in> set hs \<and> (case event_message ev of None \<Rightarrow> True | Some m \<Rightarrow> m \<in> set (pw_sent w))
     \<and> crash_run_ok cr hs evs (pbft_exec cr ev w)"

lemma crash_run_reach: "crash_run_ok cr hs evs w \<Longrightarrow> crash_reach cr (set hs) w0 w \<Longrightarrow> crash_reach cr (set hs) w0 (fold (pbft_exec cr) evs w)"
proof (induction evs arbitrary: w)
  case (Cons ev evs)
  then have "crash_reach cr (set hs) w0 (pbft_exec cr ev w)" by (intro crash_reach.event) (auto split: option.splits)
  with Cons show ?case by simp
qed simp

definition stalled_net :: "(string, string) pbft_net" where
  "stalled_net = fold (pbft_exec toy_crypto) stalled_run (toy_net [''a'', ''b'', ''c'', ''d''] 1)"

lemma stalled_net_reach: "crash_reach toy_crypto (set [''a'', ''b'', ''c'']) (toy_net [''a'', ''b'', ''c'', ''d''] 1) stalled_net"
proof -
  have "crash_run_ok toy_crypto [''a'', ''b'', ''c''] stalled_run (toy_net [''a'', ''b'', ''c'', ''d''] 1)" by code_simp
  then show ?thesis unfolding stalled_net_def by (rule crash_run_reach [OF _ crash_reach.start])
qed

theorem pbft_crash_stalls_witness:
  "length (log_at 1 (pb_prepare_log (pw_nodes stalled_net ''b''))) = 2 \<and> pb_committed (pw_nodes stalled_net ''b'') = []"
proof -
  let ?ids = "[''a'', ''b'', ''c'', ''d'']" and ?hs = "[''a'', ''b'', ''c'']"
  have st: "pbft_started toy_crypto ?ids 1 (set ?hs) (toy_net ?ids 1)" by (rule toy_started) simp
  have "sort ?ids ! 0 = ''a''" by code_simp
  then have "set ?hs - {sort ?ids ! 0} = {''b'', ''c''}" by auto
  then have c: "int (card (set ?hs - {sort ?ids ! 0})) \<le> 2 * 1" by simp
  have "length (log_at 1 (pb_prepare_log (pw_nodes stalled_net ''b''))) = 2" by code_simp
  with pbft_crash_stalls [OF st c stalled_net_reach, of "''b''"] show ?thesis by simp
qed


section \<open>A round with enough votes\<close>

definition vote_for :: "('o, 'k) pbft_crypto \<Rightarrow> ('o, 'k) pbft \<Rightarrow> pbft_phase \<Rightarrow> 'o pbft_message \<Rightarrow> 'o pbft_message \<Rightarrow> bool" where
  "vote_for cr n ph m q \<longleftrightarrow> mg_phase q = ph \<and> mg_view q = pb_view n \<and> mg_sequence q = mg_sequence m \<and> mg_digest q = mg_digest m
     \<and> mg_sender q \<noteq> pb_node_id n \<and> verify_signature cr n q"

text \<open>The votes of a log at a sequence number, all for one digest and from distinct senders.\<close>

definition votes_from :: "string \<Rightarrow> int \<Rightarrow> string list \<Rightarrow> (int, 'o pbft_message list) dict \<Rightarrow> bool" where
  "votes_from d s vs l \<longleftrightarrow> map mg_sender (log_at s l) = vs \<and> distinct vs \<and> (\<forall>q \<in> set (log_at s l). mg_digest q = d)"

definition same_node :: "('o, 'k) pbft \<Rightarrow> ('o, 'k) pbft \<Rightarrow> bool" where
  "same_node n0 n \<longleftrightarrow> pb_conf n = pb_conf n0 \<and> pb_public_keys n = pb_public_keys n0"

definition voting :: "('o, 'k) pbft \<Rightarrow> 'o pbft_message \<Rightarrow> string list \<Rightarrow> ('o, 'k) pbft \<Rightarrow> bool" where
  "voting n0 m vs n \<longleftrightarrow> same_node n0 n \<and> pb_committed n = [] \<and> map_of (pb_pre_prepare_log n) (mg_sequence m) = Some m
     \<and> votes_from (mg_digest m) (mg_sequence m) vs (pb_prepare_log n)
     \<and> (if int (length vs) \<le> 2 * pb_f n0 then log_at (mg_sequence m) (pb_commit_log n) = []
        else votes_from (mg_digest m) (mg_sequence m) [pb_node_id n0] (pb_commit_log n))"

definition confirming :: "('o, 'k) pbft \<Rightarrow> 'o pbft_message \<Rightarrow> string list \<Rightarrow> string list \<Rightarrow> ('o, 'k) pbft \<Rightarrow> bool" where
  "confirming n0 m vs us n \<longleftrightarrow> same_node n0 n \<and> map_of (pb_pre_prepare_log n) (mg_sequence m) = Some m
     \<and> votes_from (mg_digest m) (mg_sequence m) vs (pb_prepare_log n) \<and> votes_from (mg_digest m) (mg_sequence m) us (pb_commit_log n)
     \<and> pb_committed n = (if int (length us) \<le> 2 * pb_f n0 then [] else [mg_sequence m])"

lemma votes_from_matching: "votes_from d s vs l \<Longrightarrow> length (matching_senders d (log_at s l)) = length vs"
  by (auto simp: votes_from_def matching_senders_def distinct_remdups_id)

lemma votes_from_add: "votes_from d s vs l \<Longrightarrow> mg_sender q \<notin> set vs \<Longrightarrow> mg_digest q = d \<Longrightarrow> votes_from d s (vs @ [mg_sender q]) (log_add s q l)"
  by (auto simp: votes_from_def)

lemma votes_from_first: "log_at s l = [] \<Longrightarrow> mg_digest q = d \<Longrightarrow> votes_from d s [mg_sender q] (log_add s q l)"
  by (simp add: votes_from_def)

lemma same_node_conf:
  "same_node n0 n \<Longrightarrow> pb_f n = pb_f n0 \<and> pb_node_id n = pb_node_id n0 \<and> pb_view n = pb_view n0 \<and> verify_signature cr n = verify_signature cr n0"
  by (simp add: same_node_def pb_conf_def verify_signature_def fun_eq_iff cong: option.case_cong)

lemma same_node_frame [simp]:
  "same_node n0 (n\<lparr>pb_prepare_log := p\<rparr>) = same_node n0 n" "same_node n0 (n\<lparr>pb_commit_log := c\<rparr>) = same_node n0 n"
  "same_node n0 (n\<lparr>pb_pre_prepare_log := l\<rparr>) = same_node n0 n" "same_node n0 (n\<lparr>pb_committed := k\<rparr>) = same_node n0 n"
  "same_node n0 (n\<lparr>pb_committed_ops := j\<rparr>) = same_node n0 n" "same_node n0 (n\<lparr>pb_low_watermark := w\<rparr>) = same_node n0 n"
  by (simp_all add: same_node_def pb_conf_def)

lemma commit_pending:
  assumes "int (length us) \<le> 2 * pb_f n" and "votes_from d s us (pb_commit_log n)"
  shows "try_commit_quorum s d n = ([], n)"
  using assms votes_from_matching [OF assms(2)] by (simp add: try_commit_quorum_def pb_quorum_size_def)

lemma commit_reached:
  assumes "int (length us) = 2 * pb_f n + 1" and "votes_from d s us (pb_commit_log n)" and "pb_committed n = []"
  shows "snd (try_commit_quorum s d n) = advance_watermark (n\<lparr>pb_committed := [s], pb_committed_ops := pb_committed_ops n + 1\<rparr>)"
  using assms votes_from_matching [OF assms(2)] by (simp add: try_commit_quorum_def pb_quorum_size_def)

lemma try_prepare_voting:
  assumes "same_node n0 n" and "pb_committed n = []" and "map_of (pb_pre_prepare_log n) (mg_sequence m) = Some m"
    and "votes_from (mg_digest m) (mg_sequence m) vs (pb_prepare_log n)" and "log_at (mg_sequence m) (pb_commit_log n) = []" and "0 < pb_f n0"
  shows "voting n0 m vs (third (try_prepare_quorum cr (mg_sequence m) (mg_digest m) n))"
proof (cases "int (length vs) \<le> 2 * pb_f n0")
  case True
  then have "try_prepare_quorum cr (mg_sequence m) (mg_digest m) n = ([], [], n)"
    using votes_from_matching [OF assms(4)] same_node_conf [OF assms(1)] by (simp add: try_prepare_quorum_def pb_quorum_size_def)
  with True assms show ?thesis by (simp add: third_def voting_def)
next
  case False
  let ?c = "own_message cr COMMIT (pb_view n) (mg_sequence m) (mg_digest m) n"
  let ?n = "n\<lparr>pb_commit_log := log_add (mg_sequence m) ?c (pb_commit_log n)\<rparr>"
  have c: "votes_from (mg_digest m) (mg_sequence m) [pb_node_id n0] (pb_commit_log ?n)"
    using votes_from_first [OF assms(5), of ?c "mg_digest m"] same_node_conf [OF assms(1)] by simp
  then have "try_commit_quorum (mg_sequence m) (mg_digest m) ?n = ([], ?n)"
    using assms(6) same_node_conf [OF assms(1)] by (intro commit_pending [OF _ c]) simp
  then have "third (try_prepare_quorum cr (mg_sequence m) (mg_digest m) n) = ?n"
    using False assms(2,5) votes_from_matching [OF assms(4)] conjunct1 [OF same_node_conf [OF assms(1)]]
    by (simp add: try_prepare_quorum_def pb_quorum_size_def third_def Let_def)
  with False assms c show ?thesis by (simp add: voting_def)
qed

lemma prepare_step:
  assumes "voting n0 m vs n" and "vote_for cr n0 PREPARE m q" and "mg_sender q \<notin> set vs" and "int (length vs) \<le> 2 * pb_f n0" and "0 < pb_f n0"
  shows "voting n0 m (vs @ [mg_sender q]) (pbft_apply cr (PrepareMsg i q) n)"
proof -
  let ?n = "n\<lparr>pb_prepare_log := log_add (mg_sequence m) q (pb_prepare_log n)\<rparr>"
  have n: "same_node n0 n" "pb_committed n = []" "map_of (pb_pre_prepare_log n) (mg_sequence m) = Some m"
    and vs: "votes_from (mg_digest m) (mg_sequence m) vs (pb_prepare_log n)" and c: "log_at (mg_sequence m) (pb_commit_log n) = []"
    using assms(1,4) by (auto simp: voting_def)
  have q: "mg_phase q = PREPARE" "mg_view q = pb_view n" "mg_sequence q = mg_sequence m" "mg_digest q = mg_digest m" "mg_sender q \<noteq> pb_node_id n"
    "verify_signature cr n q" using assms(2) same_node_conf [OF n(1)] by (auto simp: vote_for_def)
  have "mg_sender q \<notin> mg_sender ` set (log_at (mg_sequence m) (pb_prepare_log n))" using vs assms(3) by (metis votes_from_def list.set_map)
  then have "pbft_apply cr (PrepareMsg i q) n = third (try_prepare_quorum cr (mg_sequence m) (mg_digest m) ?n)"
    using q n(3) by (simp add: pbft_apply_def handle_prepare_def)
  moreover have "voting n0 m (vs @ [mg_sender q]) (third (try_prepare_quorum cr (mg_sequence m) (mg_digest m) ?n))"
    by (rule try_prepare_voting) (use n c votes_from_add [OF vs assms(3) q(4)] assms(5) in simp_all)
  ultimately show ?thesis by simp
qed

lemma prepare_run:
  assumes "voting n0 m vs n" and "\<forall>q \<in> set ps. vote_for cr n0 PREPARE m q" and "distinct (vs @ map mg_sender ps)"
    and "int (length vs + length ps) \<le> 2 * pb_f n0 + 1" and "0 < pb_f n0"
  shows "voting n0 m (vs @ map mg_sender ps) (fold (pbft_apply cr) (map (PrepareMsg i) ps) n)"
  using assms
proof (induction ps arbitrary: vs n)
  case (Cons q ps)
  then have "voting n0 m (vs @ [mg_sender q]) (pbft_apply cr (PrepareMsg i q) n)" by (intro prepare_step) auto
  from Cons.IH [OF this] Cons.prems show ?case by simp
qed simp

lemma commit_step:
  assumes "confirming n0 m vs us n" and "vote_for cr n0 COMMIT m q" and "mg_sender q \<notin> set us" and "int (length us) \<le> 2 * pb_f n0"
    and "int (length vs) = 2 * pb_f n0 + 1"
  shows "confirming n0 m vs (us @ [mg_sender q]) (pbft_apply cr (CommitMsg i q) n)"
proof -
  let ?s = "mg_sequence m" and ?d = "mg_digest m"
  let ?n = "n\<lparr>pb_commit_log := log_add ?s q (pb_commit_log n)\<rparr>"
  have n: "same_node n0 n" "pb_committed n = []" "map_of (pb_pre_prepare_log n) ?s = Some m"
    and vs: "votes_from ?d ?s vs (pb_prepare_log n)" and us: "votes_from ?d ?s us (pb_commit_log n)"
    using assms(1,4) by (auto simp: confirming_def)
  note cf = same_node_conf [OF n(1), of cr]
  have q: "mg_phase q = COMMIT" "mg_view q = pb_view n" "mg_sequence q = ?s" "mg_digest q = ?d" "verify_signature cr n q"
    using assms(2) cf by (auto simp: vote_for_def)
  have us': "votes_from ?d ?s (us @ [mg_sender q]) (pb_commit_log ?n)" using votes_from_add [OF us assms(3) q(4)] by simp
  have "mg_sender q \<notin> mg_sender ` set (log_at ?s (pb_commit_log n))" using us assms(3) by (metis votes_from_def list.set_map)
  then have run: "pbft_apply cr (CommitMsg i q) n = snd (try_commit_quorum ?s ?d ?n)"
    using q votes_from_matching [OF vs] assms(5) cf by (simp add: pbft_apply_def handle_commit_def third_def pb_quorum_size_def split: prod.splits)
  show ?thesis
  proof (cases "int (length us) < 2 * pb_f n0")
    case True
    then have "try_commit_quorum ?s ?d ?n = ([], ?n)" using cf by (intro commit_pending [OF _ us']) simp
    with True n vs us' show ?thesis by (simp add: run confirming_def)
  next
    case False
    then have l: "int (length (us @ [mg_sender q])) = 2 * pb_f ?n + 1" using assms(4) cf by simp
    have "pbft_apply cr (CommitMsg i q) n = advance_watermark (?n\<lparr>pb_committed := [?s], pb_committed_ops := pb_committed_ops n + 1\<rparr>)"
      unfolding run by (subst commit_reached [OF l us']) (use n in simp_all)
    with False n vs us' show ?thesis by (auto simp: confirming_def advance_watermark_def votes_from_def Let_def)
  qed
qed

lemma commit_run:
  assumes "confirming n0 m vs us n" and "\<forall>q \<in> set cs. vote_for cr n0 COMMIT m q" and "distinct (us @ map mg_sender cs)"
    and "int (length us + length cs) \<le> 2 * pb_f n0 + 1" and "int (length vs) = 2 * pb_f n0 + 1"
  shows "confirming n0 m vs (us @ map mg_sender cs) (fold (pbft_apply cr) (map (CommitMsg i) cs) n)"
  using assms
proof (induction cs arbitrary: us n)
  case (Cons q cs)
  then have "confirming n0 m vs (us @ [mg_sender q]) (pbft_apply cr (CommitMsg i q) n)" by (intro commit_step) auto
  from Cons.IH [OF this] Cons.prems show ?case by simp
qed simp

lemma pre_prepare_step:
  assumes "pre_prepare_valid cr False m n" and "map_of (pb_pre_prepare_log n) (mg_sequence m) = None" and "pb_committed n = []"
    and "log_at (mg_sequence m) (pb_prepare_log n) = []" and "log_at (mg_sequence m) (pb_commit_log n) = []" and "0 < pb_f n"
  shows "voting n m [pb_node_id n] (pbft_apply cr (PrePrepareMsg i m) n)"
proof -
  let ?s = "mg_sequence m"
  let ?p = "own_message cr PREPARE (pb_view n) ?s (mg_digest m) n"
  let ?n = "n\<lparr>pb_pre_prepare_log := AList.update ?s m (pb_pre_prepare_log n), pb_prepare_log := log_add ?s ?p (pb_prepare_log n)\<rparr>"
  have "pbft_apply cr (PrePrepareMsg i m) n = third (try_prepare_quorum cr ?s (mg_digest m) ?n)"
    using assms(1,2) by (simp add: pbft_apply_def handle_pre_prepare_def accept_pre_prepare_def third_def Let_def split: prod.splits)
  moreover have "voting n m [pb_node_id n] (third (try_prepare_quorum cr ?s (mg_digest m) ?n))"
    by (rule try_prepare_voting) (use assms(3-6) votes_from_first [OF assms(4), of ?p] in \<open>simp_all add: same_node_def pb_conf_def\<close>)
  ultimately show ?thesis by simp
qed

text \<open>C10: A round with enough votes ends in a commit. A fresh backup that receives a valid pre-prepare of the primary, then prepare votes of \<open>2 f\<close>
  distinct other nodes and then commit votes of \<open>2 f\<close> distinct other nodes, in any order within a phase, has committed exactly
  the operation of the pre-prepare under its sequence number, and its low watermark is that number.\<close>
theorem pbft_backup_commits:
  assumes "pbft_init cr i ids (Some f) key keys = Inr n0" and "0 < f"
    and "pre_prepare_valid cr False m n0" and "mg_operation m = Some x"
    and "\<forall>q \<in> set ps. vote_for cr n0 PREPARE m q" and "distinct (map mg_sender ps)" and "int (length ps) = 2 * f"
    and "\<forall>q \<in> set cs. vote_for cr n0 COMMIT m q" and "distinct (map mg_sender cs)" and "int (length cs) = 2 * f"
    and "n = fold (pbft_apply cr) (PrePrepareMsg i m # map (PrepareMsg i) ps @ map (CommitMsg i) cs) n0"
  shows "get_committed_operations n = [(mg_sequence m, x)] \<and> pb_committed n = [mg_sequence m]"
proof -
  have fresh: "pb_node_id n0 = i" "pb_f n0 = f" "pb_committed n0 = []" "pb_pre_prepare_log n0 = []" "pb_prepare_log n0 = []" "pb_commit_log n0 = []"
    using assms(1) by (auto simp: pbft_init_def split: if_splits)
  have others: "i \<notin> set (map mg_sender ps)" "i \<notin> set (map mg_sender cs)" using assms(5,8) fresh(1) by (auto simp: vote_for_def)
  have "voting n0 m [i] (pbft_apply cr (PrePrepareMsg i m) n0)"
    using pre_prepare_step [OF assms(3), of i] fresh assms(2) by (simp add: log_at_def)
  then have "voting n0 m ([i] @ map mg_sender ps) (fold (pbft_apply cr) (map (PrepareMsg i) ps) (pbft_apply cr (PrePrepareMsg i m) n0))"
    by (rule prepare_run) (use assms(2,5-7) others fresh in simp_all)
  then have "confirming n0 m (i # map mg_sender ps) [i] (fold (pbft_apply cr) (map (PrepareMsg i) ps) (pbft_apply cr (PrePrepareMsg i m) n0))"
    using assms(2,7) fresh by (simp add: voting_def confirming_def)
  then have "confirming n0 m (i # map mg_sender ps) ([i] @ map mg_sender cs) n"
    unfolding assms(11) fold_append list.map fold_Cons comp_def fold.simps
    by (rule commit_run [where i = i, simplified]) (use assms(7-10) others fresh in simp_all)
  with assms(4,10) fresh show ?thesis by (simp add: confirming_def get_committed_operations_def)
qed


text \<open>Backup \<open>b\<close> of four, with the votes of \<open>c\<close> and \<open>d\<close>.\<close>

definition round_of :: "string pbft_event list" where
  "round_of = PrePrepareMsg ''b'' (toy_msg PRE_PREPARE ''a'' ''op'') # map (PrepareMsg ''b'') [toy_msg PREPARE ''d'' ''op'', toy_msg PREPARE ''c'' ''op'']
     @ map (CommitMsg ''b'') [toy_msg COMMIT ''c'' ''op'', toy_msg COMMIT ''a'' ''op'']"

theorem pbft_backup_commits_witness:
  "get_committed_operations (fold (pbft_apply toy_crypto) round_of (pw_nodes (toy_net [''a'', ''b'', ''c'', ''d''] 1) ''b'')) = [(1, ''op'')]"
proof -
  let ?ids = "[''a'', ''b'', ''c'', ''d'']" and ?m = "toy_msg PRE_PREPARE ''a'' ''op''"
  let ?n = "pw_nodes (toy_net ?ids 1) ''b''"
  let ?ps = "[toy_msg PREPARE ''d'' ''op'', toy_msg PREPARE ''c'' ''op'']" and ?cs = "[toy_msg COMMIT ''c'' ''op'', toy_msg COMMIT ''a'' ''op'']"
  have init: "pbft_init toy_crypto ''b'' ?ids (Some 1) ''b'' (map (\<lambda>k. (k, k)) ?ids) = Inr ?n" by (simp add: toy_net_def pbft_init_def)
  have v: "pre_prepare_valid toy_crypto False ?m ?n" "mg_operation ?m = Some ''op''" by code_simp+
  have p: "\<forall>q \<in> set ?ps. vote_for toy_crypto ?n PREPARE ?m q" "distinct (map mg_sender ?ps)" by code_simp+
  have c: "\<forall>q \<in> set ?cs. vote_for toy_crypto ?n COMMIT ?m q" "distinct (map mg_sender ?cs)" by code_simp+
  have s: "mg_sequence ?m = 1" by code_simp
  from pbft_backup_commits [OF init _ v p _ c _ refl] s show ?thesis by (simp add: round_of_def)
qed

section \<open>View changes\<close>

text \<open>The view never goes back, and a view change touches neither the commits nor the sequence counter.\<close>

definition same_commits :: "('o, 'k) pbft \<Rightarrow> ('o, 'k) pbft \<Rightarrow> bool" where
  "same_commits n n' \<longleftrightarrow> pb_view n \<le> pb_view n' \<and> pb_committed n' = pb_committed n \<and> pb_last_sequence n' = pb_last_sequence n
     \<and> pb_commit_log n' = pb_commit_log n
     \<and> (\<forall>s m. map_of (pb_pre_prepare_log n) s = Some m \<longrightarrow> map_of (pb_pre_prepare_log n') s = Some m)"

lemma same_commits_trans: "same_commits n n' \<Longrightarrow> same_commits n' n'' \<Longrightarrow> same_commits n n''"
  by (simp add: same_commits_def)

lemma replay_one_keeps: "same_commits n (snd (replay_one cr v e (sent, n)))"
  by (auto simp: replay_one_def same_commits_def Let_def split: prod.splits)

lemma replay_keeps: "same_commits n (snd (fold (replay_one cr v) es (sent, n)))"
proof (induction es arbitrary: sent n)
  case (Cons e es)
  obtain sent' n' where e: "replay_one cr v e (sent, n) = (sent', n')" by (metis prod.exhaust)
  with Cons.IH [of n' sent'] replay_one_keeps [of n cr v e sent] show ?case by (auto intro: same_commits_trans)
qed (simp add: same_commits_def)

lemma handle_new_view_keeps: "same_commits n (snd (handle_new_view cr m n))"
proof (cases "vm_new_view m \<le> pb_view n \<or> \<not> verify_view_message cr n ''new_view'' m")
  case False
  let ?n = "n\<lparr>pb_view := vm_new_view m, pb_view_change_in_progress := False\<rparr>"
  have "same_commits n (set_node_status (pb_primary ?n) ACTIVE ?n)" using False by (simp add: same_commits_def set_node_status_def)
  with False show ?thesis by (auto simp: handle_new_view_def Let_def intro: same_commits_trans replay_keeps)
qed (simp add: handle_new_view_def same_commits_def)

text \<open>The new primary has already moved to the view when it hands the message to itself, so it replays nothing.\<close>

lemma broadcast_skips_replay:
  "broadcast_new_view cr v ms n = (sent, n') \<Longrightarrow> sent = [] \<and> pb_pre_prepare_log n' = pb_pre_prepare_log n \<and> pb_view n' = v"
  by (auto simp: broadcast_new_view_def handle_new_view_def Let_def split: prod.splits)

lemma handle_view_change_keeps: "same_commits n (snd (handle_view_change cr m n))"
proof (cases "snd (handle_view_change cr m n) = n")
  case False
  let ?v = "vm_new_view m"
  have v: "pb_view n < ?v" using False by (auto simp: handle_view_change_def Let_def split: if_splits)
  then show ?thesis
    by (auto simp: handle_view_change_def broadcast_new_view_def handle_new_view_def same_commits_def Let_def split: prod.splits)
qed (simp add: same_commits_def)

text \<open>A view-change message of the toy cluster for view 1.\<close>

definition toy_view_change :: "string \<Rightarrow> int \<Rightarrow> string view_message" where
  "toy_view_change i lc = \<lparr>vm_node_id = Some i, vm_sender = None, vm_new_view = 1, vm_last_committed = lc,
     vm_signature = Some (i @ ''/'' @ view_payload ''view_change'' i 1 lc), vm_pre_prepare_log = [], vm_prepare_log = []\<rparr>"

text \<open>One member alone makes the next primary change the view by repeating its message.\<close>

lemma repeated_view_change:
  "let n = pw_nodes (toy_net [''a'', ''b'', ''c'', ''d''] 1) ''b'';
       n' = snd (handle_view_change toy_crypto (toy_view_change ''d'' 0) (snd (handle_view_change toy_crypto (toy_view_change ''d'' 0)
              (snd (handle_view_change toy_crypto (toy_view_change ''d'' 0) n)))))
   in pb_view n = 0 \<and> pb_view n' = 1 \<and> pb_is_primary n'"
  by code_simp

text \<open>Any member installs a view of its choice, with pre-prepares of its choice, without any view change going before.\<close>

definition forged_view :: "string view_message" where
  "forged_view = \<lparr>vm_node_id = None, vm_sender = Some ''d'', vm_new_view = 7, vm_last_committed = 0,
     vm_signature = Some (''d/'' @ view_payload ''new_view'' ''d'' 7 0), vm_pre_prepare_log = [(1, toy_msg PRE_PREPARE ''a'' ''forged'')], vm_prepare_log = []\<rparr>"

lemma forged_view_installed:
  "let (sent, n) = handle_new_view toy_crypto forged_view (pw_nodes (toy_net [''a'', ''b'', ''c'', ''d''] 1) ''b'')
   in pb_view n = 7 \<and> map mg_digest sent = [''forged''] \<and> (case map_of (pb_pre_prepare_log n) 1 of None \<Rightarrow> False | Some pp \<Rightarrow> mg_operation pp = Some ''forged'')"
  by code_simp

text \<open>
  A backup does not advance its sequence counter, so after an ordinary view change the new primary starts again at 1 and its own
  log forgets the operation it has committed there.
\<close>

definition led_node :: "(string, string) pbft" where
  "led_node = fold (\<lambda>m n. snd (handle_view_change toy_crypto m n)) [toy_view_change ''c'' 1, toy_view_change ''d'' 1]
     (suspect_primary toy_crypto 5 (pw_nodes good_net ''b''))"

lemma new_primary_overwrites_committed:
  "get_committed_operations (pw_nodes good_net ''b'') = [(1, ''op'')] \<and> pb_view led_node = 1
   \<and> get_committed_operations led_node = [(1, ''op'')]
   \<and> get_committed_operations (snd (snd (snd (handle_request toy_crypto ''new'' led_node)))) = [(1, ''new'')]"
proof (intro conjI)
  show "get_committed_operations (pw_nodes good_net ''b'') = [(1, ''op'')]" by code_simp
  show "pb_view led_node = 1" by code_simp
  show "get_committed_operations led_node = [(1, ''op'')]" by code_simp
  show "get_committed_operations (snd (snd (snd (handle_request toy_crypto ''new'' led_node)))) = [(1, ''new'')]" by code_simp
qed

end
