(* ===== verification/Quorum.thy ===== *)
theory Quorum
  imports Prelude
begin

text \<open>
  \<^verbatim>\<open>QuorumManager\<close> of \<^verbatim>\<open>src/distllm/dist/byzantine.py\<close>: quorum sizes, the test for agreeing responses and the collection of
  responses from peers. A response is what its digest depends on; SHA-256 is a parameter, and so is \<^verbatim>\<open>str\<close> of floats and bytes,
  which are given by their text. The peers that answer before the timeout, in the order in which they do, are an input.
\<close>

section \<open>Sizes\<close>

datatype fault_model = PBFT | CRASH_ONLY

record quorum_manager =
  qm_total :: int
  qm_f :: int
  qm_model :: fault_model

definition quorum_manager_init :: "int \<Rightarrow> int option \<Rightarrow> fault_model \<Rightarrow> quorum_manager" where
  "quorum_manager_init n f model = \<lparr>qm_total = n, qm_f = (case f of None \<Rightarrow> (n - 1) div 3 | Some x \<Rightarrow> x), qm_model = model\<rparr>"

definition quorum_size :: "quorum_manager \<Rightarrow> int" where
  "quorum_size q = (if qm_model q = PBFT then 2 * qm_f q + 1 else qm_f q + 1)"

definition maximum_fault_tolerance :: "quorum_manager \<Rightarrow> int" where
  "maximum_fault_tolerance q = (if qm_model q = PBFT then qm_f q else qm_total q - quorum_size q)"

definition required_total_for_f :: "int \<Rightarrow> int" where
  "required_total_for_f f = 3 * f + 1"

definition max_byzantine_faults :: "int \<Rightarrow> int" where
  "max_byzantine_faults n = (n - 1) div 3"

section \<open>Agreement\<close>

datatype response =
    RStr string
  | RInt int
  | RBool bool
  | RText string
  | RJson string
  | RObject nat

fun response_digest :: "(string \<Rightarrow> string) \<Rightarrow> response \<Rightarrow> string" where
  "response_digest sha (RStr s) = s"
| "response_digest sha (RInt i) = dec_int i"
| "response_digest sha (RBool b) = (if b then ''True'' else ''False'')"
| "response_digest sha (RText t) = t"
| "response_digest sha (RJson j) = sha j"
| "response_digest sha (RObject i) = dec i"

definition valid_responses :: "(string, response option) dict \<Rightarrow> (string, response) dict" where
  "valid_responses rs = concat (map (\<lambda>(n, r). case r of None \<Rightarrow> [] | Some x \<Rightarrow> [(n, x)]) rs)"

definition agreement :: "(string \<Rightarrow> string) \<Rightarrow> (string, response) dict \<Rightarrow> (string, string list) dict" where
  "agreement sha vs = fold (\<lambda>(n, r) d. AList.update (response_digest sha r)
     ((case map_of d (response_digest sha r) of None \<Rightarrow> [] | Some ns \<Rightarrow> ns) @ [n]) d) vs []"

definition check_quorum :: "(string \<Rightarrow> string) \<Rightarrow> quorum_manager \<Rightarrow> (string, response option) dict \<Rightarrow> py_error + bool" where
  "check_quorum sha q rs =
     (let vs = valid_responses rs in
      if int (length vs) < quorum_size q then Inr False
      else case agreement sha vs of
             [] \<Rightarrow> Inl ValueError
           | (k, ns) # d \<Rightarrow> Inr (int (fold (\<lambda>(k, ns). max (length ns)) d (length ns)) \<ge> quorum_size q))"

text \<open>\<^verbatim>\<open>Counter\<close> keeps first occurrences in order; \<^verbatim>\<open>most_common(1)\<close> is the first entry with the largest count.\<close>

definition vote_counter :: "string list \<Rightarrow> (string, nat) dict" where
  "vote_counter ks = fold (\<lambda>k d. AList.update k ((case map_of d k of None \<Rightarrow> 0 | Some c \<Rightarrow> c) + 1) d) ks []"

fun most_common :: "(string, nat) dict \<Rightarrow> string \<times> nat \<Rightarrow> string \<times> nat" where
  "most_common [] best = best"
| "most_common (e # es) best = most_common es (if snd e > snd best then e else best)"

definition check_consensus_quorum :: "(string \<Rightarrow> string) \<Rightarrow> quorum_manager \<Rightarrow> (string, response option) dict \<Rightarrow> bool \<times> response option" where
  "check_consensus_quorum sha q vts =
     (let vs = valid_responses vts in
      if int (length vs) < quorum_size q then (False, None)
      else case vote_counter (map (\<lambda>(n, v). response_digest sha v) vs) of
             [] \<Rightarrow> (False, None)
           | e # es \<Rightarrow>
               let (d, c) = most_common es e in
               if int c \<ge> quorum_size q
               then (case find (\<lambda>(n, v). response_digest sha v = d) vs of Some (n, v) \<Rightarrow> (True, Some v) | None \<Rightarrow> (False, None))
               else (False, None))"

section \<open>Collecting responses\<close>

record quorum_result =
  qr_success :: bool
  qr_responses :: "response list"
  qr_faulty_nodes :: "string list"

text \<open>
  An answer is \<open>Some r\<close> for a response \<open>r\<close> (which may be \<^verbatim>\<open>None\<close>) and \<open>None\<close> when sending or parsing raised. The early test after an answer
  ends a task that is over anyway; when it raises, the answer counts as a failure.
\<close>

definition peer_answer ::
    "(string \<Rightarrow> string) \<Rightarrow> quorum_manager \<Rightarrow> string \<times> response option option \<Rightarrow> (string, response option) dict \<times> string list
     \<Rightarrow> (string, response option) dict \<times> string list" where
  "peer_answer sha q a acc =
     (let (p, ans) = a; (rs, faulty) = acc in
      case ans of
        None \<Rightarrow> (AList.update p None rs, faulty @ [p])
      | Some r \<Rightarrow> (case check_quorum sha q (AList.update p r rs) of
                    Inl e \<Rightarrow> (AList.update p None rs, faulty @ [p])
                  | Inr ok \<Rightarrow> (AList.update p r rs, faulty)))"

definition collect_quorum :: "(string \<Rightarrow> string) \<Rightarrow> quorum_manager \<Rightarrow> 'p list \<Rightarrow> (string \<times> response option option) list \<Rightarrow> py_error + quorum_result" where
  "collect_quorum sha q peers answers =
     (if peers = [] then Inl ValueError
      else let (rs, faulty) = fold (peer_answer sha q) answers ([], []) in
           case check_quorum sha q rs of
             Inl e \<Rightarrow> Inl e
           | Inr ok \<Rightarrow> Inr \<lparr>qr_success = ok, qr_responses = map snd (valid_responses rs), qr_faulty_nodes = faulty\<rparr>)"


section \<open>What the tests decide\<close>

text \<open>The nodes whose valid response has a digest.\<close>

definition voters :: "(string \<Rightarrow> string) \<Rightarrow> string \<Rightarrow> (string, response) dict \<Rightarrow> string list" where
  "voters sha d vs = map fst (filter (\<lambda>(n, r). response_digest sha r = d) vs)"

lemma voters_simps [simp]: "voters sha d [] = []"
  "voters sha d ((n, r) # vs) = (if response_digest sha r = d then n # voters sha d vs else voters sha d vs)"
  "voters sha d (vs @ ws) = voters sha d vs @ voters sha d ws"
  by (simp_all add: voters_def)

lemma agreement_voters: "map_of (agreement sha vs) d = (if voters sha d vs = [] then None else Some (voters sha d vs))"
  by (induction vs rule: rev_induct) (auto simp: agreement_def split: if_splits)

lemma agreement_Nil: "agreement sha vs = [] \<longleftrightarrow> vs = []"
  by (cases vs rule: rev_cases) (auto simp: agreement_def)

lemma agreement_wf: "dict_wf (agreement sha vs)"
  by (induction vs rule: rev_induct) (auto simp: agreement_def)

lemma fold_max_iff: "(x :: int) \<le> int (fold (\<lambda>(k, ns). max (length ns)) d m) \<longleftrightarrow> x \<le> int m \<or> (\<exists>(k, ns) \<in> set d. x \<le> int (length ns))"
  by (induction d arbitrary: m) (auto simp: max_def split: if_splits)

lemma voters_enough:
  assumes "1 \<le> (x :: int)"
  shows "(\<exists>(k, ns) \<in> set (agreement sha vs). x \<le> int (length ns)) \<longleftrightarrow> (\<exists>d. x \<le> int (length (voters sha d vs)))"
proof -
  have mem: "(k, ns) \<in> set (agreement sha vs) \<longleftrightarrow> ns = voters sha k vs \<and> voters sha k vs \<noteq> []" for k ns
    by (auto simp: dict_mem_iff [OF agreement_wf] agreement_voters)
  have "voters sha d vs \<noteq> []" if "x \<le> int (length (voters sha d vs))" for d using that assms by auto
  then have "(d, voters sha d vs) \<in> set (agreement sha vs)" if "x \<le> int (length (voters sha d vs))" for d using that by (simp add: mem)
  then show ?thesis using mem by (metis (mono_tags, lifting) case_prodE case_prodI)
qed

lemma voters_le: "length (voters sha d vs) \<le> length vs"
  by (simp add: voters_def)

lemma check_quorum_iff:
  assumes "1 \<le> quorum_size q"
  shows "check_quorum sha q rs = Inr (\<exists>d. quorum_size q \<le> int (length (voters sha d (valid_responses rs))))"
proof (cases "int (length (valid_responses rs)) < quorum_size q")
  case True
  have "\<not> quorum_size q \<le> int (length (voters sha d (valid_responses rs)))" for d
    using True voters_le [of sha d "valid_responses rs"] by linarith
  with True show ?thesis by (simp add: check_quorum_def)
next
  case False
  then have "valid_responses rs \<noteq> []" using assms by auto
  then obtain k ns d where a: "agreement sha (valid_responses rs) = (k, ns) # d" using agreement_Nil by (metis list.exhaust surj_pair)
  have "(\<exists>(k, ns) \<in> set (agreement sha (valid_responses rs)). quorum_size q \<le> int (length ns))
     \<longleftrightarrow> quorum_size q \<le> int (fold (\<lambda>(k, ns). max (length ns)) d (length ns))" by (simp add: a fold_max_iff)
  with False a voters_enough [OF assms, of sha "valid_responses rs"] show ?thesis by (simp add: check_quorum_def)
qed

lemma vote_counter_voters:
  "map_of (vote_counter (map (\<lambda>(n, v). response_digest sha v) vs)) d = (if voters sha d vs = [] then None else Some (length (voters sha d vs)))"
  by (induction vs rule: rev_induct) (auto simp: vote_counter_def split: if_splits)

lemma vote_counter_wf: "dict_wf (vote_counter ks)"
  by (induction ks rule: rev_induct) (auto simp: vote_counter_def)

lemma vote_counter_Nil: "vote_counter ks = [] \<longleftrightarrow> ks = []"
  by (cases ks rule: rev_cases) (auto simp: vote_counter_def)

lemma most_common_max: "most_common es e \<in> set (e # es) \<and> (\<forall>x \<in> set (e # es). snd x \<le> snd (most_common es e))"
proof (induction es arbitrary: e)
  case (Cons x es)
  show ?case using Cons [of "if snd x > snd e then x else e"] by (auto split: if_splits)
qed simp

lemma find_voter:
  assumes "voters sha d vs \<noteq> []"
  shows "\<exists>n v. find (\<lambda>(n, v). response_digest sha v = d) vs = Some (n, v) \<and> (n, v) \<in> set vs \<and> response_digest sha v = d"
  using assms by (induction vs) (auto split: prod.splits if_splits)

lemma consensus_iff:
  assumes "1 \<le> quorum_size q" and "check_consensus_quorum sha q vts = (ok, val)"
  shows "(ok \<longleftrightarrow> (\<exists>d. quorum_size q \<le> int (length (voters sha d (valid_responses vts))))) \<and> (ok \<longleftrightarrow> val \<noteq> None)
     \<and> (\<forall>v. val = Some v \<longrightarrow> v \<in> snd ` set (valid_responses vts) \<and> quorum_size q \<le> int (length (voters sha (response_digest sha v) (valid_responses vts))))"
proof (cases "int (length (valid_responses vts)) < quorum_size q")
  case True
  have "\<not> quorum_size q \<le> int (length (voters sha d (valid_responses vts)))" for d
    using True voters_le [of sha d "valid_responses vts"] by linarith
  with True assms(2) show ?thesis by (auto simp: check_consensus_quorum_def)
next
  case False
  let ?vs = "valid_responses vts" and ?c = "vote_counter (map (\<lambda>(n, v). response_digest sha v) (valid_responses vts))"
  have "?vs \<noteq> []" using False assms(1) by auto
  then obtain e es where c: "?c = e # es" using vote_counter_Nil by (metis list.exhaust map_is_Nil_conv)
  obtain d n where m: "most_common es e = (d, n)" by (metis prod.exhaust)
  have mem: "(k, i) \<in> set (e # es) \<longleftrightarrow> voters sha k ?vs \<noteq> [] \<and> i = length (voters sha k ?vs)" for k i
    unfolding c [symmetric] dict_mem_iff [OF vote_counter_wf] vote_counter_voters by auto
  have d: "voters sha d ?vs \<noteq> []" "n = length (voters sha d ?vs)" using most_common_max [of es e] mem [of d n] m by auto
  have best: "length (voters sha k ?vs) \<le> n" for k
    using most_common_max [of es e] mem [of k "length (voters sha k ?vs)"] m by (cases "voters sha k ?vs = []") fastforce+
  obtain i v where f: "find (\<lambda>(n, v). response_digest sha v = d) ?vs = Some (i, v)" "(i, v) \<in> set ?vs" "response_digest sha v = d"
    using find_voter [OF d(1)] by blast
  have "(\<exists>k. quorum_size q \<le> int (length (voters sha k ?vs))) \<longleftrightarrow> quorum_size q \<le> int n"
    using best d(2) by (meson order_trans of_nat_mono order_refl)
  with assms(2) False c m f d(2) show ?thesis by (force simp: check_consensus_quorum_def split: if_splits)
qed

text \<open>The two quorum tests agree. With a positive quorum size \<open>check_quorum\<close> never raises and holds exactly when some digest is shared by a quorum
  of the valid responses; \<open>check_consensus_quorum\<close> succeeds in exactly the same cases, and the value it returns is a
  submitted one that a quorum shares.\<close>
theorem quorum_tests_agree:
  assumes "1 \<le> quorum_size q"
  shows "check_quorum sha q rs = Inr (\<exists>d. quorum_size q \<le> int (length (voters sha d (valid_responses rs))))
     \<and> check_quorum sha q rs = Inr (fst (check_consensus_quorum sha q rs))
     \<and> (\<forall>v. snd (check_consensus_quorum sha q rs) = Some v \<longrightarrow>
           v \<in> snd ` set (valid_responses rs) \<and> quorum_size q \<le> int (length (voters sha (response_digest sha v) (valid_responses rs))))"
  using check_quorum_iff [OF assms, of sha rs] consensus_iff [OF assms prod.collapse [symmetric], of sha rs] by simp

theorem quorum_tests_agree_witness:
  "check_quorum id (quorum_manager_init 4 None PBFT) [(''a'', Some (RInt 1)), (''b'', Some (RInt 1)), (''c'', None), (''d'', Some (RInt 1))]
     = Inr (fst (check_consensus_quorum id (quorum_manager_init 4 None PBFT) [(''a'', Some (RInt 1)), (''b'', Some (RInt 1)), (''c'', None), (''d'', Some (RInt 1))]))"
proof -
  have "1 \<le> quorum_size (quorum_manager_init 4 None PBFT)" by (simp add: quorum_manager_init_def quorum_size_def)
  from quorum_tests_agree [OF this] show ?thesis by blast
qed

section \<open>Agreement of clients\<close>

definition manager_quorum :: "quorum_manager \<Rightarrow> string set \<Rightarrow> string set \<Rightarrow> string set \<Rightarrow> bool" where
  "manager_quorum q M H A \<longleftrightarrow> qm_model q = PBFT \<and> finite M \<and> int (card M) \<le> 3 * qm_f q + 1 \<and> int (card (M - H)) \<le> qm_f q
     \<and> A \<subseteq> M \<and> quorum_size q \<le> int (card A)"

interpretation qmq: voting_quorums "manager_quorum q M H" H for q M H
proof unfold_locales
  fix A B
  assume "manager_quorum q M H A" "manager_quorum q M H B"
  then show "A \<inter> B \<inter> H \<noteq> {}" by (intro quorums_share_honest [of M A B "qm_f q" H]) (auto simp: manager_quorum_def quorum_size_def)
qed

lemma valid_responses_mem: "(n, r) \<in> set (valid_responses rs) \<longleftrightarrow> (n, Some r) \<in> set rs"
  by (auto simp: valid_responses_def split: option.splits)

lemma valid_responses_wf: "dict_wf rs \<Longrightarrow> dict_wf (valid_responses rs)"
proof (induction rs)
  case (Cons e rs)
  have "fst ` set (valid_responses rs) \<subseteq> fst ` set rs" by (force simp: valid_responses_mem)
  moreover have "valid_responses (e # rs) = (case snd e of None \<Rightarrow> [] | Some x \<Rightarrow> [(fst e, x)]) @ valid_responses rs"
    by (simp add: valid_responses_def split_beta)
  ultimately show ?case using Cons by (auto simp: dict_wf_def split: option.splits)
qed (simp add: valid_responses_def)

lemma voters_set: "n \<in> set (voters sha d (valid_responses rs)) \<longleftrightarrow> (\<exists>r. (n, Some r) \<in> set rs \<and> response_digest sha r = d)"
  by (force simp: voters_def valid_responses_mem)

lemma voters_distinct: "dict_wf rs \<Longrightarrow> distinct (voters sha d (valid_responses rs))"
  using valid_responses_wf [of rs] by (auto simp: voters_def dict_wf_def intro: distinct_map_filter)

lemma consensus_quorum:
  assumes "dict_wf rs" and "fst ` set rs \<subseteq> M" and "check_consensus_quorum sha q rs = (True, Some v)" and "qm_model q = PBFT" and "0 \<le> qm_f q"
    and "finite M" and "int (card M) \<le> 3 * qm_f q + 1" and "int (card (M - H)) \<le> qm_f q"
  shows "manager_quorum q M H (set (voters sha (response_digest sha v) (valid_responses rs)))"
proof -
  have "1 \<le> quorum_size q" using assms(4,5) by (simp add: quorum_size_def)
  from consensus_iff [OF this assms(3)] have "quorum_size q \<le> int (length (voters sha (response_digest sha v) (valid_responses rs)))" by simp
  moreover have "set (voters sha d (valid_responses rs)) \<subseteq> M" for d using assms(2) voters_set by fastforce
  ultimately show ?thesis using assms by (simp add: manager_quorum_def distinct_card voters_distinct)
qed

text \<open>C12: Clients agree. Two clients that collect votes from a cluster of at most \<open>3 f + 1\<close> members, of which at most \<open>f\<close> lie, and whose honest members
  give both the same vote, cannot reach a consensus on different digests, whichever members answer each of them.\<close>
theorem consensus_values_agree:
  assumes "dict_wf rs" and "dict_wf rs'" and "fst ` set rs \<union> fst ` set rs' \<subseteq> M" and "finite M" and "int (card M) \<le> 3 * qm_f q + 1"
    and "qm_model q = PBFT" and "0 \<le> qm_f q" and "int (card (M - H)) \<le> qm_f q"
    and "\<forall>h \<in> H. \<forall>r r'. (h, Some r) \<in> set rs \<longrightarrow> (h, Some r') \<in> set rs' \<longrightarrow> r = r'"
    and "check_consensus_quorum sha q rs = (True, Some v)" and "check_consensus_quorum sha q rs' = (True, Some v')"
  shows "response_digest sha v = response_digest sha v'"
proof -
  let ?A = "set (voters sha (response_digest sha v) (valid_responses rs))" and ?B = "set (voters sha (response_digest sha v') (valid_responses rs'))"
  have "manager_quorum q M H ?A" by (rule consensus_quorum) (use assms in auto)
  moreover have "manager_quorum q M H ?B" by (rule consensus_quorum) (use assms in auto)
  ultimately obtain h where h: "h \<in> ?A" "h \<in> ?B" "h \<in> H" using qmq.quorums_meet by blast
  then obtain r r' where "(h, Some r) \<in> set rs" "response_digest sha r = response_digest sha v" "(h, Some r') \<in> set rs'" "response_digest sha r' = response_digest sha v'"
    by (auto simp: voters_set)
  with assms(9) h(3) show ?thesis by metis
qed

definition four_votes :: "(string, response option) dict" where
  "four_votes = [(''a'', Some (RStr ''x'')), (''b'', Some (RStr ''x'')), (''c'', Some (RStr ''x'')), (''d'', Some (RStr ''y''))]"

definition other_votes :: "(string, response option) dict" where
  "other_votes = [(''d'', Some (RStr ''x'')), (''b'', Some (RStr ''x'')), (''c'', Some (RStr ''x''))]"

theorem consensus_values_agree_witness:
  "check_consensus_quorum id (quorum_manager_init 4 None PBFT) four_votes = (True, Some (RStr ''x''))
   \<and> check_consensus_quorum id (quorum_manager_init 4 None PBFT) other_votes = (True, Some (RStr ''x''))
   \<and> response_digest id (RStr ''x'') = response_digest id (RStr ''x'')"
proof -
  let ?q = "quorum_manager_init 4 None PBFT" and ?M = "{''a'', ''b'', ''c'', ''d''}" and ?H = "{''a'', ''b'', ''c''}"
  have c: "check_consensus_quorum id ?q four_votes = (True, Some (RStr ''x''))" "check_consensus_quorum id ?q other_votes = (True, Some (RStr ''x''))" by code_simp+
  have q: "qm_f ?q = 1" "qm_model ?q = PBFT" by (simp_all add: quorum_manager_init_def)
  have "?M - ?H = {''d''}" by auto
  then have m: "int (card ?M) \<le> 3 * qm_f ?q + 1" "int (card (?M - ?H)) \<le> qm_f ?q" by (simp_all add: q)
  have "dict_wf four_votes" "dict_wf other_votes" "fst ` set four_votes \<union> fst ` set other_votes \<subseteq> ?M"
    "\<forall>h \<in> ?H. \<forall>r r'. (h, Some r) \<in> set four_votes \<longrightarrow> (h, Some r') \<in> set other_votes \<longrightarrow> r = r'"
    by (auto simp: four_votes_def other_votes_def dict_wf_def)
  from consensus_values_agree [OF this(1-3) _ m(1) q(2) _ m(2) this(4) c] q c show ?thesis by simp
qed

text \<open>
  The crash-fault quorum is not a majority when \<open>f\<close> is the default: of four members two are enough, so two halves of a cluster both
  reach it. And the digest of a scalar is its text, so a number agrees with its numeral.
\<close>

lemma crash_quorums_disjoint:
  "check_quorum id (quorum_manager_init 4 None CRASH_ONLY) [(''a'', Some (RInt 1)), (''b'', Some (RInt 1))] = Inr True
   \<and> check_quorum id (quorum_manager_init 4 None CRASH_ONLY) [(''c'', Some (RInt 2)), (''d'', Some (RInt 2))] = Inr True"
  by code_simp

lemma text_and_number_agree:
  "check_consensus_quorum id (quorum_manager_init 4 None PBFT) [(''a'', Some (RStr ''1'')), (''b'', Some (RInt 1)), (''c'', Some (RInt 1))] = (True, Some (RStr ''1''))"
  by code_simp

lemma empty_cluster_raises: "check_quorum id (quorum_manager_init 0 None PBFT) [] = Inl ValueError"
  by code_simp

text \<open>The number of faults tolerated is the largest with \<open>3 f + 1\<close> members.\<close>

lemma max_byzantine_faults_largest: "required_total_for_f f \<le> n \<longleftrightarrow> f \<le> max_byzantine_faults n"
  by (simp add: required_total_for_f_def max_byzantine_faults_def) linarith

end
