(* ===== verification/VectorClock.thy ===== *)
theory VectorClock
  imports Prelude
begin

text \<open>
  \<^verbatim>\<open>SplitBrainDetector\<close> of \<^verbatim>\<open>src/distllm/dist/byzantine.py\<close>: vector clocks, the detection of concurrent updates after a partition and the
  resolution of differing states. Values are compared up to Python's equality: atoms are numbers, booleans and strings up to
  that equality, and a nested dictionary is kept in the order of its keys, which no operation here observes otherwise. Loops
  over a set only fill a dictionary that is read by key, so they run in the order of the keys. Log lines are left out.
\<close>

section \<open>Vector clocks\<close>

type_synonym vclock = "(string, int) dict"

definition ts_of :: "vclock \<Rightarrow> string \<Rightarrow> int" where
  "ts_of c k = (case map_of c k of None \<Rightarrow> 0 | Some t \<Rightarrow> t)"

text \<open>The keys of either side, sorted.\<close>

definition either_keys :: "(string, 'v) dict \<Rightarrow> (string, 'w) dict \<Rightarrow> string list" where
  "either_keys a b = sort (remdups (dict_keys a @ dict_keys b))"

definition both_keys :: "(string, 'v) dict \<Rightarrow> (string, 'w) dict \<Rightarrow> string list" where
  "both_keys a b = sort (remdups (filter (\<lambda>k. k \<in> set (dict_keys b)) (dict_keys a)))"

fun before_loop :: "string list \<Rightarrow> vclock \<Rightarrow> vclock \<Rightarrow> bool \<Rightarrow> bool" where
  "before_loop [] a b strictly = strictly"
| "before_loop (k # ks) a b strictly =
     (if ts_of a k > ts_of b k then False else before_loop ks a b (strictly \<or> ts_of a k < ts_of b k))"

definition is_causally_before :: "vclock \<Rightarrow> vclock \<Rightarrow> bool" where
  "is_causally_before a b = before_loop (either_keys a b) a b False"

definition is_concurrent :: "vclock \<Rightarrow> vclock \<Rightarrow> bool" where
  "is_concurrent a b \<longleftrightarrow> \<not> is_causally_before a b \<and> \<not> is_causally_before b a"

definition merge_clocks :: "vclock \<Rightarrow> vclock \<Rightarrow> vclock" where
  "merge_clocks a b = map (\<lambda>k. (k, max (ts_of a k) (ts_of b k))) (either_keys a b)"

section \<open>The detector\<close>

record conflict =
  cf_node_a :: string
  cf_node_b :: string
  cf_key :: string
  cf_value_a :: int
  cf_value_b :: int
  cf_reason :: string

record 'v state_entry =
  se_value :: 'v
  se_timestamp :: int
  se_clock :: vclock

record 'v conflict_detector =
  dt_node_id :: "string option"
  dt_clocks :: "(string, vclock) dict"
  dt_state :: "(string, 'v state_entry) dict"
  dt_conflict_history :: "conflict list"

definition conflict_detector_init :: "string option \<Rightarrow> 'v conflict_detector" where
  "conflict_detector_init nid = \<lparr>dt_node_id = nid, dt_clocks = [], dt_state = [], dt_conflict_history = []\<rparr>"

definition get_clock :: "string \<Rightarrow> 'v conflict_detector \<Rightarrow> vclock \<times> 'v conflict_detector" where
  "get_clock nid d =
     (case map_of (dt_clocks d) nid of
        Some c \<Rightarrow> (c, d)
      | None \<Rightarrow> ([], d\<lparr>dt_clocks := AList.update nid [] (dt_clocks d)\<rparr>))"

definition dt_update :: "string \<Rightarrow> string \<Rightarrow> 'v option \<Rightarrow> 'v conflict_detector \<Rightarrow> 'v conflict_detector" where
  "dt_update nid key val d =
     (let (c, d1) = get_clock nid d;
          c' = AList.update nid (ts_of c nid + 1) c;
          d2 = d1\<lparr>dt_clocks := AList.update nid c' (dt_clocks d1)\<rparr>
      in case val of
           None \<Rightarrow> d2
         | Some v \<Rightarrow> d2\<lparr>dt_state := AList.update (key @ '':'' @ nid) \<lparr>se_value = v, se_timestamp = ts_of c' nid, se_clock = c'\<rparr> (dt_state d2)\<rparr>)"

definition dt_update_all :: "string \<Rightarrow> (string, 'v option) dict \<Rightarrow> 'v conflict_detector \<Rightarrow> 'v conflict_detector" where
  "dt_update_all nid st d = fold (\<lambda>(k, v). dt_update nid k v) st d"

definition local_name :: "'v conflict_detector \<Rightarrow> string" where
  "local_name d = (case dt_node_id d of None \<Rightarrow> ''local'' | Some s \<Rightarrow> if s = [] then ''local'' else s)"

text \<open>The conflicts of one node's two clocks.\<close>

definition clock_conflicts :: "string \<Rightarrow> string \<Rightarrow> vclock \<Rightarrow> vclock \<Rightarrow> conflict list" where
  "clock_conflicts me nid l p =
     (if is_concurrent l p
      then map (\<lambda>k. \<lparr>cf_node_a = me, cf_node_b = nid, cf_key = k, cf_value_a = ts_of l k, cf_value_b = ts_of p k,
                     cf_reason = ''Concurrent updates on node '' @ nid @ '': local ts='' @ dec_int (ts_of l k) @ '', peer ts='' @ dec_int (ts_of p k)\<rparr>)
             (filter (\<lambda>k. ts_of l k \<noteq> ts_of p k) (either_keys l p))
      else [])"

definition vclock_at :: "(string, vclock) dict \<Rightarrow> string \<Rightarrow> vclock" where
  "vclock_at cs nid = (case map_of cs nid of None \<Rightarrow> [] | Some c \<Rightarrow> c)"

definition detect_conflicts :: "(string, vclock) dict \<Rightarrow> (string, vclock) dict \<Rightarrow> 'v conflict_detector \<Rightarrow> conflict list \<times> 'v conflict_detector" where
  "detect_conflicts lc pc d =
     (let cs = concat (map (\<lambda>nid. clock_conflicts (local_name d) nid (vclock_at lc nid) (vclock_at pc nid)) (both_keys lc pc))
      in (cs, d\<lparr>dt_clocks := fold (\<lambda>nid. AList.update nid (merge_clocks (vclock_at lc nid) (vclock_at pc nid))) (either_keys lc pc) (dt_clocks d),
                dt_conflict_history := dt_conflict_history d @ cs\<rparr>))"

fun collect_clocks :: "string list \<Rightarrow> (string, vclock) dict \<Rightarrow> 'v conflict_detector \<Rightarrow> (string, vclock) dict \<times> 'v conflict_detector" where
  "collect_clocks [] acc d = (acc, d)"
| "collect_clocks (nid # ns) acc d = (case get_clock nid d of (c, d1) \<Rightarrow> collect_clocks ns (AList.update nid c acc) d1)"

definition detect_partition_heal :: "string list \<Rightarrow> string list \<Rightarrow> 'v conflict_detector \<Rightarrow> conflict list \<times> 'v conflict_detector" where
  "detect_partition_heal ls ps d =
     (case collect_clocks ls [] d of (lc, d1) \<Rightarrow> case collect_clocks ps [] d1 of (pc, d2) \<Rightarrow> detect_conflicts lc pc d2)"

definition get_clocks :: "'v conflict_detector \<Rightarrow> (string, vclock) dict" where
  "get_clocks d = map (\<lambda>k. (k, vclock_at (dt_clocks d) k)) (sort (dict_keys (dt_clocks d)))"

definition get_conflict_history :: "'v conflict_detector \<Rightarrow> conflict list" where
  "get_conflict_history d = dt_conflict_history d"

definition clear_history :: "'v conflict_detector \<Rightarrow> 'v conflict_detector" where
  "clear_history d = d\<lparr>dt_conflict_history := []\<rparr>"

section \<open>Resolution\<close>

datatype 'a pval =
    PNone
  | PAtom 'a
  | PList "'a pval list"
  | PDict "(string \<times> 'a pval) list"
  | ConflictMarker "'a pval" "'a pval"

definition pget :: "(string, 'a pval) dict \<Rightarrow> string \<Rightarrow> 'a pval" where
  "pget d k = (case map_of d k of None \<Rightarrow> PNone | Some v \<Rightarrow> v)"

definition is_pdict :: "'a pval \<Rightarrow> bool" where
  "is_pdict v = (case v of PDict d \<Rightarrow> True | _ \<Rightarrow> False)"

definition pitems :: "'a pval \<Rightarrow> (string, 'a pval) dict" where
  "pitems v = (case v of PDict d \<Rightarrow> d | _ \<Rightarrow> [])"

lemma pget_size: "is_pdict (pget d k) \<Longrightarrow> size (pget d k) < Suc (size_list (size_prod (\<lambda>_. 0) size) d)"
  unfolding pget_def by (induction d) (auto simp: is_pdict_def)

function resolve_merge :: "'a pval \<Rightarrow> 'a pval \<Rightarrow> 'a pval \<times> bool" where
  "resolve_merge l p =
     (if is_pdict l \<and> is_pdict p
      then let es = map (\<lambda>k. let lv = pget (pitems l) k; pv = pget (pitems p) k in
                             if lv = pv then (k, lv, True)
                             else if is_pdict lv \<and> is_pdict pv
                             then (case resolve_merge lv pv of (v, r) \<Rightarrow> if r then (k, v, True) else (k, ConflictMarker lv pv, False))
                             else (k, ConflictMarker lv pv, False))
                    (either_keys (pitems l) (pitems p))
           in (PDict (map (\<lambda>(k, v, r). (k, v)) es), list_all (\<lambda>(k, v, r). r) es)
      else case (l, p) of
             (PList xs, PList ys) \<Rightarrow> (PList (xs @ filter (\<lambda>y. y \<notin> set xs) ys), True)
           | _ \<Rightarrow> if l = PNone then (p, True) else if p = PNone then (l, True) else (PNone, False))"
  by pat_completeness auto
termination
proof (relation "measure (\<lambda>(l, p). size l)")
  fix l p x xa :: "'a pval" and k
  assume a: "is_pdict l \<and> is_pdict p" "x = pget (pitems l) k" "is_pdict x \<and> is_pdict xa"
  then obtain d where "l = PDict d" by (auto simp: is_pdict_def split: pval.splits)
  with a pget_size [of d k] show "((x, xa), (l, p)) \<in> measure (\<lambda>(l, p). size l)" by (simp add: pitems_def)
qed simp

declare resolve_merge.simps [simp del]

definition state_timestamp :: "string \<Rightarrow> 'v conflict_detector \<Rightarrow> int" where
  "state_timestamp k d = (case map_of (dt_state d) k of None \<Rightarrow> 0 | Some e \<Rightarrow> se_timestamp e)"

definition resolve_lww :: "string \<Rightarrow> 'w \<Rightarrow> 'w \<Rightarrow> string \<Rightarrow> 'v conflict_detector \<Rightarrow> 'w" where
  "resolve_lww key lv pv peer d =
     (let lt = state_timestamp (key @ '':'' @ local_name d) d; pt = state_timestamp (key @ '':'' @ peer) d
      in if pt > lt then pv else if lt > pt then lv else pv)"

record 'a resolution =
  rr_merged_state :: "(string, 'a pval) dict"
  rr_conflicts_resolved :: nat
  rr_remaining_conflicts :: nat

definition rr_put :: "string \<Rightarrow> 'a pval \<Rightarrow> nat \<Rightarrow> nat \<Rightarrow> 'a resolution \<Rightarrow> 'a resolution" where
  "rr_put k v i j r = r\<lparr>rr_merged_state := AList.update k v (rr_merged_state r), rr_conflicts_resolved := rr_conflicts_resolved r + i,
     rr_remaining_conflicts := rr_remaining_conflicts r + j\<rparr>"

definition resolve_key ::
    "string \<Rightarrow> string \<Rightarrow> (string \<Rightarrow> 'a pval \<Rightarrow> 'a pval \<Rightarrow> 'a pval) option \<Rightarrow> 'v conflict_detector \<Rightarrow> string \<Rightarrow> 'a pval \<Rightarrow> 'a pval \<Rightarrow> 'a resolution \<Rightarrow> py_error + 'a resolution" where
  "resolve_key strat peer custom d k lv pv r =
     (if lv = pv then Inr (rr_put k lv 0 0 r)
      else if strat = ''lww'' then Inr (rr_put k (resolve_lww k lv pv peer d) 1 0 r)
      else if strat = ''merge'' then
        (case resolve_merge lv pv of (v, True) \<Rightarrow> Inr (rr_put k v 1 0 r) | (v, False) \<Rightarrow> Inr (rr_put k (ConflictMarker lv pv) 0 1 r))
      else if strat = ''peer_wins'' then Inr (rr_put k pv 1 0 r)
      else if strat = ''local_wins'' then Inr (rr_put k lv 1 0 r)
      else if strat = ''custom'' then (case custom of None \<Rightarrow> Inl ValueError | Some f \<Rightarrow> Inr (rr_put k (f k lv pv) 1 0 r))
      else Inl ValueError)"

fun resolve_loop ::
    "string \<Rightarrow> string \<Rightarrow> (string \<Rightarrow> 'a pval \<Rightarrow> 'a pval \<Rightarrow> 'a pval) option \<Rightarrow> 'v conflict_detector \<Rightarrow> (string, 'a pval) dict \<Rightarrow> (string, 'a pval) dict
     \<Rightarrow> string list \<Rightarrow> 'a resolution \<Rightarrow> py_error + 'a resolution" where
  "resolve_loop strat peer custom d ls ps [] r = Inr r"
| "resolve_loop strat peer custom d ls ps (k # ks) r =
     (case resolve_key strat peer custom d k (pget ls k) (pget ps k) r of
        Inl e \<Rightarrow> Inl e
      | Inr r1 \<Rightarrow> resolve_loop strat peer custom d ls ps ks r1)"

definition dt_resolve_conflict ::
    "(string, 'a pval) dict \<Rightarrow> (string, 'a pval) dict \<Rightarrow> string \<Rightarrow> string \<Rightarrow> (string \<Rightarrow> 'a pval \<Rightarrow> 'a pval \<Rightarrow> 'a pval) option \<Rightarrow> 'v conflict_detector
     \<Rightarrow> py_error + 'a resolution" where
  "dt_resolve_conflict ls ps peer strat custom d =
     resolve_loop strat peer custom d ls ps (either_keys ls ps) \<lparr>rr_merged_state = [], rr_conflicts_resolved = 0, rr_remaining_conflicts = 0\<rparr>"


section \<open>The order of vector clocks\<close>

lemma set_either_keys [simp]: "set (either_keys a b) = fst ` set a \<union> fst ` set b"
  by (auto simp: either_keys_def)

lemma distinct_either_keys [simp]: "distinct (either_keys a b)"
  by (simp add: either_keys_def)

lemma set_both_keys [simp]: "set (both_keys a b) = fst ` set a \<inter> fst ` set b"
  by (auto simp: both_keys_def)

lemma ts_of_missing: "k \<notin> fst ` set c \<Longrightarrow> ts_of c k = 0"
  by (simp add: ts_of_def map_of_eq_None_iff [THEN iffD2])

lemma before_loop_iff:
  "before_loop ks a b s \<longleftrightarrow> (\<forall>k \<in> set ks. ts_of a k \<le> ts_of b k) \<and> (s \<or> (\<exists>k \<in> set ks. ts_of a k < ts_of b k))"
  by (induction ks arbitrary: s) (auto simp: not_less)

lemma before_iff: "is_causally_before a b \<longleftrightarrow> (\<forall>k. ts_of a k \<le> ts_of b k) \<and> (\<exists>k. ts_of a k < ts_of b k)"
proof -
  have "ts_of a k = 0 \<and> ts_of b k = 0" if "k \<notin> set (either_keys a b)" for k using that by (simp add: ts_of_missing)
  then show ?thesis unfolding is_causally_before_def before_loop_iff by (metis order_refl less_irrefl)
qed

lemma map_of_keyed: "map_of (map (\<lambda>k. (k, f k)) ks) k = (if k \<in> set ks then Some (f k) else None)"
  by (induction ks) auto

lemma ts_of_keyed: "ts_of (map (\<lambda>k. (k, f k)) ks) k = (if k \<in> set ks then f k else 0)"
  by (simp add: ts_of_def map_of_keyed)

lemma ts_of_merge [simp]: "ts_of (merge_clocks a b) k = max (ts_of a k) (ts_of b k)"
  by (auto simp: merge_clocks_def ts_of_keyed ts_of_missing)

text \<open>Clocks as readings, the abstract view of a vector clock: merging is the pointwise maximum.\<close>

definition reading_join :: "(string \<Rightarrow> int) \<Rightarrow> (string \<Rightarrow> int) \<Rightarrow> string \<Rightarrow> int" where
  "reading_join f g = (\<lambda>k. max (f k) (g k))"

lemma ts_of_merge_join: "ts_of (merge_clocks a b) = reading_join (ts_of a) (ts_of b)"
  by (simp add: reading_join_def fun_eq_iff)

interpretation clk: convergent reading_join "\<lambda>f. True"
  by unfold_locales (auto simp: reading_join_def fun_eq_iff max.assoc max.commute)

lemma ts_of_foldl: "ts_of (foldl merge_clocks a cs) = foldl reading_join (ts_of a) (map ts_of cs)"
  by (induction cs arbitrary: a) (simp_all add: ts_of_merge_join)

text \<open>Vector clocks. The comparison by the sorted loop is the strict product order of the readings, irreflexive and transitive; merging gives the
  least upper bound of its arguments; and merging the same clocks in any order and any number of times
  gives the same readings.\<close>
theorem vector_clock_laws:
  "(is_causally_before a b \<longleftrightarrow> (\<forall>k. ts_of a k \<le> ts_of b k) \<and> ts_of a \<noteq> ts_of b)
   \<and> \<not> is_causally_before a a \<and> (is_causally_before a b \<longrightarrow> is_causally_before b c \<longrightarrow> is_causally_before a c)
   \<and> (\<forall>k. ts_of a k \<le> ts_of (merge_clocks a b) k \<and> ts_of b k \<le> ts_of (merge_clocks a b) k)
   \<and> ((\<forall>k. ts_of a k \<le> ts_of c k \<and> ts_of b k \<le> ts_of c k) \<longrightarrow> (\<forall>k. ts_of (merge_clocks a b) k \<le> ts_of c k))
   \<and> (set (a # cs) = set (b # ds) \<longrightarrow> ts_of (foldl merge_clocks a cs) = ts_of (foldl merge_clocks b ds))"
proof (intro conjI impI allI)
  show "is_causally_before a b \<longleftrightarrow> (\<forall>k. ts_of a k \<le> ts_of b k) \<and> ts_of a \<noteq> ts_of b"
    unfolding before_iff fun_eq_iff by (metis order_le_less less_irrefl)
  show "\<not> is_causally_before a a" by (simp add: before_iff)
  show "is_causally_before a c" if "is_causally_before a b" "is_causally_before b c"
    using that unfolding before_iff by (meson le_less_trans order_trans)
  assume s: "set (a # cs) = set (b # ds)"
  have "set (ts_of a # map ts_of cs) = ts_of ` set (a # cs)" "set (ts_of b # map ts_of ds) = ts_of ` set (b # ds)" by simp_all
  with s show "ts_of (foldl merge_clocks a cs) = ts_of (foldl merge_clocks b ds)"
    unfolding ts_of_foldl by (intro clk.foldl_same_set) (simp_all add: list_all_iff)
qed simp_all

theorem vector_clock_laws_witness:
  "is_causally_before [(''a'', 1)] [(''a'', 1), (''b'', 2)] \<and> is_causally_before [(''a'', 1), (''b'', 2)] [(''b'', 3), (''a'', 1)]
   \<and> is_causally_before [(''a'', 1)] [(''b'', 3), (''a'', 1)]"
proof -
  have "is_causally_before [(''a'', 1)] [(''a'', 1), (''b'', 2)]" "is_causally_before [(''a'', 1), (''b'', 2)] [(''b'', 3), (''a'', 1)]" by code_simp+
  with vector_clock_laws [of "[(''a'', 1)]" "[(''a'', 1), (''b'', 2)]" "[(''b'', 3), (''a'', 1)]"] show ?thesis by blast
qed

section \<open>What the detector reports\<close>

lemma clock_conflicts_nil: "ts_of l = ts_of p \<or> \<not> is_concurrent l p \<Longrightarrow> clock_conflicts me nid l p = []"
  by (auto simp: clock_conflicts_def)

lemma map_of_fold_keyed: "map_of (fold (\<lambda>k. AList.update k (f k)) ks d) x = (if x \<in> set ks then Some (f x) else map_of d x)"
  by (induction ks arbitrary: d) auto

lemma clock_conflicts_iff:
  "(\<exists>c \<in> set (clock_conflicts me nid l p). cf_node_b c = m \<and> cf_key c = k) \<longleftrightarrow> m = nid \<and> is_concurrent l p \<and> ts_of l k \<noteq> ts_of p k"
proof -
  have "k \<in> fst ` set l \<union> fst ` set p" if "ts_of l k \<noteq> ts_of p k" using that ts_of_missing by (metis UnCI)
  then show ?thesis by (auto simp: clock_conflicts_def)
qed

text \<open>Reported conflicts. Comparing two sets of clocks reports a node and a key exactly when both sides have a clock for the node, the two clocks are
  concurrent and differ at the key; afterwards the detector keeps the merged clock of every node of either side, so
  nothing it has seen is concurrent with what it keeps.\<close>
theorem detect_conflicts_exact:
  assumes "detect_conflicts lc pc d = (cs, d')"
  shows "((\<exists>c \<in> set cs. cf_node_b c = nid \<and> cf_key c = k) \<longleftrightarrow>
            (\<exists>l p. map_of lc nid = Some l \<and> map_of pc nid = Some p \<and> is_concurrent l p \<and> ts_of l k \<noteq> ts_of p k))
     \<and> (\<forall>l \<in> {l. map_of lc nid = Some l \<or> map_of pc nid = Some l}.
          \<exists>m. map_of (dt_clocks d') nid = Some m \<and> (\<forall>k. ts_of m k = max (ts_of (vclock_at lc nid) k) (ts_of (vclock_at pc nid) k))
            \<and> (is_causally_before l m \<or> ts_of l = ts_of m))"
proof (intro conjI ballI)
  have cs: "cs = concat (map (\<lambda>nid. clock_conflicts (local_name d) nid (vclock_at lc nid) (vclock_at pc nid)) (both_keys lc pc))"
    and d': "dt_clocks d' = fold (\<lambda>nid. AList.update nid (merge_clocks (vclock_at lc nid) (vclock_at pc nid))) (either_keys lc pc) (dt_clocks d)"
    using assms by (auto simp: detect_conflicts_def Let_def)
  have "(\<exists>c \<in> set cs. cf_node_b c = nid \<and> cf_key c = k) \<longleftrightarrow>
      nid \<in> set (both_keys lc pc) \<and> is_concurrent (vclock_at lc nid) (vclock_at pc nid) \<and> ts_of (vclock_at lc nid) k \<noteq> ts_of (vclock_at pc nid) k"
  proof -
    have "(\<exists>c \<in> set cs. cf_node_b c = nid \<and> cf_key c = k) \<longleftrightarrow> (\<exists>n \<in> set (both_keys lc pc).
        \<exists>c \<in> set (clock_conflicts (local_name d) n (vclock_at lc n) (vclock_at pc n)). cf_node_b c = nid \<and> cf_key c = k)"
      unfolding cs by (simp del: set_both_keys)
    then show ?thesis unfolding clock_conflicts_iff by blast
  qed
  moreover have "nid \<in> set (both_keys lc pc) \<longleftrightarrow> map_of lc nid \<noteq> None \<and> map_of pc nid \<noteq> None" by (simp add: map_of_eq_None_iff)
  ultimately show "(\<exists>c \<in> set cs. cf_node_b c = nid \<and> cf_key c = k) \<longleftrightarrow>
      (\<exists>l p. map_of lc nid = Some l \<and> map_of pc nid = Some p \<and> is_concurrent l p \<and> ts_of l k \<noteq> ts_of p k)"
    by (auto simp: vclock_at_def)
  fix l assume "l \<in> {l. map_of lc nid = Some l \<or> map_of pc nid = Some l}"
  then have l: "map_of lc nid = Some l \<or> map_of pc nid = Some l" by simp
  then have "nid \<in> set (either_keys lc pc)" by (auto dest!: map_of_SomeD intro: rev_image_eqI)
  then have m: "map_of (dt_clocks d') nid = Some (merge_clocks (vclock_at lc nid) (vclock_at pc nid))" unfolding d' map_of_fold_keyed by simp
  have "ts_of l k \<le> ts_of (merge_clocks (vclock_at lc nid) (vclock_at pc nid)) k" for k using l by (auto simp: vclock_at_def)
  then have "is_causally_before l (merge_clocks (vclock_at lc nid) (vclock_at pc nid)) \<or> ts_of l = ts_of (merge_clocks (vclock_at lc nid) (vclock_at pc nid))"
    unfolding before_iff fun_eq_iff by (metis order_le_less)
  with m show "\<exists>m. map_of (dt_clocks d') nid = Some m \<and> (\<forall>k. ts_of m k = max (ts_of (vclock_at lc nid) k) (ts_of (vclock_at pc nid) k))
      \<and> (is_causally_before l m \<or> ts_of l = ts_of m)" by simp
qed

theorem detect_conflicts_exact_witness:
  "\<exists>c \<in> set (fst (detect_conflicts [(''n'', [(''x'', 2), (''y'', 1)])] [(''n'', [(''y'', 3)])] (conflict_detector_init None :: int conflict_detector))).
     cf_node_b c = ''n'' \<and> cf_key c = ''x''"
proof -
  have "is_concurrent [(''x'', 2), (''y'', 1)] [(''y'', 3)] \<and> ts_of [(''x'', 2), (''y'', 1)] ''x'' \<noteq> ts_of [(''y'', 3)] ''x''" by code_simp
  with detect_conflicts_exact [OF prod.collapse [symmetric], of "[(''n'', [(''x'', 2), (''y'', 1)])]" "[(''n'', [(''y'', 3)])]" "conflict_detector_init None :: int conflict_detector" "''n''" "''x''"]
  show ?thesis by simp
qed

section \<open>Detectors in use\<close>

text \<open>
  Every node has a detector. A node records updates, asks for conflicts with the clocks of another node (\<^verbatim>\<open>check_split_brain\<close> of the
  coordinator passes its own \<^verbatim>\<open>get_clocks\<close> and what the peer sent), or reports a healed partition.
\<close>

datatype 'v detector_event =
    Recorded string string string "'v option"
  | ComparedWith string string
  | Healed string "string list" "string list"

fun detector_step :: "'v detector_event \<Rightarrow> (string \<Rightarrow> 'v conflict_detector) \<Rightarrow> conflict list \<times> (string \<Rightarrow> 'v conflict_detector)" where
  "detector_step (Recorded i nid key val) w = ([], w(i := dt_update nid key val (w i)))"
| "detector_step (ComparedWith i j) w = (case detect_conflicts (get_clocks (w i)) (get_clocks (w j)) (w i) of (cs, d) \<Rightarrow> (cs, w(i := d)))"
| "detector_step (Healed i ls ps) w = (case detect_partition_heal ls ps (w i) of (cs, d) \<Rightarrow> (cs, w(i := d)))"

fun detector_run :: "'v detector_event list \<Rightarrow> (string \<Rightarrow> 'v conflict_detector) \<Rightarrow> conflict list \<times> (string \<Rightarrow> 'v conflict_detector)" where
  "detector_run [] w = ([], w)"
| "detector_run (e # es) w = (case detector_step e w of (cs, w1) \<Rightarrow> case detector_run es w1 of (ds, w2) \<Rightarrow> (cs @ ds, w2))"

text \<open>A clock of a node only ever counts that node.\<close>

definition counts_only :: "string \<Rightarrow> vclock \<Rightarrow> bool" where
  "counts_only nid c \<longleftrightarrow> (\<forall>k. k \<noteq> nid \<longrightarrow> ts_of c k = 0)"

definition own_clocks :: "(string, vclock) dict \<Rightarrow> bool" where
  "own_clocks cs \<longleftrightarrow> (\<forall>nid. counts_only nid (vclock_at cs nid))"

lemma counts_only_conflicts: "counts_only nid l \<Longrightarrow> counts_only nid p \<Longrightarrow> clock_conflicts me nid l p = []"
proof -
  assume l: "counts_only nid l" and p: "counts_only nid p"
  then have other: "ts_of l k = ts_of p k" if "k \<noteq> nid" for k using that by (simp add: counts_only_def)
  show ?thesis
  proof (cases "ts_of l nid = ts_of p nid")
    case True
    with other have "ts_of l = ts_of p" by (metis ext)
    then show ?thesis by (simp add: clock_conflicts_nil)
  next
    case False
    then have "is_causally_before l p \<or> is_causally_before p l"
      unfolding before_iff using other by (metis linorder_neqE less_imp_le order_refl)
    then show ?thesis by (intro clock_conflicts_nil) (auto simp: is_concurrent_def)
  qed
qed

lemma counts_only_merge: "counts_only nid a \<Longrightarrow> counts_only nid b \<Longrightarrow> counts_only nid (merge_clocks a b)"
  by (simp add: counts_only_def)

lemma vclock_at_update [simp]: "vclock_at (AList.update k c cs) nid = (if nid = k then c else vclock_at cs nid)"
  by (simp add: vclock_at_def)

lemma vclock_at_map_of [simp]: "map_of cs k = None \<Longrightarrow> vclock_at cs k = []" "map_of cs k = Some c \<Longrightarrow> vclock_at cs k = c"
  by (simp_all add: vclock_at_def)

lemma counts_only_Nil [simp]: "counts_only nid []"
  by (simp add: counts_only_def ts_of_def)

lemma own_detect:
  assumes "own_clocks lc" and "own_clocks pc" and "own_clocks (dt_clocks d)" and "detect_conflicts lc pc d = (cs, d')"
  shows "cs = [] \<and> own_clocks (dt_clocks d') \<and> dt_conflict_history d' = dt_conflict_history d"
proof -
  have "cs = []" using assms counts_only_conflicts by (auto simp: detect_conflicts_def own_clocks_def Let_def)
  moreover have "vclock_at (dt_clocks d') nid \<in> {merge_clocks (vclock_at lc nid) (vclock_at pc nid), vclock_at (dt_clocks d) nid}" for nid
    using assms(4) by (auto simp: detect_conflicts_def Let_def vclock_at_def map_of_fold_keyed)
  then have "counts_only nid (vclock_at (dt_clocks d') nid)" for nid
    using assms(1-3) counts_only_merge [of nid "vclock_at lc nid" "vclock_at pc nid"] by (metis own_clocks_def insertE singletonD)
  then have "own_clocks (dt_clocks d')" by (simp add: own_clocks_def)
  ultimately show ?thesis using assms(4) by (auto simp: detect_conflicts_def Let_def)
qed

lemma own_get_clock:
  "get_clock nid d = (c, d') \<Longrightarrow> own_clocks (dt_clocks d) \<Longrightarrow>
     counts_only nid c \<and> own_clocks (dt_clocks d') \<and> dt_conflict_history d' = dt_conflict_history d \<and> c = vclock_at (dt_clocks d) nid"
  by (cases "map_of (dt_clocks d) nid") (auto simp: get_clock_def own_clocks_def dest: spec [of _ nid])

lemma own_update:
  assumes "own_clocks (dt_clocks d)"
  shows "own_clocks (dt_clocks (dt_update nid key val d)) \<and> dt_conflict_history (dt_update nid key val d) = dt_conflict_history d"
proof -
  obtain c d1 where g: "get_clock nid d = (c, d1)" by (metis prod.exhaust)
  note own_get_clock [OF g assms]
  then show ?thesis by (auto simp: dt_update_def g Let_def own_clocks_def counts_only_def ts_of_def split: option.splits)
qed

lemma own_collect:
  "collect_clocks ns acc d = (cs, d') \<Longrightarrow> own_clocks (dt_clocks d) \<Longrightarrow> own_clocks acc \<Longrightarrow>
     own_clocks cs \<and> own_clocks (dt_clocks d') \<and> dt_conflict_history d' = dt_conflict_history d"
proof (induction ns acc d rule: collect_clocks.induct)
  case (2 nid ns acc d)
  obtain c d1 where g: "get_clock nid d = (c, d1)" by (metis prod.exhaust)
  with 2 own_get_clock [OF g] show ?case by (auto simp: own_clocks_def)
qed simp

lemma own_heal:
  assumes "own_clocks (dt_clocks d)" and "detect_partition_heal ls ps d = (cs, d')"
  shows "cs = [] \<and> own_clocks (dt_clocks d') \<and> dt_conflict_history d' = dt_conflict_history d"
proof -
  have nil: "own_clocks []" by (simp add: own_clocks_def vclock_at_def)
  obtain lc d1 pc d2 where c: "collect_clocks ls [] d = (lc, d1)" "collect_clocks ps [] d1 = (pc, d2)" by (metis prod.exhaust)
  with own_collect [OF c(1) assms(1) nil] own_collect [OF c(2) _ nil] assms(2) own_detect [of lc pc d2 cs d']
  show ?thesis by (simp add: detect_partition_heal_def)
qed

lemma own_get_clocks: "own_clocks (dt_clocks d) \<Longrightarrow> own_clocks (get_clocks d)"
  by (simp add: own_clocks_def vclock_at_def [of "map (\<lambda>k. (k, vclock_at (dt_clocks d) k)) (sort (dict_keys (dt_clocks d)))"] get_clocks_def map_of_keyed)

lemma own_step:
  assumes "\<forall>i. own_clocks (dt_clocks (w i)) \<and> dt_conflict_history (w i) = []" and "detector_step e w = (cs, w')"
  shows "cs = [] \<and> (\<forall>i. own_clocks (dt_clocks (w' i)) \<and> dt_conflict_history (w' i) = [])"
proof (cases e)
  case (Recorded i nid key val)
  with assms own_update [of "w i"] show ?thesis by auto
next
  case (ComparedWith i j)
  with assms own_detect [of "get_clocks (w i)" "get_clocks (w j)" "w i"] own_get_clocks show ?thesis by (auto split: prod.splits)
next
  case (Healed i ls ps)
  with assms own_heal [of "w i" ls ps] show ?thesis by (auto split: prod.splits)
qed

text \<open>C13: The detector never reports anything. Whatever updates the nodes of a cluster record, however their detectors are compared with each other
  and whatever partitions are reported healed, no conflict is ever returned or kept in a history: the clock of a node only
  ever counts that node, so two versions of it are always comparable.\<close>
theorem detector_never_fires:
  assumes "detector_run es (\<lambda>i. conflict_detector_init (f i)) = (cs, w)"
  shows "cs = [] \<and> (\<forall>i. get_conflict_history (w i) = [])"
proof -
  have "ds = [] \<and> (\<forall>i. own_clocks (dt_clocks (w2 i)) \<and> dt_conflict_history (w2 i) = [])"
    if "detector_run es w1 = (ds, w2)" "\<forall>i. own_clocks (dt_clocks (w1 i)) \<and> dt_conflict_history (w1 i) = []" for ds w1 w2
    using that
  proof (induction es arbitrary: ds w1)
    case (Cons e es)
    obtain cs1 w' where e: "detector_step e w1 = (cs1, w')" by (metis prod.exhaust)
    from own_step [OF Cons.prems(2) e] Cons.IH [of w'] Cons.prems(1) e show ?case by (auto split: prod.splits)
  qed simp
  from this [OF assms] show ?thesis by (simp add: conflict_detector_init_def own_clocks_def vclock_at_def get_conflict_history_def)
qed

text \<open>Both sides of a partition write the same key, and meet again.\<close>

definition split_history :: "int detector_event list" where
  "split_history = [Recorded ''a'' ''a'' ''leader'' (Some 1), Recorded ''b'' ''b'' ''leader'' (Some 2), Recorded ''a'' ''b'' ''leader'' (Some 3),
     ComparedWith ''a'' ''b'', Healed ''a'' [''a''] [''b''], ComparedWith ''b'' ''a'']"

theorem detector_never_fires_witness:
  "fst (detector_run split_history (\<lambda>i. conflict_detector_init (Some i))) = []"
  using detector_never_fires [OF prod.collapse [symmetric], of split_history "\<lambda>i. Some i"] by blast


section \<open>Resolution\<close>

text \<open>What the strategies decide for one key, and when a key stays in conflict.\<close>

definition left_open :: "string \<Rightarrow> 'a pval \<Rightarrow> 'a pval \<Rightarrow> bool" where
  "left_open strat lv pv \<longleftrightarrow> lv \<noteq> pv \<and> strat = ''merge'' \<and> \<not> snd (resolve_merge lv pv)"

definition resolved_to ::
    "string \<Rightarrow> string \<Rightarrow> (string \<Rightarrow> 'a pval \<Rightarrow> 'a pval \<Rightarrow> 'a pval) option \<Rightarrow> 'v conflict_detector \<Rightarrow> string \<Rightarrow> 'a pval \<Rightarrow> 'a pval \<Rightarrow> 'a pval" where
  "resolved_to strat peer custom d k lv pv =
     (if lv = pv then lv else if strat = ''lww'' then resolve_lww k lv pv peer d
      else if strat = ''merge'' then (if snd (resolve_merge lv pv) then fst (resolve_merge lv pv) else ConflictMarker lv pv)
      else if strat = ''peer_wins'' then pv else if strat = ''local_wins'' then lv
      else (case custom of None \<Rightarrow> PNone | Some f \<Rightarrow> f k lv pv))"

definition no_resolver :: "string \<Rightarrow> 'c option \<Rightarrow> bool" where
  "no_resolver strat custom \<longleftrightarrow> strat \<notin> {''lww'', ''merge'', ''peer_wins'', ''local_wins''} \<and> (strat = ''custom'' \<longrightarrow> custom = None)"

lemma resolve_key_cases:
  "resolve_key strat peer custom d k lv pv r =
     (if lv \<noteq> pv \<and> no_resolver strat custom then Inl ValueError
      else Inr (rr_put k (resolved_to strat peer custom d k lv pv) (if lv \<noteq> pv \<and> \<not> left_open strat lv pv then 1 else 0) (if left_open strat lv pv then 1 else 0) r))"
  by (cases "resolve_merge lv pv") (auto simp: resolve_key_def no_resolver_def resolved_to_def left_open_def split: option.splits bool.splits)

lemma resolve_loop_ok:
  "resolve_loop strat peer custom d ls ps ks r = Inr r' \<Longrightarrow>
     map_of (rr_merged_state r') k = (if k \<in> set ks then Some (resolved_to strat peer custom d k (pget ls k) (pget ps k)) else map_of (rr_merged_state r) k)
     \<and> rr_conflicts_resolved r' = rr_conflicts_resolved r + length (filter (\<lambda>k. pget ls k \<noteq> pget ps k \<and> \<not> left_open strat (pget ls k) (pget ps k)) ks)
     \<and> rr_remaining_conflicts r' = rr_remaining_conflicts r + length (filter (\<lambda>k. left_open strat (pget ls k) (pget ps k)) ks)"
proof (induction ks arbitrary: r)
  case (Cons x ks)
  from Cons.prems obtain r1 where r1: "resolve_key strat peer custom d x (pget ls x) (pget ps x) r = Inr r1" "resolve_loop strat peer custom d ls ps ks r1 = Inr r'"
    by (auto split: sum.splits)
  from Cons.IH [OF r1(2)] r1(1) show ?case by (auto simp: resolve_key_cases rr_put_def split: if_splits)
qed simp

lemma resolve_loop_error:
  "resolve_loop strat peer custom d ls ps ks r = Inl e \<longleftrightarrow> e = ValueError \<and> no_resolver strat custom \<and> (\<exists>k \<in> set ks. pget ls k \<noteq> pget ps k)"
  by (induction ks arbitrary: r) (auto simp: resolve_key_cases)

lemma pget_missing: "k \<notin> fst ` set d \<Longrightarrow> pget d k = PNone"
  by (simp add: pget_def map_of_eq_None_iff [THEN iffD2])

lemma differing_keys: "pget ls k \<noteq> pget ps k \<Longrightarrow> k \<in> set (either_keys ls ps)"
  using pget_missing by (metis Un_iff set_either_keys)

lemma resolve_lww_choice: "resolve_lww k lv pv peer d \<in> {lv, pv}"
  by (simp add: resolve_lww_def Let_def)

text \<open>C14: Resolution of two states. It raises exactly when the states differ somewhere and the strategy is unknown or lacks its function. Otherwise
  every key of either side ends up in the result with the value the strategy decides, keys that agree are unchanged,
  each differing key is counted exactly once, as resolved or as remaining, and only merging can leave one.\<close>
theorem resolve_conflict_outcome:
  "(dt_resolve_conflict ls ps peer strat custom d = Inl e \<longleftrightarrow> e = ValueError \<and> no_resolver strat custom \<and> (\<exists>k. pget ls k \<noteq> pget ps k))
   \<and> (dt_resolve_conflict ls ps peer strat custom d = Inr r \<longrightarrow>
        (\<forall>k. map_of (rr_merged_state r) k =
           (if k \<in> fst ` set ls \<union> fst ` set ps then Some (resolved_to strat peer custom d k (pget ls k) (pget ps k)) else None))
        \<and> (\<forall>k. pget ls k = pget ps k \<longrightarrow> pget (rr_merged_state r) k = pget ls k)
        \<and> rr_conflicts_resolved r + rr_remaining_conflicts r = card {k. pget ls k \<noteq> pget ps k}
        \<and> (strat \<noteq> ''merge'' \<longrightarrow> rr_remaining_conflicts r = 0)
        \<and> (strat \<in> {''lww'', ''peer_wins'', ''local_wins''} \<longrightarrow> (\<forall>k. pget (rr_merged_state r) k \<in> {pget ls k, pget ps k})))"
proof (intro conjI impI)
  let ?ks = "either_keys ls ps" and ?r0 = "\<lparr>rr_merged_state = [], rr_conflicts_resolved = 0, rr_remaining_conflicts = 0\<rparr>"
  show "dt_resolve_conflict ls ps peer strat custom d = Inl e \<longleftrightarrow> e = ValueError \<and> no_resolver strat custom \<and> (\<exists>k. pget ls k \<noteq> pget ps k)"
    unfolding dt_resolve_conflict_def resolve_loop_error using differing_keys [of ls _ ps] by metis
  assume "dt_resolve_conflict ls ps peer strat custom d = Inr r"
  then have run: "resolve_loop strat peer custom d ls ps ?ks ?r0 = Inr r" by (simp add: dt_resolve_conflict_def)
  note out = resolve_loop_ok [OF run]
  show val: "\<forall>k. map_of (rr_merged_state r) k =
      (if k \<in> fst ` set ls \<union> fst ` set ps then Some (resolved_to strat peer custom d k (pget ls k) (pget ps k)) else None)"
    using out by simp
  show "\<forall>k. pget ls k = pget ps k \<longrightarrow> pget (rr_merged_state r) k = pget ls k"
    using val pget_missing [of _ ls] by (auto simp: pget_def [of "rr_merged_state r"] resolved_to_def)
  let ?diff = "\<lambda>k. pget ls k \<noteq> pget ps k" and ?open = "\<lambda>k. left_open strat (pget ls k) (pget ps k)"
  have "length (filter (\<lambda>k. ?diff k \<and> \<not> ?open k) ?ks) + length (filter ?open ?ks) = length (filter ?diff ?ks)"
    using sum_length_filter_compl [of ?open "filter ?diff ?ks"] by (simp add: left_open_def conj_commute cong: conj_cong filter_cong)
  moreover have "set (filter ?diff ?ks) = {k. ?diff k}" using differing_keys [of ls _ ps] by (auto simp del: set_either_keys)
  then have "length (filter ?diff ?ks) = card {k. ?diff k}" by (metis distinct_card distinct_either_keys distinct_filter)
  ultimately show "rr_conflicts_resolved r + rr_remaining_conflicts r = card {k. ?diff k}" using out by simp
  show "rr_remaining_conflicts r = 0" if "strat \<noteq> ''merge''" using out that by (simp add: left_open_def)
  show "\<forall>k. pget (rr_merged_state r) k \<in> {pget ls k, pget ps k}" if s: "strat \<in> {''lww'', ''peer_wins'', ''local_wins''}"
  proof
    fix k
    show "pget (rr_merged_state r) k \<in> {pget ls k, pget ps k}"
      using val s resolve_lww_choice [of k "pget ls k" "pget ps k" peer d] pget_missing [of k ls]
      by (auto simp: pget_def [of "rr_merged_state r"] resolved_to_def)
  qed
qed

definition left_state :: "(string, int pval) dict" where
  "left_state = [(''a'', PAtom 1), (''b'', PList [PAtom 1]), (''c'', PAtom 5)]"

definition right_state :: "(string, int pval) dict" where
  "right_state = [(''c'', PAtom 5), (''a'', PAtom 2), (''b'', PList [PAtom 2, PAtom 1])]"

theorem resolve_conflict_outcome_witness:
  "\<exists>r. dt_resolve_conflict left_state right_state ''p'' ''merge'' None (conflict_detector_init None :: int conflict_detector) = Inr r
     \<and> rr_conflicts_resolved r + rr_remaining_conflicts r = card {k. pget left_state k \<noteq> pget right_state k}"
proof -
  let ?x = "dt_resolve_conflict left_state right_state ''p'' ''merge'' None (conflict_detector_init None :: int conflict_detector)"
  have "\<not> isl ?x" by code_simp
  then obtain r where "?x = Inr r" by (cases ?x) auto
  with resolve_conflict_outcome [of left_state right_state "''p''" "''merge''" None "conflict_detector_init None :: int conflict_detector" ValueError r] show ?thesis by blast
qed

text \<open>A merge is reported as complete exactly when nothing in it is marked.\<close>

fun marker_free :: "'a pval \<Rightarrow> bool" where
  "marker_free (ConflictMarker l p) = False"
| "marker_free (PList xs) = list_all marker_free xs"
| "marker_free (PDict d) = list_all (\<lambda>(k, v). marker_free v) d"
| "marker_free v = True"

lemma marker_free_pget: "marker_free (PDict d) \<Longrightarrow> marker_free (pget d k)"
  by (auto simp: pget_def list_all_iff split: option.splits dest: map_of_SomeD)

lemma merge_complete_iff:
  "marker_free l \<Longrightarrow> marker_free p \<Longrightarrow> (snd (resolve_merge l p) \<longrightarrow> marker_free (fst (resolve_merge l p)))
     \<and> (is_pdict l \<and> is_pdict p \<longrightarrow> snd (resolve_merge l p) = marker_free (fst (resolve_merge l p)))"
proof (induction l p rule: resolve_merge.induct)
  case (1 l p)
  show ?case
  proof (cases "is_pdict l \<and> is_pdict p")
    case False
    with 1(2,3) show ?thesis by (subst (1 2 3 4) resolve_merge.simps) (auto simp: list_all_iff split: pval.splits)
  next
    case True
    then obtain a b where lp: "l = PDict a" "p = PDict b" by (auto simp: is_pdict_def split: pval.splits)
    let ?e = "\<lambda>k. if pget a k = pget b k then (k, pget a k, True)
                  else if is_pdict (pget a k) \<and> is_pdict (pget b k)
                  then (case resolve_merge (pget a k) (pget b k) of (v, r) \<Rightarrow> if r then (k, v, True) else (k, ConflictMarker (pget a k) (pget b k), False))
                  else (k, ConflictMarker (pget a k) (pget b k), False)"
    have mk: "marker_free (pget a k)" "marker_free (pget b k)" for k using 1(2,3) lp marker_free_pget by auto
    have e: "snd (snd (?e k)) = marker_free (fst (snd (?e k)))" if "k \<in> set (either_keys a b)" for k
    proof (cases "pget a k = pget b k \<or> \<not> (is_pdict (pget a k) \<and> is_pdict (pget b k))")
      case True then show ?thesis using mk by auto
    next
      case False
      then have "snd (resolve_merge (pget a k) (pget b k)) \<longrightarrow> marker_free (fst (resolve_merge (pget a k) (pget b k)))"
        using 1(1) [OF True, of k] that mk lp by (simp add: pitems_def)
      with False show ?thesis by (cases "resolve_merge (pget a k) (pget b k)") auto
    qed
    have r: "resolve_merge l p = (PDict (map (\<lambda>(k, v, r). (k, v)) (map ?e (either_keys a b))), list_all (\<lambda>(k, v, r). r) (map ?e (either_keys a b)))"
      using True by (subst resolve_merge.simps) (simp add: lp pitems_def Let_def)
    define E where "E = ?e"
    have "snd (snd (E k)) = marker_free (fst (snd (E k)))" if "k \<in> set (either_keys a b)" for k unfolding E_def by (rule e [OF that])
    then have "list_all (\<lambda>(k, v, r). r) (map E (either_keys a b)) = marker_free (PDict (map (\<lambda>(k, v, r). (k, v)) (map E (either_keys a b))))"
      by (simp add: list_all_iff split_beta)
    then have "snd (resolve_merge l p) = marker_free (fst (resolve_merge l p))" unfolding r E_def fst_conv snd_conv .
    then show ?thesis by simp
  qed
qed

text \<open>On a tie each side takes the other's value, so both still differ after resolving.\<close>

lemma lww_tie_swaps:
  "let da = conflict_detector_init (Some ''a'') :: int conflict_detector; db = conflict_detector_init (Some ''b'') :: int conflict_detector in
   map_sum id rr_merged_state (dt_resolve_conflict [(''k'', PAtom (1 :: int))] [(''k'', PAtom 2)] ''b'' ''lww'' None da) = Inr [(''k'', PAtom 2)]
   \<and> map_sum id rr_merged_state (dt_resolve_conflict [(''k'', PAtom (2 :: int))] [(''k'', PAtom 1)] ''a'' ''lww'' None db) = Inr [(''k'', PAtom 1)]"
  by code_simp

text \<open>So do merged lists, by their order, and a key that only one nested dictionary has counts as a conflict.\<close>

lemma merged_lists_differ:
  "resolve_merge (PList [PAtom 1]) (PList [PAtom (2 :: int)]) = (PList [PAtom 1, PAtom 2], True)
   \<and> resolve_merge (PList [PAtom 2]) (PList [PAtom (1 :: int)]) = (PList [PAtom 2, PAtom 1], True)"
  by code_simp

lemma disjoint_keys_conflict: "snd (resolve_merge (PDict [(''x'', PAtom (1 :: int))]) (PDict [(''y'', PAtom 2)])) = False"
  by code_simp

end
