(* ===== verification/BftCoordinator.thy ===== *)
theory BftCoordinator
  imports PbftProgress Quorum VectorClock "HOL-Library.Multiset"
begin

text \<open>
  \<^verbatim>\<open>ByzantineCoordinator\<close> of \<^verbatim>\<open>src/distllm/dist/byzantine.py\<close>: the coordinator around a PBFT node, a quorum manager and a conflict
  detector that it creates itself. Operations are dictionaries. \<open>num\<close> turns the time into a value and \<open>txt\<close> is the text of a value in
  an f-string. Peers' messages reach the PBFT node directly and its commits come back through the callback: \<open>bft_deliver\<close> is that path.
  The default callback is in use unless one was given.
\<close>

section \<open>State\<close>

type_synonym 'a operation = "(string, 'a pval) dict"

record ('a, 'k) bft =
  bc_node_id :: string
  bc_pbft :: "('a operation, 'k) pbft"
  bc_qm :: quorum_manager
  bc_sbd :: "'a pval conflict_detector"
  bc_agreed_state :: "(string, 'a pval) dict"
  bc_pending_ops :: "(int, 'a operation \<times> rat) dict"
  bc_committed_ops :: "'a operation list"
  bc_failed_ops :: "'a operation list"
  bc_view_changes :: int
  bc_total_ops :: int
  bc_peer_nodes :: "(string, 'a operation) dict"
  bc_custom_callback :: bool
  bc_start_time :: rat

definition bft_init ::
    "('a operation, 'k) pbft_crypto \<Rightarrow> string list \<Rightarrow> string option \<Rightarrow> int option \<Rightarrow> bool \<Rightarrow> 'k \<Rightarrow> (string, 'k) dict \<Rightarrow> rat \<Rightarrow> py_error + ('a, 'k) bft" where
  "bft_init cr ids nid f custom key keys now =
     (let fv = (case f of Some x \<Rightarrow> x | None \<Rightarrow> (int (length ids) - 1) div 3);
          nid1 = (case nid of Some i \<Rightarrow> i | None \<Rightarrow> (case ids of [] \<Rightarrow> [] | i # is \<Rightarrow> i));
          me = (if nid1 = [] then ''coordinator'' else nid1)
      in case pbft_init cr me (sort ids) (Some fv) key keys of
           Inl e \<Rightarrow> Inl e
         | Inr n \<Rightarrow> Inr \<lparr>bc_node_id = me, bc_pbft = n, bc_qm = quorum_manager_init (int (length ids)) (Some fv) PBFT, bc_sbd = conflict_detector_init (Some me),
                       bc_agreed_state = [], bc_pending_ops = [], bc_committed_ops = [], bc_failed_ops = [], bc_view_changes = 0, bc_total_ops = 0,
                       bc_peer_nodes = [], bc_custom_callback = custom, bc_start_time = now\<rparr>)"

section \<open>Operations\<close>

definition op_name :: "('a pval \<Rightarrow> string) \<Rightarrow> 'a operation \<Rightarrow> string" where
  "op_name txt x = (case map_of x ''op'' of Some v \<Rightarrow> txt v | None \<Rightarrow> (case map_of x ''type'' of Some v \<Rightarrow> txt v | None \<Rightarrow> ''unknown''))"

fun drop_pending :: "'a operation \<Rightarrow> (int, 'a operation \<times> rat) dict \<Rightarrow> (int, 'a operation \<times> rat) dict" where
  "drop_pending x [] = []"
| "drop_pending x ((i, y, t) # ps) = (if y = x then ps else (i, y, t) # drop_pending x ps)"

definition default_commit_callback :: "(rat \<Rightarrow> 'a) \<Rightarrow> ('a pval \<Rightarrow> string) \<Rightarrow> rat \<Rightarrow> 'a operation \<Rightarrow> ('a, 'k) bft \<Rightarrow> ('a, 'k) bft" where
  "default_commit_callback num txt now x c =
     (let st = AList.update ''timestamp'' (PAtom (num now)) (AList.update ''last_operation'' (PDict x)
                 (AList.update (''last_'' @ op_name txt x) (PDict x) (bc_agreed_state c)))
      in c\<lparr>bc_agreed_state := st, bc_committed_ops := bc_committed_ops c @ [x],
           bc_pbft := (bc_pbft c)\<lparr>pb_committed_ops := int (length (bc_committed_ops c @ [x]))\<rparr>,
           bc_pending_ops := drop_pending x (bc_pending_ops c)\<rparr>)"

definition run_callback :: "(rat \<Rightarrow> 'a) \<Rightarrow> ('a pval \<Rightarrow> string) \<Rightarrow> rat \<Rightarrow> 'a operation list \<Rightarrow> ('a, 'k) bft \<Rightarrow> ('a, 'k) bft" where
  "run_callback num txt now xs c = (if bc_custom_callback c then c else fold (default_commit_callback num txt now) xs c)"

definition bft_submit ::
    "('a operation, 'k) pbft_crypto \<Rightarrow> (rat \<Rightarrow> 'a) \<Rightarrow> ('a pval \<Rightarrow> string) \<Rightarrow> rat \<Rightarrow> 'a operation \<Rightarrow> ('a, 'k) bft
     \<Rightarrow> bool \<times> 'a operation pbft_message list \<times> ('a, 'k) bft" where
  "bft_submit cr num txt now x c =
     (let i = bc_total_ops c + 1;
          c1 = c\<lparr>bc_total_ops := i, bc_pending_ops := AList.update i (x, now) (bc_pending_ops c)\<rparr>;
          (r, sent, ops, n) = handle_request cr x (bc_pbft c1);
          c2 = run_callback num txt now ops (c1\<lparr>bc_pbft := n\<rparr>)
      in (\<not> (r = None \<and> \<not> pb_is_primary n), sent, c2))"

definition bft_deliver ::
    "('a operation, 'k) pbft_crypto \<Rightarrow> (rat \<Rightarrow> 'a) \<Rightarrow> ('a pval \<Rightarrow> string) \<Rightarrow> rat \<Rightarrow> 'a operation pbft_event \<Rightarrow> ('a, 'k) bft
     \<Rightarrow> 'a operation pbft_message list \<times> ('a, 'k) bft" where
  "bft_deliver cr num txt now ev c =
     (let (sent, ops, n) = pbft_handle cr ev (bc_pbft c) in (sent, run_callback num txt now ops (c\<lparr>bc_pbft := n\<rparr>)))"

definition get_state :: "('a, 'k) bft \<Rightarrow> (string, 'a pval) dict" where
  "get_state c = bc_agreed_state c"

definition get_operation_history :: "('a, 'k) bft \<Rightarrow> 'a operation list" where
  "get_operation_history c = bc_committed_ops c"

definition register_peer :: "string \<Rightarrow> 'a operation option \<Rightarrow> ('a, 'k) bft \<Rightarrow> ('a, 'k) bft" where
  "register_peer p h c = c\<lparr>bc_peer_nodes := AList.update p (case h of None \<Rightarrow> [] | Some x \<Rightarrow> x) (bc_peer_nodes c)\<rparr>"

definition unregister_peer :: "string \<Rightarrow> ('a, 'k) bft \<Rightarrow> ('a, 'k) bft" where
  "unregister_peer p c = c\<lparr>bc_peer_nodes := AList.delete p (bc_peer_nodes c)\<rparr>"

definition trigger_view_change :: "('a operation, 'k) pbft_crypto \<Rightarrow> rat \<Rightarrow> ('a, 'k) bft \<Rightarrow> ('a, 'k) bft" where
  "trigger_view_change cr now c = c\<lparr>bc_pbft := suspect_primary cr now (bc_pbft c), bc_view_changes := bc_view_changes c + 1\<rparr>"

definition record_state_update :: "string \<Rightarrow> 'a pval option \<Rightarrow> ('a, 'k) bft \<Rightarrow> ('a, 'k) bft" where
  "record_state_update key val c = c\<lparr>bc_sbd := dt_update (bc_node_id c) key val (bc_sbd c)\<rparr>"

definition check_split_brain :: "(string, vclock) dict \<Rightarrow> ('a, 'k) bft \<Rightarrow> conflict list \<times> ('a, 'k) bft" where
  "check_split_brain pc c = (case detect_conflicts (get_clocks (bc_sbd c)) pc (bc_sbd c) of (cs, d) \<Rightarrow> (cs, c\<lparr>bc_sbd := d\<rparr>))"

definition resolve_partition_conflict ::
    "(string, 'a pval) dict \<Rightarrow> (string, 'a pval) dict \<Rightarrow> string \<Rightarrow> string \<Rightarrow> ('a, 'k) bft \<Rightarrow> (py_error + 'a resolution) \<times> ('a, 'k) bft" where
  "resolve_partition_conflict ls ps peer strat c =
     (case dt_resolve_conflict ls ps peer strat None (bc_sbd c) of
        Inl e \<Rightarrow> (Inl e, c)
      | Inr r \<Rightarrow> (Inr r, if rr_conflicts_resolved r > 0 \<or> rr_remaining_conflicts r = 0 then c\<lparr>bc_agreed_state := rr_merged_state r\<rparr> else c))"

definition report_faulty_node :: "string \<Rightarrow> ('a, 'k) bft \<Rightarrow> ('a, 'k) bft" where
  "report_faulty_node i c = c\<lparr>bc_pbft := mark_faulty i (bc_pbft c)\<rparr>"

definition bft_recover_node :: "string \<Rightarrow> ('a, 'k) bft \<Rightarrow> ('a, 'k) bft" where
  "bft_recover_node i c = c\<lparr>bc_pbft := recover_node i (bc_pbft c)\<rparr>"

record bft_stats =
  bs_total_operations :: int
  bs_committed_operations :: nat
  bs_failed_operations :: nat
  bs_pending_operations :: nat
  bs_view_changes :: int
  bs_faulty_nodes :: "string list"
  bs_current_view :: int
  bs_uptime_seconds :: rat

definition bft_statistics :: "rat \<Rightarrow> ('a, 'k) bft \<Rightarrow> bft_stats" where
  "bft_statistics now c =
     \<lparr>bs_total_operations = bc_total_ops c, bs_committed_operations = length (bc_committed_ops c), bs_failed_operations = length (bc_failed_ops c),
      bs_pending_operations = length (bc_pending_ops c), bs_view_changes = bc_view_changes c,
      bs_faulty_nodes = map fst (filter (\<lambda>(i, s). s = FAULTY \<or> s = SUSPECT) (pb_node_status (bc_pbft c))),
      bs_current_view = pb_view (bc_pbft c), bs_uptime_seconds = now - bc_start_time c\<rparr>"

section \<open>Snapshots\<close>

record 'a bft_snapshot =
  sn_node_id :: string
  sn_view :: int
  sn_agreed_state :: "(string, 'a pval) dict"
  sn_committed_ops :: "'a operation list"
  sn_failed_ops :: "'a operation list"
  sn_total_ops :: int
  sn_view_changes :: int
  sn_faulty_nodes :: "string list"
  sn_clocks :: "(string, vclock) dict"

definition bft_take_snapshot :: "('a, 'k) bft \<Rightarrow> 'a bft_snapshot" where
  "bft_take_snapshot c =
     \<lparr>sn_node_id = bc_node_id c, sn_view = pb_view (bc_pbft c), sn_agreed_state = bc_agreed_state c, sn_committed_ops = bc_committed_ops c,
      sn_failed_ops = bc_failed_ops c, sn_total_ops = bc_total_ops c, sn_view_changes = bc_view_changes c,
      sn_faulty_nodes = map fst (filter (\<lambda>(i, s). s = FAULTY) (pb_node_status (bc_pbft c))), sn_clocks = get_clocks (bc_sbd c)\<rparr>"

definition bft_restore_snapshot :: "'a bft_snapshot \<Rightarrow> ('a, 'k) bft \<Rightarrow> ('a, 'k) bft" where
  "bft_restore_snapshot s c =
     c\<lparr>bc_agreed_state := sn_agreed_state s, bc_committed_ops := sn_committed_ops s, bc_failed_ops := sn_failed_ops s,
       bc_total_ops := sn_total_ops s, bc_view_changes := sn_view_changes s\<rparr>"


section \<open>A coordinator in use\<close>

datatype 'a bft_event =
    Submit rat "'a operation"
  | Deliver rat "'a operation pbft_event"
  | TriggerViewChange rat
  | RecordUpdate string "'a pval option"
  | CheckSplitBrain "(string, vclock) dict"
  | ReportFaulty string
  | RecoverNode string

fun bft_step :: "('a operation, 'k) pbft_crypto \<Rightarrow> (rat \<Rightarrow> 'a) \<Rightarrow> ('a pval \<Rightarrow> string) \<Rightarrow> 'a bft_event \<Rightarrow> ('a, 'k) bft \<Rightarrow> ('a, 'k) bft" where
  "bft_step cr num txt (Submit t x) c = snd (snd (bft_submit cr num txt t x c))"
| "bft_step cr num txt (Deliver t ev) c = snd (bft_deliver cr num txt t ev c)"
| "bft_step cr num txt (TriggerViewChange t) c = trigger_view_change cr t c"
| "bft_step cr num txt (RecordUpdate k v) c = record_state_update k v c"
| "bft_step cr num txt (CheckSplitBrain pc) c = snd (check_split_brain pc c)"
| "bft_step cr num txt (ReportFaulty i) c = report_faulty_node i c"
| "bft_step cr num txt (RecoverNode i) c = bft_recover_node i c"

section \<open>Submitting\<close>

lemma handle_request_no_ops: "handle_request cr x n = (r, sent, ops, n') \<Longrightarrow> ops = []"
  by (auto simp: handle_request_def accept_pre_prepare_def Let_def split: if_splits option.splits)

lemma is_primary_conf: "pb_conf n' = pb_conf n \<Longrightarrow> pb_is_primary n' = pb_is_primary n"
  by (simp add: pb_conf_def pb_is_primary_def pb_primary_def)

text \<open>What submitting does. The answer is whether this node is the primary, not whether anything was committed or even proposed: nothing is committed,
  a pre-prepare is signed exactly when the node is the primary, no view change is in progress and the next number is inside the window,
  and in every case the operation is entered as pending under a fresh number.\<close>
theorem submit_outcome:
  assumes "bft_submit cr num txt now x c = (ok, sent, c')"
  shows "ok = pb_is_primary (bc_pbft c) \<and> get_operation_history c' = get_operation_history c \<and> get_state c' = get_state c
     \<and> bc_total_ops c' = bc_total_ops c + 1 \<and> map_of (bc_pending_ops c') (bc_total_ops c') = Some (x, now)
     \<and> (sent \<noteq> [] \<longleftrightarrow> pb_is_primary (bc_pbft c) \<and> \<not> pb_view_change_in_progress (bc_pbft c)
           \<and> check_sequence_watermark (pb_last_sequence (bc_pbft c) + 1) (bc_pbft c))
     \<and> (sent = [] \<longrightarrow> bc_pbft c' = bc_pbft c)"
proof -
  obtain r sent' ops n where r: "handle_request cr x (bc_pbft c) = (r, sent', ops, n)" by (metis prod_cases4)
  have ops: "ops = []" by (rule handle_request_no_ops [OF r])
  have idle: "sent' = [] \<Longrightarrow> n = bc_pbft c" using handle_request_idle r by metis
  have prim: "pb_is_primary n = pb_is_primary (bc_pbft c)" by (rule is_primary_conf [OF handle_request_conf [OF r]])
  have none: "r = None \<longleftrightarrow> sent' = []" "sent' \<noteq> [] \<longleftrightarrow> pb_is_primary (bc_pbft c) \<and> \<not> pb_view_change_in_progress (bc_pbft c)
      \<and> check_sequence_watermark (pb_last_sequence (bc_pbft c) + 1) (bc_pbft c)"
    using r by (auto simp: handle_request_def Let_def split: if_splits prod.splits)
  show ?thesis using assms r ops idle prim none
    by (auto simp: bft_submit_def run_callback_def Let_def get_operation_history_def get_state_def)
qed

section \<open>The history\<close>

definition op_at :: "(int, 'o pbft_message) dict \<Rightarrow> int \<Rightarrow> 'o list" where
  "op_at l s = (case map_of l s of None \<Rightarrow> [] | Some m \<Rightarrow> (case mg_operation m of None \<Rightarrow> [] | Some x \<Rightarrow> [x]))"

definition hist_ok :: "('o, 'k) pbft \<Rightarrow> 'o list \<Rightarrow> bool" where
  "hist_ok n hs \<longleftrightarrow> (\<forall>s \<in> set (pb_committed n). map_of (pb_pre_prepare_log n) s \<noteq> None)
     \<and> (pb_is_primary n \<longrightarrow> (\<forall>s. map_of (pb_pre_prepare_log n) s \<noteq> None \<longrightarrow> s \<le> pb_last_sequence n))
     \<and> hs = concat (map (op_at (pb_pre_prepare_log n)) (pb_committed n))"

lemma hist_frame [simp]:
  "hist_ok (n\<lparr>pb_commit_log := c\<rparr>) hs = hist_ok n hs" "hist_ok (n\<lparr>pb_prepare_log := p\<rparr>) hs = hist_ok n hs"
  "hist_ok (n\<lparr>pb_committed_ops := k\<rparr>) hs = hist_ok n hs" "hist_ok (n\<lparr>pb_node_status := st\<rparr>) hs = hist_ok n hs"
  "hist_ok (n\<lparr>pb_view_change_in_progress := b\<rparr>) hs = hist_ok n hs" "hist_ok (n\<lparr>pb_last_view_change := t\<rparr>) hs = hist_ok n hs"
  "hist_ok (n\<lparr>pb_view_change_messages := v\<rparr>) hs = hist_ok n hs"
  by (simp_all add: hist_ok_def pb_is_primary_def pb_primary_def)

lemma hist_commit:
  assumes "hist_ok n hs" and "map_of (pb_pre_prepare_log n) s \<noteq> None"
  shows "hist_ok (advance_watermark (n\<lparr>pb_committed := pb_committed n @ [s], pb_committed_ops := k\<rparr>)) (hs @ op_at (pb_pre_prepare_log n) s)"
proof -
  let ?w = "low_mark (pb_committed n @ [s])" and ?l = "pb_pre_prepare_log n"
  have keep: "map_of (prune_below ?w ?l) t = map_of ?l t" "op_at (prune_below ?w ?l) t = op_at ?l t" if "t \<in> set (pb_committed n @ [s])" for t
    using low_mark_le [OF that] by (simp_all add: op_at_def not_less)
  let ?n = "advance_watermark (n\<lparr>pb_committed := pb_committed n @ [s], pb_committed_ops := k\<rparr>)"
  have n: "pb_committed ?n = pb_committed n @ [s]" "pb_pre_prepare_log ?n = prune_below ?w ?l" "pb_last_sequence ?n = pb_last_sequence n" "pb_is_primary ?n = pb_is_primary n"
    by (simp_all add: advance_watermark_to pb_is_primary_def pb_primary_def)
  have same: "map (op_at (prune_below ?w ?l)) (pb_committed n @ [s]) = map (op_at ?l) (pb_committed n @ [s])" using keep(2) by (meson map_eq_conv)
  have "\<forall>t \<in> set (pb_committed n @ [s]). map_of (prune_below ?w ?l) t \<noteq> None" using keep(1) assms unfolding hist_ok_def by auto
  moreover have "\<forall>t. map_of (prune_below ?w ?l) t \<noteq> None \<longrightarrow> map_of ?l t \<noteq> None" by simp
  moreover have "hs @ op_at ?l s = concat (map (op_at ?l) (pb_committed n @ [s]))" using assms(1) by (simp add: hist_ok_def)
  ultimately show ?thesis using assms(1) unfolding hist_ok_def n same by blast
qed

lemma hist_try_commit:
  "try_commit_quorum s d n = (ops, n') \<Longrightarrow> map_of (pb_pre_prepare_log n) s \<noteq> None \<Longrightarrow> hist_ok n hs \<Longrightarrow> hist_ok n' (hs @ ops)"
  using hist_commit [of n hs s] by (auto simp: try_commit_quorum_def Let_def op_at_def split: if_splits option.splits)

lemma hist_try_prepare:
  "try_prepare_quorum cr s d n = (sent, ops, n') \<Longrightarrow> map_of (pb_pre_prepare_log n) s \<noteq> None \<Longrightarrow> hist_ok n hs \<Longrightarrow> hist_ok n' (hs @ ops)"
  by (auto simp: try_prepare_quorum_def Let_def split: if_splits prod.splits dest: hist_try_commit [where hs = hs])

lemma hist_accept:
  assumes "hist_ok n hs" and "map_of (pb_pre_prepare_log n) s = None" and "pb_is_primary n \<Longrightarrow> s \<le> l" and "pb_last_sequence n \<le> l"
  shows "hist_ok (n\<lparr>pb_last_sequence := l, pb_pre_prepare_log := AList.update s m (pb_pre_prepare_log n)\<rparr>) hs"
proof -
  have "op_at (AList.update s m (pb_pre_prepare_log n)) t = op_at (pb_pre_prepare_log n) t" if "t \<in> set (pb_committed n)" for t
    using assms(1,2) that by (auto simp: hist_ok_def op_at_def)
  then have "concat (map (op_at (AList.update s m (pb_pre_prepare_log n))) (pb_committed n)) = concat (map (op_at (pb_pre_prepare_log n)) (pb_committed n))"
    by (metis (mono_tags, lifting) map_eq_conv)
  with assms show ?thesis by (fastforce simp: hist_ok_def pb_is_primary_def pb_primary_def)
qed

lemma hist_handle:
  assumes "hist_ok n hs" and "capacity_ok n" and "pb_is_primary n \<Longrightarrow> \<nexists>i m. ev = PrePrepareMsg i m" and "pbft_handle cr ev n = (sent, ops, n')"
  shows "hist_ok n' (hs @ ops)"
proof (cases ev)
  case (ClientRequest i x)
  then obtain r where r: "handle_request cr x n = (r, sent, ops, n')" using assms(4) by (metis pbft_handle.simps(1) prod.collapse)
  have ops: "ops = []" by (rule handle_request_no_ops [OF r])
  show ?thesis
  proof (cases "sent = []")
    case True
    with r handle_request_idle assms(1) ops show ?thesis by fastforce
  next
    case False
    then obtain m where n': "n' = n\<lparr>pb_last_sequence := pb_last_sequence n + 1, pb_pre_prepare_log := AList.update (pb_last_sequence n + 1) m (pb_pre_prepare_log n)\<rparr>"
      and p: "pb_is_primary n" using handle_request_run [OF r] by blast
    have "map_of (pb_pre_prepare_log n) (pb_last_sequence n + 1) = None" using assms(1) p by (force simp: hist_ok_def)
    then show ?thesis unfolding n' ops append_Nil2 by (rule hist_accept [OF assms(1)]) simp_all
  qed
next
  case (PrePrepareMsg i m)
  with assms(3) have np: "\<not> pb_is_primary n" by blast
  show ?thesis
  proof (cases "n' = n \<and> ops = []")
    case False
    let ?n = "n\<lparr>pb_last_sequence := pb_last_sequence n, pb_pre_prepare_log := AList.update (mg_sequence m) m (pb_pre_prepare_log n)\<rparr>"
    obtain p s where fresh: "map_of (pb_pre_prepare_log n) (mg_sequence m) = None"
      and t: "try_prepare_quorum cr (mg_sequence m) (mg_digest m) (?n\<lparr>pb_prepare_log := log_add (mg_sequence m) p (pb_prepare_log ?n)\<rparr>) = (s, ops, n')"
      using assms(4) PrePrepareMsg False
      by (auto simp: handle_pre_prepare_def accept_pre_prepare_def Let_def split: if_splits option.splits prod.splits)
    have "hist_ok ?n hs" by (rule hist_accept [OF assms(1) fresh]) (use np in simp_all)
    then show ?thesis by (intro hist_try_prepare [OF t]) simp_all
  qed (use assms in simp)
next
  case (PrepareMsg i m)
  show ?thesis
  proof (cases "n' = n \<and> ops = []")
    case False
    then obtain pp where "map_of (pb_pre_prepare_log n) (mg_sequence m) = Some pp"
      and t: "try_prepare_quorum cr (mg_sequence m) (mg_digest m) (n\<lparr>pb_prepare_log := log_add (mg_sequence m) m (pb_prepare_log n)\<rparr>) = (sent, ops, n')"
      using assms(4) PrepareMsg by (auto simp: handle_prepare_def split: if_splits option.splits)
    with assms(1) show ?thesis by (intro hist_try_prepare [OF t]) simp_all
  qed (use assms in simp)
next
  case (CommitMsg i m)
  show ?thesis
  proof (cases "n' = n \<and> ops = []")
    case False
    then have q: "pb_quorum_size n \<le> int (length (matching_senders (mg_digest m) (log_at (mg_sequence m) (pb_prepare_log n))))"
      and t: "try_commit_quorum (mg_sequence m) (mg_digest m) (n\<lparr>pb_commit_log := log_add (mg_sequence m) m (pb_commit_log n)\<rparr>) = (ops, n')"
      using assms(4) CommitMsg by (auto simp: handle_commit_def Let_def split: if_splits prod.splits)
    have "map_of (pb_pre_prepare_log n) (mg_sequence m) \<noteq> None" by (rule quorum_pre_prepare [OF assms(2) q])
    then show ?thesis using assms(1) by (intro hist_try_commit [OF t]) simp_all
  qed (use assms in simp)
qed


lemma callback_fields [simp]:
  "bc_committed_ops (default_commit_callback num txt now x c) = bc_committed_ops c @ [x]"
  "bc_custom_callback (default_commit_callback num txt now x c) = bc_custom_callback c"
  "bc_total_ops (default_commit_callback num txt now x c) = bc_total_ops c"
  "bc_failed_ops (default_commit_callback num txt now x c) = bc_failed_ops c"
  "bc_pending_ops (default_commit_callback num txt now x c) = drop_pending x (bc_pending_ops c)"
  "bc_pbft (default_commit_callback num txt now x c) = (bc_pbft c)\<lparr>pb_committed_ops := int (length (bc_committed_ops c)) + 1\<rparr>"
  by (simp_all add: default_commit_callback_def Let_def)

lemma callback_fold [simp]:
  "bc_committed_ops (fold (default_commit_callback num txt now) xs c) = bc_committed_ops c @ xs"
  "bc_custom_callback (fold (default_commit_callback num txt now) xs c) = bc_custom_callback c"
  "bc_total_ops (fold (default_commit_callback num txt now) xs c) = bc_total_ops c"
  "bc_failed_ops (fold (default_commit_callback num txt now) xs c) = bc_failed_ops c"
  "bc_pending_ops (fold (default_commit_callback num txt now) xs c) = fold drop_pending xs (bc_pending_ops c)"
  by (induction xs arbitrary: c) simp_all

lemma callback_fold_pbft: "\<exists>k. bc_pbft (fold (default_commit_callback num txt now) xs c) = (bc_pbft c)\<lparr>pb_committed_ops := k\<rparr>"
proof (induction xs arbitrary: c)
  case Nil
  have "bc_pbft c = (bc_pbft c)\<lparr>pb_committed_ops := pb_committed_ops (bc_pbft c)\<rparr>" by simp
  then show ?case by (metis fold_Nil id_apply)
next
  case (Cons x xs)
  from Cons [of "default_commit_callback num txt now x c"] show ?case by auto
qed

definition coord_ok :: "bool \<Rightarrow> ('a, 'k) bft \<Rightarrow> bool" where
  "coord_ok p c \<longleftrightarrow> \<not> bc_custom_callback c \<and> pb_is_primary (bc_pbft c) = p \<and> capacity_ok (bc_pbft c) \<and> hist_ok (bc_pbft c) (bc_committed_ops c)"

lemma coord_callback:
  assumes "\<not> bc_custom_callback c" and "pb_is_primary n = p" and "capacity_ok n" and "hist_ok n (bc_committed_ops c @ ops)"
  shows "coord_ok p (run_callback num txt now ops (c\<lparr>bc_pbft := n\<rparr>))"
proof -
  have prim: "pb_is_primary (n\<lparr>pb_committed_ops := k\<rparr>) = p" for k using assms(2) by (simp add: pb_is_primary_def pb_primary_def)
  obtain k where k: "bc_pbft (fold (default_commit_callback num txt now) ops (c\<lparr>bc_pbft := n\<rparr>)) = n\<lparr>pb_committed_ops := k\<rparr>"
    using callback_fold_pbft [of num "txt" now ops "c\<lparr>bc_pbft := n\<rparr>"] by auto
  then show ?thesis using assms prim by (simp add: coord_ok_def run_callback_def)
qed

lemma capacity_handle: "pbft_handle cr ev n = (sent, ops, n') \<Longrightarrow> capacity_ok n \<Longrightarrow> capacity_ok n'"
  using capacity_apply [of n cr ev] by (simp add: pbft_apply_def third_def)

lemma coord_deliver:
  assumes "coord_ok p c" and "p \<Longrightarrow> \<nexists>i m. ev = PrePrepareMsg i m"
  shows "coord_ok p (snd (bft_deliver cr num txt now ev c))"
proof -
  obtain sent ops n where r: "pbft_handle cr ev (bc_pbft c) = (sent, ops, n)" by (metis prod_cases3)
  have "coord_ok p (run_callback num txt now ops (c\<lparr>bc_pbft := n\<rparr>))"
    using assms hist_handle [OF _ _ _ r] capacity_handle [OF r] is_primary_conf [OF pbft_handle_conf [OF r]]
    by (intro coord_callback) (auto simp: coord_ok_def)
  then show ?thesis by (simp add: bft_deliver_def r)
qed

lemma submit_deliver:
  "snd (snd (bft_submit cr num txt now x c)) = snd (bft_deliver cr num txt now (ClientRequest i x)
     (c\<lparr>bc_total_ops := bc_total_ops c + 1, bc_pending_ops := AList.update (bc_total_ops c + 1) (x, now) (bc_pending_ops c)\<rparr>))"
  by (simp add: bft_submit_def bft_deliver_def Let_def split_beta)

text \<open>What the other calls do to the PBFT node.\<close>

definition status_only :: "('o, 'k) pbft \<Rightarrow> ('o, 'k) pbft \<Rightarrow> bool" where
  "status_only n n' \<longleftrightarrow> (\<exists>st b t vm. n' = n\<lparr>pb_node_status := st, pb_view_change_in_progress := b, pb_last_view_change := t, pb_view_change_messages := vm\<rparr>)"

lemma status_onlyI: "status_only n (n\<lparr>pb_node_status := st\<rparr>)" "status_only n n"
  "status_only n (n\<lparr>pb_node_status := st, pb_view_change_in_progress := b, pb_last_view_change := t, pb_view_change_messages := vm\<rparr>)"
proof -
  have "n\<lparr>pb_node_status := s\<rparr> = n\<lparr>pb_node_status := s, pb_view_change_in_progress := pb_view_change_in_progress n,
    pb_last_view_change := pb_last_view_change n, pb_view_change_messages := pb_view_change_messages n\<rparr>" for s by simp
  then show "status_only n (n\<lparr>pb_node_status := st\<rparr>)" unfolding status_only_def by metis
  have "n = n\<lparr>pb_node_status := pb_node_status n, pb_view_change_in_progress := pb_view_change_in_progress n,
    pb_last_view_change := pb_last_view_change n, pb_view_change_messages := pb_view_change_messages n\<rparr>" by simp
  then show "status_only n n" unfolding status_only_def by metis
qed (auto simp: status_only_def)

lemma suspect_status: "status_only n (suspect_primary cr now n)"
  by (auto simp: suspect_primary_def start_view_change_def set_node_status_def Let_def intro: status_onlyI)

lemma mark_status: "status_only n (mark_faulty i n)" "status_only n (recover_node i n)"
  by (auto simp: mark_faulty_def recover_node_def set_node_status_def intro: status_onlyI)

lemma coord_status:
  assumes "coord_ok p c" and "status_only (bc_pbft c) n"
  shows "coord_ok p (c\<lparr>bc_pbft := n\<rparr>)"
  using assms unfolding status_only_def
  by (auto simp: coord_ok_def capacity_ok_def log_window_def pb_is_primary_def pb_primary_def)

lemma coord_step:
  assumes "coord_ok p c" and "p \<Longrightarrow> \<nexists>t i m. e = Deliver t (PrePrepareMsg i m)"
  shows "coord_ok p (bft_step cr num txt e c)"
proof (cases e)
  case (Submit t x)
  have "coord_ok p (c\<lparr>bc_total_ops := k, bc_pending_ops := ps\<rparr>)" for k ps using assms(1) by (simp add: coord_ok_def)
  from coord_deliver [OF this, of "ClientRequest [] x"] Submit show ?thesis by (simp add: submit_deliver [where i = "[]"])
next
  case (Deliver t ev)
  with assms show ?thesis by (auto intro: coord_deliver)
next
  case (TriggerViewChange t)
  have "coord_ok p (c\<lparr>bc_pbft := suspect_primary cr t (bc_pbft c)\<rparr>)" by (rule coord_status [OF assms(1) suspect_status])
  with TriggerViewChange show ?thesis by (simp add: trigger_view_change_def coord_ok_def)
next
  case (ReportFaulty i)
  with coord_status [OF assms(1) mark_status(1)] show ?thesis by (simp add: report_faulty_node_def)
next
  case (RecoverNode i)
  with coord_status [OF assms(1) mark_status(2)] show ?thesis by (simp add: bft_recover_node_def)
qed (use assms(1) in \<open>auto simp: record_state_update_def check_split_brain_def coord_ok_def split: prod.splits\<close>)

lemma coord_run:
  assumes "coord_ok p c" and "p \<Longrightarrow> \<nexists>t i m. Deliver t (PrePrepareMsg i m) \<in> set evs"
  shows "coord_ok p (fold (bft_step cr num txt) evs c)"
  using assms
proof (induction evs arbitrary: c)
  case (Cons e evs)
  have "coord_ok p (bft_step cr num txt e c)" using Cons.prems by (intro coord_step) auto
  from Cons.IH [OF this] Cons.prems(2) show ?case by auto
qed simp

lemma pbft_init_logs: "pbft_init cr i ids f key keys = Inr n \<Longrightarrow> pb_committed n = [] \<and> pb_pre_prepare_log n = []"
  by (auto simp: pbft_init_def split: if_splits)

lemma coord_fresh:
  assumes "bft_init cr ids nid (Some f) False key keys t0 = Inr c" and "0 \<le> f"
  shows "coord_ok (pb_is_primary (bc_pbft c)) c"
proof -
  obtain me where n: "pbft_init cr me (sort ids) (Some f) key keys = Inr (bc_pbft c)" and c: "bc_custom_callback c = False" "bc_committed_ops c = []"
    using assms(1) by (auto simp: bft_init_def Let_def split: sum.splits)
  have "pb_committed (bc_pbft c) = []" "pb_pre_prepare_log (bc_pbft c) = []" using pbft_init_logs [OF n] by simp_all
  with c capacity_fresh [OF n assms(2)] show ?thesis by (simp add: coord_ok_def hist_ok_def)
qed

lemma mset_concat_sort: "mset (concat (map g (sort xs))) = mset (concat (map g xs))"
proof -
  have "mset (concat (map g ys)) = sum_mset (image_mset (\<lambda>x. mset (g x)) (mset ys))" for ys by (induction ys) auto
  then show ?thesis by simp
qed

lemma committed_operations_op_at: "map snd (get_committed_operations n) = concat (map (op_at (pb_pre_prepare_log n)) (sort (pb_committed n)))"
  by (auto simp: get_committed_operations_def map_concat op_at_def intro!: arg_cong [where f = concat] map_cong split: option.splits)



text \<open>Operations are written with one key here, and a digest is the text of its value.\<close>

definition word_op :: "string \<Rightarrow> string operation" where
  "word_op s = [(''op'', PAtom s)]"

definition word_text :: "string pval \<Rightarrow> string" where
  "word_text v = (case v of PAtom s \<Rightarrow> s | _ \<Rightarrow> ''?'')"

definition word_crypto :: "(string operation, string) pbft_crypto" where
  "word_crypto = \<lparr>pc_digest = (\<lambda>x. concat (map (\<lambda>(k, v). k @ ''='' @ word_text v) x)), pc_sign = (\<lambda>k t. k @ ''/'' @ t), pc_verify = (\<lambda>k t s. s = k @ ''/'' @ t), pc_public = (\<lambda>k. k)\<rparr>"

definition word_msg :: "pbft_phase \<Rightarrow> string \<Rightarrow> string \<Rightarrow> string operation pbft_message" where
  "word_msg ph i w = \<lparr>mg_phase = ph, mg_view = 0, mg_sequence = 1, mg_digest = ''op='' @ w, mg_sender = i,
     mg_operation = (if ph = PRE_PREPARE then Some (word_op w) else None), mg_signature = Some (i @ ''/'' @ message_payload i 0 1 (''op='' @ w))\<rparr>"

definition word_init :: "string \<Rightarrow> bool \<Rightarrow> (string, string) bft" where
  "word_init i custom = projr (bft_init word_crypto [''a'', ''b'', ''c'', ''d''] (Some i) (Some 1) custom i (map (\<lambda>k. (k, k)) [''a'', ''b'', ''c'', ''d'']) 0)"

definition word_run :: "string \<Rightarrow> string bft_event list" where
  "word_run w = Submit 1 (word_op w) # map (Deliver 2) (PrePrepareMsg ''b'' (word_msg PRE_PREPARE ''a'' w)
     # map (PrepareMsg ''b'') [word_msg PREPARE ''c'' w, word_msg PREPARE ''d'' w] @ map (CommitMsg ''b'') [word_msg COMMIT ''c'' w, word_msg COMMIT ''a'' w])"

definition word_end :: "bool \<Rightarrow> (string, string) bft" where
  "word_end custom = fold (bft_step word_crypto (\<lambda>t. ''now'') word_text) (word_run ''go'') (word_init ''b'' custom)"

lemma word_init_b:
  "bft_init word_crypto [''a'', ''b'', ''c'', ''d''] (Some ''b'') (Some 1) False ''b'' (map (\<lambda>k. (k, k)) [''a'', ''b'', ''c'', ''d'']) 0 = Inr (word_init ''b'' False)"
  by (simp add: word_init_def bft_init_def pbft_init_def Let_def)


section \<open>Accounting\<close>

definition accounting_ok :: "('a, 'k) bft \<Rightarrow> bool" where
  "accounting_ok c \<longleftrightarrow> 0 \<le> bc_total_ops c \<and> \<not> bc_custom_callback c \<and> dict_wf (bc_pending_ops c) \<and> (\<forall>i \<in> fst ` set (bc_pending_ops c). 1 \<le> i \<and> i \<le> bc_total_ops c)
     \<and> bc_total_ops c \<le> int (length (bc_pending_ops c)) + int (length (bc_committed_ops c)) \<and> bc_failed_ops c = []"

lemma drop_pending_subset: "set (drop_pending x ps) \<subseteq> set ps"
  by (induction x ps rule: drop_pending.induct) auto

lemma drop_pending_wf: "dict_wf ps \<Longrightarrow> dict_wf (drop_pending x ps)"
proof (induction x ps rule: drop_pending.induct)
  case (2 x i y t ps)
  have "i \<notin> fst ` set (drop_pending x ps)" if "i \<notin> fst ` set ps" using that drop_pending_subset [of x ps] by auto
  with 2 show ?case by (auto simp: dict_wf_def)
qed simp

lemma drop_pending_length: "length ps \<le> Suc (length (drop_pending x ps))"
  by (induction x ps rule: drop_pending.induct) auto

lemma accounting_pbft [simp]: "accounting_ok (c\<lparr>bc_pbft := n\<rparr>) = accounting_ok c" "accounting_ok (c\<lparr>bc_sbd := d\<rparr>) = accounting_ok c"
  "accounting_ok (c\<lparr>bc_view_changes := k\<rparr>) = accounting_ok c"
  by (simp_all add: accounting_ok_def)

lemma accounting_callback: "accounting_ok c \<Longrightarrow> accounting_ok (default_commit_callback num txt now x c)"
  using drop_pending_subset [of x "bc_pending_ops c"] drop_pending_wf [of "bc_pending_ops c" x] drop_pending_length [of "bc_pending_ops c" x]
  by (auto simp: accounting_ok_def)

lemma accounting_run_callback: "accounting_ok c \<Longrightarrow> accounting_ok (run_callback num txt now xs c)"
proof -
  have "accounting_ok (fold (default_commit_callback num txt now) xs c)" if "accounting_ok c"
    using that by (induction xs arbitrary: c) (auto intro: accounting_callback)
  then show "accounting_ok c \<Longrightarrow> ?thesis" by (simp add: run_callback_def)
qed

lemma accounting_deliver: "accounting_ok c \<Longrightarrow> accounting_ok (snd (bft_deliver cr num txt now ev c))"
  by (auto simp: bft_deliver_def split: prod.splits intro: accounting_run_callback)

lemma accounting_submit:
  assumes "accounting_ok c"
  shows "accounting_ok (c\<lparr>bc_total_ops := bc_total_ops c + 1, bc_pending_ops := AList.update (bc_total_ops c + 1) (x, now) (bc_pending_ops c)\<rparr>)"
proof -
  have "bc_total_ops c + 1 \<notin> fst ` set (bc_pending_ops c)" using assms by (auto simp: accounting_ok_def)
  then have u: "AList.update (bc_total_ops c + 1) (x, now) (bc_pending_ops c) = bc_pending_ops c @ [(bc_total_ops c + 1, x, now)]" by (rule update_new)
  show ?thesis using assms by (auto simp: accounting_ok_def u dict_wf_def)
qed

lemma accounting_step: "accounting_ok c \<Longrightarrow> accounting_ok (bft_step cr num txt e c)"
  by (cases e) (auto simp: submit_deliver [where i = "[]"] trigger_view_change_def record_state_update_def check_split_brain_def report_faulty_node_def
      bft_recover_node_def split: prod.splits intro!: accounting_deliver accounting_submit)

definition is_submit :: "'a bft_event \<Rightarrow> bool" where
  "is_submit e = (case e of Submit t x \<Rightarrow> True | _ \<Rightarrow> False)"

lemma total_deliver: "bc_total_ops (snd (bft_deliver cr num txt now ev c)) = bc_total_ops c"
  by (simp add: bft_deliver_def run_callback_def split: prod.splits)

lemma total_step: "bc_total_ops (bft_step cr num txt e c) = bc_total_ops c + (if is_submit e then 1 else 0)"
  by (cases e) (simp_all add: is_submit_def submit_deliver [where i = "[]"] total_deliver trigger_view_change_def record_state_update_def
      check_split_brain_def report_faulty_node_def bft_recover_node_def split: prod.splits)

lemma total_run: "bc_total_ops (fold (bft_step cr num txt) evs c) = bc_total_ops c + int (length (filter is_submit evs))"
  by (induction evs arbitrary: c) (simp_all add: total_step)

lemma accounting_run: "accounting_ok c \<Longrightarrow> accounting_ok (fold (bft_step cr num txt) evs c)"
  by (induction evs arbitrary: c) (auto intro: accounting_step)

text \<open>The coordinator's figures. After any run of a fresh coordinator with the default callback the number of operations is the number of submissions, at most as
  many are pending, every submission that is no longer pending is matched by a committed operation, and no operation is ever counted as failed.\<close>
theorem coordinator_accounting:
  assumes "bft_init cr ids nid f False key keys t0 = Inr c0" and "c = fold (bft_step cr num txt) evs c0" and "s = bft_statistics now c"
  shows "bs_total_operations s = int (length (filter is_submit evs)) \<and> int (bs_pending_operations s) \<le> bs_total_operations s
     \<and> bs_total_operations s \<le> int (bs_pending_operations s) + int (bs_committed_operations s) \<and> bs_failed_operations s = 0"
proof -
  have init: "accounting_ok c0" "bc_total_ops c0 = 0" using assms(1) by (auto simp: bft_init_def accounting_ok_def Let_def split: sum.splits)
  have ok: "accounting_ok c" unfolding assms(2) by (rule accounting_run [OF init(1)])
  have "int (length (bc_pending_ops c)) \<le> bc_total_ops c"
  proof -
    have "fst ` set (bc_pending_ops c) \<subseteq> {1 .. bc_total_ops c}" using ok by (auto simp: accounting_ok_def)
    then have "card (fst ` set (bc_pending_ops c)) \<le> card {1 .. bc_total_ops c}" by (intro card_mono) auto
    then show ?thesis using ok dict_length [of "bc_pending_ops c"] by (auto simp: accounting_ok_def)
  qed
  with ok init total_run [of cr num "txt" evs c0] show ?thesis by (simp add: assms(2,3) bft_statistics_def accounting_ok_def)
qed

theorem coordinator_accounting_witness:
  "bs_total_operations (bft_statistics 9 (word_end False)) = 1 \<and> bs_pending_operations (bft_statistics 9 (word_end False)) = 0
   \<and> bs_total_operations (bft_statistics 9 (word_end False)) \<le> int 0 + int (bs_committed_operations (bft_statistics 9 (word_end False)))"
proof -
  have "filter is_submit (word_run ''go'') = [Submit 1 (word_op ''go'')]" by (simp add: word_run_def is_submit_def)
  moreover have "bs_pending_operations (bft_statistics 9 (word_end False)) = 0" by code_simp
  ultimately show ?thesis using coordinator_accounting [OF word_init_b word_end_def refl, of 9] by simp
qed

section \<open>Limits\<close>

text \<open>With a callback of its own the coordinator learns of no commit: the operation stays pending and the state empty.\<close>

lemma custom_callback_forgets:
  "get_committed_operations (bc_pbft (word_end True)) = [(1, word_op ''go'')] \<and> get_operation_history (word_end True) = []
   \<and> get_state (word_end True) = [] \<and> length (bc_pending_ops (word_end True)) = 1"
proof (intro conjI)
  show "get_committed_operations (bc_pbft (word_end True)) = [(1, word_op ''go'')]" by code_simp
  show "get_operation_history (word_end True) = []" by code_simp
  show "get_state (word_end True) = []" by code_simp
  show "length (bc_pending_ops (word_end True)) = 1" by code_simp
qed

text \<open>A primary in a view change drops the request and still answers \<open>True\<close>.\<close>

lemma submit_true_but_dropped:
  assumes "pb_is_primary (bc_pbft c)" and "pb_view_change_in_progress (bc_pbft c)"
  shows "\<exists>c'. bft_submit cr num txt now x c = (True, [], c') \<and> bc_pbft c' = bc_pbft c"
  using assms by (simp add: bft_submit_def handle_request_def run_callback_def Let_def)

text \<open>A snapshot brings back the operations and the state; the view, the faulty nodes and the clocks it holds are not restored.\<close>

lemma snapshot_restored:
  "bft_take_snapshot (bft_restore_snapshot (bft_take_snapshot c) c')
     = (bft_take_snapshot c)\<lparr>sn_node_id := bc_node_id c', sn_view := pb_view (bc_pbft c'),
         sn_faulty_nodes := sn_faulty_nodes (bft_take_snapshot c'), sn_clocks := get_clocks (bc_sbd c')\<rparr>"
  by (simp add: bft_take_snapshot_def bft_restore_snapshot_def)

lemma view_not_restored:
  "pb_view (bc_pbft (bft_restore_snapshot (bft_take_snapshot (c\<lparr>bc_pbft := (bc_pbft c)\<lparr>pb_view := 3\<rparr>\<rparr>)) (word_init ''b'' False))) = 0"
  by (simp add: bft_restore_snapshot_def word_init_def bft_init_def pbft_init_def Let_def)


theorem submit_outcome_witness:
  "fst (bft_submit word_crypto (\<lambda>t. ''now'') word_text 1 (word_op ''go'') (word_init ''a'' False)) = pb_is_primary (bc_pbft (word_init ''a'' False))
   \<and> pb_is_primary (bc_pbft (word_init ''a'' False)) \<and> get_operation_history (snd (snd (bft_submit word_crypto (\<lambda>t. ''now'') word_text 1 (word_op ''go'') (word_init ''a'' False)))) = []"
proof -
  obtain ok sent c where s: "bft_submit word_crypto (\<lambda>t. ''now'') word_text 1 (word_op ''go'') (word_init ''a'' False) = (ok, sent, c)" by (metis prod_cases3)
  have "pb_is_primary (bc_pbft (word_init ''a'' False))" "get_operation_history (word_init ''a'' False) = []" by code_simp+
  with submit_outcome [OF s] s show ?thesis by simp
qed

end
