(* ===== verification/Partition.thy ===== *)
theory Partition
  imports Prelude Complex_Main
begin

text \<open>
  \<^verbatim>\<open>PartitionOptimizer\<close> of \<^verbatim>\<open>src/distllm/dist/partition/optimizer.py\<close>: the assignment of consecutive model layers to nodes by dynamic
  programming, by beam search for large models, and the two baseline splits. The cost model the optimizer is constructed
  with is an argument (\<^verbatim>\<open>CostModel\<close> has the one of the repository); no quantisation tuner is given. Layer counts are natural numbers, times are rationals, an infinite cost is \<open>None\<close>
  and the split \<open>-1\<close> is \<open>None\<close>. The table is kept by columns, one per number of nodes.
\<close>

section \<open>Data\<close>

record node_cost =
  nc_node_id :: string
  nc_start_layer :: nat
  nc_end_layer :: nat
  nc_compute_time_ms :: rat
  nc_communication_time_ms :: rat
  nc_total_time_ms :: rat
  nc_memory_bytes :: nat
  nc_memory_available_bytes :: nat
  nc_fits_in_memory :: bool

type_synonym assignment = "string \<times> nat \<times> nat"

record cost_model =
  cm_evaluate :: "string \<Rightarrow> nat \<Rightarrow> nat \<Rightarrow> nat \<Rightarrow> nat \<Rightarrow> node_cost"
  cm_evaluate_partition :: "assignment list \<Rightarrow> nat \<Rightarrow> nat \<Rightarrow> node_cost list"
  cm_combined_throughput :: "assignment list \<Rightarrow> nat \<Rightarrow> nat \<Rightarrow> rat"
  cm_pipeline_latency :: "assignment list \<Rightarrow> nat \<Rightarrow> nat \<Rightarrow> rat"

record partition_point =
  pt_node_id :: string
  pt_start_layer :: nat
  pt_end_layer :: nat
  pt_estimated_time_ms :: rat

record partition_solution =
  ps_points :: "partition_point list"
  ps_max_node_time_ms :: rat
  ps_total_time_ms :: rat
  ps_estimated_throughput :: rat
  ps_pipeline_latency_ms :: rat
  ps_num_oom_nodes :: nat
  ps_explanation :: string

record optimizer =
  po_cost_model :: cost_model
  po_node_ids :: "string list"
  po_batch_size :: nat
  po_seq_len :: nat
  po_allow_oom :: bool
  po_gpu_counts :: "(string, int) dict"
  po_min_layers :: nat

definition optimizer_init :: "cost_model \<Rightarrow> string list \<Rightarrow> nat \<Rightarrow> nat \<Rightarrow> bool \<Rightarrow> (string, int) dict option \<Rightarrow> int \<Rightarrow> optimizer" where
  "optimizer_init cm ids batch seq oom gpus min_layers =
     \<lparr>po_cost_model = cm, po_node_ids = ids, po_batch_size = batch, po_seq_len = seq, po_allow_oom = oom,
      po_gpu_counts = (case gpus of None \<Rightarrow> fold (\<lambda>i. AList.update i 1) ids [] | Some [] \<Rightarrow> fold (\<lambda>i. AList.update i 1) ids [] | Some g \<Rightarrow> g),
      po_min_layers = nat (max 1 min_layers)\<rparr>"

text \<open>Rounding to the even neighbour on a tie, at two or no decimals.\<close>

definition round_even :: "rat \<Rightarrow> int" where
  "round_even x = (let f = \<lfloor>x\<rfloor>; r = x - of_int f in if r < 1 / 2 then f else if r > 1 / 2 then f + 1 else if even f then f else f + 1)"

definition round2 :: "rat \<Rightarrow> rat" where
  "round2 x = of_int (round_even (x * 100)) / 100"

definition po_evaluate :: "optimizer \<Rightarrow> string \<Rightarrow> nat \<Rightarrow> nat \<Rightarrow> node_cost" where
  "po_evaluate opt nid s e = cm_evaluate (po_cost_model opt) nid s e (po_batch_size opt) (po_seq_len opt)"

definition node_time :: "optimizer \<Rightarrow> string \<Rightarrow> node_cost \<Rightarrow> rat" where
  "node_time opt nid c =
     (let g = (case map_of (po_gpu_counts opt) nid of None \<Rightarrow> 1 | Some n \<Rightarrow> n) in
      if g > 1 then nc_compute_time_ms c / of_int g + nc_communication_time_ms c + nc_communication_time_ms c * (1 / 10)
      else nc_total_time_ms c)"

definition evaluate_node :: "optimizer \<Rightarrow> nat \<Rightarrow> nat \<Rightarrow> nat \<Rightarrow> rat option" where
  "evaluate_node opt k s e =
     (if k \<ge> length (po_node_ids opt) then None
      else let nid = po_node_ids opt ! k; c = po_evaluate opt nid s e in
           if \<not> po_allow_oom opt \<and> \<not> nc_fits_in_memory c then None else Some (node_time opt nid c))"

section \<open>The table\<close>

type_synonym dp_cell = "rat option \<times> nat option"

definition below_inf :: "rat \<Rightarrow> rat option \<Rightarrow> bool" where
  "below_inf x b = (case b of None \<Rightarrow> True | Some y \<Rightarrow> x < y)"

definition initialize_dp :: "optimizer \<Rightarrow> nat \<Rightarrow> dp_cell list" where
  "initialize_dp opt L =
     map (\<lambda>i. if i = 0 then (None, None) else case evaluate_node opt 0 0 i of None \<Rightarrow> (None, None) | Some c \<Rightarrow> (Some c, Some 0)) [0..<L + 1]"

fun scan_splits :: "optimizer \<Rightarrow> dp_cell list \<Rightarrow> nat \<Rightarrow> nat \<Rightarrow> nat list \<Rightarrow> dp_cell \<Rightarrow> dp_cell" where
  "scan_splits opt prev k i [] best = best"
| "scan_splits opt prev k i (j # js) best =
     (case (fst (prev ! j), evaluate_node opt k j i) of
        (Some pc, Some nc) \<Rightarrow> scan_splits opt prev k i js (if below_inf (max pc nc) (fst best) then (Some (max pc nc), Some j) else best)
      | _ \<Rightarrow> scan_splits opt prev k i js best)"

definition dp_cell_at :: "optimizer \<Rightarrow> dp_cell list \<Rightarrow> nat \<Rightarrow> nat \<Rightarrow> dp_cell" where
  "dp_cell_at opt prev k i =
     (let min_j = max 1 (k * po_min_layers opt) in
      if i = 0 \<or> i < min_j + po_min_layers opt then (None, None)
      else scan_splits opt prev k i [min_j..<i - po_min_layers opt + 1] (None, None))"

text \<open>The column \<open>k\<close> holds the cells for \<open>k + 1\<close> nodes.\<close>

fun dp_column :: "optimizer \<Rightarrow> nat \<Rightarrow> nat \<Rightarrow> dp_cell list" where
  "dp_column opt L 0 = initialize_dp opt L"
| "dp_column opt L (Suc k) = (let prev = dp_column opt L k in map (dp_cell_at opt prev (Suc k)) [0..<L + 1])"

definition run_dp :: "optimizer \<Rightarrow> nat \<Rightarrow> dp_cell list list" where
  "run_dp opt L = map (dp_column opt L) [0..<min (length (po_node_ids opt)) (L + 1)]"

section \<open>Reading the table\<close>

fun best_nodes :: "dp_cell list list \<Rightarrow> nat \<Rightarrow> nat list \<Rightarrow> nat \<times> rat option \<Rightarrow> nat \<times> rat option" where
  "best_nodes tbl L [] best = best"
| "best_nodes tbl L (k # ks) best =
     best_nodes tbl L ks (case fst (tbl ! k ! L) of None \<Rightarrow> best | Some c \<Rightarrow> if below_inf c (snd best) then (k, Some c) else best)"

definition make_point :: "optimizer \<Rightarrow> nat \<Rightarrow> nat \<Rightarrow> nat \<Rightarrow> partition_point" where
  "make_point opt k s e =
     \<lparr>pt_node_id = po_node_ids opt ! k, pt_start_layer = s, pt_end_layer = e,
      pt_estimated_time_ms = nc_total_time_ms (po_evaluate opt (po_node_ids opt ! k) s e)\<rparr>"

fun trace_points :: "optimizer \<Rightarrow> dp_cell list list \<Rightarrow> nat \<Rightarrow> nat \<Rightarrow> partition_point list" where
  "trace_points opt tbl k e =
     (if e = 0 then []
      else case snd (tbl ! k ! e) of
             None \<Rightarrow> []
           | Some s \<Rightarrow> (case k of 0 \<Rightarrow> [] | Suc k' \<Rightarrow> trace_points opt tbl k' s) @ [make_point opt k s e])"

definition po_backtrack :: "optimizer \<Rightarrow> nat \<Rightarrow> partition_point list" where
  "po_backtrack opt L =
     (let tbl = run_dp opt L; (k, c) = best_nodes tbl L [0..<min (length (po_node_ids opt)) L] (0, None)
      in trace_points opt tbl k L)"

definition retime :: "optimizer \<Rightarrow> partition_point \<Rightarrow> partition_point" where
  "retime opt p = p\<lparr>pt_estimated_time_ms := nc_total_time_ms (po_evaluate opt (pt_node_id p) (pt_start_layer p) (pt_end_layer p))\<rparr>"

definition enforce_boundary_layers :: "optimizer \<Rightarrow> nat \<Rightarrow> partition_point list \<Rightarrow> partition_point list" where
  "enforce_boundary_layers opt L ps =
     (if ps = [] then []
      else let ps1 = (if pt_start_layer (hd ps) \<noteq> 0 then (hd ps)\<lparr>pt_start_layer := 0\<rparr> # tl ps else ps);
               ps2 = (if pt_end_layer (last ps1) \<noteq> L then butlast ps1 @ [(last ps1)\<lparr>pt_end_layer := L\<rparr>] else ps1)
           in map (retime opt) ps2)"

definition triples :: "partition_point list \<Rightarrow> assignment list" where
  "triples ps = map (\<lambda>p. (pt_node_id p, pt_start_layer p, pt_end_layer p)) ps"

definition no_solution :: "string \<Rightarrow> partition_solution" where
  "no_solution why = \<lparr>ps_points = [], ps_max_node_time_ms = 0, ps_total_time_ms = 0, ps_estimated_throughput = 0, ps_pipeline_latency_ms = 0,
     ps_num_oom_nodes = 0, ps_explanation = why\<rparr>"

definition po_finalize :: "optimizer \<Rightarrow> partition_point list \<Rightarrow> partition_solution" where
  "po_finalize opt ps =
     (if ps = [] then no_solution ''No valid partition found''
      else let cost = (\<lambda>p. po_evaluate opt (pt_node_id p) (pt_start_layer p) (pt_end_layer p));
               qs = map (retime opt) ps;
               oom = length (filter (\<lambda>p. \<not> nc_fits_in_memory (cost p)) ps);
               used = dec (length ps) @ ''/'' @ dec (length (po_node_ids opt)) @ '' nodes, ''
           in \<lparr>ps_points = qs, ps_max_node_time_ms = round2 (fold (\<lambda>p. max (nc_total_time_ms (cost p))) ps 0),
               ps_total_time_ms = round2 (sum_list (map pt_estimated_time_ms qs)),
               ps_estimated_throughput = of_int (round_even (cm_combined_throughput (po_cost_model opt) (triples ps) (po_batch_size opt) (po_seq_len opt))),
               ps_pipeline_latency_ms = round2 (cm_pipeline_latency (po_cost_model opt) (triples ps) (po_batch_size opt) (po_seq_len opt)),
               ps_num_oom_nodes = oom,
               ps_explanation = ''DP minimax optimized, '' @ used @
                 (if po_allow_oom opt \<and> oom \<noteq> 0 then dec oom @ '' OOM-tolerant''
                  else if oom \<noteq> 0 then ''OOM on '' @ dec oom @ '' nodes'' else ''no OOM'')\<rparr>)"

definition single_node_solution :: "optimizer \<Rightarrow> nat \<Rightarrow> partition_solution" where
  "single_node_solution opt L =
     (let nid = hd (po_node_ids opt); c = po_evaluate opt nid 0 L; t = node_time opt nid c
      in \<lparr>ps_points = [\<lparr>pt_node_id = nid, pt_start_layer = 0, pt_end_layer = L, pt_estimated_time_ms = t\<rparr>],
          ps_max_node_time_ms = round2 t, ps_total_time_ms = round2 t,
          ps_estimated_throughput = of_int (round_even (of_nat (po_batch_size opt * po_seq_len opt) / max (t / 1000) (1 / 10 ^ 9))),
          ps_pipeline_latency_ms = round2 t, ps_num_oom_nodes = (if nc_fits_in_memory c then 0 else 1),
          ps_explanation = ''Single node (no partitioning needed)''\<rparr>)"

section \<open>Beam search\<close>

type_synonym beam_state = "rat \<times> (nat \<times> nat) list"

definition beam_at :: "(nat \<times> nat, beam_state list) dict \<Rightarrow> nat \<Rightarrow> nat \<Rightarrow> beam_state list" where
  "beam_at st l n = (case map_of st (l, n) of None \<Rightarrow> [] | Some xs \<Rightarrow> xs)"

definition beam_extend :: "optimizer \<Rightarrow> nat \<Rightarrow> beam_state \<Rightarrow> beam_state list" where
  "beam_extend opt lu s =
     (if snd s = [] then []
      else let h = butlast (snd s) @ [(fst (last (snd s)), lu)] in
           case evaluate_node opt (length h - 1) (fst (last h)) lu of None \<Rightarrow> [] | Some c \<Rightarrow> [(max (fst s) c, h)])"

definition beam_start :: "optimizer \<Rightarrow> nat \<Rightarrow> beam_state \<Rightarrow> beam_state list" where
  "beam_start opt lu s =
     (if length (snd s) \<ge> length (po_node_ids opt) then []
      else let h = snd s @ [(lu - 1, lu)] in
           case evaluate_node opt (length h - 1) (lu - 1) lu of None \<Rightarrow> [] | Some c \<Rightarrow> [(max (fst s) c, h)])"

definition beam_step :: "optimizer \<Rightarrow> nat \<Rightarrow> nat \<times> nat \<Rightarrow> (nat \<times> nat, beam_state list) dict \<Rightarrow> (nat \<times> nat, beam_state list) dict" where
  "beam_step opt width key st =
     (let (lu, nu) = key;
          cands = concat (map (beam_extend opt lu) (beam_at st (lu - 1) nu)) @ concat (map (beam_start opt lu) (beam_at st (lu - 1) (nu - 1)))
      in AList.update (lu, nu) (take width (sort_key fst cands)) st)"

definition beam_pairs :: "optimizer \<Rightarrow> nat \<Rightarrow> (nat \<times> nat) list" where
  "beam_pairs opt L = concat (map (\<lambda>lu. map (Pair lu) [1..<min (length (po_node_ids opt)) (lu div po_min_layers opt + 1) + 1]) [1..<L + 1])"

fun best_state :: "beam_state list \<Rightarrow> rat option \<times> (nat \<times> nat) list \<Rightarrow> rat option \<times> (nat \<times> nat) list" where
  "best_state [] b = b"
| "best_state ((c, h) # xs) b = best_state xs (if below_inf c (fst b) then (Some c, h) else b)"

definition beam_search_solve :: "optimizer \<Rightarrow> nat \<Rightarrow> partition_solution" where
  "beam_search_solve opt L =
     (let st = fold (beam_step opt 10) (beam_pairs opt L) [((0, 0), [(0, [])])];
          h = snd (best_state (concat (map snd (filter (\<lambda>((l, n), xs). l = L) st))) (None, []))
      in if h = [] then no_solution ''Beam search found no valid partition''
         else po_finalize opt (map (\<lambda>(i, s, e). make_point opt i s e) (filter (\<lambda>(i, s, e). i < length (po_node_ids opt)) (enumerate 0 h))))"

definition po_solve :: "optimizer \<Rightarrow> nat \<Rightarrow> partition_solution" where
  "po_solve opt L =
     (if po_node_ids opt = [] then no_solution ''No nodes available''
      else if length (po_node_ids opt) = 1 then single_node_solution opt L
      else if L > 200 \<and> length (po_node_ids opt) > 8 then beam_search_solve opt L
      else po_finalize opt (enforce_boundary_layers opt L (po_backtrack opt L)))"

section \<open>Baselines\<close>

fun equal_loop :: "string list \<Rightarrow> nat \<Rightarrow> nat \<Rightarrow> nat \<Rightarrow> nat \<Rightarrow> nat \<Rightarrow> assignment list" where
  "equal_loop [] nodes per rm i start = []"
| "equal_loop (nid # ids) nodes per rm i start =
     (let e = start + per + (if i + rm \<ge> nodes then 1 else 0) in (nid, start, e) # equal_loop ids nodes per rm (i + 1) e)"

definition equal_split :: "optimizer \<Rightarrow> nat \<Rightarrow> py_error + assignment list" where
  "equal_split opt L =
     (let n = length (po_node_ids opt) in
      if n = 0 then Inl ZeroDivisionError else Inr (equal_loop (po_node_ids opt) n (L div n) (L mod n) 0 0))"

fun proportional_loop :: "(string \<times> rat) list \<Rightarrow> rat \<Rightarrow> nat \<Rightarrow> nat \<Rightarrow> assignment list" where
  "proportional_loop [] total_cap L start = []"
| "proportional_loop ((nid, cap) # xs) total_cap L start =
     (let share = cap / total_cap;
          count = (if xs = [] then L - start else min (max 1 (nat (round_even (of_nat L * share)))) (L - start));
          e = start + count
      in (nid, start, e) # proportional_loop xs total_cap L e)"

definition proportional_split :: "optimizer \<Rightarrow> nat \<Rightarrow> assignment list" where
  "proportional_split opt L =
     (let caps = map (\<lambda>nid. (nid, 1 / max (nc_total_time_ms (cm_evaluate (po_cost_model opt) nid 0 L 1 4096)) (1 / 1000))) (po_node_ids opt)
      in proportional_loop caps (sum_list (map snd caps)) L 0)"


section \<open>What a partition is\<close>

text \<open>Ranges of layers that follow each other from one layer to another.\<close>

fun tiles :: "nat \<Rightarrow> nat \<Rightarrow> (nat \<times> nat) list \<Rightarrow> bool" where
  "tiles a b [] \<longleftrightarrow> a = b"
| "tiles a b ((s, e) # rs) \<longleftrightarrow> s = a \<and> s < e \<and> tiles e b rs"

definition range_costs :: "optimizer \<Rightarrow> (nat \<times> nat) list \<Rightarrow> rat option list" where
  "range_costs opt rs = map (\<lambda>(k, s, e). evaluate_node opt k s e) (enumerate 0 rs)"

definition part_cost :: "optimizer \<Rightarrow> (nat \<times> nat) list \<Rightarrow> rat" where
  "part_cost opt rs = Max (the ` set (range_costs opt rs))"

text \<open>
  The first nodes get consecutive ranges that cover all layers, each of the minimal size when there are several, and each
  node takes its range.
\<close>

definition part_ok :: "optimizer \<Rightarrow> nat \<Rightarrow> (nat \<times> nat) list \<Rightarrow> bool" where
  "part_ok opt L rs \<longleftrightarrow> rs \<noteq> [] \<and> tiles 0 L rs \<and> (1 < length rs \<longrightarrow> (\<forall>(s, e) \<in> set rs. s + po_min_layers opt \<le> e)) \<and> (\<forall>c \<in> set (range_costs opt rs). c \<noteq> None)"

lemma tiles_snoc: "tiles a c (rs @ [(s, e)]) \<longleftrightarrow> tiles a s rs \<and> s < e \<and> e = c"
  by (induction rs arbitrary: a) auto

lemma tiles_length: "tiles a b rs \<Longrightarrow> (\<forall>(s, e) \<in> set rs. s + m \<le> e) \<Longrightarrow> a + length rs * m \<le> b"
  by (induction a b rs rule: tiles.induct) auto

lemma tiles_count: "tiles a b rs \<Longrightarrow> a + length rs \<le> b"
  by (induction a b rs rule: tiles.induct) auto

lemma range_costs_snoc [simp]: "range_costs opt (rs @ [(s, e)]) = range_costs opt rs @ [evaluate_node opt (length rs) s e]"
  by (simp add: range_costs_def enumerate_append_eq)

lemma range_costs_Nil [simp]: "range_costs opt [] = []"
  by (simp add: range_costs_def)

lemma length_range_costs [simp]: "length (range_costs opt rs) = length rs"
  by (simp add: range_costs_def)

lemma part_cost_one [simp]: "part_cost opt [(s, e)] = the (evaluate_node opt 0 s e)"
  by (simp add: part_cost_def range_costs_def)

lemma part_cost_snoc: "rs \<noteq> [] \<Longrightarrow> part_cost opt (rs @ [(s, e)]) = max (part_cost opt rs) (the (evaluate_node opt (length rs) s e))"
proof -
  assume "rs \<noteq> []"
  then have "range_costs opt rs \<noteq> []" using length_range_costs [of opt rs] by (metis length_0_conv)
  then show ?thesis by (simp add: part_cost_def max.commute)
qed

lemma part_ok_one: "part_ok opt e [(s, e')] \<longleftrightarrow> s = 0 \<and> e' = e \<and> 0 < e \<and> evaluate_node opt 0 0 e \<noteq> None"
  using range_costs_snoc [of opt "[]" s e'] by (auto simp: part_ok_def)

lemma part_ok_nodes: "part_ok opt L rs \<Longrightarrow> length rs \<le> min (length (po_node_ids opt)) L"
proof -
  assume ok: "part_ok opt L rs"
  then obtain r s e where r: "rs = r @ [(s, e)]" by (metis part_ok_def rev_exhaust surj_pair)
  with ok have "evaluate_node opt (length r) s e \<noteq> None" by (auto simp: part_ok_def)
  then have "length r < length (po_node_ids opt)" by (auto simp: evaluate_node_def split: if_splits)
  moreover have "length rs \<le> L" using ok tiles_count [of 0 L rs] by (simp add: part_ok_def)
  ultimately show ?thesis by (simp add: r)
qed

lemma part_ok_snoc:
  assumes "rs \<noteq> []" and "1 \<le> po_min_layers opt"
  shows "part_ok opt e (rs @ [(j, e)]) \<longleftrightarrow> part_ok opt j rs \<and> length rs * po_min_layers opt \<le> j \<and> j + po_min_layers opt \<le> e \<and> evaluate_node opt (length rs) j e \<noteq> None"
    (is "?l \<longleftrightarrow> ?r")
proof
  assume l: ?l
  then have t: "tiles 0 j rs" and m: "\<forall>(s, e) \<in> set rs. s + po_min_layers opt \<le> e" and "j + po_min_layers opt \<le> e"
    using assms(1) by (auto simp: part_ok_def tiles_snoc)
  moreover have "length rs * po_min_layers opt \<le> j" using tiles_length [OF t m] by simp
  ultimately show ?r using l assms(1) by (auto simp: part_ok_def)
next
  assume r: ?r
  have "\<forall>(s, e) \<in> set rs. s + po_min_layers opt \<le> e"
  proof (cases "1 < length rs")
    case False
    then obtain a b where "rs = [(a, b)]" using assms(1) by (metis Suc_lessI length_0_conv length_Suc_conv length_greater_0_conv One_nat_def surj_pair)
    with r show ?thesis by (auto simp: part_ok_def)
  qed (use r in \<open>auto simp: part_ok_def\<close>)
  then show ?l using r assms by (auto simp: part_ok_def tiles_snoc)
qed

section \<open>The table holds the optimum\<close>

definition split_cost :: "optimizer \<Rightarrow> dp_cell list \<Rightarrow> nat \<Rightarrow> nat \<Rightarrow> nat \<Rightarrow> rat option" where
  "split_cost opt prev k i j = (case (fst (prev ! j), evaluate_node opt k j i) of (Some pc, Some nc) \<Rightarrow> Some (max pc nc) | _ \<Rightarrow> None)"

lemma scan_splits_Cons:
  "scan_splits opt prev k i (j # js) best =
     scan_splits opt prev k i js (case split_cost opt prev k i j of None \<Rightarrow> best | Some c \<Rightarrow> if below_inf c (fst best) then (Some c, Some j) else best)"
  by (auto simp: split_cost_def split: option.splits)

lemma scan_splits_le:
  "fst best = Some b \<Longrightarrow> \<exists>c. fst (scan_splits opt prev k i js best) = Some c \<and> c \<le> b"
proof (induction js arbitrary: best b)
  case (Cons j js)
  have "\<exists>c. fst (case split_cost opt prev k i j of None \<Rightarrow> best | Some c \<Rightarrow> if below_inf c (fst best) then (Some c, Some j) else best) = Some c \<and> c \<le> b"
    using Cons.prems by (auto simp: below_inf_def split: option.splits)
  then show ?case unfolding scan_splits_Cons using Cons.IH by (meson order_trans)
qed simp

lemma scan_splits_all:
  "j \<in> set js \<Longrightarrow> split_cost opt prev k i j = Some b \<Longrightarrow> \<exists>c. fst (scan_splits opt prev k i js best) = Some c \<and> c \<le> b"
proof (induction js arbitrary: best)
  case (Cons x js)
  show ?case
  proof (cases "x = j")
    case True
    have "\<exists>c. fst (case split_cost opt prev k i j of None \<Rightarrow> best | Some c \<Rightarrow> if below_inf c (fst best) then (Some c, Some j) else best) = Some c \<and> c \<le> b"
      using Cons.prems(2) by (auto simp: below_inf_def split: option.splits)
    then show ?thesis unfolding scan_splits_Cons True using scan_splits_le by (meson order_trans)
  next
    case False
    with Cons.prems Cons.IH show ?thesis unfolding scan_splits_Cons by simp
  qed
qed simp

lemma scan_splits_from:
  "scan_splits opt prev k i js best = best \<or> (\<exists>j \<in> set js. \<exists>c. split_cost opt prev k i j = Some c \<and> scan_splits opt prev k i js best = (Some c, Some j))"
proof (induction js arbitrary: best)
  case (Cons j js)
  show ?case
  proof (cases "split_cost opt prev k i j")
    case None
    with Cons [of best] show ?thesis unfolding scan_splits_Cons by auto
  next
    case (Some c)
    with Cons [of best] Cons [of "(Some c, Some j)"] show ?thesis unfolding scan_splits_Cons by auto
  qed
qed simp

text \<open>A cell for \<open>k + 1\<close> nodes and \<open>e\<close> layers is right: it is empty when there is no partition, and otherwise it has the least cost and a split that leads to it.\<close>

definition cell_cost_ok :: "optimizer \<Rightarrow> nat \<Rightarrow> nat \<Rightarrow> dp_cell \<Rightarrow> bool" where
  "cell_cost_ok opt k e c \<longleftrightarrow>
     (\<forall>x. fst c = Some x \<longrightarrow> (\<exists>rs. part_ok opt e rs \<and> length rs = Suc k \<and> part_cost opt rs = x))
     \<and> (\<forall>rs. part_ok opt e rs \<longrightarrow> length rs = Suc k \<longrightarrow> (\<exists>x. fst c = Some x \<and> x \<le> part_cost opt rs))"

lemma column_length [simp]: "length (dp_column opt L k) = L + 1"
  by (cases k) (simp_all add: initialize_dp_def Let_def del: upt_Suc)

lemma column_0: "e \<le> L \<Longrightarrow> dp_column opt L 0 ! e = (if e = 0 then (None, None) else case evaluate_node opt 0 0 e of None \<Rightarrow> (None, None) | Some c \<Rightarrow> (Some c, Some 0))"
  by (simp add: initialize_dp_def del: upt_Suc)

lemma column_Suc: "e \<le> L \<Longrightarrow> dp_column opt L (Suc k) ! e = dp_cell_at opt (dp_column opt L k) (Suc k) e"
  by (simp add: Let_def del: upt_Suc)

lemma cell_at_best:
  assumes "1 \<le> po_min_layers opt"
  shows "Suc k * po_min_layers opt \<le> j \<Longrightarrow> j + po_min_layers opt \<le> e \<Longrightarrow> split_cost opt prev (Suc k) e j = Some b
      \<Longrightarrow> \<exists>c. fst (dp_cell_at opt prev (Suc k) e) = Some c \<and> c \<le> b"
    and "dp_cell_at opt prev (Suc k) e = (None, None) \<or> (\<exists>j c. Suc k * po_min_layers opt \<le> j \<and> j + po_min_layers opt \<le> e
      \<and> split_cost opt prev (Suc k) e j = Some c \<and> dp_cell_at opt prev (Suc k) e = (Some c, Some j))"
proof -
  let ?m = "po_min_layers opt"
  let ?js = "[max 1 (Suc k * ?m)..<e - ?m + 1]"
  have min: "max 1 (Suc k * ?m) = Suc k * ?m" using assms by simp
  have js: "j \<in> set ?js \<longleftrightarrow> Suc k * ?m \<le> j \<and> j + ?m \<le> e" if "\<not> (e = 0 \<or> e < max 1 (Suc k * ?m) + ?m)" for j
    using that unfolding min by auto
  show "\<exists>c. fst (dp_cell_at opt prev (Suc k) e) = Some c \<and> c \<le> b"
    if "Suc k * ?m \<le> j" "j + ?m \<le> e" "split_cost opt prev (Suc k) e j = Some b"
  proof -
    have n: "\<not> (e = 0 \<or> e < max 1 (Suc k * ?m) + ?m)" using that assms unfolding min by auto
    then have "j \<in> set ?js" using js that by blast
    from scan_splits_all [OF this that(3)] n show ?thesis by (simp add: dp_cell_at_def Let_def del: upt_Suc)
  qed
  show "dp_cell_at opt prev (Suc k) e = (None, None) \<or> (\<exists>j c. Suc k * ?m \<le> j \<and> j + ?m \<le> e
      \<and> split_cost opt prev (Suc k) e j = Some c \<and> dp_cell_at opt prev (Suc k) e = (Some c, Some j))"
  proof (cases "e = 0 \<or> e < max 1 (Suc k * ?m) + ?m")
    case False
    then have "dp_cell_at opt prev (Suc k) e = scan_splits opt prev (Suc k) e ?js (None, None)" by (simp add: dp_cell_at_def Let_def del: upt_Suc)
    with scan_splits_from [of opt prev "Suc k" e ?js "(None, None)"] js [OF False] show ?thesis by metis
  qed (auto simp: dp_cell_at_def Let_def)
qed

text \<open>Every partition with one node more is a partition of a prefix and a last range, and its cost the larger of the two.\<close>

lemma part_last:
  assumes "part_ok opt e rs" and "length rs = Suc (Suc k)" and "1 \<le> po_min_layers opt"
  obtains r j c where "rs = r @ [(j, e)]" "part_ok opt j r" "length r = Suc k" "Suc k * po_min_layers opt \<le> j" "j + po_min_layers opt \<le> e"
    "evaluate_node opt (Suc k) j e = Some c" "part_cost opt rs = max (part_cost opt r) c"
proof -
  obtain r j e' where r: "rs = r @ [(j, e')]" using assms(2) by (metis length_Suc_conv rev_exhaust surj_pair list.distinct(1))
  have e: "e' = e" using assms(1) by (simp add: r part_ok_def tiles_snoc)
  have l: "length r = Suc k" "r \<noteq> []" using assms(2) by (auto simp: r)
  have ok: "part_ok opt j r" "Suc k * po_min_layers opt \<le> j" "j + po_min_layers opt \<le> e" and "evaluate_node opt (Suc k) j e \<noteq> None"
    using assms(1) part_ok_snoc [OF l(2) assms(3), of e j] l unfolding r e by auto
  then obtain c where c: "evaluate_node opt (Suc k) j e = Some c" by blast
  show ?thesis by (rule that [OF _ ok(1) l(1) ok(2,3) c]) (simp_all add: r e part_cost_snoc l c)
qed

lemma column_ok:
  assumes "1 \<le> po_min_layers opt"
  shows "e \<le> L \<Longrightarrow> cell_cost_ok opt k e (dp_column opt L k ! e)"
proof (induction k arbitrary: e)
  case 0
  have one: "\<exists>a b. rs = [(a, b)]" if "length rs = Suc 0" for rs :: "(nat \<times> nat) list" using that by (metis length_0_conv length_Suc_conv surj_pair)
  show ?case unfolding cell_cost_ok_def column_0 [OF 0]
    by (auto simp: part_ok_one split: option.splits if_splits dest!: one intro!: exI [of _ "[(0, e)]"])
next
  case (Suc k)
  let ?prev = "dp_column opt L k" and ?m = "po_min_layers opt"
  let ?c = "dp_column opt L (Suc k) ! e"
  note cell = column_Suc [OF Suc.prems, of opt k]
  show ?case unfolding cell_cost_ok_def
  proof (intro conjI allI impI)
    fix x assume "fst ?c = Some x"
    then obtain j where j: "Suc k * ?m \<le> j" "j + ?m \<le> e" "split_cost opt ?prev (Suc k) e j = Some x"
      using cell_at_best(2) [OF assms, of ?prev k e] unfolding cell by auto
    then obtain pc nc where p: "fst (?prev ! j) = Some pc" "evaluate_node opt (Suc k) j e = Some nc" "x = max pc nc"
      by (auto simp: split_cost_def split: option.splits)
    have "j \<le> L" using j(2) Suc.prems by simp
    then obtain r where r: "part_ok opt j r" "length r = Suc k" "part_cost opt r = pc" using Suc.IH [of j] p(1) unfolding cell_cost_ok_def by blast
    then have "r \<noteq> []" by auto
    then have "part_ok opt e (r @ [(j, e)])" using part_ok_snoc [OF _ assms] r j(1,2) p(2) by simp
    then show "\<exists>rs. part_ok opt e rs \<and> length rs = Suc (Suc k) \<and> part_cost opt rs = x"
      using r p \<open>r \<noteq> []\<close> by (intro exI [of _ "r @ [(j, e)]"]) (simp add: part_cost_snoc)
  next
    fix rs assume rs: "part_ok opt e rs" "length rs = Suc (Suc k)"
    obtain r j c where d: "part_ok opt j r" "length r = Suc k" "Suc k * ?m \<le> j" "j + ?m \<le> e" "evaluate_node opt (Suc k) j e = Some c"
      "part_cost opt rs = max (part_cost opt r) c" by (rule part_last [OF rs assms])
    have "j \<le> L" using d(4) Suc.prems by simp
    then obtain pc where pc: "fst (?prev ! j) = Some pc" "pc \<le> part_cost opt r" using Suc.IH [of j] d(1,2) unfolding cell_cost_ok_def by blast
    then have "split_cost opt ?prev (Suc k) e j = Some (max pc c)" using d(5) by (simp add: split_cost_def)
    from cell_at_best(1) [OF assms d(3,4) this] pc(2) d(6) show "\<exists>x. fst ?c = Some x \<and> x \<le> part_cost opt rs"
      unfolding cell by (metis max.mono order_refl order_trans)
  qed
qed


section \<open>The points read back are optimal\<close>

definition ranges :: "partition_point list \<Rightarrow> (nat \<times> nat) list" where
  "ranges ps = map (\<lambda>p. (pt_start_layer p, pt_end_layer p)) ps"

lemma ranges_simps [simp]: "ranges [] = []" "ranges (ps @ qs) = ranges ps @ ranges qs" "length (ranges ps) = length ps"
  by (simp_all add: ranges_def)

lemma trace_points_ok:
  assumes "1 \<le> po_min_layers opt" and "\<And>i. i \<le> k \<Longrightarrow> tbl ! i = dp_column opt L i" and "e \<le> L" and "fst (dp_column opt L k ! e) = Some c"
    and "k < length (po_node_ids opt)"
  shows "part_ok opt e (ranges (trace_points opt tbl k e)) \<and> part_cost opt (ranges (trace_points opt tbl k e)) = c
     \<and> map pt_node_id (trace_points opt tbl k e) = take (Suc k) (po_node_ids opt)"
  using assms(2-5)
proof (induction k arbitrary: e c)
  case 0
  then have "0 < e" "evaluate_node opt 0 0 e = Some c" "dp_column opt L 0 ! e = (Some c, Some 0)"
    by (auto simp: column_0 simp del: dp_column.simps split: if_splits option.splits)
  then have "trace_points opt tbl 0 e = [make_point opt 0 0 e]" and r: "ranges [make_point opt 0 0 e] = [(0, e)]"
    using 0(1) [of 0] by (simp_all add: ranges_def make_point_def)
  moreover have "take (Suc 0) (po_node_ids opt) = [po_node_ids opt ! 0]" using 0(4) by (cases "po_node_ids opt") auto
  ultimately show ?case using \<open>0 < e\<close> \<open>evaluate_node opt 0 0 e = Some c\<close> by (simp add: part_ok_one make_point_def)
next
  case (Suc k)
  let ?prev = "dp_column opt L k" and ?m = "po_min_layers opt"
  obtain j where j: "Suc k * ?m \<le> j" "j + ?m \<le> e" "split_cost opt ?prev (Suc k) e j = Some c" and cell: "dp_column opt L (Suc k) ! e = (Some c, Some j)"
    using cell_at_best(2) [OF assms(1), of ?prev k e] Suc.prems(3) column_Suc [OF Suc.prems(2), of opt k] by (auto simp del: dp_column.simps)
  obtain pc nc where p: "fst (?prev ! j) = Some pc" "evaluate_node opt (Suc k) j e = Some nc" "c = max pc nc"
    using j(3) by (auto simp: split_cost_def split: option.splits)
  let ?t = "trace_points opt tbl k j"
  have IH: "part_ok opt j (ranges ?t)" "part_cost opt (ranges ?t) = pc" "map pt_node_id ?t = take (Suc k) (po_node_ids opt)"
    using Suc.IH [OF _ _ p(1)] Suc.prems j(2) by auto
  have l: "length ?t = Suc k" using arg_cong [OF IH(3), of length] Suc.prems(4) by simp
  have "0 < e" using j(2) assms(1) by simp
  then have t: "trace_points opt tbl (Suc k) e = ?t @ [make_point opt (Suc k) j e]" using Suc.prems(1) [of "Suc k"] cell by (simp del: dp_column.simps)
  have r: "ranges (trace_points opt tbl (Suc k) e) = ranges ?t @ [(j, e)]" unfolding t by (simp add: ranges_def make_point_def)
  have ne: "ranges ?t \<noteq> []" using l by (metis length_0_conv ranges_simps(3) nat.distinct(1))
  have "part_ok opt e (ranges ?t @ [(j, e)])" using part_ok_snoc [OF ne assms(1)] IH(1) j(1,2) p(2) l by simp
  moreover have "part_cost opt (ranges ?t @ [(j, e)]) = c" using part_cost_snoc [OF ne] IH(2) p(2,3) l by simp
  moreover have "map pt_node_id (trace_points opt tbl (Suc k) e) = take (Suc (Suc k)) (po_node_ids opt)"
    unfolding t using IH(3) Suc.prems(4) by (simp add: make_point_def take_Suc_conv_app_nth)
  ultimately show ?case unfolding r by simp
qed

lemma best_nodes_le: "snd best = Some b \<Longrightarrow> \<exists>c. snd (best_nodes tbl L ks best) = Some c \<and> c \<le> b"
proof (induction ks arbitrary: best b)
  case (Cons k ks)
  have "\<exists>c. snd (case fst (tbl ! k ! L) of None \<Rightarrow> best | Some c \<Rightarrow> if below_inf c (snd best) then (k, Some c) else best) = Some c \<and> c \<le> b"
    using Cons.prems by (auto simp: below_inf_def split: option.splits)
  then show ?case using Cons.IH by (simp, meson order_trans)
qed simp

lemma best_nodes_all: "k \<in> set ks \<Longrightarrow> fst (tbl ! k ! L) = Some b \<Longrightarrow> \<exists>c. snd (best_nodes tbl L ks best) = Some c \<and> c \<le> b"
proof (induction ks arbitrary: best)
  case (Cons x ks)
  show ?case
  proof (cases "x = k")
    case True
    have "\<exists>c. snd (case fst (tbl ! k ! L) of None \<Rightarrow> best | Some c \<Rightarrow> if below_inf c (snd best) then (k, Some c) else best) = Some c \<and> c \<le> b"
      using Cons.prems(2) by (auto simp: below_inf_def split: option.splits)
    then show ?thesis using best_nodes_le True by (simp, meson order_trans)
  next
    case False
    with Cons.prems Cons.IH show ?thesis by simp
  qed
qed simp

lemma best_nodes_from:
  "best_nodes tbl L ks best = best \<or> (\<exists>k \<in> set ks. \<exists>c. fst (tbl ! k ! L) = Some c \<and> best_nodes tbl L ks best = (k, Some c))"
proof (induction ks arbitrary: best)
  case (Cons k ks)
  show ?case
  proof (cases "fst (tbl ! k ! L)")
    case None
    with Cons [of best] show ?thesis by auto
  next
    case (Some c)
    with Cons [of best] Cons [of "(k, Some c)"] show ?thesis by auto
  qed
qed simp

lemma backtrack_optimal:
  assumes "1 \<le> po_min_layers opt" and "po_node_ids opt \<noteq> []"
  shows "(po_backtrack opt L = [] \<longrightarrow> (\<nexists>rs. part_ok opt L rs))
     \<and> (po_backtrack opt L \<noteq> [] \<longrightarrow> part_ok opt L (ranges (po_backtrack opt L))
          \<and> map pt_node_id (po_backtrack opt L) = take (length (po_backtrack opt L)) (po_node_ids opt)
          \<and> (\<forall>rs. part_ok opt L rs \<longrightarrow> part_cost opt (ranges (po_backtrack opt L)) \<le> part_cost opt rs))"
proof -
  let ?n = "min (length (po_node_ids opt)) L" and ?tbl = "run_dp opt L"
  obtain k b where kb: "best_nodes ?tbl L [0..<?n] (0, None) = (k, b)" by (metis prod.exhaust)
  have bt: "po_backtrack opt L = trace_points opt ?tbl k L" by (simp add: po_backtrack_def kb Let_def del: trace_points.simps)
  have col: "?tbl ! i = dp_column opt L i" if "i < ?n" for i using that by (simp add: run_dp_def)
  have cell: "cell_cost_ok opt i L (dp_column opt L i ! L)" for i by (rule column_ok [OF assms(1)]) simp
  have all: "\<exists>c. b = Some c \<and> c \<le> part_cost opt rs" if rs: "part_ok opt L rs" for rs
  proof -
    obtain i where i: "length rs = Suc i" using rs by (metis part_ok_def length_greater_0_conv gr0_implies_Suc)
    have n: "i < ?n" using part_ok_nodes [OF rs] i by simp
    from cell rs i obtain x where "fst (dp_column opt L i ! L) = Some x" "x \<le> part_cost opt rs" unfolding cell_cost_ok_def by blast
    with best_nodes_all [of i "[0..<?n]" ?tbl L x "(0, None)"] col [OF n] n kb show ?thesis by fastforce
  qed
  show ?thesis
  proof (cases b)
    case None
    then have "k = 0" using best_nodes_from [of ?tbl L "[0..<?n]" "(0, None)"] kb by auto
    have none: "\<nexists>rs. part_ok opt L rs" using all None by auto
    have "po_backtrack opt L = []"
    proof (cases "L = 0")
      case False
      then have n: "0 < ?n" using assms(2) by simp
      have "fst (dp_column opt L 0 ! L) = None" using none cell [of 0] unfolding cell_cost_ok_def by (metis option.exhaust)
      then have "snd (?tbl ! 0 ! L) = None" using col [OF n] column_0 [of L L opt] False by (auto simp del: dp_column.simps split: option.splits)
      then show ?thesis unfolding bt \<open>k = 0\<close> by simp
    qed (unfold bt, simp)
    with none show ?thesis by simp
  next
    case (Some c)
    then have k: "k < ?n" "fst (dp_column opt L k ! L) = Some c"
      using best_nodes_from [of ?tbl L "[0..<?n]" "(0, None)"] kb col by auto
    have t: "part_ok opt L (ranges (po_backtrack opt L))" "part_cost opt (ranges (po_backtrack opt L)) = c"
      "map pt_node_id (po_backtrack opt L) = take (Suc k) (po_node_ids opt)"
      using trace_points_ok [OF assms(1), of k ?tbl L L c] col k unfolding bt by auto
    have "length (po_backtrack opt L) = Suc k" using arg_cong [OF t(3), of length] k by simp
    with t all Some show ?thesis by auto
  qed
qed


section \<open>The solution of every strategy\<close>

lemma retime_keeps [simp]:
  "pt_node_id (retime opt p) = pt_node_id p" "pt_start_layer (retime opt p) = pt_start_layer p" "pt_end_layer (retime opt p) = pt_end_layer p"
  by (simp_all add: retime_def)

lemma ranges_retime [simp]: "ranges (map (retime opt) ps) = ranges ps" "map pt_node_id (map (retime opt) ps) = map pt_node_id ps"
  by (simp_all add: ranges_def)

lemma finalize_points [simp]: "ps_points (po_finalize opt ps) = map (retime opt) ps"
  by (simp add: po_finalize_def no_solution_def Let_def)

lemma tiles_mem: "tiles a b rs \<Longrightarrow> (s, e) \<in> set rs \<Longrightarrow> a \<le> s \<and> s < e \<and> e \<le> b"
  by (induction a b rs rule: tiles.induct) (use tiles_count in fastforce)+

lemma tiles_ends: "tiles a b rs \<Longrightarrow> rs \<noteq> [] \<Longrightarrow> fst (hd rs) = a \<and> snd (last rs) = b"
  by (induction a b rs rule: tiles.induct) (auto split: if_splits)

text \<open>On points that cover the layers the boundary step moves nothing.\<close>

lemma boundary_keeps:
  assumes "ps \<noteq> []" and "tiles 0 L (ranges ps)"
  shows "enforce_boundary_layers opt L ps = map (retime opt) ps"
proof -
  have "ranges ps \<noteq> []" using assms(1) by (simp add: ranges_def)
  from tiles_ends [OF assms(2) this] have "pt_start_layer (hd ps) = 0" "pt_end_layer (last ps) = L"
    using assms(1) by (simp_all add: ranges_def hd_map last_map)
  then show ?thesis using assms(1) by (simp add: enforce_boundary_layers_def Let_def)
qed

lemma solve_dp_points:
  assumes "1 < length (po_node_ids opt)" and "\<not> (200 < L \<and> 8 < length (po_node_ids opt))" and "1 \<le> po_min_layers opt"
  shows "ranges (ps_points (po_solve opt L)) = ranges (po_backtrack opt L)"
    and "map pt_node_id (ps_points (po_solve opt L)) = map pt_node_id (po_backtrack opt L)"
    and "ps_points (po_solve opt L) = [] \<longleftrightarrow> po_backtrack opt L = []"
proof -
  have ne: "po_node_ids opt \<noteq> []" using assms(1) by auto
  have s: "po_solve opt L = po_finalize opt (enforce_boundary_layers opt L (po_backtrack opt L))"
    using assms(1,2) ne by (auto simp: po_solve_def)
  have "enforce_boundary_layers opt L (po_backtrack opt L) = map (retime opt) (po_backtrack opt L)"
  proof (cases "po_backtrack opt L = []")
    case False
    then show ?thesis using backtrack_optimal [OF assms(3) ne, of L] boundary_keeps by (auto simp: part_ok_def)
  qed (simp add: enforce_boundary_layers_def)
  then show "ranges (ps_points (po_solve opt L)) = ranges (po_backtrack opt L)" "map pt_node_id (ps_points (po_solve opt L)) = map pt_node_id (po_backtrack opt L)"
    "ps_points (po_solve opt L) = [] \<longleftrightarrow> po_backtrack opt L = []"
    unfolding s by (simp_all add: comp_def ranges_def)
qed

lemma init_fields [simp]:
  "po_node_ids (optimizer_init cm ids b q oom gpus m) = ids" "1 \<le> po_min_layers (optimizer_init cm ids b q oom gpus m)"
  "po_allow_oom (optimizer_init cm ids b q oom gpus m) = oom"
  "po_cost_model (optimizer_init cm ids b q oom gpus m) = cm" "po_batch_size (optimizer_init cm ids b q oom gpus m) = b" "po_seq_len (optimizer_init cm ids b q oom gpus m) = q"
  by (simp_all add: optimizer_init_def)

lemma solve_optimal:
  assumes "1 < length (po_node_ids opt)" and "\<not> (200 < L \<and> 8 < length (po_node_ids opt))" and "1 \<le> po_min_layers opt"
  defines "ps \<equiv> ps_points (po_solve opt L)"
  shows "ps = [] \<longleftrightarrow> (\<nexists>rs. part_ok opt L rs)"
    and "ps \<noteq> [] \<Longrightarrow> part_ok opt L (ranges ps) \<and> map pt_node_id ps = take (length ps) (po_node_ids opt)"
    and "part_ok opt L rs \<Longrightarrow> part_cost opt (ranges ps) \<le> part_cost opt rs"
proof -
  have ne: "po_node_ids opt \<noteq> []" using assms(1) by auto
  note p = solve_dp_points [OF assms(1-3)] and opt = backtrack_optimal [OF assms(3) ne, of L]
  have "length ps = length (po_backtrack opt L)" using arg_cong [OF p(1), of length] by (simp add: ps_def)
  then show "ps = [] \<longleftrightarrow> (\<nexists>rs. part_ok opt L rs)" "ps \<noteq> [] \<Longrightarrow> part_ok opt L (ranges ps) \<and> map pt_node_id ps = take (length ps) (po_node_ids opt)"
    "part_ok opt L rs \<Longrightarrow> part_cost opt (ranges ps) \<le> part_cost opt rs"
    using opt p unfolding ps_def by auto
qed

text \<open>C30: The table-based solver is exact. For an optimizer built by the constructor with at least two nodes, and a number of
  layers for which the solver uses the table: it returns no points only when no valid partition exists, and otherwise its
  points are a valid partition over the first nodes in their order whose slowest node is at most as slow as that of every
  valid partition.
\<close>

theorem dp_minimax_optimal:
  assumes "2 \<le> length ids" and "L \<le> 200 \<or> length ids \<le> 8"
  shows "let opt = optimizer_init cm ids b q oom gpus m; ps = ps_points (po_solve opt L)
     in (ps = [] \<longleftrightarrow> (\<nexists>rs. part_ok opt L rs))
      \<and> (ps \<noteq> [] \<longrightarrow> part_ok opt L (ranges ps) \<and> map pt_node_id ps = take (length ps) ids \<and> (\<forall>rs. part_ok opt L rs \<longrightarrow> part_cost opt (ranges ps) \<le> part_cost opt rs))"
proof -
  let ?opt = "optimizer_init cm ids b q oom gpus m"
  have c: "1 < length (po_node_ids ?opt)" "\<not> (200 < L \<and> 8 < length (po_node_ids ?opt))" using assms by auto
  show ?thesis using solve_optimal [OF c init_fields(2)] by (auto simp: Let_def)
qed

text \<open>A cost model with one slow and one fast node and a memory of three layers each.\<close>

definition sample_model :: cost_model where
  "sample_model = \<lparr>cm_evaluate = (\<lambda>nid s e b q. let t = of_nat (e - s) * (if nid = ''slow'' then 2 else 1)
       in \<lparr>nc_node_id = nid, nc_start_layer = s, nc_end_layer = e, nc_compute_time_ms = t, nc_communication_time_ms = 0, nc_total_time_ms = t,
           nc_memory_bytes = e - s, nc_memory_available_bytes = 3, nc_fits_in_memory = (e - s \<le> 3)\<rparr>),
     cm_evaluate_partition = (\<lambda>as b q. []), cm_combined_throughput = (\<lambda>as b q. 0), cm_pipeline_latency = (\<lambda>as b q. 0)\<rparr>"

definition sample_optimizer :: "bool \<Rightarrow> int \<Rightarrow> optimizer" where
  "sample_optimizer oom m = optimizer_init sample_model [''slow'', ''fast''] 1 4096 oom None m"

lemma sample_solve: "ranges (ps_points (po_solve (sample_optimizer False 1) 4)) = [(0, 1), (1, 4)]"
  by code_simp

theorem dp_minimax_optimal_witness:
  "let opt = sample_optimizer False 1; ps = ps_points (po_solve opt 4)
   in ranges ps = [(0, 1), (1, 4)] \<and> map pt_node_id ps = [''slow'', ''fast''] \<and> (\<forall>rs. part_ok opt 4 rs \<longrightarrow> 3 \<le> part_cost opt rs)"
proof -
  let ?opt = "sample_optimizer False 1"
  let ?ps = "ps_points (po_solve ?opt 4)"
  have ne: "?ps \<noteq> []" and l: "length ?ps = 2" using arg_cong [OF sample_solve, of length] by auto
  have "part_cost ?opt [(0, 1), (1, 4)] = 3" by code_simp
  then show ?thesis
    using dp_minimax_optimal [of "[''slow'', ''fast'']" 4 sample_model 1 4096 False None 1] ne l sample_solve
    by (simp add: Let_def sample_optimizer_def)
qed


section \<open>What the optimizer needs of a cost model\<close>

lemma fold_max_Max: "0 \<le> a \<Longrightarrow> fold (\<lambda>p. max (f p)) ps a = Max (insert a (f ` set ps))" for f :: "'a \<Rightarrow> rat"
proof (induction ps arbitrary: a)
  case (Cons p ps)
  have "0 \<le> max (f p) a" using Cons.prems by (simp add: le_max_iff_disj)
  from Cons.IH [OF this] show ?case by (cases "f ` set ps = {}") (simp_all add: max.assoc max.commute max.left_commute)
qed simp

text \<open>The reported slowest time starts from zero; it is the largest time if times are not negative.\<close>

locale timed_costs =
  fixes cm :: cost_model
  assumes time_nonneg: "0 \<le> nc_total_time_ms (cm_evaluate cm nid s e b q)"
begin

lemma finalize_time:
  assumes "po_cost_model opt = cm" and "ps \<noteq> []"
  shows "ps_max_node_time_ms (po_finalize opt ps) = round2 (Max ((\<lambda>p. nc_total_time_ms (po_evaluate opt (pt_node_id p) (pt_start_layer p) (pt_end_layer p))) ` set ps))"
proof -
  let ?t = "\<lambda>p. nc_total_time_ms (po_evaluate opt (pt_node_id p) (pt_start_layer p) (pt_end_layer p))"
  have nn: "0 \<le> ?t p" for p using assms(1) time_nonneg by (simp add: po_evaluate_def)
  have "Max (insert 0 (?t ` set ps)) = Max (?t ` set ps)"
    using assms(2) nn by (cases ps) (auto simp: max_def Max_ge_iff intro: order_trans)
  then show ?thesis using assms(2) by (simp add: po_finalize_def Let_def fold_max_Max)
qed

end

section \<open>Beam search\<close>

text \<open>A placed history: consecutive ranges from the first layer, one per node from the first on, each taken by its node.\<close>

definition placed :: "optimizer \<Rightarrow> nat \<Rightarrow> nat \<Rightarrow> (nat \<times> nat) list \<Rightarrow> bool" where
  "placed opt l n h \<longleftrightarrow> tiles 0 l h \<and> length h = n \<and> (\<forall>c \<in> set (range_costs opt h). c \<noteq> None)"

definition beam_ok :: "optimizer \<Rightarrow> (nat \<times> nat, beam_state list) dict \<Rightarrow> bool" where
  "beam_ok opt st \<longleftrightarrow> (\<forall>l n xs s. ((l, n), xs) \<in> set st \<longrightarrow> s \<in> set xs \<longrightarrow> placed opt l n (snd s))"

lemma beam_okD: "beam_ok opt st \<Longrightarrow> ((l, n), xs) \<in> set st \<Longrightarrow> s \<in> set xs \<Longrightarrow> placed opt l n (snd s)"
  unfolding beam_ok_def by blast

lemma beam_at_ok: "beam_ok opt st \<Longrightarrow> s \<in> set (beam_at st l n) \<Longrightarrow> placed opt l n (snd s)"
  by (cases "map_of st (l, n)") (auto simp: beam_at_def dest!: map_of_SomeD intro: beam_okD)

lemma beam_start_ok: "placed opt l n (snd s) \<Longrightarrow> t \<in> set (beam_start opt (Suc l) s) \<Longrightarrow> placed opt (Suc l) (Suc n) (snd t)"
  by (cases "evaluate_node opt (length (snd s)) l (Suc l)") (auto simp: placed_def beam_start_def Let_def tiles_snoc split: if_splits)

lemma beam_extend_ok: "placed opt l n (snd s) \<Longrightarrow> t \<in> set (beam_extend opt (Suc l) s) \<Longrightarrow> placed opt (Suc l) n (snd t)"
proof -
  assume p: "placed opt l n (snd s)" and t: "t \<in> set (beam_extend opt (Suc l) s)"
  then have "snd s \<noteq> []" by (auto simp: beam_extend_def)
  then obtain r a b where s: "snd s = r @ [(a, b)]" by (metis rev_exhaust surj_pair)
  with p t show ?thesis by (cases "evaluate_node opt (length r) a (Suc l)") (auto simp: placed_def beam_extend_def Let_def tiles_snoc)
qed

lemma beam_step_ok: "beam_ok opt st \<Longrightarrow> 1 \<le> lu \<Longrightarrow> 1 \<le> nu \<Longrightarrow> beam_ok opt (beam_step opt width (lu, nu) st)"
proof -
  assume ok: "beam_ok opt st" and "1 \<le> lu" "1 \<le> nu"
  then obtain l n where l: "lu = Suc l" "nu = Suc n" by (metis One_nat_def Suc_le_D)
  let ?new = "concat (map (beam_extend opt lu) (beam_at st (lu - 1) nu)) @ concat (map (beam_start opt lu) (beam_at st (lu - 1) (nu - 1)))"
  have new: "placed opt lu nu (snd t)" if "t \<in> set ?new" for t
    using that by (auto simp: l intro: beam_extend_ok [OF beam_at_ok [OF ok]] beam_start_ok [OF beam_at_ok [OF ok]] simp del: split_paired_Ex)
  have upd: "x \<in> set st \<or> x = (k, v)" if "x \<in> set (AList.update k v st)" for x k and v :: "beam_state list"
    using that by (induction st) (auto split: if_splits)
  have st: "beam_step opt width (lu, nu) st = AList.update (lu, nu) (take width (sort_key fst ?new)) st" by (simp add: beam_step_def Let_def)
  show ?thesis unfolding beam_ok_def st
  proof (intro allI impI)
    fix l' n' xs s assume x: "((l', n'), xs) \<in> set (AList.update (lu, nu) (take width (sort_key fst ?new)) st)" "s \<in> set xs"
    from upd [OF x(1)] show "placed opt l' n' (snd s)"
    proof
      assume "((l', n'), xs) = ((lu, nu), take width (sort_key fst ?new))"
      with x(2) have "s \<in> set ?new" by (metis in_set_takeD prod.inject set_sort)
      with new show ?thesis using \<open>((l', n'), xs) = _\<close> by simp
    qed (use ok x(2) in \<open>auto intro: beam_okD\<close>)
  qed
qed

lemma beam_ok_fold: "beam_ok opt st \<Longrightarrow> (\<forall>(l, n) \<in> set ks. 1 \<le> l \<and> 1 \<le> n) \<Longrightarrow> beam_ok opt (fold (beam_step opt width) ks st)"
  by (induction ks arbitrary: st) (auto simp: beam_step_ok)

lemma best_state_from: "snd (best_state xs b) = snd b \<or> (\<exists>s \<in> set xs. snd (best_state xs b) = snd s)"
proof (induction xs b rule: best_state.induct)
  case (2 c h xs b)
  then show ?case by (cases "below_inf c (fst b)") auto
qed simp

lemma beam_points:
  assumes "ps_points (beam_search_solve opt L) \<noteq> []"
  obtains h where "h \<noteq> []" "placed opt L (length h) h"
    "beam_search_solve opt L = po_finalize opt (map (\<lambda>(i, s, e). make_point opt i s e) (filter (\<lambda>(i, s, e). i < length (po_node_ids opt)) (enumerate 0 h)))"
proof -
  let ?st = "fold (beam_step opt 10) (beam_pairs opt L) [((0, 0), [(0, [])])]"
  let ?xs = "concat (map snd (filter (\<lambda>((l, n), xs). l = L) ?st))"
  let ?h = "snd (best_state ?xs (None, []))"
  have "beam_ok opt [((0, 0), [(0, [])])]" by (simp add: beam_ok_def placed_def)
  then have "beam_ok opt ?st" by (rule beam_ok_fold) (auto simp: beam_pairs_def)
  then have xs: "\<exists>n. placed opt L n (snd s)" if "s \<in> set ?xs" for s using that by (auto intro: beam_okD)
  have h: "?h \<noteq> []" using assms by (auto simp: beam_search_solve_def Let_def no_solution_def split: if_splits)
  then obtain n where "placed opt L n ?h" using best_state_from [of ?xs "(None, [])"] xs by (metis snd_conv)
  then have "placed opt L (length ?h) ?h" by (simp add: placed_def)
  with h show ?thesis by (intro that [of ?h]) (auto simp: beam_search_solve_def Let_def)
qed

text \<open>What every strategy's points satisfy: placed on the first nodes.\<close>

definition on_nodes :: "optimizer \<Rightarrow> nat \<Rightarrow> partition_point list \<Rightarrow> bool" where
  "on_nodes opt L ps \<longleftrightarrow> placed opt L (length ps) (ranges ps) \<and> map pt_node_id ps = take (length ps) (po_node_ids opt)"

lemma placed_nodes: "placed opt l n h \<Longrightarrow> n \<le> length (po_node_ids opt)"
proof (cases h rule: rev_cases)
  case (snoc r x)
  assume "placed opt l n h"
  with snoc show ?thesis by (cases x) (auto simp: placed_def evaluate_node_def split: if_splits)
qed (simp add: placed_def)

lemma make_points_on_nodes:
  assumes "placed opt L (length h) h"
  defines "ps \<equiv> map (\<lambda>(i, s, e). make_point opt i s e) (filter (\<lambda>(i, s, e). i < length (po_node_ids opt)) (enumerate 0 h))"
  shows "on_nodes opt L ps" "length ps = length h"
proof -
  have n: "length h \<le> length (po_node_ids opt)" by (rule placed_nodes [OF assms(1)])
  then have ps: "ps = map (\<lambda>(i, s, e). make_point opt i s e) (enumerate 0 h)"
    unfolding ps_def by (subst filter_True) (auto simp: in_set_enumerate_eq)
  then show l: "length ps = length h" by simp
  have "ranges ps = h" unfolding ps ranges_def by (rule nth_equalityI) (auto simp: nth_enumerate_eq make_point_def split: prod.splits)
  moreover have "map pt_node_id ps = take (length ps) (po_node_ids opt)"
    unfolding ps using n by (intro nth_equalityI) (auto simp: nth_enumerate_eq make_point_def split: prod.splits)
  ultimately show "on_nodes opt L ps" using assms(1) l by (simp add: on_nodes_def)
qed

lemma on_nodes_retime [simp]: "on_nodes opt L (map (retime opt) ps) = on_nodes opt L ps"
  unfolding on_nodes_def ranges_retime by simp

lemma on_nodes_fit:
  assumes "on_nodes opt L ps" and "\<not> po_allow_oom opt" and "p \<in> set ps"
  shows "nc_fits_in_memory (po_evaluate opt (pt_node_id p) (pt_start_layer p) (pt_end_layer p))"
proof -
  obtain i where i: "i < length ps" "p = ps ! i" using assms(3) by (metis in_set_conv_nth)
  have n: "length ps \<le> length (po_node_ids opt)" using assms(1) placed_nodes by (auto simp: on_nodes_def)
  have id: "pt_node_id p = po_node_ids opt ! i" using assms(1) i n by (metis nth_map nth_take on_nodes_def)
  have "range_costs opt (ranges ps) ! i = evaluate_node opt i (pt_start_layer p) (pt_end_layer p)"
    using i by (simp add: range_costs_def ranges_def nth_enumerate_eq)
  then have "evaluate_node opt i (pt_start_layer p) (pt_end_layer p) \<noteq> None"
    using assms(1) i by (metis length_range_costs nth_mem on_nodes_def placed_def ranges_simps(3))
  then show ?thesis using assms(2) by (auto simp: evaluate_node_def Let_def id split: if_splits)
qed

lemma finalize_oom: "on_nodes opt L ps \<Longrightarrow> \<not> po_allow_oom opt \<Longrightarrow> ps_num_oom_nodes (po_finalize opt ps) = 0"
  using on_nodes_fit by (fastforce simp: po_finalize_def no_solution_def Let_def filter_empty_conv)

lemma part_ok_placed: "part_ok opt L rs \<Longrightarrow> placed opt L (length rs) rs"
  by (simp add: part_ok_def placed_def)

lemma solve_finalizes:
  assumes "1 < length (po_node_ids opt)" and "1 \<le> po_min_layers opt" and "ps_points (po_solve opt L) \<noteq> []"
  obtains ps where "po_solve opt L = po_finalize opt ps" "on_nodes opt L ps"
proof -
  have ne: "po_node_ids opt \<noteq> []" using assms(1) by auto
  show ?thesis
  proof (cases "200 < L \<and> 8 < length (po_node_ids opt)")
    case True
    then have s: "po_solve opt L = beam_search_solve opt L" using assms(1) by (auto simp: po_solve_def)
    obtain h where "placed opt L (length h) h"
      "beam_search_solve opt L = po_finalize opt (map (\<lambda>(i, s, e). make_point opt i s e) (filter (\<lambda>(i, s, e). i < length (po_node_ids opt)) (enumerate 0 h)))"
      using assms(3) beam_points [of opt L] unfolding s by metis
    then show ?thesis using that make_points_on_nodes(1) unfolding s by metis
  next
    case False
    let ?bt = "po_backtrack opt L"
    have c: "1 < length (po_node_ids opt)" "\<not> (200 < L \<and> 8 < length (po_node_ids opt))" using assms(1) False by auto
    have bt: "?bt \<noteq> []" using solve_dp_points(3) [OF c assms(2)] assms(3) by simp
    then have "part_ok opt L (ranges ?bt)" "map pt_node_id ?bt = take (length ?bt) (po_node_ids opt)"
      using backtrack_optimal [OF assms(2) ne, of L] by auto
    then have ok: "on_nodes opt L ?bt" using part_ok_placed unfolding on_nodes_def by fastforce
    have "po_solve opt L = po_finalize opt (map (retime opt) ?bt)"
      using c ne bt ok boundary_keeps [OF bt, of L] by (auto simp: po_solve_def on_nodes_def placed_def)
    then show ?thesis using that ok by simp
  qed
qed

lemma solve_placed:
  assumes "1 < length (po_node_ids opt)" and "1 \<le> po_min_layers opt" and "ps_points (po_solve opt L) \<noteq> []"
  shows "on_nodes opt L (ps_points (po_solve opt L))" and "\<not> po_allow_oom opt \<Longrightarrow> ps_num_oom_nodes (po_solve opt L) = 0"
proof -
  obtain ps where ps: "po_solve opt L = po_finalize opt ps" "on_nodes opt L ps" using solve_finalizes [OF assms] .
  show "on_nodes opt L (ps_points (po_solve opt L))" using ps by simp
  show "\<not> po_allow_oom opt \<Longrightarrow> ps_num_oom_nodes (po_solve opt L) = 0" using finalize_oom [OF ps(2)] ps(1) by simp
qed

text \<open>C31: The points of a solution, by table or by beam search, are a partition of the layers: consecutive non-empty ranges from
  the first layer to the last, given in order to the first nodes, one each; and unless the optimizer tolerates it, no node
  is given more than its memory holds. Only an empty solution is not such a partition.
\<close>

theorem solve_valid:
  assumes "2 \<le> length ids" and "ps_points (po_solve (optimizer_init cm ids b q oom gpus m) L) \<noteq> []"
  shows "let opt = optimizer_init cm ids b q oom gpus m; sol = po_solve opt L
     in on_nodes opt L (ps_points sol) \<and> (\<not> oom \<longrightarrow> ps_num_oom_nodes sol = 0)"
  using solve_placed [OF _ init_fields(2) assms(2)] assms(1) by (simp add: Let_def)

theorem solve_valid_witness:
  "let opt = sample_optimizer False 1; sol = po_solve opt 4 in on_nodes opt 4 (ps_points sol) \<and> length (ps_points sol) = 2 \<and> ps_num_oom_nodes sol = 0"
proof -
  let ?sol = "po_solve (sample_optimizer False 1) 4"
  have l: "length (ps_points ?sol) = 2" using arg_cong [OF sample_solve, of length] by simp
  then have "ps_points ?sol \<noteq> []" by auto
  with solve_valid [of "[''slow'', ''fast'']" sample_model 1 4096 False None 1 4] l show ?thesis by (simp add: sample_optimizer_def Let_def)
qed

text \<open>The beam search places ranges below the minimal size that the table respects, and the reported slowest time leaves the number of GPUs out.\<close>

lemma beam_ignores_min_layers: "ranges (ps_points (beam_search_solve (sample_optimizer False 2) 4)) = [(0, 1), (1, 4)]"
  by code_simp

lemma table_keeps_min_layers: "ranges (ps_points (po_solve (sample_optimizer False 2) 4)) = [(0, 2), (2, 4)]"
  by code_simp

definition sample_gpus :: optimizer where
  "sample_gpus = optimizer_init sample_model [''slow'', ''fast''] 1 4096 False (Some [(''slow'', 4)]) 1"

lemma reported_time_ignores_gpus:
  "let ps = ps_points (po_solve sample_gpus 4) in ranges ps = [(0, 3), (3, 4)] \<and> part_cost sample_gpus (ranges ps) = 3 / 2 \<and> ps_max_node_time_ms (po_solve sample_gpus 4) = 6"
  by code_simp


section \<open>The baselines\<close>

text \<open>Consecutive ranges, some of which may be empty.\<close>

fun covers :: "nat \<Rightarrow> nat \<Rightarrow> assignment list \<Rightarrow> bool" where
  "covers a b [] \<longleftrightarrow> a = b"
| "covers a b ((nid, s, e) # xs) \<longleftrightarrow> s = a \<and> s \<le> e \<and> covers e b xs"

lemma equal_loop_covers:
  "i + length ids = nodes \<Longrightarrow> covers start (start + length ids * per + min rm (length ids)) (equal_loop ids nodes per rm i start)
     \<and> map fst (equal_loop ids nodes per rm i start) = ids \<and> (\<forall>(nid, s, e) \<in> set (equal_loop ids nodes per rm i start). e = s + per \<or> e = s + per + 1)"
proof (induction ids arbitrary: i start)
  case (Cons nid ids)
  let ?e = "start + per + (if i + rm \<ge> nodes then 1 else 0)"
  have "?e + length ids * per + min rm (length ids) = start + length (nid # ids) * per + min rm (length (nid # ids))" using Cons.prems by auto
  then show ?case using Cons.IH [of "i + 1" ?e] Cons.prems by (auto simp: Let_def add.assoc)
qed simp

lemma proportional_loop_covers: "xs \<noteq> [] \<Longrightarrow> start \<le> L \<Longrightarrow> covers start L (proportional_loop xs cap L start) \<and> map fst (proportional_loop xs cap L start) = map fst xs"
proof (induction xs arbitrary: start)
  case (Cons x xs)
  obtain nid c where x: "x = (nid, c)" by (cases x)
  show ?case
  proof (cases "xs = []")
    case False
    then show ?thesis using Cons.IH [of "start + min (max 1 (nat (round_even (of_nat L * (c / cap))))) (L - start)"] Cons.prems by (auto simp: x Let_def)
  qed (use Cons.prems in \<open>simp add: x Let_def\<close>)
qed simp

text \<open>Both baselines give every node a range, in order, and together all layers; the ranges of the equal split differ by at most one layer.\<close>

lemma baselines_cover:
  assumes "po_node_ids opt \<noteq> []"
  shows "\<exists>as. equal_split opt L = Inr as \<and> covers 0 L as \<and> map fst as = po_node_ids opt
      \<and> (\<forall>(nid, s, e) \<in> set as. e = s + L div length (po_node_ids opt) \<or> e = s + L div length (po_node_ids opt) + 1)"
    and "covers 0 L (proportional_split opt L) \<and> map fst (proportional_split opt L) = po_node_ids opt"
proof -
  let ?n = "length (po_node_ids opt)"
  have n: "0 < ?n" using assms by simp
  have "0 + ?n * (L div ?n) + min (L mod ?n) ?n = L" using mod_less_divisor [OF n, of L] by (simp add: min_def)
  then show "\<exists>as. equal_split opt L = Inr as \<and> covers 0 L as \<and> map fst as = po_node_ids opt
      \<and> (\<forall>(nid, s, e) \<in> set as. e = s + L div ?n \<or> e = s + L div ?n + 1)"
    using equal_loop_covers [of 0 "po_node_ids opt" ?n 0 "L div ?n" "L mod ?n"] n by (simp add: equal_split_def Let_def)
  show "covers 0 L (proportional_split opt L) \<and> map fst (proportional_split opt L) = po_node_ids opt"
    using proportional_loop_covers assms by (simp add: proportional_split_def Let_def comp_def)
qed

end
