(* ===== verification/CostModel.thy ===== *)
theory CostModel
  imports Partition "HOL-Library.Multiset" "HOL-Library.Code_Target_Nat"
begin

text \<open>
  \<^verbatim>\<open>PartitionCostModel\<close> of \<^verbatim>\<open>src/distllm/dist/partition/cost_model.py\<close> with the topology graph and the layer estimates it
  reads (\<^verbatim>\<open>topology.py\<close>, \<^verbatim>\<open>profiles.py\<close>), and \<^verbatim>\<open>HardwareAwarePartitioner.partition\<close> of \<^verbatim>\<open>partitioner.py\<close>, which runs the optimizer on it.
  What is measured on the machines (device profiles, the probed topology) and the digest of a configuration are arguments;
  floating-point numbers are rationals.
\<close>

section \<open>Data\<close>

record gpu_profile =
  gp_gpu_id :: nat
  gp_total_memory_bytes :: nat
  gp_compute_tflops :: rat
  gp_memory_bandwidth_gbps :: rat

record layer_weights =
  lw_layer_id :: nat
  lw_layer_type :: string
  lw_weight_memory_bytes :: nat
  lw_activation_memory_bytes :: nat
  lw_flops_per_seq :: nat
  lw_kv_cache_bytes_per_token :: nat

record link_profile =
  lk_source :: string
  lk_target :: string
  lk_bandwidth_gbps :: rat
  lk_latency_us :: rat
  lk_is_nvlink :: bool
  lk_is_infiniband :: bool

record topology_graph =
  tg_node_ids :: "string list"
  tg_links :: "link_profile list"

record part_cost_model =
  pm_gpu_profiles :: "(string, gpu_profile) dict"
  pm_layer_weights :: "layer_weights list"
  pm_topology :: topology_graph
  pm_pipeline_order :: "string list option"

text \<open>Profiles come as a dictionary by node or as a list, which is keyed by the decimal number of the device.\<close>

definition pcm_init :: "gpu_profile list + (string, gpu_profile) dict \<Rightarrow> layer_weights list \<Rightarrow> topology_graph \<Rightarrow> string list option \<Rightarrow> part_cost_model" where
  "pcm_init profiles ws topo order =
     \<lparr>pm_gpu_profiles = (case profiles of Inl ps \<Rightarrow> fold (\<lambda>p. AList.update (dec (gp_gpu_id p)) p) ps [] | Inr d \<Rightarrow> d),
      pm_layer_weights = ws, pm_topology = topo, pm_pipeline_order = order\<rparr>"

section \<open>Topology\<close>

definition find_link :: "topology_graph \<Rightarrow> string \<Rightarrow> string \<Rightarrow> link_profile option" where
  "find_link g a b = find (\<lambda>l. (lk_source l = a \<and> lk_target l = b) \<or> (lk_source l = b \<and> lk_target l = a)) (tg_links g)"

definition get_bandwidth :: "topology_graph \<Rightarrow> string \<Rightarrow> string \<Rightarrow> rat" where
  "get_bandwidth g a b = (case find_link g a b of None \<Rightarrow> 1 | Some l \<Rightarrow> lk_bandwidth_gbps l)"

definition get_latency :: "topology_graph \<Rightarrow> string \<Rightarrow> string \<Rightarrow> rat" where
  "get_latency g a b = (case find_link g a b of None \<Rightarrow> 1000 | Some l \<Rightarrow> lk_latency_us l)"

definition contention_factor :: "topology_graph \<Rightarrow> string \<Rightarrow> string \<Rightarrow> nat \<Rightarrow> rat" where
  "contention_factor g prev nid active =
     (case find_link g prev nid of
        None \<Rightarrow> 8 / 10
      | Some l \<Rightarrow> if lk_is_nvlink l then 95 / 100
                  else if lk_is_infiniband l then max (6 / 10) (1 - 1 / 10 * of_nat active)
                  else max (3 / 10) (1 - 15 / 100 * of_nat active))"

definition prev_in :: "string list \<Rightarrow> string \<Rightarrow> string option" where
  "prev_in nodes nid = (let i = length (takeWhile (\<lambda>x. x \<noteq> nid) nodes) in if i < length nodes \<and> i > 0 then Some (nodes ! (i - 1)) else None)"

definition get_prev_node :: "part_cost_model \<Rightarrow> string \<Rightarrow> string option" where
  "get_prev_node pm nid =
     (case pm_pipeline_order pm of Some (x # xs) \<Rightarrow> prev_in (x # xs) nid | _ \<Rightarrow> prev_in (tg_node_ids (pm_topology pm)) nid)"

section \<open>Estimates\<close>

fun isqrt :: "nat \<Rightarrow> nat" where
  "isqrt n = (if n = 0 then 0 else let r = 2 * isqrt (n div 4) in if (r + 1) * (r + 1) \<le> n then r + 1 else r)"

declare isqrt.simps [simp del]

definition hidden_size_of :: "layer_weights list \<Rightarrow> nat" where
  "hidden_size_of layers =
     (case find (\<lambda>l. lw_layer_type l = ''transformer'' \<and> lw_weight_memory_bytes l > 0) layers of
        None \<Rightarrow> 0 | Some l \<Rightarrow> isqrt (lw_weight_memory_bytes l div 14))"

definition utilization_factor :: "nat \<Rightarrow> nat \<Rightarrow> nat \<Rightarrow> rat" where
  "utilization_factor hidden batch seq =
     (min (of_nat hidden / 4096) 1 * (3 / 10) + 1 / 2) * (min (of_nat batch / 8) 1 * (2 / 10) + 7 / 10)
     * (if seq > 8192 then max (85 / 100) (1 - (of_nat seq - 8192) / 100000) else 1)"

definition flops_to_ms :: "rat \<Rightarrow> rat \<Rightarrow> rat" where
  "flops_to_ms flops tflops = (if tflops \<le> 0 then 0 else flops / (tflops * 10 ^ 12) * 1000)"

definition estimate_compute_cpu :: "layer_weights list \<Rightarrow> nat \<Rightarrow> nat \<Rightarrow> rat" where
  "estimate_compute_cpu layers batch seq = flops_to_ms (of_nat (sum_list (map lw_flops_per_seq layers) * batch * seq)) 1 * 50"

definition estimate_compute_split :: "layer_weights list \<Rightarrow> nat \<Rightarrow> nat \<Rightarrow> nat \<times> nat" where
  "estimate_compute_split layers batch seq =
     (let ts = filter (\<lambda>l. lw_layer_type l = ''transformer'') layers;
          attn = sum_list (map (\<lambda>l. 3 * lw_flops_per_seq l div 10) ts);
          mlp = sum_list (map (\<lambda>l. 7 * lw_flops_per_seq l div 10) ts)
      in (attn * batch * seq, mlp * batch * seq))"

fun frag_scan :: "rat \<Rightarrow> (rat \<times> rat) list \<Rightarrow> rat" where
  "frag_scan u [] = 70 / 100"
| "frag_scan u ((t, f) # xs) = (if u \<le> t then f else frag_scan u xs)"

definition fragmentation_factor :: "rat \<Rightarrow> rat" where
  "fragmentation_factor u =
     (if u \<le> 5 / 10 then 1
      else frag_scan u [(50 / 100, 1), (60 / 100, 98 / 100), (70 / 100, 95 / 100), (80 / 100, 90 / 100), (90 / 100, 82 / 100), (1, 70 / 100)])"

definition fits_memory :: "nat \<Rightarrow> nat \<Rightarrow> bool" where
  "fits_memory mem avail \<longleftrightarrow>
     (let u = (if avail > 0 then of_nat mem / of_nat avail else 1) in of_nat mem \<le> of_nat avail * fragmentation_factor u * (9 / 10))"

definition transfer_ms :: "rat \<Rightarrow> rat \<Rightarrow> rat" where
  "transfer_ms bytes gbps = bytes * 8 / (gbps * 10 ^ 9) * 1000"

definition prev_node :: "part_cost_model \<Rightarrow> string \<Rightarrow> string option \<Rightarrow> string option" where
  "prev_node pm nid given =
     (case (case given of Some p \<Rightarrow> if p \<noteq> '''' then Some p else get_prev_node pm nid | None \<Rightarrow> get_prev_node pm nid) of
        None \<Rightarrow> None | Some p \<Rightarrow> if p = '''' then None else Some p)"

definition comm_ms :: "part_cost_model \<Rightarrow> string \<Rightarrow> layer_weights list \<Rightarrow> nat \<Rightarrow> nat \<Rightarrow> string option \<Rightarrow> rat" where
  "comm_ms pm nid layers batch seq given =
     (case prev_node pm nid given of
        None \<Rightarrow> 0
      | Some p \<Rightarrow> let a = lw_activation_memory_bytes (last layers);
                      bytes = (if a \<noteq> 0 then a else seq * 2) * batch * seq;
                      bw = get_bandwidth (pm_topology pm) p nid
                  in if bw > 0 then transfer_ms (of_nat bytes) (bw * contention_factor (pm_topology pm) p nid 1) else 0)"

definition py_slice :: "'a list \<Rightarrow> nat \<Rightarrow> nat \<Rightarrow> 'a list" where
  "py_slice xs s e = drop s (take e xs)"

definition blank_cost :: "string \<Rightarrow> nat \<Rightarrow> nat \<Rightarrow> node_cost" where
  "blank_cost nid s e = \<lparr>nc_node_id = nid, nc_start_layer = s, nc_end_layer = e, nc_compute_time_ms = 0, nc_communication_time_ms = 0, nc_total_time_ms = 0,
     nc_memory_bytes = 0, nc_memory_available_bytes = 0, nc_fits_in_memory = True\<rparr>"

definition cpu_cost :: "string \<Rightarrow> nat \<Rightarrow> nat \<Rightarrow> rat \<Rightarrow> node_cost" where
  "cpu_cost nid s e ms = (blank_cost nid s e)\<lparr>nc_compute_time_ms := round2 ms, nc_total_time_ms := round2 ms\<rparr>"

definition pcm_evaluate :: "part_cost_model \<Rightarrow> string \<Rightarrow> nat \<Rightarrow> nat \<Rightarrow> nat \<Rightarrow> nat \<Rightarrow> string option \<Rightarrow> node_cost" where
  "pcm_evaluate pm nid s e batch seq given =
     (let layers = py_slice (pm_layer_weights pm) s e in
      if layers = [] then blank_cost nid s e
      else case map_of (pm_gpu_profiles pm) nid of
        None \<Rightarrow> cpu_cost nid s e (estimate_compute_cpu layers batch seq)
      | Some gpu \<Rightarrow>
          let avail = gp_total_memory_bytes gpu;
              effective = gp_compute_tflops gpu * utilization_factor (hidden_size_of layers) batch seq;
              (attn, mlp) = estimate_compute_split layers batch seq;
              compute0 = flops_to_ms (of_nat (attn + mlp)) effective;
              weights = sum_list (map lw_weight_memory_bytes layers);
              kv = sum_list (map lw_kv_cache_bytes_per_token layers) * batch * seq;
              acts = filter (\<lambda>a. a > 0) (map lw_activation_memory_bytes layers);
              act = (if acts = [] then seq * 2 else Max (set acts)) * batch * seq;
              mem = weights + kv + act;
              bw = gp_memory_bandwidth_gbps gpu;
              compute = (if bw > 0 then max compute0 (transfer_ms (of_nat weights) bw + transfer_ms (of_nat (kv + act)) bw * (4 / 10)) else compute0);
              comm = comm_ms pm nid layers batch seq given
          in \<lparr>nc_node_id = nid, nc_start_layer = s, nc_end_layer = e, nc_compute_time_ms = round2 compute, nc_communication_time_ms = round2 comm,
              nc_total_time_ms = round2 (compute + comm), nc_memory_bytes = mem, nc_memory_available_bytes = avail, nc_fits_in_memory = fits_memory mem avail\<rparr>)"

definition pcm_weights_memory_bytes :: "part_cost_model \<Rightarrow> nat \<Rightarrow> nat \<Rightarrow> nat" where
  "pcm_weights_memory_bytes pm s e = sum_list (map lw_weight_memory_bytes (py_slice (pm_layer_weights pm) s e))"

definition pcm_evaluate_partition :: "part_cost_model \<Rightarrow> assignment list \<Rightarrow> nat \<Rightarrow> nat \<Rightarrow> node_cost list" where
  "pcm_evaluate_partition pm part batch seq =
     map (\<lambda>(i, nid, s, e). pcm_evaluate pm nid s e batch seq (if i > 0 then Some (fst (part ! (i - 1))) else None)) (enumerate 0 part)"

definition bottleneck :: "node_cost list \<Rightarrow> rat" where
  "bottleneck cs = Max (set (map nc_total_time_ms cs))"

definition pcm_max_latency :: "part_cost_model \<Rightarrow> assignment list \<Rightarrow> nat \<Rightarrow> nat \<Rightarrow> rat" where
  "pcm_max_latency pm part batch seq = (let cs = pcm_evaluate_partition pm part batch seq in if cs = [] then 0 else bottleneck cs)"

definition pcm_combined_throughput :: "part_cost_model \<Rightarrow> assignment list \<Rightarrow> nat \<Rightarrow> nat \<Rightarrow> rat" where
  "pcm_combined_throughput pm part batch seq =
     (let cs = pcm_evaluate_partition pm part batch seq in
      if cs = [] then 0 else let b = bottleneck cs in if b \<le> 0 then 0 else of_nat (batch * seq) / (b / 1000))"

definition pcm_pipeline_latency :: "part_cost_model \<Rightarrow> assignment list \<Rightarrow> nat \<Rightarrow> nat \<Rightarrow> nat option \<Rightarrow> rat" where
  "pcm_pipeline_latency pm part batch seq stages =
     (let cs = pcm_evaluate_partition pm part batch seq in
      if cs = [] then 0
      else let n = (case stages of Some k \<Rightarrow> if k \<noteq> 0 then k else length cs | None \<Rightarrow> length cs); t = bottleneck cs
           in if n \<le> 1 then t else t + of_nat (n - 1) * t / of_nat (max 1 batch))"

definition cost_model_of :: "part_cost_model \<Rightarrow> cost_model" where
  "cost_model_of pm = \<lparr>cm_evaluate = (\<lambda>nid s e b q. pcm_evaluate pm nid s e b q None), cm_evaluate_partition = pcm_evaluate_partition pm,
     cm_combined_throughput = pcm_combined_throughput pm, cm_pipeline_latency = (\<lambda>p b q. pcm_pipeline_latency pm p b q None)\<rparr>"

section \<open>Prefill and decode\<close>

definition pcm_evaluate_token_aware :: "part_cost_model \<Rightarrow> string \<Rightarrow> nat \<Rightarrow> nat \<Rightarrow> nat \<Rightarrow> nat \<Rightarrow> nat \<Rightarrow> string option \<Rightarrow> node_cost" where
  "pcm_evaluate_token_aware pm nid s e batch prefill decode given =
     (let layers = py_slice (pm_layer_weights pm) s e in
      if layers = [] then blank_cost nid s e
      else case map_of (pm_gpu_profiles pm) nid of
        None \<Rightarrow> cpu_cost nid s e (estimate_compute_cpu layers batch prefill)
      | Some gpu \<Rightarrow>
          let bw = gp_memory_bandwidth_gbps gpu;
              avail = gp_total_memory_bytes gpu;
              weights = sum_list (map lw_weight_memory_bytes layers);
              kv = sum_list (map lw_kv_cache_bytes_per_token layers);
              mem = weights + kv * batch * (prefill + decode);
              (attn, mlp) = estimate_compute_split layers batch prefill;
              effective = gp_compute_tflops gpu * utilization_factor 0 batch prefill;
              prefill_compute = flops_to_ms (of_nat (attn + mlp)) effective;
              prefill_ms = (if bw > 0 then max prefill_compute (transfer_ms (of_nat (weights + kv * batch * prefill)) bw) else prefill_compute);
              step_compute = flops_to_ms (of_nat (sum_list (map lw_flops_per_seq (filter (\<lambda>l. lw_layer_type l = ''transformer'') layers)))) effective;
              step_ms = (if bw > 0 then max step_compute (transfer_ms (of_nat weights + of_nat (kv * batch) * (of_nat prefill + of_nat decode / 2)) bw) else step_compute);
              decode_ms = step_ms * of_nat decode;
              comm = comm_ms pm nid layers batch prefill given
          in \<lparr>nc_node_id = nid, nc_start_layer = s, nc_end_layer = e, nc_compute_time_ms = round2 (prefill_ms + decode_ms), nc_communication_time_ms = round2 comm,
              nc_total_time_ms = round2 (prefill_ms + decode_ms + comm), nc_memory_bytes = mem, nc_memory_available_bytes = avail, nc_fits_in_memory = fits_memory mem avail\<rparr>)"

definition pcm_combined_throughput_token_aware :: "part_cost_model \<Rightarrow> assignment list \<Rightarrow> nat \<Rightarrow> nat \<Rightarrow> nat \<Rightarrow> rat" where
  "pcm_combined_throughput_token_aware pm part batch prefill decode =
     (let cs = map (\<lambda>(i, nid, s, e). pcm_evaluate_token_aware pm nid s e batch prefill decode (if i > 0 then Some (fst (part ! (i - 1))) else None)) (enumerate 0 part) in
      if cs = [] then 0 else let b = bottleneck cs in if b \<le> 0 then 0 else of_nat (batch * decode) / (b / 1000))"

section \<open>Layer estimates\<close>

definition single_layer_weight_bytes :: "nat \<Rightarrow> nat \<Rightarrow> nat \<Rightarrow> nat" where
  "single_layer_weight_bytes h mid bytes = (3 * h * h + h * h + h * mid + h * mid + mid * h + 4 * h) * bytes"

definition single_layer_flops :: "nat \<Rightarrow> nat \<Rightarrow> nat \<Rightarrow> nat \<Rightarrow> nat" where
  "single_layer_flops h mid heads head_dim =
     3 * 2 * h * h + 2 * 2 * heads * head_dim + 2 * h * h + 2 * h * mid + 2 * h * mid + 2 * mid * h"

definition estimate_layer_weights :: "nat \<Rightarrow> nat \<Rightarrow> nat \<Rightarrow> nat \<Rightarrow> nat \<Rightarrow> nat \<Rightarrow> nat \<Rightarrow> layer_weights list" where
  "estimate_layer_weights h mid layers heads head_dim vocab bytes =
     (let act = h * bytes;
          embed = \<lparr>lw_layer_id = 0, lw_layer_type = ''embed'', lw_weight_memory_bytes = vocab * h * bytes, lw_activation_memory_bytes = act,
                   lw_flops_per_seq = 0, lw_kv_cache_bytes_per_token = 0\<rparr>;
          body = (\<lambda>i. \<lparr>lw_layer_id = i + 1, lw_layer_type = ''transformer'',
                   lw_weight_memory_bytes = single_layer_weight_bytes h mid bytes + (if i = 0 \<or> i + 1 = layers then 2 * h * bytes else 0),
                   lw_activation_memory_bytes = act, lw_flops_per_seq = single_layer_flops h mid heads head_dim,
                   lw_kv_cache_bytes_per_token = 2 * max 1 heads * head_dim * bytes\<rparr>);
          lm_head = \<lparr>lw_layer_id = layers + 1, lw_layer_type = ''lm_head'', lw_weight_memory_bytes = vocab * h * bytes, lw_activation_memory_bytes = act,
                   lw_flops_per_seq = vocab * h * 2, lw_kv_cache_bytes_per_token = 0\<rparr>
      in embed # map body [0..<layers] @ [lm_head])"

section \<open>The partitioner\<close>

text \<open>What a call is asked for; its digest covers all fields but the GPU counts, the head size, and the order of the nodes.\<close>

record partition_request =
  rq_model_name :: "string option"
  rq_node_ids :: "string list option"
  rq_gpu_counts :: "(string, int) dict option"
  rq_hidden_size :: nat
  rq_intermediate_size :: nat
  rq_num_layers :: nat
  rq_num_heads :: nat
  rq_head_dim :: nat
  rq_vocab_size :: nat

type_synonym config_key = "string option \<times> string list \<times> nat list \<times> bool"

record partitioner =
  hp_batch_size :: nat
  hp_seq_len :: nat
  hp_allow_oom :: bool
  hp_gpu_profiles :: "gpu_profile list"
  hp_topology :: "topology_graph option"
  hp_layer_weights :: "layer_weights list"
  hp_solution :: "partition_solution option"
  hp_last_config_hash :: string
  hp_last_model_name :: "string option"

definition partitioner_init :: "nat \<Rightarrow> nat \<Rightarrow> bool \<Rightarrow> partitioner" where
  "partitioner_init batch seq oom = \<lparr>hp_batch_size = batch, hp_seq_len = seq, hp_allow_oom = oom, hp_gpu_profiles = [], hp_topology = None,
     hp_layer_weights = [], hp_solution = None, hp_last_config_hash = '''', hp_last_model_name = None\<rparr>"

definition compute_config_key :: "partitioner \<Rightarrow> partition_request \<Rightarrow> config_key" where
  "compute_config_key hp rq =
     (rq_model_name rq, sort (case rq_node_ids rq of None \<Rightarrow> [] | Some ids \<Rightarrow> ids),
      [rq_hidden_size rq, rq_num_layers rq, rq_num_heads rq, rq_intermediate_size rq, rq_vocab_size rq, hp_batch_size hp, hp_seq_len hp], hp_allow_oom hp)"

definition plan_nodes :: "partitioner \<Rightarrow> partition_request \<Rightarrow> string list" where
  "plan_nodes hp rq =
     (case rq_node_ids rq of Some (x # xs) \<Rightarrow> x # xs
      | _ \<Rightarrow> map (\<lambda>i. ''node-'' @ dec i) [0..<(if hp_gpu_profiles hp = [] then 1 else length (hp_gpu_profiles hp))])"

definition hp_partition :: "(config_key \<Rightarrow> string) \<Rightarrow> (string list \<Rightarrow> topology_graph) \<Rightarrow> gpu_profile list \<Rightarrow> partition_request \<Rightarrow> partitioner \<Rightarrow> partition_solution \<times> partitioner" where
  "hp_partition digest probe profiles rq hp =
     (let h = digest (compute_config_key hp rq) in
      case (if h = hp_last_config_hash hp \<and> rq_model_name rq = hp_last_model_name hp then hp_solution hp else None) of
        Some sol \<Rightarrow> (sol, hp)
      | None \<Rightarrow>
          let nodes = plan_nodes hp rq;
              gpu_cnt = (case rq_gpu_counts rq of Some (c # cs) \<Rightarrow> c # cs | _ \<Rightarrow> fold (\<lambda>n. AList.update n 1) nodes []);
              topo = probe nodes;
              ws = estimate_layer_weights (rq_hidden_size rq) (rq_intermediate_size rq) (rq_num_layers rq) (rq_num_heads rq) (rq_head_dim rq) (rq_vocab_size rq) 2;
              opt = optimizer_init (cost_model_of (pcm_init (Inl profiles) ws topo None)) nodes (hp_batch_size hp) (hp_seq_len hp) (hp_allow_oom hp) (Some gpu_cnt) 1;
              sol = po_solve opt (length ws)
          in (sol, hp\<lparr>hp_gpu_profiles := profiles, hp_topology := Some topo, hp_layer_weights := ws, hp_solution := Some sol,
                      hp_last_config_hash := h, hp_last_model_name := rq_model_name rq\<rparr>))"

definition get_layer_assignments :: "partitioner \<Rightarrow> (nat \<times> string \<times> string) list option" where
  "get_layer_assignments hp =
     (case hp_solution hp of
        None \<Rightarrow> None
      | Some sol \<Rightarrow> Some (concat (map (\<lambda>p. map (\<lambda>i. (i, pt_node_id p, if i < length (hp_layer_weights hp) then lw_layer_type (hp_layer_weights hp ! i) else ''unknown''))
                                        [pt_start_layer p..<pt_end_layer p]) (ps_points sol))))"


section \<open>The memory check\<close>

text \<open>The banded factor amounts to one threshold: four fifths of the memory.\<close>

lemma fits_memory_iff: "fits_memory mem avail \<longleftrightarrow> 5 * mem \<le> 4 * avail"
proof (cases "avail = 0")
  case False
  define u :: rat where "u = of_nat mem / of_nat avail"
  have mem: "of_nat mem = u * of_nat avail" and pos: "(0 :: rat) < of_nat avail" using False by (simp_all add: u_def)
  have "fits_memory mem avail \<longleftrightarrow> u * of_nat avail \<le> (fragmentation_factor u * (9 / 10)) * of_nat avail"
    using False mem by (simp add: fits_memory_def u_def mult_ac)
  also have "\<dots> \<longleftrightarrow> u \<le> fragmentation_factor u * (9 / 10)" using pos by (simp only: mult_le_cancel_right_pos)
  also have "\<dots> \<longleftrightarrow> u \<le> 4 / 5" by (auto simp: fragmentation_factor_def)
  also have "\<dots> \<longleftrightarrow> of_nat (5 * mem) \<le> (of_nat (4 * avail) :: rat)" using pos by (simp add: u_def pos_divide_le_eq mult.commute)
  finally show ?thesis by (simp only: of_nat_le_iff)
qed (simp add: fits_memory_def)

lemma evaluate_fits_iff:
  "nc_fits_in_memory (pcm_evaluate pm nid s e b q prev) \<longleftrightarrow> 5 * nc_memory_bytes (pcm_evaluate pm nid s e b q prev) \<le> 4 * nc_memory_available_bytes (pcm_evaluate pm nid s e b q prev)"
  by (auto simp: pcm_evaluate_def Let_def blank_cost_def cpu_cost_def fits_memory_iff split: option.splits prod.splits)

lemma token_aware_fits_iff:
  "nc_fits_in_memory (pcm_evaluate_token_aware pm nid s e b p d prev) \<longleftrightarrow>
     5 * nc_memory_bytes (pcm_evaluate_token_aware pm nid s e b p d prev) \<le> 4 * nc_memory_available_bytes (pcm_evaluate_token_aware pm nid s e b p d prev)"
  by (auto simp: pcm_evaluate_token_aware_def Let_def blank_cost_def cpu_cost_def fits_memory_iff split: option.splits prod.splits)

text \<open>Whatever the layers, the device, the batch and the predecessor, an estimate says that a range fits exactly when its
  memory is at most four fifths of the device's: the fragmentation bands decide nothing else. This holds for the estimate by phases as well.\<close>
theorem fits_is_flat_threshold:
  "let c = pcm_evaluate pm nid s e b q prev; t = pcm_evaluate_token_aware pm nid s e b p d prev
   in (nc_fits_in_memory c \<longleftrightarrow> 5 * nc_memory_bytes c \<le> 4 * nc_memory_available_bytes c)
    \<and> (nc_fits_in_memory t \<longleftrightarrow> 5 * nc_memory_bytes t \<le> 4 * nc_memory_available_bytes t)"
  unfolding Let_def evaluate_fits_iff token_aware_fits_iff by simp

section \<open>A plan on this cost model\<close>

lemma cost_model_of_evaluate: "po_cost_model opt = cost_model_of pm \<Longrightarrow> po_evaluate opt nid s e = pcm_evaluate pm nid s e (po_batch_size opt) (po_seq_len opt) None"
  by (simp add: po_evaluate_def cost_model_of_def)


section \<open>Estimated times\<close>

lemma round_even_nonneg: "0 \<le> x \<Longrightarrow> 0 \<le> round_even x"
  by (auto simp: round_even_def Let_def)

lemma round2_nonneg: "0 \<le> x \<Longrightarrow> 0 \<le> round2 x"
  using round_even_nonneg [of "x * 100"] by (simp add: round2_def)

lemma flops_to_ms_nonneg: "0 \<le> x \<Longrightarrow> 0 \<le> flops_to_ms x t"
  by (simp add: flops_to_ms_def)

lemma transfer_ms_nonneg: "0 \<le> x \<Longrightarrow> 0 \<le> g \<Longrightarrow> 0 \<le> transfer_ms x g"
  by (simp add: transfer_ms_def)

lemma comm_ms_nonneg: "0 \<le> comm_ms pm nid layers b q prev"
proof -
  have "0 < contention_factor g a c n" for g a c n by (auto simp: contention_factor_def less_max_iff_disj split: option.splits)
  then show ?thesis by (auto simp: comm_ms_def Let_def simp del: of_nat_mult split: option.splits intro!: transfer_ms_nonneg mult_nonneg_nonneg intro: less_imp_le)
qed

lemma evaluate_time_nonneg: "0 \<le> nc_total_time_ms (pcm_evaluate pm nid s e b q prev)"
  by (auto simp: pcm_evaluate_def Let_def blank_cost_def cpu_cost_def estimate_compute_cpu_def le_max_iff_disj split: option.splits prod.splits
      intro!: round2_nonneg add_nonneg_nonneg comm_ms_nonneg flops_to_ms_nonneg mult_nonneg_nonneg)


section \<open>The plan is the fastest\<close>

lemma one_gpu: "(\<forall>k. map_of d k = None \<or> map_of d k = Some 1) \<Longrightarrow> map_of (fold (\<lambda>i. AList.update i (1 :: int)) ids d) k = None \<or> map_of (fold (\<lambda>i. AList.update i 1) ids d) k = Some 1"
  by (induction ids arbitrary: d) auto

lemma node_time_one: "node_time (optimizer_init cm ids b q oom None m) nid c = nc_total_time_ms c"
  using one_gpu [of "[]" ids nid] by (auto simp: node_time_def optimizer_init_def Let_def)

lemma prev_in_nth: "distinct ids \<Longrightarrow> i < length ids \<Longrightarrow> prev_in ids (ids ! i) = (if i = 0 then None else Some (ids ! (i - 1)))"
proof -
  assume d: "distinct ids" and i: "i < length ids"
  have "takeWhile (\<lambda>x. x \<noteq> ids ! i) ids = take i ids" by (rule takeWhile_eq_take_P_nth) (use d i in \<open>auto simp: nth_eq_iff_index_eq\<close>)
  then show ?thesis using i by (simp add: prev_in_def)
qed

lemma evaluate_prev_cong: "prev_node pm nid g = prev_node pm nid g' \<Longrightarrow> pcm_evaluate pm nid s e b q g = pcm_evaluate pm nid s e b q g'"
proof -
  assume "prev_node pm nid g = prev_node pm nid g'"
  then have eq: "comm_ms pm nid layers b q g = comm_ms pm nid layers b q g'" for layers by (simp add: comm_ms_def)
  show ?thesis unfolding pcm_evaluate_def eq ..
qed

text \<open>The model's topology lists the optimizer's nodes in their order, and no other order is given.\<close>

definition aligned :: "part_cost_model \<Rightarrow> string list \<Rightarrow> bool" where
  "aligned pm ids \<longleftrightarrow> distinct ids \<and> '''' \<notin> set ids \<and> pm_pipeline_order pm = None \<and> tg_node_ids (pm_topology pm) = ids"

lemma aligned_prev: "aligned pm ids \<Longrightarrow> i < length ids \<Longrightarrow> 0 < i \<Longrightarrow> prev_node pm (ids ! i) None = prev_node pm (ids ! i) (Some (ids ! (i - 1)))"
proof -
  assume a: "aligned pm ids" and i: "i < length ids" "0 < i"
  then have "ids ! (i - 1) \<in> set ids" by simp
  then have "ids ! (i - 1) \<noteq> ''''" using a by (auto simp: aligned_def)
  then show ?thesis using a i by (simp add: aligned_def prev_node_def get_prev_node_def prev_in_nth)
qed

lemma evaluate_partition_aligned:
  assumes "aligned pm ids" and "length rs \<le> length ids"
  shows "pcm_evaluate_partition pm (zip ids rs) b q = map (\<lambda>(nid, s, e). pcm_evaluate pm nid s e b q None) (zip ids rs)"
proof (rule nth_equalityI)
  fix i assume "i < length (pcm_evaluate_partition pm (zip ids rs) b q)"
  then have i: "i < length rs" "i < length ids" using assms(2) by (simp_all add: pcm_evaluate_partition_def)
  then show "pcm_evaluate_partition pm (zip ids rs) b q ! i = map (\<lambda>(nid, s, e). pcm_evaluate pm nid s e b q None) (zip ids rs) ! i"
    using evaluate_prev_cong [OF aligned_prev [OF assms(1), of i]]
    by (cases "i = 0") (simp_all add: pcm_evaluate_partition_def nth_enumerate_eq split: prod.splits)
qed (simp add: pcm_evaluate_partition_def)

lemma part_cost_latency:
  assumes "aligned pm ids" and "rs \<noteq> []" and "placed (optimizer_init (cost_model_of pm) ids b q oom None m) L n rs"
  shows "part_cost (optimizer_init (cost_model_of pm) ids b q oom None m) rs = pcm_max_latency pm (zip ids rs) b q"
proof -
  let ?opt = "optimizer_init (cost_model_of pm) ids b q oom None m"
  have l: "length rs \<le> length ids" using placed_nodes [OF assms(3)] assms(3) by (simp add: placed_def)
  have c: "range_costs ?opt rs = map (\<lambda>(nid, s, e). Some (nc_total_time_ms (pcm_evaluate pm nid s e b q None))) (zip ids rs)"
  proof (rule nth_equalityI)
    fix i assume "i < length (range_costs ?opt rs)"
    then have i: "i < length rs" "i < length ids" using l by simp_all
    obtain s e where se: "rs ! i = (s, e)" by (cases "rs ! i")
    have r: "range_costs ?opt rs ! i = evaluate_node ?opt i s e" using i se by (simp add: range_costs_def nth_enumerate_eq)
    moreover have "range_costs ?opt rs ! i \<noteq> None" using assms(3) i by (simp add: placed_def)
    ultimately show "range_costs ?opt rs ! i = map (\<lambda>(nid, s, e). Some (nc_total_time_ms (pcm_evaluate pm nid s e b q None))) (zip ids rs) ! i"
      using i se by (simp add: evaluate_node_def Let_def node_time_one cost_model_of_evaluate [of _ pm] split: if_splits)
  qed (use l in simp)
  have "zip ids rs \<noteq> []" using l assms(2) by (cases ids; cases rs) auto
  then show ?thesis
    unfolding pcm_max_latency_def bottleneck_def part_cost_def c evaluate_partition_aligned [OF assms(1) l] Let_def
    by (simp add: image_image case_prod_beta)
qed

lemma triples_zip: "on_nodes opt L ps \<Longrightarrow> triples ps = zip (po_node_ids opt) (ranges ps)"
proof -
  assume "on_nodes opt L ps"
  then have "map pt_node_id ps = take (length (ranges ps)) (po_node_ids opt)" by (simp add: on_nodes_def)
  then have "zip (map pt_node_id ps) (ranges ps) = zip (po_node_ids opt) (ranges ps)" using take_zip [of "length (ranges ps)" "po_node_ids opt" "ranges ps"] by simp
  then show ?thesis by (simp add: triples_def ranges_def zip_map_map zip_same_conv_map comp_def)
qed



interpretation pcm: timed_costs "cost_model_of pm" for pm
  by unfold_locales (simp add: cost_model_of_def evaluate_time_nonneg)

lemma plan_time:
  fixes pm b q oom m ids
  defines "opt \<equiv> optimizer_init (cost_model_of pm) ids b q oom None m"
  assumes "aligned pm ids" and "1 < length (po_node_ids opt)" and "ps_points (po_solve opt L) \<noteq> []"
  shows "ps_max_node_time_ms (po_solve opt L) = round2 (pcm_max_latency pm (triples (ps_points (po_solve opt L))) b q)"
proof -
  have m: "1 \<le> po_min_layers opt" unfolding opt_def by (rule init_fields(2))
  have ids: "po_node_ids opt = ids" and cm: "po_cost_model opt = cost_model_of pm" by (simp_all add: opt_def)
  obtain ps where ps: "po_solve opt L = po_finalize opt ps" "on_nodes opt L ps" using solve_finalizes [OF assms(3) m assms(4)] .
  have ne: "ps \<noteq> []" using assms(4) by (simp add: ps(1))
  have l: "length (ranges ps) \<le> length ids" using ps(2) placed_nodes ids by (auto simp: on_nodes_def)
  have ev: "pcm_evaluate_partition pm (triples ps) b q = map (\<lambda>p. po_evaluate opt (pt_node_id p) (pt_start_layer p) (pt_end_layer p)) ps"
    unfolding triples_zip [OF ps(2)] ids evaluate_partition_aligned [OF assms(2) l] unfolding triples_zip [OF ps(2), unfolded ids, symmetric]
    by (simp add: triples_def opt_def cost_model_of_evaluate [of _ pm])
  have "triples (map (retime opt) ps) = triples ps" by (simp add: triples_def)
  then show ?thesis using ne pcm.finalize_time [OF cm ne] by (simp add: ps(1) pcm_max_latency_def bottleneck_def ev Let_def image_image)
qed

text \<open>C32: With one device per node and a topology that lists the nodes in their order, the plan found by table is the fastest on the
  cost model itself: no valid partition has a lower latency or, when the plan's latency is positive, a higher throughput, where
  both are computed with the actual predecessor of each node; and the reported slowest time is that latency, rounded.\<close>

theorem plan_fastest:
  assumes "aligned pm ids" and "2 \<le> length ids" and "L \<le> 200 \<or> length ids \<le> 8"
    and "ps_points (po_solve (optimizer_init (cost_model_of pm) ids b q oom None m) L) \<noteq> []"
  shows "let opt = optimizer_init (cost_model_of pm) ids b q oom None m; sol = po_solve opt L; plan = triples (ps_points sol); lat = pcm_max_latency pm plan b q
     in ps_max_node_time_ms sol = round2 lat
      \<and> (\<forall>rs. part_ok opt L rs \<longrightarrow> lat \<le> pcm_max_latency pm (zip ids rs) b q
           \<and> (0 < lat \<longrightarrow> pcm_combined_throughput pm (zip ids rs) b q \<le> pcm_combined_throughput pm plan b q))"
proof -
  let ?opt = "optimizer_init (cost_model_of pm) ids b q oom None m"
  let ?sol = "po_solve ?opt L"
  let ?ps = "ps_points ?sol"
  let ?lat = "\<lambda>part. pcm_max_latency pm part b q"
  have c: "1 < length (po_node_ids ?opt)" "\<not> (200 < L \<and> 8 < length (po_node_ids ?opt))" using assms(2,3) by auto
  note opt = solve_optimal [OF c init_fields(2)]
  have on: "on_nodes ?opt L ?ps" using solve_placed(1) [OF c(1) init_fields(2) assms(4)] .
  then have tr: "triples ?ps = zip ids (ranges ?ps)" by (simp add: triples_zip)
  have ne: "ranges ?ps \<noteq> []" using assms(4) by (simp add: ranges_def)
  have pl: "placed ?opt L (length ?ps) (ranges ?ps)" using on by (simp add: on_nodes_def)
  have cost: "part_cost ?opt (ranges ?ps) = ?lat (triples ?ps)"
    unfolding tr by (rule part_cost_latency [OF assms(1) ne pl])
  have le: "?lat (triples ?ps) \<le> ?lat (zip ids rs)" if ok: "part_ok ?opt L rs" for rs
    using opt(3) [OF ok] part_cost_latency [OF assms(1) _ part_ok_placed [OF ok]] ok cost by (simp add: part_ok_def)
  have thr: "pcm_combined_throughput pm part b q = (if ?lat part \<le> 0 then 0 else of_nat (b * q) / (?lat part / 1000))" for part
    by (simp add: pcm_combined_throughput_def pcm_max_latency_def Let_def)
  have "pcm_combined_throughput pm (zip ids rs) b q \<le> pcm_combined_throughput pm (triples ?ps) b q" if "part_ok ?opt L rs" "0 < ?lat (triples ?ps)" for rs
    using le [OF that(1)] that(2) unfolding thr by (auto simp del: of_nat_mult intro!: divide_left_mono divide_right_mono)
  moreover have "ps_max_node_time_ms ?sol = round2 (?lat (triples ?ps))" by (rule plan_time [OF assms(1) c(1) assms(4)])
  ultimately show ?thesis using le by (simp add: Let_def)
qed


lemma isqrt_bounds: "isqrt n * isqrt n \<le> n \<and> n < (isqrt n + 1) * (isqrt n + 1)"
proof (induction n rule: isqrt.induct)
  case (1 n)
  show ?case
  proof (cases "n = 0")
    case False
    define r where "r = isqrt (n div 4)"
    have "r * r \<le> n div 4" "n div 4 < (r + 1) * (r + 1)" using 1 [OF False] by (simp_all add: r_def)
    then have "4 * (r * r) \<le> n" "n < 4 * ((r + 1) * (r + 1))" by linarith+
    then show ?thesis by (subst (1 2 3 4) isqrt.simps) (auto simp: False r_def [symmetric] Let_def algebra_simps)
  qed (simp add: isqrt.simps)
qed

section \<open>The partitioner\<close>

definition hp_run :: "(config_key \<Rightarrow> string) \<Rightarrow> ((string list \<Rightarrow> topology_graph) \<times> gpu_profile list \<times> partition_request) list \<Rightarrow> partitioner \<Rightarrow> partitioner" where
  "hp_run digest calls hp = fold (\<lambda>(probe, profiles, rq) hp. snd (hp_partition digest probe profiles rq hp)) calls hp"

definition plan_covers :: "partitioner \<Rightarrow> bool" where
  "plan_covers hp \<longleftrightarrow> (\<forall>sol. hp_solution hp = Some sol \<longrightarrow> ps_points sol = [] \<or> tiles 0 (length (hp_layer_weights hp)) (ranges (ps_points sol)))"

lemma solve_covers: "po_node_ids opt \<noteq> [] \<Longrightarrow> 1 \<le> po_min_layers opt \<Longrightarrow> 0 < L \<Longrightarrow> ps_points (po_solve opt L) = [] \<or> tiles 0 L (ranges (ps_points (po_solve opt L)))"
proof (cases "length (po_node_ids opt) = 1")
  case True
  moreover assume "po_node_ids opt \<noteq> []" "0 < L"
  ultimately show ?thesis by (auto simp: po_solve_def single_node_solution_def ranges_def Let_def)
next
  case False
  moreover assume "po_node_ids opt \<noteq> []" and m: "1 \<le> po_min_layers opt"
  ultimately have "1 < length (po_node_ids opt)" by (cases "po_node_ids opt") auto
  then show ?thesis using solve_placed(1) [OF _ m] by (auto simp: on_nodes_def placed_def)
qed

lemma plan_nodes_ne: "plan_nodes hp rq \<noteq> []"
  by (simp add: plan_nodes_def split: option.splits list.splits)

lemma estimate_length: "length (estimate_layer_weights h mid n heads hdim v bytes) = n + 2"
  by (simp add: estimate_layer_weights_def Let_def)

lemma partition_covers: "plan_covers hp \<Longrightarrow> plan_covers (snd (hp_partition digest probe profiles rq hp))"
proof -
  assume ok: "plan_covers hp"
  show ?thesis
  proof (cases "if digest (compute_config_key hp rq) = hp_last_config_hash hp \<and> rq_model_name rq = hp_last_model_name hp then hp_solution hp else None")
    case None
    then show ?thesis unfolding hp_partition_def Let_def None plan_covers_def
      using solve_covers [OF _ init_fields(2)] plan_nodes_ne by (auto simp: estimate_length)
  qed (use ok in \<open>simp add: hp_partition_def\<close>)
qed

lemma run_covers: "plan_covers hp \<Longrightarrow> plan_covers (hp_run digest calls hp)"
  unfolding hp_run_def by (induction calls arbitrary: hp) (auto simp: partition_covers)

lemma tiles_layers: "tiles a b rs \<Longrightarrow> concat (map (\<lambda>(s, e). [s..<e]) rs) = [a..<b]"
proof (induction a b rs rule: tiles.induct)
  case (2 a b s e rs)
  then show ?case using tiles_count [of e b rs] upt_add_eq_append [of s e "b - e"] by auto
qed simp

text \<open>After any sequence of partitioning calls on a fresh partitioner, cached or not, the layer assignment it hands out names every
  layer of the current model exactly once, in order, with its type, unless there is no plan.\<close>

theorem assignments_complete:
  "case get_layer_assignments (hp_run digest calls (partitioner_init b q oom)) of
     None \<Rightarrow> calls = []
   | Some xs \<Rightarrow> xs = [] \<or> map (\<lambda>(i, nid, t). (i, t)) xs = enumerate 0 (map lw_layer_type (hp_layer_weights (hp_run digest calls (partitioner_init b q oom))))"
proof -
  let ?hp = "hp_run digest calls (partitioner_init b q oom)"
  have some: "hp_solution (snd (hp_partition digest probe profiles rq hp)) \<noteq> None" for probe profiles rq hp
    by (auto simp: hp_partition_def Let_def split: option.splits if_splits)
  have "calls = []" if "hp_solution ?hp = None"
    using that by (cases calls rule: rev_cases) (auto simp: hp_run_def some)
  moreover have "xs = [] \<or> map (\<lambda>(i, nid, t). (i, t)) xs = enumerate 0 (map lw_layer_type (hp_layer_weights ?hp))"
    if sol: "hp_solution ?hp = Some sol" and xs: "get_layer_assignments ?hp = Some xs" for sol xs
  proof (cases "ps_points sol = []")
    case False
    let ?ws = "hp_layer_weights ?hp"
    have "plan_covers ?hp" by (rule run_covers) (simp add: plan_covers_def partitioner_init_def)
    then have "tiles 0 (length ?ws) (ranges (ps_points sol))" using sol False by (auto simp: plan_covers_def)
    from tiles_layers [OF this] have "concat (map (\<lambda>p. [pt_start_layer p..<pt_end_layer p]) (ps_points sol)) = [0..<length ?ws]"
      by (simp add: ranges_def comp_def)
    moreover have "map (\<lambda>(i, nid, t). (i, t)) xs = map (\<lambda>i. (i, if i < length ?ws then lw_layer_type (?ws ! i) else ''unknown'')) (concat (map (\<lambda>p. [pt_start_layer p..<pt_end_layer p]) (ps_points sol)))"
      using xs sol by (auto simp: get_layer_assignments_def map_concat comp_def)
    ultimately show ?thesis by (auto intro!: nth_equalityI simp: nth_enumerate_eq)
  qed (use xs sol in \<open>simp add: get_layer_assignments_def\<close>)
  ultimately show ?thesis by (auto simp: get_layer_assignments_def split: option.splits)
qed

text \<open>A later call with the same key gets the old plan, whatever the devices, the topology and the GPU counts are by then.\<close>

lemma partition_reuses_plan:
  assumes "compute_config_key hp rq' = compute_config_key hp rq" and "rq_model_name rq' = rq_model_name rq"
  shows "fst (hp_partition digest probe' profiles' rq' (snd (hp_partition digest probe profiles rq hp))) = fst (hp_partition digest probe profiles rq hp)"
proof -
  obtain sol hp' where r: "hp_partition digest probe profiles rq hp = (sol, hp')" by (cases "hp_partition digest probe profiles rq hp")
  then have s: "hp_solution hp' = Some sol" "hp_last_config_hash hp' = digest (compute_config_key hp rq)" "hp_last_model_name hp' = rq_model_name rq"
    "compute_config_key hp' rq' = compute_config_key hp rq'"
    by (auto simp: hp_partition_def Let_def compute_config_key_def split: option.splits if_splits)
  then show ?thesis using assms r by (simp add: hp_partition_def)
qed

lemma reorder_nodes_same_key:
  "mset ids = mset ids' \<Longrightarrow> compute_config_key hp (rq\<lparr>rq_node_ids := Some ids, rq_gpu_counts := g, rq_head_dim := d\<rparr>) = compute_config_key hp (rq\<lparr>rq_node_ids := Some ids'\<rparr>)"
  by (simp add: compute_config_key_def) (metis properties_for_sort sorted_sort mset_sort)

text \<open>With the default node names no device profile is ever used: every node is estimated as a processor without memory limit.\<close>

lemma default_nodes_ignore_gpus:
  assumes "rq_node_ids rq = None \<or> rq_node_ids rq = Some []" and "nid \<in> set (plan_nodes hp rq)"
  shows "pcm_evaluate (pcm_init (Inl profiles) ws topo order) nid s e b q prev = pcm_evaluate (pcm_init (Inl []) ws topo order) nid s e b q prev"
    and "nc_memory_bytes (pcm_evaluate (pcm_init (Inl profiles) ws topo order) nid s e b q prev) = 0"
proof -
  obtain k where nid: "nid = ''node-'' @ dec k" using assms by (auto simp: plan_nodes_def split: if_splits)
  have "CHR ''n'' \<notin> set (dec j)" for j using dec_digits [of "CHR ''n''" j] by auto
  then have "nid \<noteq> dec j" for j by (metis nid append_Cons list.set_intros(1))
  then have "map_of (fold (\<lambda>p. AList.update (dec (gp_gpu_id p)) p) ps d) nid = map_of d nid" for ps :: "gpu_profile list" and d by (induction ps arbitrary: d) auto
  then have none: "map_of (pm_gpu_profiles (pcm_init (Inl ps) ws topo order)) nid = None" for ps by (simp add: pcm_init_def)
  have f: "pm_layer_weights (pcm_init (Inl ps) ws topo order) = ws" for ps by (simp add: pcm_init_def)
  show "pcm_evaluate (pcm_init (Inl profiles) ws topo order) nid s e b q prev = pcm_evaluate (pcm_init (Inl []) ws topo order) nid s e b q prev"
    "nc_memory_bytes (pcm_evaluate (pcm_init (Inl profiles) ws topo order) nid s e b q prev) = 0"
    by (simp_all add: pcm_evaluate_def none f Let_def blank_cost_def cpu_cost_def)
qed


section \<open>A sample model\<close>

definition sample_pm :: part_cost_model where
  "sample_pm = pcm_init (Inr (map (\<lambda>(n, t). (n, \<lparr>gp_gpu_id = 0, gp_total_memory_bytes = 160, gp_compute_tflops = t, gp_memory_bandwidth_gbps = 1 / 1000000\<rparr>)) [(''a'', 1), (''b'', 2)]))
     (estimate_layer_weights 2 2 1 1 2 4 2)
     \<lparr>tg_node_ids = [''a'', ''b''], tg_links = [\<lparr>lk_source = ''a'', lk_target = ''b'', lk_bandwidth_gbps = 1 / 1000000, lk_latency_us = 100, lk_is_nvlink = False, lk_is_infiniband = False\<rparr>]\<rparr> None"

abbreviation sample_plan :: "bool \<Rightarrow> partition_solution" where
  "sample_plan oom \<equiv> po_solve (optimizer_init (cost_model_of sample_pm) [''a'', ''b''] 1 2 oom None 1) 3"

lemma sample_aligned: "aligned sample_pm [''a'', ''b'']"
  by (simp add: aligned_def sample_pm_def pcm_init_def)

lemma sample_costs:
  "nc_fits_in_memory (pcm_evaluate sample_pm ''a'' 0 1 1 2 None) \<and> nc_total_time_ms (pcm_evaluate sample_pm ''a'' 0 1 1 2 None) = 1536 / 10"
  "nc_fits_in_memory (pcm_evaluate sample_pm ''b'' 1 3 1 2 None) \<and> nc_total_time_ms (pcm_evaluate sample_pm ''b'' 1 3 1 2 None) = 92009 / 100"
  by code_simp+

lemma sample_part_ok: "part_ok (optimizer_init (cost_model_of sample_pm) [''a'', ''b''] 1 2 False None 1) 3 [(0, 1), (1, 3)]"
  using sample_costs by (simp add: part_ok_def range_costs_def evaluate_node_def cost_model_of_evaluate [of _ sample_pm] Let_def optimizer_init_def)

lemma sample_has_plan: "ps_points (sample_plan False) \<noteq> []"
  using solve_optimal(1) [of "optimizer_init (cost_model_of sample_pm) [''a'', ''b''] 1 2 False None 1" 3, OF _ _ init_fields(2)] sample_part_ok by auto

lemma sample_latency: "pcm_max_latency sample_pm (zip [''a'', ''b''] [(0, 1), (1, 3)]) 1 2 = 92009 / 100"
proof -
  have "pcm_evaluate_partition sample_pm (zip [''a'', ''b''] [(0, 1), (1, 3)]) 1 2 = [pcm_evaluate sample_pm ''a'' 0 1 1 2 None, pcm_evaluate sample_pm ''b'' 1 3 1 2 None]"
    using evaluate_partition_aligned [OF sample_aligned, of "[(0, 1), (1, 3)]" 1 2] by simp
  then show ?thesis unfolding pcm_max_latency_def Let_def bottleneck_def
    using sample_costs [THEN conjunct2] by (simp only: list.distinct if_False list.map list.set Max_insert Max_singleton finite.intros insert_not_empty not_False_eq_True)
qed


theorem plan_fastest_witness:
  "let plan = triples (ps_points (sample_plan False)) in pcm_max_latency sample_pm plan 1 2 \<le> 92009 / 100 \<and> ps_max_node_time_ms (sample_plan False) = round2 (pcm_max_latency sample_pm plan 1 2)"
  using plan_fastest [OF sample_aligned _ _ sample_has_plan] sample_part_ok sample_latency unfolding Let_def by fastforce

end
