(* ===== verification/SpecVerify.thy ===== *)
theory SpecVerify
  imports Prelude Complex_Main
begin

text \<open>
  The acceptance of draft tokens in speculative decoding: \<^verbatim>\<open>src/distllm/core/spec_verify.py\<close> and the draft trees of
  \<^verbatim>\<open>src/distllm/core/draft_tree.py\<close>. A tensor of logits is the list of its rows, which stay opaque: the arg max of a row and the
  probability it gives to a token at a temperature are arguments, like the draws of the random generator. Token ids are
  those of the vocabulary.
\<close>

section \<open>Accepting one token\<close>

text \<open>The tensor library's view of the target's logits.\<close>

record 'r target =
  tg_argmax :: "'r \<Rightarrow> nat"
  tg_prob :: "'r \<Rightarrow> rat \<Rightarrow> nat \<Rightarrow> rat"
  tg_rows :: "'r list"
  tg_vocab :: nat

text \<open>Indexing with a negative position counts from the end.\<close>

definition row_at :: "'r list \<Rightarrow> int \<Rightarrow> py_error + 'r" where
  "row_at rows i =
     (let j = (if i < 0 then i + int (length rows) else i) in if 0 \<le> j \<and> j < int (length rows) then Inr (rows ! nat j) else Inl IndexError)"

definition prefix_len :: "nat list \<Rightarrow> int" where
  "prefix_len prefix = int (length prefix) - 1"

definition acceptance :: "nat \<Rightarrow> rat \<Rightarrow> rat option \<Rightarrow> rat" where
  "acceptance vocab p q = (case q of Some q \<Rightarrow> min 1 (p / q) | None \<Rightarrow> min 1 (p * of_nat vocab))"

text \<open>The draw is the next number of the generator; a draft probability that is not positive rejects without drawing.\<close>

definition accept_token :: "'r target \<Rightarrow> int \<Rightarrow> nat \<Rightarrow> rat option \<Rightarrow> rat \<Rightarrow> nat option \<Rightarrow> rat \<Rightarrow> py_error + bool" where
  "accept_token tg pos tok q temp vocab draw =
     (case row_at (tg_rows tg) pos of
        Inl err \<Rightarrow> Inl err
      | Inr row \<Rightarrow>
          if temp = 0 then Inr (tg_argmax tg row = tok)
          else let p = tg_prob tg row temp tok in
               case q of
                 Some q' \<Rightarrow> if q' \<le> 0 then Inr False else Inr (draw < acceptance (tg_vocab tg) p q)
               | None \<Rightarrow> Inr (draw < acceptance (case vocab of None \<Rightarrow> tg_vocab tg | Some v \<Rightarrow> v) p None))"

section \<open>Accepting a chain\<close>

text \<open>Element-wise operations broadcast an operand of length one.\<close>

definition broadcast :: "'a list \<Rightarrow> 'b list \<Rightarrow> py_error + ('a \<times> 'b) list" where
  "broadcast xs ys =
     (if length xs = length ys then Inr (zip xs ys)
      else if length xs = 1 then Inr (map (\<lambda>y. (hd xs, y)) ys)
      else if length ys = 1 then Inr (map (\<lambda>x. (x, hd ys)) xs)
      else Inl RuntimeError)"

fun rows_from :: "'r list \<Rightarrow> int \<Rightarrow> nat \<Rightarrow> py_error + 'r list" where
  "rows_from rows i 0 = Inr []"
| "rows_from rows i (Suc n) =
     (case row_at rows i of Inl err \<Rightarrow> Inl err | Inr r \<Rightarrow> (case rows_from rows (i + 1) n of Inl err \<Rightarrow> Inl err | Inr rs \<Rightarrow> Inr (r # rs)))"

definition leading_true :: "bool list \<Rightarrow> nat" where
  "leading_true bs = length (takeWhile (\<lambda>b. b) bs)"

definition accept_tokens_batched :: "'r target \<Rightarrow> int \<Rightarrow> nat list \<Rightarrow> rat list option \<Rightarrow> rat \<Rightarrow> nat option \<Rightarrow> (nat \<Rightarrow> rat) \<Rightarrow> py_error + nat" where
  "accept_tokens_batched tg first_pos draft qs temp vocab draw =
     (let n = length draft;
          usable = nat (min (int n) (max 0 (int (length (tg_rows tg)) - first_pos)))
      in if usable = 0 then Inr 0
         else case rows_from (tg_rows tg) first_pos usable of
           Inl err \<Rightarrow> Inl err
         | Inr rows \<Rightarrow>
             let ids = take usable draft;
                 finish = (\<lambda>matches. leading_true (matches @ replicate (n - usable) False))
             in if temp = 0 then Inr (finish (map2 (\<lambda>row tok. tg_argmax tg row = tok) rows ids))
                else let p = map2 (\<lambda>row tok. tg_prob tg row temp tok) rows ids;
                         acc = (case qs of
                            Some qs' \<Rightarrow> (case broadcast p (take usable qs') of
                               Inl err \<Rightarrow> Inl err
                             | Inr pqs \<Rightarrow> Inr (map (\<lambda>(p, q). if q > 0 then acceptance (tg_vocab tg) p (Some q) else 0) pqs))
                          | None \<Rightarrow> Inr (map (\<lambda>p. acceptance (case vocab of None \<Rightarrow> tg_vocab tg | Some v \<Rightarrow> v) p None) p))
                     in case acc of
                          Inl err \<Rightarrow> Inl err
                        | Inr as \<Rightarrow> (case broadcast (map draw [0..<usable]) as of Inl err \<Rightarrow> Inl err | Inr das \<Rightarrow> Inr (finish (map (\<lambda>(d, a). d < a) das))))"

definition verify_chain :: "nat list \<Rightarrow> nat list \<Rightarrow> 'r target \<Rightarrow> rat list option \<Rightarrow> rat \<Rightarrow> nat option \<Rightarrow> (nat \<Rightarrow> rat) \<Rightarrow> py_error + nat" where
  "verify_chain prefix draft tg qs temp vocab draw = accept_tokens_batched tg (prefix_len prefix) draft qs temp vocab draw"

section \<open>End of sequence\<close>

fun eos_scan :: "nat list \<Rightarrow> nat \<Rightarrow> nat \<Rightarrow> nat" where
  "eos_scan [] eos i = i"
| "eos_scan (t # ts) eos i = (if t = eos then i + 1 else eos_scan ts eos (i + 1))"

definition eos_cutoff :: "nat list \<Rightarrow> nat option \<Rightarrow> nat" where
  "eos_cutoff tokens eos = (case eos of None \<Rightarrow> length tokens | Some e \<Rightarrow> eos_scan tokens e 0)"

section \<open>The mask of accepted positions\<close>

fun greedy_mask :: "nat list \<Rightarrow> nat list \<Rightarrow> bool list" where
  "greedy_mask [] ts = []"
| "greedy_mask (d # ds) ts = (case ts of t # ts' \<Rightarrow> if d = t then True # greedy_mask ds ts' else [False] | [] \<Rightarrow> [False])"

fun sampled_mask :: "nat list \<Rightarrow> nat list \<Rightarrow> rat list \<Rightarrow> rat list \<Rightarrow> (nat \<Rightarrow> rat) \<Rightarrow> nat \<Rightarrow> py_error + bool list" where
  "sampled_mask [] ts qs ps draw j = Inr []"
| "sampled_mask (d # ds) ts qs ps draw j =
     (if j \<ge> length ts then Inr [False]
      else let q = (if j < length qs then qs ! j else 0) in
           if j \<ge> length ps then Inl IndexError
           else if q \<le> 0 then Inr [False]
           else if draw j < min 1 (ps ! j / q) then (case sampled_mask ds ts qs ps draw (j + 1) of Inl err \<Rightarrow> Inl err | Inr m \<Rightarrow> Inr (True # m))
           else Inr [False])"

definition pad_false :: "nat \<Rightarrow> bool list \<Rightarrow> bool list" where
  "pad_false n m = m @ replicate (n - length m) False"

definition verify_draft_acceptance :: "nat list \<Rightarrow> nat list \<Rightarrow> rat list option \<Rightarrow> rat list option \<Rightarrow> (nat \<Rightarrow> rat) \<Rightarrow> py_error + bool list" where
  "verify_draft_acceptance draft target qs ps draw =
     (case qs of
        None \<Rightarrow> Inr (pad_false (length draft) (greedy_mask draft target))
      | Some qs' \<Rightarrow> (case ps of
           None \<Rightarrow> Inl ValueError
         | Some ps' \<Rightarrow> (case sampled_mask draft target qs' ps' draw 0 of Inl err \<Rightarrow> Inl err | Inr m \<Rightarrow> Inr (pad_false (length draft) m))))"

section \<open>Draft trees\<close>

datatype tree_node = TreeNode (tn_token: nat) (tn_logprob: rat) (tn_children: "tree_node list") (tn_depth: nat)

fun tn_flatten :: "tree_node \<Rightarrow> nat list list" where
  "tn_flatten (TreeNode t lp cs d) = (if cs = [] then [[t]] else concat (map (\<lambda>c. map (Cons t) (tn_flatten c)) cs))"

text \<open>The draft model proposes candidates with their log-probabilities for a context.\<close>

fun expand_node :: "(nat list \<Rightarrow> (nat \<times> rat) list) \<Rightarrow> nat \<Rightarrow> nat list \<Rightarrow> nat \<Rightarrow> tree_node list" where
  "expand_node draft 0 ctx depth = []"
| "expand_node draft (Suc left) ctx depth = map (\<lambda>(t, lp). TreeNode t lp (expand_node draft left (ctx @ [t]) (depth + 1)) (depth + 1)) (draft ctx)"

definition generate_tree :: "(nat list \<Rightarrow> (nat \<times> rat) list) \<Rightarrow> nat \<Rightarrow> nat list \<Rightarrow> tree_node" where
  "generate_tree draft max_depth prefix = TreeNode 0 0 (expand_node draft max_depth prefix 0) 0"

record tree_result =
  tv_accepted_tokens :: "nat list"
  tv_accepted_count :: nat
  tv_best_path :: "nat list"
  tv_total_candidates :: nat

text \<open>A path is followed while its tokens are accepted; the random numbers come from a new generator per token, seeded with the count so far.\<close>

fun walk_path :: "'r target \<Rightarrow> rat \<Rightarrow> nat option \<Rightarrow> (nat option \<Rightarrow> rat) \<Rightarrow> int \<Rightarrow> nat list \<Rightarrow> nat \<Rightarrow> py_error + nat" where
  "walk_path tg temp seed rand pos [] acc = Inr acc"
| "walk_path tg temp seed rand pos (t # ts) acc =
     (if pos \<ge> int (length (tg_rows tg)) then Inr acc
      else case accept_token tg pos t None temp (Some (tg_vocab tg)) (rand (map_option (\<lambda>s. s + acc) seed)) of
             Inl err \<Rightarrow> Inl err
           | Inr ok \<Rightarrow> if ok then walk_path tg temp seed rand (pos + 1) ts (acc + 1) else Inr acc)"

fun best_walk :: "'r target \<Rightarrow> rat \<Rightarrow> nat option \<Rightarrow> (nat option \<Rightarrow> rat) \<Rightarrow> int \<Rightarrow> nat list list \<Rightarrow> nat \<times> nat list \<Rightarrow> py_error + nat \<times> nat list" where
  "best_walk tg temp seed rand pos [] best = Inr best"
| "best_walk tg temp seed rand pos (p # ps) best =
     (case walk_path tg temp seed rand pos p 0 of
        Inl err \<Rightarrow> Inl err
      | Inr a \<Rightarrow> best_walk tg temp seed rand pos ps (if a > fst best then (a, take a p) else best))"

definition verify_tree :: "'r target \<Rightarrow> rat \<Rightarrow> nat option \<Rightarrow> (nat option \<Rightarrow> rat) \<Rightarrow> nat list \<Rightarrow> tree_node \<Rightarrow> py_error + tree_result" where
  "verify_tree tg temp seed rand prefix tree =
     (let paths = tn_flatten tree in
      case best_walk tg temp seed rand (int (length prefix) - 1) paths (0, []) of
        Inl err \<Rightarrow> Inl err
      | Inr (a, p) \<Rightarrow> Inr \<lparr>tv_accepted_tokens = p, tv_accepted_count = a, tv_best_path = p, tv_total_candidates = sum_list (map length paths)\<rparr>)"


section \<open>The batched kernel and the sequential loop\<close>

text \<open>The loop the batched kernel replaces: one decision per token, up to the first rejection or the last row.\<close>

fun accept_seq :: "'r target \<Rightarrow> int \<Rightarrow> nat list \<Rightarrow> (nat \<Rightarrow> rat option) \<Rightarrow> rat \<Rightarrow> nat option \<Rightarrow> (nat \<Rightarrow> rat) \<Rightarrow> nat \<Rightarrow> py_error + nat" where
  "accept_seq tg pos [] q temp vocab draw i = Inr i"
| "accept_seq tg pos (t # ts) q temp vocab draw i =
     (if pos \<ge> int (length (tg_rows tg)) then Inr i
      else case accept_token tg pos t (q i) temp vocab (draw i) of
             Inl err \<Rightarrow> Inl err
           | Inr ok \<Rightarrow> if ok then accept_seq tg (pos + 1) ts q temp vocab draw (i + 1) else Inr i)"

definition q_of :: "rat list option \<Rightarrow> nat \<Rightarrow> rat option" where
  "q_of qs i = (case qs of None \<Rightarrow> None | Some l \<Rightarrow> Some (l ! i))"

text \<open>Whether token \<open>i\<close> of a draft passes on its row.\<close>

definition passes :: "'r target \<Rightarrow> nat \<Rightarrow> nat list \<Rightarrow> (nat \<Rightarrow> rat option) \<Rightarrow> rat \<Rightarrow> nat option \<Rightarrow> (nat \<Rightarrow> rat) \<Rightarrow> nat \<Rightarrow> bool" where
  "passes tg fp draft q temp vocab draw i \<longleftrightarrow> accept_token tg (int (fp + i)) (draft ! i) (q i) temp vocab (draw i) = Inr True"

lemma leading_true_simps [simp]: "leading_true [] = 0" "leading_true (b # bs) = (if b then Suc (leading_true bs) else 0)"
  by (simp_all add: leading_true_def)

lemma leading_true_pad [simp]: "leading_true (bs @ replicate k False) = leading_true bs"
  by (induction bs) (auto simp: leading_true_def takeWhile_eq_Nil_iff hd_replicate)

lemma leading_true_le: "leading_true bs \<le> length bs"
  by (simp add: leading_true_def length_takeWhile_le)

lemma leading_true_nth: "i < leading_true bs \<Longrightarrow> bs ! i"
  unfolding leading_true_def by (metis nth_mem set_takeWhileD takeWhile_nth)

lemma leading_true_stop: "leading_true bs < length bs \<Longrightarrow> \<not> bs ! leading_true bs"
  unfolding leading_true_def by (rule nth_length_takeWhile)

lemma row_at_nat [simp]: "row_at rows (int i) = (if i < length rows then Inr (rows ! i) else Inl IndexError)"
  by (simp add: row_at_def)

lemma rows_from_nat: "i + n \<le> length rows \<Longrightarrow> rows_from rows (int i) n = Inr (take n (drop i rows))"
proof (induction n arbitrary: i)
  case (Suc n)
  have pos: "int i + 1 = int (Suc i)" by simp
  from Suc Suc.IH [of "Suc i"] show ?case by (simp add: pos Cons_nth_drop_Suc [symmetric] del: of_nat_Suc)
qed simp

lemma accept_token_bool: "pos < length (tg_rows tg) \<Longrightarrow> \<exists>b. accept_token tg (int pos) t q temp vocab d = Inr b"
  by (auto simp: accept_token_def Let_def split: option.splits)

definition usable_rows :: "'r target \<Rightarrow> nat \<Rightarrow> nat list \<Rightarrow> nat" where
  "usable_rows tg fp draft = min (length draft) (length (tg_rows tg) - fp)"

lemma accept_seq_count:
  "i \<le> usable_rows tg fp draft \<Longrightarrow>
   accept_seq tg (int (fp + i)) (drop i draft) q temp vocab draw i = Inr (i + leading_true (map (passes tg fp draft q temp vocab draw) [i..<usable_rows tg fp draft]))"
proof (induction "usable_rows tg fp draft - i" arbitrary: i)
  case 0
  then have i: "i = usable_rows tg fp draft" by simp
  show ?case
  proof (cases "drop i draft")
    case (Cons t ts)
    then have "i < length draft" by (metis drop_all not_le_imp_less list.distinct(1))
    then have "length (tg_rows tg) \<le> fp + i" using i by (auto simp: usable_rows_def)
    then have "accept_seq tg (int (fp + i)) (t # ts) q temp vocab draw i = Inr i" by simp
    then show ?thesis unfolding Cons using i by simp
  qed (use i in simp)
next
  case (Suc k)
  then have lt: "i < usable_rows tg fp draft" by simp
  then have i: "i < length draft" "fp + i < length (tg_rows tg)" by (auto simp: usable_rows_def)
  obtain b where b: "accept_token tg (int (fp + i)) (draft ! i) (q i) temp vocab (draw i) = Inr b" using accept_token_bool [OF i(2)] by blast
  have IH: "accept_seq tg (int (fp + Suc i)) (drop (Suc i) draft) q temp vocab draw (Suc i)
      = Inr (Suc i + leading_true (map (passes tg fp draft q temp vocab draw) [Suc i..<usable_rows tg fp draft]))" using Suc.hyps(1) [of "Suc i"] Suc.hyps(2) lt by simp
  have pos: "int (fp + i) + 1 = int (fp + Suc i)" by simp
  have up: "[i..<usable_rows tg fp draft] = i # [Suc i..<usable_rows tg fp draft]" using lt by (rule upt_conv_Cons)
  have "passes tg fp draft q temp vocab draw i = b" by (simp add: passes_def b del: of_nat_add)
  then show ?case unfolding up Cons_nth_drop_Suc [OF i(1), symmetric] using i(2) b IH
    by (simp add: pos del: of_nat_add of_nat_Suc upt.simps)
qed

lemma batched_count:
  assumes "\<And>l. qs = Some l \<Longrightarrow> length draft \<le> length l" and "\<And>i. 0 \<le> draw i"
  shows "accept_tokens_batched tg (int fp) draft qs temp vocab draw = Inr (leading_true (map (passes tg fp draft (q_of qs) temp vocab draw) [0..<usable_rows tg fp draft]))"
proof -
  let ?u = "usable_rows tg fp draft"
  let ?rows = "take ?u (drop fp (tg_rows tg))" and ?ids = "take ?u draft"
  have u: "nat (min (int (length draft)) (max 0 (int (length (tg_rows tg)) - int fp))) = ?u" by (auto simp: usable_rows_def)
  show ?thesis
  proof (cases "?u = 0")
    case False
    then have fp: "fp + ?u \<le> length (tg_rows tg)" and ud: "?u \<le> length draft" by (auto simp: usable_rows_def)
    have len: "length ?rows = ?u" "length ?ids = ?u" using fp ud by simp_all
    have row: "row_at (tg_rows tg) (int (fp + i)) = Inr (tg_rows tg ! (fp + i))" if "i < ?u" for i using that fp by (simp del: of_nat_add)
    note acc = accept_tokens_batched_def Let_def u rows_from_nat [OF fp]
    show ?thesis
    proof (cases "temp = 0")
      case True
      have "map2 (\<lambda>row tok. tg_argmax tg row = tok) ?rows ?ids = map (passes tg fp draft (q_of qs) temp vocab draw) [0..<?u]"
        using len by (intro nth_equalityI) (auto simp: passes_def accept_token_def row True simp del: of_nat_add)
      then show ?thesis unfolding acc using False True by simp
    next
      case T: False
      show ?thesis
      proof (cases qs)
        case None
        have "map (\<lambda>(d, a). d < a) (zip (map draw [0..<?u]) (map (\<lambda>p. acceptance (case vocab of None \<Rightarrow> tg_vocab tg | Some v \<Rightarrow> v) p None) (map2 (\<lambda>row tok. tg_prob tg row temp tok) ?rows ?ids)))
            = map (passes tg fp draft (q_of qs) temp vocab draw) [0..<?u]"
          using len by (intro nth_equalityI) (auto simp: passes_def accept_token_def row T None q_of_def Let_def simp del: of_nat_add)
        then show ?thesis unfolding acc using False T len by (simp add: None broadcast_def)
      next
        case (Some l)
        then have l: "length (take ?u l) = ?u" using assms(1) [OF Some] ud by simp
        have "map (\<lambda>(d, a). d < a) (zip (map draw [0..<?u]) (map (\<lambda>(p, q). if q > 0 then acceptance (tg_vocab tg) p (Some q) else 0) (zip (map2 (\<lambda>row tok. tg_prob tg row temp tok) ?rows ?ids) (take ?u l))))
            = map (passes tg fp draft (q_of qs) temp vocab draw) [0..<?u]"
          using len l assms(2) by (intro nth_equalityI) (auto simp: passes_def accept_token_def row T Some q_of_def Let_def not_less simp del: of_nat_add)
        then show ?thesis unfolding acc using False T len l by (simp add: Some broadcast_def)
      qed
    qed
  qed (simp add: accept_tokens_batched_def Let_def u [symmetric])
qed


text \<open>C35: The batched kernel decides a chain of draft tokens exactly as the loop over single decisions does, greedily or by rejection sampling
  with known or uniform draft probabilities, for every number of rows, if there is a draft probability for every token
  and random numbers are not negative.\<close>

theorem batched_is_sequential:
  assumes "\<forall>l. qs = Some l \<longrightarrow> length draft \<le> length l" and "\<forall>i. 0 \<le> draw i" and "prefix \<noteq> []"
  shows "verify_chain prefix draft tg qs temp vocab draw = accept_seq tg (prefix_len prefix) draft (q_of qs) temp vocab draw 0"
proof -
  have "prefix_len prefix = int (length prefix - 1)" using assms(3) by (cases prefix) (simp_all add: prefix_len_def)
  then show ?thesis using batched_count [of qs draft draw tg "length prefix - 1" temp vocab] assms(1,2) accept_seq_count [of 0 tg "length prefix - 1" draft "q_of qs" temp vocab draw]
    by (simp add: verify_chain_def)
qed

section \<open>Greedy decoding\<close>

abbreviation agrees :: "'r target \<Rightarrow> nat \<Rightarrow> nat list \<Rightarrow> bool list" where
  "agrees tg fp draft \<equiv> map2 (\<lambda>row tok. tg_argmax tg row = tok) (drop fp (tg_rows tg)) draft"

lemma greedy_passes: "map (passes tg fp draft q 0 vocab draw) [0..<usable_rows tg fp draft] = agrees tg fp draft"
  by (rule nth_equalityI) (auto simp: passes_def accept_token_def usable_rows_def min_def simp del: of_nat_add split: if_splits)

lemma greedy_ignores: "accept_tokens_batched tg pos draft qs 0 vocab draw = accept_tokens_batched tg pos draft None 0 vocab (\<lambda>_. 0)"
  unfolding accept_tokens_batched_def Let_def by (simp only: refl if_True)

lemma greedy_chain: "prefix \<noteq> [] \<Longrightarrow> verify_chain prefix draft tg qs 0 vocab draw = Inr (leading_true (agrees tg (length prefix - 1) draft))"
proof -
  assume "prefix \<noteq> []"
  then have p: "prefix_len prefix = int (length prefix - 1)" by (cases prefix) (simp_all add: prefix_len_def)
  show ?thesis unfolding verify_chain_def greedy_ignores [of _ _ _ qs] p
    using batched_count [of None draft "\<lambda>_. 0" tg "length prefix - 1" 0 vocab] by (simp add: greedy_passes)
qed

text \<open>What the target model alone would generate.\<close>

fun greedy :: "(nat list \<Rightarrow> nat) \<Rightarrow> nat list \<Rightarrow> nat \<Rightarrow> nat list" where
  "greedy nxt ctx 0 = []"
| "greedy nxt ctx (Suc k) = nxt ctx # greedy nxt (ctx @ [nxt ctx]) k"

lemma greedy_snoc: "greedy nxt ctx (Suc k) = greedy nxt ctx k @ [nxt (ctx @ greedy nxt ctx k)]"
proof (induction k arbitrary: ctx)
  case (Suc k)
  have "greedy nxt ctx (Suc (Suc k)) = nxt ctx # greedy nxt (ctx @ [nxt ctx]) (Suc k)" by simp
  also have "\<dots> = greedy nxt ctx (Suc k) @ [nxt (ctx @ greedy nxt ctx (Suc k))]" by (subst Suc.IH) simp
  finally show ?case .
qed simp

text \<open>The logits of the target on the prefix and the draft: each row predicts the token after its position.\<close>

definition causal_logits :: "(nat list \<Rightarrow> nat) \<Rightarrow> nat list \<Rightarrow> 'r target \<Rightarrow> bool" where
  "causal_logits nxt tokens tg \<longleftrightarrow> length (tg_rows tg) = length tokens \<and> (\<forall>j < length tokens. tg_argmax tg (tg_rows tg ! j) = nxt (take (j + 1) tokens))"

lemma causal_agrees:
  assumes "prefix \<noteq> []" and "causal_logits nxt (prefix @ draft) tg"
  shows "length (agrees tg (length prefix - 1) draft) = length draft"
    and "i < length draft \<Longrightarrow> agrees tg (length prefix - 1) draft ! i \<longleftrightarrow> nxt (prefix @ take i draft) = draft ! i"
proof -
  obtain x xs where p: "prefix = x # xs" using assms(1) by (cases prefix) auto
  show "length (agrees tg (length prefix - 1) draft) = length draft" using assms(2) by (simp add: causal_logits_def p)
  show "i < length draft \<Longrightarrow> agrees tg (length prefix - 1) draft ! i \<longleftrightarrow> nxt (prefix @ take i draft) = draft ! i"
    using assms(2) by (simp add: causal_logits_def p)
qed

text \<open>C34: Greedy speculative decoding loses nothing: if the target's logits on prefix and draft are those of a causal model, the chain
  verification accepts exactly the longest part of the draft that the target alone would have generated.\<close>

theorem greedy_lossless:
  assumes "prefix \<noteq> []" and "causal_logits nxt (prefix @ draft) tg"
  shows "\<exists>k \<le> length draft. verify_chain prefix draft tg qs 0 vocab draw = Inr k \<and> take k draft = greedy nxt prefix k
     \<and> (k < length draft \<longrightarrow> draft ! k \<noteq> greedy nxt prefix (k + 1) ! k)"
proof -
  let ?bs = "agrees tg (length prefix - 1) draft"
  let ?k = "leading_true ?bs"
  note ag = causal_agrees [OF assms]
  have le: "?k \<le> length draft" using leading_true_le [of ?bs] ag(1) by simp
  have tk: "take i draft = greedy nxt prefix i \<and> length (greedy nxt prefix i) = i" if "i \<le> ?k" for i using that
  proof (induction i)
    case (Suc i)
    then have "?bs ! i" "i < length draft" using leading_true_nth [of i ?bs] le by simp_all
    with ag(2) [of i] Suc show ?case by (simp add: greedy_snoc take_Suc_conv_app_nth del: greedy.simps(2))
  qed simp
  have "draft ! ?k \<noteq> greedy nxt prefix (?k + 1) ! ?k" if k: "?k < length draft"
  proof -
    have "\<not> ?bs ! ?k" using leading_true_stop [of ?bs] ag(1) k by simp
    then have "nxt (prefix @ greedy nxt prefix ?k) \<noteq> draft ! ?k" using ag(2) [OF k] tk [of ?k] by simp
    then show ?thesis using tk [of ?k] by (simp add: greedy_snoc nth_append del: greedy.simps(2))
  qed
  then show ?thesis using greedy_chain [OF assms(1), of draft tg qs vocab draw] le tk [of ?k] by blast
qed

lemma greedy_mask_block: "pad_false (length ds) (greedy_mask ds ts) = (let k = leading_true (map2 (=) ts ds) in replicate k True @ replicate (length ds - k) False)"
proof (induction ds arbitrary: ts)
  case (Cons d ds)
  show ?case
  proof (cases ts)
    case (Cons t ts')
    then show ?thesis using Cons.IH [of ts'] by (cases "d = t") (auto simp: pad_false_def Let_def)
  qed (simp add: pad_false_def)
qed (simp add: pad_false_def)

text \<open>The mask form of the decision is a leading block of accepted positions, as many as the chain verification accepts on the same rows.\<close>

theorem mask_matches_chain:
  assumes "prefix \<noteq> []"
  shows "\<exists>k. verify_chain prefix draft tg qs 0 vocab draw = Inr k
     \<and> verify_draft_acceptance draft (map (tg_argmax tg) (drop (length prefix - 1) (tg_rows tg))) None ps draw' = Inr (replicate k True @ replicate (length draft - k) False)"
proof -
  have "map2 (=) (map (tg_argmax tg) (drop (length prefix - 1) (tg_rows tg))) draft = agrees tg (length prefix - 1) draft"
    by (simp add: zip_map1 case_prod_beta)
  then show ?thesis using greedy_chain [OF assms, of draft tg qs vocab draw]
    by (intro exI [of _ "leading_true (agrees tg (length prefix - 1) draft)"]) (simp add: verify_draft_acceptance_def greedy_mask_block Let_def)
qed

lemma sampled_mask_block: "sampled_mask ds ts qs ps draw j = Inr m \<Longrightarrow> length m \<le> length ds \<and> (\<exists>k. m = replicate k True \<or> m = replicate k True @ [False])"
proof (induction ds ts qs ps draw j arbitrary: m rule: sampled_mask.induct)
  case (2 d ds ts qs ps draw j)
  let ?q = "if j < length qs then qs ! j else 0"
  show ?case
  proof (cases "j < length ts \<and> j < length ps \<and> \<not> ?q \<le> 0 \<and> draw j < min 1 (ps ! j / ?q)")
    case True
    with 2(2) obtain m' where m': "sampled_mask ds ts qs ps draw (j + 1) = Inr m'" "m = True # m'" by (auto simp: Let_def split: sum.splits if_splits)
    from True 2(1) [of ?q m'] m' obtain k where "length m' \<le> length ds" "m' = replicate k True \<or> m' = replicate k True @ [False]" by auto
    then show ?thesis using m'(2) by (auto intro: exI [of _ "Suc k"])
  next
    case False
    with 2(2) have "m = [False]" by (auto simp: Let_def split: sum.splits if_splits)
    then show ?thesis by (auto intro: exI [of _ 0])
  qed
qed (auto intro: exI [of _ 0])

lemma eos_scan_spec: "eos_scan ts e i = i + (if e \<in> set ts then Suc (length (takeWhile (\<lambda>t. t \<noteq> e) ts)) else length ts)"
  by (induction ts arbitrary: i) auto

text \<open>What may be emitted ends with the first end-of-sequence token, or is everything.\<close>

lemma eos_cutoff_spec:
  "e \<in> set ts \<Longrightarrow> take (eos_cutoff ts (Some e)) ts = takeWhile (\<lambda>t. t \<noteq> e) ts @ [e]"
  "e \<notin> set ts \<Longrightarrow> take (eos_cutoff ts (Some e)) ts = ts"
proof -
  assume "e \<in> set ts"
  then obtain ys zs where ts: "ts = ys @ e # zs" "e \<notin> set ys" using split_list_first by fastforce
  then have "takeWhile (\<lambda>t. t \<noteq> e) ts = ys" by (induction ys arbitrary: ts) auto
  then show "take (eos_cutoff ts (Some e)) ts = takeWhile (\<lambda>t. t \<noteq> e) ts @ [e]" using ts(1) by (simp add: eos_cutoff_def eos_scan_spec)
qed (simp add: eos_cutoff_def eos_scan_spec)

section \<open>Draft trees\<close>

lemma greedy_walk: "walk_path tg 0 seed rand (int fp) ts acc = Inr (acc + leading_true (agrees tg fp ts))"
proof (induction ts arbitrary: fp acc)
  case (Cons t ts)
  have pos: "int fp + 1 = int (Suc fp)" by simp
  show ?case
  proof (cases "fp < length (tg_rows tg)")
    case True
    then show ?thesis using Cons.IH [of "Suc fp" "acc + 1"]
      by (simp add: pos accept_token_def Cons_nth_drop_Suc [symmetric] del: of_nat_Suc)
  qed simp
qed simp

lemma best_walk_greedy:
  "\<exists>a q. best_walk tg 0 seed rand (int fp) ps best = Inr (a, q) \<and> fst best \<le> a \<and> (\<forall>p \<in> set ps. leading_true (agrees tg fp p) \<le> a)
     \<and> ((a, q) = best \<or> (\<exists>p \<in> set ps. q = take a p \<and> a = leading_true (agrees tg fp p)))"
proof (induction ps arbitrary: best)
  case (Cons p ps)
  let ?n = "leading_true (agrees tg fp p)"
  let ?b = "if ?n > fst best then (?n, take ?n p) else best"
  obtain a q where r: "best_walk tg 0 seed rand (int fp) ps ?b = Inr (a, q)" "fst ?b \<le> a" "\<forall>p \<in> set ps. leading_true (agrees tg fp p) \<le> a"
    "(a, q) = ?b \<or> (\<exists>p \<in> set ps. q = take a p \<and> a = leading_true (agrees tg fp p))" using Cons [of ?b] by blast
  have "best_walk tg 0 seed rand (int fp) (p # ps) best = Inr (a, q)" using r(1) by (simp add: greedy_walk)
  then show ?case using r(2-4) by (intro exI [of _ a] exI [of _ q]) (auto split: if_splits)
next
  case Nil
  then show ?case by (cases best) simp
qed

lemma flatten_ne: "tn_flatten t \<noteq> []"
proof (induction t rule: tn_flatten.induct)
  case (1 t lp cs d)
  then show ?case by (cases cs) auto
qed

text \<open>Greedy verification of a draft tree returns the longest agreement with the target over all paths from the root to a leaf, and the part of such a path.\<close>

theorem verify_tree_longest:
  assumes "prefix \<noteq> []"
  shows "\<exists>r. verify_tree tg 0 seed rand prefix tree = Inr r
     \<and> (\<forall>p \<in> set (tn_flatten tree). leading_true (agrees tg (length prefix - 1) p) \<le> tv_accepted_count r)
     \<and> (\<exists>p \<in> set (tn_flatten tree). tv_accepted_tokens r = take (tv_accepted_count r) p \<and> tv_accepted_count r = leading_true (agrees tg (length prefix - 1) p))"
proof -
  let ?fp = "length prefix - 1"
  have pos: "int (length prefix) - 1 = int ?fp" using assms by (cases prefix) simp_all
  obtain a q where r: "best_walk tg 0 seed rand (int ?fp) (tn_flatten tree) (0, []) = Inr (a, q)" "\<forall>p \<in> set (tn_flatten tree). leading_true (agrees tg ?fp p) \<le> a"
    "(a, q) = (0, []) \<or> (\<exists>p \<in> set (tn_flatten tree). q = take a p \<and> a = leading_true (agrees tg ?fp p))"
    using best_walk_greedy [of tg seed rand ?fp "tn_flatten tree" "(0, [])"] by blast
  have "\<exists>p \<in> set (tn_flatten tree). q = take a p \<and> a = leading_true (agrees tg ?fp p)"
  proof (cases "(a, q) = (0, [])")
    case True
    obtain p where "p \<in> set (tn_flatten tree)" using flatten_ne [of tree] by (cases "tn_flatten tree") auto
    with True r(2) show ?thesis by (intro bexI [of _ p]) auto
  qed (use r(3) in blast)
  then show ?thesis using r(1,2) by (simp add: verify_tree_def pos)
qed

lemma generated_paths: "p \<in> set (tn_flatten (generate_tree draft d ctx)) \<Longrightarrow> \<exists>q. p = 0 # q"
  by (auto simp: generate_tree_def split: if_splits)

text \<open>C36: A generated tree starts with a placeholder root of token zero that is part of every path: unless the target predicts token zero itself
  after the prefix, greedy verification of the tree accepts nothing, whatever the draft model proposed.\<close>

theorem tree_root_blocks_acceptance:
  assumes "prefix \<noteq> []" and "length prefix \<le> length (tg_rows tg)" and "tg_argmax tg (tg_rows tg ! (length prefix - 1)) \<noteq> 0"
  shows "\<exists>r. verify_tree tg 0 seed rand prefix (generate_tree draft d prefix) = Inr r \<and> tv_accepted_count r = 0 \<and> tv_accepted_tokens r = []"
proof -
  let ?fp = "length prefix - 1" and ?ps = "tn_flatten (generate_tree draft d prefix)"
  have pos: "int (length prefix) - 1 = int ?fp" and fp: "?fp < length (tg_rows tg)" using assms(1,2) by (cases prefix; simp)+
  have z: "leading_true (agrees tg ?fp p) = 0" if p: "p \<in> set ?ps" for p
  proof -
    obtain q where "p = 0 # q" using generated_paths [OF p] by blast
    then show ?thesis unfolding Cons_nth_drop_Suc [OF fp, symmetric] using assms(3) by simp
  qed
  obtain a q where r: "best_walk tg 0 seed rand (int ?fp) ?ps (0, []) = Inr (a, q)" "(a, q) = (0, []) \<or> (\<exists>p \<in> set ?ps. q = take a p \<and> a = leading_true (agrees tg ?fp p))"
    using best_walk_greedy [of tg seed rand ?fp ?ps "(0, [])"] by blast
  then have "a = 0 \<and> q = []" using z by auto
  then show ?thesis using r(1) by (simp add: verify_tree_def pos)
qed


section \<open>Witnesses\<close>

text \<open>A target that predicts the successor of the last token, on the prefix 5 and the draft 6, 7, 9.\<close>

definition sample_target :: "nat target" where
  "sample_target = \<lparr>tg_argmax = Suc, tg_prob = (\<lambda>row temp tok. if tok = Suc row then 3 / 4 else 1 / 8), tg_rows = [5, 6, 7, 9], tg_vocab = 10\<rparr>"

lemma sample_causal: "causal_logits (\<lambda>ctx. Suc (last ctx)) ([5] @ [6, 7, 9]) sample_target"
  by (auto simp: causal_logits_def sample_target_def less_Suc_eq)

theorem batched_is_sequential_witness:
  "verify_chain [5] [6, 7, 9] sample_target (Some [1, 1 / 2, 1]) 1 None (\<lambda>i. 1 / 2) = Inr 2
   \<and> accept_seq sample_target (prefix_len [5]) [6, 7, 9] (q_of (Some [1, 1 / 2, 1])) 1 None (\<lambda>i. 1 / 2) 0 = Inr 2"
proof -
  have "accept_seq sample_target (prefix_len [5]) [6, 7, 9] (q_of (Some [1, 1 / 2, 1])) 1 None (\<lambda>i. 1 / 2) 0 = Inr 2" by code_simp
  then show ?thesis using batched_is_sequential [of "Some [1, 1 / 2, 1]" "[6, 7, 9]" "\<lambda>i. 1 / 2" "[5]" sample_target 1 None] by simp
qed

theorem greedy_lossless_witness:
  "\<exists>k \<le> 3. verify_chain [5] [6, 7, 9] sample_target None 0 None (\<lambda>i. 0) = Inr k \<and> take k [6, 7, 9] = greedy (\<lambda>ctx. Suc (last ctx)) [5] k"
  using greedy_lossless [OF _ sample_causal, of None None "\<lambda>i. 0"] by auto

theorem mask_matches_chain_witness:
  "\<exists>k. verify_chain [5] [6, 7, 9] sample_target None 0 None (\<lambda>i. 0) = Inr k
     \<and> verify_draft_acceptance [6, 7, 9] (map (tg_argmax sample_target) (drop 0 (tg_rows sample_target))) None None (\<lambda>i. 0) = Inr (replicate k True @ replicate (3 - k) False)"
  using mask_matches_chain [of "[5]" "[6, 7, 9]" sample_target None None "\<lambda>i. 0" None "\<lambda>i. 0"] by (simp add: numeral_3_eq_3)

theorem verify_tree_longest_witness:
  "\<exists>r. verify_tree sample_target 0 None (\<lambda>s. 0) [5] (TreeNode 6 0 [TreeNode 8 0 [] 1, TreeNode 7 0 [] 1] 0) = Inr r \<and> 2 \<le> tv_accepted_count r"
  using verify_tree_longest [of "[5]" sample_target None "\<lambda>s. 0" "TreeNode 6 0 [TreeNode 8 0 [] 1, TreeNode 7 0 [] 1] 0"] by (auto simp: sample_target_def)

theorem tree_root_blocks_acceptance_witness:
  "\<exists>r. verify_tree sample_target 0 None (\<lambda>s. 0) [5] (generate_tree (\<lambda>ctx. [(Suc (last ctx), 0)]) 3 [5]) = Inr r \<and> tv_accepted_tokens r = []"
  using tree_root_blocks_acceptance [of "[5]" sample_target None "\<lambda>s. 0" "\<lambda>ctx. [(Suc (last ctx), 0)]" 3] by (auto simp: sample_target_def)

end
