(* ===== verification/SpecControl.thy ===== *)
theory SpecControl
  imports Partition
begin

text \<open>
  \<^verbatim>\<open>DynamicSpeculationController\<close> of \<^verbatim>\<open>src/distllm/core/dynamic_speculation.py\<close>: the number of draft tokens is steered by the acceptance rate over a
  sliding window. Counts are integers, rates and gains rationals.
\<close>

record spec_controller =
  dc_current :: int
  dc_min :: int
  dc_max :: int
  dc_target :: rat
  dc_kp :: rat
  dc_delay :: int
  dc_window_size :: nat
  dc_window :: "(int \<times> int) list"
  dc_steps :: int

definition dc_init :: "int \<Rightarrow> int \<Rightarrow> int \<Rightarrow> rat \<Rightarrow> nat \<Rightarrow> rat \<Rightarrow> int \<Rightarrow> spec_controller" where
  "dc_init initial lo hi target wsize kp delay = \<lparr>dc_current = initial, dc_min = lo, dc_max = hi, dc_target = target, dc_kp = kp, dc_delay = delay,
     dc_window_size = wsize, dc_window = [], dc_steps = 0\<rparr>"

text \<open>A bounded deque drops its oldest entries.\<close>

definition push_bounded :: "nat \<Rightarrow> 'a \<Rightarrow> 'a list \<Rightarrow> 'a list" where
  "push_bounded n x xs = (let ys = xs @ [x] in drop (length ys - n) ys)"

definition window_rate :: "(int \<times> int) list \<Rightarrow> rat" where
  "window_rate w = of_int (sum_list (map fst w)) / of_int (max (sum_list (map snd w)) 1)"

definition dc_adjustment :: "spec_controller \<Rightarrow> rat \<Rightarrow> int" where
  "dc_adjustment c err =
     (let a = round_even (dc_kp c * err * of_int (dc_current c)) in if \<bar>err\<bar> > 1 / 10 \<and> a = 0 then (if err > 0 then 1 else -1) else a)"

definition dc_update :: "int \<Rightarrow> int \<Rightarrow> spec_controller \<Rightarrow> int \<times> spec_controller" where
  "dc_update accepted proposed c0 =
     (let c = c0\<lparr>dc_steps := dc_steps c0 + 1, dc_window := push_bounded (dc_window_size c0) (accepted, proposed) (dc_window c0)\<rparr> in
      if dc_steps c < dc_delay c then (dc_current c, c)
      else let err = window_rate (dc_window c) - dc_target c;
               cur = max (dc_min c) (min (dc_max c) (dc_current c + dc_adjustment c err))
           in (cur, c\<lparr>dc_current := cur\<rparr>))"

definition dc_reset :: "int option \<Rightarrow> spec_controller \<Rightarrow> spec_controller" where
  "dc_reset cand c = c\<lparr>dc_window := [], dc_steps := 0, dc_current := (case cand of None \<Rightarrow> dc_current c | Some n \<Rightarrow> n)\<rparr>"

definition acceptance_rate :: "spec_controller \<Rightarrow> rat" where
  "acceptance_rate c = (if dc_window c = [] then 0 else window_rate (dc_window c))"

definition dc_run :: "(int \<times> int) list \<Rightarrow> spec_controller \<Rightarrow> spec_controller" where
  "dc_run us c = fold (\<lambda>(a, p) c. snd (dc_update a p c)) us c"

section \<open>Steering\<close>

lemma update_frame [simp]:
  "dc_min (snd (dc_update a p c)) = dc_min c" "dc_max (snd (dc_update a p c)) = dc_max c" "dc_target (snd (dc_update a p c)) = dc_target c" "dc_kp (snd (dc_update a p c)) = dc_kp c"
  "dc_delay (snd (dc_update a p c)) = dc_delay c" "dc_window_size (snd (dc_update a p c)) = dc_window_size c" "dc_steps (snd (dc_update a p c)) = dc_steps c + 1"
  "dc_window (snd (dc_update a p c)) = push_bounded (dc_window_size c) (a, p) (dc_window c)" "fst (dc_update a p c) = dc_current (snd (dc_update a p c))"
  by (simp_all add: dc_update_def Let_def)

lemma round_even_mono0: "0 \<le> x \<Longrightarrow> 0 \<le> round_even x" "x \<le> 0 \<Longrightarrow> round_even x \<le> 0"
proof -
  show "0 \<le> x \<Longrightarrow> 0 \<le> round_even x" by (auto simp: round_even_def Let_def)
  assume x: "x \<le> 0"
  show "round_even x \<le> 0"
  proof (cases "\<lfloor>x\<rfloor> = 0")
    case True
    then have "x = 0" using x by linarith
    then show ?thesis by (simp add: round_even_def)
  next
    case False
    then have "\<lfloor>x\<rfloor> + 1 \<le> 0" using x by linarith
    then show ?thesis by (auto simp: round_even_def Let_def)
  qed
qed

lemma adjustment_sign:
  assumes "0 \<le> dc_kp c" and "0 \<le> dc_current c"
  shows "1 / 10 < err \<Longrightarrow> 1 \<le> dc_adjustment c err" and "err < - (1 / 10) \<Longrightarrow> dc_adjustment c err \<le> -1"
proof -
  let ?a = "round_even (dc_kp c * err * of_int (dc_current c))"
  show "1 \<le> dc_adjustment c err" if e: "1 / 10 < err"
  proof -
    have "0 \<le> ?a" using assms e by (intro round_even_mono0(1)) simp
    then show ?thesis using e by (auto simp: dc_adjustment_def Let_def)
  qed
  show "dc_adjustment c err \<le> -1" if e: "err < - (1 / 10)"
  proof -
    have "dc_kp c * err * of_int (dc_current c) \<le> 0" using assms e by (simp add: mult_nonneg_nonpos mult_nonpos_nonneg)
    then have "?a \<le> 0" by (rule round_even_mono0(2))
    then show ?thesis using e by (auto simp: dc_adjustment_def Let_def)
  qed
qed

text \<open>Once it adapts, an update leaves the number of candidates within its limits, raises it when more than a tenth above the target
  rate was accepted over the window, and lowers it when the rate was more than a tenth below, unless the limit is reached.\<close>

theorem controller_steers:
  assumes "dc_min c \<le> dc_max c" and "0 \<le> dc_kp c" and "0 \<le> dc_current c" and "dc_delay c \<le> dc_steps c + 1"
  shows "let c' = snd (dc_update a p c); err = window_rate (dc_window c') - dc_target c
     in dc_min c \<le> dc_current c' \<and> dc_current c' \<le> dc_max c
      \<and> (1 / 10 < err \<longrightarrow> dc_current c < dc_current c' \<or> dc_current c' = dc_max c)
      \<and> (err < - (1 / 10) \<longrightarrow> dc_current c' < dc_current c \<or> dc_current c' = dc_min c)"
proof -
  let ?c' = "snd (dc_update a p c)"
  define err where "err = window_rate (dc_window ?c') - dc_target c"
  have adj: "dc_adjustment (c\<lparr>dc_steps := s, dc_window := w\<rparr>) e = dc_adjustment c e" for s w e by (simp add: dc_adjustment_def)
  have cur: "dc_current ?c' = max (dc_min c) (min (dc_max c) (dc_current c + dc_adjustment c err))"
    using assms(4) by (simp add: dc_update_def Let_def adj err_def)
  have "dc_min c \<le> dc_current ?c'" "dc_current ?c' \<le> dc_max c" unfolding cur using assms(1) by auto
  moreover have "1 / 10 < err \<longrightarrow> dc_current c < dc_current ?c' \<or> dc_current ?c' = dc_max c"
    unfolding cur using adjustment_sign(1) [OF assms(2,3), of err] assms(1) by auto
  moreover have "err < - (1 / 10) \<longrightarrow> dc_current ?c' < dc_current c \<or> dc_current ?c' = dc_min c"
    unfolding cur using adjustment_sign(2) [OF assms(2,3), of err] assms(1) by auto
  ultimately show ?thesis by (simp only: Let_def err_def)
qed

theorem controller_steers_witness:
  "let c = (dc_init 5 1 10 (7 / 10) 10 (3 / 10) 1); c' = snd (dc_update 4 4 c) in 5 < dc_current c' \<and> dc_current c' \<le> 10"
proof -
  have "window_rate (dc_window (snd (dc_update 4 4 (dc_init 5 1 10 (7 / 10) 10 (3 / 10) 1)))) - 7 / 10 = 3 / 10" by code_simp
  then show ?thesis using controller_steers [of "dc_init 5 1 10 (7 / 10) 10 (3 / 10) 1" 4 4] by (auto simp: dc_init_def Let_def)
qed

end
