(* ===== verification/Metering.thy ===== *)
theory Metering
  imports Prelude Complex_Main
begin

text \<open>
  What the rate limiters of the repository have in common: requests come one after the other, each is admitted or not, and
  what is admitted fills a store of bounded capacity that empties at a bounded rate. The locale \<^verbatim>\<open>metered\<close> states this
  contract and bounds what is admitted; the leaky-bucket limiter and the tenant quotas interpret it.
\<close>

section \<open>Runs\<close>

fun run_steps :: "('e \<Rightarrow> 's \<Rightarrow> bool \<times> 's) \<Rightarrow> 'e list \<Rightarrow> 's \<Rightarrow> ('e \<times> bool) list \<times> 's" where
  "run_steps step [] s = ([], s)"
| "run_steps step (e # es) s = (let (a, s1) = step e s; (as, s2) = run_steps step es s1 in ((e, a) # as, s2))"

definition admitted_by :: "('e \<Rightarrow> rat) \<Rightarrow> ('e \<times> bool) list \<Rightarrow> rat" where
  "admitted_by cost as = sum_list (map (\<lambda>(e, a). if a then cost e else 0) as)"

fun end_at :: "('e \<Rightarrow> rat) \<Rightarrow> rat \<Rightarrow> 'e list \<Rightarrow> rat" where
  "end_at time t [] = t"
| "end_at time t (e # es) = end_at time (time e) es"

text \<open>Each request is acceptable at the time the one before it left.\<close>

fun follows :: "(rat \<Rightarrow> 'e \<Rightarrow> bool) \<Rightarrow> ('e \<Rightarrow> rat) \<Rightarrow> rat \<Rightarrow> 'e list \<Rightarrow> bool" where
  "follows fits time t [] \<longleftrightarrow> True"
| "follows fits time t (e # es) \<longleftrightarrow> fits t e \<and> follows fits time (time e) es"

lemma run_steps_Cons: "run_steps step (e # es) s = ((e, fst (step e s)) # fst (run_steps step es (snd (step e s))), snd (run_steps step es (snd (step e s))))"
  by (simp add: case_prod_beta)

lemma admitted_by_simps [simp]: "admitted_by cost [] = 0" "admitted_by cost ((e, a) # as) = (if a then cost e else 0) + admitted_by cost as"
  by (simp_all add: admitted_by_def)

section \<open>The contract\<close>

locale metered =
  fixes step :: "'e \<Rightarrow> 's \<Rightarrow> bool \<times> 's"
    and time :: "'e \<Rightarrow> rat"
    and cost :: "'e \<Rightarrow> rat"
    and fits :: "rat \<Rightarrow> 'e \<Rightarrow> bool"
    and good :: "'s \<Rightarrow> rat \<Rightarrow> bool"
    and filled :: "'s \<Rightarrow> rat \<Rightarrow> rat"
    and cap rate :: rat
  assumes good_step: "good s t \<Longrightarrow> fits t e \<Longrightarrow> good (snd (step e s)) (time e)"
    and filled_step: "good s t \<Longrightarrow> fits t e \<Longrightarrow>
      filled s t - (time e - t) * rate + (if fst (step e s) then cost e else 0) \<le> filled (snd (step e s)) (time e)"
    and filled_cap: "good s t \<Longrightarrow> filled s t \<le> cap"
begin

lemma run_good: "good s t \<Longrightarrow> follows fits time t es \<Longrightarrow> good (snd (run_steps step es s)) (end_at time t es)"
proof (induction es arbitrary: s t)
  case (Cons e es)
  then show ?case unfolding run_steps_Cons using good_step by simp
qed simp

lemma run_bounded: "good s t \<Longrightarrow> follows fits time t es \<Longrightarrow> filled s t + admitted_by cost (fst (run_steps step es s)) \<le> cap + (end_at time t es - t) * rate"
proof (induction es arbitrary: s t)
  case Nil
  then show ?case using filled_cap by simp
next
  case (Cons e es)
  then have f: "fits t e" "follows fits time (time e) es" by auto
  from Cons.IH [OF good_step [OF Cons.prems(1) f(1)] f(2)] filled_step [OF Cons.prems(1) f(1)]
  show ?case unfolding run_steps_Cons by (simp add: algebra_simps)
qed

end

end
