(* ===== verification/LeakyBucket.thy ===== *)
theory LeakyBucket
  imports Metering
begin

text \<open>
  \<^verbatim>\<open>LeakyBucket\<close> and \<^verbatim>\<open>LeakyBucketRateLimiter\<close> of \<^verbatim>\<open>src/distllm/core/leaky_bucket_limiter.py\<close>. Every reading of the clock is an argument, in the
  order the code takes them; amounts and times are rationals. Each operation runs under the lock and is one step.
\<close>

section \<open>One bucket\<close>

record leaky_bucket =
  lb_key :: string
  lb_rate_per_sec :: rat
  lb_burst :: rat
  lb_water :: rat
  lb_last_drip :: rat
  lb_consecutive_violations :: nat

definition bucket_new :: "string \<Rightarrow> rat \<Rightarrow> rat \<Rightarrow> rat \<Rightarrow> leaky_bucket" where
  "bucket_new key rate burst now = \<lparr>lb_key = key, lb_rate_per_sec = rate, lb_burst = burst, lb_water = 0, lb_last_drip = now, lb_consecutive_violations = 0\<rparr>"

definition drip :: "rat \<Rightarrow> leaky_bucket \<Rightarrow> leaky_bucket" where
  "drip now b = b\<lparr>lb_water := max 0 (lb_water b - (now - lb_last_drip b) * lb_rate_per_sec b), lb_last_drip := now\<rparr>"

definition try_add :: "rat \<Rightarrow> rat \<Rightarrow> leaky_bucket \<Rightarrow> bool \<times> leaky_bucket" where
  "try_add now tokens b0 =
     (let b = drip now b0 in
      if lb_water b + tokens \<le> lb_burst b then (True, b\<lparr>lb_water := lb_water b + tokens, lb_consecutive_violations := 0\<rparr>)
      else (False, b\<lparr>lb_consecutive_violations := lb_consecutive_violations b + 1\<rparr>))"

definition wait_time :: "leaky_bucket \<Rightarrow> rat" where
  "wait_time b = (if lb_water b < lb_burst b then 0 else (lb_water b + 1 - lb_burst b) / max (lb_rate_per_sec b) (1 / 1000))"

definition bucket_reset :: "rat \<Rightarrow> leaky_bucket \<Rightarrow> leaky_bucket" where
  "bucket_reset now b = b\<lparr>lb_water := 0, lb_last_drip := now, lb_consecutive_violations := 0\<rparr>"

section \<open>The limiter\<close>

record limiter =
  rl_default_rate :: rat
  rl_default_burst :: rat
  rl_enable_backoff :: bool
  rl_backoff_mult :: rat
  rl_backoff_max :: rat
  rl_cleanup_interval :: rat
  rl_buckets :: "(string, leaky_bucket) dict"
  rl_custom_limits :: "(string, rat \<times> rat) dict"
  rl_last_cleanup :: rat

definition limiter_init :: "rat \<Rightarrow> rat \<Rightarrow> bool \<Rightarrow> rat \<Rightarrow> rat \<Rightarrow> rat \<Rightarrow> rat \<Rightarrow> limiter" where
  "limiter_init rate burst backoff mult bmax interval now =
     \<lparr>rl_default_rate = rate, rl_default_burst = burst, rl_enable_backoff = backoff, rl_backoff_mult = mult, rl_backoff_max = bmax,
      rl_cleanup_interval = interval, rl_buckets = [], rl_custom_limits = [], rl_last_cleanup = now\<rparr>"

definition maybe_cleanup :: "rat \<Rightarrow> limiter \<Rightarrow> limiter" where
  "maybe_cleanup now l =
     (if now - rl_last_cleanup l < rl_cleanup_interval l then l
      else l\<lparr>rl_last_cleanup := now, rl_buckets := filter (\<lambda>(k, b). \<not> now - lb_last_drip b > rl_cleanup_interval l * 2) (rl_buckets l)\<rparr>)"

definition get_bucket :: "rat \<Rightarrow> string \<Rightarrow> limiter \<Rightarrow> leaky_bucket \<times> limiter" where
  "get_bucket now key l =
     (case map_of (rl_buckets l) key of
        Some b \<Rightarrow> (b, l)
      | None \<Rightarrow> let (rate, burst) = (case map_of (rl_custom_limits l) key of None \<Rightarrow> (rl_default_rate l, rl_default_burst l) | Some c \<Rightarrow> c);
                    b = bucket_new key rate burst now
                in (b, l\<lparr>rl_buckets := AList.update key b (rl_buckets l)\<rparr>))"

definition in_backoff :: "rat \<Rightarrow> limiter \<Rightarrow> leaky_bucket \<Rightarrow> bool" where
  "in_backoff now l b \<longleftrightarrow>
     rl_enable_backoff l \<and> lb_consecutive_violations b > 3 \<and> now - lb_last_drip b < min (rl_backoff_mult l ^ (lb_consecutive_violations b - 3)) (rl_backoff_max l)"

definition put_bucket :: "leaky_bucket \<Rightarrow> string \<Rightarrow> limiter \<Rightarrow> limiter" where
  "put_bucket b key l = l\<lparr>rl_buckets := AList.update key b (rl_buckets l)\<rparr>"

definition lim_check :: "rat \<Rightarrow> rat \<Rightarrow> rat \<Rightarrow> string \<Rightarrow> rat \<Rightarrow> limiter \<Rightarrow> bool \<times> limiter" where
  "lim_check now t_new t_drip key tokens l0 =
     (let (b, l) = get_bucket t_new key (maybe_cleanup now l0) in
      if in_backoff now l b then (False, l)
      else let (allowed, b1) = try_add t_drip tokens b;
               b2 = (if \<not> allowed \<and> rl_enable_backoff l then b1\<lparr>lb_consecutive_violations := lb_consecutive_violations b1 + 1\<rparr> else b1)
           in (allowed, put_bucket b2 key l))"

fun check_many :: "(rat \<times> rat \<times> rat) list \<Rightarrow> string list \<Rightarrow> rat \<Rightarrow> limiter \<Rightarrow> (string, bool) dict \<times> limiter" where
  "check_many ts [] tokens l = ([], l)"
| "check_many [] (k # ks) tokens l = ([], l)"
| "check_many ((t0, t1, t2) # ts) (k # ks) tokens l =
     (let (a, l1) = lim_check t0 t1 t2 k tokens l; (d, l2) = check_many ts ks tokens l1
      in (if map_of d k = None then (k, a) # d else (k, the (map_of d k)) # AList.delete k d, l2))"

definition set_limit :: "string \<Rightarrow> rat \<Rightarrow> rat \<Rightarrow> limiter \<Rightarrow> limiter" where
  "set_limit key rate burst l =
     (let l1 = l\<lparr>rl_custom_limits := AList.update key (rate, burst) (rl_custom_limits l)\<rparr> in
      case map_of (rl_buckets l) key of
        None \<Rightarrow> l1
      | Some b \<Rightarrow> put_bucket (b\<lparr>lb_rate_per_sec := rate, lb_burst := burst, lb_water := min (lb_water b) burst\<rparr>) key l1)"

definition reset_key :: "rat \<Rightarrow> string \<Rightarrow> limiter \<Rightarrow> limiter" where
  "reset_key now key l = (case map_of (rl_buckets l) key of None \<Rightarrow> l | Some b \<Rightarrow> put_bucket (bucket_reset now b) key l)"

definition remaining :: "rat \<Rightarrow> rat \<Rightarrow> string \<Rightarrow> limiter \<Rightarrow> rat \<times> limiter" where
  "remaining t_new t_drip key l0 =
     (let (b, l) = get_bucket t_new key l0; b1 = drip t_drip b in (max 0 (lb_burst b1 - lb_water b1), put_bucket b1 key l))"

section \<open>How much is admitted\<close>

record request =
  rr_now :: rat
  rr_new :: rat
  rr_drip :: rat
  rr_key :: string
  rr_tokens :: rat

definition check_request :: "request \<Rightarrow> limiter \<Rightarrow> bool \<times> limiter" where
  "check_request r l = lim_check (rr_now r) (rr_new r) (rr_drip r) (rr_key r) (rr_tokens r) l"

abbreviation run_checks :: "request list \<Rightarrow> limiter \<Rightarrow> (request \<times> bool) list \<times> limiter" where
  "run_checks \<equiv> run_steps check_request"

definition key_tokens :: "string \<Rightarrow> request \<Rightarrow> rat" where
  "key_tokens k r = (if rr_key r = k then rr_tokens r else 0)"

abbreviation admitted :: "string \<Rightarrow> (request \<times> bool) list \<Rightarrow> rat" where
  "admitted k \<equiv> admitted_by (key_tokens k)"

text \<open>The clock does not run backwards and amounts are not negative.\<close>

definition request_fits :: "rat \<Rightarrow> request \<Rightarrow> bool" where
  "request_fits t r \<longleftrightarrow> t \<le> rr_now r \<and> rr_now r \<le> rr_new r \<and> rr_new r \<le> rr_drip r \<and> 0 \<le> rr_tokens r"

abbreviation in_order :: "rat \<Rightarrow> request list \<Rightarrow> bool" where
  "in_order \<equiv> follows request_fits rr_drip"

abbreviation end_time :: "rat \<Rightarrow> request list \<Rightarrow> rat" where
  "end_time \<equiv> end_at rr_drip"

text \<open>What is left in a key's bucket at a time.\<close>

definition level :: "limiter \<Rightarrow> string \<Rightarrow> rat \<Rightarrow> rat" where
  "level l k t = (case map_of (rl_buckets l) k of None \<Rightarrow> 0 | Some b \<Rightarrow> max 0 (lb_water b - (t - lb_last_drip b) * lb_rate_per_sec b))"

definition bucket_ok :: "limiter \<Rightarrow> rat \<Rightarrow> leaky_bucket \<Rightarrow> bool" where
  "bucket_ok l t b \<longleftrightarrow> lb_rate_per_sec b = rl_default_rate l \<and> lb_burst b = rl_default_burst l \<and> 0 \<le> lb_water b \<and> lb_water b \<le> rl_default_burst l \<and> lb_last_drip b \<le> t"

definition lim_ok :: "limiter \<Rightarrow> rat \<Rightarrow> bool" where
  "lim_ok l t \<longleftrightarrow> rl_custom_limits l = [] \<and> dict_wf (rl_buckets l) \<and> (\<forall>k b. map_of (rl_buckets l) k = Some b \<longrightarrow> bucket_ok l t b)"

text \<open>A bucket is forgotten only when it would be empty.\<close>

definition cleanup_safe :: "limiter \<Rightarrow> bool" where
  "cleanup_safe l \<longleftrightarrow> 0 \<le> rl_default_rate l \<and> 0 \<le> rl_default_burst l \<and> rl_default_burst l \<le> 2 * rl_cleanup_interval l * rl_default_rate l"


lemma drip_fields [simp]:
  "lb_rate_per_sec (drip t b) = lb_rate_per_sec b" "lb_burst (drip t b) = lb_burst b" "lb_last_drip (drip t b) = t" "0 \<le> lb_water (drip t b)"
  "lb_water (drip t b) = max 0 (lb_water b - (t - lb_last_drip b) * lb_rate_per_sec b)"
  by (simp_all add: drip_def)

lemma cleanup_frame [simp, frame_simps]:
  "rl_default_rate (maybe_cleanup t l) = rl_default_rate l" "rl_default_burst (maybe_cleanup t l) = rl_default_burst l"
  "rl_cleanup_interval (maybe_cleanup t l) = rl_cleanup_interval l" "rl_custom_limits (maybe_cleanup t l) = rl_custom_limits l" "rl_enable_backoff (maybe_cleanup t l) = rl_enable_backoff l"
  "rl_backoff_max (maybe_cleanup t l) = rl_backoff_max l"
  by (simp_all add: maybe_cleanup_def)

lemma get_bucket_frame [simp, frame_simps]:
  "rl_default_rate (snd (get_bucket t k l)) = rl_default_rate l" "rl_default_burst (snd (get_bucket t k l)) = rl_default_burst l"
  "rl_cleanup_interval (snd (get_bucket t k l)) = rl_cleanup_interval l" "rl_custom_limits (snd (get_bucket t k l)) = rl_custom_limits l"
  "rl_enable_backoff (snd (get_bucket t k l)) = rl_enable_backoff l" "rl_backoff_max (snd (get_bucket t k l)) = rl_backoff_max l"
  by (simp_all add: get_bucket_def Let_def split: option.splits prod.splits)

lemma put_bucket_frame [simp, frame_simps]:
  "rl_default_rate (put_bucket b k l) = rl_default_rate l" "rl_default_burst (put_bucket b k l) = rl_default_burst l"
  "rl_cleanup_interval (put_bucket b k l) = rl_cleanup_interval l" "rl_custom_limits (put_bucket b k l) = rl_custom_limits l"
  "rl_buckets (put_bucket b k l) = AList.update k b (rl_buckets l)" "rl_backoff_max (put_bucket b k l) = rl_backoff_max l"
  by (simp_all add: put_bucket_def)

lemma check_frame [simp, frame_simps]:
  "rl_default_rate (snd (lim_check t0 t1 t2 k n l)) = rl_default_rate l" "rl_default_burst (snd (lim_check t0 t1 t2 k n l)) = rl_default_burst l"
  "rl_cleanup_interval (snd (lim_check t0 t1 t2 k n l)) = rl_cleanup_interval l" "rl_backoff_max (snd (lim_check t0 t1 t2 k n l)) = rl_backoff_max l"
proof -
  obtain b l' where g: "get_bucket t1 k (maybe_cleanup t0 l) = (b, l')" by (cases "get_bucket t1 k (maybe_cleanup t0 l)")
  show "rl_default_rate (snd (lim_check t0 t1 t2 k n l)) = rl_default_rate l" "rl_default_burst (snd (lim_check t0 t1 t2 k n l)) = rl_default_burst l"
    "rl_cleanup_interval (snd (lim_check t0 t1 t2 k n l)) = rl_cleanup_interval l" "rl_backoff_max (snd (lim_check t0 t1 t2 k n l)) = rl_backoff_max l"
    using get_bucket_frame(1-3,6) [of t1 k "maybe_cleanup t0 l"] unfolding g by (simp_all add: lim_check_def g Let_def case_prod_beta)
qed

lemma level_nonneg: "0 \<le> level l k t"
  by (simp add: level_def split: option.splits)

lemma lim_ok_mono: "lim_ok l s \<Longrightarrow> s \<le> t \<Longrightarrow> lim_ok l t"
  by (fastforce simp: lim_ok_def bucket_ok_def)

lemma level_le_burst: "lim_ok l t \<Longrightarrow> cleanup_safe l \<Longrightarrow> level l k t \<le> rl_default_burst l"
proof (cases "map_of (rl_buckets l) k")
  case (Some b)
  moreover assume "lim_ok l t" "cleanup_safe l"
  ultimately have b: "bucket_ok l t b" and r: "0 \<le> rl_default_rate l" "0 \<le> rl_default_burst l" by (auto simp: lim_ok_def cleanup_safe_def)
  have "0 \<le> (t - lb_last_drip b) * lb_rate_per_sec b" "lb_water b \<le> rl_default_burst l" using b r(1) by (simp_all add: bucket_ok_def)
  then show ?thesis unfolding level_def Some option.case using r(2) by (intro max.boundedI) linarith+
qed (simp add: level_def cleanup_safe_def)

text \<open>A level falls no faster than the rate.\<close>

lemma level_decay:
  assumes "lim_ok l s" and "cleanup_safe l" and "s \<le> t"
  shows "level l k s - (t - s) * rl_default_rate l \<le> level l k t"
proof (cases "map_of (rl_buckets l) k")
  case (Some b)
  then have "lb_rate_per_sec b = rl_default_rate l" using assms(1) by (auto simp: lim_ok_def bucket_ok_def)
  moreover have "0 \<le> (t - s) * rl_default_rate l" using assms by (simp add: cleanup_safe_def)
  ultimately show ?thesis using Some by (auto simp: level_def max_def algebra_simps)
qed (use assms in \<open>simp add: level_def cleanup_safe_def\<close>)

lemma cleanup_ok:
  assumes "lim_ok l s" and "cleanup_safe l" and "s \<le> now" and "now \<le> t"
  shows "lim_ok (maybe_cleanup now l) t" and "level (maybe_cleanup now l) k t = level l k t"
proof -
  have wf: "dict_wf (rl_buckets l)" using assms(1) by (simp add: lim_ok_def)
  have sub: "map_of (rl_buckets (maybe_cleanup now l)) k = (if now - rl_last_cleanup l < rl_cleanup_interval l then map_of (rl_buckets l) k
      else case map_of (rl_buckets l) k of None \<Rightarrow> None | Some b \<Rightarrow> if \<not> now - lb_last_drip b > rl_cleanup_interval l * 2 then Some b else None)" for k
    by (simp add: maybe_cleanup_def map_of_filter_dict [OF wf])
  have "dict_wf (rl_buckets (maybe_cleanup now l))" using wf by (auto simp: maybe_cleanup_def)
  moreover have "bucket_ok l t b" if "map_of (rl_buckets l) k = Some b" for k b using that assms lim_ok_mono [OF assms(1), of t] by (auto simp: lim_ok_def)
  ultimately show "lim_ok (maybe_cleanup now l) t" using assms(1) by (auto simp: lim_ok_def bucket_ok_def sub split: if_splits option.splits)
  have gone: "max 0 (lb_water b - (t - lb_last_drip b) * lb_rate_per_sec b) = 0"
    if b: "map_of (rl_buckets l) k = Some b" and old: "now - lb_last_drip b > rl_cleanup_interval l * 2" for b
  proof -
    have bo: "lb_rate_per_sec b = rl_default_rate l" "lb_water b \<le> rl_default_burst l" using b assms(1) by (auto simp: lim_ok_def bucket_ok_def)
    have "rl_cleanup_interval l * 2 \<le> t - lb_last_drip b" using old assms(4) by simp
    then have "rl_cleanup_interval l * 2 * rl_default_rate l \<le> (t - lb_last_drip b) * rl_default_rate l"
      using assms(2) by (intro mult_right_mono) (simp_all add: cleanup_safe_def)
    then show ?thesis using bo assms(2) by (simp add: cleanup_safe_def mult.commute)
  qed
  show "level (maybe_cleanup now l) k t = level l k t"
    using gone by (cases "map_of (rl_buckets l) k") (auto simp: level_def sub)
qed

lemma get_bucket_ok:
  assumes "lim_ok l s" and "cleanup_safe l" and "s \<le> t" and "get_bucket t key l = (b, l')"
  shows "lim_ok l' t" and "map_of (rl_buckets l') key = Some b" and "t \<le> u \<Longrightarrow> level l' k u = level l k u"
proof -
  have l': "l' = snd (get_bucket t key l)" and b: "b = fst (get_bucket t key l)" using assms(4) by simp_all
  have c: "rl_custom_limits l = []" using assms(1) by (simp add: lim_ok_def)
  note d = get_bucket_def Let_def c bucket_new_def
  show "map_of (rl_buckets l') key = Some b" by (simp add: l' b d split: option.splits)
  show "lim_ok l' t" using lim_ok_mono [OF assms(1,3)] assms(2) by (auto simp: l' d lim_ok_def bucket_ok_def cleanup_safe_def split: option.splits)
  show "t \<le> u \<Longrightarrow> level l' k u = level l k u" using assms(2) by (auto simp: l' d level_def cleanup_safe_def split: option.splits)
qed

lemma put_ok: "lim_ok l t \<Longrightarrow> bucket_ok l t b \<Longrightarrow> lim_ok (put_bucket b k l) t"
  by (auto simp: lim_ok_def bucket_ok_def)

lemma level_put: "level (put_bucket b key l) k t = (if k = key then max 0 (lb_water b - (t - lb_last_drip b) * lb_rate_per_sec b) else level l k t)"
  by (simp add: level_def)


text \<open>One check: the invariant is kept, and what it admits stays in the bucket or has had time to leak.\<close>

lemma check_step:
  assumes "lim_ok l s" and "cleanup_safe l" and "s \<le> t0" and "t0 \<le> t1" and "t1 \<le> t2" and "0 \<le> n" and "lim_check t0 t1 t2 key n l = (a, l')"
  shows "lim_ok l' t2" and "level l k s - (t2 - s) * rl_default_rate l + (if a \<and> key = k then n else 0) \<le> level l' k t2"
proof -
  let ?l1 = "maybe_cleanup t0 l"
  obtain b l2 where g: "get_bucket t1 key ?l1 = (b, l2)" by (cases "get_bucket t1 key ?l1")
  have c1: "lim_ok ?l1 t1" "level ?l1 k t2 = level l k t2" using cleanup_ok [OF assms(1-3)] assms(4,5) by auto
  have s1: "cleanup_safe ?l1" using assms(2) by (simp add: cleanup_safe_def)
  note g2 = get_bucket_ok [OF c1(1) s1 order_refl g]
  have l2: "rl_default_rate l2 = rl_default_rate l" "rl_default_burst l2 = rl_default_burst l"
    using get_bucket_frame(1,2) [of t1 key ?l1] unfolding g by simp_all
  have ok2: "lim_ok l2 t2" using lim_ok_mono [OF g2(1) assms(5)] .
  then have b: "bucket_ok l2 t2 b" using g2(2) by (simp add: lim_ok_def)
  have dec: "level l k s - (t2 - s) * rl_default_rate l \<le> level l2 k t2"
    using level_decay [OF assms(1,2), of t2 k] assms(3-5) g2(3) [OF assms(5), of k] c1(2) by simp
  have "lim_ok l' t2 \<and> level l' k t2 = level l2 k t2 + (if a \<and> key = k then n else 0)"
  proof (cases "in_backoff t0 l2 b")
    case True
    then show ?thesis using assms(7) ok2 by (auto simp: lim_check_def g)
  next
    case False
    let ?w = "lb_water (drip t2 b)"
    have w: "level l2 key t2 = ?w" using g2(2) by (simp add: level_def)
    have le: "?w \<le> rl_default_burst l2"
      using level_le_burst [OF ok2, of key] assms(2) get_bucket_frame(3) [of t1 key ?l1] w l2 unfolding g by (simp add: cleanup_safe_def)
    obtain b' where b': "l' = put_bucket b' key l2" "lb_last_drip b' = t2" "lb_water b' = ?w + (if a then n else 0)"
      "lb_rate_per_sec b' = lb_rate_per_sec b" "lb_burst b' = lb_burst b" "a \<longleftrightarrow> ?w + n \<le> lb_burst b"
      using assms(7) False by (auto simp: lim_check_def g try_add_def Let_def simp del: drip_fields(5) split: if_splits)
    have "bucket_ok l2 t2 b'" using b b' le assms(6) by (simp add: bucket_ok_def del: drip_fields(5))
    then show ?thesis using put_ok [OF ok2] b' w assms(6) by (auto simp: level_put simp del: drip_fields(5))
  qed
  then show "lim_ok l' t2" "level l k s - (t2 - s) * rl_default_rate l + (if a \<and> key = k then n else 0) \<le> level l' k t2" using dec by simp_all
qed

definition limits :: "rat \<Rightarrow> rat \<Rightarrow> rat \<Rightarrow> limiter \<Rightarrow> rat \<Rightarrow> bool" where
  "limits rate burst bmax l t \<longleftrightarrow> lim_ok l t \<and> cleanup_safe l \<and> rl_default_rate l = rate \<and> rl_default_burst l = burst \<and> rl_backoff_max l = bmax"

lemma limits_step:
  assumes "limits rate burst bmax l s" and "request_fits s r"
  shows "limits rate burst bmax (snd (check_request r l)) (rr_drip r)"
    and "level l k s - (rr_drip r - s) * rate + (if fst (check_request r l) then key_tokens k r else 0) \<le> level (snd (check_request r l)) k (rr_drip r)"
proof -
  have l: "lim_ok l s" "cleanup_safe l" "rl_default_rate l = rate" "rl_default_burst l = burst" "rl_backoff_max l = bmax" using assms(1) by (auto simp: limits_def)
  have ord: "s \<le> rr_now r" "rr_now r \<le> rr_new r" "rr_new r \<le> rr_drip r" "0 \<le> rr_tokens r" using assms(2) by (auto simp: request_fits_def)
  note st = check_step [OF l(1,2) ord, of "rr_key r", OF prod.collapse [symmetric]]
  show "limits rate burst bmax (snd (check_request r l)) (rr_drip r)" using st(1) l by (simp add: limits_def check_request_def cleanup_safe_def)
  show "level l k s - (rr_drip r - s) * rate + (if fst (check_request r l) then key_tokens k r else 0) \<le> level (snd (check_request r l)) k (rr_drip r)"
    using st(2) [of k] l(3) by (auto simp: check_request_def key_tokens_def)
qed

lemma limits_cap: "limits rate burst bmax l t \<Longrightarrow> level l k t \<le> burst"
  using level_le_burst by (auto simp: limits_def)

interpretation lbm: metered check_request rr_drip "key_tokens k" request_fits "limits rate burst bmax" "\<lambda>l. level l k" burst rate for k rate burst bmax
  by unfold_locales (rule limits_step limits_cap; assumption)+

lemma init_limits:
  "0 \<le> rate \<Longrightarrow> 0 \<le> burst \<Longrightarrow> burst \<le> 2 * interval * rate \<Longrightarrow> limits rate burst bmax (limiter_init rate burst backoff mult bmax interval t0) t0"
  by (simp add: limits_def limiter_init_def lim_ok_def cleanup_safe_def)

text \<open>C37: A client is never admitted more than its burst and the rate times the time that has passed: over any sequence of requests of any
  clients to a fresh limiter, with backoff and cleanup, the amount admitted for a key is at most that, provided a bucket
  drains within two cleanup intervals.\<close>

theorem admission_bounded:
  assumes "0 \<le> rate" and "0 \<le> burst" and "burst \<le> 2 * interval * rate" and "in_order t0 rs"
  shows "admitted k (fst (run_checks rs (limiter_init rate burst backoff mult bmax interval t0))) \<le> burst + (end_time t0 rs - t0) * rate"
proof -
  let ?l = "limiter_init rate burst backoff mult bmax interval t0"
  have "limits rate burst bmax ?l t0" by (rule init_limits [OF assms(1-3)])
  from lbm.run_bounded [OF this assms(4), of k] level_nonneg [of ?l k t0] show ?thesis by linarith
qed

definition req :: "rat \<Rightarrow> rat \<Rightarrow> request" where
  "req t n = \<lparr>rr_now = t, rr_new = t, rr_drip = t, rr_key = ''u'', rr_tokens = n\<rparr>"

theorem admission_bounded_witness:
  "let as = fst (run_checks [req 0 15, req 0 10, req 1 10] (limiter_init 10 20 True 2 300 300 0)) in map snd as = [True, False, True] \<and> admitted ''u'' as \<le> 20 + 1 * 10"
proof -
  let ?rs = "[req 0 15, req 0 10, req 1 10]"
  have "map snd (fst (run_checks ?rs (limiter_init 10 20 True 2 300 300 0))) = [True, False, True]" by code_simp
  then show ?thesis using admission_bounded [of 10 20 300 0 ?rs "''u''" True 2 300] by (simp add: req_def request_fits_def Let_def)
qed

text \<open>With a slower drain the cleanup forgets what was admitted and the bound fails.\<close>

lemma cleanup_forgets: "admitted ''u'' (fst (run_checks [req 0 20, req 700 20] (limiter_init (1 / 100) 20 True 2 300 300 0))) = 40"
  by code_simp

text \<open>A waiting time of zero does not mean that a token is accepted, and a rejected request counts as two violations.\<close>

lemma wait_time_zero_rejects:
  "let b = (bucket_new ''u'' 1 20 0)\<lparr>lb_water := 39 / 2\<rparr> in wait_time b = 0 \<and> \<not> fst (try_add 0 1 b)"
  by code_simp

lemma rejection_counts_twice:
  "map_option lb_consecutive_violations (map_of (rl_buckets (snd (run_checks [req 0 1, req 0 1] (limiter_init 1 1 True 2 300 300 0)))) ''u'') = Some 2"
  by code_simp

section \<open>No starvation\<close>

lemma patient_check:
  assumes "lim_ok l s" and "cleanup_safe l" and "s + rl_backoff_max l \<le> t0" and "s \<le> t0" and "t0 \<le> t1" and "t1 \<le> t2"
    and "rl_default_burst l \<le> (t0 - s) * rl_default_rate l" and "n \<le> rl_default_burst l"
  shows "fst (lim_check t0 t1 t2 k n l)"
proof -
  let ?l1 = "maybe_cleanup t0 l"
  obtain b l2 where g: "get_bucket t1 k ?l1 = (b, l2)" by (cases "get_bucket t1 k ?l1")
  have c1: "lim_ok ?l1 t0" using cleanup_ok(1) [OF assms(1,2,4)] by simp
  have s1: "cleanup_safe ?l1" using assms(2) by (simp add: cleanup_safe_def)
  have fr: "rl_default_rate l2 = rl_default_rate l" "rl_default_burst l2 = rl_default_burst l" "rl_backoff_max l2 = rl_backoff_max l"
    using get_bucket_frame(1,2,6) [of t1 k ?l1] unfolding g by simp_all
  have b: "bucket_ok l2 t1 b" using get_bucket_ok(1,2) [OF c1 s1 assms(5) g] by (simp add: lim_ok_def)
  have old: "lb_water b = 0 \<and> lb_consecutive_violations b = 0 \<or> lb_last_drip b \<le> s"
  proof (cases "map_of (rl_buckets ?l1) k")
    case None
    then show ?thesis using g by (auto simp: get_bucket_def Let_def bucket_new_def split: prod.splits option.splits)
  next
    case (Some b')
    then have "map_of (rl_buckets l) k = Some b'" "b' = b" using g map_of_filter_dict [of "rl_buckets l"] assms(1)
      by (auto simp: maybe_cleanup_def get_bucket_def lim_ok_def split: if_splits option.splits)
    then show ?thesis using assms(1) by (auto simp: lim_ok_def bucket_ok_def)
  qed
  have "\<not> in_backoff t0 l2 b" using old assms(3) fr by (auto simp: in_backoff_def)
  moreover have "lb_water (drip t2 b) = 0"
  proof (cases "lb_last_drip b \<le> s")
    case True
    then have "(t0 - s) * rl_default_rate l \<le> (t2 - lb_last_drip b) * rl_default_rate l" using assms by (intro mult_right_mono) (auto simp: cleanup_safe_def)
    then show ?thesis using b fr assms(7) by (auto simp: bucket_ok_def)
  next
    case False
    then have "lb_water b = 0" using old by simp
    moreover have "0 \<le> (t2 - lb_last_drip b) * lb_rate_per_sec b" using b fr assms(2,6) by (auto simp: bucket_ok_def cleanup_safe_def)
    ultimately show ?thesis by simp
  qed
  ultimately show ?thesis using b fr assms(8) by (simp add: lim_check_def g try_add_def Let_def bucket_ok_def del: drip_fields(5))
qed

text \<open>No client is locked out: after any sequence of requests, a request of at most the burst that comes after the longest backoff, and after the
  time a full bucket takes to drain, is admitted.\<close>

theorem patient_client_admitted:
  assumes "0 \<le> rate" and "0 \<le> burst" and "burst \<le> 2 * interval * rate" and "0 \<le> bmax" and "in_order t0 rs"
    and "end_time t0 rs + bmax \<le> t" and "burst \<le> (t - end_time t0 rs) * rate" and "n \<le> burst"
  shows "fst (lim_check t t t k n (snd (run_checks rs (limiter_init rate burst backoff mult bmax interval t0))))"
  using lbm.run_good [OF init_limits [OF assms(1-3), of bmax backoff mult t0] assms(5)] assms(4,6-8)
  by (intro patient_check [of _ "end_time t0 rs"]) (auto simp: limits_def)

theorem patient_client_admitted_witness:
  "fst (lim_check 302 302 302 ''u'' 20 (snd (run_checks [req 0 15, req 0 10, req 1 10] (limiter_init 10 20 True 2 300 300 0))))"
  using patient_client_admitted [of 10 20 300 300 0 "[req 0 15, req 0 10, req 1 10]" 302 20 "''u''" True 2] by (simp add: req_def request_fits_def)

end
