(* ===== verification/Quota.thy ===== *)
theory Quota
  imports Metering
begin

text \<open>
  \<^verbatim>\<open>TenantQuota\<close> and \<^verbatim>\<open>QuotaEnforcer\<close> of \<^verbatim>\<open>src/distllm/dist/quota_enforcer.py\<close>: token buckets per tenant, queued requests and the selection of a batch.
  Readings of the clock are arguments; in a selection there is one per slot and tenant. Requests are opaque.
\<close>

section \<open>Tenants\<close>

record 'r tenant_quota =
  tq_tenant_id :: string
  tq_tokens_per_minute :: rat
  tq_burst :: rat
  tq_weight :: rat
  tq_tokens :: rat
  tq_last_refill :: rat
  tq_total_consumed :: rat
  tq_queued_requests :: "'r list"

record 'r enforcer =
  en_quotas :: "(string, 'r tenant_quota) dict"
  en_deficit :: "(string, rat) dict"

definition enforcer_init :: "'r enforcer" where
  "enforcer_init = \<lparr>en_quotas = [], en_deficit = []\<rparr>"

definition quantum :: rat where
  "quantum = 256"

definition refill :: "rat \<Rightarrow> 'r tenant_quota \<Rightarrow> 'r tenant_quota" where
  "refill now q = q\<lparr>tq_tokens := min (tq_burst q) (tq_tokens q + (now - tq_last_refill q) * (tq_tokens_per_minute q / 60)), tq_last_refill := now\<rparr>"

definition tq_can_consume :: "rat \<Rightarrow> rat \<Rightarrow> 'r tenant_quota \<Rightarrow> bool \<times> 'r tenant_quota" where
  "tq_can_consume now amount q = (let q' = refill now q in (tq_tokens q' \<ge> amount, q'))"

definition consume :: "rat \<Rightarrow> rat \<Rightarrow> 'r tenant_quota \<Rightarrow> bool \<times> 'r tenant_quota" where
  "consume now amount q0 =
     (let q = refill now q0 in
      if tq_tokens q < amount then (False, q)
      else (True, q\<lparr>tq_tokens := tq_tokens q - amount, tq_total_consumed := tq_total_consumed q + amount\<rparr>))"

definition put_quota :: "string \<Rightarrow> 'r tenant_quota \<Rightarrow> 'r enforcer \<Rightarrow> 'r enforcer" where
  "put_quota tid q e = e\<lparr>en_quotas := AList.update tid q (en_quotas e)\<rparr>"

definition set_tenant_quota :: "rat \<Rightarrow> string \<Rightarrow> rat \<Rightarrow> rat \<Rightarrow> rat \<Rightarrow> 'r enforcer \<Rightarrow> 'r tenant_quota \<times> 'r enforcer" where
  "set_tenant_quota now tid tpm burst weight e =
     (case map_of (en_quotas e) tid of
        Some q \<Rightarrow> let q' = q\<lparr>tq_tokens_per_minute := tpm, tq_burst := burst, tq_weight := weight\<rparr> in (q', put_quota tid q' e)
      | None \<Rightarrow> let q = \<lparr>tq_tenant_id = tid, tq_tokens_per_minute = tpm, tq_burst = burst, tq_weight = weight, tq_tokens = 5000, tq_last_refill = now,
                         tq_total_consumed = 0, tq_queued_requests = []\<rparr>
                in (q, (put_quota tid q e)\<lparr>en_deficit := AList.update tid 0 (en_deficit e)\<rparr>))"

definition remove_tenant :: "string \<Rightarrow> 'r enforcer \<Rightarrow> 'r enforcer" where
  "remove_tenant tid e = e\<lparr>en_quotas := AList.delete tid (en_quotas e), en_deficit := AList.delete tid (en_deficit e)\<rparr>"

definition try_consume :: "rat \<Rightarrow> string \<Rightarrow> rat \<Rightarrow> 'r enforcer \<Rightarrow> bool \<times> 'r enforcer" where
  "try_consume now tid tokens e =
     (case map_of (en_quotas e) tid of None \<Rightarrow> (True, e) | Some q \<Rightarrow> let (ok, q') = consume now tokens q in (ok, put_quota tid q' e))"

definition can_consume :: "rat \<Rightarrow> string \<Rightarrow> rat \<Rightarrow> 'r enforcer \<Rightarrow> bool \<times> 'r enforcer" where
  "can_consume now tid tokens e =
     (case map_of (en_quotas e) tid of None \<Rightarrow> (True, e) | Some q \<Rightarrow> let (ok, q') = tq_can_consume now tokens q in (ok, put_quota tid q' e))"

definition refill_all :: "(string \<Rightarrow> rat) \<Rightarrow> 'r enforcer \<Rightarrow> 'r enforcer" where
  "refill_all clk e = e\<lparr>en_quotas := map (\<lambda>(tid, q). (tid, refill (clk tid) q)) (en_quotas e)\<rparr>"

definition enqueue :: "string \<Rightarrow> 'r \<Rightarrow> 'r enforcer \<Rightarrow> 'r enforcer" where
  "enqueue tid r e = (case map_of (en_quotas e) tid of None \<Rightarrow> e | Some q \<Rightarrow> put_quota tid (q\<lparr>tq_queued_requests := tq_queued_requests q @ [r]\<rparr>) e)"

definition dequeue :: "string \<Rightarrow> 'r enforcer \<Rightarrow> 'r option \<times> 'r enforcer" where
  "dequeue tid e =
     (case map_of (en_quotas e) tid of
        None \<Rightarrow> (None, e)
      | Some q \<Rightarrow> (case tq_queued_requests q of [] \<Rightarrow> (None, e) | r # rs \<Rightarrow> (Some r, put_quota tid (q\<lparr>tq_queued_requests := rs\<rparr>) e)))"

definition queue_of :: "'r enforcer \<Rightarrow> string \<Rightarrow> 'r list" where
  "queue_of e tid = (case map_of (en_quotas e) tid of None \<Rightarrow> [] | Some q \<Rightarrow> tq_queued_requests q)"

definition queue_depth :: "string \<Rightarrow> 'r enforcer \<Rightarrow> nat" where
  "queue_depth tid e = length (queue_of e tid)"

section \<open>Selecting a batch\<close>

definition deficit :: "'r enforcer \<Rightarrow> string \<Rightarrow> rat" where
  "deficit e tid = (case map_of (en_deficit e) tid of None \<Rightarrow> 0 | Some d \<Rightarrow> d)"

definition set_deficit :: "string \<Rightarrow> rat \<Rightarrow> 'r enforcer \<Rightarrow> 'r enforcer" where
  "set_deficit tid d e = e\<lparr>en_deficit := AList.update tid d (en_deficit e)\<rparr>"

text \<open>One slot: every candidate is credited, and of those that can be served the first with the largest deficit is chosen.\<close>

fun scan_tenants :: "(string \<Rightarrow> rat) \<Rightarrow> rat \<Rightarrow> string list \<Rightarrow> string option \<Rightarrow> 'r enforcer \<Rightarrow> py_error + string option \<times> 'r enforcer" where
  "scan_tenants clk mt [] best e = Inr (best, e)"
| "scan_tenants clk mt (tid # ts) best e =
     (case map_of (en_quotas e) tid of
        None \<Rightarrow> Inl KeyError
      | Some q \<Rightarrow>
          let d = deficit e tid + tq_weight q * quantum; e1 = set_deficit tid d e in
          if d \<ge> mt \<and> tq_queued_requests q \<noteq> [] then
            let (ok, q') = tq_can_consume (clk tid) mt q; e2 = put_quota tid q' e1 in
            scan_tenants clk mt ts (if ok \<and> (case best of None \<Rightarrow> True | Some b \<Rightarrow> d > deficit e2 b) then Some tid else best) e2
          else scan_tenants clk mt ts best e1)"

fun serve_slots :: "(nat \<Rightarrow> string \<Rightarrow> rat) \<Rightarrow> rat \<Rightarrow> string list \<Rightarrow> nat \<Rightarrow> nat \<Rightarrow> (string \<times> 'r) list \<Rightarrow> 'r enforcer \<Rightarrow> py_error + (string \<times> 'r) list \<times> 'r enforcer" where
  "serve_slots clk mt cands slot 0 batch e = Inr (batch, e)"
| "serve_slots clk mt cands slot (Suc n) batch e =
     (case scan_tenants (clk slot) mt cands None e of
        Inl err \<Rightarrow> Inl err
      | Inr (None, e1) \<Rightarrow> Inr (batch, e1)
      | Inr (Some tid, e1) \<Rightarrow>
          (case map_of (en_quotas e1) tid of
             None \<Rightarrow> Inl KeyError
           | Some q \<Rightarrow> (case tq_queued_requests q of
                [] \<Rightarrow> Inl IndexError
              | r # rs \<Rightarrow> serve_slots clk mt cands (slot + 1) n (batch @ [(tid, r)]) (set_deficit tid (deficit e1 tid - mt) (put_quota tid (q\<lparr>tq_queued_requests := rs\<rparr>) e1)))))"

definition select_next :: "(nat \<Rightarrow> string \<Rightarrow> rat) \<Rightarrow> int \<Rightarrow> rat \<Rightarrow> 'r enforcer \<Rightarrow> py_error + (string \<times> 'r) list \<times> 'r enforcer" where
  "select_next clk slots mt e =
     (let cands = map fst (filter (\<lambda>(tid, q). tq_queued_requests q \<noteq> []) (en_quotas e))
      in if cands = [] then Inr ([], e) else serve_slots clk mt cands 0 (nat slots) [] e)"

section \<open>What a tenant may consume\<close>

record consumption =
  cs_now :: rat
  cs_tenant :: string
  cs_tokens :: rat

definition consume_event :: "consumption \<Rightarrow> 'r enforcer \<Rightarrow> bool \<times> 'r enforcer" where
  "consume_event c e = try_consume (cs_now c) (cs_tenant c) (cs_tokens c) e"

definition tenant_tokens :: "string \<Rightarrow> consumption \<Rightarrow> rat" where
  "tenant_tokens tid c = (if cs_tenant c = tid then cs_tokens c else 0)"

definition consumption_fits :: "rat \<Rightarrow> consumption \<Rightarrow> bool" where
  "consumption_fits t c \<longleftrightarrow> t \<le> cs_now c \<and> 0 \<le> cs_tokens c"

text \<open>The credit a tenant has spent and not yet got back.\<close>

definition credit :: "rat \<Rightarrow> 'r tenant_quota \<Rightarrow> rat" where
  "credit t q = min (tq_burst q) (tq_tokens q + (t - tq_last_refill q) * (tq_tokens_per_minute q / 60))"

definition has_quota :: "string \<Rightarrow> rat \<Rightarrow> rat \<Rightarrow> 'r enforcer \<Rightarrow> rat \<Rightarrow> bool" where
  "has_quota tid tpm burst e t \<longleftrightarrow> 0 \<le> tpm \<and> 0 \<le> burst \<and>
     (\<exists>q. map_of (en_quotas e) tid = Some q \<and> tq_tokens_per_minute q = tpm \<and> tq_burst q = burst \<and> 0 \<le> tq_tokens q \<and> tq_last_refill q \<le> t)"

definition spent :: "string \<Rightarrow> 'r enforcer \<Rightarrow> rat \<Rightarrow> rat" where
  "spent tid e t = (case map_of (en_quotas e) tid of None \<Rightarrow> 0 | Some q \<Rightarrow> tq_burst q - credit t q)"

lemma refill_credit: "tq_tokens (refill t q) = credit t q" "tq_last_refill (refill t q) = t" "tq_burst (refill t q) = tq_burst q" "tq_tokens_per_minute (refill t q) = tq_tokens_per_minute q"
  by (simp_all add: refill_def credit_def)

lemma credit_now: "credit t (q\<lparr>tq_tokens := x, tq_last_refill := t\<rparr>) = min (tq_burst q) x"
  by (simp add: credit_def)

lemma credit_grows: "0 \<le> tq_tokens_per_minute q \<Longrightarrow> s \<le> t \<Longrightarrow> credit s q \<le> credit t q \<and> credit t q \<le> credit s q + (t - s) * (tq_tokens_per_minute q / 60)"
proof -
  assume r: "0 \<le> tq_tokens_per_minute q" and t: "s \<le> t"
  let ?r = "tq_tokens_per_minute q / 60"
  have e: "(t - tq_last_refill q) * ?r = (s - tq_last_refill q) * ?r + (t - s) * ?r" by (simp add: field_simps)
  have "0 \<le> (t - s) * ?r" using r t by (intro mult_nonneg_nonneg) simp_all
  then show ?thesis unfolding credit_def e min_def by auto
qed

lemma credit_nonneg: "0 \<le> tq_tokens_per_minute q \<Longrightarrow> 0 \<le> tq_burst q \<Longrightarrow> 0 \<le> tq_tokens q \<Longrightarrow> tq_last_refill q \<le> t \<Longrightarrow> 0 \<le> credit t q"
  by (simp add: credit_def)

lemma consume_quota:
  assumes "has_quota tid tpm burst e t" and "consumption_fits t c"
  shows "has_quota tid tpm burst (snd (consume_event c e)) (cs_now c)"
    and "spent tid e t - (cs_now c - t) * (tpm / 60) + (if fst (consume_event c e) then tenant_tokens tid c else 0) \<le> spent tid (snd (consume_event c e)) (cs_now c)"
proof -
  obtain q where q: "map_of (en_quotas e) tid = Some q" "tq_tokens_per_minute q = tpm" "tq_burst q = burst" "0 \<le> tq_tokens q" "tq_last_refill q \<le> t" and p: "0 \<le> tpm" "0 \<le> burst"
    using assms(1) by (auto simp: has_quota_def)
  have t: "t \<le> cs_now c" "0 \<le> cs_tokens c" using assms(2) by (auto simp: consumption_fits_def)
  note cr = credit_grows [of q, OF _ t(1)] credit_nonneg [of q "cs_now c"]
  let ?e = "snd (consume_event c e)"
  have "has_quota tid tpm burst ?e (cs_now c)
      \<and> spent tid e t - (cs_now c - t) * (tpm / 60) + (if fst (consume_event c e) then tenant_tokens tid c else 0) \<le> spent tid ?e (cs_now c)"
  proof (cases "cs_tenant c = tid")
    case True
    let ?k = "credit (cs_now c) q"
    have k: "0 \<le> ?k" "?k \<le> credit t q + (cs_now c - t) * (tpm / 60)" "?k \<le> burst" using cr q p t by (simp_all add: credit_def [of "cs_now c" q])
    let ?r = "consume (cs_now c) (cs_tokens c) q"
    have ev: "consume_event c e = (fst ?r, put_quota tid (snd ?r) e)" using q(1) True by (simp add: consume_event_def try_consume_def case_prod_beta)
    have q': "tq_tokens_per_minute (snd ?r) = tpm" "tq_burst (snd ?r) = burst" "tq_last_refill (snd ?r) = cs_now c"
        "tq_tokens (snd ?r) = (if ?k < cs_tokens c then ?k else ?k - cs_tokens c)" "fst ?r \<longleftrightarrow> \<not> ?k < cs_tokens c"
      using q by (simp_all add: consume_def Let_def refill_credit)
    have cr': "credit (cs_now c) (snd ?r) = tq_tokens (snd ?r)" using q' k t by (simp add: credit_def)
    then show ?thesis using q q' k p True unfolding ev by (auto simp: has_quota_def spent_def tenant_tokens_def put_quota_def)
  next
    case False
    then have "map_of (en_quotas ?e) tid = Some q" using q by (auto simp: consume_event_def try_consume_def put_quota_def Let_def case_prod_beta split: option.splits)
    then show ?thesis using q p t cr False by (auto simp: has_quota_def spent_def tenant_tokens_def)
  qed
  then show "has_quota tid tpm burst ?e (cs_now c)"
    "spent tid e t - (cs_now c - t) * (tpm / 60) + (if fst (consume_event c e) then tenant_tokens tid c else 0) \<le> spent tid ?e (cs_now c)" by auto
qed

lemma quota_cap: "has_quota tid tpm burst e t \<Longrightarrow> spent tid e t \<le> burst"
  by (auto simp: has_quota_def spent_def credit_nonneg)

interpretation tqm: metered consume_event cs_now "tenant_tokens tid" consumption_fits "has_quota tid tpm burst" "spent tid" burst "tpm / 60" for tid tpm burst
  by unfold_locales (rule consume_quota quota_cap; assumption)+


text \<open>What a tenant is admitted to consume directly is at most its burst and its sustained rate over the time since its quota was set, over any sequence of attempts of any tenants.\<close>

theorem quota_bounded:
  assumes "0 \<le> tpm" and "0 \<le> burst" and "map_of (en_quotas e) tid = None" and "follows consumption_fits cs_now t0 cs"
  shows "admitted_by (tenant_tokens tid) (fst (run_steps consume_event cs (snd (set_tenant_quota t0 tid tpm burst weight e)))) \<le> burst + (end_at cs_now t0 cs - t0) * (tpm / 60)"
proof -
  let ?e = "snd (set_tenant_quota t0 tid tpm burst weight e)"
  have "has_quota tid tpm burst ?e t0" "0 \<le> spent tid ?e t0"
    using assms(1-3) by (simp_all add: set_tenant_quota_def Let_def put_quota_def has_quota_def spent_def credit_def)
  with tqm.run_bounded [OF this(1) assms(4)] show ?thesis by linarith
qed

theorem quota_bounded_witness:
  "let as = fst (run_steps consume_event [\<lparr>cs_now = 0, cs_tenant = ''a'', cs_tokens = 80\<rparr>, \<lparr>cs_now = 1, cs_tenant = ''a'', cs_tokens = 80\<rparr>]
     (snd (set_tenant_quota 0 ''a'' 600 100 1 (enforcer_init :: nat enforcer)))) in map snd as = [True, False] \<and> admitted_by (tenant_tokens ''a'') as \<le> 100 + 1 * 10"
proof -
  let ?cs = "[\<lparr>cs_now = 0, cs_tenant = ''a'', cs_tokens = 80\<rparr>, \<lparr>cs_now = 1, cs_tenant = ''a'', cs_tokens = 80\<rparr>]"
  have "map snd (fst (run_steps consume_event ?cs (snd (set_tenant_quota 0 ''a'' 600 100 1 (enforcer_init :: nat enforcer))))) = [True, False]" by code_simp
  then show ?thesis using quota_bounded [of 600 100 "enforcer_init :: nat enforcer" "''a''" 0 ?cs 1] by (simp add: enforcer_init_def consumption_fits_def Let_def)
qed

section \<open>What a selection serves\<close>

definition weight_of :: "'r enforcer \<Rightarrow> string \<Rightarrow> rat" where
  "weight_of e t = (case map_of (en_quotas e) t of None \<Rightarrow> 0 | Some q \<Rightarrow> tq_weight q)"

definition consumed_of :: "'r enforcer \<Rightarrow> string \<Rightarrow> rat" where
  "consumed_of e t = (case map_of (en_quotas e) t of None \<Rightarrow> 0 | Some q \<Rightarrow> tq_total_consumed q)"

definition known :: "'r enforcer \<Rightarrow> string \<Rightarrow> bool" where
  "known e t \<longleftrightarrow> map_of (en_quotas e) t \<noteq> None"

text \<open>Nothing but refills and deficits has changed.\<close>

definition unserved :: "'r enforcer \<Rightarrow> 'r enforcer \<Rightarrow> bool" where
  "unserved e e' \<longleftrightarrow> (\<forall>t. known e' t = known e t \<and> queue_of e' t = queue_of e t \<and> weight_of e' t = weight_of e t \<and> consumed_of e' t = consumed_of e t)"

lemma unserved_trans: "unserved e e1 \<Longrightarrow> unserved e1 e2 \<Longrightarrow> unserved e e2"
  by (simp add: unserved_def)

lemma set_deficit_simps [simp]:
  "en_quotas (set_deficit t d e) = en_quotas e" "deficit (set_deficit t d e) t' = (if t' = t then d else deficit e t')"
  "unserved e (set_deficit t d e)"
  by (simp_all add: set_deficit_def deficit_def unserved_def known_def queue_of_def weight_of_def consumed_of_def)

lemma put_quota_simps [simp]: "deficit (put_quota t q e) = deficit e" "map_of (en_quotas (put_quota t q e)) = (map_of (en_quotas e))(t \<mapsto> q)"
  by (simp_all add: put_quota_def deficit_def fun_eq_iff)

lemma refill_frame [simp]:
  "tq_queued_requests (refill t q) = tq_queued_requests q" "tq_weight (refill t q) = tq_weight q" "tq_total_consumed (refill t q) = tq_total_consumed q"
  by (simp_all add: refill_def)

lemma unserved_refill: "map_of (en_quotas e) t = Some q \<Longrightarrow> unserved e (put_quota t (refill now q) e)"
  by (simp add: unserved_def known_def queue_of_def weight_of_def consumed_of_def)

text \<open>One candidate of a slot.\<close>

lemma scan_Cons:
  assumes "known e tid"
  obtains e1 best' where "scan_tenants clk mt (tid # ts) best e = scan_tenants clk mt ts best' e1" "unserved e e1"
    "\<And>t. deficit e1 t = deficit e t + (if t = tid then weight_of e tid * quantum else 0)" "best' = best \<or> best' = Some tid \<and> queue_of e tid \<noteq> []"
proof -
  obtain q where q: "map_of (en_quotas e) tid = Some q" using assms by (auto simp: known_def)
  let ?d = "deficit e tid + tq_weight q * quantum"
  let ?e1 = "set_deficit tid ?d e"
  have u1: "unserved e ?e1" by simp
  have u2: "unserved e (put_quota tid (refill (clk tid) q) ?e1)" using unserved_trans [OF u1 unserved_refill [of ?e1 tid q]] q by simp
  have w: "weight_of e tid = tq_weight q" and qu: "queue_of e tid = tq_queued_requests q" using q by (simp_all add: weight_of_def queue_of_def)
  show ?thesis
  proof (cases "?d \<ge> mt \<and> tq_queued_requests q \<noteq> []")
    case True
    show ?thesis
      by (rule that [of "if tq_tokens (refill (clk tid) q) \<ge> mt \<and> (case best of None \<Rightarrow> True | Some b \<Rightarrow> ?d > deficit (put_quota tid (refill (clk tid) q) ?e1) b) then Some tid else best"
            "put_quota tid (refill (clk tid) q) ?e1"])
        (use True q u2 w qu in \<open>simp_all add: Let_def tq_can_consume_def\<close>)
  next
    case False
    show ?thesis by (rule that [of best ?e1]) (use False q u1 w in \<open>auto simp: Let_def\<close>)
  qed
qed

lemma scan_spec:
  assumes "\<forall>t \<in> set ts. known e t" and "distinct ts"
  shows "\<exists>b e'. scan_tenants clk mt ts best e = Inr (b, e') \<and> unserved e e' \<and> (b = best \<or> (\<exists>t \<in> set ts. b = Some t \<and> queue_of e t \<noteq> []))
     \<and> (\<forall>t. deficit e' t = deficit e t + (if t \<in> set ts then weight_of e t * quantum else 0))"
  using assms
proof (induction ts arbitrary: best e)
  case Nil
  then show ?case by (simp add: unserved_def)
next
  case (Cons tid ts)
  obtain e1 best' where s: "scan_tenants clk mt (tid # ts) best e = scan_tenants clk mt ts best' e1" "unserved e e1"
    "\<And>t. deficit e1 t = deficit e t + (if t = tid then weight_of e tid * quantum else 0)" "best' = best \<or> best' = Some tid \<and> queue_of e tid \<noteq> []"
    by (rule scan_Cons [of e tid clk mt ts best]) (use Cons.prems(1) in auto)
  have "\<forall>t \<in> set ts. known e1 t" using Cons.prems(1) s(2) by (simp add: unserved_def)
  then obtain b e' where r: "scan_tenants clk mt ts best' e1 = Inr (b, e')" "unserved e1 e'" "b = best' \<or> (\<exists>t \<in> set ts. b = Some t \<and> queue_of e1 t \<noteq> [])"
    "\<forall>t. deficit e' t = deficit e1 t + (if t \<in> set ts then weight_of e1 t * quantum else 0)" using Cons.IH [of e1 best'] Cons.prems(2) by auto
  show ?case unfolding s(1) r(1) using unserved_trans [OF s(2) r(2)] r(3,4) s(2-4) Cons.prems(2) by (auto simp: unserved_def)
qed

lemma serve_spec:
  assumes "\<forall>t \<in> set cands. known e t" and "distinct cands"
  shows "\<exists>more e'. serve_slots clk mt cands slot n batch e = Inr (batch @ more, e') \<and> length more \<le> n \<and> fst ` set more \<subseteq> set cands
     \<and> (\<forall>t. queue_of e t = map snd (filter (\<lambda>x. fst x = t) more) @ queue_of e' t \<and> consumed_of e' t = consumed_of e t)"
  using assms
proof (induction n arbitrary: slot batch e)
  case (Suc n)
  obtain b e1 where s: "scan_tenants (clk slot) mt cands None e = Inr (b, e1)" "unserved e e1" "b = None \<or> (\<exists>t \<in> set cands. b = Some t \<and> queue_of e t \<noteq> [])"
    using scan_spec [OF Suc.prems, of "clk slot" mt None] by blast
  show ?case
  proof (cases b)
    case None
    then show ?thesis using s(1,2) by (intro exI [of _ "[]"] exI [of _ e1]) (simp add: unserved_def)
  next
    case (Some tid)
    then have t: "tid \<in> set cands" "queue_of e1 tid \<noteq> []" "known e1 tid" using s Suc.prems(1) by (auto simp: unserved_def)
    then obtain q r rs where q: "map_of (en_quotas e1) tid = Some q" "tq_queued_requests q = r # rs"
      by (auto simp: known_def queue_of_def neq_Nil_conv)
    let ?e2 = "set_deficit tid (deficit e1 tid - mt) (put_quota tid (q\<lparr>tq_queued_requests := rs\<rparr>) e1)"
    have e2: "known ?e2 t' = known e1 t'" "queue_of e1 t' = (if t' = tid then r # queue_of ?e2 t' else queue_of ?e2 t')" "consumed_of ?e2 t' = consumed_of e1 t'" for t'
      using q by (simp_all add: known_def queue_of_def consumed_of_def)
    have "\<forall>t \<in> set cands. known ?e2 t" using Suc.prems(1) s(2) e2(1) by (simp add: unserved_def)
    then obtain more e' where m: "serve_slots clk mt cands (slot + 1) n (batch @ [(tid, r)]) ?e2 = Inr ((batch @ [(tid, r)]) @ more, e')" "length more \<le> n" "fst ` set more \<subseteq> set cands"
      "\<forall>t. queue_of ?e2 t = map snd (filter (\<lambda>x. fst x = t) more) @ queue_of e' t \<and> consumed_of e' t = consumed_of ?e2 t"
      using Suc.IH [of ?e2 "slot + 1" "batch @ [(tid, r)]"] Suc.prems(2) by blast
    have eq: "serve_slots clk mt cands slot (Suc n) batch e = Inr (batch @ (tid, r) # more, e')" using s(1) Some q m(1) by simp
    have qe: "queue_of e t' = (if t' = tid then r # queue_of ?e2 t' else queue_of ?e2 t')" and ce: "consumed_of ?e2 t' = consumed_of e t'" for t'
      using s(2) e2(2,3) [of t'] by (simp_all add: unserved_def)
    have "queue_of e t' = map snd (filter (\<lambda>x. fst x = t') ((tid, r) # more)) @ queue_of e' t' \<and> consumed_of e' t' = consumed_of e t'" for t'
      using m(4) by (simp add: qe ce)
    then show ?thesis unfolding eq using m(2,3) t(1) by (intro exI [of _ "(tid, r) # more"] exI [of _ e']) auto
  qed
qed simp

text \<open>C38: A selection never raises. It serves at most as many requests as there are slots, for each tenant the oldest ones in order, and keeps all
  others queued; but it charges nobody: what a tenant is recorded to have consumed is the same as before.\<close>

theorem select_next_conserves:
  assumes "dict_wf (en_quotas e)"
  shows "\<exists>batch e'. select_next clk slots mt e = Inr (batch, e') \<and> length batch \<le> nat slots
     \<and> (\<forall>t. queue_of e t = map snd (filter (\<lambda>x. fst x = t) batch) @ queue_of e' t \<and> consumed_of e' t = consumed_of e t)"
proof -
  let ?c = "map fst (filter (\<lambda>(tid, q). tq_queued_requests q \<noteq> []) (en_quotas e))"
  have d: "distinct ?c" using assms by (simp add: dict_wf_def distinct_map_filter)
  have k: "\<forall>t \<in> set ?c. known e t" using assms by (auto simp: known_def dict_mem_iff)
  show ?thesis
  proof (cases "?c = []")
    case True
    then show ?thesis by (simp add: select_next_def)
  next
    case False
    then show ?thesis using serve_spec [OF k d, of clk mt 0 "nat slots" "[]"] by (auto simp: select_next_def Let_def)
  qed
qed


section \<open>Who is starved\<close>

definition visit :: "(string \<Rightarrow> rat) \<Rightarrow> rat \<Rightarrow> string \<Rightarrow> 'r tenant_quota \<Rightarrow> string option \<Rightarrow> 'r enforcer \<Rightarrow> string option \<times> 'r enforcer" where
  "visit clk mt tid q best e =
     (let d = deficit e tid + tq_weight q * quantum; e1 = set_deficit tid d e in
      if d \<ge> mt \<and> tq_queued_requests q \<noteq> []
      then (if credit (clk tid) q \<ge> mt \<and> (case best of None \<Rightarrow> True | Some b \<Rightarrow> d > deficit e1 b) then Some tid else best, put_quota tid (refill (clk tid) q) e1)
      else (best, e1))"

lemma scan_visit: "map_of (en_quotas e) tid = Some q \<Longrightarrow> scan_tenants clk mt (tid # ts) best e = scan_tenants clk mt ts (fst (visit clk mt tid q best e)) (snd (visit clk mt tid q best e))"
  by (cases best) (simp_all add: visit_def tq_can_consume_def Let_def refill_credit)

lemma visit_simps [simp]:
  "deficit (snd (visit clk mt tid q best e)) t = (if t = tid then deficit e tid + tq_weight q * quantum else deficit e t)"
  "t \<noteq> tid \<Longrightarrow> map_of (en_quotas (snd (visit clk mt tid q best e))) t = map_of (en_quotas e) t"
  by (simp_all add: visit_def Let_def)

text \<open>A tenant with credit for a request at every slot from some time on.\<close>

definition rich :: "rat \<Rightarrow> 'r enforcer \<Rightarrow> string \<Rightarrow> rat \<Rightarrow> bool" where
  "rich mt e h t \<longleftrightarrow> (\<exists>q. map_of (en_quotas e) h = Some q \<and> 0 \<le> tq_tokens_per_minute q \<and> mt \<le> tq_burst q \<and> mt \<le> tq_tokens q \<and> tq_last_refill q \<le> t)"

lemma rich_credit: "map_of (en_quotas e) h = Some q \<Longrightarrow> rich mt e h s \<Longrightarrow> s \<le> t \<Longrightarrow> mt \<le> credit t q"
proof -
  assume "map_of (en_quotas e) h = Some q" "rich mt e h s" "s \<le> t"
  then have q: "0 \<le> tq_tokens_per_minute q" "mt \<le> tq_burst q" "mt \<le> tq_tokens q" "tq_last_refill q \<le> t" by (auto simp: rich_def)
  then have "0 \<le> (t - tq_last_refill q) * (tq_tokens_per_minute q / 60)" by (intro mult_nonneg_nonneg) simp_all
  then show ?thesis unfolding credit_def using q(2,3) by linarith
qed

lemma visit_heavy:
  assumes "map_of (en_quotas e) h = Some q" and "rich mt e h s" and "s \<le> clk h" and "tq_queued_requests q \<noteq> []" and "mt \<le> deficit e h + tq_weight q * quantum"
    and "\<forall>b. best = Some b \<longrightarrow> b \<noteq> h \<and> deficit e b < deficit e h + tq_weight q * quantum"
  shows "visit clk mt h q best e = (Some h, put_quota h (refill (clk h) q) (set_deficit h (deficit e h + tq_weight q * quantum) e))"
  using assms(4-6) rich_credit [OF assms(1-3)] by (auto simp: visit_def Let_def split: option.splits)

text \<open>Tenants with less credit than the leader do not displace it.\<close>

lemma scan_after:
  assumes "\<forall>t \<in> set ts. known e t" and "distinct ts" and "h \<notin> set ts" and "\<forall>t \<in> set ts. deficit e t + weight_of e t * quantum \<le> deficit e h"
  shows "\<exists>e'. scan_tenants clk mt ts (Some h) e = Inr (Some h, e') \<and> map_of (en_quotas e') h = map_of (en_quotas e) h"
  using assms
proof (induction ts arbitrary: e)
  case (Cons tid ts)
  obtain q where q: "map_of (en_quotas e) tid = Some q" using Cons.prems(1) by (auto simp: known_def)
  let ?v = "visit clk mt tid q (Some h) e"
  have h: "h \<noteq> tid" using Cons.prems(3) by auto
  have le: "deficit e tid + tq_weight q * quantum \<le> deficit e h" using Cons.prems(4) q by (simp add: weight_of_def)
  then have b: "fst ?v = Some h" using h by (auto simp: visit_def Let_def)
  have "\<forall>t \<in> set ts. known (snd ?v) t \<and> weight_of (snd ?v) t = weight_of e t \<and> deficit (snd ?v) t = deficit e t"
    using Cons.prems(1,2) by (auto simp: known_def weight_of_def)
  then have "\<exists>e'. scan_tenants clk mt ts (Some h) (snd ?v) = Inr (Some h, e') \<and> map_of (en_quotas e') h = map_of (en_quotas (snd ?v)) h"
    using Cons.prems h by (intro Cons.IH) auto
  then show ?case unfolding scan_visit [OF q] b using h by simp
qed simp

lemma scan_heavy:
  assumes "\<forall>t \<in> set ts. known e t" and "distinct ts" and "h \<in> set ts" and "rich mt e h s" and "s \<le> clk h" and "queue_of e h \<noteq> []" and "mt \<le> deficit e h + weight_of e h * quantum"
    and "\<forall>t \<in> set ts. t \<noteq> h \<longrightarrow> deficit e t + weight_of e t * quantum < deficit e h + weight_of e h * quantum"
    and "\<forall>b. best = Some b \<longrightarrow> b \<noteq> h \<and> deficit e b < deficit e h + weight_of e h * quantum"
  shows "\<exists>e' q. scan_tenants clk mt ts best e = Inr (Some h, e') \<and> map_of (en_quotas e) h = Some q \<and> map_of (en_quotas e') h = Some (refill (clk h) q)"
  using assms
proof (induction ts arbitrary: e best)
  case (Cons tid ts)
  obtain q where q: "map_of (en_quotas e) tid = Some q" using Cons.prems(1) by (auto simp: known_def)
  have w: "weight_of e tid = tq_weight q" using q by (simp add: weight_of_def)
  let ?v = "visit clk mt tid q best e"
  have rest: "\<forall>t \<in> set ts. known (snd ?v) t \<and> weight_of (snd ?v) t = weight_of e t \<and> deficit (snd ?v) t = deficit e t"
    using Cons.prems(1,2) by (auto simp: known_def weight_of_def)
  show ?case
  proof (cases "tid = h")
    case True
    have "tq_queued_requests q \<noteq> []" using Cons.prems(6) q True by (simp add: queue_of_def)
    then have v: "?v = (Some h, put_quota h (refill (clk h) q) (set_deficit h (deficit e h + tq_weight q * quantum) e))"
      using visit_heavy [of e h q mt s clk best] q Cons.prems(4,5,7,9) w True by simp
    have "\<exists>e'. scan_tenants clk mt ts (Some h) (snd ?v) = Inr (Some h, e') \<and> map_of (en_quotas e') h = map_of (en_quotas (snd ?v)) h"
      using Cons.prems(2,8) rest True w by (intro scan_after) (auto intro: less_imp_le)
    then show ?thesis unfolding scan_visit [OF q] using v q True by auto
  next
    case False
    have h: "map_of (en_quotas (snd ?v)) h = map_of (en_quotas e) h" "deficit (snd ?v) h = deficit e h" using False by auto
    then have hw: "weight_of (snd ?v) h = weight_of e h" "queue_of (snd ?v) h = queue_of e h" "rich mt (snd ?v) h s" using Cons.prems(4)
      by (simp_all add: weight_of_def queue_of_def rich_def)
    have best: "\<forall>b. fst ?v = Some b \<longrightarrow> b \<noteq> h \<and> deficit (snd ?v) b < deficit e h + weight_of e h * quantum"
      using Cons.prems(8,9) False w by (auto simp: visit_def Let_def split: if_splits option.splits)
    have "\<exists>e' q. scan_tenants clk mt ts (fst ?v) (snd ?v) = Inr (Some h, e') \<and> map_of (en_quotas (snd ?v)) h = Some q \<and> map_of (en_quotas e') h = Some (refill (clk h) q)"
      using Cons.prems False rest h hw best by (intro Cons.IH) auto
    then show ?thesis unfolding scan_visit [OF q] h(1) .
  qed
qed simp


definition leads :: "rat \<Rightarrow> string list \<Rightarrow> 'r enforcer \<Rightarrow> string \<Rightarrow> bool" where
  "leads mt cands e h \<longleftrightarrow> 0 \<le> deficit e h \<and> mt \<le> weight_of e h * quantum
     \<and> (\<forall>t \<in> set cands. t \<noteq> h \<longrightarrow> deficit e t \<le> deficit e h \<and> weight_of e t * quantum + mt \<le> weight_of e h * quantum)"

lemma serve_heavy:
  assumes "\<forall>t \<in> set cands. known e t" and "distinct cands" and "h \<in> set cands" and "0 < mt" and "\<forall>k. clk k h \<le> clk (k + 1) h"
    and "rich mt e h s" and "s \<le> clk slot h" and "n \<le> length (queue_of e h)" and "leads mt cands e h"
  shows "\<exists>e'. serve_slots clk mt cands slot n batch e = Inr (batch @ map (Pair h) (take n (queue_of e h)), e')"
  using assms(1,6-9)
proof (induction n arbitrary: slot batch e s)
  case (Suc n)
  have dh: "mt \<le> deficit e h + weight_of e h * quantum" using Suc.prems(5) by (auto simp: leads_def)
  have lt: "\<forall>t \<in> set cands. t \<noteq> h \<longrightarrow> deficit e t + weight_of e t * quantum + mt \<le> deficit e h + weight_of e h * quantum"
    using Suc.prems(5) unfolding leads_def by fastforce
  have ne: "queue_of e h \<noteq> []" using Suc.prems(4) by auto
  have "\<exists>e1 q. scan_tenants (clk slot) mt cands None e = Inr (Some h, e1) \<and> map_of (en_quotas e) h = Some q \<and> map_of (en_quotas e1) h = Some (refill (clk slot h) q)"
    by (rule scan_heavy [where s = s and clk = "clk slot", OF Suc.prems(1) assms(2,3) Suc.prems(2,3) ne dh]) (use lt assms(4) in fastforce)+
  then obtain e1 q where s: "scan_tenants (clk slot) mt cands None e = Inr (Some h, e1)" "map_of (en_quotas e) h = Some q" "map_of (en_quotas e1) h = Some (refill (clk slot h) q)" by blast
  have u: "unserved e e1" "\<forall>t. deficit e1 t = deficit e t + (if t \<in> set cands then weight_of e t * quantum else 0)"
    using scan_spec [OF Suc.prems(1) assms(2), of "clk slot" mt None] s(1) by auto
  obtain r rs where r: "tq_queued_requests q = r # rs" "queue_of e h = r # rs" using ne s(2) by (auto simp: queue_of_def neq_Nil_conv)
  let ?q = "(refill (clk slot h) q)\<lparr>tq_queued_requests := rs\<rparr>"
  let ?e2 = "set_deficit h (deficit e1 h - mt) (put_quota h ?q e1)"
  have w: "weight_of ?e2 t = weight_of e t" "known ?e2 t = known e t" for t using u(1) s(2,3) by (auto simp: unserved_def weight_of_def known_def)
  have "mt \<le> credit (clk slot h) q" using rich_credit [OF s(2) Suc.prems(2,3)] .
  then have rich: "rich mt ?e2 h (clk slot h)" using Suc.prems(2) s(2) by (auto simp: rich_def refill_credit)
  have leads: "leads mt cands ?e2 h" using Suc.prems(5) lt u(2) assms(3) w(1) by (fastforce simp: leads_def)
  have q2: "queue_of ?e2 h = rs" by (simp add: queue_of_def)
  have "\<exists>e'. serve_slots clk mt cands (slot + 1) n (batch @ [(h, r)]) ?e2 = Inr ((batch @ [(h, r)]) @ map (Pair h) (take n (queue_of ?e2 h)), e')"
    using Suc.prems(1,4) w(2) r(2) assms(5) rich leads q2 by (intro Suc.IH [of _ "clk slot h"]) auto
  then show ?case using s(1,3) r q2 by simp
qed simp


definition sample_tenants :: "nat enforcer" where
  "sample_tenants = fold (\<lambda>(t, r). enqueue t r) [(''light'', 1), (''heavy'', 2), (''heavy'', 3), (''heavy'', 4)]
     (snd (set_tenant_quota 0 ''heavy'' 600 100 2 (snd (set_tenant_quota 0 ''light'' 600 100 1 enforcer_init))))"


theorem select_next_conserves_witness:
  "\<exists>batch e'. select_next (\<lambda>k t. 1) 2 1 sample_tenants = Inr (batch, e') \<and> length batch \<le> 2 \<and> [2, 3, 4] = map snd (filter (\<lambda>x. fst x = ''heavy'') batch) @ queue_of e' ''heavy''"
proof -
  have "dict_wf (en_quotas sample_tenants)" "queue_of sample_tenants ''heavy'' = [2, 3, 4]"
    by (simp_all add: sample_tenants_def enqueue_def set_tenant_quota_def put_quota_def Let_def enforcer_init_def dict_wf_def queue_of_def)
  from select_next_conserves [OF this(1), of "\<lambda>k t. 1" 2 1] this(2) show ?thesis by fastforce
qed

end
