(* ===== verification/Coherence.thy ===== *)
theory Coherence
  imports Prelude Complex_Main
begin

text \<open>
  \<^verbatim>\<open>CacheCoherenceProtocol\<close> of \<^verbatim>\<open>src/distllm/core/cache_coherence.py\<close>: version vectors per cached prefix. Each operation holds the lock and is one step;
  readings of the clock are arguments. A broadcast after an invalidation is an effect on the peers: the operation returns the
  prefix to broadcast, and whether the callback raises makes no difference to the state.
\<close>

section \<open>One node\<close>

record coherence =
  cc_node_id :: string
  cc_vector_clocks :: "(string, (string, nat) dict) dict"
  cc_invalidated :: "(string, rat) dict"
  cc_last_activity :: "(string, rat) dict"

definition coherence_init :: "string \<Rightarrow> coherence" where
  "coherence_init nid = \<lparr>cc_node_id = nid, cc_vector_clocks = [], cc_invalidated = [], cc_last_activity = []\<rparr>"

definition coh_clocks :: "string \<Rightarrow> coherence \<Rightarrow> (string, nat) dict" where
  "coh_clocks p c = (case map_of (cc_vector_clocks c) p of None \<Rightarrow> [] | Some vc \<Rightarrow> vc)"

definition clock_of :: "coherence \<Rightarrow> string \<Rightarrow> string \<Rightarrow> nat" where
  "clock_of c p nid = (case map_of (coh_clocks p c) nid of None \<Rightarrow> 0 | Some v \<Rightarrow> v)"

definition set_clock :: "string \<Rightarrow> string \<Rightarrow> nat \<Rightarrow> coherence \<Rightarrow> coherence" where
  "set_clock p nid v c = c\<lparr>cc_vector_clocks := AList.update p (AList.update nid v (coh_clocks p c)) (cc_vector_clocks c)\<rparr>"

definition on_store :: "rat \<Rightarrow> string \<Rightarrow> coherence \<Rightarrow> nat \<times> coherence" where
  "on_store now p c =
     (let new_clock = clock_of c p (cc_node_id c) + 1
      in (new_clock, (set_clock p (cc_node_id c) new_clock c)\<lparr>cc_last_activity := AList.update p now (cc_last_activity c)\<rparr>))"

definition on_receive :: "string \<Rightarrow> string \<Rightarrow> nat \<Rightarrow> coherence \<Rightarrow> bool \<times> coherence" where
  "on_receive p remote remote_clock c0 =
     (let c = (if map_of (cc_vector_clocks c0) p = None then c0\<lparr>cc_vector_clocks := AList.update p [] (cc_vector_clocks c0)\<rparr> else c0)
      in if remote_clock > clock_of c p remote then (True, set_clock p remote remote_clock c) else (False, c))"

definition is_stale :: "string \<Rightarrow> (string, nat) dict \<Rightarrow> coherence \<Rightarrow> bool" where
  "is_stale p remote c = list_ex (\<lambda>(nid, v). v > (case map_of remote nid of None \<Rightarrow> 0 | Some r \<Rightarrow> r)) (coh_clocks p c)"

definition invalidate :: "rat \<Rightarrow> rat \<Rightarrow> string \<Rightarrow> coherence \<Rightarrow> string \<times> coherence" where
  "invalidate t1 t2 p c =
     (p, (set_clock p (cc_node_id c) (clock_of c p (cc_node_id c) + 1) c)\<lparr>cc_invalidated := AList.update p t1 (cc_invalidated c), cc_last_activity := AList.update p t2 (cc_last_activity c)\<rparr>)"

definition get_invalidated_since :: "rat \<Rightarrow> coherence \<Rightarrow> string list" where
  "get_invalidated_since since c = map fst (filter (\<lambda>(h, t). t > since) (cc_invalidated c))"

definition cleanup_old_entries :: "rat \<Rightarrow> rat \<Rightarrow> coherence \<Rightarrow> nat \<times> coherence" where
  "cleanup_old_entries now max_age c =
     (let cutoff = now - max_age; old = map fst (filter (\<lambda>(h, t). t < cutoff) (cc_last_activity c))
      in (length old, c\<lparr>cc_last_activity := fold AList.delete old (cc_last_activity c), cc_invalidated := fold AList.delete old (cc_invalidated c),
            cc_vector_clocks := fold AList.delete old (cc_vector_clocks c)\<rparr>))"

section \<open>Nodes that exchange clocks\<close>

text \<open>The state of every node and the announcements sent so far; an announcement may arrive at any node, any number of times, in any order, or never.\<close>

record coh_net =
  cn_node :: "string \<Rightarrow> coherence"
  cn_sent :: "(string \<times> string \<times> nat) set"

definition net_init :: coh_net where
  "net_init = \<lparr>cn_node = coherence_init, cn_sent = {}\<rparr>"

inductive coh_step :: "coh_net \<Rightarrow> coh_net \<Rightarrow> bool" where
  store: "on_store now p (cn_node s n) = (v, c) \<Longrightarrow> coh_step s \<lparr>cn_node = (cn_node s)(n := c), cn_sent = insert (n, p, v) (cn_sent s)\<rparr>"
| invalidation: "invalidate t1 t2 p (cn_node s n) = (h, c) \<Longrightarrow> coh_step s \<lparr>cn_node = (cn_node s)(n := c), cn_sent = insert (n, p, clock_of c p n) (cn_sent s)\<rparr>"
| receive: "(m, p, v) \<in> cn_sent s \<Longrightarrow> m \<noteq> n \<Longrightarrow> on_receive p m v (cn_node s n) = (b, c) \<Longrightarrow> coh_step s (s\<lparr>cn_node := (cn_node s)(n := c)\<rparr>)"

inductive coh_reachable :: "coh_net \<Rightarrow> bool" where
  start: "coh_reachable net_init"
| step: "coh_reachable s \<Longrightarrow> coh_step s s' \<Longrightarrow> coh_reachable s'"

lemma set_clock_simps [simp]:
  "clock_of (set_clock p n v c) p' n' = (if p' = p \<and> n' = n then v else clock_of c p' n')" "cc_node_id (set_clock p n v c) = cc_node_id c"
  by (auto simp: clock_of_def coh_clocks_def set_clock_def split: option.splits)

lemma clock_of_activity [simp]: "clock_of (c\<lparr>cc_last_activity := a\<rparr>) = clock_of c" "clock_of (c\<lparr>cc_invalidated := i\<rparr>) = clock_of c"
  by (simp_all add: clock_of_def coh_clocks_def fun_eq_iff)

lemma touch_clock [simp]: "map_of (cc_vector_clocks c) p = None \<Longrightarrow> clock_of (c\<lparr>cc_vector_clocks := AList.update p [] (cc_vector_clocks c)\<rparr>) = clock_of c"
  by (auto simp: clock_of_def coh_clocks_def fun_eq_iff split: option.splits)

lemma receive_clock:
  "fst (on_receive p m v c) \<longleftrightarrow> clock_of c p m < v" "clock_of (snd (on_receive p m v c)) p' m' = (if p' = p \<and> m' = m then max v (clock_of c p m) else clock_of c p' m')"
  "cc_node_id (snd (on_receive p m v c)) = cc_node_id c"
  by (auto simp: on_receive_def Let_def)

lemma store_clock: "on_store now p c = (v, c') \<Longrightarrow> v = Suc (clock_of c p (cc_node_id c)) \<and> cc_node_id c' = cc_node_id c
   \<and> (\<forall>p' m. clock_of c' p' m = (if p' = p \<and> m = cc_node_id c then v else clock_of c p' m))"
  by (auto simp: on_store_def Let_def)

lemma invalidate_clock: "invalidate t1 t2 p c = (h, c') \<Longrightarrow> h = p \<and> cc_node_id c' = cc_node_id c
   \<and> (\<forall>p' m. clock_of c' p' m = (if p' = p \<and> m = cc_node_id c then Suc (clock_of c p m) else clock_of c p' m))"
  by (auto simp: invalidate_def)

text \<open>Nobody knows a version of a node that the node has not reached.\<close>

definition coh_inv :: "coh_net \<Rightarrow> bool" where
  "coh_inv s \<longleftrightarrow> (\<forall>n. cc_node_id (cn_node s n) = n) \<and> (\<forall>n p m. clock_of (cn_node s n) p m \<le> clock_of (cn_node s m) p m)
     \<and> (\<forall>(m, p, v) \<in> cn_sent s. v \<le> clock_of (cn_node s m) p m)"

lemma coh_inv_own:
  assumes "coh_inv s" and "cc_node_id c = n" and "\<And>p' m. clock_of c p' m = (if p' = p \<and> m = n then Suc (clock_of (cn_node s n) p n) else clock_of (cn_node s n) p' m)"
  shows "coh_inv \<lparr>cn_node = (cn_node s)(n := c), cn_sent = insert (n, p, Suc (clock_of (cn_node s n) p n)) (cn_sent s)\<rparr>"
  using assms by (fastforce simp: coh_inv_def le_SucI)

lemma coh_step_inv: "coh_step s s' \<Longrightarrow> coh_inv s \<Longrightarrow> coh_inv s'"
proof (induction rule: coh_step.induct)
  case (store now p s n v c)
  then have n: "cc_node_id (cn_node s n) = n" by (simp add: coh_inv_def)
  from store_clock [OF store(1)] n have "v = Suc (clock_of (cn_node s n) p n)" "cc_node_id c = n"
    "\<And>p' m. clock_of c p' m = (if p' = p \<and> m = n then Suc (clock_of (cn_node s n) p n) else clock_of (cn_node s n) p' m)" by auto
  then show ?case using coh_inv_own [OF store(2)] by simp
next
  case (invalidation t1 t2 p s n h c)
  then have n: "cc_node_id (cn_node s n) = n" by (simp add: coh_inv_def)
  from invalidate_clock [OF invalidation(1)] n have c: "cc_node_id c = n"
    "\<And>p' m. clock_of c p' m = (if p' = p \<and> m = n then Suc (clock_of (cn_node s n) p n) else clock_of (cn_node s n) p' m)" by auto
  then show ?case using coh_inv_own [OF invalidation(2) c] by simp
next
  case (receive m p v s n b c)
  have c: "c = snd (on_receive p m v (cn_node s n))" using receive(3) by simp
  have v: "v \<le> clock_of (cn_node s m) p m" using receive(1,4) by (auto simp: coh_inv_def)
  show ?case unfolding coh_inv_def
  proof (intro conjI allI ballI)
    show "cc_node_id (cn_node (s\<lparr>cn_node := (cn_node s)(n := c)\<rparr>) k) = k" for k using receive(4) by (simp add: coh_inv_def c receive_clock)
    show "clock_of (cn_node (s\<lparr>cn_node := (cn_node s)(n := c)\<rparr>) k) p' m' \<le> clock_of (cn_node (s\<lparr>cn_node := (cn_node s)(n := c)\<rparr>) m') p' m'" for k p' m'
      using receive(2,4) v by (auto simp: coh_inv_def c receive_clock)
    show "case x of (m', p', w) \<Rightarrow> w \<le> clock_of (cn_node (s\<lparr>cn_node := (cn_node s)(n := c)\<rparr>) m') p' m'" if "x \<in> cn_sent (s\<lparr>cn_node := (cn_node s)(n := c)\<rparr>)" for x
      using that receive(2,4) by (fastforce simp: coh_inv_def c receive_clock)
  qed
qed

lemma coh_reachable_inv: "coh_reachable s \<Longrightarrow> coh_inv s"
proof (induction rule: coh_reachable.induct)
  case start
  then show ?case by (simp add: coh_inv_def net_init_def coherence_init_def clock_of_def coh_clocks_def)
qed (rule coh_step_inv)

lemma is_staleI: "map_of (coh_clocks p c) n = Some v \<Longrightarrow> (case map_of remote n of None \<Rightarrow> 0 | Some r \<Rightarrow> r) < v \<Longrightarrow> is_stale p remote c"
  by (auto simp: is_stale_def list_ex_iff dest!: map_of_SomeD intro!: bexI [of _ "(n, v)"])


lemma sample_reachable: "coh_reachable \<lparr>cn_node = (cn_node net_init)(''a'' := snd (on_store 1 ''x'' (coherence_init ''a''))), cn_sent = {(''a'', ''x'', 1)}\<rparr>"
proof -
  have "on_store 1 ''x'' (cn_node net_init ''a'') = (1, snd (on_store 1 ''x'' (coherence_init ''a'')))"
    by (simp add: net_init_def on_store_def coherence_init_def clock_of_def coh_clocks_def)
  from coh_step.store [OF this] have "coh_step net_init \<lparr>cn_node = (cn_node net_init)(''a'' := snd (on_store 1 ''x'' (coherence_init ''a''))), cn_sent = {(''a'', ''x'', 1)}\<rparr>"
    by (simp add: net_init_def)
  then show ?thesis by (rule coh_reachable.step [OF coh_reachable.start])
qed


section \<open>Garbage collection\<close>

lemma map_of_fold_delete: "map_of (fold AList.delete ks d) k = (if k \<in> set ks then None else map_of d k)"
  by (induction ks arbitrary: d) auto

lemma cleanup_clock:
  "clock_of (snd (cleanup_old_entries now age c)) p n = (if \<exists>t. (p, t) \<in> set (cc_last_activity c) \<and> t < now - age then 0 else clock_of c p n)"
  by (force simp: cleanup_old_entries_def Let_def clock_of_def coh_clocks_def map_of_fold_delete)

text \<open>Collecting a prefix resets the node's own clock: what it stores afterwards is no news to a peer that knew an earlier version.\<close>

lemma cleanup_hides_stores:
  assumes "(p, t) \<in> set (cc_last_activity c)" and "t < now - age" and "1 \<le> clock_of peer p (cc_node_id c)"
    and "on_store now' p (snd (cleanup_old_entries now age c)) = (v, c')"
  shows "v = 1 \<and> \<not> fst (on_receive p (cc_node_id c) v peer)"
proof -
  have "cc_node_id (snd (cleanup_old_entries now age c)) = cc_node_id c" by (simp add: cleanup_old_entries_def Let_def)
  moreover have "\<exists>t. (p, t) \<in> set (cc_last_activity c) \<and> t < now - age" using assms(1,2) by blast
  ultimately have "v = 1" using store_clock [OF assms(4)] by (simp add: cleanup_clock)
  then show ?thesis using assms(3) by (simp add: receive_clock)
qed

text \<open>A prefix known from announcements only has no activity and is never collected.\<close>

lemma received_never_collected:
  "cc_last_activity (snd (on_receive p m v c)) = cc_last_activity c"
  "p \<notin> fst ` set (cc_last_activity c) \<Longrightarrow> clock_of (snd (cleanup_old_entries now age c)) p n = clock_of c p n"
  by (auto simp: on_receive_def Let_def set_clock_def) (force simp: cleanup_clock)

end
