(* ===== verification/Spec2Isabelle.thy ===== *)
theory Spec2Isabelle
  imports Prelude Crdt CrdtSystem RadixTree DigestWire PrefixIndex Merkle HashRing Kademlia DhtStore SplitBrain BlockPool Heapq Sequences KvCache Preemption Budget Latency BatchScheduler Batching Raft RaftCluster RaftLog RaftElection Topology Pbft PbftSafety PbftProgress Quorum VectorClock BftCoordinator Partition CostModel SpecVerify SpecControl Metering LeakyBucket Quota Coherence
begin

text \<open>
  \<^bold>\<open>A verification library for distributed-llm\<close>

  The repository serves large language models from a cluster of machines. This library models the parts that carry its own
  logic, the replicated and distributed data structures, the consensus log and the request scheduler, and proves what
  makes them correct. Paths below are relative to \<^verbatim>\<open>src/distllm/\<close>.

  \<^bold>\<open>Parts of the program and how they interact\<close>

  Requests enter the batch scheduler, which keeps a heap of waiting sequences and a set of active ones, forms a batch per
  iteration under a token budget, preempts and restores sequences, and takes key/value cache blocks from a paged block
  pool. Finished prefixes are kept in a trie of token sequences and announced to other clusters through an index that is
  itself a replicated map with hybrid logical clocks; digests travel in a binary format, Merkle trees find differing
  blocks. Keys are assigned to nodes by a consistent-hash ring, peers find each other with a Kademlia table, a quorum
  detector decides which side of a partition may serve, and the cluster topology is agreed on with a Raft log whose
  committed entries update a node table in memory and in a database. A second, Byzantine consensus is offered by a coordinator that
  wraps a PBFT node, a quorum manager for clients and a vector-clock detector of conflicting updates. Before serving, a partitioner
  assigns consecutive layers of the model to nodes with an optimizer over a cost model. Decoding may verify the tokens of a draft model in
  one pass of the target model; requests pass a rate limiter and the quotas of their tenant, and nodes keep versions of cached prefixes.

  \<^bold>\<open>Theories\<close>

  \<^item> \<^verbatim>\<open>Prelude\<close>: Python dictionaries as association lists in insertion order, exceptions as values, collections of
    simplification rules, decimal printing, and the locales \<^verbatim>\<open>convergent\<close> of replicated types and \<^verbatim>\<open>voting_quorums\<close> of quorum systems.
  \<^item> \<^verbatim>\<open>Crdt\<close>, \<^verbatim>\<open>CrdtSystem\<close> (\<^verbatim>\<open>cache/crdt.py\<close>): hybrid clocks, registers, observed-remove sets and the cache map; a system of
    replicas as a step relation. Convergence, add-wins, strictly increasing stamps, refinement of a map.
  \<^item> \<^verbatim>\<open>RadixTree\<close> (\<^verbatim>\<open>core/radix_tree_cache.py\<close>): insertion, longest-prefix lookup, eviction and memory accounting of the trie.
  \<^item> \<^verbatim>\<open>DigestWire\<close>, \<^verbatim>\<open>PrefixIndex\<close> (\<^verbatim>\<open>cache/cross_cluster_prefix_index.py\<close>): the byte format of digests with its round trip, and the
    gossip of the cross-cluster index.
  \<^item> \<^verbatim>\<open>Merkle\<close> (\<^verbatim>\<open>dist/merkle.py\<close>): construction, proofs and diff, for every hash function; soundness for collision-free ones.
  \<^item> \<^verbatim>\<open>HashRing\<close> (\<^verbatim>\<open>dist/routing/consistent_hash.py\<close>): binary search, replicas, minimal remapping.
  \<^item> \<^verbatim>\<open>Kademlia\<close>, \<^verbatim>\<open>DhtStore\<close> (\<^verbatim>\<open>dist/p2p/kademlia_dht.py\<close>): routing table, nearest nodes, token-protected storage.
  \<^item> \<^verbatim>\<open>SplitBrain\<close> (\<^verbatim>\<open>core/split_brain.py\<close>): heartbeats, quorum and fencing tokens.
  \<^item> \<^verbatim>\<open>BlockPool\<close> (\<^verbatim>\<open>dist/block_pool.py\<close>): free list, eviction, swapping and growth of the block pool.
  \<^item> \<^verbatim>\<open>Heapq\<close>: the algorithms of Python's \<^verbatim>\<open>heapq\<close> with comparisons that may raise, in the locale \<^verbatim>\<open>key_order\<close>.
  \<^item> \<^verbatim>\<open>Sequences\<close>, \<^verbatim>\<open>KvCache\<close>, \<^verbatim>\<open>Preemption\<close>, \<^verbatim>\<open>Budget\<close>, \<^verbatim>\<open>Latency\<close> (\<^verbatim>\<open>core/scheduler/\<close>, \<^verbatim>\<open>core/advanced_scheduling/\<close>,
    \<^verbatim>\<open>core/request_latency.py\<close>): the scheduler's data, its cache manager, preemption, budgets and policies, latency records.
  \<^item> \<^verbatim>\<open>BatchScheduler\<close>, \<^verbatim>\<open>Batching\<close> (\<^verbatim>\<open>core/batch_scheduler.py\<close>): the iteration loop and its properties: what promotion conserves,
    the flat token layout, the effect of \<^verbatim>\<open>step\<close>, re-prioritisation in the heap.
  \<^item> \<^verbatim>\<open>Raft\<close>, \<^verbatim>\<open>RaftCluster\<close>, \<^verbatim>\<open>RaftLog\<close>, \<^verbatim>\<open>RaftElection\<close>, \<^verbatim>\<open>Topology\<close> (\<^verbatim>\<open>dist/topology_consensus.py\<close>): the consensus node, elections and
    replication as an interleaving of steps, and the topology manager on top of them.
  \<^item> \<^verbatim>\<open>Pbft\<close>, \<^verbatim>\<open>PbftSafety\<close>, \<^verbatim>\<open>PbftProgress\<close> (\<^verbatim>\<open>dist/byzantine.py\<close>): the PBFT node; agreement within a view against an adversary who controls
    the faulty members and the network; when a round commits, how many requests a primary takes, what one crash does, what
    view changes keep and what they allow.
  \<^item> \<^verbatim>\<open>Quorum\<close>, \<^verbatim>\<open>VectorClock\<close>, \<^verbatim>\<open>BftCoordinator\<close> (\<^verbatim>\<open>dist/byzantine.py\<close>): the quorum tests and the agreement of clients; vector clocks,
    what the conflict detector can report and how differing states are resolved; the coordinator, whose history refines the
    commits of its node.
  \<^item> \<^verbatim>\<open>Partition\<close> (\<^verbatim>\<open>dist/partition/optimizer.py\<close>): the assignment of layers to nodes by dynamic programming and by beam search; the table's
    answer is a valid partition with the least slowest time, every answer is a partition of the layers within the memory.
  \<^item> \<^verbatim>\<open>CostModel\<close> (\<^verbatim>\<open>dist/partition/cost_model.py\<close>, \<^verbatim>\<open>topology.py\<close>, \<^verbatim>\<open>profiles.py\<close>, \<^verbatim>\<open>partitioner.py\<close>): the estimates, and the partitioner that runs the
    optimizer on them. The plan is the fastest on these estimates, stays within four fifths of each memory, and assigns every layer once.
  \<^item> \<^verbatim>\<open>SpecVerify\<close> (\<^verbatim>\<open>core/spec_verify.py\<close>, \<^verbatim>\<open>core/draft_tree.py\<close>): the acceptance of draft tokens. The batched kernel agrees with the sequential loop, greedy
    verification loses nothing against the target model, and what a generated draft tree can have accepted.
  \<^item> \<^verbatim>\<open>SpecControl\<close> (\<^verbatim>\<open>core/dynamic_speculation.py\<close>): the controller of the number of draft tokens, which direction it steers in and that it keeps its limits.
  \<^item> \<^verbatim>\<open>Metering\<close>, \<^verbatim>\<open>LeakyBucket\<close> (\<^verbatim>\<open>core/leaky_bucket_limiter.py\<close>), \<^verbatim>\<open>Quota\<close> (\<^verbatim>\<open>dist/quota_enforcer.py\<close>): the contract of rate limiters; the limiter with backoff and cleanup,
    how much it admits at most and that a patient client is admitted; tenant quotas, what a selection serves, and whom it starves.
  \<^item> \<^verbatim>\<open>Coherence\<close> (\<^verbatim>\<open>core/cache_coherence.py\<close>): version vectors of cached prefixes, as nodes that exchange announcements; every store is
    news to the others until garbage collection forgets the versions.

  \<^bold>\<open>Interfaces\<close>

  \<^verbatim>\<open>convergent\<close> is interpreted by registers, optional registers and views of the cache map; \<^verbatim>\<open>cache_map\<close> (what the index needs of
  the map) by the cache map; \<^verbatim>\<open>entry_store\<close> (what eviction needs of the trie) by the trie; \<^verbatim>\<open>key_order\<close> (what the heap needs of
  a comparison) by the entries of the pending queue; \<^verbatim>\<open>row_table\<close> (what the topology manager needs of the database) by the table of
  nodes; \<^verbatim>\<open>voting_quorums\<close> (two quorums share an honest member, so a decision is unique) by the quorums of the PBFT nodes and of the
  quorum manager; \<^verbatim>\<open>timed_costs\<close> (what the optimizer's figures need of a cost model) by the cost model; \<^verbatim>\<open>metered\<close> (what
  a rate limiter fills and empties) by the leaky buckets and the tenant quotas. The readings of vector clocks
  are a further \<^verbatim>\<open>convergent\<close> type.

  \<^bold>\<open>Conventions\<close>

  Objects are records, mutation is state passing, and shared \<^verbatim>\<open>Sequence\<close> objects live in a store indexed by references.
  An operation that may raise returns a sum or an optional \<open>py_error\<close> with the state at that point. Floating-point
  numbers are rationals, clocks and random choices are arguments, locks are implicit: an operation that holds a lock is
  one step. Code outside the repository (hash functions, signatures, tensors, the paged attention manager, transports, constraint
  objects) is a parameter; what is assumed of it is a hypothesis of the theorem that needs it. Loops are structural or
  carry a termination measure; the promotion loop counts the entries of the heap, of which each round removes one.

  \<^bold>\<open>Not modelled\<close>

  The HTTP server, the command line, the SDK and the dashboards are input and output around these parts. Backends, attention kernels
  and quantisation are tensor programs of third-party libraries. Transports and discovery are decided by the operating
  system. Report dictionaries and log output have no effect on the state and are left out. Quantisation tuning of a partition is left out
  for the same reason as quantisation itself. Draft models, the loops of the speculative decoders around the verification,
  routing scores and grammar-constrained decoding are not modelled.
\<close>

end
